(* ===== verification/Prelude.thy ===== *)
theory Prelude
  imports Main "HOL-Library.Word" "HOL-Library.Char_ord"
begin

unbundle bit_operations_syntax

text \<open>
  Shared vocabulary of the development: the machine types of the COR24 (24-bit
  \<open>int\<close>, 8-bit \<open>char\<close>, byte-addressed memory), the hexadecimal digits every serial
  protocol of the repository is written in, and the facts on bits, words and lists that
  the component theories share.  The \<open>named_theorems\<close> collections gather the facts that
  the component proofs pass to \<open>simp\<close>.
\<close>

named_theorems hexes "facts about hexadecimal digits and numerals"
named_theorems arith24 "facts about 24-bit machine integers"

section \<open>Machine types\<close>

text \<open>
  \<open>cc24\<close>'s \<open>int\<close> and pointers are 24 bits wide, its \<open>char\<close> is 8 bits wide and signed
  (the listings under \<open>reference/\<close> load it with the sign-extending \<open>lb\<close> and compare it
  with \<open>cls\<close>).  Arithmetic wraps around.
\<close>

type_synonym i24 = "24 word"
type_synonym u8 = "8 word"
type_synonym ram = "i24 \<Rightarrow> u8"

text \<open>
  What a store instruction does to memory is hardware, not code of the repository: the
  definitions that write memory take it as a parameter.  \<open>ideal_store\<close> is fault-free RAM.
\<close>

type_synonym store = "ram \<Rightarrow> i24 \<Rightarrow> u8 \<Rightarrow> ram"

definition ideal_store :: store where
  "ideal_store m a b = m(a := b)"

text \<open>The value of a \<open>char\<close> as the code compares it: signed, and as the host sees it: unsigned.\<close>

definition uchar :: "char \<Rightarrow> int" where
  "uchar c = int (of_char c)"

definition schar :: "char \<Rightarrow> int" where
  "schar c = (if uchar c < 128 then uchar c else uchar c - 256)"

lemma uchar_bounds: "0 \<le> uchar c" "uchar c < 256"
proof -
  have "of_char c < (256 :: nat)"
    by (metis char_of_nat nat_of_char_less_256)
  then show "0 \<le> uchar c" "uchar c < 256"
    by (simp_all add: uchar_def)
qed


section \<open>Hexadecimal numerals\<close>

definition hexdigit :: "nat \<Rightarrow> char" where
  "hexdigit d = (if d < 10 then char_of (48 + d) else char_of (55 + d))"

text \<open>The \<open>w\<close> low digits of \<open>n\<close>, most significant first: what \<open>%0wX\<close> prints when \<open>n\<close> fits.\<close>

fun hexpad :: "nat \<Rightarrow> nat \<Rightarrow> string" where
  "hexpad 0 n = []"
| "hexpad (Suc w) n = hexdigit ((n div 16 ^ w) mod 16) # hexpad w n"

lemma length_hexpad [simp, hexes]: "length (hexpad w n) = w"
  by (induction w) auto

lemma nat_less_16_cases:
  fixes d :: nat
  assumes "d < 16"
  obtains "d = 0" | "d = 1" | "d = 2" | "d = 3" | "d = 4" | "d = 5" | "d = 6" | "d = 7"
    | "d = 8" | "d = 9" | "d = 10" | "d = 11" | "d = 12" | "d = 13" | "d = 14" | "d = 15"
proof -
  have "d = 0 \<or> d = 1 \<or> d = 2 \<or> d = 3 \<or> d = 4 \<or> d = 5 \<or> d = 6 \<or> d = 7 \<or>
    d = 8 \<or> d = 9 \<or> d = 10 \<or> d = 11 \<or> d = 12 \<or> d = 13 \<or> d = 14 \<or> d = 15"
    using assms by presburger
  then show ?thesis using that by blast
qed

lemma hexpad_mod: "hexpad w (n mod 16 ^ w) = hexpad w n"
proof -
  have "v \<le> w \<Longrightarrow> hexpad v (n mod 16 ^ w) = hexpad v n" for v
  proof (induction v)
    case (Suc v)
    then have e: "(16::nat) ^ w = 16 ^ v * 16 ^ (w - v)"
      by (simp flip: power_add)
    obtain k where k: "w - v = Suc k"
      using Suc.prems by (metis Suc_diff_le diff_Suc_Suc)
    have "(n mod 16 ^ w) div 16 ^ v = n div 16 ^ v mod 16 ^ (w - v)"
      unfolding e by (simp add: mod_mult2_eq)
    then have "(n mod 16 ^ w) div 16 ^ v mod 16 = n div 16 ^ v mod 16"
      unfolding k by (simp add: mod_mult2_eq mod_mod_cancel)
    with Suc show ?case by simp
  qed simp
  then show ?thesis by simp
qed

lemma hexpad_split: "hexpad (v + w) n = hexpad v (n div 16 ^ w) @ hexpad w n"
proof (induction v)
  case (Suc v)
  have "n div 16 ^ (v + w) = n div 16 ^ w div 16 ^ v"
    by (simp add: power_add mult.commute flip: div_mult2_eq)
  with Suc show ?case by simp
qed simp

lemma nibble_shift [arith24]:
  fixes v :: "'a::len word"
  assumes "d < 16"
  shows "push_bit 4 v OR of_nat d = 16 * v + of_nat d"
proof -
  have "take_bit 4 (of_nat d :: 'a word) = of_nat d"
    using assms by (simp add: take_bit_nat_eq_self flip: of_nat_take_bit)
  then have "\<not> bit (of_nat d :: 'a word) n" if "n \<ge> 4" for n
    using that by (metis bit_take_bit_iff linorder_not_less)
  then have "push_bit 4 v AND of_nat d = 0"
    by (intro bit_word_eqI) (auto simp: bit_simps not_le)
  then have "push_bit 4 v OR of_nat d = push_bit 4 v + of_nat d"
    by (simp add: disjunctive_add_eq_or)
  then show ?thesis
    by (simp add: push_bit_eq_mult mult.commute)
qed

section \<open>Bytes of a 24-bit integer\<close>

lemma and_mask_take_bit [arith24]:
  fixes w :: "'a::len word"
  shows "w AND 255 = take_bit 8 w" "w AND 65535 = take_bit 16 w" "w AND 15 = take_bit 4 w"
  by (simp_all add: take_bit_eq_mask mask_eq_exp_minus_1)

lemma take_bit_signed_drop_bit [arith24]:
  fixes w :: "'a::len word"
  assumes "n + m \<le> LENGTH('a)"
  shows "take_bit n (signed_drop_bit m w) = take_bit n (drop_bit m w)"
  using assms by (intro bit_word_eqI) (auto simp: bit_simps)

lemma unat_nibble [arith24]:
  fixes v :: "'a::len word"
  assumes "4 * d + 4 \<le> LENGTH('a)"
  shows "unat (signed_drop_bit (4 * d) v AND 15) = unat v div 16 ^ d mod 16"
proof -
  have "unat (signed_drop_bit (4 * d) v AND 15) = take_bit 4 (drop_bit (4 * d) (unat v))"
    using assms by (simp add: arith24 unsigned_take_bit_eq unat_drop_bit_eq)
  then show ?thesis
    by (simp add: take_bit_eq_mod drop_bit_eq_div power_mult)
qed

lemma hexdigit_eq [hexes]:
  "d < 16 \<Longrightarrow> (if d < 10 then char_of (d + of_char CHR ''0'')
               else char_of (d - 10 + of_char CHR ''A'')) = hexdigit d"
  by (auto simp: hexdigit_def add.commute)

text \<open>A byte passed on as an \<open>int\<close> and back.\<close>

lemma byte_less [simp]: "unat (b :: u8) < 256"
  by (rule order_less_le_trans [OF unsigned_less]) simp

lemma byte_widen [simp]:
  fixes b :: u8
  shows "unat (ucast b :: i24) = unat b" "ucast (ucast b :: i24) = b"
proof -
  have "unat b < 2 ^ 24"
    by (rule order_less_le_trans [OF byte_less]) simp
  then show "unat (ucast b :: i24) = unat b"
    by (simp add: unsigned_ucast_eq take_bit_nat_eq_self)
  show "ucast (ucast b :: i24) = b"
    by (rule bit_word_eqI) (auto simp: bit_simps)
qed

lemma byte_sign [arith24]:
  fixes b :: u8
  shows "take_bit 8 (scast b :: i24) = ucast b" "take_bit 8 (ucast b :: i24) = ucast b"
proof -
  have m: "n < 8 \<Longrightarrow> min 7 n = n" for n :: nat
    by simp
  show "take_bit 8 (scast b :: i24) = ucast b"
  proof (rule bit_word_eqI)
    fix n
    show "bit (take_bit 8 (scast b :: i24)) n = bit (ucast b :: i24) n"
      by (cases "n < 8") (auto simp: bit_simps m dest: bit_imp_le_length)
  qed
  show "take_bit 8 (ucast b :: i24) = ucast b"
    by (rule bit_word_eqI) (auto simp: bit_simps dest: bit_imp_le_length)
qed

lemma xor_cancel [simp]:
  fixes c x y :: "'a::len word"
  shows "c XOR x = c XOR y \<longleftrightarrow> x = y" "x XOR c = y XOR c \<longleftrightarrow> x = y"
proof -
  have "c XOR x = c XOR y \<Longrightarrow> x = y"
    by (metis xor.assoc xor_self_eq xor.left_neutral)
  moreover have "x XOR c = y XOR c \<Longrightarrow> x = y"
    by (metis xor.assoc xor_self_eq xor.right_neutral)
  ultimately show "c XOR x = c XOR y \<longleftrightarrow> x = y" "x XOR c = y XOR c \<longleftrightarrow> x = y"
    by auto
qed

lemma unat_of_nat_small [simp]: "n < 16777216 \<Longrightarrow> unat (of_nat n :: i24) = n"
  by (simp add: unat_of_nat take_bit_nat_eq_self)

lemma i24_less [simp]: "unat (a :: i24) < 16777216"
  by (rule order_less_le_trans [OF unsigned_less]) simp

lemma centred_mod:
  fixes n :: nat
  assumes "n < 16777216"
  shows "(int n + 8388608) mod 16777216 - 8388608 =
    (if n < 8388608 then int n else int n - 16777216)"
proof (cases "n < 8388608")
  case True
  then show ?thesis by simp
next
  case False
  have "(int n - 8388608 + 16777216) mod 16777216 = int n - 8388608"
    using False assms by (subst mod_add_self2) simp
  with False show ?thesis by (simp add: algebra_simps)
qed

lemma sint24 [arith24]:
  fixes w :: i24
  shows "sint w = (if unat w < 8388608 then int (unat w) else int (unat w) - 16777216)"
proof -
  have u: "uint w = int (unat w)" by simp
  have b: "unat w < 16777216"
    by (rule order_less_le_trans [OF unsigned_less]) simp
  have "sint w = (uint w + 8388608) mod 16777216 - 8388608"
    using int_word_sint [of "uint w", where ?'a = 24] by simp
  then have "sint w = (int (unat w) + 8388608) mod 16777216 - 8388608"
    unfolding u .
  then show ?thesis
    using b by (subst centred_mod [symmetric]) simp_all
qed

lemma sint_small:
  fixes w :: i24
  assumes "unat w < 8388608"
  shows "sint w = int (unat w)"
  using assms by (simp add: sint24)

lemma sint_of_nat_small: "n < 8388608 \<Longrightarrow> sint (of_nat n :: i24) = int n"
  by (simp add: sint24)

lemma sint_nonneg:
  fixes w :: i24
  assumes "\<not> sint w < 0"
  shows "unat w < 8388608"
proof (rule ccontr)
  assume "\<not> unat w < 8388608"
  then have "sint w = int (unat w) - 16777216"
    by (simp add: sint24)
  moreover have "unat w < 16777216"
    by (rule order_less_le_trans [OF unsigned_less]) simp
  ultimately show False
    using assms by linarith
qed

lemma unat_add_small:
  fixes a :: i24
  shows "unat a + n < 16777216 \<Longrightarrow> unat (a + of_nat n) = unat a + n"
  by (simp add: unat_word_ariths unat_of_nat take_bit_nat_eq_self)

end
