(* ===== verification/Te2_Loader.thy ===== *)
theory Te2_Loader
  imports Prelude
begin

unbundle bit_operations_syntax

text \<open>
  The second-stage load-and-go monitor of TE2, \<open>te/te2/te2-loader.c\<close>: a program for the
  COR24 that reads command lines from the UART, writes checksummed data records to memory,
  keeps a running checksum of everything it accepted and jumps to the loaded image once the
  checksum has been confirmed.

  \<open>loader_state\<close> holds the file's static variables (\<open>line\<close>, \<open>expected_seq\<close>,
  \<open>stream_crc\<close>, \<open>finalized\<close>), the byte-addressed memory the records are written to, the
  characters not yet read from the UART and those written to it, and the address of the
  jump once it has been taken.  The loader's own variables live at \<open>LOADER_BASE\<close> and
  above; that no record overwrites them is one of the theorems.  The waiting loops on the
  UART status register are not modelled: \<open>getchr\<close> takes the next character of the input and
  \<open>getline\<close> returns \<open>None\<close> when the input ends before the line does.
\<close>

section \<open>State\<close>

record loader_state =
  line_buf :: string
  expected_seq :: i24
  stream_crc :: i24
  finalized :: bool
  memory :: ram
  uart_in :: string
  uart_out :: string
  jumped :: "i24 option"

definition MAXLINE :: nat where "MAXLINE = 128"
definition MAXDATA :: int where "MAXDATA = 32"
definition LOADER_BASE :: i24 where "LOADER_BASE = 0x0fc000"

lemmas loader_consts = MAXLINE_def MAXDATA_def LOADER_BASE_def

section \<open>UART output\<close>

definition putchr :: "char \<Rightarrow> loader_state \<Rightarrow> loader_state" where
  "putchr c s = s\<lparr>uart_out := uart_out s @ [c]\<rparr>"

fun putstr :: "string \<Rightarrow> loader_state \<Rightarrow> loader_state" where
  "putstr [] s = s"
| "putstr (c # cs) s = putstr cs (putchr c s)"

definition ready :: "loader_state \<Rightarrow> loader_state" where
  "ready s = putstr (''TE2 READY 1'' @ [CHR 0x0A]) s"

text \<open>\<open>puthex\<close> prints one digit per turn; with \<open>d\<close> digits left to print after it the
  shift is \<open>4 * d\<close>.\<close>

fun puthex :: "i24 \<Rightarrow> nat \<Rightarrow> loader_state \<Rightarrow> loader_state" where
  "puthex v 0 s = s"
| "puthex v (Suc d) s =
     (let digit = unat (signed_drop_bit (4 * d) v AND 15)
      in puthex v d (putchr (if digit < 10 then char_of (digit + of_char CHR ''0'')
                             else char_of (digit - 10 + of_char CHR ''A'')) s))"

definition ack :: "char \<Rightarrow> i24 \<Rightarrow> loader_state \<Rightarrow> loader_state" where
  "ack prefix seq s = putchr (CHR 0x0A) (puthex seq 4 (putchr prefix s))"

definition nack :: "i24 \<Rightarrow> char \<Rightarrow> loader_state \<Rightarrow> loader_state" where
  "nack seq reason s =
     putchr (CHR 0x0A) (putchr reason (puthex seq 4 (putchr (CHR ''N'') s)))"

section \<open>Hexadecimal input\<close>

definition hex :: "char \<Rightarrow> int" where
  "hex c =
     (if schar c \<ge> schar CHR ''0'' \<and> schar c \<le> schar CHR ''9''
      then schar c - schar CHR ''0''
      else if schar c \<ge> schar CHR ''A'' \<and> schar c \<le> schar CHR ''F''
      then schar c - schar CHR ''A'' + 10
      else if schar c \<ge> schar CHR ''a'' \<and> schar c \<le> schar CHR ''f''
      then schar c - schar CHR ''a'' + 10
      else -1)"

text \<open>\<open>number\<close> reads digits from the line buffer and clears \<open>*ok\<close> at the first
  character that is none; the result is the value with the new \<open>ok\<close>.\<close>

fun number_loop :: "string \<Rightarrow> nat \<Rightarrow> nat \<Rightarrow> i24 \<Rightarrow> bool \<Rightarrow> i24 \<times> bool" where
  "number_loop l off 0 v ok = (v, ok)"
| "number_loop l off (Suc d) v ok =
     (let digit = hex (l ! off)
      in if digit < 0 then (0, False)
         else number_loop l (Suc off) d (push_bit 4 v OR word_of_int digit) ok)"

definition number :: "string \<Rightarrow> nat \<Rightarrow> nat \<Rightarrow> bool \<Rightarrow> i24 \<times> bool" where
  "number l off d ok = number_loop l off d 0 ok"

section \<open>CRC-16\<close>

definition crcstep :: "i24 \<Rightarrow> i24" where
  "crcstep crc =
     (if crc AND 0x8000 \<noteq> 0 then push_bit 1 crc XOR 0x1021 else push_bit 1 crc) AND 0xffff"

definition crcbyte :: "i24 \<Rightarrow> i24 \<Rightarrow> i24" where
  "crcbyte crc byte = (crcstep ^^ 8) (crc XOR push_bit 8 (byte AND 255))"

text \<open>The six header bytes, shared by the record checksum and the stream checksum.\<close>

definition crc_header :: "i24 \<Rightarrow> i24 \<Rightarrow> i24 \<Rightarrow> i24 \<Rightarrow> i24" where
  "crc_header crc seq address count =
     crcbyte (crcbyte (crcbyte (crcbyte (crcbyte (crcbyte crc
       (signed_drop_bit 8 seq)) seq)
       (signed_drop_bit 16 address)) (signed_drop_bit 8 address)) address) count"

text \<open>A data byte is a \<open>char\<close>: it is sign-extended when it is passed on as an \<open>int\<close>.\<close>

fun crc_data :: "i24 \<Rightarrow> u8 list \<Rightarrow> i24" where
  "crc_data crc [] = crc"
| "crc_data crc (b # bs) = crc_data (crcbyte crc (scast b)) bs"

definition record_crc :: "i24 \<Rightarrow> i24 \<Rightarrow> i24 \<Rightarrow> u8 list \<Rightarrow> i24" where
  "record_crc seq address count data = crc_data (crc_header 0xffff seq address count) data"

section \<open>Reading a line\<close>

text \<open>A line that does not fit is read to its end and reported as length \<open>-1\<close>.\<close>

fun getline_discard :: "string \<Rightarrow> string \<Rightarrow> (int \<times> string \<times> string) option" where
  "getline_discard [] l = None"
| "getline_discard (c # cs) l =
     (if c = CHR 0x0A then Some (-1, l[0 := CHR 0x00], cs) else getline_discard cs l)"

fun getline_loop :: "string \<Rightarrow> nat \<Rightarrow> string \<Rightarrow> (int \<times> string \<times> string) option" where
  "getline_loop [] n l = None"
| "getline_loop (c # cs) n l =
     (if c = CHR 0x0D then getline_loop cs n l
      else if c = CHR 0x0A then Some (int n, l[n := CHR 0x00], cs)
      else if n < MAXLINE - 1 then getline_loop cs (Suc n) (l[n := c])
      else getline_discard cs l)"

definition getline :: "loader_state \<Rightarrow> (int \<times> loader_state) option" where
  "getline s =
     (case getline_loop (uart_in s) 0 (line_buf s) of
        None \<Rightarrow> None
      | Some (n, l, rest) \<Rightarrow> Some (n, s\<lparr>line_buf := l, uart_in := rest\<rparr>))"

section \<open>Data records\<close>

fun data_bytes :: "string \<Rightarrow> nat \<Rightarrow> nat \<Rightarrow> bool \<Rightarrow> u8 list \<times> bool" where
  "data_bytes l off 0 ok = ([], ok)"
| "data_bytes l off (Suc n) ok =
     (let (v, ok1) = number l off 2 ok;
          (bs, ok2) = data_bytes l (off + 2) n ok1
      in (ucast v # bs, ok2))"

text \<open>Parsing and checksum: the fields of the record, or the sequence number and the reason
  of the negative acknowledgement.  A count has two hexadecimal digits, so
  \<open>17 + count * 2\<close> does not wrap around.\<close>

definition data_fields :: "string \<Rightarrow> int \<Rightarrow> (i24 \<times> char) + (i24 \<times> i24 \<times> i24 \<times> u8 list)" where
  "data_fields l len =
     (let (seq, ok1) = number l 1 4 True;
          (address, ok2) = number l 5 6 ok1;
          (count, ok3) = number l 11 2 ok2
      in if \<not> ok3 \<or> sint count > MAXDATA \<or> len \<noteq> 17 + sint count * 2
         then Inl (seq, CHR ''F'')
         else let (data, ok4) = data_bytes l 13 (unat count) ok3;
                  (supplied_crc, ok5) = number l (13 + unat count * 2) 4 ok4
              in if \<not> ok5 then Inl (seq, CHR ''H'')
                 else if record_crc seq address count data \<noteq> supplied_crc
                 then Inl (seq, CHR ''C'')
                 else Inr (seq, address, count, data))"

fun store_bytes :: "store \<Rightarrow> i24 \<Rightarrow> u8 list \<Rightarrow> ram \<Rightarrow> ram" where
  "store_bytes st a [] m = m"
| "store_bytes st a (b # bs) m = store_bytes st (a + 1) bs (st m a b)"

fun readback :: "ram \<Rightarrow> i24 \<Rightarrow> nat \<Rightarrow> u8 list" where
  "readback m a 0 = []"
| "readback m a (Suc n) = m a # readback m (a + 1) n"

text \<open>Writing, the checksum of the header, verification by reading back, the checksum of
  the bytes read back, and the new sequence number.\<close>

definition commit_record ::
  "store \<Rightarrow> i24 \<Rightarrow> i24 \<Rightarrow> i24 \<Rightarrow> u8 list \<Rightarrow> loader_state \<Rightarrow> loader_state" where
  "commit_record st seq address count data s =
     (let m = store_bytes st address data (memory s);
          crc = crc_header (stream_crc s) seq address count;
          s1 = s\<lparr>memory := m, stream_crc := crc\<rparr>
      in if readback m address (length data) \<noteq> data then nack seq (CHR ''M'') s1
         else ack (CHR ''A'') seq
           (s1\<lparr>stream_crc := crc_data crc (readback m address (length data)),
               expected_seq := (expected_seq s + 1) AND 0xffff,
               finalized := False\<rparr>))"

definition data_record :: "store \<Rightarrow> int \<Rightarrow> loader_state \<Rightarrow> loader_state" where
  "data_record st len s =
     (case data_fields (line_buf s) len of
        Inl (seq, reason) \<Rightarrow> nack seq reason s
      | Inr (seq, address, count, data) \<Rightarrow>
          if seq = (expected_seq s - 1) AND 0xffff then ack (CHR ''A'') seq s
          else if seq \<noteq> expected_seq s then nack seq (CHR ''S'') s
          else if sint address < 0 \<or> sint (address + count) > sint LOADER_BASE
          then nack seq (CHR ''R'') s
          else commit_record st seq address count data s)"

section \<open>End, jump and dispatch\<close>

definition end_record :: "int \<Rightarrow> loader_state \<Rightarrow> loader_state" where
  "end_record len s =
     (let (seq, ok1) = number (line_buf s) 1 4 True;
          (crc, ok2) = number (line_buf s) 5 4 ok1
      in if \<not> ok2 \<or> len \<noteq> 9 \<or> seq \<noteq> expected_seq s \<or> crc \<noteq> stream_crc s
         then nack seq (CHR ''E'') s
         else ack (CHR ''F'') seq (s\<lparr>finalized := True\<rparr>))"

text \<open>The jump calls the loaded image.  What the image does is not this program: the model
  records the address and stops.\<close>

definition go_record :: "int \<Rightarrow> loader_state \<Rightarrow> loader_state" where
  "go_record len s =
     (let (address, ok) = number (line_buf s) 1 6 True
      in if \<not> ok \<or> len \<noteq> 7 \<or> \<not> finalized s \<or> sint address \<ge> sint LOADER_BASE
         then nack (expected_seq s) (CHR ''G'') s
         else (putchr (CHR 0x0A) (puthex address 6 (putchr (CHR ''J'') s)))
                \<lparr>jumped := Some address\<rparr>)"

definition dispatch :: "store \<Rightarrow> int \<Rightarrow> loader_state \<Rightarrow> loader_state" where
  "dispatch st len s =
     (if len < 1 then nack (expected_seq s) (CHR ''L'') s
      else if line_buf s ! 0 = CHR ''D'' then data_record st len s
      else if line_buf s ! 0 = CHR ''E'' then end_record len s
      else if line_buf s ! 0 = CHR ''G'' then go_record len s
      else if line_buf s ! 0 = CHR ''H'' \<and> len = 1 then ready s
      else nack (expected_seq s) (CHR ''?'') s)"

text \<open>The loop of \<open>main\<close>, until the input is used up or the image has been entered.\<close>

function loader_loop :: "store \<Rightarrow> loader_state \<Rightarrow> loader_state" where
  "loader_loop st s =
     (if jumped s \<noteq> None then s
      else case getline s of None \<Rightarrow> s | Some (len, s1) \<Rightarrow> loader_loop st (dispatch st len s1))"
  by pat_completeness auto


section \<open>What is printed\<close>

text \<open>Everything a handler prints is appended to \<open>uart_out\<close>; the texts are these.\<close>

definition ack_line :: "char \<Rightarrow> i24 \<Rightarrow> string" where
  "ack_line prefix seq = prefix # hexpad 4 (unat seq)"

definition nack_line :: "i24 \<Rightarrow> char \<Rightarrow> string" where
  "nack_line seq reason = CHR ''N'' # hexpad 4 (unat seq) @ [reason]"

definition say :: "string \<Rightarrow> loader_state \<Rightarrow> loader_state" where
  "say t s = s\<lparr>uart_out := uart_out s @ t @ [CHR 0x0A]\<rparr>"

lemma say_simps [simp]:
  "line_buf (say t s) = line_buf s" "expected_seq (say t s) = expected_seq s"
  "stream_crc (say t s) = stream_crc s" "finalized (say t s) = finalized s"
  "memory (say t s) = memory s" "uart_in (say t s) = uart_in s"
  "jumped (say t s) = jumped s" "uart_out (say t s) = uart_out s @ t @ [CHR 0x0A]"
  by (simp_all add: say_def)

lemma putstr_eq: "putstr t s = s\<lparr>uart_out := uart_out s @ t\<rparr>"
  by (induction t arbitrary: s) (simp_all add: putchr_def)

lemma puthex_eq: "d \<le> 6 \<Longrightarrow> puthex v d s = s\<lparr>uart_out := uart_out s @ hexpad d (unat v)\<rparr>"
proof (induction d arbitrary: s)
  case (Suc d)
  let ?n = "unat v div 16 ^ d mod 16"
  have "puthex v (Suc d) s = puthex v d (putchr (hexdigit ?n) s)"
    using Suc.prems hexdigit_eq [of ?n] by (simp add: unat_nibble Let_def)
  with Suc show ?case by (simp add: putchr_def)
qed simp

lemma ready_say: "ready s = say ''TE2 READY 1'' s"
  by (simp add: ready_def putstr_eq say_def)

lemma ack_say: "ack p q s = say (ack_line p q) s"
  by (simp add: ack_def putchr_def puthex_eq say_def ack_line_def)

lemma nack_say: "nack q r s = say (nack_line q r) s"
  by (simp add: nack_def putchr_def puthex_eq say_def nack_line_def)

lemmas says = ready_say ack_say nack_say

lemma go_record_accept:
  "go_record len s = say (nack_line (expected_seq s) (CHR ''G'')) s \<or>
   (\<exists>a. number (line_buf s) 1 6 True = (a, True) \<and> len = 7 \<and> finalized s \<and> sint a < sint LOADER_BASE
        \<and> go_record len s = say (CHR ''J'' # hexpad 6 (unat a)) s\<lparr>jumped := Some a\<rparr>)"
  by (cases "number (line_buf s) 1 6 True")
    (auto simp: go_record_def Let_def says puthex_eq putchr_def say_def)

section \<open>The loop ends with its input\<close>

lemma dispatch_uart_in [simp]: "uart_in (dispatch st len s) = uart_in s"
  using go_record_accept [of len s]
  by (auto simp: dispatch_def data_record_def commit_record_def end_record_def says Let_def
      split: sum.splits prod.splits)

lemma getline_discard_shorter:
  "getline_discard cs l = Some (n, l', rest) \<Longrightarrow> length rest < length cs"
  by (induction cs l rule: getline_discard.induct) (auto split: if_splits)

lemma getline_loop_shorter:
  "getline_loop cs n l = Some (k, l', rest) \<Longrightarrow> length rest < length cs"
  by (induction cs n l rule: getline_loop.induct)
    (auto split: if_splits dest: getline_discard_shorter)

lemma getline_shorter: "getline s = Some (n, s1) \<Longrightarrow> length (uart_in s1) < length (uart_in s)"
  by (auto simp: getline_def split: option.splits dest: getline_loop_shorter)

termination loader_loop
  by (relation "measure (\<lambda>(st, s). length (uart_in s))") (auto dest: getline_shorter)

declare loader_loop.simps [simp del]

text \<open>An invariant of one turn is an invariant of the loop.\<close>

lemma loader_loop_invariant:
  assumes "\<And>s len s1. P s \<Longrightarrow> jumped s = None \<Longrightarrow> getline s = Some (len, s1) \<Longrightarrow>
      P (dispatch st len s1)"
    and "P s"
  shows "P (loader_loop st s)"
  using assms
proof (induction st s rule: loader_loop.induct)
  case (1 st s)
  show ?case
  proof (cases "jumped s = None \<and> getline s \<noteq> None")
    case True
    then obtain len s1 where g: "getline s = Some (len, s1)"
      by auto
    have "P (loader_loop st (dispatch st len s1))"
      by (rule "1.IH") (use True g "1.prems" in auto)
    with True g show ?thesis
      by (simp add: loader_loop.simps [of st s])
  next
    case False
    with "1.prems"(2) show ?thesis
      by (auto simp: loader_loop.simps [of st s] split: option.splits)
  qed
qed

lemma getline_fields:
  "getline s = Some (len, s1) \<Longrightarrow>
     memory s1 = memory s \<and> expected_seq s1 = expected_seq s \<and> stream_crc s1 = stream_crc s \<and>
     finalized s1 = finalized s \<and> jumped s1 = jumped s \<and> uart_out s1 = uart_out s"
  by (auto simp: getline_def split: option.splits)

definition loader_main :: "store \<Rightarrow> loader_state \<Rightarrow> loader_state" where
  "loader_main st s =
     loader_loop st (ready (s\<lparr>expected_seq := 0, stream_crc := 0xffff, finalized := False\<rparr>))"


section \<open>Parsing what is printed\<close>

lemma hex_hexdigit [hexes]: "d < 16 \<Longrightarrow> hex (hexdigit d) = int d"
  by (erule nat_less_16_cases) (simp_all add: hexdigit_def hex_def schar_def uchar_def)

lemma number_loop_hexpad:
  assumes "take d (drop off l) = hexpad d n"
  shows "number_loop l off d v ok = (v * 16 ^ d + of_nat (n mod 16 ^ d), ok)"
  using assms
proof (induction d arbitrary: off v)
  case (Suc d)
  let ?k = "n div 16 ^ d mod 16"
  have off: "off < length l"
    using arg_cong [OF Suc.prems, of length] by (simp add: min_def split: if_splits)
  then have "drop off l = l ! off # drop (Suc off) l"
    by (simp add: Cons_nth_drop_Suc)
  with Suc.prems have hd: "l ! off = hexdigit ?k" and tl: "take d (drop (Suc off) l) = hexpad d n"
    by simp_all
  have n: "n mod 16 ^ Suc d = ?k * 16 ^ d + n mod 16 ^ d"
    using mod_mult2_eq [of n "16 ^ d" 16] by (simp add: mult.commute)
  have "number_loop l off (Suc d) v ok = number_loop l (Suc off) d (16 * v + of_nat ?k) ok"
    by (simp add: hd hexes nibble_shift)
  also have "\<dots> = ((16 * v + of_nat ?k) * 16 ^ d + of_nat (n mod 16 ^ d), ok)"
    by (rule Suc.IH) (rule tl)
  also have "(16 * v + of_nat ?k) * 16 ^ d + of_nat (n mod 16 ^ d) =
      v * 16 ^ Suc d + (of_nat (n mod 16 ^ Suc d) :: i24)"
    unfolding n by (simp add: algebra_simps)
  finally show ?case .
qed simp

lemma number_hexpad:
  assumes "take d (drop off l) = hexpad d (unat v)" and "d = 6 \<or> unat v < 16 ^ d"
  shows "number l off d ok = (v, ok)"
proof -
  have "unat v < 2 ^ LENGTH(24)"
    by (rule unsigned_less)
  then have "unat v mod 16 ^ d = unat v"
    using assms(2) by auto
  then show ?thesis
    using assms(1) by (simp add: number_def number_loop_hexpad)
qed

definition bytes_text :: "u8 list \<Rightarrow> string" where
  "bytes_text bs = concat (map (\<lambda>b. hexpad 2 (unat b)) bs)"

lemma length_bytes_text [simp]: "length (bytes_text bs) = 2 * length bs"
  by (induction bs) (simp_all add: bytes_text_def)

lemma data_bytes_text:
  assumes "take (2 * length bs) (drop off l) = bytes_text bs"
  shows "data_bytes l off (length bs) ok = (bs, ok)"
  using assms
proof (induction bs arbitrary: off)
  case (Cons b bs)
  have split: "take 2 (drop off l) @ take (2 * length bs) (drop (off + 2) l)
      = hexpad 2 (unat b) @ bytes_text bs"
  proof -
    have e: "2 * length (b # bs) = 2 + 2 * length bs" by simp
    show ?thesis
      using Cons.prems unfolding e take_add bytes_text_def by (simp add: add.commute)
  qed
  have len: "length (take 2 (drop off l)) = 2"
    using arg_cong [OF Cons.prems, of length] by simp
  have b: "take 2 (drop off l) = hexpad 2 (unat b)"
    and bs: "take (2 * length bs) (drop (off + 2) l) = bytes_text bs"
    using split len by (simp_all add: append_eq_append_conv)
  have "number l off 2 ok = (ucast b, ok)"
    by (rule number_hexpad) (use b byte_less [of b] in simp_all)
  with Cons.IH [OF bs] show ?case
    by (simp add: numeral_2_eq_2)
qed (simp add: bytes_text_def)

section \<open>The checksum\<close>

text \<open>Checksums are 16-bit values: \<open>crc16\<close>.  One step shifts left, feeding back bit 15 into
  the polynomial; on 16-bit values it is linear and injective.\<close>

definition crc16 :: "i24 \<Rightarrow> bool" where
  "crc16 c \<longleftrightarrow> take_bit 16 c = c"

lemma crc16_bit: "crc16 c \<Longrightarrow> bit c n \<Longrightarrow> n < 16"
  unfolding crc16_def by (metis bit_take_bit_iff)

lemma crc16_less: "crc16 c \<Longrightarrow> unat c < 65536"
proof -
  assume "crc16 c"
  then have "unat c = take_bit 16 (unat c)"
    unfolding crc16_def using unsigned_take_bit_eq [of 16 c] by metis
  moreover have "take_bit 16 (unat c) < 2 ^ 16"
    by (rule take_bit_nat_less_exp)
  ultimately show ?thesis by simp
qed

lemma crcstep_alt:
  "crcstep c = take_bit 16 (push_bit 1 c XOR (if bit c 15 then 0x1021 else 0))"
proof -
  have "(0x8000 :: i24) = 2 ^ 15" by simp
  then have "c AND 0x8000 \<noteq> 0 \<longleftrightarrow> bit c 15"
    by (metis and_exp_eq_0_iff_not_bit)
  then show ?thesis by (simp add: crcstep_def arith24)
qed

lemma bit_crcstep:
  "bit (crcstep c) n \<longleftrightarrow>
     n < 16 \<and> ((0 < n \<and> bit c (n - 1)) \<noteq> (bit c 15 \<and> bit (0x1021 :: i24) n))"
proof (cases "bit c 15")
  case True
  show ?thesis
    unfolding crcstep_alt if_P [OF True]
    by (simp only: bit_take_bit_iff bit_xor_iff bit_push_bit_iff possible_bit_word True) auto
next
  case False
  show ?thesis
    unfolding crcstep_alt if_not_P [OF False]
    by (simp only: bit_take_bit_iff bit_xor_iff bit_push_bit_iff possible_bit_word False) auto
qed

lemma crc16_crcstep [simp]: "crc16 (crcstep c)"
  unfolding crc16_def by (rule bit_word_eqI) (auto simp: bit_crcstep bit_take_bit_iff)

lemma crcstep_xor: "crcstep (x XOR y) = crcstep x XOR crcstep y"
  by (rule bit_word_eqI) (auto simp: bit_crcstep bit_xor_iff)

lemma crcstep_inject: "crc16 c \<Longrightarrow> crc16 d \<Longrightarrow> crcstep c = crcstep d \<Longrightarrow> c = d"
proof (rule bit_word_eqI)
  fix n
  assume c: "crc16 c" and d: "crc16 d" and eq: "crcstep c = crcstep d"
  have bits: "bit (crcstep c) k = bit (crcstep d) k" for k
    by (simp add: eq)
  have top: "bit c 15 = bit d 15"
    using bits [of 0] by (simp add: bit_crcstep)
  show "bit c n = bit d n"
  proof (cases "n < 15")
    case True
    then show ?thesis
      using bits [of "Suc n"] top by (auto simp: bit_crcstep)
  next
    case False
    have "n = 15 \<or> \<not> bit c n \<and> \<not> bit d n"
      using False crc16_bit [OF c, of n] crc16_bit [OF d, of n] by linarith
    with top show ?thesis by auto
  qed
qed

lemma crcsteps_crc16 [simp]: "crc16 ((crcstep ^^ Suc k) c)"
  by simp

lemma crcsteps_xor: "(crcstep ^^ k) (x XOR y) = (crcstep ^^ k) x XOR (crcstep ^^ k) y"
  by (induction k) (simp_all add: crcstep_xor)

lemma crcsteps_inject:
  "crc16 c \<Longrightarrow> crc16 d \<Longrightarrow> (crcstep ^^ k) c = (crcstep ^^ k) d \<Longrightarrow> c = d"
proof (induction k)
  case (Suc k)
  have "crc16 ((crcstep ^^ k) c)" "crc16 ((crcstep ^^ k) d)"
    using Suc.prems(1,2) by (cases k; simp)+
  with Suc show ?case by (auto dest: crcstep_inject)
qed simp

lemma crc16_xor [intro]: "crc16 c \<Longrightarrow> crc16 d \<Longrightarrow> crc16 (c XOR d)"
  by (simp add: crc16_def)

lemma crc16_byte [simp]: "crc16 (push_bit 8 (take_bit 8 b))"
  unfolding crc16_def by (rule bit_word_eqI) (auto simp: bit_simps)

lemma crcbyte_alt: "crcbyte c b = (crcstep ^^ 8) (c XOR push_bit 8 (take_bit 8 b))"
  by (simp add: crcbyte_def arith24)

lemma crc16_crcbyte [simp]: "crc16 (crcbyte c b)"
  using crcsteps_crc16 [of 7] by (simp add: crcbyte_alt)

lemma crc16_header [simp]: "crc16 (crc_header c q a n)"
  by (simp add: crc_header_def)

lemma crc16_data: "crc16 c \<Longrightarrow> crc16 (crc_data c bs)"
  by (induction c bs rule: crc_data.induct) simp_all

lemma crc16_record [simp]: "crc16 (record_crc q a n bs)"
  by (simp add: record_crc_def crc16_data)

lemma crcbyte_inject_crc:
  "crc16 c \<Longrightarrow> crc16 d \<Longrightarrow> crcbyte c b = crcbyte d b \<Longrightarrow> c = d"
proof -
  assume c: "crc16 c" and d: "crc16 d" and eq: "crcbyte c b = crcbyte d b"
  let ?b = "push_bit 8 (take_bit 8 b)"
  have "c XOR ?b = d XOR ?b"
    using eq unfolding crcbyte_alt
    by (rule crcsteps_inject [rotated 2]) (auto intro: c d)
  then show "c = d" by simp
qed

lemma crc_header_inject:
  assumes "crc16 c" and "crc16 d" and "crc_header c q a n = crc_header d q a n"
  shows "c = d"
proof -
  note inj = crcbyte_inject_crc [OF crc16_crcbyte crc16_crcbyte]
  show ?thesis
    using assms(3) unfolding crc_header_def
    by (intro crcbyte_inject_crc [OF assms(1,2)]) (drule inj)+
qed

lemma crc_data_inject:
  "crc16 c \<Longrightarrow> crc16 d \<Longrightarrow> crc_data c bs = crc_data d bs \<Longrightarrow> c = d"
proof (induction bs arbitrary: c d)
  case (Cons b bs)
  have "crcbyte c (scast b) = crcbyte d (scast b)"
    by (rule Cons.IH) (use Cons.prems in simp_all)
  with Cons.prems(1,2) show ?case by (rule crcbyte_inject_crc)
qed simp

lemma crc_data_append: "crc_data c (xs @ ys) = crc_data (crc_data c xs) ys"
  by (induction c xs rule: crc_data.induct) simp_all

text \<open>Two bytes fed one after the other act like one 16-bit value: eight steps only shift a
  value below 256.\<close>

lemma crcstep_shift:
  assumes "\<And>n. bit t n \<Longrightarrow> n < 8" and "k \<le> 7"
  shows "crcstep (push_bit k t) = push_bit (Suc k) t"
proof (rule bit_word_eqI)
  fix n
  have top: "\<not> bit t (15 - k)"
    using assms by fastforce
  have low: "bit t (n - Suc k) \<Longrightarrow> n < 16"
    using assms by fastforce
  show "bit (crcstep (push_bit k t)) n = bit (push_bit (Suc k) t) n"
    unfolding bit_crcstep bit_push_bit_iff possible_bit_word
    using top low by (auto simp: Suc_le_eq)
qed

lemma crcsteps_small: "k \<le> 8 \<Longrightarrow> (crcstep ^^ k) (take_bit 8 b) = push_bit k (take_bit 8 b)"
proof (induction k)
  case (Suc k)
  have "crcstep (push_bit k (take_bit 8 b)) = push_bit (Suc k) (take_bit 8 b)"
    by (rule crcstep_shift) (use Suc.prems in \<open>auto simp: bit_take_bit_iff\<close>)
  with Suc show ?case by simp
qed simp

lemma crc_two_bytes:
  "crcbyte (crcbyte c a) b =
     (crcstep ^^ 16) (c XOR push_bit 8 (take_bit 8 a) XOR take_bit 8 b)"
proof -
  have e: "(crcstep ^^ 16) x = (crcstep ^^ 8) ((crcstep ^^ 8) x)" for x
    using funpow_add [of 8 8 crcstep] by simp
  show ?thesis
    unfolding e crcbyte_alt
    by (simp add: crcsteps_xor crcsteps_small xor.assoc)
qed

lemma two_bytes_inject:
  fixes a b a' b' :: u8
  assumes "push_bit 8 (ucast a) XOR (ucast b :: i24) = push_bit 8 (ucast a') XOR ucast b'"
  shows "a = a' \<and> b = b'"
proof
  have bits: "bit (push_bit 8 (ucast a) XOR (ucast b :: i24)) n =
      bit (push_bit 8 (ucast a') XOR (ucast b' :: i24)) n" for n
    by (simp add: assms)
  show "b = b'"
  proof (rule bit_word_eqI)
    fix n
    assume "n < LENGTH(8)"
    with bits [of n] show "bit b n = bit b' n"
      unfolding bit_xor_iff bit_push_bit_iff bit_ucast_iff by simp
  qed
  show "a = a'"
  proof (rule bit_word_eqI)
    fix n
    assume n: "n < LENGTH(8)"
    have "\<not> bit b (n + 8)" "\<not> bit b' (n + 8)"
      by (auto dest: bit_imp_le_length)
    with n bits [of "n + 8"] show "bit a n = bit a' n"
      unfolding bit_xor_iff bit_push_bit_iff bit_ucast_iff by simp
  qed
qed

lemma crc_burst_inject:
  assumes "crc16 c" and "crc_data c (a # b # ys) = crc_data c (a' # b' # ys)"
  shows "a = a' \<and> b = b'"
proof -
  let ?x = "c XOR push_bit 8 (ucast a) XOR ucast b"
    and ?y = "c XOR push_bit 8 (ucast a') XOR ucast b'"
  have "crcbyte (crcbyte c (scast a)) (scast b) = crcbyte (crcbyte c (scast a')) (scast b')"
    by (rule crc_data_inject [of _ _ ys]) (use assms in simp_all)
  then have "(crcstep ^^ 16) ?x = (crcstep ^^ 16) ?y"
    by (simp add: crc_two_bytes arith24)
  moreover have "crc16 (push_bit 8 (ucast x) XOR ucast (y :: u8))" for x y :: u8
    unfolding crc16_def
    by (rule bit_word_eqI) (auto simp: bit_simps dest: bit_imp_le_length)
  ultimately have "?x = ?y"
    by (intro crcsteps_inject [of ?x ?y 16]) (simp_all add: assms crc16_xor ac_simps)
  then have "push_bit 8 (ucast a) XOR (ucast b :: i24) = push_bit 8 (ucast a') XOR ucast b'"
    by (simp add: xor.assoc)
  then show ?thesis by (rule two_bytes_inject)
qed

section \<open>A well-formed data record is understood\<close>

text \<open>The text of a data record as \<open>te2.md\<close> describes it, with its checksum.\<close>

definition record_text :: "i24 \<Rightarrow> i24 \<Rightarrow> u8 list \<Rightarrow> i24 \<Rightarrow> string" where
  "record_text seq address data crc =
     CHR ''D'' # hexpad 4 (unat seq) @ hexpad 6 (unat address) @ hexpad 2 (length data) @
     bytes_text data @ hexpad 4 (unat crc)"

definition data_line :: "i24 \<Rightarrow> i24 \<Rightarrow> u8 list \<Rightarrow> string" where
  "data_line seq address data =
     record_text seq address data (record_crc seq address (of_nat (length data)) data)"

lemma length_record_text [simp]: "length (record_text q a bs c) = 17 + 2 * length bs"
  by (simp add: record_text_def)

lemma length_data_line [simp]: "length (data_line q a bs) = 17 + 2 * length bs"
  by (simp add: data_line_def)

lemma data_fields_record_text:
  assumes l: "take (17 + 2 * length data) l = record_text seq address data crc"
    and seq: "unat seq < 65536" and data: "length data \<le> 32" and crc: "unat crc < 65536"
  shows "data_fields l (17 + 2 * int (length data)) =
    (if crc = record_crc seq address (of_nat (length data)) data
     then Inr (seq, address, of_nat (length data), data) else Inl (seq, CHR ''C''))"
proof -
  let ?n = "length data" and ?t = "record_text seq address data crc"
  have at: "off + d \<le> 17 + 2 * ?n \<Longrightarrow> take d (drop off l) = take d (drop off ?t)" for off d
    unfolding l [symmetric] by (simp add: drop_take)
  have cnt: "unat (of_nat ?n :: i24) = ?n" "sint (of_nat ?n :: i24) = int ?n"
    using data by (simp_all add: sint_small)
  have "number l 1 4 True = (seq, True)"
    by (rule number_hexpad) (use seq in \<open>simp_all add: at record_text_def\<close>)
  moreover have "number l 5 6 True = (address, True)"
    by (rule number_hexpad) (simp_all add: at record_text_def)
  moreover have "number l 11 2 True = (of_nat ?n, True)"
    by (rule number_hexpad) (use data cnt in \<open>simp_all add: at record_text_def\<close>)
  moreover have "data_bytes l 13 ?n True = (data, True)"
    by (rule data_bytes_text) (simp add: at record_text_def)
  moreover have "number l (13 + ?n * 2) 4 True = (crc, True)"
  proof (rule number_hexpad)
    define pre where "pre = CHR ''D'' # hexpad 4 (unat seq) @ hexpad 6 (unat address) @
        hexpad 2 ?n @ bytes_text data"
    have t: "?t = pre @ hexpad 4 (unat crc)" and len: "13 + ?n * 2 = length pre"
      by (simp_all add: pre_def record_text_def)
    have "take 4 (drop (13 + ?n * 2) l) = take 4 (drop (13 + ?n * 2) ?t)"
      by (rule at) simp
    then show "take 4 (drop (13 + ?n * 2) l) = hexpad 4 (unat crc)"
      unfolding t len by simp
  qed (use crc in simp)
  ultimately show ?thesis
    using data by (auto simp: data_fields_def cnt MAXDATA_def)
qed

lemma data_fields_data_line:
  assumes "take (17 + 2 * length data) l = data_line seq address data"
    and "unat seq < 65536" and "length data \<le> 32"
  shows "data_fields l (17 + 2 * int (length data)) =
    Inr (seq, address, of_nat (length data), data)"
  using data_fields_record_text [OF assms(1) [unfolded data_line_def] assms(2,3)]
    crc16_less [OF crc16_record] by simp

section \<open>Memory: what a store may do\<close>

text \<open>
  \<open>local_memory\<close>: a store touches the addressed byte only (the byte may still be wrong).
  \<open>ram_memory\<close>: the byte reads back as written.
\<close>

locale local_memory =
  fixes st :: store
  assumes store_other: "x \<noteq> a \<Longrightarrow> st m a b x = m x"
begin

lemma store_bytes_other:
  "(\<And>i. i < length bs \<Longrightarrow> x \<noteq> a + of_nat i) \<Longrightarrow> store_bytes st a bs m x = m x"
proof (induction bs arbitrary: a m)
  case (Cons b bs)
  have "x \<noteq> (a + 1) + of_nat i" if "i < length bs" for i
    using Cons.prems [of "Suc i"] that by (simp add: add.assoc)
  moreover have "x \<noteq> a"
    using Cons.prems [of 0] by simp
  ultimately show ?case
    using Cons.IH [of "a + 1" "st m a b"] by (simp add: store_other)
qed simp

end

locale ram_memory = local_memory +
  assumes store_same: "st m a b a = b"
begin

lemma readback_store:
  "length bs < 16777216 \<Longrightarrow> readback (store_bytes st a bs m) a (length bs) = bs"
proof (induction bs arbitrary: a m)
  case (Cons b bs)
  have "store_bytes st (a + 1) bs (st m a b) a = st m a b a"
  proof (rule store_bytes_other)
    fix i
    assume "i < length bs"
    with Cons.prems have "unat (of_nat (Suc i) :: i24) = Suc i"
      by (intro unat_of_nat_small) simp
    then have "(of_nat (Suc i) :: i24) \<noteq> 0"
      by (metis nat.distinct(1) unsigned_0)
    then show "a \<noteq> a + 1 + of_nat i"
      by (simp add: add.assoc)
  qed
  with Cons show ?case by (simp add: store_same)
qed simp

end

interpretation ideal: ram_memory ideal_store
  by unfold_locales (simp_all add: ideal_store_def)

section \<open>The fields of an accepted record\<close>

lemma schar_literals [hexes]:
  "schar CHR ''0'' = 48" "schar CHR ''9'' = 57" "schar CHR ''A'' = 65" "schar CHR ''F'' = 70"
  "schar CHR ''a'' = 97" "schar CHR ''f'' = 102"
  by (simp_all add: schar_def uchar_def)

lemma hex_range: "hex c < 16"
  by (simp add: hex_def hexes)

lemma number_accumulates:
  "number_loop l off d v ok = (w, True) \<Longrightarrow>
     ok \<and> (\<exists>k < 16 ^ d. w = v * 16 ^ d + of_nat k)"
proof (induction d arbitrary: off v)
  case 0
  then show ?case by (auto intro: exI [of _ 0])
next
  case (Suc d)
  let ?h = "nat (hex (l ! off))"
  have h: "0 \<le> hex (l ! off)" "?h < 16"
    using Suc.prems hex_range [of "l ! off"] by (auto simp: Let_def split: if_splits)
  have d: "hex (l ! off) = int ?h"
    using h(1) by simp
  have "number_loop l off (Suc d) v ok =
      number_loop l (Suc off) d (push_bit 4 v OR of_nat ?h) ok"
    using h(1) by (simp add: Let_def del: push_bit_numeral)
  then have "number_loop l (Suc off) d (16 * v + of_nat ?h) ok = (w, True)"
    using Suc.prems unfolding nibble_shift [OF h(2)] by simp
  then obtain k where ok: ok and k: "k < 16 ^ d" "w = (16 * v + of_nat ?h) * 16 ^ d + of_nat k"
    using Suc.IH by blast
  have "?h * 16 ^ d + k < 16 ^ Suc d"
  proof -
    have "?h * 16 ^ d \<le> 15 * 16 ^ d"
      using h(2) by (intro mult_le_mono1) simp
    with k(1) show ?thesis
      unfolding power_Suc by linarith
  qed
  moreover have "w = v * 16 ^ Suc d + of_nat (?h * 16 ^ d + k)"
    unfolding k(2) by (simp add: algebra_simps)
  ultimately show ?case
    using ok by blast
qed

lemma number_bound:
  assumes "number l off d ok = (w, True)" and "d \<le> 5"
  shows "ok" "unat w < 16 ^ d"
proof -
  obtain k where ok and k: "k < 16 ^ d" "w = of_nat k"
    using number_accumulates [of l off d 0 ok w] assms(1) by (auto simp: number_def)
  then show ok by simp
  have "(16 :: nat) ^ d \<le> 16 ^ 5"
    using assms(2) by (intro power_increasing) simp_all
  with k show "unat w < 16 ^ d" by simp
qed

lemma data_bytes_length: "length (fst (data_bytes l off n ok)) = n"
  by (induction l off n ok rule: data_bytes.induct) (auto simp: Let_def split: prod.splits)

lemma data_bytes_ok: "snd (data_bytes l off n ok) \<Longrightarrow> ok"
proof (induction n arbitrary: off ok)
  case (Suc n)
  obtain v ok1 where v: "number l off 2 ok = (v, ok1)"
    by fastforce
  obtain bs ok2 where b: "data_bytes l (off + 2) n ok1 = (bs, ok2)"
    by fastforce
  have "ok1"
    using Suc.prems v b Suc.IH [of "off + 2" ok1] by (simp add: Let_def)
  with v show ?case
    using number_bound(1) [of l off 2 ok v] by simp
qed simp

text \<open>Elimination for the accepting branch of \<open>data_fields\<close>.\<close>

lemma data_fields_accept:
  assumes "data_fields l len = Inr (seq, address, count, data)"
  shows "unat seq < 65536" "count = of_nat (length data)" "length data \<le> 32"
    and "len = 17 + 2 * int (length data)"
    and "number l (13 + length data * 2) 4 True =
      (record_crc seq address (of_nat (length data)) data, True)"
proof -
  obtain ok1 ok2 ok3 ok4 ok5 supplied where
    n: "number l 1 4 True = (seq, ok1)" "number l 5 6 ok1 = (address, ok2)"
      "number l 11 2 ok2 = (count, ok3)" "data_bytes l 13 (unat count) ok3 = (data, ok4)"
      "number l (13 + unat count * 2) 4 ok4 = (supplied, ok5)"
    and c: "ok3" "sint count \<le> MAXDATA" "len = 17 + sint count * 2" "ok5"
      "supplied = record_crc seq address count data"
    using assms unfolding data_fields_def
    by (auto simp: Let_def not_less split: prod.splits if_splits)
  have cnt: "unat count < 256" and ok2
    using number_bound [of l 11 2 ok2 count] n(3) c(1) by simp_all
  then have s: "sint count = int (unat count)"
    by (simp add: sint_small)
  have len: "length data = unat count"
    using data_bytes_length [of l 13 "unat count" ok3] n(4) by simp
  then show "count = of_nat (length data)" by simp
  show "length data \<le> 32" "len = 17 + 2 * int (length data)"
    using c(2,3) s unfolding MAXDATA_def len by linarith+
  have ok4
    using number_bound(1) [of l "13 + unat count * 2" 4 ok4 supplied] n(5) c(4) by simp
  then show "number l (13 + length data * 2) 4 True =
      (record_crc seq address (of_nat (length data)) data, True)"
    using n(5) c(4,5) len by simp
  have ok1
    using number_accumulates [of l 5 6 0 ok1 address] n(2) \<open>ok2\<close> by (simp add: number_def)
  then show "unat seq < 65536"
    using number_bound(2) [of l 1 4 True seq] n(1) by simp
qed

end
