(* ===== verification/Te2_Loader_Correct.thy ===== *)
theory Te2_Loader_Correct
  imports Te2_Loader
begin

unbundle bit_operations_syntax

text \<open>
  What the TE2 loader guarantees: its own memory is never overwritten, its variables stay
  in range, what it has acknowledged is exactly what is in memory and in the running
  checksum, a retransmission changes nothing, and the checksum notices any corruption of
  two adjacent bytes.  Three theorems record where the code falls short of its comments
  and of \<open>te2.md\<close>.
\<close>

section \<open>The loader protects itself\<close>

text \<open>The guard of \<open>data_record\<close> in terms of addresses: a record that passes it lies below
  \<open>LOADER_BASE\<close> or, when \<open>address + count\<close> wraps around, within 32 bytes of \<open>0x800000\<close>.\<close>

lemma range_guard:
  fixes address :: i24
  assumes "\<not> (sint address < 0 \<or> sint (address + of_nat n) > sint LOADER_BASE)"
    and "n \<le> 32"
  shows "unat address + n \<le> 0xfc000 \<or> 0x7fffe0 \<le> unat address"
    and "unat address < 0x800000"
proof -
  show a: "unat address < 0x800000"
    using assms(1) sint_nonneg [of address] by simp
  then have s: "unat (address + of_nat n) = unat address + n"
    using assms(2) by (intro unat_add_small) simp
  show "unat address + n \<le> 0xfc000 \<or> 0x7fffe0 \<le> unat address"
  proof (cases "unat address + n < 0x800000")
    case True
    then have "sint (address + of_nat n) = int (unat address + n)"
      using sint_small [of "address + of_nat n"] unfolding s by blast
    moreover have "sint LOADER_BASE = 0xfc000"
      by (simp add: LOADER_BASE_def)
    ultimately show ?thesis
      using assms(1) by linarith
  next
    case False
    with assms(2) show ?thesis by simp
  qed
qed

lemma outside_record:
  fixes address x :: i24
  assumes "\<not> (sint address < 0 \<or> sint (address + of_nat n) > sint LOADER_BASE)"
    and "n \<le> 32" and "i < n" and "0xfc000 \<le> unat x" and "unat x < 0x7fffe0"
  shows "x \<noteq> address + of_nat i"
proof
  assume x: "x = address + of_nat i"
  have "unat address < 0x800000"
    using assms(1,2) by (rule range_guard)
  then have "unat x = unat address + i"
    using assms(2,3) unfolding x by (intro unat_add_small) simp
  with range_guard(1) [OF assms(1,2)] assms(3-5) show False by simp
qed

context local_memory
begin

lemma data_record_frame:
  assumes "0xfc000 \<le> unat x" and "unat x < 0x7fffe0"
  shows "memory (data_record st len s) x = memory s x"
proof (cases "data_fields (line_buf s) len")
  case (Inl e)
  then show ?thesis by (cases e) (simp add: data_record_def says)
next
  case (Inr r)
  obtain seq address count data where r: "r = (seq, address, count, data)"
    by (metis surj_pair)
  note f = data_fields_accept [OF Inr [unfolded r]]
  have "store_bytes st address data (memory s) x = memory s x"
    if "\<not> (sint address < 0 \<or> sint (address + of_nat (length data)) > sint LOADER_BASE)"
    using outside_record [OF that f(3) _ assms] by (intro store_bytes_other) blast
  with Inr r f(2) show ?thesis
    by (auto simp: data_record_def commit_record_def says Let_def)
qed

lemma dispatch_frame:
  assumes "0xfc000 \<le> unat x" and "unat x < 0x7fffe0"
  shows "memory (dispatch st len s) x = memory s x"
  using data_record_frame [OF assms] go_record_accept [of len s]
  by (auto simp: dispatch_def end_record_def says Let_def split: prod.splits)

lemma loader_loop_frame:
  assumes "0xfc000 \<le> unat x" and "unat x < 0x7fffe0"
  shows "memory (loader_loop st s) x = memory s x"
proof (rule loader_loop_invariant [where P = "\<lambda>t. memory t x = memory s x"])
  fix t len t1
  assume "memory t x = memory s x" and "getline t = Some (len, t1)"
  then show "memory (dispatch st len t1) x = memory s x"
    using dispatch_frame [OF assms, of len t1] getline_fields [of t len t1] by simp
qed simp

end

section \<open>The loader's variables stay in range\<close>

definition loader_inv :: "loader_state \<Rightarrow> bool" where
  "loader_inv s \<longleftrightarrow>
     length (line_buf s) = MAXLINE \<and> crc16 (stream_crc s) \<and> unat (expected_seq s) < 65536"

lemma getline_discard_length:
  "getline_discard cs l = Some (n, l', rest) \<Longrightarrow> length l' = length l"
  by (induction cs l rule: getline_discard.induct) (auto split: if_splits)

lemma getline_loop_length:
  "getline_loop cs n l = Some (k, l', rest) \<Longrightarrow> length l' = length l"
  by (induction cs n l rule: getline_loop.induct)
    (auto split: if_splits dest: getline_discard_length)

lemma getline_inv: "getline s = Some (len, s1) \<Longrightarrow> loader_inv s \<Longrightarrow> loader_inv s1"
  by (auto simp: getline_def loader_inv_def split: option.splits dest: getline_loop_length)

lemma mask_less: "unat (w AND 0xffff :: i24) < 65536"
  using crc16_less [of "take_bit 16 w"] by (simp add: arith24 crc16_def)

lemma loader_inv_say [simp]: "loader_inv (say t s) = loader_inv s"
  by (simp add: loader_inv_def)

lemma commit_record_inv:
  "loader_inv s \<Longrightarrow> loader_inv (commit_record st seq address count data s)"
  using mask_less [of "expected_seq s + 1"]
  by (auto simp: commit_record_def loader_inv_def says Let_def crc16_data)

lemma data_record_inv: "loader_inv s \<Longrightarrow> loader_inv (data_record st len s)"
  unfolding data_record_def
  by (simp add: commit_record_inv says split: sum.split prod.split)

lemma end_record_inv: "loader_inv s \<Longrightarrow> loader_inv (end_record len s)"
  by (simp add: end_record_def says Let_def split: prod.split) (simp add: loader_inv_def)

lemma go_record_inv: "loader_inv s \<Longrightarrow> loader_inv (go_record len s)"
  using go_record_accept [of len s] by (auto simp: loader_inv_def)

lemma dispatch_inv: "loader_inv s \<Longrightarrow> loader_inv (dispatch st len s)"
  by (simp add: dispatch_def data_record_inv end_record_inv go_record_inv says)

section \<open>What has been acknowledged\<close>

text \<open>
  The abstract state of a transfer: the records accepted so far, in order.  The running
  checksum covers sequence number, address, length and bytes of each of them, memory holds
  all of them, and the next sequence number is their number modulo \<open>2^16\<close>.
\<close>

fun stream_from :: "nat \<Rightarrow> i24 \<Rightarrow> (i24 \<times> u8 list) list \<Rightarrow> i24" where
  "stream_from k c [] = c"
| "stream_from k c ((a, d) # rs) =
     stream_from (Suc k)
       (crc_data (crc_header c (of_nat (k mod 65536)) a (of_nat (length d))) d) rs"

fun image_of :: "store \<Rightarrow> (i24 \<times> u8 list) list \<Rightarrow> ram \<Rightarrow> ram" where
  "image_of st [] m = m"
| "image_of st ((a, d) # rs) m = image_of st rs (store_bytes st a d m)"

lemma stream_from_snoc:
  "stream_from k c (rs @ [(a, d)]) =
     crc_data (crc_header (stream_from k c rs) (of_nat ((k + length rs) mod 65536)) a
       (of_nat (length d))) d"
  by (induction k c rs rule: stream_from.induct) simp_all

lemma image_of_snoc: "image_of st (rs @ [(a, d)]) m = store_bytes st a d (image_of st rs m)"
  by (induction st rs m rule: image_of.induct) simp_all

definition seq_no :: "nat \<Rightarrow> i24" where
  "seq_no k = of_nat (k mod 65536)"

definition accepted ::
  "store \<Rightarrow> (i24 \<times> u8 list) list \<Rightarrow> ram \<Rightarrow> loader_state \<Rightarrow> bool" where
  "accepted st rs m s \<longleftrightarrow>
     expected_seq s = seq_no (length rs) \<and> stream_crc s = stream_from 0 0xffff rs \<and>
     memory s = image_of st rs m"

lemma unat_seq_no: "unat (seq_no k) = k mod 65536"
  unfolding seq_no_def
  by (rule unat_of_nat_small) (rule order_less_le_trans [of _ 65536], simp_all)

lemma seq_no_less [simp]: "unat (seq_no k) < 65536"
  by (simp add: unat_seq_no)

lemma seq_no_Suc: "(seq_no k + 1) AND 0xffff = seq_no (Suc k)"
proof -
  have "unat ((seq_no k + 1) AND 0xffff) = Suc k mod 65536"
    by (simp add: arith24 unsigned_take_bit_eq unat_word_ariths unat_seq_no take_bit_eq_mod
        mod_simps)
  then show ?thesis
    by (metis unat_seq_no word_unat_eq_iff)
qed

lemma mask_seq_no: "take_bit 16 (seq_no k) = seq_no k"
  by (simp add: word_unat_eq_iff unsigned_take_bit_eq unat_seq_no take_bit_nat_eq_self)

lemma seq_no_pred: "(seq_no (Suc k) - 1) AND 0xffff = seq_no k"
proof (cases "Suc (k mod 65536) = 65536")
  case True
  then have "seq_no (Suc k) = 0" "k mod 65536 = 65535"
    by (simp_all add: seq_no_def mod_Suc)
  then show ?thesis
    by (simp add: seq_no_def)
next
  case False
  then have "seq_no (Suc k) - 1 = seq_no k"
    by (simp add: seq_no_def mod_Suc)
  then show ?thesis
    by (simp add: arith24 mask_seq_no)
qed

lemma seq_no_neq: "seq_no (Suc k) \<noteq> seq_no k"
proof
  assume "seq_no (Suc k) = seq_no k"
  then have "Suc k mod 65536 = k mod 65536"
    by (metis unat_seq_no)
  then show False
    by (simp add: mod_Suc split: if_splits)
qed

context ram_memory
begin

lemma commit_accepted:
  assumes "accepted st rs m s" and "length data \<le> 32"
    and "seq = expected_seq s" and "count = of_nat (length data)"
  shows "commit_record st seq address count data s =
      say (ack_line (CHR ''A'') seq)
        (s\<lparr>memory := store_bytes st address data (memory s),
           stream_crc := stream_from 0 0xffff (rs @ [(address, data)]),
           expected_seq := seq_no (Suc (length rs)), finalized := False\<rparr>)"
  using assms readback_store [of data address "memory s"]
  by (simp add: commit_record_def accepted_def Let_def says stream_from_snoc seq_no_Suc
      flip: seq_no_def)

lemma data_record_accepted:
  assumes "accepted st rs m s"
  shows "accepted st rs m (data_record st len s) \<and>
      finalized (data_record st len s) = finalized s \<or>
    (\<exists>a d. accepted st (rs @ [(a, d)]) m (data_record st len s) \<and>
      \<not> finalized (data_record st len s))"
proof (cases "data_fields (line_buf s) len")
  case (Inl e)
  then show ?thesis
    using assms by (cases e) (simp add: data_record_def says accepted_def)
next
  case (Inr r)
  obtain seq address count data where r: "r = (seq, address, count, data)"
    by (metis surj_pair)
  note f = data_fields_accept [OF Inr [unfolded r]]
  have "accepted st (rs @ [(address, data)]) m (commit_record st seq address count data s) \<and>
      \<not> finalized (commit_record st seq address count data s)"
    if "seq = expected_seq s"
    using commit_accepted [OF assms f(3) that f(2), of address] assms
    by (simp add: accepted_def image_of_snoc)
  with Inr r assms show ?thesis
    by (auto simp: data_record_def says accepted_def)
qed

lemma dispatch_accepted:
  assumes "accepted st rs m s"
  shows "\<exists>rs'. accepted st rs' m (dispatch st len s) \<and> (rs' = rs \<or> (\<exists>r. rs' = rs @ [r]))"
proof -
  have "accepted st rs m (end_record len s)" "accepted st rs m (go_record len s)"
    "accepted st rs m (say t s)" for t
    using assms go_record_accept [of len s]
    by (auto simp: end_record_def says Let_def accepted_def split: prod.split)
  with data_record_accepted [OF assms, of len] show ?thesis
    unfolding dispatch_def by (auto simp: says)
qed

lemma loader_loop_accepted:
  assumes "accepted st rs m s"
  shows "\<exists>rs'. accepted st (rs @ rs') m (loader_loop st s)"
proof (rule loader_loop_invariant [where P = "\<lambda>t. \<exists>rs'. accepted st (rs @ rs') m t"])
  fix t len t1
  assume "\<exists>rs'. accepted st (rs @ rs') m t" and "getline t = Some (len, t1)"
  then obtain rs' where "accepted st (rs @ rs') m t1"
    using getline_fields [of t len t1] by (auto simp: accepted_def)
  from dispatch_accepted [OF this, of len] show "\<exists>rs'. accepted st (rs @ rs') m (dispatch st len t1)"
    by auto
qed (use assms in \<open>auto intro: exI [of _ "[]"]\<close>)

end

lemma seq_no_pred_neq: "(seq_no k - 1) AND 0xffff \<noteq> seq_no k"
proof -
  have e: "seq_no k = seq_no (Suc (k + 65535))"
    by (simp add: seq_no_def)
  then have "(seq_no k - 1) AND 0xffff = seq_no (k + 65535)"
    by (simp only: seq_no_pred)
  then show ?thesis
    unfolding e using seq_no_neq [of "k + 65535"] by simp
qed

section \<open>Lines\<close>

text \<open>Reception of one line: \<open>getline\<close> and the dispatch of \<open>main\<close> on its characters.\<close>

definition loader_recv :: "store \<Rightarrow> string \<Rightarrow> loader_state \<Rightarrow> loader_state" where
  "loader_recv st t s =
     (case getline (s\<lparr>uart_in := t @ [CHR 0x0A]\<rparr>) of
        None \<Rightarrow> s
      | Some (len, s1) \<Rightarrow> dispatch st len s1)"

definition plain :: "string \<Rightarrow> bool" where
  "plain t \<longleftrightarrow> CHR 0x0A \<notin> set t \<and> CHR 0x0D \<notin> set t"

lemma getline_loop_plain:
  assumes "plain t" and "n + length t \<le> 127" and "length l = 128"
  shows "getline_loop (t @ CHR 0x0A # rest) n l =
    Some (int (n + length t), take n l @ t @ CHR 0x00 # drop (Suc (n + length t)) l, rest)"
  using assms
proof (induction t arbitrary: n l)
  case Nil
  then show ?case by (simp add: upd_conv_take_nth_drop)
next
  case (Cons c t)
  have u: "l[n := c] = take n l @ c # drop (Suc n) l"
    using Cons.prems(2,3) by (simp add: upd_conv_take_nth_drop)
  have "getline_loop ((c # t) @ CHR 0x0A # rest) n l =
      getline_loop (t @ CHR 0x0A # rest) (Suc n) (l[n := c])"
    using Cons.prems by (auto simp: plain_def MAXLINE_def)
  also have "\<dots> = Some (int (Suc n + length t),
      take (Suc n) (l[n := c]) @ t @ CHR 0x00 # drop (Suc (Suc n + length t)) (l[n := c]), rest)"
    by (rule Cons.IH) (use Cons.prems in \<open>auto simp: plain_def\<close>)
  finally show ?case
    using Cons.prems(2,3) by (simp add: take_Suc_conv_app_nth)
qed

lemma loader_recv_plain:
  assumes "plain t" and "length t \<le> 127" and "length (line_buf s) = 128"
  shows "loader_recv st t s =
    dispatch st (int (length t))
      (s\<lparr>line_buf := t @ CHR 0x00 # drop (Suc (length t)) (line_buf s), uart_in := []\<rparr>)"
  using getline_loop_plain [OF assms(1), of 0 "line_buf s" "[]"] assms(2,3)
  by (simp add: loader_recv_def getline_def)

lemma hexdigit_plain [simp]: "d < 16 \<Longrightarrow> hexdigit d \<noteq> CHR 0x0A \<and> hexdigit d \<noteq> CHR 0x0D"
proof -
  assume "d < 16"
  then have "hex (hexdigit d) = int d"
    by (rule hex_hexdigit)
  moreover have "hex (CHR 0x0A) = -1" "hex (CHR 0x0D) = -1"
    by (simp_all add: hex_def schar_def uchar_def)
  ultimately show ?thesis by auto
qed

lemma plain_append [simp]: "plain (s @ t) \<longleftrightarrow> plain s \<and> plain t"
  by (auto simp: plain_def)

lemma plain_Cons [simp]:
  "plain (c # t) \<longleftrightarrow> c \<noteq> CHR 0x0A \<and> c \<noteq> CHR 0x0D \<and> plain t"
  by (auto simp: plain_def)

lemma plain_Nil [simp]: "plain []"
  by (simp add: plain_def)

lemma plain_hexpad [simp]: "plain (hexpad w n)"
  by (induction w) auto

lemma plain_bytes_text [simp]: "plain (bytes_text bs)"
  by (induction bs) (simp_all add: bytes_text_def)

lemma plain_record_text [simp]: "plain (record_text q a bs c)"
  by (simp add: record_text_def)

lemma plain_data_line [simp]: "plain (data_line q a bs)"
  by (simp add: data_line_def)

section \<open>Records, retransmissions and the final checksum\<close>

lemma image_range:
  fixes a :: i24
  assumes "unat a + n \<le> 0xfc000"
  shows "\<not> (sint a < 0 \<or> sint (a + of_nat n) > sint LOADER_BASE)"
proof -
  have "unat (a + of_nat n) = unat a + n"
    using assms by (intro unat_add_small) simp
  then have "sint (a + of_nat n) = int (unat a + n)"
    using sint_small [of "a + of_nat n"] assms by simp
  moreover have "sint a = int (unat a)"
    using sint_small [of a] assms by simp
  moreover have "sint LOADER_BASE = 0xfc000"
    by (simp add: LOADER_BASE_def)
  ultimately show ?thesis
    using assms by linarith
qed

lemma recv_data:
  assumes "loader_inv s" and "length data \<le> 32" and "unat seq < 65536"
  shows "\<exists>l. loader_recv st (data_line seq a data) s =
      (let s1 = s\<lparr>line_buf := l, uart_in := []\<rparr> in
       if seq = (expected_seq s - 1) AND 0xffff then ack (CHR ''A'') seq s1
       else if seq \<noteq> expected_seq s then nack seq (CHR ''S'') s1
       else if sint a < 0 \<or> sint (a + of_nat (length data)) > sint LOADER_BASE
       then nack seq (CHR ''R'') s1
       else commit_record st seq a (of_nat (length data)) data s1)"
proof -
  let ?t = "data_line seq a data"
  let ?l = "?t @ CHR 0x00 # drop (Suc (length ?t)) (line_buf s)"
  have "loader_recv st ?t s =
      dispatch st (int (length ?t)) (s\<lparr>line_buf := ?l, uart_in := []\<rparr>)"
    using assms(1,2) by (intro loader_recv_plain) (auto simp: loader_inv_def MAXLINE_def)
  moreover have "data_fields ?l (17 + 2 * int (length data)) =
      Inr (seq, a, of_nat (length data), data)"
    using assms(2,3) by (intro data_fields_data_line) simp_all
  moreover have "?l ! 0 = CHR ''D''"
    by (simp add: data_line_def record_text_def)
  ultimately show ?thesis
    by (intro exI [of _ ?l]) (simp add: dispatch_def data_record_def Let_def)
qed

definition end_line :: "i24 \<Rightarrow> i24 \<Rightarrow> string" where
  "end_line seq crc = CHR ''E'' # hexpad 4 (unat seq) @ hexpad 4 (unat crc)"

lemma recv_end:
  assumes "loader_inv s" and "unat seq < 65536" and "crc16 crc"
  shows "\<exists>l. loader_recv st (end_line seq crc) s =
      (let s1 = s\<lparr>line_buf := l, uart_in := []\<rparr> in
       if seq \<noteq> expected_seq s \<or> crc \<noteq> stream_crc s then nack seq (CHR ''E'') s1
       else ack (CHR ''F'') seq (s1\<lparr>finalized := True\<rparr>))"
proof -
  let ?t = "end_line seq crc"
  let ?l = "?t @ CHR 0x00 # drop (Suc (length ?t)) (line_buf s)"
  have "loader_recv st ?t s =
      dispatch st (int (length ?t)) (s\<lparr>line_buf := ?l, uart_in := []\<rparr>)"
    using assms(1)
    by (intro loader_recv_plain) (auto simp: loader_inv_def MAXLINE_def end_line_def)
  moreover have "number ?l 1 4 True = (seq, True)"
    by (rule number_hexpad) (use assms(2) in \<open>simp_all add: end_line_def\<close>)
  moreover have "number ?l 5 4 True = (crc, True)"
    by (rule number_hexpad) (use crc16_less [OF assms(3)] in \<open>simp_all add: end_line_def\<close>)
  ultimately show ?thesis
    by (intro exI [of _ ?l]) (auto simp: dispatch_def end_record_def end_line_def Let_def)
qed

definition go_line :: "i24 \<Rightarrow> string" where
  "go_line a = CHR ''G'' # hexpad 6 (unat a)"

lemma recv_go:
  assumes "loader_inv s"
  shows "\<exists>l. loader_recv st (go_line a) s =
      (let s1 = s\<lparr>line_buf := l, uart_in := []\<rparr> in
       if \<not> finalized s \<or> sint a \<ge> sint LOADER_BASE then nack (expected_seq s) (CHR ''G'') s1
       else say (CHR ''J'' # hexpad 6 (unat a)) s1\<lparr>jumped := Some a\<rparr>)"
proof -
  let ?t = "go_line a"
  let ?l = "?t @ CHR 0x00 # drop (Suc (length ?t)) (line_buf s)"
  have "loader_recv st ?t s =
      dispatch st (int (length ?t)) (s\<lparr>line_buf := ?l, uart_in := []\<rparr>)"
    using assms
    by (intro loader_recv_plain) (auto simp: loader_inv_def MAXLINE_def go_line_def)
  moreover have "number ?l 1 6 True = (a, True)"
    by (rule number_hexpad) (simp_all add: go_line_def)
  ultimately show ?thesis
    by (intro exI [of _ ?l])
      (auto simp: dispatch_def go_record_def go_line_def Let_def puthex_eq putchr_def say_def)
qed

text \<open>The three exchanges of a transfer, as they change the abstract state.\<close>

context ram_memory
begin

lemma recv_next:
  assumes "accepted st rs m s" and "loader_inv s" and "length data \<le> 32"
    and "unat a + length data \<le> 0xfc000" and "seq = seq_no (length rs)"
  shows "accepted st (rs @ [(a, data)]) m (loader_recv st (data_line seq a data) s)"
    and "uart_out (loader_recv st (data_line seq a data) s) =
      uart_out s @ ack_line (CHR ''A'') seq @ [CHR 0x0A]"
    and "finalized (loader_recv st (data_line seq a data) s) = False"
    and "jumped (loader_recv st (data_line seq a data) s) = jumped s"
proof -
  have e: "expected_seq s = seq"
    using assms(1,5) by (simp add: accepted_def)
  have ne: "seq \<noteq> (expected_seq s - 1) AND 0xffff"
    unfolding e assms(5) using seq_no_pred_neq by metis
  obtain l where r: "loader_recv st (data_line seq a data) s =
      commit_record st seq a (of_nat (length data)) data (s\<lparr>line_buf := l, uart_in := []\<rparr>)"
    using recv_data [OF assms(2,3), of seq st a] image_range [OF assms(4)] e ne assms(5)
    by (auto simp: Let_def)
  have "accepted st rs m (s\<lparr>line_buf := l, uart_in := []\<rparr>)"
    using assms(1) by (simp add: accepted_def)
  note c = commit_accepted [OF this assms(3) _ refl, of seq a]
  show "accepted st (rs @ [(a, data)]) m (loader_recv st (data_line seq a data) s)"
    "uart_out (loader_recv st (data_line seq a data) s) =
      uart_out s @ ack_line (CHR ''A'') seq @ [CHR 0x0A]"
    "finalized (loader_recv st (data_line seq a data) s) = False"
    "jumped (loader_recv st (data_line seq a data) s) = jumped s"
    unfolding r using c e assms(1) by (simp_all add: accepted_def image_of_snoc)
qed

end

context ram_memory
begin

lemma recv_again:
  assumes "accepted st (rs @ [r]) m s" and "loader_inv s" and "length data \<le> 32"
    and "seq = seq_no (length rs)"
  shows "\<exists>l. loader_recv st (data_line seq a data) s =
    say (ack_line (CHR ''A'') seq) (s\<lparr>line_buf := l, uart_in := []\<rparr>)"
proof -
  have "seq = (expected_seq s - 1) AND 0xffff"
    using assms(1,4) by (simp add: accepted_def seq_no_pred)
  moreover have "unat seq < 65536"
    by (simp add: assms(4))
  ultimately show ?thesis
    using recv_data [OF assms(2,3), of seq st a] by (auto simp: Let_def says)
qed

lemma recv_end_accepted:
  assumes "accepted st rs m s" and "loader_inv s"
  shows "\<exists>l. loader_recv st (end_line (seq_no (length rs)) (stream_from 0 0xffff rs)) s =
    say (ack_line (CHR ''F'') (seq_no (length rs)))
      (s\<lparr>line_buf := l, uart_in := [], finalized := True\<rparr>)"
proof -
  have "crc16 (stream_from 0 0xffff rs)"
    using assms by (simp add: accepted_def loader_inv_def)
  then show ?thesis
    using recv_end [OF assms(2), of "seq_no (length rs)" "stream_from 0 0xffff rs" st] assms(1)
    by (auto simp: Let_def says accepted_def)
qed

end

lemma loader_recv_inv: "loader_inv s \<Longrightarrow> loader_inv (loader_recv st t s)"
proof -
  assume "loader_inv s"
  then have "loader_inv (s\<lparr>uart_in := t @ [CHR 0x0A]\<rparr>)"
    by (simp add: loader_inv_def)
  then show ?thesis
    by (auto simp: loader_recv_def \<open>loader_inv s\<close> split: option.split
        intro: dispatch_inv getline_inv)
qed

section \<open>A stream of lines is received line by line\<close>

lemma getline_discard_rest:
  "CHR 0x0A \<notin> set t \<Longrightarrow>
     getline_discard (t @ CHR 0x0A # rest) l =
     map_option (\<lambda>(n, l', _). (n, l', rest)) (getline_discard (t @ [CHR 0x0A]) l)"
  by (induction t arbitrary: l) auto

lemma getline_loop_rest:
  "CHR 0x0A \<notin> set t \<Longrightarrow>
     getline_loop (t @ CHR 0x0A # rest) n l =
     map_option (\<lambda>(n, l', _). (n, l', rest)) (getline_loop (t @ [CHR 0x0A]) n l)"
  by (induction t arbitrary: n l) (auto simp: getline_discard_rest [of _ rest])

lemma getline_discard_some: "\<exists>n l' r. getline_discard (t @ [CHR 0x0A]) l = Some (n, l', r)"
  by (induction t arbitrary: l) auto

lemma getline_loop_some: "\<exists>k l' r. getline_loop (t @ [CHR 0x0A]) n l = Some (k, l', r)"
  by (induction t arbitrary: n l) (auto simp: getline_discard_some)

lemma say_uart_in: "say t (s\<lparr>uart_in := x\<rparr>) = (say t s)\<lparr>uart_in := x\<rparr>"
  by (simp add: say_def)

lemma puthex_uart_in: "d \<le> 6 \<Longrightarrow> puthex v d (s\<lparr>uart_in := x\<rparr>) = (puthex v d s)\<lparr>uart_in := x\<rparr>"
  by (simp add: puthex_eq)

lemma dispatch_uart_in_update:
  "dispatch st len (s\<lparr>uart_in := x\<rparr>) = (dispatch st len s)\<lparr>uart_in := x\<rparr>"
proof -
  have "commit_record st q a c d (s\<lparr>uart_in := x\<rparr>) = (commit_record st q a c d s)\<lparr>uart_in := x\<rparr>"
    for q a c d
    by (simp add: commit_record_def says say_uart_in Let_def flip: say_uart_in)
  then have "data_record st len (s\<lparr>uart_in := x\<rparr>) = (data_record st len s)\<lparr>uart_in := x\<rparr>"
    by (simp add: data_record_def says say_uart_in split: sum.split prod.split)
  moreover have "end_record len (s\<lparr>uart_in := x\<rparr>) = (end_record len s)\<lparr>uart_in := x\<rparr>"
    by (simp add: end_record_def says Let_def split: prod.split)
  moreover have "go_record len (s\<lparr>uart_in := x\<rparr>) = (go_record len s)\<lparr>uart_in := x\<rparr>"
    by (simp add: go_record_def says Let_def puthex_eq putchr_def split: prod.split)
  ultimately show ?thesis
    by (simp add: dispatch_def says say_uart_in)
qed

fun loader_recvs :: "store \<Rightarrow> string list \<Rightarrow> loader_state \<Rightarrow> loader_state" where
  "loader_recvs st [] s = s"
| "loader_recvs st (t # ts) s =
     (if jumped s \<noteq> None then s else loader_recvs st ts (loader_recv st t s))"

definition wire :: "string list \<Rightarrow> string" where
  "wire ts = concat (map (\<lambda>t. t @ [CHR 0x0A]) ts)"

lemma loader_loop_wire:
  assumes "\<And>t. t \<in> set ts \<Longrightarrow> CHR 0x0A \<notin> set t"
  shows "(loader_loop st (s\<lparr>uart_in := wire ts\<rparr>))\<lparr>uart_in := []\<rparr> =
    (loader_recvs st ts s)\<lparr>uart_in := []\<rparr>"
  using assms
proof (induction ts arbitrary: s)
  case Nil
  then show ?case
    by (simp add: wire_def loader_loop.simps [of st "s\<lparr>uart_in := []\<rparr>"] getline_def)
next
  case (Cons t ts)
  show ?case
  proof (cases "jumped s = None")
    case False
    then show ?thesis
      by (simp add: loader_loop.simps [of st "s\<lparr>uart_in := wire (t # ts)\<rparr>"])
  next
    case True
    obtain k l r where g: "getline_loop (t @ [CHR 0x0A]) 0 (line_buf s) = Some (k, l, r)"
      using getline_loop_some by blast
    have w: "wire (t # ts) = t @ CHR 0x0A # wire ts"
      by (simp add: wire_def)
    have "getline (s\<lparr>uart_in := wire (t # ts)\<rparr>) =
        Some (k, s\<lparr>line_buf := l, uart_in := wire ts\<rparr>)"
      unfolding w getline_def 
      using g Cons.prems getline_loop_rest [of t "wire ts"] by simp
    then have "loader_loop st (s\<lparr>uart_in := wire (t # ts)\<rparr>) =
        loader_loop st ((loader_recv st t s)\<lparr>uart_in := wire ts\<rparr>)"
      using True g
      by (simp add: loader_loop.simps [of st "s\<lparr>uart_in := wire (t # ts)\<rparr>"] loader_recv_def
          getline_def dispatch_uart_in_update)
    with True Cons show ?thesis by simp
  qed
qed

section \<open>Properties\<close>

text \<open>The state at reset, with the given input waiting: statics cleared, memory zero.\<close>

definition boot :: "string \<Rightarrow> loader_state" where
  "boot input = \<lparr>line_buf = replicate MAXLINE (CHR 0x00), expected_seq = 0, stream_crc = 0,
     finalized = False, memory = (\<lambda>_. 0), uart_in = input, uart_out = [], jumped = None\<rparr>"

text \<open>C5: whatever arrives on the UART, the loader never changes a byte between
  \<open>LOADER_BASE\<close> and \<open>0x7fffe0\<close>, so it cannot overwrite itself.\<close>

theorem loader_region_safe:
  assumes "local_memory st" and "0xfc000 \<le> unat x" and "unat x < 0x7fffe0"
  shows "memory (loader_main st s) x = memory s x"
  using local_memory.loader_loop_frame [OF assms]
  by (simp add: loader_main_def says)

theorem loader_region_safe_witness:
  "memory (loader_main ideal_store (boot (wire [data_line 0 0x0fbff0 (replicate 32 1)]))) 0x0fc005
     = memory (boot (wire [data_line 0 0x0fbff0 (replicate 32 1)])) 0x0fc005"
  by (rule loader_region_safe) (rule ideal.local_memory_axioms, simp_all)

text \<open>the loader's variables stay in range over any input: the line buffer keeps its
  size, the checksum and the sequence number stay 16-bit values.\<close>

lemma loader_inv_main:
  assumes "length (line_buf s) = MAXLINE"
  shows "loader_inv (loader_main st s)"
  unfolding loader_main_def
proof (rule loader_loop_invariant)
  show "loader_inv (dispatch st len s1)"
    if "loader_inv t" "getline t = Some (len, s1)" for t len s1
    using that by (blast intro: dispatch_inv getline_inv)
  show "loader_inv (ready (s\<lparr>expected_seq := 0, stream_crc := 0xffff, finalized := False\<rparr>))"
    using assms by (simp add: ready_say loader_inv_def crc16_def)
qed

theorem loader_inv_main_witness:
  "length (line_buf (boot (wire [''D0000'', ''H'']))) = MAXLINE \<and>
   loader_inv (loader_main ideal_store (boot (wire [''D0000'', ''H''])))"
proof
  show len: "length (line_buf (boot (wire [''D0000'', ''H'']))) = MAXLINE"
    by (simp add: boot_def)
  show "loader_inv (loader_main ideal_store (boot (wire [''D0000'', ''H''])))"
    by (rule loader_inv_main) (rule len)
qed



text \<open>C8: a retransmission of the record accepted last is acknowledged again and changes
  neither memory nor checksum nor sequence number, whatever data it carries.\<close>

theorem retransmission_idempotent:
  assumes "ram_memory st" and "accepted st (rs @ [r]) m s" and "loader_inv s"
    and "length data \<le> 32"
  shows "\<exists>l. loader_recv st (data_line (seq_no (length rs)) a data) s =
    say (ack_line (CHR ''A'') (seq_no (length rs))) (s\<lparr>line_buf := l, uart_in := []\<rparr>)"
  using ram_memory.recv_again [OF assms refl] .

theorem retransmission_idempotent_witness:
  "\<exists>l. loader_recv ideal_store (data_line (seq_no (length [])) 0x100 [7, 8])
      (boot []\<lparr>expected_seq := 1, stream_crc := stream_from 0 0xffff [(0x100, [7, 8])],
        memory := image_of ideal_store [(0x100, [7, 8])] (\<lambda>_. 0)\<rparr>) =
    say (ack_line (CHR ''A'') (seq_no (length [])))
      (boot []\<lparr>expected_seq := 1, stream_crc := stream_from 0 0xffff [(0x100, [7, 8])],
        memory := image_of ideal_store [(0x100, [7, 8])] (\<lambda>_. 0), line_buf := l, uart_in := []\<rparr>)"
proof -
  let ?s = "boot []\<lparr>expected_seq := 1, stream_crc := stream_from 0 0xffff [(0x100, [7, 8])],
        memory := image_of ideal_store [(0x100, [7, 8])] (\<lambda>_. 0)\<rparr>"
  have a: "accepted ideal_store ([] @ [(0x100, [7, 8])]) (\<lambda>_. 0) ?s"
    by (simp add: accepted_def seq_no_def)
  have i: "loader_inv ?s"
    by (simp add: loader_inv_def boot_def crc16_data)
  show ?thesis
    using retransmission_idempotent [OF ideal.ram_memory_axioms a i, of "[7, 8]" "0x100"] by simp
qed

text \<open>C10: the record checksum notices every corruption of the data that is confined to two
  adjacent bytes, whatever the rest of the record is.\<close>

theorem record_crc_detects_burst:
  assumes "a \<noteq> a' \<or> b \<noteq> b'"
  shows "record_crc seq address count (xs @ a # b # ys) \<noteq>
    record_crc seq address count (xs @ a' # b' # ys)"
proof
  assume "record_crc seq address count (xs @ a # b # ys) =
    record_crc seq address count (xs @ a' # b' # ys)"
  then have "a = a' \<and> b = b'"
    unfolding record_crc_def crc_data_append by (intro crc_burst_inject) (simp_all add: crc16_data)
  with assms show False by simp
qed

theorem record_crc_detects_burst_witness:
  "(5 :: u8) \<noteq> 6 \<and>
   record_crc 0 0x100 3 ([1] @ 5 # 9 # []) \<noteq> record_crc 0 0x100 3 ([1] @ 6 # 9 # [])"
  using record_crc_detects_burst [of 5 6 9 9 0 "0x100" 3 "[1]" "[]"] by simp



text \<open>the end record sets \<open>finalized\<close> exactly when it names the number of records
  accepted so far and the checksum of all of them.\<close>

lemma end_record_confirms:
  assumes "accepted st rs m s" and "\<not> finalized s"
  shows "finalized (end_record len s) \<longleftrightarrow>
    len = 9 \<and> number (line_buf s) 1 4 True = (seq_no (length rs), True) \<and>
    number (line_buf s) 5 4 True = (stream_from 0 0xffff rs, True)"
proof -
  obtain seq ok1 where n1: "number (line_buf s) 1 4 True = (seq, ok1)"
    by fastforce
  obtain crc ok2 where n2: "number (line_buf s) 5 4 ok1 = (crc, ok2)"
    by fastforce
  have "ok1" if "ok2"
    using number_bound(1) [of "line_buf s" 5 4 ok1 crc] n2 that by simp
  then show ?thesis
    using assms n1 n2 by (cases ok1) (auto simp: end_record_def accepted_def says)
qed

theorem end_record_confirms_witness:
  "accepted ideal_store [] (\<lambda>_. 0)
     (boot []\<lparr>stream_crc := 0xffff, line_buf := ''E0000FFFF''\<rparr>) \<and>
   finalized (end_record 9 (boot []\<lparr>stream_crc := 0xffff, line_buf := ''E0000FFFF''\<rparr>))"
proof -
  let ?s = "boot []\<lparr>stream_crc := 0xffff, line_buf := ''E0000FFFF''\<rparr>"
  have a: "accepted ideal_store [] (\<lambda>_. 0) ?s"
    by (simp add: accepted_def boot_def seq_no_def)
  have "number (line_buf ?s) 1 4 True = (0, True)" "number (line_buf ?s) 5 4 True = (0xffff, True)"
    by (simp_all add: number_def numeral_eq_Suc hex_def hexes schar_def uchar_def)
  then show ?thesis
    using end_record_confirms [OF a, of 9] a by (simp add: boot_def seq_no_def)
qed

section \<open>Where the code falls short\<close>

text \<open>C12: the range check of \<open>data_record\<close> adds in 24 bits: the record at \<open>0x7fffff\<close> with
  two bytes passes it, because \<open>address + count\<close> wraps around to a negative number, and its
  second byte is written at \<open>0x800000\<close>, far above \<open>LOADER_BASE\<close>.\<close>

theorem range_check_wraps:
  assumes "ram_memory st" and "accepted st rs m s" and "loader_inv s"
  shows "memory (loader_recv st (data_line (seq_no (length rs)) 0x7fffff [b0, b1]) s) 0x800000 = b1
    \<and> unat LOADER_BASE < unat (0x800000 :: i24)"
proof -
  let ?q = "seq_no (length rs)"
  have e: "expected_seq s = ?q" and ne: "?q \<noteq> (?q - 1) AND 0xffff"
    using assms(2) seq_no_pred_neq [of "length rs"] by (auto simp: accepted_def)
  obtain l where r: "loader_recv st (data_line ?q 0x7fffff [b0, b1]) s =
      commit_record st ?q 0x7fffff (of_nat (length [b0, b1])) [b0, b1]
        (s\<lparr>line_buf := l, uart_in := []\<rparr>)"
    using recv_data [OF assms(3), of "[b0, b1]" ?q st "0x7fffff"] e ne
    by (auto simp: Let_def LOADER_BASE_def)
  have a: "accepted st rs m (s\<lparr>line_buf := l, uart_in := []\<rparr>)"
    using assms(2) by (simp add: accepted_def)
  show ?thesis
    unfolding r
    using ram_memory.commit_accepted [OF assms(1) a, of "[b0, b1]" ?q _ "0x7fffff"] e
      ram_memory.store_same [OF assms(1)]
    by (simp add: LOADER_BASE_def)
qed

theorem range_check_wraps_witness:
  "memory (loader_recv ideal_store (data_line (seq_no 0) 0x7fffff [1, 2])
     (boot []\<lparr>stream_crc := 0xffff\<rparr>)) 0x800000 = 2"
proof -
  have "accepted ideal_store [] (\<lambda>_. 0) (boot []\<lparr>stream_crc := 0xffff\<rparr>)"
    "loader_inv (boot []\<lparr>stream_crc := 0xffff\<rparr>)"
    by (simp_all add: accepted_def boot_def seq_no_def loader_inv_def crc16_def)
  from range_check_wraps [OF ideal.ram_memory_axioms this] show ?thesis
    by simp
qed

text \<open>the jump has no check for negative addresses: once the checksum is confirmed, a
  \<open>G\<close> record with any address in the upper half of memory is obeyed.\<close>

lemma go_accepts_upper_half:
  assumes "loader_inv s" and "finalized s" and "0x800000 \<le> unat a"
  shows "jumped (loader_recv st (go_line a) s) = Some a \<and> unat LOADER_BASE < unat a"
proof -
  have "sint a < 0"
    using sint_nonneg [of a] assms(3) by linarith
  then have "sint a < sint LOADER_BASE"
    by (simp add: LOADER_BASE_def)
  then show ?thesis
    using recv_go [OF assms(1), of st a] assms(2,3) by (auto simp: Let_def LOADER_BASE_def)
qed

theorem go_accepts_upper_half_witness:
  "jumped (loader_recv ideal_store (go_line 0xff0100) (boot []\<lparr>finalized := True\<rparr>)) = Some 0xff0100"
proof -
  have "loader_inv (boot []\<lparr>finalized := True\<rparr>)"
    by (simp add: boot_def loader_inv_def crc16_def)
  from go_accepts_upper_half [OF this, of "0xff0100" ideal_store] show ?thesis
    by simp
qed

text \<open>A memory whose blank bytes need two writes.\<close>

definition flaky_store :: store where
  "flaky_store m a b = (if m a = 0 then m(a := 1) else m(a := b))"

text \<open>C11: a record whose read-back fails is not idempotent. Its header has already entered
  the stream checksum when \<open>M\<close> is sent, so after a successful retry the header is counted
  twice, and the checksum differs from that of the record whenever the header changes it.\<close>

theorem failed_readback_spoils_checksum:
  assumes "loader_inv s" and "length data \<le> 32" and "unat a + length data \<le> 0xfc000"
    and "expected_seq s = seq_no k" and "seq = seq_no k"
    and "readback (store_bytes st a data (memory s)) a (length data) \<noteq> data"
    and "readback (store_bytes st a data (store_bytes st a data (memory s))) a (length data) = data"
    and "s1 = loader_recv st (data_line seq a data) s"
    and "s2 = loader_recv st (data_line seq a data) s1"
    and "h = (\<lambda>c. crc_header c seq a (of_nat (length data)))"
  shows "uart_out s1 = uart_out s @ nack_line seq (CHR ''M'') @ [CHR 0x0A] \<and>
    uart_out s2 = uart_out s1 @ ack_line (CHR ''A'') seq @ [CHR 0x0A] \<and>
    expected_seq s2 = seq_no (Suc k) \<and>
    memory s2 = store_bytes st a data (store_bytes st a data (memory s)) \<and>
    stream_crc s2 = crc_data (h (h (stream_crc s))) data \<and>
    (h (stream_crc s) \<noteq> stream_crc s \<longrightarrow>
      stream_crc s2 \<noteq> crc_data (h (stream_crc s)) data)"
proof -
  have ne: "seq \<noteq> (seq_no k - 1) AND 0xffff" and q: "unat seq < 65536"
    using seq_no_pred_neq [of k] by (auto simp: assms(5))
  have recv: "\<exists>l. loader_recv st (data_line seq a data) t =
      commit_record st seq a (of_nat (length data)) data (t\<lparr>line_buf := l, uart_in := []\<rparr>)"
    if "loader_inv t" "expected_seq t = seq_no k" for t
    using recv_data [OF that(1) assms(2) q, of st a] image_range [OF assms(3)] that(2) ne assms(5)
    by (auto simp: Let_def)
  obtain l where "s1 = commit_record st seq a (of_nat (length data)) data
      (s\<lparr>line_buf := l, uart_in := []\<rparr>)"
    using recv [OF assms(1,4)] unfolding assms(8) by blast
  then have s1: "s1 = say (nack_line seq (CHR ''M'')) (s\<lparr>line_buf := l, uart_in := [],
      memory := store_bytes st a data (memory s), stream_crc := h (stream_crc s)\<rparr>)"
    using assms(6) by (simp add: commit_record_def Let_def says assms(10))
  have i1: "loader_inv s1"
    unfolding assms(8) by (rule loader_recv_inv) (rule assms(1))
  have e1: "expected_seq s1 = seq_no k"
    using assms(4) by (simp add: s1)
  obtain l' where "s2 = commit_record st seq a (of_nat (length data)) data
      (s1\<lparr>line_buf := l', uart_in := []\<rparr>)"
    using recv [OF i1 e1] unfolding assms(9) by blast
  then have s2: "s2 = say (ack_line (CHR ''A'') seq) (s1\<lparr>line_buf := l', uart_in := [],
      memory := store_bytes st a data (memory s1),
      stream_crc := crc_data (h (stream_crc s1)) data,
      expected_seq := seq_no (Suc k), finalized := False\<rparr>)"
    using assms(7) e1 s1 by (simp add: commit_record_def Let_def says assms(10) seq_no_Suc)
  have c: "crc16 (stream_crc s)"
    using assms(1) by (simp add: loader_inv_def)
  have h16: "crc16 (h x)" for x
    by (simp add: assms(10))
  have "h (h (stream_crc s)) = h (stream_crc s) \<Longrightarrow> h (stream_crc s) = stream_crc s"
    by (rule crc_header_inject [of _ _ seq a "of_nat (length data)"])
      (use c h16 in \<open>simp_all add: assms(10)\<close>)
  then have "h (stream_crc s) \<noteq> stream_crc s \<longrightarrow>
      crc_data (h (h (stream_crc s))) data \<noteq> crc_data (h (stream_crc s)) data"
    using crc_data_inject [OF h16 h16] by blast
  then show ?thesis
    by (simp add: s2 s1)
qed

theorem failed_readback_spoils_checksum_witness:
  "let s = boot []\<lparr>stream_crc := 0xffff\<rparr>;
       s2 = loader_recv flaky_store (data_line (seq_no 0) 0 [5])
         (loader_recv flaky_store (data_line (seq_no 0) 0 [5]) s)
   in memory s2 0 = 5 \<and> expected_seq s2 = seq_no 1 \<and> stream_crc s2 \<noteq> record_crc 0 0 1 [5]"
proof -
  let ?s = "boot []\<lparr>stream_crc := 0xffff\<rparr>"
  have i: "loader_inv ?s"
    by (simp add: boot_def loader_inv_def crc16_def)
  have e: "expected_seq ?s = seq_no 0"
    by (simp add: boot_def seq_no_def)
  have h: "crc_header 0xffff 0 0 1 \<noteq> 0xffff"
    by code_simp
  have t: "length [5 :: u8] \<le> 32" "unat (0 :: i24) + length [5 :: u8] \<le> 0xfc000"
    "readback (store_bytes flaky_store 0 [5] (memory ?s)) 0 (length [5 :: u8]) \<noteq> [5]"
    "readback (store_bytes flaky_store 0 [5] (store_bytes flaky_store 0 [5] (memory ?s))) 0
       (length [5 :: u8]) = [5]"
    by (simp_all add: boot_def flaky_store_def)
  note r = failed_readback_spoils_checksum
    [OF i t(1,2) e refl t(3,4) refl refl refl]
  have z: "seq_no 0 = 0"
    by (simp add: seq_no_def)
  show ?thesis
    using r h by (auto simp add: Let_def z boot_def flaky_store_def record_crc_def)
qed

end
