(* ===== verification/Te2_Host.thy ===== *)
theory Te2_Host
  imports Prelude
begin

unbundle bit_operations_syntax

text \<open>
  The host side of TE2, \<open>te/te2/te2.c\<close>: parsing of the \<open>.lgo\<close> image, the data records with
  their checksums, the retry loops, the bootstrap and the option limits of \<open>main\<close>.

  What the operating system does is not modelled.  The code reaches it through
  \<open>send_flow_text\<close>, which asks for CTS before every byte, and \<open>wait_line\<close>, which reads the
  receiver pipe: both are modelled over the answers they get (a list of CTS answers, a list
  of received bytes and silences).  The retry loops are written over a \<open>transport\<close>, the pair
  of these two operations on a world \<open>'w\<close>, so that a concrete link can be put in their place.
  \<open>die\<close> and the loops that would not end are values of \<open>host_error\<close>.  \<open>unsigned\<close> is 32 bits
  wide, \<open>unsigned long\<close> 64 bits.
\<close>

type_synonym u32 = "32 word"
type_synonym u64 = "64 word"

definition MAX_RECORD_DATA :: nat where "MAX_RECORD_DATA = 32"
definition HOST_LOADER_BASE :: u64 where "HOST_LOADER_BASE = 0x0fc000"

datatype host_error = Die string | Endless

section \<open>Hexadecimal and CRC\<close>

definition hex_digit :: "char \<Rightarrow> int" where
  "hex_digit c =
     (if uchar c \<ge> uchar CHR ''0'' \<and> uchar c \<le> uchar CHR ''9''
      then uchar c - uchar CHR ''0''
      else if uchar c \<ge> uchar CHR ''A'' \<and> uchar c \<le> uchar CHR ''F''
      then uchar c - uchar CHR ''A'' + 10
      else if uchar c \<ge> uchar CHR ''a'' \<and> uchar c \<le> uchar CHR ''f''
      then uchar c - uchar CHR ''a'' + 10
      else -1)"

text \<open>\<open>hex_number\<close> on the digits \<open>text[0..digits-1]\<close>; the terminating NUL stands behind the
  text.\<close>

definition char_at :: "string \<Rightarrow> nat \<Rightarrow> char" where
  "char_at t i = (if i < length t then t ! i else CHR 0x00)"

fun hex_number_loop :: "string \<Rightarrow> nat \<Rightarrow> nat \<Rightarrow> u64 \<Rightarrow> bool \<Rightarrow> u64 \<times> bool" where
  "hex_number_loop t i 0 v ok = (v, ok)"
| "hex_number_loop t i (Suc d) v ok =
     (let digit = hex_digit (char_at t i)
      in if digit < 0 then (0, False)
         else hex_number_loop t (Suc i) d (push_bit 4 v OR word_of_int digit) ok)"

definition hex_number :: "string \<Rightarrow> nat \<Rightarrow> bool \<Rightarrow> u64 \<times> bool" where
  "hex_number t digits ok = hex_number_loop t 0 digits 0 ok"

definition crc_step :: "u32 \<Rightarrow> u32" where
  "crc_step crc = (if crc AND 0x8000 \<noteq> 0 then push_bit 1 crc XOR 0x1021 else push_bit 1 crc)"

definition crc_byte :: "u32 \<Rightarrow> u32 \<Rightarrow> u32" where
  "crc_byte crc byte = (crc_step ^^ 8) (crc XOR push_bit 8 (byte AND 255)) AND 0xffff"

fun host_crc_data :: "u32 \<Rightarrow> u8 list \<Rightarrow> u32" where
  "host_crc_data crc [] = crc"
| "host_crc_data crc (b # bs) = host_crc_data (crc_byte crc (ucast b)) bs"

text \<open>The address is an \<open>unsigned long\<close>: its shifts are truncated to \<open>unsigned\<close> when passed.\<close>

definition update_stream_crc :: "u32 \<Rightarrow> u32 \<Rightarrow> u64 \<Rightarrow> u8 list \<Rightarrow> u32" where
  "update_stream_crc crc seq address data =
     host_crc_data (crc_byte (crc_byte (crc_byte (crc_byte (crc_byte (crc_byte crc
       (drop_bit 8 seq)) seq)
       (ucast (drop_bit 16 address))) (ucast (drop_bit 8 address))) (ucast address))
       (of_nat (length data))) data"

definition host_record_crc :: "u32 \<Rightarrow> u64 \<Rightarrow> u8 list \<Rightarrow> u32" where
  "host_record_crc seq address data = update_stream_crc 0xffff seq address data"

section \<open>Formatting\<close>

text \<open>\<open>%0wX\<close>: at least \<open>w\<close> digits.\<close>

fun hexlen :: "nat \<Rightarrow> nat" where
  "hexlen n = (if n < 16 then 1 else Suc (hexlen (n div 16)))"

declare hexlen.simps [simp del]

definition fmt_hex :: "nat \<Rightarrow> nat \<Rightarrow> string" where
  "fmt_hex w n = hexpad (max w (hexlen n)) n"

definition record_command :: "u32 \<Rightarrow> u64 \<Rightarrow> u8 list \<Rightarrow> string" where
  "record_command seq address data =
     CHR ''D'' # fmt_hex 4 (unat seq) @ fmt_hex 6 (unat address) @ fmt_hex 2 (length data) @
     concat (map (\<lambda>b. fmt_hex 2 (unat b)) data) @
     fmt_hex 4 (unat (host_record_crc seq address data))"

section \<open>The serial line\<close>

text \<open>\<open>send_flow_text\<close>: for each character one answer of \<open>wait_for_cts\<close> and
  \<open>write_serial_byte\<close>; the result tells whether all were sent, what was sent and the answers
  left.  An exhausted list of answers stands for an adapter that is always ready.\<close>

fun send_flow_text :: "string \<Rightarrow> bool list \<Rightarrow> bool \<times> string \<times> bool list" where
  "send_flow_text [] answers = (True, [], answers)"
| "send_flow_text (c # cs) [] = (True, c # cs, [])"
| "send_flow_text (c # cs) (a # answers) =
     (if \<not> a then (False, [], answers)
      else let (ok, sent, rest) = send_flow_text cs answers in (ok, c # sent, rest))"

text \<open>What the receiver pipe yields: a byte, or silence until the deadline.\<close>

datatype rx_event = Byte char | Silence

definition LINE_CAPACITY :: nat where "LINE_CAPACITY = 256"

fun read_line :: "string \<Rightarrow> rx_event list \<Rightarrow> string option \<times> rx_event list" where
  "read_line acc [] = (None, [])"
| "read_line acc (Silence # es) = (None, es)"
| "read_line acc (Byte c # es) =
     (if c = CHR 0x0D then read_line acc es
      else if c = CHR 0x0A then (Some acc, es)
      else read_line (if length acc + 1 < LINE_CAPACITY then acc @ [c] else acc) es)"

definition c_str :: "string \<Rightarrow> string" where
  "c_str t = takeWhile (\<lambda>c. c \<noteq> CHR 0x00) t"

lemma read_line_shorter: "read_line acc es = (Some l, es') \<Longrightarrow> length es' < length es"
  by (induction acc es rule: read_line.induct) (auto split: if_splits)

text \<open>\<open>wait_line\<close>: lines other than the expected one are shown to the user and skipped.\<close>

function wait_line :: "string \<Rightarrow> rx_event list \<Rightarrow> bool \<times> rx_event list" where
  "wait_line expected es =
     (case read_line [] es of
        (None, es') \<Rightarrow> (False, es')
      | (Some l, es') \<Rightarrow> if c_str l = expected then (True, es') else wait_line expected es')"
  by pat_completeness auto
termination
  by (relation "measure (\<lambda>(expected, es). length es)") (auto dest: sym read_line_shorter)

declare wait_line.simps [simp del]

section \<open>Records and retries\<close>

record 'w transport =
  t_send :: "string \<Rightarrow> 'w \<Rightarrow> bool \<times> 'w"
  t_wait :: "string \<Rightarrow> 'w \<Rightarrow> bool \<times> 'w"

text \<open>One attempt: the command, the newline and the expected reply, each only if the one
  before succeeded.\<close>

definition exchange :: "'w transport \<Rightarrow> string \<Rightarrow> string \<Rightarrow> 'w \<Rightarrow> bool \<times> 'w" where
  "exchange t command expected w =
     (let (ok1, w1) = t_send t command w in if \<not> ok1 then (False, w1)
      else let (ok2, w2) = t_send t [CHR 0x0A] w1 in if \<not> ok2 then (False, w2)
      else t_wait t expected w2)"

text \<open>The retry loop, with the attempts left; \<open>True\<close> at the first success.\<close>

fun attempts :: "'w transport \<Rightarrow> nat \<Rightarrow> string \<Rightarrow> string \<Rightarrow> 'w \<Rightarrow> bool \<times> 'w" where
  "attempts t 0 command expected w = (False, w)"
| "attempts t (Suc n) command expected w =
     (let (ok, w1) = exchange t command expected w
      in if ok then (True, w1) else attempts t n command expected w1)"

definition send_record ::
  "'w transport \<Rightarrow> nat \<Rightarrow> u32 \<Rightarrow> u64 \<Rightarrow> u8 list \<Rightarrow> 'w \<Rightarrow> (host_error + unit) \<times> 'w" where
  "send_record t retries seq address data w =
     (let (ok, w1) = attempts t retries (record_command seq address data)
        (CHR ''A'' # fmt_hex 4 (unat seq)) w
      in if ok then (Inr (), w1) else (Inl (Die ''record retry limit exceeded''), w1))"

section \<open>The image\<close>

record upload =
  up_seq :: u32
  up_crc :: u32
  up_entry :: "u64 option"

fun host_bytes :: "string \<Rightarrow> nat \<Rightarrow> bool \<Rightarrow> u8 list \<times> bool" where
  "host_bytes t 0 ok = ([], ok)"
| "host_bytes t (Suc n) ok =
     (let (v, ok1) = hex_number t 2 ok;
          (bs, ok2) = host_bytes (drop 2 t) n ok1
      in (ucast v # bs, ok2))"

text \<open>The inner loop over the data digits of an \<open>L\<close> record: \<open>rest\<close> is the text from the
  current offset on, \<open>rds\<close> is \<open>record_data_size\<close>.  With a size of 0, which \<open>main\<close> refuses,
  the loop of the source would not advance.\<close>

function send_chunks ::
  "'w transport \<Rightarrow> nat \<Rightarrow> nat \<Rightarrow> string \<Rightarrow> u64 \<Rightarrow> upload \<Rightarrow> 'w \<Rightarrow> (host_error + upload) \<times> 'w" where
  "send_chunks t retries rds rest address u w =
     (if rest = [] then (Inr u, w)
      else let count = min (length rest div 2) rds in
        if address + of_nat count > HOST_LOADER_BASE
        then (Inl (Die ''image overlaps second-stage loader''), w)
        else let (data, ok) = host_bytes rest count True in
        if \<not> ok then (Inl (Die ''bad hex data in image''), w)
        else (case send_record t retries (up_seq u) address data w of
           (Inl e, w1) \<Rightarrow> (Inl e, w1)
         | (Inr _, w1) \<Rightarrow>
             if count = 0 then (Inl Endless, w1)
             else send_chunks t retries rds (drop (2 * count) rest) (address + of_nat count)
               (u\<lparr>up_seq := (up_seq u + 1) AND 0xffff,
                  up_crc := update_stream_crc (up_crc u) (up_seq u) address data\<rparr>) w1))"
  by pat_completeness auto
termination
  by (relation "measure (\<lambda>(t, retries, rds, rest, address, u, w). length rest)") auto

declare send_chunks.simps [simp del]

fun strip_newline :: "string \<Rightarrow> string" where
  "strip_newline t =
     (if t \<noteq> [] \<and> (last t = CHR 0x0A \<or> last t = CHR 0x0D) then strip_newline (butlast t) else t)"

declare strip_newline.simps [simp del]

definition send_line ::
  "'w transport \<Rightarrow> nat \<Rightarrow> nat \<Rightarrow> string \<Rightarrow> upload \<Rightarrow> 'w \<Rightarrow> (host_error + upload) \<times> 'w" where
  "send_line t retries rds raw u w =
     (let line = strip_newline (c_str raw) in
      if line = [] \<or> hd line = CHR '';'' then (Inr u, w)
      else if hd line = CHR ''G'' then
        if length line \<noteq> 7 then (Inl (Die ''bad G record in image''), w)
        else let (entry, ok) = hex_number (drop 1 line) 6 True in
          if \<not> ok \<or> entry \<ge> HOST_LOADER_BASE
          then (Inl (Die ''invalid image entry address''), w)
          else (Inr (u\<lparr>up_entry := Some entry\<rparr>), w)
      else if hd line \<noteq> CHR ''L'' \<or> length line < 9
      then (Inl (Die ''unsupported record in image''), w)
      else let (address, ok) = hex_number (drop 1 line) 6 True in
        if \<not> ok \<or> odd (length (drop 7 line)) then (Inl (Die ''bad L record in image''), w)
        else send_chunks t retries rds (drop 7 line) address u w)"

fun send_lines ::
  "'w transport \<Rightarrow> nat \<Rightarrow> nat \<Rightarrow> string list \<Rightarrow> upload \<Rightarrow> 'w \<Rightarrow> (host_error + upload) \<times> 'w" where
  "send_lines t retries rds [] u w = (Inr u, w)"
| "send_lines t retries rds (raw # raws) u w =
     (case send_line t retries rds raw u w of
        (Inl e, w1) \<Rightarrow> (Inl e, w1)
      | (Inr u1, w1) \<Rightarrow> send_lines t retries rds raws u1 w1)"

definition send_verified_image ::
  "'w transport \<Rightarrow> nat \<Rightarrow> nat \<Rightarrow> string list \<Rightarrow> 'w \<Rightarrow> (host_error + u64) \<times> 'w" where
  "send_verified_image t retries rds file w =
     (case send_lines t retries rds file \<lparr>up_seq = 0, up_crc = 0xffff, up_entry = None\<rparr> w of
        (Inl e, w1) \<Rightarrow> (Inl e, w1)
      | (Inr u, w1) \<Rightarrow>
          (case up_entry u of
             None \<Rightarrow> (Inl (Die ''image has no G entry record''), w1)
           | Some entry \<Rightarrow>
               let (ok, w2) = attempts t retries
                 (CHR ''E'' # fmt_hex 4 (unat (up_seq u)) @ fmt_hex 4 (unat (up_crc u)))
                 (CHR ''F'' # fmt_hex 4 (unat (up_seq u))) w1
               in if \<not> ok then (Inl (Die ''final stream checksum failed''), w2)
                  else (Inr entry, w2)))"

text \<open>The end of \<open>main\<close>: the transfer and the jump, which is not retried.\<close>

definition upload_and_jump ::
  "'w transport \<Rightarrow> nat \<Rightarrow> nat \<Rightarrow> string list \<Rightarrow> 'w \<Rightarrow> (host_error + u64) \<times> 'w" where
  "upload_and_jump t retries rds file w =
     (case send_verified_image t retries rds file w of
        (Inl e, w1) \<Rightarrow> (Inl e, w1)
      | (Inr entry, w1) \<Rightarrow>
          let (ok, w2) = exchange t (CHR ''G'' # fmt_hex 6 (unat entry))
            (CHR ''J'' # fmt_hex 6 (unat entry)) w1
          in if \<not> ok then (Inl (Die ''loader did not acknowledge jump''), w2)
             else (Inr entry, w2))"

end
