(* ===== verification/Te2_Host_Correct.thy ===== *)
theory Te2_Host_Correct
  imports Te2_Host Te2_Loader_Correct
begin

unbundle bit_operations_syntax

text \<open>
  The two ends of TE2 speak the same language: the host's \<open>unsigned\<close> arithmetic gives the
  loader's 24-bit checksum, its \<open>printf\<close> formats give the lines the loader parses, and
  cutting an image line into records loses nothing.
\<close>

section \<open>Digits\<close>

lemma hex_digit_hex: "hex_digit c = hex c"
proof -
  have u: "uchar CHR ''0'' = 48" "uchar CHR ''9'' = 57" "uchar CHR ''A'' = 65"
    "uchar CHR ''F'' = 70" "uchar CHR ''a'' = 97" "uchar CHR ''f'' = 102"
    by (simp_all add: uchar_def)
  show ?thesis
    unfolding hex_digit_def hex_def u schar_literals
    using uchar_bounds [of c] by (simp add: schar_def)
qed

lemma hexlen_le: "n < 16 ^ Suc w \<Longrightarrow> hexlen n \<le> Suc w"
proof (induction w arbitrary: n)
  case 0
  then show ?case by (simp add: hexlen.simps [of n])
next
  case (Suc w)
  then have "n div 16 < 16 ^ Suc w"
    by (simp add: less_mult_imp_div_less mult.commute)
  with Suc.IH show ?case by (simp add: hexlen.simps [of n])
qed

lemma fmt_hex_eq [hexes]: "n < 16 ^ w \<Longrightarrow> 0 < w \<Longrightarrow> fmt_hex w n = hexpad w n"
  using hexlen_le [of n "w - 1"] by (simp add: fmt_hex_def max_def)

section \<open>One checksum\<close>

text \<open>The host masks with 16 bits once per byte, the loader once per bit: on the low 16 bits
  they agree.\<close>

lemma crc_step_bit:
  "bit (crc_step c) n \<longleftrightarrow>
     n < 32 \<and> ((0 < n \<and> bit c (n - 1)) \<noteq> (bit c 15 \<and> bit (0x1021 :: u32) n))"
proof -
  have "(0x8000 :: u32) = 2 ^ 15" by simp
  then have "c AND 0x8000 \<noteq> 0 \<longleftrightarrow> bit c 15"
    by (metis and_exp_eq_0_iff_not_bit)
  then have s: "crc_step c = (if bit c 15 then push_bit 1 c XOR 0x1021 else push_bit 1 c)"
    by (simp add: crc_step_def)
  show ?thesis
  proof (cases "bit c 15")
    case True
    show ?thesis
      unfolding s if_P [OF True]
      by (simp only: bit_xor_iff bit_push_bit_iff possible_bit_word True)
        (auto dest: bit_imp_le_length)
  next
    case False
    show ?thesis
      unfolding s if_not_P [OF False]
      by (simp only: bit_push_bit_iff possible_bit_word False) auto
  qed
qed

lemma poly_bit: "n < 16 \<Longrightarrow> bit (0x1021 :: u32) n = bit (0x1021 :: i24) n"
  by (erule nat_less_16_cases) (simp_all only:, code_simp+)

definition low16 :: "u32 \<Rightarrow> i24" where
  "low16 c = take_bit 16 (ucast c)"

lemma low16_bit: "bit (low16 c) n \<longleftrightarrow> n < 16 \<and> bit c n"
  by (auto simp: low16_def bit_simps)

lemma low16_step: "low16 (crc_step c) = crcstep (low16 c)"
  by (rule bit_word_eqI) (auto simp: low16_bit bit_crcstep crc_step_bit poly_bit)

lemma low16_steps: "low16 ((crc_step ^^ n) c) = (crcstep ^^ n) (low16 c)"
  by (induction n) (simp_all add: low16_step)

lemma low16_mask [simp]: "low16 (c AND 0xffff) = low16 c"
  by (rule bit_word_eqI) (auto simp: low16_bit arith24 bit_take_bit_iff)

lemma low16_byte:
  assumes "take_bit 8 (ucast b :: i24) = take_bit 8 b'"
  shows "low16 (crc_byte c b) = crcbyte (low16 c) b'"
proof -
  have "bit b n = bit b' n" if "n < 8" for n
    using arg_cong [OF assms, of "\<lambda>x. bit x n"] that by (simp add: bit_simps)
  then have "low16 (c XOR push_bit 8 (b AND 255)) = low16 c XOR push_bit 8 (b' AND 255)"
    by (intro bit_word_eqI) (auto simp: low16_bit arith24 bit_simps)
  then show ?thesis
    unfolding crc_byte_def crcbyte_def low16_mask low16_steps by simp
qed


lemma low16_data: "low16 (host_crc_data c bs) = crc_data (low16 c) bs"
proof (induction c bs rule: host_crc_data.induct)
  case (2 c b bs)
  have "take_bit 8 (ucast (ucast b :: u32) :: i24) = take_bit 8 (scast b)"
    by (rule bit_word_eqI) (auto simp: arith24 bit_simps dest: bit_imp_le_length)
  from low16_byte [OF this] 2 show ?case by simp
qed simp

lemma byte_of_shift:
  fixes a :: "'a::len word"
  assumes "8 + n \<le> 24" and "24 \<le> LENGTH('a)"
  shows "take_bit 8 (ucast (ucast (drop_bit n a) :: u32) :: i24) =
    take_bit 8 (signed_drop_bit n (ucast a :: i24))"
  using assms by (intro bit_word_eqI) (auto simp: bit_simps)

lemma low16_stream:
  "low16 (update_stream_crc c seq address data) =
     crc_data (crc_header (low16 c) (ucast seq) (ucast address) (of_nat (length data))) data"
proof -
  note low = low16_byte [OF byte_of_shift [of 8 seq]] low16_byte [OF byte_of_shift [of 0 seq]]
    low16_byte [OF byte_of_shift [of 16 address]] low16_byte [OF byte_of_shift [of 8 address]]
    low16_byte [OF byte_of_shift [of 0 address]]
  have cnt: "low16 (crc_byte x (of_nat n)) = crcbyte (low16 x) (of_nat n)" for x n
    by (rule low16_byte) (simp add: unsigned_of_nat take_bit_of_nat)
  show ?thesis
    using low by (simp add: update_stream_crc_def crc_header_def low16_data cnt)
qed

definition u16 :: "u32 \<Rightarrow> bool" where
  "u16 c \<longleftrightarrow> take_bit 16 c = c"

lemma u16_crc_byte [simp]: "u16 (crc_byte c b)"
  by (simp add: u16_def crc_byte_def arith24)

lemma u16_stream: "u16 (update_stream_crc c seq address data)"
proof -
  have "u16 c \<Longrightarrow> u16 (host_crc_data c bs)" for c bs
    by (induction c bs rule: host_crc_data.induct) simp_all
  then show ?thesis by (simp add: update_stream_crc_def)
qed

lemma unat_low16: "u16 c \<Longrightarrow> unat (low16 c) = unat c"
proof -
  assume "u16 c"
  then have c: "unat c = take_bit 16 (unat c)"
    unfolding u16_def using unsigned_take_bit_eq [of 16 c] by metis
  then have "unat (low16 c) = take_bit 16 (take_bit 24 (unat c))"
    by (simp add: low16_def unsigned_take_bit_eq unsigned_ucast_eq)
  then show ?thesis
    using c by simp
qed


section \<open>One language\<close>

lemma narrow24:
  fixes a :: "'a::len word"
  assumes "unat a < 16777216"
  shows "unat (ucast a :: i24) = unat a"
  using assms by (simp add: unsigned_ucast_eq take_bit_nat_eq_self)

lemma host_record_crc_eq:
  "unat (host_record_crc seq a data) =
     unat (record_crc (ucast seq) (ucast a) (of_nat (length data)) data)"
proof -
  have "low16 0xffff = 0xffff"
    by (simp add: low16_def)
  then have "low16 (host_record_crc seq a data) =
      record_crc (ucast seq) (ucast a) (of_nat (length data)) data"
    by (simp add: host_record_crc_def record_crc_def low16_stream)
  moreover have "u16 (host_record_crc seq a data)"
    by (simp add: host_record_crc_def u16_stream)
  ultimately show ?thesis
    using unat_low16 by metis
qed

lemma u16_less: "u16 c \<Longrightarrow> unat c < 65536"
  using crc16_less [of "low16 c"] unat_low16 [of c] by (simp add: low16_def crc16_def)

lemma record_command_data_line:
  assumes "unat seq < 65536" and "unat a < 16777216" and "length data \<le> 255"
  shows "record_command seq a data = data_line (ucast seq) (ucast a) data"
proof -
  have "u16 (host_record_crc seq a data)"
    by (simp add: host_record_crc_def u16_stream)
  then have "unat (record_crc (ucast seq) (ucast a) (of_nat (length data)) data) < 65536"
    unfolding host_record_crc_eq [symmetric] by (rule u16_less)
  moreover have "(\<lambda>b. fmt_hex 2 (unat b)) = (\<lambda>b :: u8. hexpad 2 (unat b))"
    by (rule ext) (simp add: fmt_hex_eq)
  ultimately show ?thesis
    using assms
    by (simp add: record_command_def data_line_def record_text_def bytes_text_def fmt_hex_eq narrow24
        host_record_crc_eq)
qed

section \<open>The records of an image file\<close>

text \<open>
  What a file asks to be written, independently of any transfer: each \<open>L\<close> line is cut into
  records of at most \<open>n\<close> bytes; the entry is the address of the last \<open>G\<close> line.
\<close>

function chunks :: "nat \<Rightarrow> i24 \<Rightarrow> u8 list \<Rightarrow> (i24 \<times> u8 list) list" where
  "chunks n a bs =
     (if bs = [] \<or> n = 0 then [] else (a, take n bs) # chunks n (a + of_nat n) (drop n bs))"
  by pat_completeness auto
termination
  by (relation "measure (\<lambda>(n, a, bs). length bs)") auto

declare chunks.simps [simp del]

definition line_address :: "string \<Rightarrow> u64" where
  "line_address line = fst (hex_number (drop 1 line) 6 True)"

definition line_bytes :: "string \<Rightarrow> u8 list" where
  "line_bytes line = fst (host_bytes (drop 7 line) (length (drop 7 line) div 2) True)"

definition is_record :: "char \<Rightarrow> string \<Rightarrow> bool" where
  "is_record c line \<longleftrightarrow> line \<noteq> [] \<and> hd line = c"

fun file_records :: "nat \<Rightarrow> string list \<Rightarrow> (i24 \<times> u8 list) list" where
  "file_records n [] = []"
| "file_records n (raw # raws) =
     (let line = strip_newline (c_str raw)
      in if is_record (CHR ''L'') line then chunks n (ucast (line_address line)) (line_bytes line)
         else []) @ file_records n raws"

fun file_entry :: "string list \<Rightarrow> u64 option \<Rightarrow> u64 option" where
  "file_entry [] e = e"
| "file_entry (raw # raws) e =
     (let line = strip_newline (c_str raw)
      in file_entry raws (if is_record (CHR ''G'') line then Some (line_address line) else e))"

text \<open>The image as one byte map: every \<open>L\<close> line written at its address.\<close>

fun file_image :: "store \<Rightarrow> string list \<Rightarrow> ram \<Rightarrow> ram" where
  "file_image st [] m = m"
| "file_image st (raw # raws) m =
     (let line = strip_newline (c_str raw)
      in file_image st raws
        (if is_record (CHR ''L'') line
         then store_bytes st (ucast (line_address line)) (line_bytes line) m else m))"

lemma store_bytes_append:
  "store_bytes st a (xs @ ys) m = store_bytes st (a + of_nat (length xs)) ys (store_bytes st a xs m)"
  by (induction xs arbitrary: a m) (simp_all add: add.assoc)

lemma image_of_chunks: "0 < n \<Longrightarrow> image_of st (chunks n a bs) m = store_bytes st a bs m"
proof (induction n a bs arbitrary: m rule: chunks.induct)
  case (1 n a bs)
  show ?case
  proof (cases "bs = []")
    case True
    then show ?thesis by (simp add: chunks.simps [of n a "[]"])
  next
    case False
    have "store_bytes st a bs m = store_bytes st a (take n bs @ drop n bs) m"
      by simp
    also have "\<dots> = store_bytes st (a + of_nat n) (drop n bs) (store_bytes st a (take n bs) m)"
      by (cases "n \<le> length bs") (simp_all add: store_bytes_append del: append_take_drop_id)
    finally show ?thesis
      using False 1 by (simp add: chunks.simps [of n a bs])
  qed
qed

lemma image_of_append: "image_of st (xs @ ys) m = image_of st ys (image_of st xs m)"
  by (induction st xs m rule: image_of.induct) simp_all

lemma image_of_file_records: "0 < n \<Longrightarrow> image_of st (file_records n raws) m = file_image st raws m"
  by (induction raws arbitrary: m) (simp_all add: Let_def image_of_append image_of_chunks)

lemma chunks_bounds: "(a', d) \<in> set (chunks n a bs) \<Longrightarrow> 0 < length d \<and> length d \<le> n"
proof (induction n a bs rule: chunks.induct)
  case (1 n a bs)
  show ?case
  proof (cases "bs = [] \<or> n = 0")
    case True
    with "1.prems" show ?thesis by (auto simp: chunks.simps [of n a bs])
  next
    case False
    then have "chunks n a bs = (a, take n bs) # chunks n (a + of_nat n) (drop n bs)"
      by (simp add: chunks.simps [of n a bs])
    then have "d = take n bs \<or> (a', d) \<in> set (chunks n (a + of_nat n) (drop n bs))"
      using "1.prems" by auto
    with False "1.IH" show ?thesis by auto
  qed
qed


section \<open>The host over a transport\<close>

text \<open>
  What the host needs from the serial line to keep an invariant: \<open>Inv\<close> survives sending an
  allowed text and waiting, and a reply that the host took for the expected one is confirmed.
\<close>

locale host_link =
  fixes t :: "'w transport"
    and Inv :: "'w \<Rightarrow> bool"
    and allowed :: "string \<Rightarrow> bool"
    and Conf :: "string \<Rightarrow> 'w \<Rightarrow> bool"
  assumes newline_allowed: "allowed [CHR 0x0A]"
    and send_inv: "Inv w \<Longrightarrow> allowed x \<Longrightarrow> t_send t x w = (b, w') \<Longrightarrow> Inv w'"
    and wait_inv: "Inv w \<Longrightarrow> t_wait t e w = (b, w') \<Longrightarrow> Inv w'"
    and wait_conf: "Inv w \<Longrightarrow> t_wait t e w = (True, w') \<Longrightarrow> Conf e w'"
begin

definition commands_allowed :: "(i24 \<times> u8 list) list \<Rightarrow> bool" where
  "commands_allowed rs \<longleftrightarrow>
     (\<forall>k < length rs. allowed (data_line (seq_no k) (fst (rs ! k)) (snd (rs ! k))))"

lemma commands_allowed_prefix: "commands_allowed (xs @ ys) \<Longrightarrow> commands_allowed xs"
  unfolding commands_allowed_def by (metis (no_types) add_leD1 length_append
      less_le_trans nth_append order_refl trans_less_add1)

lemma exchange_ok:
  assumes "exchange t c e w = (b, w')" and "Inv w" and "allowed c"
  shows "Inv w'" and "b \<Longrightarrow> Conf e w'"
proof -
  obtain b1 w1 where 1: "t_send t c w = (b1, w1)" by fastforce
  obtain b2 w2 where 2: "t_send t [CHR 0x0A] w1 = (b2, w2)" by fastforce
  have i1: "Inv w1" using send_inv [OF assms(2,3) 1] .
  have i2: "Inv w2" using send_inv [OF i1 newline_allowed 2] .
  show "Inv w'"
    using assms(1) 1 2 i1 i2 wait_inv [OF i2]
    by (auto simp: exchange_def Let_def split: if_splits)
  show "b \<Longrightarrow> Conf e w'"
    using assms(1) 1 2 wait_conf [OF i2]
    by (auto simp: exchange_def Let_def split: if_splits)
qed

lemma attempts_ok:
  "attempts t n c e w = (b, w') \<Longrightarrow> Inv w \<Longrightarrow> allowed c \<Longrightarrow> Inv w' \<and> (b \<longrightarrow> Conf e w')"
proof (induction n arbitrary: w)
  case (Suc n)
  obtain b1 w1 where 1: "exchange t c e w = (b1, w1)" by fastforce
  show ?case
    using Suc.IH [of w1] Suc.prems 1 exchange_ok [OF 1] by (cases b1) auto
qed simp

lemma send_record_ok:
  assumes "send_record t n q a d w = (Inr x, w')" and "Inv w"
    and "allowed (record_command q a d)"
  shows "Inv w'"
  using assms attempts_ok [OF _ assms(2,3)]
  by (auto simp: send_record_def split: prod.splits if_splits)

end

text \<open>Records that fit the loader's buffer and lie below it.\<close>

definition low_records :: "(i24 \<times> u8 list) list \<Rightarrow> bool" where
  "low_records rs \<longleftrightarrow> (\<forall>(a, d) \<in> set rs. length d \<le> 32 \<and> unat a + length d \<le> 0xfc000)"

lemma low_records_simps [simp]:
  "low_records []" "low_records ((a, d) # rs) \<longleftrightarrow>
     length d \<le> 32 \<and> unat a + length d \<le> 0xfc000 \<and> low_records rs"
  "low_records (rs @ rs') \<longleftrightarrow> low_records rs \<and> low_records rs'"
  by (auto simp: low_records_def)

text \<open>The host's counters after the records \<open>rs\<close>.\<close>

definition tracks :: "(i24 \<times> u8 list) list \<Rightarrow> upload \<Rightarrow> bool" where
  "tracks rs u \<longleftrightarrow> unat (up_seq u) = length rs mod 65536 \<and> u16 (up_crc u) \<and>
     low16 (up_crc u) = stream_from 0 0xffff rs"

lemma tracks_seq: "tracks rs u \<Longrightarrow> ucast (up_seq u) = seq_no (length rs)"
proof -
  assume "tracks rs u"
  then have "unat (ucast (up_seq u) :: i24) = length rs mod 65536"
    by (subst narrow24) (simp_all add: tracks_def order_less_trans [of _ 65536])
  then show ?thesis
    by (metis unat_seq_no word_unat_eq_iff)
qed

lemma tracks_snoc:
  assumes "tracks rs u"
  shows "tracks (rs @ [(ucast a, d)]) (u\<lparr>up_seq := (up_seq u + 1) AND 0xffff,
    up_crc := update_stream_crc (up_crc u) (up_seq u) a d\<rparr>)"
proof -
  have "unat ((up_seq u + 1) AND 0xffff) = Suc (length rs) mod 65536"
    using assms
    by (simp add: arith24 unsigned_take_bit_eq unat_word_ariths take_bit_eq_mod tracks_def mod_simps)
  then show ?thesis
    using assms tracks_seq [OF assms]
    by (simp add: tracks_def u16_stream low16_stream stream_from_snoc flip: seq_no_def)
qed

lemma tracks_up_entry [simp]: "tracks rs (u\<lparr>up_entry := e\<rparr>) = tracks rs u"
  by (simp add: tracks_def)

lemma host_bytes_add:
  "host_bytes t (m + n) ok =
     (fst (host_bytes t m ok) @ fst (host_bytes (drop (2 * m) t) n (snd (host_bytes t m ok))),
      snd (host_bytes (drop (2 * m) t) n (snd (host_bytes t m ok))))"
  by (induction m arbitrary: t ok) (simp_all add: Let_def split: prod.splits)

lemma length_host_bytes [simp]: "length (fst (host_bytes t n ok)) = n"
  by (induction n arbitrary: t ok) (simp_all add: Let_def case_prod_beta)

lemma hex_digit_range: "hex_digit c < 16"
  by (simp add: hex_digit_hex hex_range)

lemma hex_number_loop_less:
  "unat v < 16 ^ k \<Longrightarrow> k + d \<le> 15 \<Longrightarrow> unat (fst (hex_number_loop t i d v ok)) < 16 ^ (k + d)"
proof (induction d arbitrary: i v k)
  case (Suc d)
  show ?case
  proof (cases "hex_digit (char_at t i) < 0")
    case True
    then show ?thesis by simp
  next
    case False
    let ?h = "nat (hex_digit (char_at t i))"
    have h: "?h < 16"
      using hex_digit_range [of "char_at t i"] by simp
    have "word_of_int (hex_digit (char_at t i)) = (of_nat ?h :: u64)"
      using False by simp
    then have e: "push_bit 4 v OR word_of_int (hex_digit (char_at t i)) = 16 * v + of_nat ?h"
      using nibble_shift [OF h, of v] by simp
    have "16 ^ Suc k \<le> (16::nat) ^ 15"
      using Suc.prems(2) by (intro power_increasing) simp_all
    moreover have "unat v * 16 + ?h < 16 ^ Suc k"
      using Suc.prems(1) h by simp
    ultimately have "unat (16 * v + of_nat ?h) = unat v * 16 + ?h"
      by (simp add: unat_word_ariths unat_of_nat take_bit_nat_eq_self)
    then have "unat (16 * v + of_nat ?h :: u64) < 16 ^ Suc k"
      using Suc.prems(1) h by simp
    from Suc.IH [OF this, of "Suc i"] Suc.prems(2) False show ?thesis
      unfolding hex_number_loop.simps Let_def e by simp
  qed
qed simp

lemma hex_number_less: "d \<le> 15 \<Longrightarrow> unat (fst (hex_number t d ok)) < 16 ^ d"
  using hex_number_loop_less [of 0 0 d t 0 ok] by (simp add: hex_number_def)


lemma hex_number_ok: "snd (hex_number t d ok) \<Longrightarrow> ok"
proof -
  have "snd (hex_number_loop t i d v ok) \<Longrightarrow> ok" for i v
    by (induction t i d v ok rule: hex_number_loop.induct) (simp_all add: Let_def split: if_splits)
  then show "snd (hex_number t d ok) \<Longrightarrow> ok"
    by (simp add: hex_number_def)
qed

lemma host_bytes_ok: "snd (host_bytes t n ok) \<Longrightarrow> ok"
proof (induction n arbitrary: t ok)
  case (Suc n)
  then show ?case
    using hex_number_ok [of t 2 ok] by (auto simp: Let_def case_prod_beta)
qed simp

text \<open>One turn of the loop over the data digits, as seen from the whole line.\<close>

lemma host_bytes_chunk:
  assumes "even (length rest)" and "count = min (length rest div 2) n"
  shows "host_bytes rest (length rest div 2) True =
    (fst (host_bytes rest count True) @
       fst (host_bytes (drop (2 * count) rest) (length (drop (2 * count) rest) div 2)
         (snd (host_bytes rest count True))),
     snd (host_bytes (drop (2 * count) rest) (length (drop (2 * count) rest) div 2)
       (snd (host_bytes rest count True))))"
proof -
  have "length rest div 2 = count + length (drop (2 * count) rest) div 2"
    using assms by auto
  then show ?thesis
    by (metis host_bytes_add)
qed

lemma chunks_head:
  assumes "length d = min N n" and "length bs = N - length d" and "0 < length d"
  shows "chunks n a (d @ bs) = (a, d) # chunks n (a + of_nat (length d)) bs"
proof -
  have t: "take n (d @ bs) = d" "drop n (d @ bs) = bs" "d @ bs \<noteq> []" "n \<noteq> 0"
    using assms by (cases "n \<le> N"; auto)+
  have "chunks n (a + of_nat n) bs = chunks n (a + of_nat (length d)) bs"
  proof (cases "bs = []")
    case True
    then show ?thesis by (simp add: chunks.simps [of n _ "[]"])
  next
    case False
    with assms show ?thesis by (cases "n \<le> N") simp_all
  qed
  then show ?thesis
    using t by (simp add: chunks.simps [of n a "d @ bs"])
qed

context host_link
begin

lemma send_chunks_ok:
  assumes "send_chunks t r n rest a u w = (Inr u', w')" and "Inv w"
    and "even (length rest)" and "n \<le> 32" and "unat a < 16777216" and "tracks rs u"
    and "commands_allowed (rs @ chunks n (ucast a) (fst (host_bytes rest (length rest div 2) True)))"
  shows "Inv w' \<and> up_entry u' = up_entry u \<and>
    low_records (chunks n (ucast a) (fst (host_bytes rest (length rest div 2) True))) \<and>
    tracks (rs @ chunks n (ucast a) (fst (host_bytes rest (length rest div 2) True))) u'"
  using assms
proof (induction "length rest" arbitrary: rest a u w rs rule: less_induct)
  case less
  show ?case
  proof (cases "rest = []")
    case True
    with less.prems show ?thesis
      by (simp add: send_chunks.simps [of t r n "[]" a u w] chunks.simps [of n _ "[]"])
  next
    case False
    define count where c: "count = min (length rest div 2) n"
    let ?rest = "drop (2 * count) rest"
    obtain d ok where d: "host_bytes rest count True = (d, ok)" by fastforce
    let ?u = "u\<lparr>up_seq := (up_seq u + 1) AND 0xffff,
      up_crc := update_stream_crc (up_crc u) (up_seq u) a d\<rparr>"
    obtain x w1 where b: "\<not> HOST_LOADER_BASE < a + of_nat count" and ok
      and s: "send_record t r (up_seq u) a d w = (Inr x, w1)" and pos: "count \<noteq> 0"
      and rec: "send_chunks t r n ?rest (a + of_nat count) ?u w1 = (Inr u', w')"
      using less.prems(1) False d c
      by (auto simp: send_chunks.simps [of t r n rest a u w] Let_def
          split: if_splits sum.splits prod.splits)
    have len: "length d = count" "count \<le> 32"
      using d c less.prems(4) length_host_bytes [of rest count True] by simp_all
    have add: "unat (a + of_nat count) = unat a + count"
      using less.prems(5) len(2)
      by (simp add: unat_word_ariths unat_of_nat take_bit_nat_eq_self)
    then have base: "unat a + count \<le> 0xfc000"
      using b by (simp add: word_less_nat_alt HOST_LOADER_BASE_def)
    have up: "ucast (a + of_nat count) = (ucast a + of_nat (length d) :: i24)"
      using add base less.prems(5) len narrow24 [of a] narrow24 [of "a + of_nat count"]
      by (intro word_unat_eq_iff [THEN iffD2]) (simp add: unat_add_small)
    define bs where "bs = fst (host_bytes ?rest (length ?rest div 2) True)"
    have all: "fst (host_bytes rest (length rest div 2) True) = d @ bs"
      using host_bytes_chunk [OF less.prems(3) c] d \<open>ok\<close> by (simp add: bs_def)
    have head: "chunks n (ucast a) (d @ bs) =
        (ucast a, d) # chunks n (ucast (a + of_nat count)) bs"
      unfolding up
    proof (rule chunks_head)
      show "length d = min (length rest div 2) n" "0 < length d"
        using c len pos by simp_all
      show "length bs = length rest div 2 - length d"
        using c len by (cases "n \<le> length rest div 2") (auto simp: bs_def)
    qed
    have cmd: "allowed (record_command (up_seq u) a d)"
    proof -
      have "allowed (data_line (seq_no (length rs)) (ucast a) d)"
        using less.prems(7) unfolding all head commands_allowed_def
        by (auto dest: spec [where x = "length rs"])
      moreover have "unat (up_seq u) < 65536"
        using less.prems(6) by (simp add: tracks_def)
      ultimately show ?thesis
        using less.prems(5) len by (simp add: record_command_data_line tracks_seq [OF less.prems(6)])
    qed
    have i1: "Inv w1"
      by (rule send_record_ok [OF s less.prems(2) cmd])
    have "low_records [(ucast a, d)]"
      using base len narrow24 [OF less.prems(5)] by simp
    moreover have "Inv w' \<and> up_entry u' = up_entry ?u \<and>
        low_records (chunks n (ucast (a + of_nat count)) bs) \<and>
        tracks ((rs @ [(ucast a, d)]) @ chunks n (ucast (a + of_nat count)) bs) u'"
      unfolding bs_def
    proof (rule less.hyps [OF _ rec i1 _ less.prems(4)])
      show "length ?rest < length rest"
        using False pos by simp
      show "even (length ?rest)"
        using less.prems(3) by simp
      show "unat (a + of_nat count) < 16777216"
        using add base by simp
      show "tracks (rs @ [(ucast a, d)]) ?u"
        by (rule tracks_snoc) (rule less.prems(6))
      show "commands_allowed ((rs @ [(ucast a, d)]) @ chunks n (ucast (a + of_nat count))
          (fst (host_bytes ?rest (length ?rest div 2) True)))"
        using less.prems(7) unfolding all head bs_def [symmetric] by simp
    qed
    ultimately show ?thesis
      unfolding all head by simp
  qed
qed

end


definition line_records :: "nat \<Rightarrow> string \<Rightarrow> (i24 \<times> u8 list) list" where
  "line_records n raw =
     (let line = strip_newline (c_str raw)
      in if is_record (CHR ''L'') line then chunks n (ucast (line_address line)) (line_bytes line)
         else [])"

lemma file_records_Cons: "file_records n (raw # raws) = line_records n raw @ file_records n raws"
  by (simp add: line_records_def Let_def)

definition line_entry :: "string \<Rightarrow> u64 option \<Rightarrow> u64 option" where
  "line_entry raw e =
     (let line = strip_newline (c_str raw)
      in if is_record (CHR ''G'') line then Some (line_address line) else e)"

lemma file_entry_Cons: "file_entry (raw # raws) e = file_entry raws (line_entry raw e)"
  by (simp add: line_entry_def Let_def)

text \<open>An \<open>image_state\<close> bundles what the host has sent of a file: records and entry.\<close>

definition low_entry :: "u64 option \<Rightarrow> bool" where
  "low_entry e \<longleftrightarrow> (\<forall>a. e = Some a \<longrightarrow> unat a < 0xfc000)"

context host_link
begin

lemma send_line_ok:
  assumes "send_line t r n raw u w = (Inr u', w')" and "Inv w" and "n \<le> 32" and "tracks rs u"
    and "commands_allowed (rs @ line_records n raw)" and "low_entry (up_entry u)"
  shows "Inv w' \<and> up_entry u' = line_entry raw (up_entry u) \<and> low_entry (up_entry u') \<and>
    low_records (line_records n raw) \<and> tracks (rs @ line_records n raw) u'"
proof -
  define line where l: "line = strip_newline (c_str raw)"
  consider (skip) "line = [] \<or> hd line = CHR '';''"
    | (G) "line \<noteq> []" "hd line = CHR ''G''"
    | (L) "line \<noteq> []" "hd line \<noteq> CHR '';''" "hd line \<noteq> CHR ''G''"
    by auto
  then show ?thesis
  proof cases
    case skip
    then have "send_line t r n raw u w = (Inr u, w)"
      by (simp add: send_line_def Let_def flip: l)
    then show ?thesis
      using assms skip
      by (auto simp: line_records_def line_entry_def Let_def is_record_def simp flip: l)
  next
    case G
    obtain e ok where h: "hex_number (drop 1 line) 6 True = (e, ok)" by fastforce
    then have "length line = 7" "ok" "e < HOST_LOADER_BASE" "u' = u\<lparr>up_entry := Some e\<rparr>" "w' = w"
      using assms(1) G by (auto simp: send_line_def Let_def not_le simp flip: l split: if_splits)
    then show ?thesis
      using assms G h
      by (auto simp: line_records_def line_entry_def line_address_def Let_def is_record_def
          low_entry_def word_less_nat_alt HOST_LOADER_BASE_def simp flip: l)
  next
    case L
    obtain a ok where h: "hex_number (drop 1 line) 6 True = (a, ok)" by fastforce
    have a: "unat a < 16777216"
      using hex_number_less [of 6 "drop 1 line" True] h by simp
    have L': "hd line = CHR ''L''" "ok" "even (length (drop 7 line))"
      and s: "send_chunks t r n (drop 7 line) a u w = (Inr u', w')"
      using assms(1) L h by (auto simp: send_line_def Let_def simp flip: l split: if_splits)
    have rec: "line_records n raw = chunks n (ucast a)
        (fst (host_bytes (drop 7 line) (length (drop 7 line) div 2) True))"
      using L L' h
      by (simp add: line_records_def Let_def is_record_def line_address_def line_bytes_def flip: l)
    have "line_entry raw (up_entry u) = up_entry u"
      using L by (simp add: line_entry_def Let_def is_record_def flip: l)
    with send_chunks_ok [OF s assms(2) L'(3) assms(3) a assms(4)] assms(5,6) show ?thesis
      unfolding rec by simp
  qed
qed

lemma send_lines_ok:
  "send_lines t r n raws u w = (Inr u', w') \<Longrightarrow> Inv w \<Longrightarrow> n \<le> 32 \<Longrightarrow> tracks rs u \<Longrightarrow>
    commands_allowed (rs @ file_records n raws) \<Longrightarrow> low_entry (up_entry u) \<Longrightarrow>
    Inv w' \<and> up_entry u' = file_entry raws (up_entry u) \<and> low_entry (up_entry u') \<and>
    low_records (file_records n raws) \<and> tracks (rs @ file_records n raws) u'"
proof (induction raws arbitrary: u w rs)
  case (Cons raw raws)
  obtain u1 w1 where 1: "send_line t r n raw u w = (Inr u1, w1)"
    and 2: "send_lines t r n raws u1 w1 = (Inr u', w')"
    using Cons.prems(1) by (auto split: sum.splits prod.splits)
  have "commands_allowed ((rs @ line_records n raw) @ file_records n raws)"
    using Cons.prems(5) by (simp only: file_records_Cons append_assoc)
  note all = this commands_allowed_prefix [OF this]
  have e: "Inv w1" "up_entry u1 = line_entry raw (up_entry u)" "low_entry (up_entry u1)"
    "tracks (rs @ line_records n raw) u1" "low_records (line_records n raw)"
    using send_line_ok [OF 1 Cons.prems(2-4) all(2) Cons.prems(6)] by blast+
  from Cons.IH [OF 2 e(1) Cons.prems(3) e(4) all(1) e(3)] e(5) show ?case
    unfolding e(2) file_records_Cons file_entry_Cons append_assoc low_records_simps by blast
qed simp

lemma send_verified_image_ok:
  assumes "send_verified_image t r n raws w = (Inr entry, w')" and "Inv w" and "n \<le> 32"
    and "commands_allowed (file_records n raws)"
    and "allowed (end_line (seq_no (length (file_records n raws)))
      (stream_from 0 0xffff (file_records n raws)))"
  shows "Inv w' \<and> file_entry raws None = Some entry \<and> unat entry < 0xfc000 \<and>
    low_records (file_records n raws) \<and>
    Conf (ack_line (CHR ''F'') (seq_no (length (file_records n raws)))) w'"
proof -
  let ?u = "\<lparr>up_seq = 0, up_crc = 0xffff, up_entry = None\<rparr> :: upload"
    and ?rs = "file_records n raws"
  obtain u w1 where 1: "send_lines t r n raws ?u w = (Inr u, w1)" and e: "up_entry u = Some entry"
    and a: "attempts t r (CHR ''E'' # fmt_hex 4 (unat (up_seq u)) @ fmt_hex 4 (unat (up_crc u)))
      (CHR ''F'' # fmt_hex 4 (unat (up_seq u))) w1 = (True, w')"
    using assms(1)
    by (auto simp: send_verified_image_def Let_def split: sum.splits prod.splits option.splits if_splits)
  have "tracks [] ?u"
    by (simp add: tracks_def u16_def low16_def)
  from send_lines_ok [OF 1 assms(2,3) this] assms(4)
  have 2: "Inv w1" "up_entry u = file_entry raws None" "low_entry (up_entry u)" "tracks ?rs u" "low_records ?rs"
    by (simp_all add: low_entry_def)
  have seq: "unat (up_seq u) = unat (seq_no (length ?rs))" "unat (up_seq u) < 65536"
    using 2(4) by (simp_all add: tracks_def unat_seq_no)
  have crc: "unat (up_crc u) = unat (stream_from 0 0xffff ?rs)" "unat (up_crc u) < 65536"
    using 2(4) u16_less unat_low16 [of "up_crc u"] by (auto simp: tracks_def)
  have "allowed (CHR ''E'' # fmt_hex 4 (unat (up_seq u)) @ fmt_hex 4 (unat (up_crc u)))"
    using assms(5) seq crc by (simp add: end_line_def fmt_hex_eq)
  from attempts_ok [OF a 2(1) this] show ?thesis
    using 2 e seq by (simp add: ack_line_def fmt_hex_eq low_entry_def)
qed

lemma upload_and_jump_ok:
  assumes "upload_and_jump t r n raws w = (Inr entry, w')" and "Inv w" and "n \<le> 32"
    and "commands_allowed (file_records n raws)"
    and "allowed (end_line (seq_no (length (file_records n raws)))
      (stream_from 0 0xffff (file_records n raws)))"
    and "\<And>e. file_entry raws None = Some e \<Longrightarrow> allowed (go_line (ucast e))"
  shows "Inv w' \<and> file_entry raws None = Some entry \<and> unat entry < 0xfc000 \<and>
    low_records (file_records n raws) \<and>
    Conf (CHR ''J'' # hexpad 6 (unat entry)) w'"
proof -
  obtain w1 where 1: "send_verified_image t r n raws w = (Inr entry, w1)"
    and x: "exchange t (CHR ''G'' # fmt_hex 6 (unat entry)) (CHR ''J'' # fmt_hex 6 (unat entry)) w1
      = (True, w')"
    using assms(1)
    by (auto simp: upload_and_jump_def Let_def split: sum.splits prod.splits if_splits)
  note 2 = send_verified_image_ok [OF 1 assms(2-5)]
  then have "fmt_hex 6 (unat entry) = hexpad 6 (unat entry)"
    by (simp add: fmt_hex_eq)
  then have "allowed (CHR ''G'' # fmt_hex 6 (unat entry))"
    using 2 assms(6) [of entry] by (simp add: go_line_def narrow24)
  from exchange_ok [OF x _ this] 2 show ?thesis
    by (simp add: fmt_hex_eq)
qed

end


text \<open>What the host checks itself holds whatever the line does.\<close>

lemma any_transport: "host_link t (\<lambda>_. True) (\<lambda>_. True) (\<lambda>_ _. True)"
  by unfold_locales simp_all

lemma any_commands: "host_link.commands_allowed (\<lambda>_. True) rs"
  by (simp add: host_link.commands_allowed_def [OF any_transport])

lemma send_verified_image_checks:
  assumes "send_verified_image t r n raws w = (Inr entry, w')" and "n \<le> 32"
  shows "file_entry raws None = Some entry" and "unat entry < 0xfc000"
    and "low_records (file_records n raws)"
  using host_link.send_verified_image_ok [OF any_transport assms(1) _ assms(2)]
  by (simp_all add: host_link.commands_allowed_def [OF any_transport])

end
