(* ===== verification/Te2_Link.thy ===== *)
theory Te2_Link
  imports Te2_Host_Correct
begin

text \<open>
  Both ends of TE2 joined by a faulty serial line.  The host is \<open>Te2_Host\<close> over the
  transport \<open>serial\<close>, the COR24 is \<open>Te2_Loader\<close> receiving the characters that get through.
  On the way to the loader each character is kept, lost or changed; on the way back each
  reply line arrives in time, arrives late, is lost, or other text is read in its place.
  What happens is fixed by the scripts in the state, over which the theorems quantify.
\<close>

section \<open>The line\<close>

datatype fault = Keep | Lose | Become char
datatype reply_event = Arrive | Drop | Noise string | Timeout

text \<open>
  \<open>got\<close> holds the characters that reached the loader since the last newline, \<open>sending\<close> the
  text the host is transmitting, \<open>rx\<close> the characters waiting in the receiver pipe and
  \<open>pending\<close> the loader's replies still on their way.  The logs record, for the theorems,
  each line the loader received with the text that was sent, and each line of noise.
\<close>

record link =
  dev :: loader_state
  got :: string
  sending :: string
  cts :: "bool list"
  faults :: "fault list"
  pending :: "string list"
  replies :: "reply_event list"
  rx :: "rx_event list"
  received :: "(string \<times> string) list"
  noise :: "string list"

text \<open>The loader answers each line with one line.\<close>

definition reply :: "loader_state \<Rightarrow> loader_state \<Rightarrow> string" where
  "reply s s' = butlast (drop (length (uart_out s)) (uart_out s'))"

definition deliver :: "store \<Rightarrow> char \<Rightarrow> link \<Rightarrow> link" where
  "deliver st c w =
     (if c \<noteq> CHR 0x0A then w\<lparr>got := got w @ [c]\<rparr>
      else let w1 = w\<lparr>got := [], received := received w @ [(sending w, got w)]\<rparr> in
        if jumped (dev w) \<noteq> None then w1
        else let s = loader_recv st (got w) (dev w)
             in w1\<lparr>dev := s, pending := pending w @ [reply (dev w) s]\<rparr>)"

fun transmit :: "store \<Rightarrow> string \<Rightarrow> link \<Rightarrow> link" where
  "transmit st [] w = w"
| "transmit st (c # cs) w =
     transmit st cs (case faults w of
        [] \<Rightarrow> deliver st c w
      | Keep # fs \<Rightarrow> deliver st c (w\<lparr>faults := fs\<rparr>)
      | Lose # fs \<Rightarrow> w\<lparr>faults := fs\<rparr>
      | Become d # fs \<Rightarrow> deliver st d (w\<lparr>faults := fs\<rparr>))"

definition serial_send :: "store \<Rightarrow> string \<Rightarrow> link \<Rightarrow> bool \<times> link" where
  "serial_send st text w =
     (let (ok, sent, answers) = send_flow_text text (cts w);
          w1 = w\<lparr>cts := answers, sending := if text = [CHR 0x0A] then sending w else text\<rparr>
      in (ok, transmit st sent w1))"

text \<open>The replies that arrive during one wait: the lines, the replies still on their way, the
  script left, the noise.  An exhausted script lets everything arrive.\<close>

fun arrive :: "reply_event list \<Rightarrow> string list \<Rightarrow>
    string list \<times> string list \<times> reply_event list \<times> string list" where
  "arrive [] ps = (ps, [], [], [])"
| "arrive (Timeout # es) ps = ([], ps, es, [])"
| "arrive (Noise t # es) ps = (let (ls, ps', es', ns) = arrive es ps in (t # ls, ps', es', t # ns))"
| "arrive (Arrive # es) (p # ps) = (let (ls, ps', es', ns) = arrive es ps in (p # ls, ps', es', ns))"
| "arrive (Drop # es) (p # ps) = arrive es ps"
| "arrive (Arrive # es) [] = arrive es []"
| "arrive (Drop # es) [] = arrive es []"

definition serial_wait :: "string \<Rightarrow> link \<Rightarrow> bool \<times> link" where
  "serial_wait expected w =
     (let (ls, ps, es, ns) = arrive (replies w) (pending w);
          (ok, rest) = wait_line expected (rx w @ map Byte (wire ls) @ [Silence])
      in (ok, w\<lparr>pending := ps, replies := es, noise := noise w @ ns,
                rx := filter (\<lambda>e. e \<noteq> Silence) rest\<rparr>))"

definition serial :: "store \<Rightarrow> link transport" where
  "serial st = \<lparr>t_send = serial_send st, t_wait = serial_wait\<rparr>"

section \<open>What the host reads\<close>

text \<open>A line as \<open>wait_line\<close> compares it: without carriage returns, cut to the buffer, up to
  a NUL.\<close>

definition as_read :: "string \<Rightarrow> string" where
  "as_read t = c_str (take (LINE_CAPACITY - 1) (filter (\<lambda>c. c \<noteq> CHR 0x0D) t))"

lemma read_line_text:
  assumes "CHR 0x0A \<notin> set t"
  shows "read_line acc (map Byte (t @ [CHR 0x0A]) @ es) =
    (Some (acc @ take (LINE_CAPACITY - 1 - length acc) (filter (\<lambda>c. c \<noteq> CHR 0x0D) t)), es)"
  using assms
proof (induction t arbitrary: acc)
  case (Cons c t)
  then have lf: "c \<noteq> CHR 0x0A" "CHR 0x0A \<notin> set t" by auto
  show ?case
  proof (cases "length acc < 255")
    case True
    then have "take (255 - length acc) (c # xs) = c # take (255 - Suc (length acc)) xs" for xs
      by (simp add: take_Cons')
    with True lf Cons.IH [OF lf(2)] show ?thesis
      by (simp add: LINE_CAPACITY_def del: take_Suc_Cons)
  next
    case False
    with lf Cons.IH [OF lf(2)] show ?thesis
      by (simp add: LINE_CAPACITY_def)
  qed
qed simp

lemma wire_Cons [simp]: "wire (t # ts) = t @ CHR 0x0A # wire ts"
  by (simp add: wire_def)

lemma wire_Nil [simp]: "wire [] = []"
  by (simp add: wire_def)

lemma wire_append: "wire (ss @ ts) = wire ss @ wire ts"
  by (simp add: wire_def)

lemma wait_line_wire:
  assumes "\<forall>l \<in> set ls. CHR 0x0A \<notin> set l"
  shows "wait_line e (map Byte (wire ls) @ [Silence]) =
    (case dropWhile (\<lambda>l. as_read l \<noteq> e) ls of
       [] \<Rightarrow> (False, [])
     | l # ls' \<Rightarrow> (True, map Byte (wire ls') @ [Silence]))"
  using assms
proof (induction ls)
  case Nil
  then show ?case by (simp add: wait_line.simps [of e "[Silence]"])
next
  case (Cons l ls)
  have "map Byte (wire (l # ls)) @ [Silence] =
      map Byte (l @ [CHR 0x0A]) @ map Byte (wire ls) @ [Silence]"
    by simp
  then have "read_line [] (map Byte (wire (l # ls)) @ [Silence]) =
      (Some (take (LINE_CAPACITY - 1) (filter (\<lambda>c. c \<noteq> CHR 0x0D) l)),
       map Byte (wire ls) @ [Silence])"
    using Cons.prems read_line_text [of l "[]" "map Byte (wire ls) @ [Silence]"] by simp
  with Cons show ?case
    by (simp add: wait_line.simps [of e "map Byte (wire (l # ls)) @ [Silence]"] as_read_def
        del: wire_Cons)
qed

section \<open>Every line is answered by one line\<close>

definition answers :: "loader_state \<Rightarrow> string \<Rightarrow> loader_state \<Rightarrow> bool" where
  "answers s r s' \<longleftrightarrow> uart_out s' = uart_out s @ r @ [CHR 0x0A]"

lemma reply_answers: "answers s r s' \<Longrightarrow> reply s s' = r"
  by (simp add: answers_def reply_def butlast_append)

lemma answers_say: "uart_out s' = uart_out s \<Longrightarrow> answers s r (say r s')"
  by (simp add: answers_def)


lemma plain_ack_line [simp]: "p \<noteq> CHR 0x0A \<Longrightarrow> p \<noteq> CHR 0x0D \<Longrightarrow> plain (ack_line p q)"
  by (simp add: ack_line_def)

lemma plain_nack_line [simp]: "r \<noteq> CHR 0x0A \<Longrightarrow> r \<noteq> CHR 0x0D \<Longrightarrow> plain (nack_line q r)"
  by (simp add: nack_line_def)

lemma data_fields_reason: "data_fields l len = Inl (q, r) \<Longrightarrow> r \<noteq> CHR 0x0A \<and> r \<noteq> CHR 0x0D"
  by (auto simp: data_fields_def Let_def split: prod.splits if_splits)

lemma data_record_answers: "\<exists>r. plain r \<and> answers s r (data_record st len s)"
proof (cases "data_fields (line_buf s) len")
  case (Inl e)
  obtain q r where e: "e = (q, r)" by fastforce
  show ?thesis
    using Inl data_fields_reason [of "line_buf s" len q r]
    by (auto simp: data_record_def says e answers_def)
next
  case (Inr x)
  then show ?thesis
    by (auto simp: data_record_def commit_record_def says Let_def answers_def split: prod.split)
qed

lemma dispatch_answers: "\<exists>r. plain r \<and> answers s r (dispatch st len s)"
proof -
  have say: "\<exists>r. plain r \<and> answers s r (say t s')" if "plain t" "uart_out s' = uart_out s" for t s'
    using that by (auto simp: answers_def)
  have e: "\<exists>r. plain r \<and> answers s r (end_record len s)"
    by (auto simp: end_record_def says Let_def intro: say split: prod.split)
  have g: "\<exists>r. plain r \<and> answers s r (go_record len s)"
    using go_record_accept [of len s] by (auto simp: answers_def)
  show ?thesis
    unfolding dispatch_def says
    using data_record_answers [of s st len] e g by (auto intro!: say simp: says)
qed

lemma loader_recv_some:
  "\<exists>len l. loader_recv st t s = dispatch st len (s\<lparr>line_buf := l, uart_in := []\<rparr>) \<and>
     length l = length (line_buf s)" if "CHR 0x0A \<notin> set t"
proof -
  obtain k l r where g: "getline_loop (t @ [CHR 0x0A]) 0 (line_buf s) = Some (k, l, r)"
    using getline_loop_some by blast
  then have "r = []"
    using getline_loop_rest [OF that, of "[]" 0 "line_buf s"] by simp
  with g getline_loop_length [OF g] show ?thesis
    by (auto simp: loader_recv_def getline_def)
qed

lemma loader_recv_answers:
  assumes "CHR 0x0A \<notin> set t"
  shows "answers s (reply s (loader_recv st t s)) (loader_recv st t s)"
    and "plain (reply s (loader_recv st t s))"
proof -
  obtain len l where r: "loader_recv st t s = dispatch st len (s\<lparr>line_buf := l, uart_in := []\<rparr>)"
    using loader_recv_some [OF assms, of st s] by blast
  obtain x where "plain x" "answers s x (loader_recv st t s)"
    using dispatch_answers [of "s\<lparr>line_buf := l, uart_in := []\<rparr>" st len]
    by (auto simp: r answers_def)
  then show "answers s (reply s (loader_recv st t s)) (loader_recv st t s)"
    "plain (reply s (loader_recv st t s))"
    by (simp_all add: reply_answers)
qed

section \<open>Damage the loader notices\<close>

text \<open>A line is ignored if, whatever state the loader is in, it changes nothing that matters
  and is not answered by a confirmation.\<close>

definition unchanged :: "loader_state \<Rightarrow> loader_state \<Rightarrow> bool" where
  "unchanged s s' \<longleftrightarrow> memory s' = memory s \<and> expected_seq s' = expected_seq s \<and>
     stream_crc s' = stream_crc s \<and> finalized s' = finalized s \<and> jumped s' = jumped s"

definition confirms :: "char \<Rightarrow> string \<Rightarrow> bool" where
  "confirms c t \<longleftrightarrow> t \<noteq> [] \<and> hd t = c"

definition ignored :: "store \<Rightarrow> string \<Rightarrow> bool" where
  "ignored st t \<longleftrightarrow>
     (\<forall>s. loader_inv s \<longrightarrow> unchanged s (loader_recv st t s) \<and>
        \<not> confirms (CHR ''F'') (reply s (loader_recv st t s)) \<and>
        \<not> confirms (CHR ''J'') (reply s (loader_recv st t s)))"

lemma ignored_say:
  assumes "\<And>s. loader_inv s \<Longrightarrow> \<exists>r l. loader_recv st t s = say r (s\<lparr>line_buf := l, uart_in := []\<rparr>) \<and>
      \<not> confirms (CHR ''F'') r \<and> \<not> confirms (CHR ''J'') r"
  shows "ignored st t"
  unfolding ignored_def
proof (intro allI impI)
  fix s
  assume "loader_inv s"
  from assms [OF this] obtain r l where r: "loader_recv st t s = say r (s\<lparr>line_buf := l, uart_in := []\<rparr>)"
    "\<not> confirms (CHR ''F'') r" "\<not> confirms (CHR ''J'') r"
    by blast
  moreover have "reply s (loader_recv st t s) = r"
    by (rule reply_answers) (simp add: r(1) answers_say)
  ultimately show "unchanged s (loader_recv st t s) \<and>
      \<not> confirms (CHR ''F'') (reply s (loader_recv st t s)) \<and>
      \<not> confirms (CHR ''J'') (reply s (loader_recv st t s))"
    by (simp add: unchanged_def)
qed

lemma nack_confirms [simp]: "confirms c (nack_line q r) = (c = CHR ''N'')"
  by (auto simp: confirms_def nack_line_def)

lemma ack_confirms [simp]: "confirms c (ack_line p q) = (c = p)"
  by (auto simp: confirms_def ack_line_def)

lemma ignored_empty: "ignored st []"
proof (rule ignored_say)
  fix s
  assume "loader_inv s"
  then have "loader_recv st [] s = say (nack_line (expected_seq s) (CHR ''L''))
      (s\<lparr>line_buf := CHR 0x00 # drop 1 (line_buf s), uart_in := []\<rparr>)"
    by (subst loader_recv_plain) (simp_all add: loader_inv_def MAXLINE_def dispatch_def says)
  then show "\<exists>r l. loader_recv st [] s = say r (s\<lparr>line_buf := l, uart_in := []\<rparr>) \<and>
      \<not> confirms (CHR ''F'') r \<and> \<not> confirms (CHR ''J'') r"
    by (intro exI conjI) (assumption, simp_all)
qed

text \<open>A line whose first character is none of the loader's commands.\<close>

lemma ignored_unknown:
  assumes "plain (c # t)" and "length t \<le> 126" and "c \<notin> {CHR ''D'', CHR ''E'', CHR ''G''}"
  shows "ignored st (c # t)"
proof (rule ignored_say)
  fix s
  assume "loader_inv s"
  define l where l: "l = (c # t) @ CHR 0x00 # drop (Suc (length (c # t))) (line_buf s)"
  define r where r: "r = (if c = CHR ''H'' \<and> t = [] then ''TE2 READY 1''
    else nack_line (expected_seq s) (CHR ''?''))"
  have "loader_recv st (c # t) s =
      dispatch st (int (length (c # t))) (s\<lparr>line_buf := l, uart_in := []\<rparr>)"
    unfolding l using assms(1,2) \<open>loader_inv s\<close>
    by (intro loader_recv_plain) (simp_all add: loader_inv_def MAXLINE_def)
  also have "\<dots> = say r (s\<lparr>line_buf := l, uart_in := []\<rparr>)"
    using assms(3) by (auto simp: dispatch_def says r l)
  finally have "loader_recv st (c # t) s = say r (s\<lparr>line_buf := l, uart_in := []\<rparr>)" .
  moreover have "\<not> confirms (CHR ''F'') r" "\<not> confirms (CHR ''J'') r"
    by (simp_all add: r confirms_def nack_line_def)
  ultimately show "\<exists>r l. loader_recv st (c # t) s = say r (s\<lparr>line_buf := l, uart_in := []\<rparr>) \<and>
      \<not> confirms (CHR ''F'') r \<and> \<not> confirms (CHR ''J'') r"
    by blast
qed


text \<open>A record whose checksum is wrong, in particular one whose data was changed within two
  adjacent bytes.\<close>

lemma ignored_bad_crc:
  assumes "unat seq < 65536" and "length data \<le> 32" and "unat crc < 65536"
    and "crc \<noteq> record_crc seq a (of_nat (length data)) data"
  shows "ignored st (record_text seq a data crc)"
proof (rule ignored_say)
  fix s
  assume i: "loader_inv s"
  let ?t = "record_text seq a data crc"
  define l where l: "l = ?t @ CHR 0x00 # drop (Suc (length ?t)) (line_buf s)"
  have "loader_recv st ?t s = dispatch st (int (length ?t)) (s\<lparr>line_buf := l, uart_in := []\<rparr>)"
    unfolding l using assms(2) i
    by (intro loader_recv_plain) (simp_all add: loader_inv_def MAXLINE_def)
  moreover have "data_fields l (17 + 2 * int (length data)) = Inl (seq, CHR ''C'')"
    using data_fields_record_text [OF _ assms(1-3), of l a] assms(4) by (simp add: l)
  moreover have "l ! 0 = CHR ''D''"
    by (simp add: l record_text_def)
  ultimately have "loader_recv st ?t s = say (nack_line seq (CHR ''C'')) (s\<lparr>line_buf := l, uart_in := []\<rparr>)"
    by (simp add: dispatch_def data_record_def says)
  then show "\<exists>r l. loader_recv st ?t s = say r (s\<lparr>line_buf := l, uart_in := []\<rparr>) \<and>
      \<not> confirms (CHR ''F'') r \<and> \<not> confirms (CHR ''J'') r"
    by (intro exI conjI) (assumption, simp_all)
qed


section \<open>The invariant of a transfer\<close>

text \<open>The commands of a transfer: the records \<open>all\<close>, their checksum, and the jump to \<open>e\<close>.\<close>

definition command :: "(i24 \<times> u8 list) list \<Rightarrow> i24 option \<Rightarrow> string \<Rightarrow> bool" where
  "command all e x \<longleftrightarrow>
     (\<exists>k < length all. x = data_line (seq_no k) (fst (all ! k)) (snd (all ! k))) \<or>
     x = end_line (seq_no (length all)) (stream_from 0 0xffff all) \<or>
     (\<exists>a. e = Some a \<and> x = go_line a)"

definition image_fits :: "(i24 \<times> u8 list) list \<Rightarrow> bool" where
  "image_fits all \<longleftrightarrow> length all < 65536 \<and> low_records all"

text \<open>The loader holds a prefix of the records, all of them once it has confirmed the checksum,
  and has jumped only after that.\<close>

definition dev_inv ::
  "store \<Rightarrow> (i24 \<times> u8 list) list \<Rightarrow> ram \<Rightarrow> i24 option \<Rightarrow> loader_state \<Rightarrow> bool" where
  "dev_inv st all m e s \<longleftrightarrow>
     loader_inv s \<and> (\<exists>rs ys. all = rs @ ys \<and> accepted st rs m s \<and> (finalized s \<longrightarrow> ys = [])) \<and>
     (\<forall>a. jumped s = Some a \<longrightarrow> e = Some a \<and> finalized s)"

definition justified :: "loader_state \<Rightarrow> string \<Rightarrow> bool" where
  "justified s t \<longleftrightarrow>
     (confirms (CHR ''F'') t \<longrightarrow> finalized s) \<and> (confirms (CHR ''J'') t \<longrightarrow> jumped s \<noteq> None)"

definition grows :: "loader_state \<Rightarrow> loader_state \<Rightarrow> bool" where
  "grows s s' \<longleftrightarrow> (finalized s \<longrightarrow> finalized s') \<and> (jumped s \<noteq> None \<longrightarrow> jumped s' \<noteq> None)"

definition progress ::
  "store \<Rightarrow> (i24 \<times> u8 list) list \<Rightarrow> ram \<Rightarrow> i24 option \<Rightarrow> loader_state \<Rightarrow> loader_state \<Rightarrow> bool" where
  "progress st all m e s s' \<longleftrightarrow> dev_inv st all m e s' \<and> grows s s' \<and> justified s' (reply s s')"

lemma dev_inv_cong:
  "loader_inv s' \<Longrightarrow> unchanged s s' \<Longrightarrow> dev_inv st all m e s \<Longrightarrow> dev_inv st all m e s'"
  by (simp add: dev_inv_def accepted_def unchanged_def)

lemma progress_ignored:
  assumes "dev_inv st all m e s" and "ignored st t"
  shows "progress st all m e s (loader_recv st t s)"
proof -
  have i: "loader_inv s"
    using assms(1) by (simp add: dev_inv_def)
  with assms(2) have u: "unchanged s (loader_recv st t s)"
    "\<not> confirms (CHR ''F'') (reply s (loader_recv st t s))"
    "\<not> confirms (CHR ''J'') (reply s (loader_recv st t s))"
    by (simp_all add: ignored_def)
  with dev_inv_cong [OF loader_recv_inv [OF i] u(1) assms(1)] show ?thesis
    by (simp add: progress_def grows_def justified_def unchanged_def)
qed

lemma progress_say:
  assumes "dev_inv st all m e s" and "s' = say r (s\<lparr>line_buf := l, uart_in := []\<rparr>)"
    and "loader_inv s'" and "\<not> confirms (CHR ''F'') r" and "\<not> confirms (CHR ''J'') r"
  shows "progress st all m e s s'"
proof -
  have u: "unchanged s s'"
    by (simp add: assms(2) unchanged_def)
  have "reply s s' = r"
    by (rule reply_answers) (simp add: assms(2) answers_say)
  with dev_inv_cong [OF assms(3) u assms(1)] u assms(4,5) show ?thesis
    by (simp add: progress_def grows_def justified_def unchanged_def)
qed

lemma seq_no_inject: "j < 65536 \<Longrightarrow> k < 65536 \<Longrightarrow> seq_no j = seq_no k \<Longrightarrow> j = k"
  by (metis mod_less unat_seq_no)

context ram_memory
begin

lemma progress_data:
  assumes "dev_inv st all m e s" and "image_fits all" and "k < length all"
    and "all ! k = (a, d)"
  shows "progress st all m e s (loader_recv st (data_line (seq_no k) a d) s)"
proof -
  let ?s' = "loader_recv st (data_line (seq_no k) a d) s"
  have i: "loader_inv s" and i': "loader_inv ?s'"
    using assms(1) by (auto simp: dev_inv_def intro: loader_recv_inv)
  obtain rs ys where rs: "all = rs @ ys" "accepted st rs m s" "finalized s \<longrightarrow> ys = []"
    using assms(1) by (auto simp: dev_inv_def)
  have fits: "length d \<le> 32" "unat a + length d \<le> 0xfc000"
    using assms(2-4) nth_mem [OF assms(3)] by (auto simp: image_fits_def low_records_def)
  show ?thesis
  proof (cases "k = length rs")
    case True
    with assms(3,4) rs(1) obtain ys' where ys: "ys = (a, d) # ys'"
      by (cases ys) auto
    note r = recv_next [OF rs(2) i fits, of "seq_no k"]
    have "reply s ?s' = ack_line (CHR ''A'') (seq_no k)"
      using r(2) True by (intro reply_answers) (simp add: answers_def)
    moreover have "\<not> finalized s" and "jumped s = None"
      using rs(3) ys assms(1) by (auto simp: dev_inv_def)
    moreover have "all = (rs @ [(a, d)]) @ ys'"
      using rs(1) ys by simp
    moreover have "dev_inv st all m e ?s'"
      unfolding dev_inv_def
    proof (intro conjI exI)
      show "all = (rs @ [(a, d)]) @ ys'" "accepted st (rs @ [(a, d)]) m ?s'" "loader_inv ?s'"
        using r(1) True i' calculation by simp_all
    qed (use r(3,4) True calculation in auto)
    ultimately show ?thesis
      by (simp add: progress_def grows_def justified_def)
  next
    case False
    have "length rs < 65536" "k < 65536"
      using assms(2,3) rs(1) by (simp_all add: image_fits_def)
    with False have "seq_no k \<noteq> expected_seq s"
      using seq_no_inject [of k "length rs"] rs(2) by (auto simp: accepted_def)
    obtain l where r: "?s' = (let s1 = s\<lparr>line_buf := l, uart_in := []\<rparr> in
       if seq_no k = (expected_seq s - 1) AND 0xffff then ack (CHR ''A'') (seq_no k) s1
       else if seq_no k \<noteq> expected_seq s then nack (seq_no k) (CHR ''S'') s1
       else if sint a < 0 \<or> sint (a + of_nat (length d)) > sint LOADER_BASE
       then nack (seq_no k) (CHR ''R'') s1
       else commit_record st (seq_no k) a (of_nat (length d)) d s1)"
      using recv_data [OF i fits(1) seq_no_less] by blast
    have s': "?s' = say (if seq_no k = (expected_seq s - 1) AND 0xffff
        then ack_line (CHR ''A'') (seq_no k) else nack_line (seq_no k) (CHR ''S''))
        (s\<lparr>line_buf := l, uart_in := []\<rparr>)"
      using \<open>seq_no k \<noteq> expected_seq s\<close> by (simp add: r Let_def says)
    show ?thesis
      using i' by (intro progress_say [OF assms(1) s']) auto
  qed
qed

lemma progress_end:
  assumes "dev_inv st all m e s" and "image_fits all"
  shows "progress st all m e s
    (loader_recv st (end_line (seq_no (length all)) (stream_from 0 0xffff all)) s)"
    (is "progress _ _ _ _ _ ?s'")
proof -
  have i: "loader_inv s" and i': "loader_inv ?s'"
    using assms(1) by (auto simp: dev_inv_def intro: loader_recv_inv)
  obtain rs ys where rs: "all = rs @ ys" "accepted st rs m s" "finalized s \<longrightarrow> ys = []"
    using assms(1) by (auto simp: dev_inv_def)
  have "crc16 (stream_from k c all)" if "crc16 c" for k c
    using that by (induction k c all rule: stream_from.induct) (simp_all add: crc16_data)
  then have c: "crc16 (stream_from 0 0xffff all)"
    by (simp add: crc16_def)
  show ?thesis
  proof (cases "length rs = length all")
    case True
    with rs(1) have all: "all = rs" by simp
    obtain l where s': "?s' = say (ack_line (CHR ''F'') (seq_no (length rs)))
        (s\<lparr>line_buf := l, uart_in := [], finalized := True\<rparr>)"
      using recv_end_accepted [OF rs(2) i] unfolding all by blast
    have "accepted st all m ?s'" "jumped ?s' = jumped s" "finalized ?s'"
      using rs(2) unfolding s' by (simp_all add: all accepted_def)
    moreover have "reply s ?s' = ack_line (CHR ''F'') (seq_no (length rs))"
      by (rule reply_answers) (simp add: s' answers_say)
    ultimately show ?thesis
      using i' assms(1) unfolding progress_def grows_def justified_def dev_inv_def by auto
  next
    case False
    have "length rs < 65536" "length all < 65536"
      using assms(2) rs(1) by (simp_all add: image_fits_def)
    with False have "seq_no (length all) \<noteq> expected_seq s"
      using seq_no_inject [of "length all" "length rs"] rs(2) by (auto simp: accepted_def)
    then obtain l where "?s' = say (nack_line (seq_no (length all)) (CHR ''E''))
        (s\<lparr>line_buf := l, uart_in := []\<rparr>)"
      using recv_end [OF i seq_no_less [of "length all"] c, of st] by (auto simp: Let_def says)
    then show ?thesis
      using i' by (intro progress_say [OF assms(1)]) auto
  qed
qed

lemma progress_go:
  assumes "dev_inv st all m (Some a) s" and "jumped s = None"
  shows "progress st all m (Some a) s (loader_recv st (go_line a) s)" (is "progress _ _ _ _ _ ?s'")
proof -
  have i: "loader_inv s" and i': "loader_inv ?s'"
    using assms(1) by (auto simp: dev_inv_def intro: loader_recv_inv)
  obtain l where s': "?s' = (let s1 = s\<lparr>line_buf := l, uart_in := []\<rparr> in
       if \<not> finalized s \<or> sint a \<ge> sint LOADER_BASE then nack (expected_seq s) (CHR ''G'') s1
       else say (CHR ''J'' # hexpad 6 (unat a)) s1\<lparr>jumped := Some a\<rparr>)"
    using recv_go [OF i] by blast
  show ?thesis
  proof (cases "\<not> finalized s \<or> sint a \<ge> sint LOADER_BASE")
    case True
    then have "?s' = say (nack_line (expected_seq s) (CHR ''G'')) (s\<lparr>line_buf := l, uart_in := []\<rparr>)"
      by (simp add: s' says Let_def)
    then show ?thesis
      using i' by (intro progress_say [OF assms(1)]) auto
  next
    case False
    then have "?s' = say (CHR ''J'' # hexpad 6 (unat a)) (s\<lparr>line_buf := l, uart_in := []\<rparr>)
        \<lparr>jumped := Some a\<rparr>"
      by (simp add: s' Let_def)
    with False assms(1) i' show ?thesis
      by (auto simp: progress_def grows_def justified_def dev_inv_def accepted_def)
  qed
qed

lemma progress_command:
  assumes "dev_inv st all m e s" and "image_fits all" and "command all e t" and "jumped s = None"
  shows "progress st all m e s (loader_recv st t s)"
  using assms progress_data [OF assms(1,2)] progress_end [OF assms(1,2)] progress_go
  unfolding command_def by (metis prod.collapse)

end


section \<open>The faulty line keeps the invariant\<close>

text \<open>What the theorems assume of the faults: a line that was damaged on the way to the loader
  is one it ignores, and noise is not mistaken for a confirmation.\<close>

definition benign :: "string \<Rightarrow> bool" where
  "benign t \<longleftrightarrow> CHR 0x0A \<notin> set t \<and> \<not> confirms (CHR ''F'') (as_read t) \<and>
     \<not> confirms (CHR ''J'') (as_read t)"

definition faults_noticed :: "store \<Rightarrow> link \<Rightarrow> bool" where
  "faults_noticed st w \<longleftrightarrow>
     (\<forall>(s, g) \<in> set (received w). g = s \<or> ignored st g) \<and> (\<forall>t \<in> set (noise w). benign t)"

definition good_line :: "loader_state \<Rightarrow> string \<Rightarrow> bool" where
  "good_line s t \<longleftrightarrow> CHR 0x0A \<notin> set t \<and> justified s (as_read t)"

definition link_inv ::
  "store \<Rightarrow> (i24 \<times> u8 list) list \<Rightarrow> ram \<Rightarrow> i24 option \<Rightarrow> link \<Rightarrow> bool" where
  "link_inv st all m e w \<longleftrightarrow> (faults_noticed st w \<longrightarrow>
     dev_inv st all m e (dev w) \<and> CHR 0x0A \<notin> set (got w) \<and>
     (sending w = [] \<or> command all e (sending w)) \<and>
     (\<forall>p \<in> set (pending w). good_line (dev w) p) \<and>
     (\<exists>ks. rx w = map Byte (wire ks) \<and> (\<forall>k \<in> set ks. good_line (dev w) k)))"

lemma link_inv_cong:
  "link_inv st all m e w \<Longrightarrow> dev w' = dev w \<Longrightarrow> got w' = got w \<Longrightarrow> sending w' = sending w \<Longrightarrow>
     pending w' = pending w \<Longrightarrow> rx w' = rx w \<Longrightarrow> received w' = received w \<Longrightarrow>
     noise w' = noise w \<Longrightarrow> link_inv st all m e w'"
  by (simp add: link_inv_def faults_noticed_def)

lemma good_line_grows: "good_line s t \<Longrightarrow> grows s s' \<Longrightarrow> good_line s' t"
  by (auto simp: good_line_def justified_def grows_def)

lemma confirms_as_read: "plain t \<Longrightarrow> confirms c (as_read t) \<Longrightarrow> confirms c t"
proof -
  assume "plain t" and c: "confirms c (as_read t)"
  then have "filter (\<lambda>c. c \<noteq> CHR 0x0D) t = t"
    by (auto simp: plain_def filter_id_conv)
  with c show ?thesis
    by (cases t) (auto simp: as_read_def c_str_def confirms_def LINE_CAPACITY_def split: if_splits)
qed

lemma good_line_reply: "plain t \<Longrightarrow> justified s t \<Longrightarrow> good_line s t"
  using confirms_as_read [of t] by (auto simp: good_line_def justified_def plain_def)

lemma good_line_benign: "benign t \<Longrightarrow> good_line s t"
  by (simp add: benign_def good_line_def justified_def)

context ram_memory
begin

lemma deliver_inv:
  assumes "link_inv st all m e w" and "image_fits all"
  shows "link_inv st all m e (deliver st c w)"
proof (cases "c = CHR 0x0A")
  case False
  then show ?thesis
    using assms(1) by (auto simp: deliver_def link_inv_def faults_noticed_def)
next
  case nl: True
  show ?thesis
  proof (cases "faults_noticed st (deliver st c w)")
    case False
    then show ?thesis by (simp add: link_inv_def)
  next
    case True
    let ?s' = "loader_recv st (got w) (dev w)"
    have "faults_noticed st w" and g: "got w = sending w \<or> ignored st (got w)"
      using True nl by (auto simp: deliver_def faults_noticed_def Let_def split: if_splits)
    with assms(1) have w: "dev_inv st all m e (dev w)" "CHR 0x0A \<notin> set (got w)"
      "sending w = [] \<or> command all e (sending w)" "\<forall>p \<in> set (pending w). good_line (dev w) p"
      "\<exists>ks. rx w = map Byte (wire ks) \<and> (\<forall>k \<in> set ks. good_line (dev w) k)"
      by (simp_all add: link_inv_def)
    show ?thesis
    proof (cases "jumped (dev w) = None")
      case False
      then show ?thesis
        using w by (simp add: link_inv_def deliver_def nl)
    next
      case j: True
      have p: "progress st all m e (dev w) ?s'"
        using g w(3) progress_ignored [OF w(1), of "got w"] ignored_empty [of st]
          progress_command [OF w(1) assms(2) _ j, of "got w"] by metis
      then have "good_line ?s' (reply (dev w) ?s')"
        using loader_recv_answers(2) [OF w(2), of "dev w" st]
        by (intro good_line_reply) (simp_all add: progress_def)
      with p w j good_line_grows [of "dev w" _ ?s'] show ?thesis
        by (auto simp: link_inv_def deliver_def nl Let_def progress_def)
    qed
  qed
qed

lemma transmit_inv:
  "link_inv st all m e w \<Longrightarrow> image_fits all \<Longrightarrow> link_inv st all m e (transmit st cs w)"
proof (induction cs arbitrary: w)
  case (Cons c cs)
  have i: "link_inv st all m e (w\<lparr>faults := fs\<rparr>)" for fs
    using Cons.prems(1) by (rule link_inv_cong) simp_all
  show ?case
    using Cons.IH Cons.prems deliver_inv i by (auto split: list.split fault.split)
qed simp

lemma serial_send_inv:
  assumes "link_inv st all m e w" and "image_fits all"
    and "x = [CHR 0x0A] \<or> command all e x" and "serial_send st x w = (b, w')"
  shows "link_inv st all m e w'"
proof -
  obtain ok sent answers where f: "send_flow_text x (cts w) = (ok, sent, answers)"
    by (cases "send_flow_text x (cts w)") auto
  have "link_inv st all m e
      (w\<lparr>cts := answers, sending := if x = [CHR 0x0A] then sending w else x\<rparr>)"
    using assms(1,3) by (auto simp: link_inv_def faults_noticed_def)
  from transmit_inv [OF this assms(2)] assms(4) f show ?thesis
    by (auto simp: serial_send_def Let_def)
qed

end

lemma arrive_sets:
  "arrive es ps = (ls, ps', es', ns) \<Longrightarrow>
     set ls \<subseteq> set ps \<union> set ns \<and> set ps' \<subseteq> set ps"
  by (induction es ps arbitrary: ls ps' es' ns rule: arrive.induct)
    (fastforce simp: Let_def split: prod.splits)+

lemma bytes_not_silence [simp]: "filter (\<lambda>e. e \<noteq> Silence) (map Byte t) = map Byte t"
  by (induction t) simp_all

lemma wait_line_pipe:
  assumes "\<forall>l \<in> set ls. CHR 0x0A \<notin> set l" and "wait_line x (map Byte (wire ls) @ [Silence]) = (ok, rest)"
  shows "\<exists>ks. filter (\<lambda>e. e \<noteq> Silence) rest = map Byte (wire ks) \<and> set ks \<subseteq> set ls"
    and "ok \<longleftrightarrow> x \<in> as_read ` set ls"
proof -
  let ?d = "dropWhile (\<lambda>l. as_read l \<noteq> x) ls"
  have w: "(case ?d of [] \<Rightarrow> (False, [])
      | l # ls' \<Rightarrow> (True, map Byte (wire ls') @ [Silence])) = (ok, rest)"
    using wait_line_wire [OF assms(1), of x] assms(2) by simp
  have "set ?d \<subseteq> set ls"
    by (rule subsetI) (rule set_dropWhileD)
  with w show "\<exists>ks. filter (\<lambda>e. e \<noteq> Silence) rest = map Byte (wire ks) \<and> set ks \<subseteq> set ls"
    by (cases ?d) (auto intro: exI [of _ "[]"])
  have "(?d = []) = (x \<notin> as_read ` set ls)"
    unfolding dropWhile_eq_Nil_conv by auto
  moreover have "ok = (?d \<noteq> [])"
    using w by (cases ?d) simp_all
  ultimately show "ok \<longleftrightarrow> x \<in> as_read ` set ls"
    by blast
qed

lemma serial_wait_inv:
  assumes "link_inv st all m e w" and "serial_wait x w = (b, w')"
  shows "link_inv st all m e w'"
    and "b \<Longrightarrow> faults_noticed st w' \<Longrightarrow> justified (dev w') x"
proof -
  obtain ls ps es ns where a: "arrive (replies w) (pending w) = (ls, ps, es, ns)"
    by (metis prod_cases4)
  obtain ok rest where r: "wait_line x (rx w @ map Byte (wire ls) @ [Silence]) = (ok, rest)"
    by fastforce
  have w': "w' = w\<lparr>pending := ps, replies := es, noise := noise w @ ns,
      rx := filter (\<lambda>e. e \<noteq> Silence) rest\<rparr>" "b = ok"
    using assms(2) a r by (simp_all add: serial_wait_def)
  have main: "(\<exists>ks. filter (\<lambda>e. e \<noteq> Silence) rest = map Byte (wire ks) \<and>
      (\<forall>k \<in> set ks. good_line (dev w) k)) \<and> (ok \<longrightarrow> justified (dev w) x) \<and>
      (\<forall>p \<in> set ps. good_line (dev w) p)"
    and old: "faults_noticed st w" if "faults_noticed st w'"
  proof -
    show old: "faults_noticed st w"
      using that by (simp add: faults_noticed_def w')
    have "\<forall>t \<in> set ns. good_line (dev w) t"
      using that good_line_benign by (simp add: faults_noticed_def w')
    moreover obtain ks where ks: "rx w = map Byte (wire ks)" "\<forall>k \<in> set ks. good_line (dev w) k"
      and "\<forall>p \<in> set (pending w). good_line (dev w) p"
      using assms(1) old by (auto simp: link_inv_def)
    moreover note arrive_sets [OF a]
    ultimately have good: "\<forall>l \<in> set (ks @ ls). good_line (dev w) l"
      and ps: "\<forall>p \<in> set ps. good_line (dev w) p"
      by auto
    have nl: "\<forall>l \<in> set (ks @ ls). CHR 0x0A \<notin> set l"
      using good by (simp add: good_line_def)
    have "wait_line x (map Byte (wire (ks @ ls)) @ [Silence]) = (ok, rest)"
      using r ks(1) by (simp add: wire_append)
    note p = wait_line_pipe [OF nl this]
    have "ok \<longrightarrow> justified (dev w) x"
      using p(2) good by (auto simp: good_line_def)
    with p(1) good ps show "(\<exists>ks. filter (\<lambda>e. e \<noteq> Silence) rest = map Byte (wire ks) \<and>
      (\<forall>k \<in> set ks. good_line (dev w) k)) \<and> (ok \<longrightarrow> justified (dev w) x) \<and>
      (\<forall>p \<in> set ps. good_line (dev w) p)"
      by blast
  qed
  show "link_inv st all m e w'"
    using main old assms(1) by (auto simp: link_inv_def w')
  show "b \<Longrightarrow> faults_noticed st w' \<Longrightarrow> justified (dev w') x"
    using main by (auto simp: w')
qed

end
