(* ===== verification/Te2_Transfer.thy ===== *)
theory Te2_Transfer
  imports Te2_Link
begin

unbundle bit_operations_syntax

text \<open>
  What an upload with TE2 achieves, over a line with faults and over a perfect one.  The
  first part discharges the host's contract \<open>host_link\<close> for the line of \<open>Te2_Link\<close>, so the
  host's success can be read off the loader's memory; the second part shows that on a
  perfect line every well-formed image is loaded and entered.
\<close>

section \<open>The faulty line meets the host's contract\<close>

definition confirmed :: "store \<Rightarrow> (i24 \<times> u8 list) list \<Rightarrow> ram \<Rightarrow> i24 option \<Rightarrow> string \<Rightarrow> link \<Rightarrow> bool" where
  "confirmed st all m e x w \<longleftrightarrow> (image_fits all \<longrightarrow> faults_noticed st w \<longrightarrow>
     dev_inv st all m e (dev w) \<and> justified (dev w) x)"

definition transfer_inv :: "store \<Rightarrow> (i24 \<times> u8 list) list \<Rightarrow> ram \<Rightarrow> i24 option \<Rightarrow> link \<Rightarrow> bool" where
  "transfer_inv st all m e w \<longleftrightarrow> (image_fits all \<longrightarrow> link_inv st all m e w)"

definition sendable :: "(i24 \<times> u8 list) list \<Rightarrow> i24 option \<Rightarrow> string \<Rightarrow> bool" where
  "sendable all e x \<longleftrightarrow> x = [CHR 0x0A] \<or> command all e x"

lemma serial_contract:
  assumes "ram_memory st"
  shows "host_link (serial st) (transfer_inv st all m e) (sendable all e) (confirmed st all m e)"
proof
  show "sendable all e [CHR 0x0A]"
    by (simp add: sendable_def)
next
  fix w x b w'
  assume "transfer_inv st all m e w" "sendable all e x" "t_send (serial st) x w = (b, w')"
  then show "transfer_inv st all m e w'"
    using ram_memory.serial_send_inv [OF assms, of all m e w x b w']
    by (simp add: transfer_inv_def sendable_def serial_def)
next
  fix w x b w'
  assume "transfer_inv st all m e w" "t_wait (serial st) x w = (b, w')"
  then show "transfer_inv st all m e w'"
    using serial_wait_inv(1) [of st all m e w x b w'] by (simp add: transfer_inv_def serial_def)
next
  fix w x w'
  assume "transfer_inv st all m e w" "t_wait (serial st) x w = (True, w')"
  then show "confirmed st all m e x w'"
    using serial_wait_inv [of st all m e w x True w']
    by (simp add: transfer_inv_def confirmed_def serial_def link_inv_def)
qed

interpretation line: host_link "serial ideal_store" "transfer_inv ideal_store all m e"
  "sendable all e" "confirmed ideal_store all m e" for all m e
  by (rule serial_contract) (rule ideal.ram_memory_axioms)

text \<open>A transfer starts with a loader that has just printed its greeting and an idle line; the
  scripts are arbitrary.\<close>

definition fresh :: "store \<Rightarrow> ram \<Rightarrow> link \<Rightarrow> bool" where
  "fresh st m w \<longleftrightarrow> loader_inv (dev w) \<and> accepted st [] m (dev w) \<and> \<not> finalized (dev w) \<and>
     jumped (dev w) = None \<and> got w = [] \<and> sending w = [] \<and> pending w = [] \<and> rx w = []"

lemma fresh_inv: "fresh st m w \<Longrightarrow> transfer_inv st all m e w"
  by (auto simp: fresh_def transfer_inv_def link_inv_def dev_inv_def intro: exI [of _ "[]"])

definition file_fits :: "nat \<Rightarrow> string list \<Rightarrow> bool" where
  "file_fits n raws \<longleftrightarrow> length (file_records n raws) < 65536"

lemma commands_sendable:
  "host_link t I (sendable all e) C \<Longrightarrow> host_link.commands_allowed (sendable all e) all"
  by (auto simp: host_link.commands_allowed_def sendable_def command_def)

lemma end_sendable: "sendable all e (end_line (seq_no (length all)) (stream_from 0 0xffff all))"
  by (simp add: sendable_def command_def)

lemma upload_sound:
  assumes "ram_memory st" and "fresh st m w" and "0 < n" and "n \<le> 32" and "file_fits n raws"
    and "send_verified_image (serial st) r n raws w = (Inr entry, w')"
    and "faults_noticed st w'"
  shows "memory (dev w') = file_image st raws m \<and> finalized (dev w')"
proof -
  let ?all = "file_records n raws"
  note c = serial_contract [OF assms(1), of ?all m None]
  note h = host_link.send_verified_image_ok [OF c assms(6) fresh_inv [OF assms(2)] assms(4)
    commands_sendable [OF c] end_sendable]
  then have "image_fits ?all"
    using assms(5) by (simp add: image_fits_def file_fits_def)
  with h assms(7) have "dev_inv st ?all m None (dev w')" "finalized (dev w')"
    by (simp_all add: confirmed_def justified_def)
  then have "accepted st ?all m (dev w')"
    by (auto simp: dev_inv_def)
  with \<open>finalized (dev w')\<close> show ?thesis
    by (simp add: accepted_def image_of_file_records [OF assms(3)])
qed

lemma jump_sound:
  assumes "ram_memory st" and "fresh st m w" and "0 < n" and "n \<le> 32" and "file_fits n raws"
    and "upload_and_jump (serial st) r n raws w = (Inr entry, w')"
    and "faults_noticed st w'"
  shows "jumped (dev w') = Some (ucast entry) \<and> memory (dev w') = file_image st raws m \<and>
    file_entry raws None = Some entry"
proof -
  let ?all = "file_records n raws"
  let ?e = "map_option ucast (file_entry raws None)"
  note c = serial_contract [OF assms(1), of ?all m ?e]
  have "sendable ?all ?e (go_line (ucast a))" if "file_entry raws None = Some a" for a
    using that by (simp add: sendable_def command_def)
  note h = host_link.upload_and_jump_ok [OF c assms(6) fresh_inv [OF assms(2)] assms(4)
    commands_sendable [OF c] end_sendable this]
  then have f: "image_fits ?all"
    using assms(5) by (simp add: image_fits_def file_fits_def)
  have "confirmed st ?all m ?e (CHR ''J'' # hexpad 6 (unat entry)) w'"
    using h by blast
  with f assms(7) have d: "dev_inv st ?all m ?e (dev w')" "jumped (dev w') \<noteq> None"
    by (simp_all add: confirmed_def justified_def confirms_def)
  then obtain a where a: "jumped (dev w') = Some a" by auto
  with d have "?e = Some a" "accepted st ?all m (dev w')"
    by (auto simp: dev_inv_def)
  with a h show ?thesis
    by (simp add: accepted_def image_of_file_records [OF assms(3)])
qed


section \<open>A perfect line loads every well-formed image\<close>

text \<open>What a line of a well-formed file looks like.\<close>

definition raw_ok :: "string \<Rightarrow> bool" where
  "raw_ok raw \<longleftrightarrow>
     (let l = strip_newline (c_str raw)
      in l = [] \<or> hd l = CHR '';'' \<or>
         hd l = CHR ''G'' \<and> length l = 7 \<and> snd (hex_number (drop 1 l) 6 True) \<and>
           line_address l < HOST_LOADER_BASE \<or>
         hd l = CHR ''L'' \<and> 9 \<le> length l \<and> snd (hex_number (drop 1 l) 6 True) \<and>
           even (length (drop 7 l)) \<and> snd (host_bytes (drop 7 l) (length (drop 7 l) div 2) True) \<and>
           unat (line_address l) + length (drop 7 l) div 2 \<le> 0xfc000)"

text \<open>\<open>At rs\<close>: the loader holds exactly the records \<open>rs\<close> and the line is idle; \<open>Fin rs\<close>: it has
  confirmed their checksum; \<open>Gone rs a\<close>: it has jumped to \<open>a\<close>.\<close>

locale perfect_link =
  fixes t :: "'w transport"
    and At Fin :: "(i24 \<times> u8 list) list \<Rightarrow> 'w \<Rightarrow> bool"
    and Gone :: "(i24 \<times> u8 list) list \<Rightarrow> i24 \<Rightarrow> 'w \<Rightarrow> bool"
  assumes record_exchange: "At rs w \<Longrightarrow> low_records [(a, d)] \<Longrightarrow>
      \<exists>w'. exchange t (data_line (seq_no (length rs)) a d)
        (ack_line (CHR ''A'') (seq_no (length rs))) w = (True, w') \<and> At (rs @ [(a, d)]) w'"
    and end_exchange: "At rs w \<Longrightarrow>
      \<exists>w'. exchange t (end_line (seq_no (length rs)) (stream_from 0 0xffff rs))
        (ack_line (CHR ''F'') (seq_no (length rs))) w = (True, w') \<and> Fin rs w'"
    and go_exchange: "Fin rs w \<Longrightarrow> unat a < 0xfc000 \<Longrightarrow>
      \<exists>w'. exchange t (go_line a) (CHR ''J'' # hexpad 6 (unat a)) w = (True, w') \<and> Gone rs a w'"
begin

lemma send_record_live:
  assumes "At rs w" and "tracks rs u" and "unat a < 16777216" and "length d \<le> 32"
    and "unat a + length d \<le> 0xfc000" and "0 < r"
  shows "\<exists>w'. send_record t r (up_seq u) a d w = (Inr (), w') \<and> At (rs @ [(ucast a, d)]) w'"
proof -
  have q: "unat (up_seq u) < 65536" "unat (up_seq u) = unat (seq_no (length rs))"
    using assms(2) by (simp_all add: tracks_def unat_seq_no)
  have "record_command (up_seq u) a d = data_line (seq_no (length rs)) (ucast a) d"
    using q assms by (simp add: record_command_data_line tracks_seq [OF assms(2)])
  moreover have "CHR ''A'' # fmt_hex 4 (unat (up_seq u)) = ack_line (CHR ''A'') (seq_no (length rs))"
    using q by (simp add: ack_line_def fmt_hex_eq)
  moreover obtain w' where "exchange t (data_line (seq_no (length rs)) (ucast a) d)
      (ack_line (CHR ''A'') (seq_no (length rs))) w = (True, w')" "At (rs @ [(ucast a, d)]) w'"
    using record_exchange [OF assms(1), of "ucast a" d] assms narrow24 [OF assms(3)] by auto
  ultimately show ?thesis
    using assms(6) by (cases r) (simp_all add: send_record_def)
qed

lemma send_chunks_live:
  assumes "At rs w" and "tracks rs u" and "0 < r" and "0 < n" and "n \<le> 32"
    and "even (length rest)" and "snd (host_bytes rest (length rest div 2) True)"
    and "unat a + length rest div 2 \<le> 0xfc000"
  shows "\<exists>u' w'. send_chunks t r n rest a u w = (Inr u', w') \<and>
    At (rs @ chunks n (ucast a) (fst (host_bytes rest (length rest div 2) True))) w'"
  using assms
proof (induction "length rest" arbitrary: rest a u w rs rule: less_induct)
  case less
  show ?case
  proof (cases "rest = []")
    case True
    with less.prems show ?thesis
      by (simp add: send_chunks.simps [of t r n "[]" a u w] chunks.simps [of n _ "[]"])
  next
    case False
    define count where c: "count = min (length rest div 2) n"
    let ?rest = "drop (2 * count) rest"
    obtain d ok where d: "host_bytes rest count True = (d, ok)" by fastforce
    let ?u = "u\<lparr>up_seq := (up_seq u + 1) AND 0xffff,
      up_crc := update_stream_crc (up_crc u) (up_seq u) a d\<rparr>"
    note chunk = host_bytes_chunk [OF less.prems(6) c]
    have ok: ok
      using chunk less.prems(7) d host_bytes_ok [of ?rest "length ?rest div 2" ok] by simp
    have "0 < length rest"
      using False by simp
    then have "0 < length rest div 2"
      using less.prems(6) by presburger
    then have pos: "0 < count" and half: "length rest div 2 = count + length ?rest div 2"
      using less.prems(4,6) c by (auto elim!: evenE)
    have len: "length d = count" "count \<le> 32"
      using d c less.prems(5) length_host_bytes [of rest count True] by simp_all
    have add: "unat (a + of_nat count) = unat a + count"
      using less.prems(8) half
      by (simp add: unat_word_ariths unat_of_nat take_bit_nat_eq_self)
    then have base: "\<not> HOST_LOADER_BASE < a + of_nat count"
      using less.prems(8) half by (simp add: word_less_nat_alt HOST_LOADER_BASE_def)
    have low: "unat a < 16777216"
      using less.prems(8) by simp
    have up: "ucast (a + of_nat count) = (ucast a + of_nat (length d) :: i24)"
      using add less.prems(8) half len narrow24 [of a] narrow24 [of "a + of_nat count"]
      by (intro word_unat_eq_iff [THEN iffD2]) (simp add: unat_add_small)
    define bs where "bs = fst (host_bytes ?rest (length ?rest div 2) True)"
    have all: "fst (host_bytes rest (length rest div 2) True) = d @ bs"
      using chunk d ok by (simp add: bs_def)
    have head: "chunks n (ucast a) (d @ bs) =
        (ucast a, d) # chunks n (ucast (a + of_nat count)) bs"
      unfolding up
    proof (rule chunks_head)
      show "length d = min (length rest div 2) n" "0 < length d"
        using c len pos by simp_all
      show "length bs = length rest div 2 - length d"
        using half len by (simp add: bs_def)
    qed
    obtain w1 where s: "send_record t r (up_seq u) a d w = (Inr (), w1)"
      and at: "At (rs @ [(ucast a, d)]) w1"
      using send_record_live [OF less.prems(1,2) low _ _ less.prems(3), of d] len less.prems(8) half
      by auto
    have "\<exists>u' w'. send_chunks t r n ?rest (a + of_nat count) ?u w1 = (Inr u', w') \<and>
        At ((rs @ [(ucast a, d)]) @ chunks n (ucast (a + of_nat count)) bs) w'"
      unfolding bs_def
    proof (rule less.hyps [OF _ at _ less.prems(3-5)])
      show "length ?rest < length rest" "even (length ?rest)"
        using False pos less.prems(6) by simp_all
      show "tracks (rs @ [(ucast a, d)]) ?u"
        by (rule tracks_snoc) (rule less.prems(2))
      show "snd (host_bytes ?rest (length ?rest div 2) True)"
        using chunk less.prems(7) d ok by simp
      show "unat (a + of_nat count) + length ?rest div 2 \<le> 0xfc000"
        using add half less.prems(8) by simp
    qed
    then show ?thesis
      using False pos ok base s d
      unfolding all head send_chunks.simps [of t r n rest a u w] c [symmetric] by simp
  qed
qed


lemma send_lines_live:
  assumes "At rs w" and "tracks rs u" and "0 < r" and "0 < n" and "n \<le> 32"
    and "list_all raw_ok raws" and "low_entry (up_entry u)"
  shows "\<exists>u' w'. send_lines t r n raws u w = (Inr u', w') \<and> At (rs @ file_records n raws) w'"
  using assms
proof (induction raws arbitrary: u w rs)
  case (Cons raw raws)
  define l where l: "l = strip_newline (c_str raw)"
  have "\<exists>u' w'. send_line t r n raw u w = (Inr u', w') \<and> At (rs @ line_records n raw) w'"
  proof (cases "is_record (CHR ''L'') l")
    case True
    then have ok: "9 \<le> length l" "snd (hex_number (drop 1 l) 6 True)" "even (length (drop 7 l))"
      "snd (host_bytes (drop 7 l) (length (drop 7 l) div 2) True)"
      "unat (line_address l) + length (drop 7 l) div 2 \<le> 0xfc000"
      using Cons.prems(6) by (auto simp: raw_ok_def Let_def is_record_def simp flip: l)
    have rec: "line_records n raw = chunks n (ucast (line_address l))
        (fst (host_bytes (drop 7 l) (length (drop 7 l) div 2) True))"
      using True by (simp add: line_records_def Let_def line_bytes_def flip: l)
    have "send_line t r n raw u w = send_chunks t r n (drop 7 l) (line_address l) u w"
      using True ok
      by (auto simp: send_line_def Let_def is_record_def line_address_def case_prod_beta simp flip: l)
    with send_chunks_live [OF Cons.prems(1-5) ok(3-5)] show ?thesis
      unfolding rec by simp
  next
    case False
    then have "\<exists>u'. send_line t r n raw u w = (Inr u', w)"
      using Cons.prems(6)
      by (auto simp: raw_ok_def send_line_def Let_def is_record_def line_address_def not_le
          case_prod_beta simp flip: l)
    then show ?thesis
      using False Cons.prems(1) by (auto simp: line_records_def Let_def simp flip: l)
  qed
  then obtain u1 w1 where 1: "send_line t r n raw u w = (Inr u1, w1)"
    and at: "At (rs @ line_records n raw) w1" by blast
  have "tracks (rs @ line_records n raw) u1" "low_entry (up_entry u1)"
    using host_link.send_line_ok [OF any_transport 1 TrueI Cons.prems(5,2) any_commands Cons.prems(7)]
    by blast+
  from Cons.IH [OF at this(1) Cons.prems(3-5) _ this(2)] Cons.prems(6) 1 show ?case
    by (simp add: file_records_Cons del: file_records.simps)
qed simp

lemma send_verified_image_live:
  assumes "At [] w" and "0 < r" and "0 < n" and "n \<le> 32" and "list_all raw_ok raws"
    and "file_entry raws None = Some entry"
  shows "\<exists>w'. send_verified_image t r n raws w = (Inr entry, w') \<and> Fin (file_records n raws) w'"
proof -
  let ?u = "\<lparr>up_seq = 0, up_crc = 0xffff, up_entry = None\<rparr> :: upload"
    and ?rs = "file_records n raws"
  have u: "tracks [] ?u" "low_entry (up_entry ?u)"
    by (simp_all add: tracks_def u16_def low16_def low_entry_def)
  obtain u' w1 where 1: "send_lines t r n raws ?u w = (Inr u', w1)" and at: "At ?rs w1"
    using send_lines_live [OF assms(1) u(1) assms(2-5) u(2)] by auto
  have e: "up_entry u' = Some entry" and tr: "tracks ?rs u'"
    using host_link.send_lines_ok [OF any_transport 1 _ assms(4) u(1) _ u(2)] assms(6)
    by (simp_all add: host_link.commands_allowed_def [OF any_transport])
  have seq: "unat (up_seq u') = unat (seq_no (length ?rs))" "unat (up_seq u') < 65536"
    using tr by (simp_all add: tracks_def unat_seq_no)
  have crc: "unat (up_crc u') = unat (stream_from 0 0xffff ?rs)" "unat (up_crc u') < 65536"
    using tr u16_less unat_low16 [of "up_crc u'"] by (auto simp: tracks_def)
  have cmd: "CHR ''E'' # fmt_hex 4 (unat (up_seq u')) @ fmt_hex 4 (unat (up_crc u')) =
      end_line (seq_no (length ?rs)) (stream_from 0 0xffff ?rs)"
    "CHR ''F'' # fmt_hex 4 (unat (up_seq u')) = ack_line (CHR ''F'') (seq_no (length ?rs))"
    using seq crc by (simp_all add: end_line_def ack_line_def fmt_hex_eq)
  obtain w' where "exchange t (end_line (seq_no (length ?rs)) (stream_from 0 0xffff ?rs))
      (ack_line (CHR ''F'') (seq_no (length ?rs))) w1 = (True, w')" "Fin ?rs w'"
    using end_exchange [OF at] by blast
  then have "attempts t r (end_line (seq_no (length ?rs)) (stream_from 0 0xffff ?rs))
      (ack_line (CHR ''F'') (seq_no (length ?rs))) w1 = (True, w')"
    using assms(2) by (cases r) simp_all
  then show ?thesis
    using 1 e \<open>Fin ?rs w'\<close> by (simp add: send_verified_image_def Let_def cmd)
qed

lemma upload_and_jump_live:
  assumes "At [] w" and "0 < r" and "0 < n" and "n \<le> 32" and "list_all raw_ok raws"
    and "file_entry raws None = Some entry"
  shows "\<exists>w'. upload_and_jump t r n raws w = (Inr entry, w') \<and>
    Gone (file_records n raws) (ucast entry) w'"
proof -
  obtain w1 where 1: "send_verified_image t r n raws w = (Inr entry, w1)"
    and fin: "Fin (file_records n raws) w1"
    using send_verified_image_live [OF assms] by blast
  have e: "unat entry < 0xfc000"
    by (rule send_verified_image_checks(2) [OF 1 assms(4)])
  then have a: "unat (ucast entry :: i24) = unat entry"
    by (intro narrow24) simp
  from go_exchange [OF fin, of "ucast entry"] e a show ?thesis
    using 1 by (auto simp: upload_and_jump_def go_line_def fmt_hex_eq)
qed

end


text \<open>The line without faults: its scripts are exhausted and nothing is on the way.\<close>

definition quiet :: "link \<Rightarrow> bool" where
  "quiet w \<longleftrightarrow> got w = [] \<and> cts w = [] \<and> faults w = [] \<and> replies w = [] \<and> pending w = [] \<and>
     rx w = [] \<and> noise w = [] \<and> (\<forall>(s, g) \<in> set (received w). g = s)"

lemma send_flow_text_ready [simp]: "send_flow_text t [] = (True, t, [])"
  by (cases t) simp_all

lemma transmit_text:
  "faults w = [] \<Longrightarrow> CHR 0x0A \<notin> set t \<Longrightarrow> transmit st t w = w\<lparr>got := got w @ t\<rparr>"
  by (induction t arbitrary: w) (auto simp: deliver_def)

lemma as_read_plain:
  assumes "plain t" and "CHR 0x00 \<notin> set t" and "length t \<le> 255"
  shows "as_read t = t"
proof -
  have "filter (\<lambda>c. c \<noteq> CHR 0x0D) t = t" "takeWhile (\<lambda>c. c \<noteq> CHR 0x00) t = t"
    using assms by (auto simp: plain_def filter_id_conv takeWhile_eq_all_conv)
  then show ?thesis
    using assms(3) by (simp add: as_read_def c_str_def LINE_CAPACITY_def)
qed

lemma exchange_quiet:
  assumes "quiet w" and "plain c" and "length c > 1" and "jumped (dev w) = None"
    and "answers (dev w) e (loader_recv st c (dev w))" and "plain e" and "CHR 0x00 \<notin> set e"
    and "length e \<le> 255"
  shows "\<exists>w'. exchange (serial st) c e w = (True, w') \<and> quiet w' \<and>
    dev w' = loader_recv st c (dev w)"
proof -
  note q = assms(1) [unfolded quiet_def]
  have c: "c \<noteq> [CHR 0x0A]" "CHR 0x0A \<notin> set c"
    using assms(2,3) by (auto simp: plain_def)
  let ?w1 = "w\<lparr>sending := c, got := c\<rparr>"
  have "serial_send st c w = (True, ?w1)"
    using q c transmit_text [of "w\<lparr>cts := [], sending := c\<rparr>" c st] by (simp add: serial_send_def)
  moreover define w2 where "w2 = ?w1\<lparr>got := [], received := received w @ [(c, c)],
      dev := loader_recv st c (dev w), pending := [e]\<rparr>"
  have "serial_send st [CHR 0x0A] ?w1 = (True, w2)"
    using q assms(4) reply_answers [OF assms(5)]
    by (simp add: serial_send_def deliver_def w2_def Let_def)
  moreover have "serial_wait e w2 = (True, w2\<lparr>pending := []\<rparr>)"
  proof -
    have "wait_line e (map Byte (wire [e]) @ [Silence]) = (True, [Silence])"
      using assms(6) as_read_plain [OF assms(6-8)] by (subst wait_line_wire) (auto simp: plain_def)
    then show ?thesis
      using q by (simp add: serial_wait_def w2_def)
  qed
  ultimately have "exchange (serial st) c e w = (True, w2\<lparr>pending := []\<rparr>)"
    by (simp add: exchange_def serial_def)
  moreover have "quiet (w2\<lparr>pending := []\<rparr>)"
    using q by (simp add: quiet_def w2_def)
  ultimately show ?thesis
    by (auto simp: w2_def)
qed

definition holds_records ::
  "store \<Rightarrow> ram \<Rightarrow> (i24 \<times> u8 list) list \<Rightarrow> link \<Rightarrow> bool" where
  "holds_records st m rs w \<longleftrightarrow>
     quiet w \<and> loader_inv (dev w) \<and> accepted st rs m (dev w) \<and> jumped (dev w) = None"

definition holds_image :: "store \<Rightarrow> ram \<Rightarrow> (i24 \<times> u8 list) list \<Rightarrow> link \<Rightarrow> bool" where
  "holds_image st m rs w \<longleftrightarrow> holds_records st m rs w \<and> finalized (dev w)"

definition entered :: "store \<Rightarrow> ram \<Rightarrow> (i24 \<times> u8 list) list \<Rightarrow> i24 \<Rightarrow> link \<Rightarrow> bool" where
  "entered st m rs a w \<longleftrightarrow> quiet w \<and> accepted st rs m (dev w) \<and> jumped (dev w) = Some a"

lemma hexdigit_not_nul [simp]: "d < 16 \<Longrightarrow> hexdigit d \<noteq> CHR 0x00"
proof -
  assume "d < 16"
  then have "hex (hexdigit d) = int d"
    by (rule hex_hexdigit)
  moreover have "hex (CHR 0x00) = -1"
    by (simp add: hex_def schar_def uchar_def)
  ultimately show ?thesis by auto
qed

lemma hexpad_not_nul [simp]: "CHR 0x00 \<notin> set (hexpad w n)"
  by (induction w) (auto dest: sym)

lemma ack_line_read:
  "p \<noteq> CHR 0x0A \<Longrightarrow> p \<noteq> CHR 0x0D \<Longrightarrow> p \<noteq> CHR 0x00 \<Longrightarrow>
     plain (ack_line p q) \<and> CHR 0x00 \<notin> set (ack_line p q) \<and> length (ack_line p q) \<le> 255"
  by (simp add: ack_line_def)

lemma plain_end_line [simp]: "plain (end_line q c)" and length_end_line: "length (end_line q c) = 9"
  by (simp_all add: end_line_def)

lemma plain_go_line [simp]: "plain (go_line a)" and length_go_line: "length (go_line a) = 7"
  by (simp_all add: go_line_def)

lemma serial_perfect:
  assumes "ram_memory st"
  shows "perfect_link (serial st) (holds_records st m) (holds_image st m) (entered st m)"
proof
  fix rs w a d
  assume at: "holds_records st m rs w" and low: "low_records [(a, d)]"
  note h = at [unfolded holds_records_def]
  let ?q = "seq_no (length rs)" and ?s' = "loader_recv st (data_line (seq_no (length rs)) a d) (dev w)"
  have r: "accepted st (rs @ [(a, d)]) m ?s'" "jumped ?s' = None"
    "answers (dev w) (ack_line (CHR ''A'') ?q) ?s'"
    using ram_memory.recv_next [OF assms, of rs m "dev w" d a ?q] h low by (auto simp: answers_def)
  have "\<exists>w'. exchange (serial st) (data_line ?q a d) (ack_line (CHR ''A'') ?q) w = (True, w') \<and>
      quiet w' \<and> dev w' = ?s'"
    using h r ack_line_read [of "CHR ''A''" ?q] by (intro exchange_quiet) auto
  then show "\<exists>w'. exchange (serial st) (data_line ?q a d) (ack_line (CHR ''A'') ?q) w = (True, w') \<and>
      holds_records st m (rs @ [(a, d)]) w'"
    using h r loader_recv_inv [of "dev w"] by (auto simp: holds_records_def)
next
  fix rs w
  assume at: "holds_records st m rs w"
  note h = at [unfolded holds_records_def]
  let ?q = "seq_no (length rs)" and ?c = "end_line (seq_no (length rs)) (stream_from 0 0xffff rs)"
  let ?s' = "loader_recv st ?c (dev w)"
  obtain l where s': "?s' = say (ack_line (CHR ''F'') ?q)
      (dev w\<lparr>line_buf := l, uart_in := [], finalized := True\<rparr>)"
    using ram_memory.recv_end_accepted [OF assms, of rs m "dev w"] h by blast
  then have r: "accepted st rs m ?s'" "jumped ?s' = None" "finalized ?s'"
    "answers (dev w) (ack_line (CHR ''F'') ?q) ?s'"
    using h unfolding s' by (simp_all add: accepted_def answers_say)
  have "\<exists>w'. exchange (serial st) ?c (ack_line (CHR ''F'') ?q) w = (True, w') \<and>
      quiet w' \<and> dev w' = ?s'"
    using h r(4) ack_line_read [of "CHR ''F''" ?q] by (intro exchange_quiet) (auto simp: length_end_line)
  then show "\<exists>w'. exchange (serial st) ?c (ack_line (CHR ''F'') ?q) w = (True, w') \<and>
      holds_image st m rs w'"
    using h r(1-3) loader_recv_inv [of "dev w"] unfolding holds_image_def holds_records_def by metis
next
  fix rs w and a :: i24
  assume at: "holds_image st m rs w" and low: "unat a < 0xfc000"
  note h = at [unfolded holds_image_def holds_records_def]
  let ?s' = "loader_recv st (go_line a) (dev w)"
  have "sint a = int (unat a)"
    by (rule sint_small) (use low in simp)
  moreover have "sint LOADER_BASE = 0xfc000"
    by (simp add: LOADER_BASE_def)
  ultimately have "\<not> sint a \<ge> sint LOADER_BASE"
    using low by linarith
  then obtain l where s': "?s' = say (CHR ''J'' # hexpad 6 (unat a))
      (dev w\<lparr>line_buf := l, uart_in := []\<rparr>)\<lparr>jumped := Some a\<rparr>"
    using recv_go [of "dev w" st a] h by (auto simp: Let_def)
  have r: "accepted st rs m ?s'" "jumped ?s' = Some a"
    "answers (dev w) (CHR ''J'' # hexpad 6 (unat a)) ?s'"
    using h unfolding s' by (simp_all add: accepted_def answers_def)
  have "\<exists>w'. exchange (serial st) (go_line a) (CHR ''J'' # hexpad 6 (unat a)) w = (True, w') \<and>
      quiet w' \<and> dev w' = ?s'"
    using h r(3) by (intro exchange_quiet) (auto simp: length_go_line)
  then show "\<exists>w'. exchange (serial st) (go_line a) (CHR ''J'' # hexpad 6 (unat a)) w = (True, w') \<and>
      entered st m rs a w'"
    using r(1,2) unfolding entered_def by metis
qed

interpretation clean: perfect_link "serial ideal_store" "holds_records ideal_store m"
  "holds_image ideal_store m" "entered ideal_store m" for m
  by (rule serial_perfect) (rule ideal.ram_memory_axioms)


lemma quiet_noticed: "quiet w \<Longrightarrow> faults_noticed st w"
  by (auto simp: quiet_def faults_noticed_def)

section \<open>Properties of a transfer\<close>

text \<open>C1: if the host reports success over a line with any pattern of lost or changed
  characters, flow-control timeouts, late or lost replies, then the loader's memory is exactly
  the image of the file and its checksum is confirmed, provided that every line damaged on the
  way is one the loader ignores, that noise does not look like a confirmation, and that the
  file has fewer than 65536 records.\<close>

theorem transfer_sound:
  assumes "ram_memory st" and "fresh st m w" and "0 < n" and "n \<le> 32" and "file_fits n raws"
    and "send_verified_image (serial st) r n raws w = (Inr entry, w')"
    and "faults_noticed st w'"
  shows "memory (dev w') = file_image st raws m \<and> finalized (dev w') \<and>
    file_entry raws None = Some entry \<and> unat entry < 0xfc000"
  using upload_sound [OF assms] send_verified_image_checks [OF assms(6,4)] by simp

text \<open>A concrete transfer: two records, then the entry.\<close>

definition demo_file :: "string list" where
  "demo_file = [''; demo'', ''L000100010203\<newline>'', ''G000100\<newline>'']"

definition demo_link :: link where
  "demo_link = \<lparr>dev = boot []\<lparr>stream_crc := 0xffff\<rparr>, got = [], sending = [], cts = [], faults = [],
     pending = [], replies = [], rx = [], received = [], noise = []\<rparr>"

lemma demo_fresh: "fresh ideal_store (\<lambda>_. 0) demo_link"
  and demo_ready: "holds_records ideal_store (\<lambda>_. 0) [] demo_link"
  by (simp_all add: fresh_def holds_records_def quiet_def demo_link_def boot_def loader_inv_def
      crc16_def accepted_def seq_no_def)

lemma demo_lines:
  "strip_newline (c_str ''; demo'') = ''; demo''"
  "strip_newline (c_str ''L000100010203\<newline>'') = ''L000100010203''"
  "strip_newline (c_str ''G000100\<newline>'') = ''G000100''"
  by (simp_all add: c_str_def strip_newline.simps)

lemma demo_values:
  "line_address ''L000100010203'' = 0x100" "line_address ''G000100'' = 0x100"
  "snd (hex_number ''000100010203'' 6 True)" "snd (hex_number ''000100'' 6 True)"
  "host_bytes ''010203'' (Suc (Suc (Suc 0))) True = ([1, 2, 3], True)"
  by code_simp+

lemma demo_ok: "list_all raw_ok demo_file" "file_entry demo_file None = Some 0x100"
  "file_records 2 demo_file = [(0x100, [1, 2]), (0x102, [3])]"
  "file_image st demo_file m = store_bytes st 0x100 [1, 2, 3] m"
proof -
  show "list_all raw_ok demo_file"
    using demo_values by (simp add: demo_file_def raw_ok_def demo_lines Let_def HOST_LOADER_BASE_def
        del: host_bytes.simps)
  show "file_entry demo_file None = Some 0x100"
    using demo_values by (simp add: demo_file_def demo_lines Let_def is_record_def)
  have c: "chunks 2 0x100 [1, 2, 3] = [(0x100, [1, 2]), (0x102, [3])]"
    by (simp add: chunks.simps)
  show "file_records 2 demo_file = [(0x100, [1, 2]), (0x102, [3])]"
    using demo_values c
    by (simp add: demo_file_def demo_lines Let_def is_record_def line_bytes_def
        del: host_bytes.simps)
  show "file_image st demo_file m = store_bytes st 0x100 [1, 2, 3] m"
    using demo_values by (simp add: demo_file_def demo_lines Let_def is_record_def line_bytes_def
        del: host_bytes.simps)
qed

theorem transfer_sound_witness:
  "\<exists>w'. send_verified_image (serial ideal_store) 3 2 demo_file demo_link = (Inr 0x100, w') \<and>
     memory (dev w') 0x102 = 3 \<and> finalized (dev w')"
proof -
  obtain w' where w': "send_verified_image (serial ideal_store) 3 2 demo_file demo_link = (Inr 0x100, w')"
    and q: "holds_image ideal_store (\<lambda>_. 0) (file_records 2 demo_file) w'"
    using clean.send_verified_image_live [OF demo_ready, of 3 2 demo_file "0x100"] demo_ok by auto
  have n: "faults_noticed ideal_store w'" and f: "file_fits 2 demo_file"
    using q quiet_noticed demo_ok
    by (simp_all add: holds_image_def holds_records_def file_fits_def)
  have "memory (dev w') = file_image ideal_store demo_file (\<lambda>_. 0) \<and> finalized (dev w')"
    using transfer_sound [OF ideal.ram_memory_axioms demo_fresh _ _ f w' n] by simp
  with w' show ?thesis
    by (auto simp: demo_ok ideal_store_def)
qed

text \<open>C6: if the jump is acknowledged as well, the loader has entered the image at the file's
  entry address, with the image complete in memory.\<close>

theorem jump_enters_image:
  assumes "ram_memory st" and "fresh st m w" and "0 < n" and "n \<le> 32" and "file_fits n raws"
    and "upload_and_jump (serial st) r n raws w = (Inr entry, w')"
    and "faults_noticed st w'"
  shows "jumped (dev w') = Some (ucast entry) \<and> memory (dev w') = file_image st raws m \<and>
    file_entry raws None = Some entry"
  using jump_sound [OF assms] .


theorem jump_enters_image_witness:
  "\<exists>w'. upload_and_jump (serial ideal_store) 3 2 demo_file demo_link = (Inr 0x100, w') \<and>
     jumped (dev w') = Some 0x100"
proof -
  obtain w' where w': "upload_and_jump (serial ideal_store) 3 2 demo_file demo_link = (Inr 0x100, w')"
    and q: "entered ideal_store (\<lambda>_. 0) (file_records 2 demo_file) (ucast (0x100 :: u64)) w'"
    using clean.upload_and_jump_live [OF demo_ready, of 3 2 demo_file "0x100"] demo_ok by auto
  have n: "faults_noticed ideal_store w'" and f: "file_fits 2 demo_file"
    using q demo_ok by (simp_all add: entered_def file_fits_def quiet_noticed)
  show ?thesis
    using jump_enters_image [OF ideal.ram_memory_axioms demo_fresh _ _ f w' n] w' by simp
qed

text \<open>C4: on a line without faults every well-formed image is loaded and entered at the first
  attempt of each record, for every record size \<open>main\<close> accepts.\<close>

theorem clean_line_uploads:
  assumes "ram_memory st" and "holds_records st m [] w" and "0 < r" and "0 < n" and "n \<le> 32"
    and "list_all raw_ok raws" and "file_entry raws None = Some entry"
  shows "\<exists>w'. upload_and_jump (serial st) r n raws w = (Inr entry, w') \<and>
    jumped (dev w') = Some (ucast entry) \<and> memory (dev w') = file_image st raws m"
  using perfect_link.upload_and_jump_live [OF serial_perfect [OF assms(1)] assms(2-7)]
  by (auto simp: entered_def accepted_def image_of_file_records [OF assms(4)])

theorem clean_line_uploads_witness:
  "\<exists>w'. upload_and_jump (serial ideal_store) 1 32 demo_file demo_link = (Inr 0x100, w') \<and>
     jumped (dev w') = Some (ucast (0x100 :: u64)) \<and>
     memory (dev w') = file_image ideal_store demo_file (\<lambda>_. 0)"
  by (rule clean_line_uploads)
    (use ideal.ram_memory_axioms demo_ready demo_ok in simp_all)

text \<open>the host's record is understood by the loader as the record it was made from: the
  two sides agree on format, digits and checksum.\<close>

lemma host_record_understood:
  assumes "unat seq < 65536" and "unat address < 16777216" and "length data \<le> 32"
  shows "data_fields (record_command seq address data @ rest)
      (int (length (record_command seq address data))) =
    Inr (ucast seq, ucast address, of_nat (length data), data)"
proof -
  have "record_command seq address data = data_line (ucast seq) (ucast address) data"
    using assms by (intro record_command_data_line) simp_all
  moreover have "unat (ucast seq :: i24) < 65536"
    using narrow24 [of seq] assms(1) by simp
  ultimately show ?thesis
    using data_fields_data_line [OF _ _ assms(3), of _ "ucast seq" "ucast address"] by simp
qed

theorem host_record_understood_witness:
  "unat (7 :: u32) < 65536 \<and>
   data_fields (record_command 7 0x1234 [0xAB] @ [CHR 0x00]) (int (length (record_command 7 0x1234 [0xAB])))
     = Inr (7, 0x1234, 1, [0xAB])"
  using host_record_understood [of 7 "0x1234" "[0xAB]" "[CHR 0x00]"] by simp

text \<open>the running checksums agree: the host's \<open>unsigned\<close> computation, masked once per
  byte, is the loader's 24-bit computation, masked once per bit, for every record.\<close>

lemma host_stream_crc_agrees:
  "take_bit 16 (ucast (update_stream_crc crc seq address data)) =
     crc_data (crc_header (take_bit 16 (ucast crc)) (ucast seq) (ucast address)
       (of_nat (length data))) data"
  using low16_stream [of crc seq address data] unfolding low16_def .



text \<open>a record whose data was changed within two adjacent bytes, in transit or by the
  program that made it, is refused: the loader writes nothing and confirms nothing.\<close>

lemma damaged_record_ignored:
  assumes "a \<noteq> a' \<or> b \<noteq> b'" and "unat seq < 65536" and "length xs + length ys \<le> 30"
  shows "ignored st (record_text seq address (xs @ a' # b' # ys)
    (record_crc seq address (of_nat (length xs + length ys + 2)) (xs @ a # b # ys)))"
    (is "ignored st (record_text _ _ ?d' ?crc)")
proof (rule ignored_bad_crc)
  let ?d = "xs @ a # b # ys"
  have "?crc \<noteq> record_crc seq address (of_nat (length xs + length ys + 2)) ?d'"
  proof
    assume "?crc = record_crc seq address (of_nat (length xs + length ys + 2)) ?d'"
    then have "a = a' \<and> b = b'"
      unfolding record_crc_def crc_data_append by (intro crc_burst_inject) (simp_all add: crc16_data)
    with assms(1) show False by simp
  qed
  then show "?crc \<noteq> record_crc seq address (of_nat (length ?d')) ?d'"
    by (simp add: algebra_simps)
  show "unat ?crc < 65536"
    by (rule crc16_less) simp
qed (use assms in simp_all)

theorem damaged_record_ignored_witness:
  "(1 :: u8) \<noteq> 2 \<and> ignored ideal_store (record_text 0 0x100 ([9] @ 2 # 5 # [])
     (record_crc 0 0x100 (of_nat (length [9 :: u8] + length ([] :: u8 list) + 2)) ([9] @ 1 # 5 # [])))"
  using damaged_record_ignored [of 1 2 5 5 0 "[9]" "[]" ideal_store "0x100"] by simp

text \<open>attaching to a loader that has already accepted records of another transfer answers
  \<open>H\<close> with the greeting but keeps the counters, so the first record of the new transfer is
  refused (\<open>S\<close>), however often it is repeated.\<close>

lemma attach_keeps_counters:
  assumes "accepted st rs m s" and "loader_inv s" and "2 \<le> length rs" and "length rs < 65536"
    and "length d \<le> 32" and "s1 = loader_recv st ''H'' s"
  shows "answers s ''TE2 READY 1'' s1 \<and> unchanged s s1 \<and>
    answers s1 (nack_line 0 (CHR ''S'')) (loader_recv st (data_line 0 a d) s1) \<and>
    unchanged s (loader_recv st (data_line 0 a d) s1)"
proof -
  have "loader_recv st ''H'' s = dispatch st 1
      (s\<lparr>line_buf := ''H'' @ CHR 0x00 # drop 2 (line_buf s), uart_in := []\<rparr>)"
    using assms(2) by (subst loader_recv_plain) (simp_all add: loader_inv_def MAXLINE_def numeral_2_eq_2)
  then have s1: "s1 = say ''TE2 READY 1''
      (s\<lparr>line_buf := ''H'' @ CHR 0x00 # drop 2 (line_buf s), uart_in := []\<rparr>)"
    by (simp add: assms(6) dispatch_def says)
  have z: "seq_no 0 = 0"
    by (simp add: seq_no_def)
  obtain j where j: "length rs = Suc j" "j \<noteq> 0"
    using assms(3) by (cases "length rs") auto
  have e: "expected_seq s1 = seq_no (length rs)"
    using assms(1) by (simp add: s1 accepted_def)
  have "0 \<noteq> expected_seq s1" "0 \<noteq> (expected_seq s1 - 1) AND 0xffff"
    using seq_no_inject [of 0 "length rs"] seq_no_inject [of 0 j] assms(3,4) j
    unfolding e j(1) seq_no_pred by (auto simp: z)
  moreover have i: "loader_inv s1"
    unfolding assms(6) by (rule loader_recv_inv) (rule assms(2))
  ultimately obtain l where "loader_recv st (data_line 0 a d) s1 =
      say (nack_line 0 (CHR ''S'')) (s1\<lparr>line_buf := l, uart_in := []\<rparr>)"
    using recv_data [OF i assms(5), of 0 st a] by (auto simp: Let_def says)
  then show ?thesis
    by (simp add: s1 answers_def unchanged_def)
qed

theorem attach_keeps_counters_witness:
  "unchanged (boot []\<lparr>expected_seq := 2, stream_crc := stream_from 0 0xffff [(0, [1]), (1, [2])],
       memory := image_of ideal_store [(0, [1]), (1, [2])] (\<lambda>_. 0)\<rparr>)
     (loader_recv ideal_store ''H'' (boot []\<lparr>expected_seq := 2,
       stream_crc := stream_from 0 0xffff [(0, [1]), (1, [2])],
       memory := image_of ideal_store [(0, [1]), (1, [2])] (\<lambda>_. 0)\<rparr>))"
proof -
  let ?s = "boot []\<lparr>expected_seq := 2, stream_crc := stream_from 0 0xffff [(0, [1]), (1, [2])],
       memory := image_of ideal_store [(0, [1]), (1, [2])] (\<lambda>_. 0)\<rparr>"
  have "accepted ideal_store [(0, [1]), (1, [2])] (\<lambda>_. 0) ?s" "loader_inv ?s"
    by (simp_all add: accepted_def seq_no_def loader_inv_def boot_def crc16_data)
  from attach_keeps_counters [OF this _ _ _ refl, of "[]"] show ?thesis
    by simp
qed

end
