(* ===== verification/Te2_Bootstrap.thy ===== *)
theory Te2_Bootstrap
  imports Te2_Host_Correct
begin

text \<open>
  The bootstrap of \<open>te/te2/te2.c\<close>: the loader is sent line by line to the ROM monitor, each
  line verified by its echo, and \<open>main\<close> with its options.

  The operating system is reached through a \<open>boot_port\<close>: the transport, the newline sent to
  end a damaged monitor command, the draining of stale input and the check of the 25-second
  deadline.  Opening devices and the terminal mode are not modelled.
\<close>

section \<open>Bootstrap\<close>

record 'w boot_port =
  b_line :: "'w transport"
  b_newline :: "'w \<Rightarrow> 'w"
  b_drain :: "'w \<Rightarrow> 'w"
  b_late :: "'w \<Rightarrow> bool \<times> 'w"

definition bootstrap_line :: "'w boot_port \<Rightarrow> string \<Rightarrow> 'w \<Rightarrow> bool \<times> 'w" where
  "bootstrap_line p line w = exchange (b_line p) line line w"

text \<open>The attempts for one line; the result is the value of \<open>attempt\<close> after the loop.\<close>

function boot_attempts ::
  "'w boot_port \<Rightarrow> nat \<Rightarrow> string \<Rightarrow> nat \<Rightarrow> 'w \<Rightarrow> (host_error + nat) \<times> 'w" where
  "boot_attempts p retries line attempt w =
     (if attempt > retries then (Inr attempt, w)
      else let (late, w1) = b_late p w in
        if late then (Inl (Die ''bootstrap exceeded 25-second deadline''), w1)
        else let (ok, w2) = bootstrap_line p line w1 in
          if ok then (Inr attempt, w2)
          else if hd line = CHR ''G'' then (Inr attempt, w2)
          else boot_attempts p retries line (Suc attempt) (b_drain p (b_newline p w2)))"
  by pat_completeness auto
termination
  by (relation "measure (\<lambda>(p, retries, line, attempt, w). Suc retries - attempt)") auto

declare boot_attempts.simps [simp del]

fun boot_lines ::
  "'w boot_port \<Rightarrow> nat \<Rightarrow> string list \<Rightarrow> nat \<Rightarrow> 'w \<Rightarrow> (host_error + nat) \<times> 'w" where
  "boot_lines p retries [] num w = (Inr num, w)"
| "boot_lines p retries (raw # raws) num w =
     (let line = strip_newline (c_str raw) in
      if line = [] then boot_lines p retries raws num w
      else case boot_attempts p retries line 1 w of
        (Inl e, w1) \<Rightarrow> (Inl e, w1)
      | (Inr attempt, w1) \<Rightarrow>
          if attempt > retries \<or> hd line = CHR ''G'' \<and> attempt > 1
          then (Inl (Die ''bootstrap echo verification failed''), w1)
          else boot_lines p retries raws (Suc num) w1)"

definition bootstrap ::
  "'w boot_port \<Rightarrow> nat \<Rightarrow> string list \<Rightarrow> 'w \<Rightarrow> (host_error + nat) \<times> 'w" where
  "bootstrap p retries raws w =
     (case boot_lines p retries raws 0 w of
        (Inl e, w1) \<Rightarrow> (Inl e, w1)
      | (Inr num, w1) \<Rightarrow>
          let (late, w2) = b_late p w1 in
          if late then (Inl (Die ''bootstrap exceeded 25-second deadline''), w2)
          else let (ok, w3) = t_wait (b_line p) ''TE2 READY 1'' w2 in
          if \<not> ok then (Inl (Die ''second-stage loader did not become ready''), w3)
          else (Inr num, w3))"

section \<open>Options and main\<close>

text \<open>What \<open>getopt\<close> yields, with the value of \<open>atoi\<close>.\<close>

datatype cmd_option = Opt_2 | Opt_d string | Opt_L string | Opt_r int | Opt_t int | Opt_n int | Opt_other

record config =
  retries :: int
  response_ms :: int
  record_data_size :: u32
  stage2_only :: bool
  requested :: "string option"
  loader_override :: "string option"

definition default_config :: config where
  "default_config = \<lparr>retries = 5, response_ms = 1000, record_data_size = of_nat MAX_RECORD_DATA,
     stage2_only = False, requested = None, loader_override = None\<rparr>"

text \<open>\<open>None\<close>: the usage message and the end of the program.\<close>

fun options :: "cmd_option list \<Rightarrow> config \<Rightarrow> config option" where
  "options [] c = Some c"
| "options (Opt_2 # os) c = options os (c\<lparr>stage2_only := True\<rparr>)"
| "options (Opt_d d # os) c = options os (c\<lparr>requested := Some d\<rparr>)"
| "options (Opt_L l # os) c = options os (c\<lparr>loader_override := Some l\<rparr>)"
| "options (Opt_r v # os) c =
     (if v < 1 \<or> v > 100 then None else options os (c\<lparr>retries := v\<rparr>))"
| "options (Opt_t v # os) c =
     (if v < 50 \<or> v > 10000 then None else options os (c\<lparr>response_ms := v\<rparr>))"
| "options (Opt_n v # os) c =
     (if (word_of_int v :: u32) < 1 \<or> (word_of_int v :: u32) > of_nat MAX_RECORD_DATA then None
      else options os (c\<lparr>record_data_size := word_of_int v\<rparr>))"
| "options (Opt_other # os) c = None"

text \<open>\<open>loader_path\<close>: the loader lies beside the executable, whose path is the link's target if
  there is one; both are cut to their buffers.\<close>

definition loader_path :: "string option \<Rightarrow> string \<Rightarrow> nat \<Rightarrow> string" where
  "loader_path link argv0 capacity =
     (let executable = (case link of Some e \<Rightarrow> take 1023 e | None \<Rightarrow> take 1023 argv0);
          folder = rev (drop 1 (dropWhile (\<lambda>c. c \<noteq> CHR ''/'') (rev executable)))
      in take (capacity - 1)
        (if CHR ''/'' \<in> set executable then folder @ ''/te2.lgo'' else ''te2.lgo''))"

text \<open>\<open>main\<close> after the device has been opened: the stage-two file and the image are given by
  their lines.\<close>

definition te2_main ::
  "'w boot_port \<Rightarrow> config \<Rightarrow> string list \<Rightarrow> string list \<Rightarrow> 'w \<Rightarrow> (host_error + u64) \<times> 'w" where
  "te2_main p c stage2 img w =
     (let upload = upload_and_jump (b_line p) (nat (retries c)) (unat (record_data_size c)) img in
      if stage2_only c then
        let (ok1, w1) = t_send (b_line p) ''H\<newline>'' (b_drain p w) in
        if \<not> ok1 then (Inl (Die ''no response from existing second-stage loader''), w1)
        else let (ok2, w2) = t_wait (b_line p) ''TE2 READY 1'' w1 in
        if \<not> ok2 then (Inl (Die ''no response from existing second-stage loader''), w2)
        else upload w2
      else case bootstrap p (nat (retries c)) stage2 w of
        (Inl e, w1) \<Rightarrow> (Inl e, w1)
      | (Inr _, w1) \<Rightarrow> upload w1)"

section \<open>A logged line\<close>

text \<open>The same operations, with a log of every text given to the line and every wait.\<close>

datatype line_event = Sent string bool | Waited string bool

definition logged_line :: "'w transport \<Rightarrow> ('w \<times> line_event list) transport" where
  "logged_line t =
     \<lparr>t_send = (\<lambda>x (w, es). let (b, w') = t_send t x w in (b, (w', es @ [Sent x b]))),
      t_wait = (\<lambda>x (w, es). let (b, w') = t_wait t x w in (b, (w', es @ [Waited x b])))\<rparr>"

definition logged :: "'w boot_port \<Rightarrow> ('w \<times> line_event list) boot_port" where
  "logged p =
     \<lparr>b_line = logged_line (b_line p), b_newline = apfst (b_newline p), b_drain = apfst (b_drain p),
      b_late = (\<lambda>(w, es). let (late, w') = b_late p w in (late, (w', es)))\<rparr>"

definition sends_of :: "char \<Rightarrow> line_event list \<Rightarrow> nat" where
  "sends_of c es = length (filter (\<lambda>e. \<exists>x b. e = Sent x b \<and> is_record c x) es)"

lemma sends_of_simps [simp]:
  "sends_of c [] = 0" "sends_of c (es @ es') = sends_of c es + sends_of c es'"
  "sends_of c (Sent x b # es) = (if is_record c x then 1 else 0) + sends_of c es"
  "sends_of c (Waited x b # es) = sends_of c es"
  by (simp_all add: sends_of_def)

lemma exchange_logged:
  assumes "exchange (logged_line t) c e (w, es) = (b, (w', es'))" and "c0 \<noteq> CHR 0x0A"
  shows "\<exists>new. es' = es @ new \<and> sends_of c0 new = (if is_record c0 c then 1 else 0) \<and>
    (b \<longrightarrow> Waited e True \<in> set new)"
  using assms
  by (auto simp: exchange_def logged_line_def Let_def is_record_def split: prod.splits if_splits)


lemma logged_simps [simp]:
  "b_line (logged p) = logged_line (b_line p)" "b_newline (logged p) = apfst (b_newline p)"
  "b_drain (logged p) = apfst (b_drain p)"
  "b_late (logged p) (w, es) = (let (late, w') = b_late p w in (late, (w', es)))"
  by (simp_all add: logged_def)

definition go_limit :: "string \<Rightarrow> nat" where
  "go_limit line = (if is_record (CHR ''G'') line then 1 else 0)"

lemma boot_attempts_logged:
  assumes "boot_attempts (logged p) r line k (w, es) = (res, (w', es'))" and "line \<noteq> []"
  shows "\<exists>new. es' = es @ new \<and> sends_of (CHR ''G'') new \<le> go_limit line \<and>
    (\<forall>a. res = Inr a \<longrightarrow> a \<le> r \<longrightarrow> hd line \<noteq> CHR ''G'' \<longrightarrow> Waited line True \<in> set new)"
  using assms
proof (induction "Suc r - k" arbitrary: k w es rule: less_induct)
  case less
  show ?case
  proof (cases "k \<le> r")
    case False
    with less.prems show ?thesis by (auto simp: boot_attempts.simps)
  next
    case True
    obtain late w1 where l: "b_late p w = (late, w1)" by fastforce
    show ?thesis
    proof (cases late)
      case True
      with l less.prems(1) \<open>k \<le> r\<close> show ?thesis by (auto simp: boot_attempts.simps)
    next
      case nl: False
      obtain ok w2 es2 where x: "exchange (logged_line (b_line p)) line line (w1, es) = (ok, (w2, es2))"
        by (metis surj_pair)
      from exchange_logged [OF x, of "CHR ''G''"] obtain new where n: "es2 = es @ new"
        "sends_of (CHR ''G'') new = go_limit line" "ok \<longrightarrow> Waited line True \<in> set new"
        by (auto simp: go_limit_def)
      show ?thesis
      proof (cases "ok \<or> hd line = CHR ''G''")
        case True
        with l nl x n less.prems(1) \<open>k \<le> r\<close> show ?thesis
          by (cases ok) (auto simp: boot_attempts.simps [of _ r line k] bootstrap_line_def)
      next
        case False
        then have "boot_attempts (logged p) r line (Suc k) (b_drain p (b_newline p w2), es2) = (res, (w', es'))"
          using l nl x less.prems(1) \<open>k \<le> r\<close>
          by (simp add: boot_attempts.simps [of _ r line k] bootstrap_line_def)
        moreover have "Suc r - Suc k < Suc r - k"
          using \<open>k \<le> r\<close> by simp
        ultimately obtain new2 where "es' = es2 @ new2"
          "sends_of (CHR ''G'') new2 \<le> go_limit line"
          "\<forall>a. res = Inr a \<longrightarrow> a \<le> r \<longrightarrow> hd line \<noteq> CHR ''G'' \<longrightarrow> Waited line True \<in> set new2"
          using less.hyps [OF _ _ less.prems(2)] by blast
        moreover have "sends_of (CHR ''G'') new = 0"
          using n(2) False by (simp add: go_limit_def is_record_def)
        ultimately show ?thesis
          using n(1) by (intro exI [of _ "new @ new2"]) auto
      qed
    qed
  qed
qed

definition boot_line_text :: "string \<Rightarrow> string" where
  "boot_line_text raw = strip_newline (c_str raw)"

definition go_count :: "string list \<Rightarrow> nat" where
  "go_count raws = sum_list (map (\<lambda>raw. go_limit (boot_line_text raw)) raws)"

lemma boot_lines_logged:
  "boot_lines (logged p) r raws n (w, es) = (res, (w', es')) \<Longrightarrow>
     \<exists>new. es' = es @ new \<and> sends_of (CHR ''G'') new \<le> go_count raws \<and>
       (\<forall>k. res = Inr k \<longrightarrow> (\<forall>raw \<in> set raws. boot_line_text raw \<noteq> [] \<longrightarrow>
          hd (boot_line_text raw) \<noteq> CHR ''G'' \<longrightarrow> Waited (boot_line_text raw) True \<in> set new))"
proof (induction raws arbitrary: n w es)
  case Nil
  then show ?case by (auto simp: go_count_def)
next
  case (Cons raw raws)
  let ?l = "boot_line_text raw"
  show ?case
  proof (cases "?l = []")
    case True
    then have "boot_lines (logged p) r raws n (w, es) = (res, (w', es'))"
      using Cons.prems by (simp add: boot_line_text_def)
    from Cons.IH [OF this] True show ?thesis
      by (auto simp: go_count_def go_limit_def is_record_def)
  next
    case False
    obtain res1 w1 es1 where a: "boot_attempts (logged p) r ?l 1 (w, es) = (res1, (w1, es1))"
      by (metis surj_pair)
    from boot_attempts_logged [OF a False] obtain new where n: "es1 = es @ new"
      "sends_of (CHR ''G'') new \<le> go_limit ?l"
      "\<forall>k. res1 = Inr k \<longrightarrow> k \<le> r \<longrightarrow> hd ?l \<noteq> CHR ''G'' \<longrightarrow> Waited ?l True \<in> set new"
      by blast
    show ?thesis
    proof (cases "\<exists>k. res1 = Inr k \<and> k \<le> r \<and> \<not> (hd ?l = CHR ''G'' \<and> k > 1)")
      case True
      then obtain k where k: "res1 = Inr k" "k \<le> r" "\<not> (hd ?l = CHR ''G'' \<and> k > 1)" by blast
      then have "boot_lines (logged p) r raws (Suc n) (w1, es1) = (res, (w', es'))"
        using Cons.prems False a by (auto simp: boot_line_text_def Let_def split: if_splits)
      from Cons.IH [OF this] obtain new2 where n2: "es' = es1 @ new2"
        "sends_of (CHR ''G'') new2 \<le> go_count raws"
        "\<forall>k. res = Inr k \<longrightarrow> (\<forall>raw \<in> set raws. boot_line_text raw \<noteq> [] \<longrightarrow>
          hd (boot_line_text raw) \<noteq> CHR ''G'' \<longrightarrow> Waited (boot_line_text raw) True \<in> set new2)"
        by blast
      show ?thesis
        using n n2 k by (intro exI [of _ "new @ new2"]) (auto simp: go_count_def)
    next
      case no: False
      then have "\<not> (\<exists>k. res = Inr k)" "es' = es1"
        using Cons.prems False a
        by (auto simp: boot_line_text_def Let_def not_le split: sum.splits if_splits)
      with n show ?thesis
        by (auto simp: go_count_def)
    qed
  qed
qed

lemma bootstrap_logged:
  assumes "bootstrap (logged p) r raws (w, es) = (res, (w', es'))"
  shows "\<exists>new. es' = es @ new \<and> sends_of (CHR ''G'') new \<le> go_count raws \<and>
    (\<forall>k. res = Inr k \<longrightarrow> Waited ''TE2 READY 1'' True \<in> set new \<and>
      (\<forall>raw \<in> set raws. boot_line_text raw \<noteq> [] \<longrightarrow> hd (boot_line_text raw) \<noteq> CHR ''G'' \<longrightarrow>
         Waited (boot_line_text raw) True \<in> set new))"
proof -
  obtain res1 w1 es1 where b: "boot_lines (logged p) r raws 0 (w, es) = (res1, (w1, es1))"
    by (metis surj_pair)
  from boot_lines_logged [OF b] obtain new where n: "es1 = es @ new"
    "sends_of (CHR ''G'') new \<le> go_count raws"
    "\<forall>k. res1 = Inr k \<longrightarrow> (\<forall>raw \<in> set raws. boot_line_text raw \<noteq> [] \<longrightarrow>
      hd (boot_line_text raw) \<noteq> CHR ''G'' \<longrightarrow> Waited (boot_line_text raw) True \<in> set new)"
    by blast
  show ?thesis
  proof (cases res1)
    case (Inl e)
    with assms b n show ?thesis by (auto simp: bootstrap_def)
  next
    case (Inr k)
    obtain late w2 where l: "b_late p w1 = (late, w2)" by fastforce
    obtain ok w3 where t: "t_wait (b_line p) ''TE2 READY 1'' w2 = (ok, w3)" by fastforce
    have wait: "t_wait (logged_line (b_line p)) ''TE2 READY 1'' (w2, es1) =
        (ok, (w3, es1 @ [Waited ''TE2 READY 1'' ok]))"
      using t by (simp add: logged_line_def)
    consider "late" | "\<not> late" "\<not> ok" | "\<not> late" "ok" by blast
    then show ?thesis
    proof cases
      case 1
      with assms b n l Inr show ?thesis by (auto simp: bootstrap_def)
    next
      case 2
      with assms b n l wait Inr show ?thesis
        by (auto simp: bootstrap_def intro!: exI [of _ "new @ [Waited ''TE2 READY 1'' False]"])
    next
      case 3
      with assms b n l wait Inr show ?thesis
        by (auto simp: bootstrap_def intro!: exI [of _ "new @ [Waited ''TE2 READY 1'' True]"])
    qed
  qed
qed


section \<open>Properties\<close>

text \<open>C15: a successful bootstrap has seen the exact echo of every load line and the loader's
  greeting, and whether it succeeds or not, each jump line of the file was sent at most once.\<close>

theorem bootstrap_verified:
  assumes "bootstrap (logged p) r raws (w, []) = (res, (w', es))"
  shows "sends_of (CHR ''G'') es \<le> go_count raws \<and>
    (\<forall>k. res = Inr k \<longrightarrow> Waited ''TE2 READY 1'' True \<in> set es \<and>
      (\<forall>raw \<in> set raws. boot_line_text raw \<noteq> [] \<longrightarrow> hd (boot_line_text raw) \<noteq> CHR ''G'' \<longrightarrow>
         Waited (boot_line_text raw) True \<in> set es))"
  using bootstrap_logged [OF assms] by auto

text \<open>A port that sends everything and whose every wait succeeds.\<close>

definition yes_port :: "nat boot_port" where
  "yes_port = \<lparr>b_line = \<lparr>t_send = (\<lambda>x w. (True, Suc w)), t_wait = (\<lambda>x w. (True, w))\<rparr>,
     b_newline = id, b_drain = id, b_late = (\<lambda>w. (False, w))\<rparr>"

theorem bootstrap_verified_witness:
  "\<exists>w' es. bootstrap (logged yes_port) 5 [''L0FC00001'', ''G0FC000''] (0, []) = (Inr 2, (w', es)) \<and>
     Waited ''L0FC00001'' True \<in> set es \<and> sends_of (CHR ''G'') es \<le> 1"
proof -
  have l: "boot_line_text ''L0FC00001'' = ''L0FC00001''" "boot_line_text ''G0FC000'' = ''G0FC000''"
    by (simp_all add: boot_line_text_def c_str_def strip_newline.simps)
  have "fst (bootstrap (logged yes_port) 5 [''L0FC00001'', ''G0FC000''] (0, [])) = Inr 2"
    using l by (simp add: bootstrap_def boot_attempts.simps bootstrap_line_def exchange_def Let_def
        yes_port_def logged_def logged_line_def boot_line_text_def)
  then obtain w' es where b: "bootstrap (logged yes_port) 5 [''L0FC00001'', ''G0FC000''] (0, []) = (Inr 2, (w', es))"
    by (metis prod.collapse)
  then show ?thesis
    using bootstrap_verified [OF b] l by (auto simp: go_count_def go_limit_def is_record_def)
qed

text \<open>the echo of a jump line is not required: whether or not it arrives, the bootstrap goes
  on with the next line.\<close>

lemma go_echo_not_required:
  assumes "hd (boot_line_text raw) = CHR ''G''" and "boot_line_text raw \<noteq> []" and "0 < r"
    and "b_late p w = (False, w1)" and "bootstrap_line p (boot_line_text raw) w1 = (ok, w2)"
  shows "boot_lines p r (raw # raws) n w = boot_lines p r raws (Suc n) w2"
  using assms by (cases ok) (simp_all add: boot_line_text_def boot_attempts.simps [of p r _ "Suc 0"] Let_def)

text \<open>A port whose waits all fail.\<close>

definition deaf_port :: "nat boot_port" where
  "deaf_port = \<lparr>b_line = \<lparr>t_send = (\<lambda>x w. (True, Suc w)), t_wait = (\<lambda>x w. (False, w))\<rparr>,
     b_newline = id, b_drain = id, b_late = (\<lambda>w. (False, w))\<rparr>"

theorem go_echo_not_required_witness:
  "bootstrap_line deaf_port ''G0FC000'' 0 = (False, 2) \<and>
   boot_lines deaf_port 5 [''G0FC000''] 0 0 = (Inr 1, 2)"
proof -
  have l: "boot_line_text ''G0FC000'' = ''G0FC000''"
    by (simp add: boot_line_text_def c_str_def strip_newline.simps)
  have e: "bootstrap_line deaf_port ''G0FC000'' 0 = (False, 2)"
    by (simp add: bootstrap_line_def exchange_def deaf_port_def)
  have "b_late deaf_port 0 = (False, 0)"
    by (simp add: deaf_port_def)
  from go_echo_not_required [of "''G0FC000''" 5, OF _ _ _ this, unfolded l, OF _ _ _ e, of "[]" 0] e
  show ?thesis by simp
qed

text \<open>The options \<open>main\<close> accepts keep retries, timeout and record size within the limits
  of its usage message, also when the value given is negative.\<close>

lemma options_in_range:
  assumes "options os default_config = Some c"
  shows "1 \<le> retries c \<and> retries c \<le> 100 \<and> 50 \<le> response_ms c \<and> response_ms c \<le> 10000 \<and>
    1 \<le> unat (record_data_size c) \<and> unat (record_data_size c) \<le> 32"
proof -
  have "options os c0 = Some c \<Longrightarrow>
      1 \<le> retries c0 \<and> retries c0 \<le> 100 \<and> 50 \<le> response_ms c0 \<and> response_ms c0 \<le> 10000 \<and>
      record_data_size c0 \<noteq> 0 \<and> record_data_size c0 \<le> of_nat MAX_RECORD_DATA \<Longrightarrow>
      1 \<le> retries c \<and> retries c \<le> 100 \<and> 50 \<le> response_ms c \<and> response_ms c \<le> 10000 \<and>
      record_data_size c \<noteq> 0 \<and> record_data_size c \<le> of_nat MAX_RECORD_DATA" for c0
    by (induction os c0 rule: options.induct) (auto simp: not_less split: if_splits)
  from this [OF assms] show ?thesis
    by (simp add: default_config_def MAX_RECORD_DATA_def word_le_nat_alt unat_gt_0 Suc_le_eq)
qed

end
