(* ===== verification/Loadngo.thy ===== *)
theory Loadngo
  imports Te2_Loader_Correct
begin

unbundle bit_operations_syntax

text \<open>
  The first-stage monitor, \<open>reference/loadngo.c\<close>: it echoes a command line while reading it
  and obeys \<open>L\<close> (load bytes), \<open>G\<close> (call) and \<open>;\<close> (comment).

  \<open>monitor\<close> holds the line buffer, the LED counter, memory, the characters not yet read and
  those written.  Waiting for the UART is not modelled; \<open>mon_getline\<close> returns \<open>None\<close> when the
  input ends.  The called program is not modelled: the address is recorded and the
  monitor stops.
\<close>

section \<open>State, output and input\<close>

record monitor =
  linbuf :: string
  toggled :: u8
  ledsw :: u8
  mon_mem :: ram
  mon_in :: string
  mon_out :: string
  called :: "i24 option"

definition LINSIZ :: nat where "LINSIZ = 81"

definition inimsg :: string where "inimsg = ''Load and go monitor\<newline>''"
definition badhex :: string where "badhex = ''? Bad hex character:''"
definition fmterr :: string where "fmterr = ''? Command format:''"
definition jmpmsg :: string where "jmpmsg = ''Jump to ''"
definition llnerr :: string where "llnerr = ''? Line too long\<newline>''"
definition unkerr :: string where "unkerr = ''? Unknown command:''"

definition hextab :: string where "hextab = ''0123456789ABCDEF''"

definition mon_putchr :: "char \<Rightarrow> monitor \<Rightarrow> monitor" where
  "mon_putchr c s = s\<lparr>mon_out := mon_out s @ [c]\<rparr>"

text \<open>\<open>putstr\<close> stops at the NUL.\<close>

fun mon_putstr :: "string \<Rightarrow> monitor \<Rightarrow> monitor" where
  "mon_putstr [] s = s"
| "mon_putstr (c # cs) s = (if c = CHR 0x00 then s else mon_putstr cs (mon_putchr c s))"

text \<open>The carriage return is read as a newline, and every character is echoed.\<close>

fun mon_getline_loop :: "string \<Rightarrow> nat \<Rightarrow> string \<Rightarrow> string \<Rightarrow>
    (bool \<times> string \<times> string \<times> string) option" where
  "mon_getline_loop [] i l out =
     (if i < LINSIZ - 1 then None else Some (False, l[i := CHR 0x00], [], out))"
| "mon_getline_loop (c0 # cs) i l out =
     (if i < LINSIZ - 1
      then let c = (if c0 = CHR 0x0D then CHR 0x0A else c0)
           in if c = CHR 0x0A
              then Some (True, (l[i := c])[Suc i := CHR 0x00], cs, out @ [c])
              else mon_getline_loop cs (Suc i) (l[i := c]) (out @ [c])
      else Some (False, l[i := CHR 0x00], c0 # cs, out))"

definition mon_getline :: "monitor \<Rightarrow> (bool \<times> monitor) option" where
  "mon_getline s =
     (case mon_getline_loop (mon_in s) 0 (linbuf s) (mon_out s) of
        None \<Rightarrow> None
      | Some (ok, l, rest, out) \<Rightarrow> Some (ok, s\<lparr>linbuf := l, mon_in := rest, mon_out := out\<rparr>))"

section \<open>Hexadecimal\<close>

text \<open>\<open>hexnum\<close> takes an \<open>unsigned char\<close>; an invalid one is reported.\<close>

definition hexnum :: "char \<Rightarrow> monitor \<Rightarrow> int \<times> monitor" where
  "hexnum c s =
     (if \<not> uchar c < uchar CHR ''0'' \<and> \<not> uchar CHR ''9'' < uchar c
      then (uchar c - uchar CHR ''0'', s)
      else if \<not> uchar c < uchar CHR ''A'' \<and> \<not> uchar CHR ''F'' < uchar c
      then (uchar c - uchar CHR ''A'' + 10, s)
      else (-1, mon_putchr (CHR 0x0A) (mon_putchr c (mon_putstr badhex s))))"

lemma mon_putstr_eq:
  "mon_putstr t s = s\<lparr>mon_out := mon_out s @ takeWhile (\<lambda>c. c \<noteq> CHR 0x00) t\<rparr>"
  by (induction t arbitrary: s) (simp_all add: mon_putchr_def)

lemma hexnum_linbuf: "hexnum c s = (d, s1) \<Longrightarrow> linbuf s1 = linbuf s"
  by (auto simp: hexnum_def mon_putstr_eq mon_putchr_def split: if_splits)

definition dspbyte :: "u8 \<Rightarrow> monitor \<Rightarrow> monitor" where
  "dspbyte c s =
     mon_putchr (hextab ! unat (signed_drop_bit 0 (scast c :: i24) AND 0x0f))
       (mon_putchr (hextab ! unat (signed_drop_bit 4 (scast c :: i24) AND 0x0f)) s)"

section \<open>Commands\<close>

definition noaddr :: "monitor \<Rightarrow> monitor" where
  "noaddr s = mon_putstr (linbuf s) (mon_putstr fmterr s)"

text \<open>The bytes of the \<open>int\<close> at \<open>jmpadr\<close>, lowest first.\<close>

definition int_byte :: "i24 \<Rightarrow> nat \<Rightarrow> u8" where
  "int_byte v k = ucast (drop_bit (8 * k) v)"

definition announce_jump :: "i24 \<Rightarrow> monitor \<Rightarrow> monitor" where
  "announce_jump a s =
     mon_putchr (CHR 0x0A)
       (dspbyte (int_byte a 0) (dspbyte (int_byte a 1) (dspbyte (int_byte a 2)
         (mon_putstr jmpmsg s))))"

text \<open>The loop of \<open>dogo\<close> from index \<open>i\<close>: it ends at index 7 at the latest.\<close>

function dogo_loop :: "nat \<Rightarrow> i24 \<Rightarrow> monitor \<Rightarrow> monitor" where
  "dogo_loop i jmpadr s =
     (let c = linbuf s ! i; i = Suc i
      in if c = CHR 0x0A
         then if i = 2 then noaddr s else (announce_jump jmpadr s)\<lparr>called := Some jmpadr\<rparr>
         else if i \<ge> 8 then noaddr s
         else let (d, s1) = hexnum c s
              in if d < 0 then s1
                 else dogo_loop i (push_bit 4 jmpadr OR word_of_int d) s1)"
  by pat_completeness auto
termination
  by (relation "measure (\<lambda>(i, a, s). 8 - i)") auto

declare dogo_loop.simps [simp del]

definition dogo :: "monitor \<Rightarrow> monitor" where
  "dogo s = dogo_loop 1 0 s"

text \<open>The loop of \<open>doload\<close> has no bound of its own: it relies on the newline that ends the
  line.  \<open>None\<close> would be a run past the buffer.\<close>

function doload_loop ::
  "store \<Rightarrow> nat \<Rightarrow> bool \<Rightarrow> i24 \<Rightarrow> monitor \<Rightarrow> monitor option" where
  "doload_loop st i lodnyb lodadr s =
     (if i \<ge> length (linbuf s) then None
      else let c = linbuf s ! i; i = Suc i
      in if c = CHR 0x0A then Some (if i < 10 \<or> lodnyb then noaddr s else s)
         else let (d, s1) = hexnum c s
              in if d < 0 then Some s1
                 else if i < 8
                 then doload_loop st i lodnyb (push_bit 4 lodadr OR word_of_int d) s1
                 else if \<not> lodnyb
                 then doload_loop st i True lodadr
                   (s1\<lparr>mon_mem := st (mon_mem s1) lodadr (push_bit 4 (word_of_int d))\<rparr>)
                 else doload_loop st i False (lodadr + 1)
                   (s1\<lparr>mon_mem := st (mon_mem s1) lodadr (word_of_int d OR mon_mem s1 lodadr)\<rparr>))"
  by pat_completeness auto
termination
  by (relation "measure (\<lambda>(st, i, n, a, s). length (linbuf s) - i)")
    (auto dest!: sym [of "(_, _)" "hexnum _ _"] hexnum_linbuf)

declare doload_loop.simps [simp del]

definition doload :: "store \<Rightarrow> monitor \<Rightarrow> monitor option" where
  "doload st s = doload_loop st 1 False 0 s"

text \<open>One command line, echoed and read, is obeyed.\<close>

definition obey :: "store \<Rightarrow> bool \<Rightarrow> monitor \<Rightarrow> monitor option" where
  "obey st ok s =
     (if \<not> ok then Some (mon_putstr llnerr s)
      else let s1 = s\<lparr>toggled := toggled s + 1, ledsw := toggled s + 1\<rparr> in
        if linbuf s1 ! 0 = CHR '';'' then Some s1
        else if linbuf s1 ! 0 = CHR ''G'' then Some (dogo s1)
        else if linbuf s1 ! 0 = CHR ''L'' then doload st s1
        else Some (mon_putstr (linbuf s1) (mon_putstr unkerr s1)))"

function mon_loop :: "store \<Rightarrow> monitor \<Rightarrow> monitor option" where
  "mon_loop st s =
     (if called s \<noteq> None then Some s
      else case mon_getline s of None \<Rightarrow> Some s
      | Some (ok, s1) \<Rightarrow> (case obey st ok s1 of None \<Rightarrow> None | Some s2 \<Rightarrow> mon_loop st s2))"
  by pat_completeness auto


section \<open>Reading a line\<close>

definition newline_for :: "char \<Rightarrow> char" where
  "newline_for c = (if c = CHR 0x0D then CHR 0x0A else c)"

text \<open>What one call of \<open>mon_getline\<close> consumes, echoes and stores.\<close>

definition line_read :: "bool \<Rightarrow> string \<Rightarrow> string \<Rightarrow> bool" where
  "line_read ok t l \<longleftrightarrow> length l = LINSIZ \<and> length t \<le> LINSIZ - 1 \<and>
     take (length t) l = t \<and> l ! length t = CHR 0x00 \<and> CHR 0x0A \<notin> set (butlast t) \<and>
     (ok \<longleftrightarrow> t \<noteq> [] \<and> last t = CHR 0x0A) \<and> (\<not> ok \<longrightarrow> length t = LINSIZ - 1)"

lemma line_read_full:
  assumes "length l = 81" and "CHR 0x0A \<notin> set (take 80 l)"
  shows "line_read False (take 80 l) (l[80 := CHR 0x00])"
proof -
  have "take 80 l \<noteq> []"
    using assms(1) by auto
  then have "last (take 80 l) \<in> set (take 80 l)"
    by (rule last_in_set)
  with assms show ?thesis
    by (auto simp: line_read_def LINSIZ_def dest!: in_set_butlastD)
qed

lemma mon_getline_loop_spec:
  assumes "mon_getline_loop cs i l out = Some (ok, l', rest, out')" and "length l = 81"
    and "i \<le> 80" and "CHR 0x0A \<notin> set (take i l)"
  shows "\<exists>r. cs = r @ rest \<and> out' = out @ map newline_for r \<and>
    line_read ok (take i l @ map newline_for r) l'"
  using assms
proof (induction cs arbitrary: i l out)
  case Nil
  then have "i = 80" and "ok = False" "l' = l[i := CHR 0x00]" "rest = []" "out' = out"
    by (auto simp: LINSIZ_def split: if_splits)
  with Nil.prems line_read_full [of l] show ?case by simp
next
  case (Cons c0 cs)
  show ?case
  proof (cases "i < 80")
    case False
    with Cons.prems have "i = 80" and "ok = False" "l' = l[i := CHR 0x00]" "rest = c0 # cs" "out' = out"
      by (auto simp: LINSIZ_def split: if_splits)
    with Cons.prems line_read_full [of l] show ?thesis by simp
  next
    case True
    let ?c = "newline_for c0"
    have t: "take (Suc i) (l[i := ?c]) = take i l @ [?c]"
      using True Cons.prems(2) by (simp add: take_Suc_conv_app_nth)
    show ?thesis
    proof (cases "?c = CHR 0x0A")
      case nl: True
      then have e: "ok = True" "l' = (l[i := ?c])[Suc i := CHR 0x00]" "rest = cs" "out' = out @ [?c]"
        using Cons.prems(1) True by (auto simp: LINSIZ_def newline_for_def Let_def split: if_splits)
      have "line_read True (take i l @ [?c]) l'"
        using nl True Cons.prems(2,4) t by (simp add: e line_read_def LINSIZ_def butlast_append)
      then show ?thesis
        by (intro exI [of _ "[c0]"]) (simp add: e)
    next
      case False
      then have rec: "mon_getline_loop cs (Suc i) (l[i := ?c]) (out @ [?c]) = Some (ok, l', rest, out')"
        using Cons.prems(1) True by (auto simp: LINSIZ_def newline_for_def Let_def split: if_splits)
      have "CHR 0x0A \<notin> set (take (Suc i) (l[i := ?c]))"
        unfolding t using False Cons.prems(4) by auto
      from Cons.IH [OF rec _ _ this] True Cons.prems(2) obtain r where
        "cs = r @ rest" "out' = (out @ [?c]) @ map newline_for r"
        "line_read ok (take (Suc i) (l[i := ?c]) @ map newline_for r) l'"
        by auto
      then show ?thesis
        unfolding t by (intro exI [of _ "c0 # r"]) simp
    qed
  qed
qed

lemma mon_getline_spec:
  assumes "mon_getline s = Some (ok, s1)" and "length (linbuf s) = 81"
  shows "\<exists>r. mon_in s = r @ mon_in s1 \<and> r \<noteq> [] \<and> mon_out s1 = mon_out s @ map newline_for r \<and>
    line_read ok (map newline_for r) (linbuf s1) \<and>
    s1 = s\<lparr>linbuf := linbuf s1, mon_in := mon_in s1, mon_out := mon_out s1\<rparr>"
proof -
  obtain l rest out where g: "mon_getline_loop (mon_in s) 0 (linbuf s) (mon_out s) = Some (ok, l, rest, out)"
    and s1: "s1 = s\<lparr>linbuf := l, mon_in := rest, mon_out := out\<rparr>"
    using assms(1) by (auto simp: mon_getline_def split: option.splits)
  from mon_getline_loop_spec [OF g assms(2)] obtain r where r: "mon_in s = r @ rest"
    "out = mon_out s @ map newline_for r" "line_read ok (map newline_for r) l"
    by auto
  moreover have "r \<noteq> []"
    using r(3) by (auto simp: line_read_def LINSIZ_def)
  ultimately show ?thesis
    by (auto simp: s1)
qed


section \<open>The monitor stays inside its buffer\<close>

lemma hexnum_fields:
  "hexnum c s = (d, s1) \<Longrightarrow> linbuf s1 = linbuf s \<and> mon_in s1 = mon_in s \<and> mon_mem s1 = mon_mem s \<and>
     called s1 = called s \<and> d < 16 \<and> (0 \<le> d \<longrightarrow> s1 = s)"
  by (auto simp: hexnum_def mon_putstr_eq mon_putchr_def uchar_def split: if_splits)

lemma doload_loop_some:
  "i \<le> k \<Longrightarrow> k < length (linbuf s) \<Longrightarrow> linbuf s ! k = CHR 0x0A \<Longrightarrow>
     doload_loop st i n a s \<noteq> None"
proof (induction st i n a s rule: doload_loop.induct)
  case (1 st i n a s)
  show ?case
  proof (cases "linbuf s ! i = CHR 0x0A")
    case True
    with "1.prems" show ?thesis by (simp add: doload_loop.simps [of st i n a s])
  next
    case False
    obtain d s1 where h: "hexnum (linbuf s ! i) s = (d, s1)" by fastforce
    note f = hexnum_fields [OF h]
    have k: "Suc i \<le> k" "\<not> length (linbuf s) \<le> i"
      using False "1.prems" by (auto simp: le_less Suc_le_eq)
    show ?thesis
      using False k h f "1.prems" "1.IH" [OF _ refl refl False h [symmetric] refl]
      by (auto simp: doload_loop.simps [of st i n a s] Let_def)
  qed
qed

lemma doload_loop_fields:
  "doload_loop st i n a s = Some s2 \<Longrightarrow>
     mon_in s2 = mon_in s \<and> linbuf s2 = linbuf s \<and> called s2 = called s"
proof (induction st i n a s rule: doload_loop.induct)
  case (1 st i n a s)
  show ?case
  proof (cases "i < length (linbuf s) \<and> linbuf s ! i \<noteq> CHR 0x0A")
    case False
    with "1.prems" show ?thesis
      by (auto simp: doload_loop.simps [of st i n a s] noaddr_def mon_putstr_eq split: if_splits)
  next
    case True
    obtain d s1 where h: "hexnum (linbuf s ! i) s = (d, s1)" by fastforce
    note f = hexnum_fields [OF h]
    have i: "\<not> length (linbuf s) \<le> i" and nl: "linbuf s ! i \<noteq> CHR 0x0A"
      using True by auto
    note IH = "1.IH" [OF i refl refl nl h [symmetric] refl]
    consider "d < 0" | "0 \<le> d" "Suc i < 8" | "0 \<le> d" "\<not> Suc i < 8" "n" | "0 \<le> d" "\<not> Suc i < 8" "\<not> n"
      by linarith
    then show ?thesis
      using i nl h f IH "1.prems" [unfolded doload_loop.simps [of st i n a s]]
      by cases (auto simp: Let_def)
  qed
qed

lemma dogo_loop_fields:
  "mon_in (dogo_loop i a s) = mon_in s \<and> linbuf (dogo_loop i a s) = linbuf s \<and>
     mon_mem (dogo_loop i a s) = mon_mem s"
proof (induction i a s rule: dogo_loop.induct)
  case (1 i a s)
  obtain d s1 where h: "hexnum (linbuf s ! i) s = (d, s1)" by fastforce
  note f = hexnum_fields [OF h]
  show ?case
    using f h "1.IH" [OF refl refl _ _ h [symmetric] refl]
    by (auto simp: dogo_loop.simps [of i a s] Let_def noaddr_def announce_jump_def dspbyte_def
        mon_putstr_eq mon_putchr_def)
qed

lemma obey_fields:
  "obey st ok s = Some s2 \<Longrightarrow> mon_in s2 = mon_in s \<and> linbuf s2 = linbuf s"
  using dogo_loop_fields
  by (auto simp: obey_def doload_def dogo_def Let_def mon_putstr_eq split: if_splits
      dest: doload_loop_fields)

lemma mon_getline_loop_rest:
  "mon_getline_loop cs i l out = Some (ok, l', rest, out') \<Longrightarrow>
     length rest < length cs \<or> rest = cs \<and> LINSIZ - 1 \<le> i"
  by (induction cs i l out rule: mon_getline_loop.induct) (auto simp: Let_def split: if_splits)

lemma mon_getline_shorter: "mon_getline s = Some (ok, s1) \<Longrightarrow> length (mon_in s1) < length (mon_in s)"
  by (auto simp: mon_getline_def LINSIZ_def split: option.splits dest: mon_getline_loop_rest)

termination mon_loop
  by (relation "measure (\<lambda>(st, s). length (mon_in s))")
    (auto dest!: mon_getline_shorter obey_fields)

declare mon_loop.simps [simp del]

definition monitor_main :: "store \<Rightarrow> monitor \<Rightarrow> monitor option" where
  "monitor_main st s = mon_loop st (mon_putstr inimsg s)"

lemma obey_some:
  assumes "line_read ok t (linbuf s)"
  shows "obey st ok s \<noteq> None"
proof (cases ok)
  case True
  let ?s1 = "s\<lparr>toggled := toggled s + 1, ledsw := toggled s + 1\<rparr>"
  have t: "t \<noteq> []" "last t = CHR 0x0A" "length t \<le> 80" "take (length t) (linbuf s) = t"
    "length (linbuf s) = 81"
    using assms True by (simp_all add: line_read_def LINSIZ_def)
  then have nl: "linbuf s ! (length t - 1) = CHR 0x0A"
    by (metis diff_less last_conv_nth length_greater_0_conv nth_take zero_less_one)
  show ?thesis
  proof (cases "length t = 1")
    case True
    with nl show ?thesis by (simp add: obey_def Let_def)
  next
    case False
    then have "1 \<le> length t - 1"
      using t(1) by (cases t) (auto simp: Suc_le_eq)
    then have "doload st ?s1 \<noteq> None"
      unfolding doload_def using nl t by (intro doload_loop_some [of 1 "length t - 1"]) simp_all
    then show ?thesis by (auto simp: obey_def Let_def)
  qed
qed (simp add: obey_def)

lemma mon_loop_some: "length (linbuf s) = 81 \<Longrightarrow> mon_loop st s \<noteq> None"
proof (induction st s rule: mon_loop.induct)
  case (1 st s)
  show ?case
  proof (cases "called s = None \<and> mon_getline s \<noteq> None")
    case False
    then show ?thesis by (auto simp: mon_loop.simps [of st s] split: option.splits)
  next
    case True
    then obtain ok s1 where g: "mon_getline s = Some (ok, s1)" by auto
    obtain r where "line_read ok (map newline_for r) (linbuf s1)"
      using mon_getline_spec [OF g "1.prems"] by blast
    from obey_some [OF this, of st] obtain s2 where o: "obey st ok s1 = Some s2" by auto
    have "length (linbuf s2) = 81"
      using obey_fields [OF o] \<open>line_read ok _ _\<close> by (simp add: line_read_def LINSIZ_def)
    with "1.IH" [OF _ g refl o] True g o show ?thesis
      by (simp add: mon_loop.simps [of st s])
  qed
qed


section \<open>A load line is obeyed\<close>

lemma hexnum_hexdigit: "d < 16 \<Longrightarrow> hexnum (hexdigit d) s = (int d, s)"
  by (erule nat_less_16_cases) (simp_all add: hexdigit_def hexnum_def uchar_def)

lemma hexdigit_not_newline: "d < 16 \<Longrightarrow> hexdigit d \<noteq> CHR 0x0A \<and> hexdigit d \<noteq> CHR 0x0D"
  by (erule nat_less_16_cases) (simp_all add: hexdigit_def char_of_def)

lemma take_drop_Suc:
  assumes "take (Suc w) (drop i l) = c # t" and "length t = w"
  shows "l ! i = c" and "take w (drop (Suc i) l) = t" and "i < length l"
proof -
  show i: "i < length l"
    using assms(1) by (metis drop_eq_Nil list.distinct(1) not_less take_Nil)
  then have "drop i l = l ! i # drop (Suc i) l"
    by (simp add: Cons_nth_drop_Suc)
  with assms(1) show "l ! i = c" "take w (drop (Suc i) l) = t"
    by simp_all
qed

lemma doload_address:
  "take w (drop i (linbuf s)) = hexpad w n \<Longrightarrow> i + w \<le> 7 \<Longrightarrow>
     doload_loop st i False v s = doload_loop st (i + w) False (v * 16 ^ w + of_nat (n mod 16 ^ w)) s"
proof (induction w arbitrary: i v)
  case (Suc w)
  let ?k = "n div 16 ^ w mod 16"
  note t = take_drop_Suc [OF Suc.prems(1) [unfolded hexpad.simps] length_hexpad]
  have n: "n mod 16 ^ Suc w = ?k * 16 ^ w + n mod 16 ^ w"
    using mod_mult2_eq [of n "16 ^ w" 16] by (simp add: mult.commute)
  have "doload_loop st i False v s = doload_loop st (Suc i) False (16 * v + of_nat ?k) s"
    using t Suc.prems(2) hexdigit_not_newline [of ?k]
    by (simp add: doload_loop.simps [of st i] Let_def hexnum_hexdigit nibble_shift)
  also have "\<dots> = doload_loop st (Suc i + w) False
      ((16 * v + of_nat ?k) * 16 ^ w + of_nat (n mod 16 ^ w)) s"
    by (rule Suc.IH) (use t Suc.prems(2) in simp_all)
  also have "(16 * v + of_nat ?k) * 16 ^ w + of_nat (n mod 16 ^ w) =
      v * 16 ^ Suc w + (of_nat (n mod 16 ^ Suc w) :: i24)"
    unfolding n by (simp add: algebra_simps)
  finally show ?case by simp
qed simp

context ram_memory
begin

lemma store_twice: "st (st m a x) a y = st m a y"
proof
  fix z
  show "st (st m a x) a y z = st m a y z"
    by (cases "z = a") (simp_all add: store_same store_other)
qed

lemma doload_byte:
  assumes "take 2 (drop i (linbuf s)) = hexpad 2 (unat b)" and "7 \<le> i"
  shows "doload_loop st i False a s =
    doload_loop st (i + 2) False (a + 1) (s\<lparr>mon_mem := st (mon_mem s) a b\<rparr>)"
proof -
  let ?hi = "unat b div 16 mod 16" and ?lo = "unat b mod 16"
  have h: "hexpad 2 (unat b) = [hexdigit ?hi, hexdigit ?lo]"
    by (simp add: numeral_2_eq_2)
  note t1 = take_drop_Suc [of 1 i "linbuf s" "hexdigit ?hi" "[hexdigit ?lo]"]
  have s: "Suc 1 = (2 :: nat)" by simp
  have c: "linbuf s ! i = hexdigit ?hi" "linbuf s ! Suc i = hexdigit ?lo"
    "i < length (linbuf s)" "Suc i < length (linbuf s)"
    using assms(1) t1 take_drop_Suc [of 0 "Suc i" "linbuf s" "hexdigit ?lo" "[]"]
    unfolding h s by simp_all
  define hi where "hi = (word_of_int (int ?hi) :: u8)"
  let ?s1 = "s\<lparr>mon_mem := st (mon_mem s) a (push_bit 4 hi)\<rparr>"
  have "doload_loop st i False a s = doload_loop st (Suc i) True a ?s1"
    using c assms(2) hexdigit_not_newline [of ?hi]
    by (simp add: doload_loop.simps [of st i] Let_def hexnum_hexdigit hi_def)
  also have "\<dots> = doload_loop st (i + 2) False (a + 1)
      (s\<lparr>mon_mem := st (mon_mem s) a (word_of_int (int ?lo) OR push_bit 4 hi)\<rparr>)"
    using c assms(2) hexdigit_not_newline [of ?lo]
    by (simp add: doload_loop.simps [of st "Suc i"] Let_def hexnum_hexdigit store_same store_twice)
  also have "word_of_int (int ?lo) OR push_bit 4 hi = b"
  proof -
    have "?hi = unat b div 16"
      using byte_less [of b] by (simp add: less_mult_imp_div_less)
    moreover have "push_bit 4 hi OR of_nat ?lo = 16 * hi + of_nat ?lo"
      by (rule nibble_shift) simp
    ultimately have "word_of_int (int ?lo) OR push_bit 4 hi =
        16 * of_nat (unat b div 16) + (of_nat ?lo :: u8)"
      by (simp add: hi_def or.commute)
    also have "\<dots> = of_nat (16 * (unat b div 16) + ?lo)"
      by (simp only: of_nat_add of_nat_mult of_nat_numeral)
    finally show ?thesis
      by (simp only: mult_div_mod_eq) simp
  qed
  finally show ?thesis .
qed

lemma doload_bytes:
  "take (2 * length bs) (drop i (linbuf s)) = bytes_text bs \<Longrightarrow> 7 \<le> i \<Longrightarrow>
     doload_loop st i False a s = doload_loop st (i + 2 * length bs) False (a + of_nat (length bs))
       (s\<lparr>mon_mem := store_bytes st a bs (mon_mem s)\<rparr>)"
proof (induction bs arbitrary: i a s)
  case (Cons b bs)
  have e: "bytes_text (b # bs) = hexpad 2 (unat b) @ bytes_text bs" "2 * length (b # bs) = 2 + 2 * length bs"
    by (simp_all add: bytes_text_def)
  have split: "take 2 (drop i (linbuf s)) @ take (2 * length bs) (drop (i + 2) (linbuf s)) =
      hexpad 2 (unat b) @ bytes_text bs"
    using Cons.prems(1) unfolding e take_add by (simp add: add.commute)
  moreover have "length (take 2 (drop i (linbuf s))) = 2"
    using arg_cong [OF Cons.prems(1), of length] by simp
  ultimately have t: "take 2 (drop i (linbuf s)) = hexpad 2 (unat b)"
    "take (2 * length bs) (drop (i + 2) (linbuf s)) = bytes_text bs"
    by (simp_all add: append_eq_append_conv)
  show ?case
    unfolding doload_byte [OF t(1) Cons.prems(2)]
    using Cons.IH [of "i + 2" "s\<lparr>mon_mem := st (mon_mem s) a b\<rparr>" "a + 1"] t(2) Cons.prems(2)
    by (simp add: algebra_simps)
qed simp

end


text \<open>The load line of an address and its bytes, as the images and \<open>te2.lgo\<close> have them.\<close>

definition load_line :: "i24 \<Rightarrow> u8 list \<Rightarrow> string" where
  "load_line a bs = CHR ''L'' # hexpad 6 (unat a) @ bytes_text bs"

definition call_line :: "i24 \<Rightarrow> string" where
  "call_line a = CHR ''G'' # hexpad 6 (unat a)"

lemma length_load_line [simp]: "length (load_line a bs) = 7 + 2 * length bs"
  by (simp add: load_line_def)

definition mon_plain :: "string \<Rightarrow> bool" where
  "mon_plain t \<longleftrightarrow> CHR 0x0A \<notin> set t \<and> CHR 0x0D \<notin> set t"

lemma mon_plain_hexpad: "mon_plain (hexpad w n)"
  using hexdigit_not_newline by (induction w) (auto simp: mon_plain_def dest: sym)

lemma mon_plain_lines: "mon_plain (load_line a bs)" "mon_plain (call_line a)"
proof -
  have "mon_plain (bytes_text bs)"
    using mon_plain_hexpad by (induction bs) (auto simp: bytes_text_def mon_plain_def)
  then show "mon_plain (load_line a bs)" "mon_plain (call_line a)"
    using mon_plain_hexpad by (auto simp: load_line_def call_line_def mon_plain_def)
qed

lemma mon_getline_loop_plain:
  assumes "mon_plain t" and "i + length t < 80" and "length l = 81"
  shows "mon_getline_loop (t @ CHR 0x0A # rest) i l out =
    Some (True, take i l @ t @ CHR 0x0A # CHR 0x00 # drop (i + length t + 2) l, rest, out @ t @ [CHR 0x0A])"
  using assms
proof (induction t arbitrary: i l out)
  case Nil
  then have "l[i := CHR 0x0A, Suc i := CHR 0x00] = take i l @ CHR 0x0A # CHR 0x00 # drop (i + 2) l"
    by (simp add: upd_conv_take_nth_drop take_Suc_conv_app_nth nth_append)
  with Nil show ?case by (simp add: LINSIZ_def Let_def)
next
  case (Cons c t)
  have u: "take (Suc i) (l[i := c]) = take i l @ [c]"
    using Cons.prems(2,3) by (simp add: take_Suc_conv_app_nth)
  have d: "drop (Suc i + length t + 2) (l[i := c]) = drop (i + length (c # t) + 2) l"
    by simp
  have "mon_getline_loop ((c # t) @ CHR 0x0A # rest) i l out =
      mon_getline_loop (t @ CHR 0x0A # rest) (Suc i) (l[i := c]) (out @ [c])"
    using Cons.prems by (auto simp: mon_plain_def LINSIZ_def Let_def)
  also have "\<dots> = Some (True, take (Suc i) (l[i := c]) @ t @ CHR 0x0A # CHR 0x00 #
      drop (Suc i + length t + 2) (l[i := c]), rest, (out @ [c]) @ t @ [CHR 0x0A])"
    by (rule Cons.IH) (use Cons.prems in \<open>auto simp: mon_plain_def\<close>)
  finally show ?case
    unfolding u d by simp
qed

text \<open>One turn of the monitor's loop.\<close>

definition mon_turn :: "store \<Rightarrow> monitor \<Rightarrow> monitor option" where
  "mon_turn st s = (case mon_getline s of None \<Rightarrow> Some s | Some (ok, s1) \<Rightarrow> obey st ok s1)"

lemma mon_turn_plain:
  assumes "mon_plain t" and "length t < 80" and "length (linbuf s) = 81"
    and "mon_in s = t @ CHR 0x0A # rest"
  shows "mon_turn st s = obey st True (s\<lparr>linbuf := t @ CHR 0x0A # CHR 0x00 # drop (length t + 2) (linbuf s),
    mon_in := rest, mon_out := mon_out s @ t @ [CHR 0x0A]\<rparr>)"
  using mon_getline_loop_plain [OF assms(1), of 0 "linbuf s" rest "mon_out s"] assms(2-4)
  by (simp add: mon_turn_def mon_getline_def)


context ram_memory
begin

lemma load_line_obeyed:
  assumes "bs \<noteq> []" and "length bs \<le> 36" and "length (linbuf s) = 81"
    and "mon_in s = load_line a bs @ CHR 0x0A # rest"
  shows "\<exists>l. mon_turn st s = Some (s\<lparr>linbuf := l, mon_in := rest,
      mon_out := mon_out s @ load_line a bs @ [CHR 0x0A],
      toggled := toggled s + 1, ledsw := toggled s + 1,
      mon_mem := store_bytes st a bs (mon_mem s)\<rparr>)"
proof -
  let ?t = "load_line a bs"
  let ?l = "?t @ CHR 0x0A # CHR 0x00 # drop (length ?t + 2) (linbuf s)"
  let ?s1 = "s\<lparr>linbuf := ?l, mon_in := rest, mon_out := mon_out s @ ?t @ [CHR 0x0A],
    toggled := toggled s + 1, ledsw := toggled s + 1\<rparr>"
  have c: "?l ! 0 = CHR ''L''"
    by (simp add: load_line_def)
  have "mon_turn st s = doload st ?s1"
    using assms(2) c mon_turn_plain [OF mon_plain_lines(1) _ assms(3,4)] by (simp add: obey_def Let_def)
  also have "\<dots> = doload_loop st 7 False a ?s1"
  proof -
    have "unat a mod 16 ^ 6 = unat a"
      by simp
    moreover have "take 6 (drop 1 (linbuf ?s1)) = hexpad 6 (unat a)"
      by (simp add: load_line_def)
    ultimately show ?thesis
      unfolding doload_def by (subst doload_address [where w = 6 and n = "unat a"]) simp_all
  qed
  also have "\<dots> = doload_loop st (7 + 2 * length bs) False (a + of_nat (length bs))
      (?s1\<lparr>mon_mem := store_bytes st a bs (mon_mem ?s1)\<rparr>)"
    by (rule doload_bytes) (simp_all add: load_line_def)
  also have "\<dots> = Some (?s1\<lparr>mon_mem := store_bytes st a bs (mon_mem ?s1)\<rparr>)"
  proof -
    have "?l ! (7 + 2 * length bs) = CHR 0x0A" "7 + 2 * length bs < length ?l"
      by (simp_all add: nth_append)
    moreover have "\<not> Suc (7 + 2 * length bs) < 10"
      using assms(1) by (cases bs) simp_all
    ultimately show ?thesis
      by (subst doload_loop.simps) (simp add: Let_def)
  qed
  finally show ?thesis
    by (intro exI [of _ ?l]) simp
qed

end

lemma dogo_address:
  "take w (drop i (linbuf s)) = hexpad w n \<Longrightarrow> i + w \<le> 7 \<Longrightarrow>
     dogo_loop i v s = dogo_loop (i + w) (v * 16 ^ w + of_nat (n mod 16 ^ w)) s"
proof (induction w arbitrary: i v)
  case (Suc w)
  let ?k = "n div 16 ^ w mod 16"
  note t = take_drop_Suc [OF Suc.prems(1) [unfolded hexpad.simps] length_hexpad]
  have n: "n mod 16 ^ Suc w = ?k * 16 ^ w + n mod 16 ^ w"
    using mod_mult2_eq [of n "16 ^ w" 16] by (simp add: mult.commute)
  have "dogo_loop i v s = dogo_loop (Suc i) (16 * v + of_nat ?k) s"
    using t Suc.prems(2) hexdigit_not_newline [of ?k]
    by (simp add: dogo_loop.simps [of i] Let_def hexnum_hexdigit nibble_shift)
  also have "\<dots> = dogo_loop (Suc i + w) ((16 * v + of_nat ?k) * 16 ^ w + of_nat (n mod 16 ^ w)) s"
    by (rule Suc.IH) (use t Suc.prems(2) in simp_all)
  also have "(16 * v + of_nat ?k) * 16 ^ w + of_nat (n mod 16 ^ w) =
      v * 16 ^ Suc w + (of_nat (n mod 16 ^ Suc w) :: i24)"
    unfolding n by (simp add: algebra_simps)
  finally show ?case by simp
qed simp

lemma hextab_hexdigit: "d < 16 \<Longrightarrow> hextab ! d = hexdigit d"
  by (erule nat_less_16_cases) (simp_all only:, code_simp+)

lemma dspbyte_out: "dspbyte b s = s\<lparr>mon_out := mon_out s @ hexpad 2 (unat b)\<rparr>"
proof -
  have u: "unat (take_bit 8 (scast b :: i24)) = unat b"
    by (simp add: byte_sign)
  have "unat (signed_drop_bit (4 * d) (scast b :: i24) AND 15) = unat b div 16 ^ d mod 16" if "d < 2" for d
  proof -
    have "unat (signed_drop_bit (4 * d) (scast b :: i24) AND 15) =
        unat (signed_drop_bit (4 * d) (take_bit 8 (scast b :: i24)) AND 15)"
      using that by (intro arg_cong [where f = unat] bit_word_eqI) (auto simp: arith24 bit_simps)
    also have "\<dots> = unat b div 16 ^ d mod 16"
      using that by (subst unat_nibble) (simp_all add: u)
    finally show ?thesis .
  qed
  from this [of 0] this [of 1] show ?thesis
    by (simp add: dspbyte_def mon_putchr_def hextab_hexdigit numeral_2_eq_2)
qed

lemma unat_int_byte: "k < 3 \<Longrightarrow> unat (int_byte a k) = unat a div 256 ^ k mod 256"
proof -
  assume "k < 3"
  have "unat (int_byte a k) = take_bit 8 (drop_bit (8 * k) (unat a))"
    by (simp add: int_byte_def unsigned_ucast_eq unat_drop_bit_eq)
  then show ?thesis
    by (simp add: take_bit_eq_mod drop_bit_eq_div power_mult)
qed

lemma announce_jump_out:
  "announce_jump a s = s\<lparr>mon_out := mon_out s @ jmpmsg @ hexpad 6 (unat a) @ [CHR 0x0A]\<rparr>"
proof -
  have byte: "hexpad 2 (n mod 256) = hexpad 2 n" for n
    using hexpad_mod [of 2 n] by simp
  have "hexpad (2 + (2 + 2)) (unat a) =
      hexpad 2 (unat a div 16 ^ (2 + 2)) @ hexpad 2 (unat a div 16 ^ 2) @ hexpad 2 (unat a)"
    by (simp only: hexpad_split)
  then have "hexpad 6 (unat a) = hexpad 2 (unat (int_byte a 2)) @ hexpad 2 (unat (int_byte a 1)) @
      hexpad 2 (unat (int_byte a 0))"
    by (simp add: unat_int_byte byte del: hexpad.simps)
  then show ?thesis
    by (simp add: announce_jump_def mon_putchr_def mon_putstr_eq dspbyte_out jmpmsg_def
        del: hexpad.simps)
qed

lemma call_line_obeyed:
  assumes "length (linbuf s) = 81" and "mon_in s = call_line a @ CHR 0x0A # rest"
  shows "\<exists>l. mon_turn st s = Some (s\<lparr>linbuf := l, mon_in := rest,
      mon_out := mon_out s @ call_line a @ CHR 0x0A # jmpmsg @ hexpad 6 (unat a) @ [CHR 0x0A],
      toggled := toggled s + 1, ledsw := toggled s + 1, called := Some a\<rparr>)"
proof -
  let ?t = "call_line a"
  let ?l = "?t @ CHR 0x0A # CHR 0x00 # drop (length ?t + 2) (linbuf s)"
  let ?s1 = "s\<lparr>linbuf := ?l, mon_in := rest, mon_out := mon_out s @ ?t @ [CHR 0x0A],
    toggled := toggled s + 1, ledsw := toggled s + 1\<rparr>"
  have c: "?l ! 0 = CHR ''G''" and len: "length ?t = 7"
    by (simp_all add: call_line_def)
  have "mon_turn st s = Some (dogo ?s1)"
    using c len mon_turn_plain [OF mon_plain_lines(2) _ assms] by (simp add: obey_def Let_def)
  also have "dogo ?s1 = dogo_loop 7 a ?s1"
  proof -
    have "unat a mod 16 ^ 6 = unat a"
      by simp
    moreover have "take 6 (drop 1 (linbuf ?s1)) = hexpad 6 (unat a)"
      by (simp add: call_line_def)
    ultimately show ?thesis
      unfolding dogo_def by (subst dogo_address [where w = 6 and n = "unat a"]) simp_all
  qed
  also have "\<dots> = (announce_jump a ?s1)\<lparr>called := Some a\<rparr>"
    using len by (subst dogo_loop.simps) (simp add: Let_def nth_append)
  finally show ?thesis
    by (intro exI [of _ ?l]) (simp add: announce_jump_out)
qed


section \<open>A whole image\<close>

lemma mon_loop_turn:
  "called s = None \<Longrightarrow> mon_getline s \<noteq> None \<Longrightarrow> mon_turn st s = Some s' \<Longrightarrow>
     mon_loop st s = mon_loop st s'"
  by (auto simp: mon_turn_def mon_loop.simps [of st s])

lemma mon_getline_plain:
  "mon_plain t \<Longrightarrow> length t < 80 \<Longrightarrow> length (linbuf s) = 81 \<Longrightarrow> mon_in s = t @ CHR 0x0A # rest \<Longrightarrow>
     mon_getline s \<noteq> None"
  using mon_getline_loop_plain [of t 0 "linbuf s" rest "mon_out s"] by (simp add: mon_getline_def)

lemma mon_turn_length:
  "length (linbuf s) = 81 \<Longrightarrow> mon_turn st s = Some s' \<Longrightarrow> length (linbuf s') = 81"
  by (auto simp: mon_turn_def line_read_def LINSIZ_def split: option.splits
      dest!: mon_getline_spec obey_fields)

context ram_memory
begin

lemma mon_loop_image:
  assumes "\<forall>(a, bs) \<in> set rs. bs \<noteq> [] \<and> length bs \<le> 36" and "length (linbuf s) = 81"
    and "called s = None" and "mon_in s = wire (map (\<lambda>(a, bs). load_line a bs) rs @ [call_line e])"
  shows "\<exists>s'. mon_loop st s = Some s' \<and> mon_mem s' = image_of st rs (mon_mem s) \<and>
    called s' = Some e \<and> mon_out s' = mon_out s @ mon_in s @ jmpmsg @ hexpad 6 (unat e) @ [CHR 0x0A]"
  using assms
proof (induction rs arbitrary: s)
  case Nil
  then have i: "mon_in s = call_line e @ CHR 0x0A # []"
    by (simp add: wire_def)
  obtain s' where s': "mon_turn st s = Some s'" "mon_mem s' = mon_mem s" "called s' = Some e"
    "mon_out s' = mon_out s @ mon_in s @ jmpmsg @ hexpad 6 (unat e) @ [CHR 0x0A]"
    using call_line_obeyed [OF Nil.prems(2) i, of st] i by auto
  have "mon_loop st s = mon_loop st s'"
    using mon_getline_plain [OF mon_plain_lines(2) _ Nil.prems(2) i] s'(1)
    by (intro mon_loop_turn [OF Nil.prems(3)]) (simp_all add: call_line_def)
  with s' show ?case
    by (simp add: mon_loop.simps [of st s'])
next
  case (Cons r rs)
  obtain a bs where r: "r = (a, bs)" by fastforce
  define rest where "rest = wire (map (\<lambda>(a, bs). load_line a bs) rs @ [call_line e])"
  have i: "mon_in s = load_line a bs @ CHR 0x0A # rest"
    using Cons.prems(4) by (simp add: r wire_def rest_def)
  have bs: "bs \<noteq> []" "length bs \<le> 36"
    using Cons.prems(1) by (simp_all add: r)
  obtain s1 where s1: "mon_turn st s = Some s1" "mon_mem s1 = store_bytes st a bs (mon_mem s)"
    "mon_in s1 = rest" "called s1 = None"
    "mon_out s1 = mon_out s @ load_line a bs @ [CHR 0x0A]"
    using load_line_obeyed [OF bs Cons.prems(2) i] Cons.prems(3) by auto
  have "mon_loop st s = mon_loop st s1"
    using mon_getline_plain [OF mon_plain_lines(1) _ Cons.prems(2) i] bs s1(1)
    by (intro mon_loop_turn [OF Cons.prems(3)]) simp_all
  moreover obtain s' where "mon_loop st s1 = Some s'" "mon_mem s' = image_of st rs (mon_mem s1)"
    "called s' = Some e" "mon_out s' = mon_out s1 @ mon_in s1 @ jmpmsg @ hexpad 6 (unat e) @ [CHR 0x0A]"
    using Cons.IH [of s1] Cons.prems(1) mon_turn_length [OF Cons.prems(2) s1(1)] s1(3,4)
    by (auto simp: rest_def)
  ultimately show ?case
    using s1 i by (auto simp: r)
qed

end

section \<open>Properties\<close>

text \<open>The monitor at reset.\<close>

definition mon_boot :: "string \<Rightarrow> monitor" where
  "mon_boot input = \<lparr>linbuf = replicate LINSIZ (CHR 0x00), toggled = 0xff, ledsw = 0,
     mon_mem = (\<lambda>_. 0), mon_in = input, mon_out = [], called = None\<rparr>"



text \<open>The monitor echoes exactly what it stores: the text echoed while a line is read is the
  line in the buffer, followed there by a NUL.\<close>

lemma monitor_echoes:
  assumes "mon_getline s = Some (ok, s1)" and "length (linbuf s) = LINSIZ"
  shows "\<exists>t. mon_out s1 = mon_out s @ t \<and> take (length t) (linbuf s1) = t \<and>
    linbuf s1 ! length t = CHR 0x00 \<and> length (mon_in s) = length t + length (mon_in s1) \<and>
    (ok \<longleftrightarrow> last t = CHR 0x0A) \<and> mon_mem s1 = mon_mem s"
proof -
  obtain r where r: "mon_in s = r @ mon_in s1" "r \<noteq> []" "mon_out s1 = mon_out s @ map newline_for r"
    "line_read ok (map newline_for r) (linbuf s1)"
    "s1 = s\<lparr>linbuf := linbuf s1, mon_in := mon_in s1, mon_out := mon_out s1\<rparr>"
    using mon_getline_spec [OF assms(1)] assms(2) unfolding LINSIZ_def by blast
  have "length (mon_in s) = length r + length (mon_in s1)"
    unfolding r(1) by simp
  moreover have "mon_mem s1 = mon_mem s"
    using arg_cong [OF r(5), of mon_mem] by simp
  ultimately show ?thesis
    using r(2-4) by (intro exI [of _ "map newline_for r"]) (simp add: line_read_def)
qed



end
