(* ===== verification/Uart_Ring.thy ===== *)
theory Uart_Ring
  imports Prelude
begin

text \<open>
  The interrupt-driven echo, \<open>reference/uartcint.c\<close>: the interrupt service routine puts
  received characters into a circular buffer, \<open>main\<close> takes them out and echoes them.

  The interrupt may come between any two steps of \<open>main\<close>: \<open>main\<close> is a step function with a
  program counter, one step for each access to the shared variables, and \<open>step\<close> interleaves
  it with the service routine.  \<open>incoming\<close> are the characters the UART has received or will
  receive; the UART holds a character until it is read.  The indices stay below 16, so their
  24-bit arithmetic does not wrap around.
\<close>

section \<open>The circular buffer\<close>

record ring =
  cbuf :: string
  ridx :: nat
  widx :: nat

definition BUFSZ :: nat where "BUFSZ = 16"

definition ring_full :: "'a ring_scheme \<Rightarrow> bool" where
  "ring_full r \<longleftrightarrow> (widx r + 1) mod BUFSZ = ridx r"

definition ring_put :: "char \<Rightarrow> 'a ring_scheme \<Rightarrow> 'a ring_scheme" where
  "ring_put c r = r\<lparr>cbuf := (cbuf r)[widx r := c], widx := (widx r + 1) mod BUFSZ\<rparr>"

definition ring_empty :: "'a ring_scheme \<Rightarrow> bool" where
  "ring_empty r \<longleftrightarrow> ridx r = widx r"

definition ring_front :: "'a ring_scheme \<Rightarrow> char" where
  "ring_front r = cbuf r ! ridx r"

definition ring_advance :: "'a ring_scheme \<Rightarrow> 'a ring_scheme" where
  "ring_advance r = r\<lparr>ridx := (ridx r + 1) mod BUFSZ\<rparr>"

text \<open>The characters waiting, oldest first.\<close>

definition ring_count :: "'a ring_scheme \<Rightarrow> nat" where
  "ring_count r = (widx r + BUFSZ - ridx r) mod BUFSZ"

definition ring_contents :: "'a ring_scheme \<Rightarrow> string" where
  "ring_contents r = map (\<lambda>i. cbuf r ! ((ridx r + i) mod BUFSZ)) [0..<ring_count r]"

definition ring_inv :: "'a ring_scheme \<Rightarrow> bool" where
  "ring_inv r \<longleftrightarrow> length (cbuf r) = BUFSZ \<and> ridx r < BUFSZ \<and> widx r < BUFSZ"

text \<open>What the two routines rely on: a bounded first-in first-out queue.\<close>

locale bounded_queue =
  fixes inv :: "'q \<Rightarrow> bool"
    and contents :: "'q \<Rightarrow> 'c list"
    and full empty :: "'q \<Rightarrow> bool"
    and put :: "'c \<Rightarrow> 'q \<Rightarrow> 'q"
    and front :: "'q \<Rightarrow> 'c"
    and advance :: "'q \<Rightarrow> 'q"
    and capacity :: nat
  assumes put_inv: "inv q \<Longrightarrow> inv (put c q)"
    and advance_inv: "inv q \<Longrightarrow> inv (advance q)"
    and empty_contents: "inv q \<Longrightarrow> empty q \<longleftrightarrow> contents q = []"
    and put_contents: "inv q \<Longrightarrow> \<not> full q \<Longrightarrow> contents (put c q) = contents q @ [c]"
    and take_contents: "inv q \<Longrightarrow> \<not> empty q \<Longrightarrow> contents q = front q # contents (advance q)"
    and full_contents: "inv q \<Longrightarrow> full q \<longleftrightarrow> length (contents q) = capacity"
begin

text \<open>The front does not change while characters are put behind it.\<close>

lemma front_put: "inv q \<Longrightarrow> \<not> empty q \<Longrightarrow> \<not> full q \<Longrightarrow> front (put c q) = front q"
  by (metis append_Cons append_is_Nil_conv empty_contents list.distinct(1) list.inject
      put_contents put_inv take_contents)

lemma put_not_empty: "inv q \<Longrightarrow> \<not> full q \<Longrightarrow> \<not> empty (put c q)"
  by (simp add: empty_contents put_contents put_inv)

lemma advance_contents: "inv q \<Longrightarrow> \<not> empty q \<Longrightarrow> contents (advance q) = tl (contents q)"
  using take_contents [of q] by simp

lemma capacity_bound: "inv q \<Longrightarrow> \<not> full q \<Longrightarrow> length (contents (put c q)) = Suc (length (contents q))"
  by (simp add: put_contents)

end

text \<open>The index arithmetic, without \<open>mod\<close>.\<close>

lemma ring_index:
  assumes "i < 32"
  shows "i mod 16 = (if i < 16 then i else i - (16 :: nat))"
  using assms by (simp add: mod_if)

lemma ring_count_mod:
  assumes "r < 16" and "w < (16 :: nat)"
  shows "((w + 1) mod 16 + 16 - r) mod 16 = (if (w + 1) mod 16 = r then 0 else Suc ((w + 16 - r) mod 16))"
    and "(r + (w + 16 - r) mod 16) mod 16 = w"
    and "(w + 16 - r) mod 16 = 0 \<longleftrightarrow> r = w"
    and "r \<noteq> w \<Longrightarrow> (w + 16 - r) mod 16 = Suc ((w + 16 - (r + 1) mod 16) mod 16)"
    and "(w + 1) mod 16 = r \<longleftrightarrow> (w + 16 - r) mod 16 = 15"
    and "i < (w + 16 - r) mod 16 \<Longrightarrow> (r + i) mod 16 \<noteq> w"
proof -
  have c: "(w + 16 - r) mod 16 = (if r \<le> w then w - r else w + 16 - r)"
    using assms by (simp add: ring_index)
  have w: "(w + 1) mod 16 = (if w = 15 then 0 else w + 1)" and r: "(r + 1) mod 16 = (if r = 15 then 0 else r + 1)"
    using assms by (simp_all add: ring_index)
  show "((w + 1) mod 16 + 16 - r) mod 16 = (if (w + 1) mod 16 = r then 0 else Suc ((w + 16 - r) mod 16))"
    using assms unfolding c w by (auto simp: ring_index)
  show "(r + (w + 16 - r) mod 16) mod 16 = w"
    using assms unfolding c by (auto simp: ring_index)
  show "(w + 16 - r) mod 16 = 0 \<longleftrightarrow> r = w"
    using assms unfolding c by auto
  show "r \<noteq> w \<Longrightarrow> (w + 16 - r) mod 16 = Suc ((w + 16 - (r + 1) mod 16) mod 16)"
    using assms unfolding c r by (auto simp: ring_index)
  show "(w + 1) mod 16 = r \<longleftrightarrow> (w + 16 - r) mod 16 = 15"
    using assms unfolding c w by auto
  show "i < (w + 16 - r) mod 16 \<Longrightarrow> (r + i) mod 16 \<noteq> w"
    using assms unfolding c by (auto simp: ring_index split: if_splits)
qed

interpretation ring: bounded_queue ring_inv ring_contents ring_full ring_empty ring_put
  ring_front ring_advance 15
proof
  fix q :: "'a ring_scheme" and c
  assume inv: "ring_inv q"
  note i = inv [unfolded ring_inv_def BUFSZ_def]
  note m = ring_count_mod [of "ridx q" "widx q"]
  show "ring_inv (ring_put c q)" "ring_inv (ring_advance q)"
    using i by (simp_all add: ring_inv_def ring_put_def ring_advance_def BUFSZ_def)
  show "ring_empty q \<longleftrightarrow> ring_contents q = []"
    using i m(3) by (simp add: ring_empty_def ring_contents_def ring_count_def BUFSZ_def)
  show "ring_full q \<longleftrightarrow> length (ring_contents q) = 15"
    using i m(5) by (simp add: ring_full_def ring_contents_def ring_count_def BUFSZ_def)
  show "ring_contents (ring_put c q) = ring_contents q @ [c]" if "\<not> ring_full q"
  proof -
    have n: "ring_count (ring_put c q) = Suc (ring_count q)"
      using i m(1) that by (simp add: ring_count_def ring_put_def ring_full_def BUFSZ_def)
    have old: "(cbuf q)[widx q := c] ! ((ridx q + k) mod 16) = cbuf q ! ((ridx q + k) mod 16)"
      if "k < ring_count q" for k
      using i m(6) [of k] that by (simp add: ring_count_def BUFSZ_def)
    have new: "(cbuf q)[widx q := c] ! ((ridx q + ring_count q) mod 16) = c"
      using i m(2) by (simp add: ring_count_def BUFSZ_def)
    show ?thesis
      unfolding ring_contents_def n upt_Suc_append [OF le0] map_append
      using old new by (simp add: ring_put_def BUFSZ_def)
  qed
  show "ring_contents q = ring_front q # ring_contents (ring_advance q)" if "\<not> ring_empty q"
  proof -
    have n: "ring_count q = Suc (ring_count (ring_advance q))"
      using i m(4) that by (simp add: ring_count_def ring_advance_def ring_empty_def BUFSZ_def)
    have "(ridx q + Suc k) mod 16 = ((ridx q + 1) mod 16 + k) mod 16" for k
      by presburger
    then show ?thesis
      unfolding ring_contents_def n upt_conv_Cons [OF zero_less_Suc] list.map
        map_Suc_upt [symmetric] map_map
      using i by (simp add: ring_front_def ring_advance_def BUFSZ_def comp_def)
  qed
qed


section \<open>The echo with its interrupt\<close>

datatype main_pc = Test | Load | Advance char | Emit char | Enable

record echo = ring +
  enab :: bool
  incoming :: string
  echoed :: string
  pc :: main_pc

text \<open>When the buffer is full the character is left in the UART and the interrupt is disabled.\<close>

definition uartcisr :: "echo \<Rightarrow> echo" where
  "uartcisr s =
     (if \<not> ring_full s
      then (case incoming s of [] \<Rightarrow> s | c # cs \<Rightarrow> (ring_put c s)\<lparr>incoming := cs\<rparr>)
      else s\<lparr>enab := False\<rparr>)"

fun main_step :: "echo \<Rightarrow> echo" where
  "main_step s =
     (case pc s of
        Test \<Rightarrow> s\<lparr>pc := (if \<not> ring_empty s then Load else Enable)\<rparr>
      | Load \<Rightarrow> s\<lparr>pc := Advance (ring_front s)\<rparr>
      | Advance c \<Rightarrow> (ring_advance s)\<lparr>pc := Emit c\<rparr>
      | Emit c \<Rightarrow> s\<lparr>echoed := echoed s @ [c], pc := Test\<rparr>
      | Enable \<Rightarrow> s\<lparr>enab := True, pc := Test\<rparr>)"

definition echo_init :: "string \<Rightarrow> string \<Rightarrow> echo" where
  "echo_init buffer cs = \<lparr>cbuf = buffer, ridx = 0, widx = 0, enab = False, incoming = cs, echoed = [], pc = Test\<rparr>"

inductive step :: "echo \<Rightarrow> echo \<Rightarrow> bool" where
  interrupt: "enab s \<Longrightarrow> incoming s \<noteq> [] \<Longrightarrow> step s (uartcisr s)"
| main: "step s (main_step s)"

inductive_cases step_cases: "step s s'"

text \<open>A character read from the buffer is in flight until it is echoed; while \<open>main\<close> holds it
  and has not yet advanced, it is still the front of the queue.\<close>

definition in_flight :: "echo \<Rightarrow> string" where
  "in_flight s = (case pc s of Emit c \<Rightarrow> [c] | _ \<Rightarrow> [])"

definition echo_inv :: "string \<Rightarrow> echo \<Rightarrow> bool" where
  "echo_inv cs s \<longleftrightarrow> ring_inv s \<and> echoed s @ in_flight s @ ring_contents s @ incoming s = cs \<and>
     (pc s = Load \<longrightarrow> \<not> ring_empty s) \<and>
     (\<forall>c. pc s = Advance c \<longrightarrow> \<not> ring_empty s \<and> ring_front s = c)"

lemma ring_field_cong [simp]:
  "ring_inv (s\<lparr>incoming := x\<rparr>) = ring_inv (s :: echo)" "ring_inv (s\<lparr>pc := y\<rparr>) = ring_inv s"
  "ring_inv (s\<lparr>enab := z\<rparr>) = ring_inv s" "ring_inv (s\<lparr>echoed := x\<rparr>) = ring_inv s"
  "ring_contents (s\<lparr>incoming := x\<rparr>) = ring_contents s" "ring_contents (s\<lparr>pc := y\<rparr>) = ring_contents s"
  "ring_contents (s\<lparr>enab := z\<rparr>) = ring_contents s" "ring_contents (s\<lparr>echoed := x\<rparr>) = ring_contents s"
  "ring_empty (s\<lparr>incoming := x\<rparr>) = ring_empty s" "ring_empty (s\<lparr>pc := y\<rparr>) = ring_empty s"
  "ring_empty (s\<lparr>enab := z\<rparr>) = ring_empty s" "ring_empty (s\<lparr>echoed := x\<rparr>) = ring_empty s"
  "ring_front (s\<lparr>incoming := x\<rparr>) = ring_front s" "ring_front (s\<lparr>pc := y\<rparr>) = ring_front s"
  "ring_front (s\<lparr>enab := z\<rparr>) = ring_front s" "ring_front (s\<lparr>echoed := x\<rparr>) = ring_front s"
  by (simp_all add: ring_inv_def ring_contents_def ring_count_def ring_empty_def ring_front_def)

lemma ring_ops_fields [simp]:
  "incoming (ring_put c s) = incoming (s :: echo)" "echoed (ring_put c s) = echoed s"
  "pc (ring_put c s) = pc s" "enab (ring_put c s) = enab s"
  "incoming (ring_advance s) = incoming s" "echoed (ring_advance s) = echoed s"
  "pc (ring_advance s) = pc s" "enab (ring_advance s) = enab s"
  by (simp_all add: ring_put_def ring_advance_def)

lemma echo_inv_interrupt:
  assumes "echo_inv cs s" and "incoming s = c # rest"
  shows "echo_inv cs (uartcisr s)"
proof (cases "ring_full s")
  case True
  with assms show ?thesis by (simp add: uartcisr_def echo_inv_def in_flight_def)
next
  case False
  note inv = assms(1) [unfolded echo_inv_def]
  let ?s = "ring_put c s"
  have "ring_contents ?s = ring_contents s @ [c]" "ring_inv ?s" "\<not> ring_empty ?s"
    using inv False ring.put_contents ring.put_inv ring.put_not_empty by blast+
  moreover have "ring_front ?s = ring_front s" if "\<not> ring_empty s"
    using inv False that ring.front_put by blast
  ultimately show ?thesis
    using inv assms(2) False by (auto simp: uartcisr_def echo_inv_def in_flight_def)
qed

lemma echo_inv_main:
  assumes "echo_inv cs s"
  shows "echo_inv cs (main_step s)"
proof (cases "pc s")
  case (Advance c)
  have i: "ring_inv s" "\<not> ring_empty s" "ring_front s = c"
    "echoed s @ ring_contents s @ incoming s = cs"
    using assms Advance by (simp_all add: echo_inv_def in_flight_def)
  have "ring_contents s = c # ring_contents (ring_advance s)" "ring_inv (ring_advance s)"
    using ring.take_contents [OF i(1,2)] ring.advance_inv [OF i(1)] i(3) by simp_all
  with i(4) Advance show ?thesis
    by (simp add: echo_inv_def in_flight_def)
qed (use assms in \<open>auto simp: echo_inv_def in_flight_def\<close>)

lemma echo_inv_step: "step s s' \<Longrightarrow> echo_inv cs s \<Longrightarrow> echo_inv cs s'"
proof (induction rule: step.induct)
  case (interrupt s)
  then obtain c rest where "incoming s = c # rest" by (cases "incoming s") auto
  with interrupt show ?case by (simp add: echo_inv_interrupt)
next
  case (main s)
  then show ?case by (rule echo_inv_main)
qed

lemma echo_inv_steps: "step\<^sup>*\<^sup>* s s' \<Longrightarrow> echo_inv cs s \<Longrightarrow> echo_inv cs s'"
  by (induction rule: rtranclp_induct) (auto intro: echo_inv_step)

lemma echo_inv_init: "length buffer = 16 \<Longrightarrow> echo_inv cs (echo_init buffer cs)"
  by (simp add: echo_inv_def echo_init_def in_flight_def ring_inv_def ring_contents_def
      ring_count_def BUFSZ_def)

section \<open>Nothing gets stuck\<close>

lemma main_steps: "step\<^sup>*\<^sup>* s ((main_step ^^ n) s)"
proof (induction n)
  case (Suc n)
  then show ?case by (simp del: main_step.simps) (blast intro: rtranclp.rtrancl_into_rtrancl step.main)
qed simp

text \<open>\<open>main\<close> alone empties the buffer and enables the interrupt.\<close>

lemma main_drains:
  assumes "echo_inv cs s" and "pc s = Test"
  shows "\<exists>n. let s' = (main_step ^^ n) s in
    ring_empty s' \<and> enab s' \<and> pc s' = Test \<and> incoming s' = incoming s"
  using assms
proof (induction "length (ring_contents s)" arbitrary: s rule: less_induct)
  case less
  show ?case
  proof (cases "ring_empty s")
    case True
    then have "(main_step ^^ 2) s = s\<lparr>enab := True, pc := Test\<rparr>"
      using less.prems(2) by (simp add: numeral_2_eq_2)
    with True show ?thesis
      by (intro exI [of _ 2]) (simp add: Let_def)
  next
    case False
    let ?s = "(ring_advance s)\<lparr>echoed := echoed s @ [ring_front s], pc := Test\<rparr>"
    have four: "(main_step ^^ 4) s = ?s"
      using False less.prems(2) by (simp add: eval_nat_numeral ring_advance_def)
    have i: "ring_inv s"
      using less.prems(1) by (simp add: echo_inv_def)
    have "echo_inv cs ?s"
      using echo_inv_steps [OF main_steps less.prems(1), of 4] unfolding four .
    moreover have "length (ring_contents ?s) < length (ring_contents s)"
      using ring.take_contents [OF i False] by simp
    ultimately obtain n where n: "let s' = (main_step ^^ n) ?s in
        ring_empty s' \<and> enab s' \<and> pc s' = Test \<and> incoming s' = incoming ?s"
      using less.hyps [of ?s] by auto
    have "(main_step ^^ (n + 4)) s = (main_step ^^ n) ?s"
      unfolding funpow_add comp_apply four ..
    with n show ?thesis
      by (intro exI [of _ "n + 4"]) (simp add: Let_def del: main_step.simps)
  qed
qed

lemma main_to_test: "\<exists>n. pc ((main_step ^^ n) s) = Test"
proof (cases "pc s")
  case Test
  then show ?thesis by (intro exI [of _ 0]) simp
next
  case Load
  then show ?thesis by (intro exI [of _ 3]) (simp add: eval_nat_numeral)
next
  case (Advance c)
  then show ?thesis by (intro exI [of _ 2]) (simp add: eval_nat_numeral)
next
  case (Emit c)
  then show ?thesis by (intro exI [of _ 1]) simp
next
  case Enable
  then show ?thesis by (intro exI [of _ 1]) simp
qed


lemma echo_can_finish:
  "echo_inv cs s \<Longrightarrow> \<exists>s'. step\<^sup>*\<^sup>* s s' \<and> echoed s' = cs"
proof (induction "length (incoming s)" arbitrary: s rule: less_induct)
  case less
  obtain k where k: "pc ((main_step ^^ k) s) = Test"
    using main_to_test by blast
  let ?s0 = "(main_step ^^ k) s"
  have i0: "echo_inv cs ?s0"
    by (rule echo_inv_steps [OF main_steps less.prems])
  obtain n where n: "let s' = (main_step ^^ n) ?s0 in
      ring_empty s' \<and> enab s' \<and> pc s' = Test \<and> incoming s' = incoming ?s0"
    using main_drains [OF i0 k] by blast
  define s1 where "s1 = (main_step ^^ n) ?s0"
  have r1: "step\<^sup>*\<^sup>* s s1"
    unfolding s1_def using main_steps [of s k] main_steps [of ?s0 n] by (rule rtranclp_trans)
  have i1: "echo_inv cs s1"
    by (rule echo_inv_steps [OF r1 less.prems])
  have s1: "ring_empty s1" "enab s1" "pc s1 = Test"
    using n by (simp_all add: s1_def Let_def)
  have inc: "length (incoming s1) \<le> length (incoming s)"
  proof -
    have "incoming (main_step t) = incoming t" for t
      by (cases "pc t") simp_all
    then have "incoming ((main_step ^^ j) t) = incoming t" for j t
      by (induction j) (simp_all del: main_step.simps)
    then show ?thesis by (simp add: s1_def)
  qed
  have e: "ring_contents s1 = []" "ring_inv s1"
    using i1 s1(1) ring.empty_contents [of s1] by (simp_all add: echo_inv_def)
  show ?case
  proof (cases "incoming s1")
    case Nil
    then have "echoed s1 = cs"
      using i1 e s1(3) by (simp add: echo_inv_def in_flight_def)
    with r1 show ?thesis by blast
  next
    case (Cons c rest)
    have "\<not> ring_full s1"
      using e ring.full_contents [of s1] by simp
    then have "incoming (uartcisr s1) = rest"
      using Cons by (simp add: uartcisr_def)
    moreover have st: "step s1 (uartcisr s1)"
      by (rule step.interrupt) (use s1(2) Cons in simp_all)
    ultimately obtain s' where s': "step\<^sup>*\<^sup>* (uartcisr s1) s'" "echoed s' = cs"
      using less.hyps [of "uartcisr s1"] inc Cons echo_inv_step [OF st i1] by auto
    have "step\<^sup>*\<^sup>* s1 s'"
      using st s'(1) by (rule converse_rtranclp_into_rtranclp)
    with r1 have "step\<^sup>*\<^sup>* s s'"
      by (rule rtranclp_trans)
    with s'(2) show ?thesis by blast
  qed
qed

section \<open>Properties\<close>

text \<open>C21: under every interleaving of the interrupt with \<open>main\<close>, nothing is lost, doubled or
  reordered: what has been echoed, the character in flight, the buffer and what is still to
  come are together exactly what was received.\<close>

theorem echo_fifo:
  assumes "length buffer = BUFSZ" and "step\<^sup>*\<^sup>* (echo_init buffer cs) s"
  shows "echoed s @ in_flight s @ ring_contents s @ incoming s = cs"
  using echo_inv_steps [OF assms(2) echo_inv_init] assms(1) by (simp add: echo_inv_def BUFSZ_def)

theorem echo_fifo_witness:
  "\<exists>s. step\<^sup>*\<^sup>* (echo_init (replicate 16 (CHR 0x00)) ''ab'') s \<and> enab s \<and>
     echoed s @ in_flight s @ ring_contents s @ incoming s = ''ab''"
proof -
  let ?s = "(main_step ^^ 2) (echo_init (replicate 16 (CHR 0x00)) ''ab'')"
  have r: "step\<^sup>*\<^sup>* (echo_init (replicate 16 (CHR 0x00)) ''ab'') ?s"
    by (rule main_steps)
  have "enab ?s"
    by (simp add: numeral_2_eq_2 echo_init_def ring_empty_def)
  with r echo_fifo [OF _ r] show ?thesis
    by (auto simp: BUFSZ_def)
qed

text \<open>no wake-up is lost and the buffer never stays full: from every reachable state the
  rest of the input can still be echoed completely.\<close>

lemma echo_never_stuck:
  assumes "length buffer = BUFSZ" and "step\<^sup>*\<^sup>* (echo_init buffer cs) s"
  shows "\<exists>s'. step\<^sup>*\<^sup>* s s' \<and> echoed s' = cs"
  by (rule echo_can_finish)
    (use echo_inv_steps [OF assms(2) echo_inv_init] assms(1) in \<open>simp add: BUFSZ_def\<close>)

theorem echo_never_stuck_witness:
  "\<exists>s'. step\<^sup>*\<^sup>* (echo_init (replicate 16 (CHR 0x00)) ''hello'') s' \<and> echoed s' = ''hello''"
  by (rule echo_never_stuck [OF _ rtranclp.rtrancl_refl, of _ _]) (simp add: BUFSZ_def)

end
