(* ===== verification/Tml.thy ===== *)
theory Tml
  imports Prelude
begin

text \<open>
  The state of the Tiny Macro Lisp runtime (\<open>suites/combined-lisp/src\<close>): the tagged values of
  \<open>tml.h\<close>, the global variables of all its headers in one record, the way its operations
  compose, and the character output of \<open>io.h\<close> with the cell accessors of \<open>heap.h\<close>.

  An operation maps the state to an outcome.  \<open>Done\<close> returns; \<open>Halted\<close> is one of the endless
  loops at the end of a panic or of \<open>halt\<close>; \<open>Waiting\<close> waits for a character that never comes;
  \<open>Wild\<close> reads or writes outside an array, after which C promises nothing; \<open>Starved\<close> means that
  the fuel given to a recursion that need not end was too small.
\<close>

section \<open>Tagged values (\<open>tml.h\<close>)\<close>

definition TAG_FIXNUM :: i24 where "TAG_FIXNUM = 0"
definition TAG_CONS :: i24 where "TAG_CONS = 1"
definition TAG_SYMBOL :: i24 where "TAG_SYMBOL = 2"
definition TAG_EXTENDED :: i24 where "TAG_EXTENDED = 3"
definition TAG_MASK :: i24 where "TAG_MASK = 3"

definition IS_FIXNUM :: "i24 \<Rightarrow> bool" where "IS_FIXNUM v \<longleftrightarrow> v AND TAG_MASK = TAG_FIXNUM"
definition IS_CONS :: "i24 \<Rightarrow> bool" where "IS_CONS v \<longleftrightarrow> v AND TAG_MASK = TAG_CONS"
definition IS_SYMBOL :: "i24 \<Rightarrow> bool" where "IS_SYMBOL v \<longleftrightarrow> v AND TAG_MASK = TAG_SYMBOL"
definition IS_EXTENDED :: "i24 \<Rightarrow> bool" where "IS_EXTENDED v \<longleftrightarrow> v AND TAG_MASK = TAG_EXTENDED"

definition MAKE_FIXNUM :: "i24 \<Rightarrow> i24" where "MAKE_FIXNUM n = push_bit 2 n OR TAG_FIXNUM"
definition FIXNUM_VAL :: "i24 \<Rightarrow> i24" where "FIXNUM_VAL v = signed_drop_bit 2 v"
definition MAKE_CONS :: "i24 \<Rightarrow> i24" where "MAKE_CONS i = push_bit 2 i OR TAG_CONS"
definition MAKE_SYMBOL :: "i24 \<Rightarrow> i24" where "MAKE_SYMBOL i = push_bit 2 i OR TAG_SYMBOL"
definition MAKE_EXTENDED :: "i24 \<Rightarrow> i24" where "MAKE_EXTENDED i = push_bit 2 i OR TAG_EXTENDED"
definition PTR_IDX :: "i24 \<Rightarrow> i24" where "PTR_IDX v = signed_drop_bit 2 v"

definition NIL_VAL :: i24 where "NIL_VAL = MAKE_SYMBOL 0"
definition T_VAL :: i24 where "T_VAL = MAKE_SYMBOL 1"
definition IS_NIL :: "i24 \<Rightarrow> bool" where "IS_NIL v \<longleftrightarrow> v = NIL_VAL"

definition HEAP_SIZE :: nat where "HEAP_SIZE = 32768"

definition ETYPE_CLOSURE :: i24 where "ETYPE_CLOSURE = MAKE_FIXNUM 1"
definition ETYPE_MACRO :: i24 where "ETYPE_MACRO = MAKE_FIXNUM 2"
definition ETYPE_PRIMITIVE :: i24 where "ETYPE_PRIMITIVE = MAKE_FIXNUM 3"
definition ETYPE_STRING :: i24 where "ETYPE_STRING = MAKE_FIXNUM 4"

text \<open>
  An array index as the C code computes it is an \<open>int\<close>; its unsigned reading is below the size
  of the array exactly when the index is within bounds, a negative one being at least \<open>2^23\<close>.
\<close>

definition cell_of :: "i24 \<Rightarrow> nat" where "cell_of v = unat (PTR_IDX v)"

section \<open>Facts about tags\<close>

lemmas make_defs = MAKE_FIXNUM_def MAKE_CONS_def MAKE_SYMBOL_def MAKE_EXTENDED_def
  TAG_FIXNUM_def TAG_CONS_def TAG_SYMBOL_def TAG_EXTENDED_def

lemmas tag_defs = IS_FIXNUM_def IS_CONS_def IS_SYMBOL_def IS_EXTENDED_def
  TAG_MASK_def TAG_FIXNUM_def TAG_CONS_def TAG_SYMBOL_def TAG_EXTENDED_def

lemma mask2: "(v :: i24) AND 3 = take_bit 2 v"
  by (simp add: take_bit_eq_mask mask_eq_exp_minus_1)

lemma take2_make:
  fixes i t :: i24
  assumes "take_bit 2 t = t"
  shows "take_bit 2 (push_bit 2 i OR t) = t"
  by (subst take_bit_or, subst assms) (auto intro!: bit_word_eqI simp: bit_simps)

lemma shift_make:
  fixes i t :: i24
  assumes "take_bit 2 t = t"
  shows "signed_drop_bit 2 (push_bit 2 i OR t) = signed_take_bit 21 i"
proof (rule bit_word_eqI)
  fix n assume n: "n < LENGTH(24)"
  have t: "\<not> bit t m" if "2 \<le> m" for m
    using that assms by (metis bit_take_bit_iff linorder_not_less)
  show "bit (signed_drop_bit 2 (push_bit 2 i OR t)) n = bit (signed_take_bit 21 i) n"
  proof (cases "n < 22")
    case True
    then have "min 21 n = n" by simp
    with True n t [of "n + 2"] show ?thesis
      by (simp add: bit_simps add.commute)
  next
    case False
    then have "min 21 n = 21" by simp
    with False n t [of 23] show ?thesis
      by (simp add: bit_simps)
  qed
qed


lemma tag_bits [simp]:
  "take_bit 2 (0 :: i24) = 0" "take_bit 2 (1 :: i24) = 1" "take_bit 2 (2 :: i24) = 2"
  "take_bit 2 (3 :: i24) = 3"
  by (simp_all flip: mask2)

lemma make_tags [simp]:
  "IS_FIXNUM (MAKE_FIXNUM i)" "\<not> IS_CONS (MAKE_FIXNUM i)" "\<not> IS_SYMBOL (MAKE_FIXNUM i)"
  "\<not> IS_EXTENDED (MAKE_FIXNUM i)"
  "\<not> IS_FIXNUM (MAKE_CONS i)" "IS_CONS (MAKE_CONS i)" "\<not> IS_SYMBOL (MAKE_CONS i)"
  "\<not> IS_EXTENDED (MAKE_CONS i)"
  "\<not> IS_FIXNUM (MAKE_SYMBOL i)" "\<not> IS_CONS (MAKE_SYMBOL i)" "IS_SYMBOL (MAKE_SYMBOL i)"
  "\<not> IS_EXTENDED (MAKE_SYMBOL i)"
  "\<not> IS_FIXNUM (MAKE_EXTENDED i)" "\<not> IS_CONS (MAKE_EXTENDED i)"
  "\<not> IS_SYMBOL (MAKE_EXTENDED i)" "IS_EXTENDED (MAKE_EXTENDED i)"
  using take2_make [of 1 i] take2_make [of 2 i] take2_make [of 3 i]
  by (simp_all add: make_defs tag_defs mask2 take_bit_push_bit)

lemma payload:
  "FIXNUM_VAL (MAKE_FIXNUM i) = signed_take_bit 21 i"
  "PTR_IDX (MAKE_FIXNUM i) = signed_take_bit 21 i"
  "PTR_IDX (MAKE_CONS i) = signed_take_bit 21 i"
  "PTR_IDX (MAKE_SYMBOL i) = signed_take_bit 21 i"
  "PTR_IDX (MAKE_EXTENDED i) = signed_take_bit 21 i"
  using shift_make [of 0 i] shift_make [of 1 i] shift_make [of 2 i] shift_make [of 3 i]
  by (simp_all add: make_defs FIXNUM_VAL_def PTR_IDX_def)

lemma signed_take_small:
  fixes i :: i24
  assumes "unat i < 2097152"
  shows "signed_take_bit 21 i = i"
proof (rule bit_word_eqI)
  have "unat (take_bit 21 i) = take_bit 21 (unat i)"
    by (rule unsigned_take_bit_eq)
  also have "\<dots> = unat i"
    using assms by (simp add: take_bit_nat_eq_self)
  finally have e: "take_bit 21 i = i" by (rule word_eq_iff_unsigned [THEN iffD2])
  have h: "\<not> bit i m" if "21 \<le> m" for m
    using that e by (metis bit_take_bit_iff linorder_not_less)
  fix n
  show "bit (signed_take_bit 21 i) n = bit i n" if "n < LENGTH(24)"
    using that h [of n] h [of 21] by (cases "n < 21") (auto simp: bit_simps min_def)
qed

lemma cell_of_make [simp]:
  assumes "i < 2097152"
  shows "cell_of (MAKE_CONS (of_nat i)) = i" "cell_of (MAKE_SYMBOL (of_nat i)) = i"
    "cell_of (MAKE_EXTENDED (of_nat i)) = i"
  using assms by (simp_all add: cell_of_def payload signed_take_small)

lemma ptr_idx_make [simp]:
  assumes "i < 2097152"
  shows "PTR_IDX (MAKE_CONS (of_nat i)) = of_nat i" "PTR_IDX (MAKE_SYMBOL (of_nat i)) = of_nat i"
    "PTR_IDX (MAKE_EXTENDED (of_nat i)) = of_nat i"
  using assms by (simp_all add: payload signed_take_small)

text \<open>Every value is what its tag and its payload make.\<close>

lemma value_split:
  fixes v :: i24
  shows "push_bit 2 (signed_drop_bit 2 v) OR take_bit 2 v = v"
proof (rule bit_word_eqI)
  fix n assume "n < LENGTH(24)"
  moreover have "n < 2 \<or> (\<exists>m. n = m + 2)"
    by presburger
  ultimately show "bit (push_bit 2 (signed_drop_bit 2 v) OR take_bit 2 v) n = bit v n"
    by (auto simp: bit_simps add.commute)
qed

lemma make_ptr:
  "IS_FIXNUM v \<Longrightarrow> MAKE_FIXNUM (FIXNUM_VAL v) = v"
  "IS_CONS v \<Longrightarrow> MAKE_CONS (PTR_IDX v) = v"
  "IS_SYMBOL v \<Longrightarrow> MAKE_SYMBOL (PTR_IDX v) = v"
  "IS_EXTENDED v \<Longrightarrow> MAKE_EXTENDED (PTR_IDX v) = v"
  using value_split [of v]
  by (simp_all add: make_defs tag_defs mask2 FIXNUM_VAL_def PTR_IDX_def)

lemma unat_take2: "unat (take_bit 2 (v :: i24)) < 4"
proof -
  have "unat (take_bit 2 v) = take_bit 2 (unat v)"
    by (rule unsigned_take_bit_eq)
  then show ?thesis
    by (simp add: take_bit_eq_mod [where 'a = nat])
qed

lemma tag_exhaust:
  obtains "IS_FIXNUM v" | "IS_CONS v" | "IS_SYMBOL v" | "IS_EXTENDED v"
proof -
  define k where "k = unat (take_bit 2 v)"
  have "k < 4" unfolding k_def by (rule unat_take2)
  then have "k = 0 \<or> k = 1 \<or> k = 2 \<or> k = 3" by linarith
  moreover have "take_bit 2 v = of_nat k"
    by (simp add: k_def)
  ultimately have "take_bit 2 v = 0 \<or> take_bit 2 v = 1 \<or> take_bit 2 v = 2 \<or> take_bit 2 v = 3"
    by (elim disjE) simp_all
  then show ?thesis
    using that by (auto simp: tag_defs mask2)
qed

lemma tag_exclusive:
  "IS_CONS v \<Longrightarrow> \<not> IS_FIXNUM v \<and> \<not> IS_SYMBOL v \<and> \<not> IS_EXTENDED v"
  "IS_SYMBOL v \<Longrightarrow> \<not> IS_FIXNUM v \<and> \<not> IS_CONS v \<and> \<not> IS_EXTENDED v"
  "IS_EXTENDED v \<Longrightarrow> \<not> IS_FIXNUM v \<and> \<not> IS_CONS v \<and> \<not> IS_SYMBOL v"
  "IS_FIXNUM v \<Longrightarrow> \<not> IS_EXTENDED v \<and> \<not> IS_CONS v \<and> \<not> IS_SYMBOL v"
  by (auto simp: tag_defs)

lemma nil_tags [simp]:
  "IS_SYMBOL NIL_VAL" "\<not> IS_CONS NIL_VAL" "\<not> IS_EXTENDED NIL_VAL" "\<not> IS_FIXNUM NIL_VAL"
  "IS_SYMBOL T_VAL" "\<not> IS_CONS T_VAL" "\<not> IS_EXTENDED T_VAL" "\<not> IS_FIXNUM T_VAL"
  "IS_NIL NIL_VAL" "\<not> IS_NIL T_VAL" "\<not> IS_NIL (MAKE_CONS i)" "\<not> IS_NIL (MAKE_FIXNUM i)"
  "\<not> IS_NIL (MAKE_EXTENDED i)"
proof -
  have s: "IS_SYMBOL NIL_VAL" "IS_SYMBOL T_VAL" by (simp_all add: NIL_VAL_def T_VAL_def)
  show "IS_SYMBOL NIL_VAL" "\<not> IS_CONS NIL_VAL" "\<not> IS_EXTENDED NIL_VAL" "\<not> IS_FIXNUM NIL_VAL"
    "IS_SYMBOL T_VAL" "\<not> IS_CONS T_VAL" "\<not> IS_EXTENDED T_VAL" "\<not> IS_FIXNUM T_VAL"
    using s tag_exclusive(2) by auto
  show "IS_NIL NIL_VAL" "\<not> IS_NIL T_VAL" "\<not> IS_NIL (MAKE_CONS i)" "\<not> IS_NIL (MAKE_FIXNUM i)"
    "\<not> IS_NIL (MAKE_EXTENDED i)"
    using s make_tags(3,7,15) [of i] unfolding IS_NIL_def
    by (simp, simp add: NIL_VAL_def T_VAL_def make_defs, metis+)
qed

lemma fixnum_round_trip:
  assumes "- 2097152 \<le> sint n" "sint n < 2097152"
  shows "FIXNUM_VAL (MAKE_FIXNUM n) = n"
proof -
  have "signed_take_bit 21 (sint n) = sint n"
    using assms by (simp add: signed_take_bit_int_eq_self)
  then have b: "bit (sint n) m = bit (signed_take_bit 21 (sint n)) m" for m
    by simp
  have "signed_take_bit 21 n = n"
  proof (rule bit_word_eqI)
    fix m assume "m < LENGTH(24)"
    then have "m < 23 \<or> m = 23" by auto
    with b [of m] show "bit (signed_take_bit 21 n) m = bit n m"
      by (auto simp: bit_simps bit_sint_iff min_def split: if_splits)
  qed
  then show ?thesis
    by (simp add: payload)
qed

section \<open>The state of the runtime\<close>

datatype special = Quote | If | Define | Lambda | Defmacro | Begin | Quasiquote | Unquote
  | Unquote_splicing | Set | Catch | Asm

record lisp =
  heap_car :: "nat \<Rightarrow> i24"
  heap_cdr :: "nat \<Rightarrow> i24"
  heap_next :: i24
  gc_enabled :: bool
  heap_mark :: "nat \<Rightarrow> bool"
  free_list :: i24
  gc_roots :: "nat \<Rightarrow> i24"
  gc_root_count :: i24
  gc_collections :: i24
  c_stack :: "i24 list"
  name_pool :: "nat \<Rightarrow> char"
  name_pool_next :: i24
  sym_name_off :: "nat \<Rightarrow> i24"
  sym_count :: i24
  str_pool :: "nat \<Rightarrow> char"
  str_pool_next :: i24
  read_ptr :: string
  global_env :: i24
  special_sym :: "special \<Rightarrow> i24"
  gensym_counter :: i24
  catch_tags :: "nat \<Rightarrow> i24"
  catch_vals :: "nat \<Rightarrow> i24"
  catch_depth :: i24
  catch_throwing :: bool
  catch_target :: i24
  wind_after :: "nat \<Rightarrow> i24"
  wind_depth :: i24
  uart_in :: string
  uart_out :: string

datatype 'a outcome = Done 'a lisp | Halted lisp | Waiting lisp | Wild | Starved

type_synonym 'a act = "lisp \<Rightarrow> 'a outcome"

section \<open>Composing operations\<close>

definition ret :: "'a \<Rightarrow> 'a act" where
  "ret a s = Done a s"

definition bnd :: "'a act \<Rightarrow> ('a \<Rightarrow> 'b act) \<Rightarrow> 'b act" where
  "bnd m k s = (case m s of Done a s' \<Rightarrow> k a s' | Halted s' \<Rightarrow> Halted s' | Waiting s' \<Rightarrow> Waiting s'
     | Wild \<Rightarrow> Wild | Starved \<Rightarrow> Starved)"

definition get :: "(lisp \<Rightarrow> 'a) \<Rightarrow> 'a act" where
  "get f s = Done (f s) s"

definition upd :: "(lisp \<Rightarrow> lisp) \<Rightarrow> unit act" where
  "upd f s = Done () (f s)"

definition wild :: "'a act" where "wild s = Wild"
definition starved :: "'a act" where "starved s = Starved"
definition halt :: "'a act" where "halt s = Halted s"

text \<open>
  The compiler keeps the arguments and locals of the active C functions on the stack, which the
  collector scans: \<open>hold vs m\<close> runs \<open>m\<close> while \<open>vs\<close> are live locals of its caller.
\<close>

definition hold :: "i24 list \<Rightarrow> 'a act \<Rightarrow> 'a act" where
  "hold vs m s = bnd m (\<lambda>a. bnd (upd (c_stack_update (\<lambda>_. c_stack s))) (\<lambda>_. ret a))
     (s\<lparr>c_stack := vs @ c_stack s\<rparr>)"

lemma act_simps [simp]:
  "ret a s = Done a s" "get f s = Done (f s) s" "upd g s = Done () (g s)"
  "wild s = Wild" "starved s = Starved" "halt s = Halted s"
  by (simp_all add: ret_def get_def upd_def wild_def starved_def halt_def)

lemma bnd_ret [simp]: "bnd (ret a) k = k a"
  and bnd_get [simp]: "bnd (get f) k' s = k' (f s) s"
  and bnd_upd [simp]: "bnd (upd g) k'' s = k'' () (g s)"
  and bnd_wild [simp]: "bnd wild l = wild"
  and bnd_starved [simp]: "bnd starved l' = starved"
  and bnd_halt [simp]: "bnd halt l'' = halt"
  by (simp_all add: bnd_def fun_eq_iff)

lemma bnd_assoc: "bnd (bnd m k) l = bnd m (\<lambda>a. bnd (k a) l)"
  by (auto simp: bnd_def fun_eq_iff split: outcome.split)

lemma bnd_step:
  "m s = Done a s' \<Longrightarrow> bnd m k s = k a s'"
  "m s = Halted s' \<Longrightarrow> bnd m k s = Halted s'"
  "m s = Waiting s' \<Longrightarrow> bnd m k s = Waiting s'"
  "m s = Wild \<Longrightarrow> bnd m k s = Wild"
  "m s = Starved \<Longrightarrow> bnd m k s = Starved"
  by (simp_all add: bnd_def)

lemma bnd_Done: "bnd m k s = Done b s'' \<longleftrightarrow> (\<exists>a s'. m s = Done a s' \<and> k a s' = Done b s'')"
  by (auto simp: bnd_def split: outcome.split)

lemma bnd_Done_E:
  assumes "bnd m k s = Done b s''"
  obtains a s' where "m s = Done a s'" "k a s' = Done b s''"
  using assms by (auto simp: bnd_Done)

section \<open>Characters out (\<open>io.h\<close>)\<close>

text \<open>
  The wait for the transmitter in \<open>putc_uart\<close> is bounded, so the character is written whatever
  the hardware answers.
\<close>

definition putc_uart :: "char \<Rightarrow> unit act" where
  "putc_uart c = upd (\<lambda>s. s\<lparr>uart_out := uart_out s @ [c]\<rparr>)"

fun puts_str :: "string \<Rightarrow> unit act" where
  "puts_str [] = ret ()"
| "puts_str (c # cs) = bnd (putc_uart c) (\<lambda>_. puts_str cs)"

definition getc_uart :: "char act" where
  "getc_uart s = (case uart_in s of [] \<Rightarrow> Waiting s | c # cs \<Rightarrow> Done c (s\<lparr>uart_in := cs\<rparr>))"

text \<open>The digits of a positive number, lowest first, as the loop of \<open>print_int\<close> buffers them.\<close>

fun digits_rev :: "nat \<Rightarrow> string" where
  "digits_rev n = (if n = 0 then [] else char_of (48 + n mod 10) # digits_rev (n div 10))"

declare digits_rev.simps [simp del]

definition print_int :: "i24 \<Rightarrow> unit act" where
  "print_int n = bnd (if sint n < 0 then putc_uart (CHR ''-'') else ret ())
     (\<lambda>_. let n = (if sint n < 0 then 0 - n else n) in
       if n = 0 then putc_uart (CHR ''0'') else puts_str (rev (digits_rev (nat (sint n)))))"

text \<open>The state after a text has been written.\<close>

definition says :: "string \<Rightarrow> lisp \<Rightarrow> lisp" where
  "says t s = s\<lparr>uart_out := uart_out s @ t\<rparr>"

lemma says_fields [simp]:
  "heap_car (says t s) = heap_car s" "heap_cdr (says t s) = heap_cdr s"
  "heap_next (says t s) = heap_next s" "gc_enabled (says t s) = gc_enabled s"
  "heap_mark (says t s) = heap_mark s" "free_list (says t s) = free_list s"
  "gc_roots (says t s) = gc_roots s" "gc_root_count (says t s) = gc_root_count s"
  "gc_collections (says t s) = gc_collections s" "c_stack (says t s) = c_stack s"
  "name_pool (says t s) = name_pool s" "name_pool_next (says t s) = name_pool_next s"
  "sym_name_off (says t s) = sym_name_off s" "sym_count (says t s) = sym_count s"
  "str_pool (says t s) = str_pool s" "str_pool_next (says t s) = str_pool_next s"
  "read_ptr (says t s) = read_ptr s" "global_env (says t s) = global_env s"
  "special_sym (says t s) = special_sym s" "gensym_counter (says t s) = gensym_counter s"
  "catch_tags (says t s) = catch_tags s" "catch_vals (says t s) = catch_vals s"
  "catch_depth (says t s) = catch_depth s" "catch_throwing (says t s) = catch_throwing s"
  "catch_target (says t s) = catch_target s" "wind_after (says t s) = wind_after s"
  "wind_depth (says t s) = wind_depth s" "uart_in (says t s) = uart_in s"
  "uart_out (says t s) = uart_out s @ t"
  "says u (says t s) = says (t @ u) s" "says [] s = s"
  by (simp_all add: says_def)

lemma putc_says [simp]: "putc_uart c s = Done () (says [c] s)"
  by (simp add: putc_uart_def says_def)

lemma puts_says [simp]: "puts_str cs s = Done () (says cs s)"
  by (induction cs arbitrary: s) (simp_all add: bnd_step)

declare puts_str.simps [simp del]

lemma bnd_puts [simp]:
  "bnd (puts_str cs) k s = k () (says cs s)"
  "bnd (putc_uart c) k s = k () (says [c] s)"
  by (simp_all add: bnd_step)

text \<open>The decimal text of a number.\<close>

definition int_text :: "i24 \<Rightarrow> string" where
  "int_text n = (if sint n < 0 then ''-'' @ rev (digits_rev (nat (sint (0 - n))))
     else if n = 0 then ''0'' else rev (digits_rev (nat (sint n))))"

lemma print_int_says [simp]: "print_int n s = Done () (says (int_text n) s)"
  by (auto simp: print_int_def int_text_def Let_def)

lemma bnd_print_int [simp]:
  "bnd (print_int n) k s = k () (says (int_text n) s)"
  by (simp add: bnd_step)

section \<open>Cells (\<open>heap.h\<close>)\<close>

definition peek_car :: "i24 \<Rightarrow> i24 act" where
  "peek_car i s = (if unat i < HEAP_SIZE then Done (heap_car s (unat i)) s else Wild)"

definition peek_cdr :: "i24 \<Rightarrow> i24 act" where
  "peek_cdr i s = (if unat i < HEAP_SIZE then Done (heap_cdr s (unat i)) s else Wild)"

definition poke_car :: "i24 \<Rightarrow> i24 \<Rightarrow> unit act" where
  "poke_car i v s = (if unat i < HEAP_SIZE
     then Done () (s\<lparr>heap_car := (heap_car s)(unat i := v)\<rparr>) else Wild)"

definition poke_cdr :: "i24 \<Rightarrow> i24 \<Rightarrow> unit act" where
  "poke_cdr i v s = (if unat i < HEAP_SIZE
     then Done () (s\<lparr>heap_cdr := (heap_cdr s)(unat i := v)\<rparr>) else Wild)"

definition car :: "i24 \<Rightarrow> i24 act" where "car v = peek_car (PTR_IDX v)"
definition cdr :: "i24 \<Rightarrow> i24 act" where "cdr v = peek_cdr (PTR_IDX v)"

definition heap_init :: "unit act" where
  "heap_init = upd (\<lambda>s. s\<lparr>heap_next := 0\<rparr>)"

lemma car_eq: "car v s = (if cell_of v < HEAP_SIZE then Done (heap_car s (cell_of v)) s else Wild)"
  and cdr_eq: "cdr v s = (if cell_of v < HEAP_SIZE then Done (heap_cdr s (cell_of v)) s else Wild)"
  by (simp_all add: car_def cdr_def peek_car_def peek_cdr_def cell_of_def)

end
