(* ===== verification/Tml_Line.thy ===== *)
theory Tml_Line
  imports Tml
begin

text \<open>
  The line editor of the REPL (\<open>read_line\<close> of \<open>io.h\<close>).  The buffer up to \<open>i\<close> is a string.  Every
  turn of the loop takes a character from the input, so the number of characters waiting bounds
  the turns; when they run out, the code waits.
\<close>

section \<open>The loop\<close>

text \<open>Nesting depth and \<open>in_str\<close> after one more character.\<close>

fun nest_step :: "int \<times> bool \<Rightarrow> char \<Rightarrow> int \<times> bool" where
  "nest_step (depth, in_str) c = (let in_str = (if c = CHR 0x22 then \<not> in_str else in_str) in
     (if in_str then depth
      else if c = CHR ''('' then depth + 1 else if c = CHR '')'' then depth - 1 else depth, in_str))"

definition rescan :: "string \<Rightarrow> int \<times> bool" where
  "rescan buf = foldl nest_step (0, False) buf"

fun line_loop :: "nat \<Rightarrow> nat \<Rightarrow> string \<Rightarrow> int \<times> bool \<Rightarrow> (i24 \<times> string) act" where
  "line_loop 0 cap buf st = starved"
| "line_loop (Suc k) cap buf st = (if length buf < cap - 1
     then bnd getc_uart (\<lambda>ch.
       if ch = CHR 29 then ret (-2, buf)
       else if ch = CHR 4 then ret (-1, buf)
       else if ch = CHR 8 \<or> ch = CHR 127
       then (if buf \<noteq> []
         then bnd (puts_str [CHR 8, CHR '' '', CHR 8]) (\<lambda>_.
           line_loop k cap (butlast buf) (rescan (butlast buf)))
         else line_loop k cap buf st)
       else if ch = CHR 0x0A \<or> ch = CHR 0x0D
       then bnd (puts_str [CHR 0x0D, CHR 0x0A]) (\<lambda>_.
         if fst st \<le> 0 then ret (of_nat (length buf), buf)
         else line_loop k cap (buf @ '' '') st)
       else bnd (putc_uart ch) (\<lambda>_. line_loop k cap (buf @ [ch]) (nest_step st ch)))
     else ret (of_nat (length buf), buf))"

definition read_line_tml :: "nat \<Rightarrow> (i24 \<times> string) act" where
  "read_line_tml cap s = line_loop (Suc (length (uart_in s))) cap [] (0, False) s"

section \<open>A line editor that keeps only its text\<close>

datatype typed = Line string | Control i24 string | More

fun edit :: "nat \<Rightarrow> string \<Rightarrow> string \<Rightarrow> typed \<times> string \<times> string" where
  "edit cap buf [] = (if length buf < cap - 1 then (More, [], []) else (Line buf, [], []))"
| "edit cap buf (c # cs) =
     (if cap - 1 \<le> length buf then (Line buf, [], c # cs)
      else if c = CHR 29 then (Control (-2) buf, [], cs)
      else if c = CHR 4 then (Control (-1) buf, [], cs)
      else if c = CHR 8 \<or> c = CHR 127
      then (let (t, e, r) = edit cap (butlast buf) cs in
        (t, (if buf = [] then [] else [CHR 8, CHR '' '', CHR 8]) @ e, r))
      else if c = CHR 0x0A \<or> c = CHR 0x0D
      then (if fst (rescan buf) \<le> 0 then (Line buf, [CHR 0x0D, CHR 0x0A], cs)
        else (let (t, e, r) = edit cap (buf @ '' '') cs in (t, [CHR 0x0D, CHR 0x0A] @ e, r)))
      else (let (t, e, r) = edit cap (buf @ [c]) cs in (t, c # e, r)))"

definition typed_outcome :: "typed \<times> string \<times> string \<Rightarrow> lisp \<Rightarrow> (i24 \<times> string) outcome" where
  "typed_outcome p s = (case p of (t, e, r) \<Rightarrow> let s' = says e s\<lparr>uart_in := r\<rparr> in
     case t of Line b \<Rightarrow> Done (of_nat (length b), b) s' | Control n b \<Rightarrow> Done (n, b) s' | More \<Rightarrow> Waiting s')"

lemma rescan_snoc: "rescan (buf @ [c]) = nest_step (rescan buf) c"
  by (simp add: rescan_def)

lemma rescan_space: "rescan (buf @ '' '') = rescan buf"
  by (cases "rescan buf") (simp add: rescan_snoc)

lemma typed_outcome_echo:
  "typed_outcome (let (t, e, r) = p in (t, a # b # e, r)) s = typed_outcome p (says [a, b] (s\<lparr>uart_in := q\<rparr>))"
  "typed_outcome (let (t, e, r) = p in (t, c # e, r)) s = typed_outcome p (says [c] (s\<lparr>uart_in := q\<rparr>))"
  "typed_outcome (let (t, e, r) = p in (t, a # b # c # e, r)) s = typed_outcome p (says [a, b, c] (s\<lparr>uart_in := q\<rparr>))"
  "typed_outcome p s = typed_outcome p (s\<lparr>uart_in := q\<rparr>)"
  by (auto simp: typed_outcome_def says_def Let_def split: prod.splits typed.splits)

lemma line_loop_edit:
  "uart_in s = keys \<Longrightarrow> length keys < k \<Longrightarrow> line_loop k cap buf (rescan buf) s = typed_outcome (edit cap buf keys) s"
proof (induction keys arbitrary: k buf s)
  case Nil
  then obtain m where "k = Suc m" by (cases k) auto
  with Nil show ?case
    by (simp add: typed_outcome_def getc_uart_def bnd_def)
next
  case (Cons c cs)
  then obtain m where k: "k = Suc m" "length cs < m" by (cases k) auto
  have IH: "line_loop m cap b (rescan b) t = typed_outcome (edit cap b cs) t" if "uart_in t = cs" for b t
    by (rule Cons.IH [OF that k(2)])
  have g: "bnd getc_uart f s = f c (s\<lparr>uart_in := cs\<rparr>)" for f :: "char \<Rightarrow> (i24 \<times> string) act"
    using Cons.prems(1) by (simp add: getc_uart_def bnd_def)
  have sp: "line_loop m cap (buf @ '' '') (rescan buf) t = typed_outcome (edit cap (buf @ '' '') cs) t"
    if "uart_in t = cs" for t
    using IH [OF that, of "buf @ '' ''"] by (simp only: rescan_space)
  have sn: "line_loop m cap (buf @ [c]) (nest_step (rescan buf) c) t = typed_outcome (edit cap (buf @ [c]) cs) t"
    if "uart_in t = cs" for t
    using IH [OF that, of "buf @ [c]"] by (simp only: rescan_snoc)
  have in_says: "uart_in (says e (s\<lparr>uart_in := cs\<rparr>)) = cs" for e by simp
  show ?case
  proof (cases "length buf < cap - 1")
    case False
    then show ?thesis using Cons.prems by (simp add: k typed_outcome_def)
  next
    case True
    have step: "line_loop k cap buf (rescan buf) s =
      (if c = CHR 29 then ret (-2, buf) else if c = CHR 4 then ret (-1, buf)
       else if c = CHR 8 \<or> c = CHR 127
       then (if buf \<noteq> [] then bnd (puts_str [CHR 8, CHR '' '', CHR 8]) (\<lambda>_.
         line_loop m cap (butlast buf) (rescan (butlast buf))) else line_loop m cap buf (rescan buf))
       else if c = CHR 0x0A \<or> c = CHR 0x0D
       then bnd (puts_str [CHR 0x0D, CHR 0x0A]) (\<lambda>_.
         if fst (rescan buf) \<le> 0 then ret (of_nat (length buf), buf) else line_loop m cap (buf @ '' '') (rescan buf))
       else bnd (putc_uart c) (\<lambda>_. line_loop m cap (buf @ [c]) (nest_step (rescan buf) c))) (s\<lparr>uart_in := cs\<rparr>)"
      by (simp only: k line_loop.simps True if_True g)
    have spec: "edit cap buf (c # cs) =
      (if c = CHR 29 then (Control (-2) buf, [], cs) else if c = CHR 4 then (Control (-1) buf, [], cs)
       else if c = CHR 8 \<or> c = CHR 127
       then (let (t, e, r) = edit cap (butlast buf) cs in (t, (if buf = [] then [] else [CHR 8, CHR '' '', CHR 8]) @ e, r))
       else if c = CHR 0x0A \<or> c = CHR 0x0D
       then (if fst (rescan buf) \<le> 0 then (Line buf, [CHR 0x0D, CHR 0x0A], cs)
         else (let (t, e, r) = edit cap (buf @ '' '') cs in (t, [CHR 0x0D, CHR 0x0A] @ e, r)))
       else (let (t, e, r) = edit cap (buf @ [c]) cs in (t, c # e, r)))"
      using True by simp
    note echo = typed_outcome_echo [where q = cs, simplified Let_def]
    consider "c = CHR 29 \<or> c = CHR 4" | "c = CHR 8 \<or> c = CHR 127" | "c = CHR 0x0A \<or> c = CHR 0x0D"
      | "c \<notin> {CHR 29, CHR 4, CHR 8, CHR 127, CHR 0x0A, CHR 0x0D}" by blast
    then show ?thesis
    proof cases
      case 1
      then show ?thesis unfolding step spec by (auto simp: typed_outcome_def)
    next
      case 2
      then have c: "c \<noteq> CHR 29" "c \<noteq> CHR 4" by auto
      show ?thesis
        unfolding step spec using 2 c IH [OF in_says, of "butlast buf"] IH [of "s\<lparr>uart_in := cs\<rparr>" buf]
        by (cases "buf = []") (simp_all add: echo(1-3), rule echo(4) [symmetric])
    next
      case 3
      then have c: "c \<noteq> CHR 29" "c \<noteq> CHR 4" "c \<noteq> CHR 8" "c \<noteq> CHR 127" by auto
      show ?thesis
        unfolding step spec using 3 c sp [OF in_says]
        by (cases "fst (rescan buf) \<le> 0") (simp_all add: echo(1-3), simp add: typed_outcome_def says_def)
    next
      case 4
      then show ?thesis
        unfolding step spec using sn [OF in_says] by (simp add: echo(1-3))
    qed
  qed
qed

text \<open>What a finished line is.\<close>

definition closed_line :: "nat \<Rightarrow> string \<Rightarrow> bool" where
  "closed_line cap b \<longleftrightarrow> length b \<le> cap - 1 \<and> (length b = cap - 1 \<or> fst (rescan b) \<le> 0) \<and>
     set b \<inter> {CHR 4, CHR 8, CHR 0x0A, CHR 0x0D, CHR 29, CHR 127} = {}"

lemma edit_line:
  "edit cap buf keys = (Line b, e, r) \<Longrightarrow> length buf \<le> cap - 1 \<Longrightarrow>
   set buf \<inter> {CHR 4, CHR 8, CHR 0x0A, CHR 0x0D, CHR 29, CHR 127} = {} \<Longrightarrow> closed_line cap b"
proof (induction keys arbitrary: buf e r)
  case Nil
  then show ?case by (simp add: closed_line_def split: if_splits)
next
  case (Cons c cs)
  have IH: "closed_line cap b" if "(case edit cap x cs of (t, e, r) \<Rightarrow> (t, f e, r)) = (Line b, e, r)"
      "length x \<le> cap - 1" "set x \<inter> {CHR 4, CHR 8, CHR 0x0A, CHR 0x0D, CHR 29, CHR 127} = {}" for x f
    using that Cons.IH [of x] by (auto split: prod.splits)
  show ?case
  proof (cases "cap - 1 \<le> length buf")
    case True
    with Cons.prems show ?thesis by (simp add: closed_line_def)
  next
    case False
    consider "c = CHR 29 \<or> c = CHR 4" | "c = CHR 8 \<or> c = CHR 127" | "c = CHR 0x0A \<or> c = CHR 0x0D"
      | "c \<notin> {CHR 29, CHR 4, CHR 8, CHR 127, CHR 0x0A, CHR 0x0D}" by blast
    then show ?thesis
    proof cases
      case 1
      with False Cons.prems(1) show ?thesis by auto
    next
      case 2
      then have c: "c \<noteq> CHR 29" "c \<noteq> CHR 4" by auto
      have "set (butlast buf) \<inter> {CHR 4, CHR 8, CHR 0x0A, CHR 0x0D, CHR 29, CHR 127} = {}"
        using Cons.prems(3) in_set_butlastD [of _ buf] by blast
      moreover have "length (butlast buf) \<le> cap - 1" using Cons.prems(2) by simp
      moreover have "(case edit cap (butlast buf) cs of (t, e, r) \<Rightarrow>
          (t, (\<lambda>e. (if buf = [] then [] else [CHR 8, CHR '' '', CHR 8]) @ e) e, r)) = (Line b, e, r)"
        using Cons.prems(1) False c 2 by (simp add: Let_def)
      ultimately show ?thesis by (intro IH)
    next
      case 3
      then have c: "c \<noteq> CHR 29" "c \<noteq> CHR 4" "c \<noteq> CHR 8" "c \<noteq> CHR 127" by auto
      show ?thesis
      proof (cases "fst (rescan buf) \<le> 0")
        case True
        with Cons.prems False c 3 show ?thesis by (simp add: closed_line_def)
      next
        case nested: False
        have "(case edit cap (buf @ '' '') cs of (t, e, r) \<Rightarrow> (t, (\<lambda>e. [CHR 0x0D, CHR 0x0A] @ e) e, r)) = (Line b, e, r)"
          using Cons.prems(1) False nested c 3 by (simp add: Let_def)
        then show ?thesis by (rule IH) (use Cons.prems(2,3) False in auto)
      qed
    next
      case 4
      have "(case edit cap (buf @ [c]) cs of (t, e, r) \<Rightarrow> (t, (\<lambda>e. c # e) e, r)) = (Line b, e, r)"
        using Cons.prems(1) False 4 by (simp add: Let_def)
      then show ?thesis by (rule IH) (use Cons.prems(2,3) False 4 in auto)
    qed
  qed
qed

end
