(* ===== verification/Tml_Gc.thy ===== *)
theory Tml_Gc
  imports Tml
begin

text \<open>
  The collector of \<open>gc.h\<close> and the allocator of \<open>heap.h\<close> that calls it.  The C stack is the list
  of words between the stack pointer and the one captured at start-up; what \<open>gc_scan_stack\<close>
  reads there is \<open>c_stack\<close>, to which the callers add their locals with \<open>hold\<close>.
\<close>

definition MAX_GC_ROOTS :: nat where "MAX_GC_ROOTS = 256"
definition MAX_CATCH_DEPTH :: nat where "MAX_CATCH_DEPTH = 16"
definition MAX_WIND_DEPTH :: nat where "MAX_WIND_DEPTH = 16"

definition gc_init :: "unit act" where
  "gc_init = upd (\<lambda>s. s\<lparr>free_list := -1, gc_root_count := 0, gc_collections := 0, c_stack := []\<rparr>)"

definition gc_protect :: "i24 \<Rightarrow> i24 act" where
  "gc_protect val s =
     (if sint (gc_root_count s) \<ge> int MAX_GC_ROOTS
      then bnd (puts_str ''PANIC:GC root stack full\<newline>'') (\<lambda>_. halt) s
      else if unat (gc_root_count s) < MAX_GC_ROOTS
      then Done val (s\<lparr>gc_roots := (gc_roots s)(unat (gc_root_count s) := val),
                     gc_root_count := gc_root_count s + 1\<rparr>)
      else Wild)"

definition gc_unprotect :: "i24 \<Rightarrow> unit act" where
  "gc_unprotect n = upd (\<lambda>s. s\<lparr>gc_root_count := gc_root_count s - n\<rparr>)"

section \<open>Mark\<close>

definition IS_PTR :: "i24 \<Rightarrow> bool" where
  "IS_PTR v \<longleftrightarrow> IS_CONS v \<or> IS_EXTENDED v"

text \<open>
  The recursion of \<open>gc_mark_val\<close> on the car and its loop on the cdr.  Both branches of the code,
  for cons cells and for extended objects, are the same.  \<open>None\<close> is an index outside
  \<open>heap_mark\<close>.
\<close>

function mark :: "(nat \<Rightarrow> i24) \<Rightarrow> (nat \<Rightarrow> i24) \<Rightarrow> i24 \<Rightarrow> (nat \<Rightarrow> bool) \<Rightarrow> (nat \<Rightarrow> bool) option" where
  "mark ca cd v M =
     (if IS_PTR v then
        (if cell_of v < HEAP_SIZE then
           (if M (cell_of v) then Some M
            else (case mark ca cd (ca (cell_of v)) (M(cell_of v := True)) of
                None \<Rightarrow> None
              | Some M1 \<Rightarrow> mark ca cd (cd (cell_of v)) M1))
         else None)
      else Some M)"
  by pat_completeness auto

lemma mark_grows:
  assumes "mark_dom (ca, cd, v, M)" and "mark ca cd v M = Some M'"
  shows "M \<le> M'"
  using assms
proof (induction ca cd v M arbitrary: M' rule: mark.pinduct)
  case (1 ca cd v M)
  show ?case
  proof (cases "IS_PTR v \<and> cell_of v < HEAP_SIZE \<and> \<not> M (cell_of v)")
    case True
    with 1 obtain M1 where m1: "mark ca cd (ca (cell_of v)) (M(cell_of v := True)) = Some M1"
      and m2: "mark ca cd (cd (cell_of v)) M1 = Some M'"
      by (auto simp: mark.psimps split: option.splits)
    have "M(cell_of v := True) \<le> M1"
      using 1(2) [OF _ _ _ m1] True by blast
    moreover have "M1 \<le> M'"
      using 1(3) [OF _ _ _ m1 m2] True by blast
    ultimately show ?thesis
      by (auto simp: le_fun_def)
  next
    case False
    with 1 show ?thesis
      by (auto simp: mark.psimps split: if_splits)
  qed
qed

definition unmarked :: "(nat \<Rightarrow> bool) \<Rightarrow> nat set" where
  "unmarked M = {i. i < HEAP_SIZE \<and> \<not> M i}"

lemma finite_unmarked [simp]: "finite (unmarked M)"
  by (simp add: unmarked_def)

lemma unmarked_less:
  assumes "M(i := True) \<le> M1" and "\<not> M i" and "i < HEAP_SIZE"
  shows "card (unmarked M1) < card (unmarked M)"
proof (rule psubset_card_mono)
  show "unmarked M1 \<subset> unmarked M"
    using assms by (auto simp: unmarked_def le_fun_def psubset_eq split: if_splits)
qed simp

termination mark
proof (relation "measure (\<lambda>(ca, cd, v, M). card (unmarked M))")
  fix ca cd v M M1
  assume c: "IS_PTR v" "cell_of v < HEAP_SIZE" "\<not> M (cell_of v)"
    and m: "mark ca cd (ca (cell_of v)) (M(cell_of v := True)) = Some M1"
    and d: "mark_dom (ca, cd, ca (cell_of v), M(cell_of v := True))"
  show "((ca, cd, cd (cell_of v), M1), ca, cd, v, M) \<in> measure (\<lambda>(ca, cd, v, M). card (unmarked M))"
    using unmarked_less [OF mark_grows [OF d m] c(3) c(2)] by simp
qed (auto intro: unmarked_less)

declare mark.simps [simp del]

definition gc_mark_val :: "i24 \<Rightarrow> unit act" where
  "gc_mark_val v s = (case mark (heap_car s) (heap_cdr s) v (heap_mark s) of
     None \<Rightarrow> Wild | Some M \<Rightarrow> Done () (s\<lparr>heap_mark := M\<rparr>))"

fun mark_vals :: "i24 list \<Rightarrow> unit act" where
  "mark_vals [] = ret ()"
| "mark_vals (v # vs) = bnd (gc_mark_val v) (\<lambda>_. mark_vals vs)"

section \<open>Sweep\<close>

text \<open>The loop from \<open>i - 1\<close> down to 0.\<close>

fun sweep_loop :: "nat \<Rightarrow> lisp \<Rightarrow> lisp" where
  "sweep_loop 0 s = s"
| "sweep_loop (Suc i) s = sweep_loop i
     (if heap_mark s i then s\<lparr>heap_mark := (heap_mark s)(i := False)\<rparr>
      else s\<lparr>heap_cdr := (heap_cdr s)(i := free_list s), heap_car := (heap_car s)(i := NIL_VAL),
             free_list := of_nat i\<rparr>)"

text \<open>How often a loop \<open>while (i < n)\<close> that starts at 0 runs.\<close>

definition count_to :: "i24 \<Rightarrow> nat" where "count_to n = nat (sint n)"

definition gc_sweep :: "unit act" where
  "gc_sweep s = (if count_to (heap_next s) \<le> HEAP_SIZE
     then Done () (sweep_loop (count_to (heap_next s)) (s\<lparr>free_list := -1\<rparr>)) else Wild)"

section \<open>Collect\<close>

definition stack_root :: "i24 \<Rightarrow> i24 \<Rightarrow> bool" where
  "stack_root hn w \<longleftrightarrow> (w AND TAG_MASK = TAG_CONS \<or> w AND TAG_MASK = TAG_EXTENDED) \<and>
     0 \<le> sint (signed_drop_bit 2 w) \<and> sint (signed_drop_bit 2 w) < sint hn"

definition gc_scan_stack :: "unit act" where
  "gc_scan_stack s = mark_vals (filter (stack_root (heap_next s)) (c_stack s)) s"

text \<open>The first \<open>n\<close> entries of an array of the given size.\<close>

definition entries :: "nat \<Rightarrow> (nat \<Rightarrow> i24) \<Rightarrow> i24 \<Rightarrow> i24 list act" where
  "entries limit a n = (if count_to n \<le> limit then ret (map a [0..<count_to n]) else wild)"

definition clear_marks :: "unit act" where
  "clear_marks s = (if count_to (heap_next s) \<le> HEAP_SIZE
     then Done () (s\<lparr>heap_mark := (\<lambda>i. heap_mark s i \<and> \<not> i < count_to (heap_next s))\<rparr>)
     else Wild)"

definition gc_collect :: "unit act" where
  "gc_collect =
     bnd (upd (\<lambda>s. s\<lparr>gc_collections := gc_collections s + 1\<rparr>)) (\<lambda>_.
     bnd clear_marks (\<lambda>_.
     bnd (get global_env) (\<lambda>e. bnd (gc_mark_val e) (\<lambda>_.
     bnd (\<lambda>s. entries MAX_GC_ROOTS (gc_roots s) (gc_root_count s) s) (\<lambda>rs.
     bnd (mark_vals rs) (\<lambda>_.
     bnd (\<lambda>s. entries MAX_WIND_DEPTH (wind_after s) (wind_depth s) s) (\<lambda>ws.
     bnd (mark_vals ws) (\<lambda>_.
     bnd (\<lambda>s. entries MAX_CATCH_DEPTH (catch_tags s) (catch_depth s) s) (\<lambda>ts.
     bnd (\<lambda>s. entries MAX_CATCH_DEPTH (catch_vals s) (catch_depth s) s) (\<lambda>vs.
     bnd (mark_vals (concat (map (\<lambda>(t, v). [t, v]) (zip ts vs)))) (\<lambda>_.
     bnd gc_scan_stack (\<lambda>_. gc_sweep))))))))))))"

section \<open>Allocate\<close>

definition take_free :: "i24 act" where
  "take_free = bnd (get free_list) (\<lambda>idx. bnd (peek_cdr idx) (\<lambda>next.
     bnd (upd (\<lambda>s. s\<lparr>free_list := next\<rparr>)) (\<lambda>_. bnd (poke_car idx NIL_VAL) (\<lambda>_.
     bnd (poke_cdr idx NIL_VAL) (\<lambda>_. ret idx)))))"

definition bump :: "i24 act" where
  "bump = bnd (get heap_next) (\<lambda>idx. bnd (upd (\<lambda>s. s\<lparr>heap_next := heap_next s + 1\<rparr>)) (\<lambda>_.
     bnd (poke_car idx NIL_VAL) (\<lambda>_. bnd (poke_cdr idx NIL_VAL) (\<lambda>_. ret idx))))"

definition gc_alloc_cell :: "i24 act" where
  "gc_alloc_cell s =
     (if sint (free_list s) \<ge> 0 then take_free s
      else if sint (heap_next s) < int HEAP_SIZE then bump s
      else bnd gc_collect (\<lambda>_ s.
        if sint (free_list s) \<ge> 0 then take_free s
        else bnd (puts_str ''PANIC:OOM heap='') (\<lambda>_. bnd (print_int (heap_next s)) (\<lambda>_.
          bnd (puts_str '' free=0 gc='') (\<lambda>_. bnd (print_int (gc_collections s)) (\<lambda>_.
          bnd (putc_uart (CHR 0x0A)) (\<lambda>_. halt))))) s) s)"

definition alloc_cell :: "i24 act" where
  "alloc_cell s =
     (if gc_enabled s then gc_alloc_cell s
      else if sint (heap_next s) \<ge> int HEAP_SIZE
      then bnd (puts_str ''PANIC:OOM (pre-GC) heap='') (\<lambda>_. bnd (print_int (heap_next s)) (\<lambda>_.
        bnd (putc_uart (CHR 0x0A)) (\<lambda>_. halt))) s
      else bump s)"

definition cons :: "i24 \<Rightarrow> i24 \<Rightarrow> i24 act" where
  "cons a d = bnd (hold [a, d] alloc_cell) (\<lambda>idx. bnd (poke_car idx a) (\<lambda>_.
     bnd (poke_cdr idx d) (\<lambda>_. ret (MAKE_CONS idx))))"

text \<open>The walk along the free list; \<open>n\<close> bounds the number of cells visited.\<close>

fun count_free :: "nat \<Rightarrow> i24 \<Rightarrow> i24 \<Rightarrow> i24 act" where
  "count_free 0 node count = starved"
| "count_free (Suc n) node count = (if sint node \<ge> 0
     then bnd (peek_cdr node) (\<lambda>next. count_free n next (count + 1)) else ret count)"

definition gc_count_free :: "i24 act" where
  "gc_count_free s = count_free (Suc HEAP_SIZE) (free_list s) 0 s"

end
