(* ===== verification/Tml_Alloc.thy ===== *)
theory Tml_Alloc
  imports Tml_Gc_Correct
begin

text \<open>
  The contract of cell allocation as a locale, its laws for \<open>gc_alloc_cell\<close> and \<open>alloc_cell\<close>, and
  what every user of the allocator needs: a cell that is reachable, also from the C stack,
  survives, and the cell handed out is new.
\<close>

section \<open>The invariant of the heap\<close>

text \<open>The cells in use: below \<open>heap_next\<close> and not in the free list.\<close>

definition used :: "lisp \<Rightarrow> nat set" where
  "used s = {i. i < count_to (heap_next s) \<and>
     (\<forall>fl. chain (heap_cdr s) (free_list s) fl \<longrightarrow> i \<notin> set fl)}"

definition sound :: "lisp \<Rightarrow> i24 \<Rightarrow> bool" where
  "sound s v \<longleftrightarrow> (IS_PTR v \<longrightarrow> cell_of v \<in> used s)"

definition free_ok :: "lisp \<Rightarrow> nat list \<Rightarrow> bool" where
  "free_ok s fl \<longleftrightarrow> distinct fl \<and> set fl \<subseteq> {..<count_to (heap_next s)} \<and>
     chain (heap_cdr s) (free_list s) fl"

definition heap_ok :: "lisp \<Rightarrow> bool" where
  "heap_ok s \<longleftrightarrow> 0 \<le> sint (heap_next s) \<and> count_to (heap_next s) \<le> HEAP_SIZE \<and>
     (\<exists>fl. free_ok s fl) \<and> counts_ok s \<and> (\<forall>v\<in>own_roots s. sound s v) \<and>
     (\<forall>i\<in>used s. sound s (heap_car s i) \<and> sound s (heap_cdr s i))"

text \<open>
  What is reachable from the roots and from the words of the C stack that denote cells in use.
  A stale word of the stack may also denote a free cell.
\<close>

definition live :: "lisp \<Rightarrow> nat set" where
  "live s = reach (heap_car s) (heap_cdr s) {v \<in> all_roots s. sound s v}"

lemma sint_cell [simp]: "i < HEAP_SIZE \<Longrightarrow> 0 \<le> sint (of_nat i :: i24)"
  "i \<le> HEAP_SIZE \<Longrightarrow> sint (of_nat i :: i24) = int i"
  by (simp_all add: sint24 HEAP_SIZE_def)

lemma unat_cell [simp]: "i < HEAP_SIZE \<Longrightarrow> unat (of_nat i :: i24) = i"
  by (simp add: HEAP_SIZE_def)

lemma count_to_unat: "0 \<le> sint n \<Longrightarrow> count_to n = unat n"
  using sint_nonneg [of n] by (simp add: count_to_def sint_small)

lemma count_to_int: "0 \<le> sint n \<Longrightarrow> int (count_to n) = sint n"
  by (simp add: count_to_def)

lemma chain_unique: "chain cd h fl \<Longrightarrow> chain cd h fl' \<Longrightarrow> fl = fl'"
proof (induction fl arbitrary: h fl')
  case Nil
  then show ?case
    by (cases fl') (auto simp: not_le [symmetric])
next
  case (Cons i fl)
  from Cons.prems obtain j fl2 where fl': "fl' = j # fl2" "h = of_nat j" "j < HEAP_SIZE"
    by (cases fl') (auto simp: not_le [symmetric])
  with Cons.prems have "i = j"
    by (metis chain.simps(2) unat_cell)
  with Cons fl' show ?case by auto
qed

lemma used_free: "free_ok s fl \<Longrightarrow> used s = {..<count_to (heap_next s)} - set fl"
  using chain_unique by (auto simp: used_def free_ok_def)

lemma live_used:
  assumes "heap_ok s"
  shows "live s \<subseteq> used s"
  unfolding live_def
proof (rule reach_closed)
  fix i j assume "i \<in> used s" "(i, j) \<in> edges (heap_car s) (heap_cdr s)"
  with assms show "j \<in> used s"
    by (auto simp: heap_ok_def sound_def elim!: edges_E)
qed (auto simp: sound_def)

lemma used_less: "i \<in> used s \<Longrightarrow> i < count_to (heap_next s)"
  by (simp add: used_def)

lemma used_size: "heap_ok s \<Longrightarrow> i \<in> used s \<Longrightarrow> i < HEAP_SIZE"
  by (auto simp: used_def heap_ok_def)

section \<open>Growing heaps\<close>

definition extends :: "lisp \<Rightarrow> lisp \<Rightarrow> bool" where
  "extends s s' \<longleftrightarrow> heap_ok s' \<and> own_roots s' = own_roots s \<and> c_stack s' = c_stack s \<and>
     sint (heap_next s) \<le> sint (heap_next s') \<and>
     (\<forall>j\<in>live s. j \<in> used s' \<and> heap_car s' j = heap_car s j \<and> heap_cdr s' j = heap_cdr s j)"

lemma extends_refl: "heap_ok s \<Longrightarrow> extends s s"
  using live_used by (auto simp: extends_def)

lemma live_root: "v \<in> all_roots s \<Longrightarrow> sound s v \<Longrightarrow> IS_PTR v \<Longrightarrow> cell_of v \<in> live s"
  by (auto simp: live_def intro: reach_root)

lemma reach_live:
  assumes "v \<in> all_roots s" and "sound s v"
  shows "reach (heap_car s) (heap_cdr s) {v} \<subseteq> live s"
  unfolding live_def by (rule reach_mono) (use assms in auto)

lemma extends_live:
  assumes "extends s s'"
  shows "live s \<subseteq> live s'"
proof -
  have roots: "all_roots s \<subseteq> all_roots s'"
    using assms by (auto simp: all_roots_def extends_def stack_root_def)
  have snd: "sound s' v" if "v \<in> all_roots s" "sound s v" for v
    using assms live_root [OF that] by (auto simp: sound_def extends_def)
  have "live s = reach (heap_car s') (heap_cdr s') {v \<in> all_roots s. sound s v}"
    unfolding live_def
    by (rule reach_same [symmetric]) (use assms in \<open>auto simp: extends_def live_def\<close>)
  also have "\<dots> \<subseteq> live s'"
    unfolding live_def by (rule reach_mono) (use roots snd in auto)
  finally show ?thesis .
qed

lemma extends_trans:
  assumes "extends s s1" and "extends s1 s2"
  shows "extends s s2"
  using assms extends_live [OF assms(1)] unfolding extends_def by fastforce

text \<open>What a value on the stack or in a root reaches is still there in a state that extends.\<close>

lemma extends_keeps:
  assumes "extends s s'" and "v \<in> all_roots s" and "sound s v"
  shows "sound s' v"
    and "i \<in> reach (heap_car s) (heap_cdr s) {v} \<Longrightarrow>
      heap_car s' i = heap_car s i \<and> heap_cdr s' i = heap_cdr s i \<and> i \<in> live s"
proof -
  show "sound s' v"
    using assms live_root by (auto simp: sound_def extends_def)
  show "i \<in> reach (heap_car s) (heap_cdr s) {v} \<Longrightarrow>
      heap_car s' i = heap_car s i \<and> heap_cdr s' i = heap_cdr s i \<and> i \<in> live s"
    using assms reach_live [OF assms(2,3)] by (auto simp: extends_def)
qed

text \<open>Locals on the stack.\<close>

lemma stack_only [simp]:
  "used (s\<lparr>c_stack := x\<rparr>) = used s" "sound (s\<lparr>c_stack := x\<rparr>) v = sound s v"
  "own_roots (s\<lparr>c_stack := x\<rparr>) = own_roots s" "counts_ok (s\<lparr>c_stack := x\<rparr>) = counts_ok s"
  "heap_ok (s\<lparr>c_stack := x\<rparr>) = heap_ok s"
  by (simp_all add: used_def sound_def own_roots_def counts_ok_def heap_ok_def free_ok_def)

lemma live_push: "live s \<subseteq> live (s\<lparr>c_stack := vs @ c_stack s\<rparr>)"
  unfolding live_def by (simp, rule reach_mono) (auto simp: all_roots_def)

lemma pushed_root:
  assumes "heap_ok s" "v \<in> set vs" "sound s v" "IS_PTR v"
  shows "v \<in> all_roots (s\<lparr>c_stack := vs @ c_stack s\<rparr>)"
proof -
  have "cell_of v < count_to (heap_next s)" "count_to (heap_next s) \<le> HEAP_SIZE"
    using assms by (auto simp: sound_def used_def heap_ok_def)
  then have "unat (PTR_IDX v) < HEAP_SIZE" "int (unat (PTR_IDX v)) < sint (heap_next s)"
    using assms(1) count_to_int [of "heap_next s"] unfolding cell_of_def heap_ok_def by linarith+
  moreover from this have "sint (PTR_IDX v) = int (unat (PTR_IDX v))"
    by (simp add: sint24 HEAP_SIZE_def)
  ultimately have "stack_root (heap_next s) v"
    using assms(4) by (auto simp: stack_root_def IS_PTR_def IS_CONS_def IS_EXTENDED_def PTR_IDX_def)
  with assms(2) show ?thesis
    by (simp add: all_roots_def)
qed

lemma extends_pop:
  assumes "extends (s\<lparr>c_stack := vs @ c_stack s\<rparr>) s1"
  shows "extends s (s1\<lparr>c_stack := c_stack s\<rparr>)"
  using assms live_push [of s vs] by (auto simp: extends_def)

lemma hold_Done:
  assumes "hold vs m s = Done a s'"
  obtains s1 where "m (s\<lparr>c_stack := vs @ c_stack s\<rparr>) = Done a s1" "s' = s1\<lparr>c_stack := c_stack s\<rparr>"
  using assms by (auto simp: hold_def bnd_Done)

lemma hold_step: "m (s\<lparr>c_stack := vs @ c_stack s\<rparr>) = Done a s1 \<Longrightarrow> hold vs m s = Done a (s1\<lparr>c_stack := c_stack s\<rparr>)"
  by (simp add: hold_def bnd_def)

text \<open>Holding a value keeps what it reaches.\<close>

lemma held_keeps:
  assumes "extends (s\<lparr>c_stack := vs @ c_stack s\<rparr>) s1" and "heap_ok s" and "v \<in> set vs" and "sound s v"
  shows "sound s1 v"
    and "i \<in> reach (heap_car s) (heap_cdr s) {v} \<Longrightarrow>
      heap_car s1 i = heap_car s i \<and> heap_cdr s1 i = heap_cdr s i \<and>
      i \<in> live (s\<lparr>c_stack := vs @ c_stack s\<rparr>)"
proof -
  show "sound s1 v"
    using extends_keeps(1) [OF assms(1) pushed_root [OF assms(2,3,4)]] assms(4)
    by (cases "IS_PTR v") (auto simp: sound_def)
  show "i \<in> reach (heap_car s) (heap_cdr s) {v} \<Longrightarrow>
      heap_car s1 i = heap_car s i \<and> heap_cdr s1 i = heap_cdr s i \<and>
      i \<in> live (s\<lparr>c_stack := vs @ c_stack s\<rparr>)"
    using extends_keeps(2) [OF assms(1) pushed_root [OF assms(2,3,4)], of i] assms(4)
    by (cases "IS_PTR v") (auto simp: reach_def)
qed


text \<open>The heap does not depend on the symbol table, the string pool, the reader and the line.\<close>

definition same_heap :: "lisp \<Rightarrow> lisp \<Rightarrow> bool" where
  "same_heap s s' \<longleftrightarrow> heap_car s' = heap_car s \<and> heap_cdr s' = heap_cdr s \<and> heap_next s' = heap_next s \<and>
     free_list s' = free_list s \<and> global_env s' = global_env s \<and> c_stack s' = c_stack s \<and>
     gc_roots s' = gc_roots s \<and> gc_root_count s' = gc_root_count s \<and>
     wind_after s' = wind_after s \<and> wind_depth s' = wind_depth s \<and> catch_tags s' = catch_tags s \<and>
     catch_vals s' = catch_vals s \<and> catch_depth s' = catch_depth s"

lemma same_heap_facts:
  assumes "same_heap s s'"
  shows "used s' = used s" and "sound s' v = sound s v" and "own_roots s' = own_roots s"
    and "heap_ok s' = heap_ok s" and "all_roots s' = all_roots s" and "live s' = live s"
proof -
  show u: "used s' = used s" and r: "own_roots s' = own_roots s" and a: "all_roots s' = all_roots s"
    using assms by (simp_all add: same_heap_def used_def own_roots_def all_roots_def)
  show snd: "sound s' v = sound s v" for v
    using u by (simp add: sound_def)
  show "heap_ok s' = heap_ok s"
    using assms u r snd by (simp add: heap_ok_def free_ok_def counts_ok_def same_heap_def)
  show "live s' = live s"
    using assms a snd by (simp add: live_def same_heap_def)
qed

lemma same_heap_extends:
  assumes "same_heap s s'" and "heap_ok s"
  shows "extends s s'"
  using same_heap_facts [OF assms(1)] assms live_used [OF assms(2)]
  by (auto simp: extends_def same_heap_def)

section \<open>Handing out a cell\<close>

text \<open>Allocation changes nothing but the heap, the marks, the free list and the statistics.\<close>

definition alloc_frame :: "lisp \<Rightarrow> lisp \<Rightarrow> bool" where
  "alloc_frame s s' \<longleftrightarrow> (\<exists>a d n m f k. s' = s\<lparr>heap_car := a, heap_cdr := d, heap_next := n,
     heap_mark := m, free_list := f, gc_collections := k\<rparr>)"

lemma alloc_frame_intro:
  "alloc_frame s (s\<lparr>heap_car := a, heap_cdr := d, heap_next := n, heap_mark := m, free_list := f,
     gc_collections := k\<rparr>)"
  unfolding alloc_frame_def by blast

definition fresh_cell :: "lisp \<Rightarrow> nat \<Rightarrow> lisp \<Rightarrow> bool" where
  "fresh_cell s i s' \<longleftrightarrow> extends s s' \<and> alloc_frame s s' \<and> i < HEAP_SIZE \<and> i \<in> used s' \<and> i \<notin> live s \<and>
     heap_car s' i = NIL_VAL \<and> heap_cdr s' i = NIL_VAL"

lemma alloc_frame_trans: "alloc_frame s s1 \<Longrightarrow> alloc_frame s1 s2 \<Longrightarrow> alloc_frame s s2"
  unfolding alloc_frame_def by (elim exE, hypsubst, simp, intro exI, rule refl)

lemma alloc_frame_roots:
  "alloc_frame s s' \<Longrightarrow> own_roots s' = own_roots s \<and> counts_ok s' = counts_ok s \<and>
    c_stack s' = c_stack s"
  unfolding alloc_frame_def own_roots_def counts_ok_def by (elim exE, hypsubst) simp

lemma fresh_extends: "extends s s1 \<Longrightarrow> alloc_frame s s1 \<Longrightarrow> fresh_cell s1 i s2 \<Longrightarrow> fresh_cell s i s2"
  using extends_trans alloc_frame_trans extends_live [of s s1] unfolding fresh_cell_def by blast

lemma alloc_framed [intro]:
  "alloc_frame s (s\<lparr>free_list := f, heap_car := a, heap_cdr := d\<rparr>)"
  "alloc_frame s (s\<lparr>heap_next := n, heap_car := a, heap_cdr := d\<rparr>)"
  "alloc_frame s (s\<lparr>heap_car := a, heap_cdr := d, heap_mark := m, free_list := f, gc_collections := k\<rparr>)"
proof -
  have e: "s\<lparr>free_list := f, heap_car := a, heap_cdr := d\<rparr> = s\<lparr>heap_car := a, heap_cdr := d,
      heap_next := heap_next s, heap_mark := heap_mark s, free_list := f, gc_collections := gc_collections s\<rparr>"
    "s\<lparr>heap_next := n, heap_car := a, heap_cdr := d\<rparr> = s\<lparr>heap_car := a, heap_cdr := d, heap_next := n,
      heap_mark := heap_mark s, free_list := free_list s, gc_collections := gc_collections s\<rparr>"
    "s\<lparr>heap_car := a, heap_cdr := d, heap_mark := m, free_list := f, gc_collections := k\<rparr> =
      s\<lparr>heap_car := a, heap_cdr := d, heap_next := heap_next s, heap_mark := m, free_list := f,
      gc_collections := k\<rparr>"
    by (rule lisp.equality, simp_all)+
  show "alloc_frame s (s\<lparr>free_list := f, heap_car := a, heap_cdr := d\<rparr>)"
    "alloc_frame s (s\<lparr>heap_next := n, heap_car := a, heap_cdr := d\<rparr>)"
    "alloc_frame s (s\<lparr>heap_car := a, heap_cdr := d, heap_mark := m, free_list := f, gc_collections := k\<rparr>)"
    unfolding e by (rule alloc_frame_intro)+
qed

text \<open>A state with one more cell in use.\<close>

lemma fresh_intro:
  assumes "heap_ok s" and "used s' = insert i (used s)" and "i \<notin> used s" and "i < HEAP_SIZE"
    and "heap_car s' = (heap_car s)(i := NIL_VAL)"
    and "\<forall>j\<in>used s. heap_cdr s' j = heap_cdr s j" and "heap_cdr s' i = NIL_VAL"
    and "alloc_frame s s'" and "free_ok s' fl" and "sint (heap_next s) \<le> sint (heap_next s')"
    and "sint (heap_next s') \<le> int HEAP_SIZE"
  shows "fresh_cell s i s'"
proof -
  have roots: "own_roots s' = own_roots s" "counts_ok s' = counts_ok s" "c_stack s' = c_stack s"
    using alloc_frame_roots [OF assms(8)] by simp_all
  have snd: "sound s' v" if "sound s v" for v
    using that assms(2) by (auto simp: sound_def)
  have "\<forall>j\<in>used s'. sound s' (heap_car s' j) \<and> sound s' (heap_cdr s' j)"
    using assms snd by (auto simp: heap_ok_def sound_def IS_PTR_def)
  then have "heap_ok s'"
    using assms roots snd by (auto simp: heap_ok_def count_to_def)
  then have "extends s s'"
    using assms roots live_used [of s] by (auto simp: extends_def)
  then show ?thesis
    using assms live_used [of s] by (auto simp: fresh_cell_def)
qed

lemma take_free_fresh:
  assumes ok: "heap_ok s" and fl: "free_ok s (i # fl)"
  shows "\<exists>s'. take_free s = Done (of_nat i) s' \<and> fresh_cell s i s'"
proof -
  let ?s = "s\<lparr>free_list := heap_cdr s i, heap_car := (heap_car s)(i := NIL_VAL),
    heap_cdr := (heap_cdr s)(i := NIL_VAL)\<rparr>"
  from fl have i: "free_list s = of_nat i" "i < HEAP_SIZE" "i \<notin> set fl"
    by (auto simp: free_ok_def)
  have "chain ((heap_cdr s)(i := NIL_VAL)) (heap_cdr s i) fl"
    using fl i by (subst chain_cong [of fl _ "heap_cdr s"]) (auto simp: free_ok_def)
  then have fl': "free_ok ?s fl"
    using fl by (auto simp: free_ok_def)
  have "take_free s = Done (of_nat i) ?s"
    using i by (simp add: take_free_def peek_cdr_def poke_car_def poke_cdr_def bnd_def)
  moreover have "fresh_cell s i ?s"
  proof (rule fresh_intro [OF ok _ _ i(2), of _ fl])
    show "used ?s = insert i (used s)" "i \<notin> used s"
      using i fl used_free [OF fl] used_free [OF fl'] by (auto simp: free_ok_def)
    then show "\<forall>j\<in>used s. heap_cdr ?s j = heap_cdr s j" by auto
    show "sint (heap_next ?s) \<le> int HEAP_SIZE"
      using ok by (auto simp: heap_ok_def count_to_def)
  qed (use fl' in \<open>auto intro: alloc_framed\<close>)
  ultimately show ?thesis by blast
qed

lemma bump_fresh:
  assumes ok: "heap_ok s" and fl: "free_ok s fl" and lt: "sint (heap_next s) < int HEAP_SIZE"
  shows "\<exists>s'. bump s = Done (of_nat (count_to (heap_next s))) s' \<and>
    fresh_cell s (count_to (heap_next s)) s'"
proof -
  let ?i = "count_to (heap_next s)"
  let ?s = "s\<lparr>heap_next := heap_next s + 1, heap_car := (heap_car s)(?i := NIL_VAL),
    heap_cdr := (heap_cdr s)(?i := NIL_VAL)\<rparr>"
  have n: "0 \<le> sint (heap_next s)" using ok by (simp add: heap_ok_def)
  then have i: "?i < HEAP_SIZE" "unat (heap_next s) = ?i" "heap_next s = of_nat ?i"
    using lt count_to_int [OF n] count_to_unat [OF n] by (linarith, simp, simp)
  have nx: "heap_next s + 1 = of_nat (Suc ?i)"
    by (subst i(3)) simp
  have c: "count_to (heap_next s + 1) = Suc ?i"
    unfolding nx using i(1) by (simp add: count_to_def del: of_nat_Suc)
  have sn: "sint (heap_next s + 1) = int (Suc ?i)"
    unfolding nx using i(1) by (simp del: of_nat_Suc)
  have "chain ((heap_cdr s)(?i := NIL_VAL)) (free_list s) fl"
    using fl by (subst chain_cong [of fl _ "heap_cdr s"]) (auto simp: free_ok_def)
  then have fl': "free_ok ?s fl"
    using fl c by (auto simp: free_ok_def)
  have "bump s = Done (of_nat ?i) ?s"
    using i by (simp add: bump_def poke_car_def poke_cdr_def bnd_def)
  moreover have "fresh_cell s ?i ?s"
  proof (rule fresh_intro [OF ok _ _ i(1), of _ fl])
    show "used ?s = insert ?i (used s)" "?i \<notin> used s"
      using fl used_free [OF fl] used_free [OF fl'] c by (auto simp: free_ok_def)
    then show "\<forall>j\<in>used s. heap_cdr ?s j = heap_cdr s j" by auto
    show "sint (heap_next s) \<le> sint (heap_next ?s)" "sint (heap_next ?s) \<le> int HEAP_SIZE"
      using sn i(1) n count_to_int [OF n] by auto
  qed (use fl' in \<open>auto intro: alloc_framed\<close>)
  ultimately show ?thesis by blast
qed

section \<open>Collecting\<close>

lemma live_reachable:
  assumes ok: "heap_ok s" and fl: "free_ok s []"
  shows "live s = reachable s" and "reachable s \<subseteq> {..<count_to (heap_next s)}"
proof -
  have u: "used s = {..<count_to (heap_next s)}"
    using used_free [OF fl] by simp
  have "sound s w" if w: "stack_root (heap_next s) w" for w
  proof -
    have p: "0 \<le> sint (PTR_IDX w)" "sint (PTR_IDX w) < sint (heap_next s)"
      using w by (simp_all add: stack_root_def PTR_IDX_def)
    then have "cell_of w < count_to (heap_next s)"
      using count_to_unat [OF p(1)] unfolding cell_of_def count_to_def by linarith
    with u show ?thesis
      by (simp add: sound_def)
  qed
  moreover have "\<forall>v\<in>own_roots s. sound s v"
    using ok by (simp add: heap_ok_def)
  ultimately have "{v \<in> all_roots s. sound s v} = all_roots s"
    by (auto simp: all_roots_def)
  then show "live s = reachable s"
    by (simp add: live_def reachable_def)
  with live_used [OF ok] u show "reachable s \<subseteq> {..<count_to (heap_next s)}"
    by simp
qed

lemma gc_collect_frees:
  assumes ok: "heap_ok s" and fl: "free_ok s []"
  shows "\<exists>s' fl'. gc_collect s = Done () s' \<and> extends s s' \<and> alloc_frame s s' \<and> free_ok s' fl' \<and>
    set fl' = {..<count_to (heap_next s)} - reachable s"
proof -
  let ?fl = "filter (\<lambda>i. i \<notin> reachable s) [0..<count_to (heap_next s)]"
  have n: "count_to (heap_next s) \<le> HEAP_SIZE" "counts_ok s"
    using ok by (auto simp: heap_ok_def)
  from gc_collect_spec [OF n live_reachable(2) [OF ok fl]] obtain ca cd M f k where
    e: "gc_collect s = Done () (s\<lparr>heap_car := ca, heap_cdr := cd, heap_mark := M,
      free_list := f, gc_collections := k\<rparr>)" (is "_ = Done () ?s")
    and c: "\<forall>i\<in>reachable s. ca i = heap_car s i \<and> cd i = heap_cdr s i"
    and f: "chain cd f ?fl"
    by blast
  have fl': "free_ok ?s ?fl"
    using f by (auto simp: free_ok_def)
  have u: "used ?s = reachable s"
    using used_free [OF fl'] live_reachable(2) [OF ok fl] by auto
  have r: "own_roots ?s = own_roots s" "counts_ok ?s = counts_ok s"
    by (simp_all add: own_roots_def counts_ok_def)
  have snd: "sound ?s v" if "v \<in> all_roots s" for v
    using that u by (auto simp: sound_def reachable_def intro: reach_root)
  have "heap_ok ?s"
    unfolding heap_ok_def r
  proof (intro conjI ballI)
    show "sound ?s v" if "v \<in> own_roots s" for v
      using that snd by (simp add: all_roots_def)
    show "sound ?s (heap_car ?s i)" "sound ?s (heap_cdr ?s i)" if "i \<in> used ?s" for i
      using that c u by (auto simp: sound_def reachable_def intro: reach_car reach_cdr)
  qed (use ok fl' in \<open>auto simp: heap_ok_def\<close>)
  then have "extends s ?s"
    using c u r live_reachable(1) [OF ok fl] by (auto simp: extends_def)
  moreover have "alloc_frame s ?s"
    by (rule alloc_framed)
  moreover have "set ?fl = {..<count_to (heap_next s)} - reachable s"
    by auto
  ultimately show ?thesis
    using e fl' by blast
qed

lemma free_list_sign: "free_ok s fl \<Longrightarrow> 0 \<le> sint (free_list s) \<longleftrightarrow> fl \<noteq> []"
  by (cases fl) (auto simp: free_ok_def)

theorem gc_alloc_fresh:
  assumes ok: "heap_ok s"
  shows "(\<exists>i s'. gc_alloc_cell s = Done (of_nat i) s' \<and> fresh_cell s i s') \<or>
    (\<exists>s'. gc_alloc_cell s = Halted s' \<and> reachable s = {..<HEAP_SIZE})"
proof -
  from ok obtain fl where fl: "free_ok s fl" by (auto simp: heap_ok_def)
  show ?thesis
  proof (cases fl)
    case (Cons i fl2)
    with fl ok take_free_fresh [of s i fl2] free_list_sign [OF fl] show ?thesis
      by (auto simp: gc_alloc_cell_def)
  next
    case Nil
    then have neg: "\<not> 0 \<le> sint (free_list s)"
      using free_list_sign [OF fl] by simp
    show ?thesis
    proof (cases "sint (heap_next s) < int HEAP_SIZE")
      case True
      with neg bump_fresh [OF ok fl True] show ?thesis
        by (auto simp: gc_alloc_cell_def)
    next
      case False
      have n: "count_to (heap_next s) = HEAP_SIZE"
        using ok False by (auto simp: heap_ok_def count_to_def)
      from gc_collect_frees [OF ok] fl Nil obtain s1 fl1 where c: "gc_collect s = Done () s1"
        "extends s s1" "alloc_frame s s1" "free_ok s1 fl1"
        "set fl1 = {..<count_to (heap_next s)} - reachable s"
        by auto
      have ok1: "heap_ok s1" using c(2) by (simp add: extends_def)
      show ?thesis
      proof (cases fl1)
        case Nil
        have "reachable s \<subseteq> {..<HEAP_SIZE}"
          using live_reachable(2) [OF ok] fl \<open>fl = []\<close> n by simp
        with Nil c n have "reachable s = {..<HEAP_SIZE}" by auto
        moreover have "\<exists>s'. gc_alloc_cell s = Halted s'"
          using neg False c(1) free_list_sign [OF c(4)] Nil
          by (simp add: gc_alloc_cell_def bnd_step)
        ultimately show ?thesis by blast
      next
        case (Cons i fl2)
        with take_free_fresh [OF ok1] c(4) obtain s2 where t: "take_free s1 = Done (of_nat i) s2"
          "fresh_cell s1 i s2" by blast
        with neg False c(1) free_list_sign [OF c(4)] Cons
        have "gc_alloc_cell s = Done (of_nat i) s2"
          by (simp add: gc_alloc_cell_def bnd_step)
        with fresh_extends [OF c(2,3) t(2)] show ?thesis by blast
      qed
    qed
  qed
qed


section \<open>The contract\<close>

text \<open>
  An allocator returns a fresh cell or halts.  Inside the locale: filling the cell while its
  contents are held on the stack, which is how \<open>cons\<close> and the constructors of extended objects
  use it.
\<close>

locale cell_allocator =
  fixes alloc :: "i24 act"
  assumes alloc_fresh: "heap_ok s \<Longrightarrow> alloc s = Done x s' \<Longrightarrow> \<exists>i. x = of_nat i \<and> fresh_cell s i s'"
    and alloc_outcome: "heap_ok s \<Longrightarrow> (\<exists>x s'. alloc s = Done x s') \<or> (\<exists>s'. alloc s = Halted s')"
begin

definition make_cell :: "i24 list \<Rightarrow> (i24 \<Rightarrow> i24) \<Rightarrow> i24 \<Rightarrow> i24 \<Rightarrow> i24 act" where
  "make_cell vs tag a d = bnd (hold vs alloc) (\<lambda>idx. bnd (poke_car idx a) (\<lambda>_.
     bnd (poke_cdr idx d) (\<lambda>_. ret (tag idx))))"

lemma make_cell_fresh:
  assumes run: "make_cell vs tag a d s = Done v s'" and ok: "heap_ok s"
    and snd: "sound s a" "sound s d"
    and held: "IS_PTR a \<Longrightarrow> a \<in> set vs" "IS_PTR d \<Longrightarrow> d \<in> set vs"
  shows "\<exists>i. v = tag (of_nat i) \<and> i < HEAP_SIZE \<and> i \<in> used s' \<and> i \<notin> live s \<and> extends s s' \<and>
    alloc_frame s s' \<and> heap_car s' i = a \<and> heap_cdr s' i = d \<and>
    (\<forall>w j. w \<in> set vs \<longrightarrow> sound s w \<longrightarrow> j \<in> reach (heap_car s) (heap_cdr s) {w} \<longrightarrow>
       heap_car s' j = heap_car s j \<and> heap_cdr s' j = heap_cdr s j \<and> j \<in> used s' \<and> j \<noteq> i)"
proof -
  let ?p = "s\<lparr>c_stack := vs @ c_stack s\<rparr>"
  from run obtain x s1 where h: "hold vs alloc s = Done x s1"
    and k: "bnd (poke_car x a) (\<lambda>_. bnd (poke_cdr x d) (\<lambda>_. ret (tag x))) s1 = Done v s'"
    by (auto simp: make_cell_def elim: bnd_Done_E)
  from h obtain s2 where a2: "alloc ?p = Done x s2" and s1: "s1 = s2\<lparr>c_stack := c_stack s\<rparr>"
    by (rule hold_Done)
  have okp: "heap_ok ?p" using ok by simp
  from alloc_fresh [OF okp a2] obtain i where i: "x = of_nat i" and f: "fresh_cell ?p i s2"
    by auto
  have i_lt: "i < HEAP_SIZE" "i \<in> used s2" "i \<notin> live ?p" and ext: "extends ?p s2"
    and fr: "alloc_frame ?p s2"
    using f by (auto simp: fresh_cell_def)
  have s': "s' = s1\<lparr>heap_car := (heap_car s1)(i := a), heap_cdr := (heap_cdr s1)(i := d)\<rparr>" "v = tag x"
    using k i i_lt(1) by (auto simp: poke_car_def poke_cdr_def bnd_def)
  have ext1: "extends s s1"
    unfolding s1 by (rule extends_pop [OF ext])
  have iu: "i \<in> used s1"
    using i_lt(2) s1 by simp
  have i_live: "i \<notin> live s"
    using i_lt(3) live_push [of s vs] by auto
  have ok1: "heap_ok s1" using ext1 by (simp add: extends_def)
  then obtain fl where fl: "free_ok s1 fl" by (auto simp: heap_ok_def)
  have "chain ((heap_cdr s1)(i := d)) (free_list s1) fl"
    using fl iu used_free [OF fl] by (subst chain_cong [of fl _ "heap_cdr s1"]) (auto simp: free_ok_def)
  then have fl': "free_ok s' fl"
    using fl by (simp add: s' free_ok_def)
  have u: "used s' = used s1"
    using used_free [OF fl] used_free [OF fl'] by (simp add: s')
  have snd': "sound s1 a" "sound s1 d"
    using held_keeps(1) [OF ext ok _ snd(1)] held_keeps(1) [OF ext ok _ snd(2)] held
    by (auto simp: s1 sound_def)
  have "heap_ok s'"
    using ok1 fl' u snd'
    by (auto simp: heap_ok_def s' own_roots_def counts_ok_def sound_def)
  then have "extends s s'"
    using ext1 i_live u by (auto simp: extends_def s' own_roots_def)
  moreover have "alloc_frame s s'"
  proof -
    from fr obtain ca cd n m f k where s2: "s2 = ?p\<lparr>heap_car := ca, heap_cdr := cd, heap_next := n,
        heap_mark := m, free_list := f, gc_collections := k\<rparr>"
      unfolding alloc_frame_def by blast
    have "s' = s\<lparr>heap_car := ca(i := a), heap_cdr := cd(i := d), heap_next := n,
        heap_mark := m, free_list := f, gc_collections := k\<rparr>"
      unfolding s' s1 s2 by (rule lisp.equality) simp_all
    then show ?thesis
      unfolding alloc_frame_def by blast
  qed
  moreover have "heap_car s' j = heap_car s j \<and> heap_cdr s' j = heap_cdr s j \<and> j \<in> used s' \<and> j \<noteq> i"
    if "w \<in> set vs" "sound s w" "j \<in> reach (heap_car s) (heap_cdr s) {w}" for w j
  proof -
    from held_keeps(2) [OF ext ok that(1,2,3)] have k: "heap_car s2 j = heap_car s j"
      "heap_cdr s2 j = heap_cdr s j" "j \<in> live ?p" by auto
    with i_lt(3) ext u show ?thesis
      by (auto simp: s' s1 extends_def)
  qed
  moreover have "heap_car s' i = a" "heap_cdr s' i = d"
    by (simp_all add: s')
  ultimately show ?thesis
    using i i_lt(1) iu u i_live s'(2) by (intro exI [of _ i]) blast
qed

lemma make_cell_outcome:
  assumes ok: "heap_ok s"
  shows "(\<exists>v s'. make_cell vs tag a d s = Done v s') \<or> (\<exists>s'. make_cell vs tag a d s = Halted s')"
proof -
  let ?p = "s\<lparr>c_stack := vs @ c_stack s\<rparr>"
  have okp: "heap_ok ?p" using ok by simp
  show ?thesis
    using alloc_outcome [OF okp]
  proof (elim disjE exE)
    fix x s1 assume a: "alloc ?p = Done x s1"
    with alloc_fresh [OF okp a] have "unat x < HEAP_SIZE"
      by (auto simp: fresh_cell_def)
    with a show ?thesis
      by (simp add: make_cell_def hold_def bnd_def poke_car_def poke_cdr_def)
  qed (simp add: make_cell_def hold_def bnd_def)
qed

end

interpretation gc: cell_allocator gc_alloc_cell
proof
  show "\<exists>i. x = of_nat i \<and> fresh_cell s i s'" if "heap_ok s" "gc_alloc_cell s = Done x s'" for s x s'
    using gc_alloc_fresh [OF that(1)] that(2) by auto
  show "(\<exists>x s'. gc_alloc_cell s = Done x s') \<or> (\<exists>s'. gc_alloc_cell s = Halted s')" if "heap_ok s" for s
    using gc_alloc_fresh [OF that] by auto
qed

lemma alloc_cell_cases:
  assumes ok: "heap_ok s"
  shows "(\<exists>i s'. alloc_cell s = Done (of_nat i) s' \<and> fresh_cell s i s') \<or> (\<exists>s'. alloc_cell s = Halted s')"
proof (cases "gc_enabled s")
  case True
  with gc_alloc_fresh [OF ok] show ?thesis by (auto simp: alloc_cell_def)
next
  case False
  from ok obtain fl where fl: "free_ok s fl" by (auto simp: heap_ok_def)
  show ?thesis
  proof (cases "sint (heap_next s) < int HEAP_SIZE")
    case True
    with False bump_fresh [OF ok fl True] show ?thesis
      by (simp add: alloc_cell_def) blast
  qed (simp add: alloc_cell_def False)
qed

interpretation cells: cell_allocator alloc_cell
proof
  show "\<exists>i. x = of_nat i \<and> fresh_cell s i s'" if "heap_ok s" "alloc_cell s = Done x s'" for s x s'
    using alloc_cell_cases [OF that(1)] that(2) by auto
  show "(\<exists>x s'. alloc_cell s = Done x s') \<or> (\<exists>s'. alloc_cell s = Halted s')" if "heap_ok s" for s
    using alloc_cell_cases [OF that] by auto
qed

lemma cons_make_cell: "cons a d = cells.make_cell [a, d] MAKE_CONS a d"
  by (simp add: cons_def cells.make_cell_def)

end
