(* ===== verification/Tml_Symbol.thy ===== *)
theory Tml_Symbol
  imports Tml
begin

text \<open>
  Symbol interning (\<open>symbol.h\<close>).  A C string that is passed as an argument is the list of its
  characters before the terminating NUL; a string inside \<open>name_pool\<close> is its offset there.
\<close>

definition MAX_SYMBOLS :: nat where "MAX_SYMBOLS = 512"
definition NAME_POOL_SIZE :: nat where "NAME_POOL_SIZE = 4096"

definition NUL :: char where "NUL = CHR 0x00"

fun str_eq :: "i24 \<Rightarrow> string \<Rightarrow> bool act" where
  "str_eq a [] s = (if unat a < NAME_POOL_SIZE then Done (name_pool s (unat a) = NUL) s else Wild)"
| "str_eq a (d # ds) s =
     (if unat a < NAME_POOL_SIZE
      then (let c = name_pool s (unat a) in
        if c \<noteq> NUL \<and> d \<noteq> NUL \<and> c = d then str_eq (a + 1) ds s else Done (c = d) s)
      else Wild)"

fun str_len :: "string \<Rightarrow> i24" where
  "str_len [] = 0"
| "str_len (c # cs) = 1 + str_len cs"

definition poke_name :: "i24 \<Rightarrow> char \<Rightarrow> unit act" where
  "poke_name a c s = (if unat a < NAME_POOL_SIZE
     then Done () (s\<lparr>name_pool := (name_pool s)(unat a := c)\<rparr>) else Wild)"

fun str_copy :: "i24 \<Rightarrow> string \<Rightarrow> unit act" where
  "str_copy dst [] = poke_name dst NUL"
| "str_copy dst (c # cs) = bnd (poke_name dst c) (\<lambda>_. str_copy (dst + 1) cs)"

definition peek_offset :: "i24 \<Rightarrow> i24 act" where
  "peek_offset i s = (if unat i < MAX_SYMBOLS then Done (sym_name_off s (unat i)) s else Wild)"

definition sym_name :: "i24 \<Rightarrow> i24 act" where
  "sym_name v = peek_offset (PTR_IDX v)"

text \<open>The search loop of \<open>intern\<close> with \<open>k\<close> symbols left from index \<open>i\<close> on.\<close>

fun intern_search :: "nat \<Rightarrow> nat \<Rightarrow> string \<Rightarrow> i24 option act" where
  "intern_search 0 i name = ret None"
| "intern_search (Suc k) i name = bnd (peek_offset (of_nat i)) (\<lambda>off. bnd (str_eq off name)
     (\<lambda>eq. if eq then ret (Some (MAKE_SYMBOL (of_nat i))) else intern_search k (Suc i) name))"

definition intern :: "string \<Rightarrow> i24 act" where
  "intern name = bnd (\<lambda>s. intern_search (nat (sint (sym_count s))) 0 name s) (\<lambda>found.
     case found of Some v \<Rightarrow> ret v
     | None \<Rightarrow> (\<lambda>s.
       if sint (sym_count s) \<ge> int MAX_SYMBOLS
       then bnd (puts_str ''PANIC:symbol table full ('') (\<lambda>_. bnd (print_int (sym_count s))
         (\<lambda>_. bnd (puts_str '')\<newline>'') (\<lambda>_. halt))) s
       else if sint (name_pool_next s + str_len name + 1) > int NAME_POOL_SIZE
       then bnd (puts_str ''PANIC:symbol name pool full ('') (\<lambda>_. bnd (print_int (name_pool_next s))
         (\<lambda>_. bnd (puts_str ''/'') (\<lambda>_. bnd (print_int (of_nat NAME_POOL_SIZE))
         (\<lambda>_. bnd (puts_str '')\<newline>'') (\<lambda>_. halt))))) s
       else if unat (sym_count s) < MAX_SYMBOLS
       then bnd (upd (\<lambda>s. s\<lparr>sym_name_off := (sym_name_off s)(unat (sym_count s) := name_pool_next s)\<rparr>))
         (\<lambda>_. bnd (str_copy (name_pool_next s) name) (\<lambda>_.
          bnd (upd (\<lambda>s. s\<lparr>name_pool_next := name_pool_next s + str_len name + 1\<rparr>)) (\<lambda>_.
          bnd (upd (\<lambda>s. s\<lparr>sym_count := sym_count s + 1\<rparr>)) (\<lambda>_.
          ret (MAKE_SYMBOL (sym_count s)))))) s
       else Wild))"

definition symbol_init :: "unit act" where
  "symbol_init = bnd (upd (\<lambda>s. s\<lparr>name_pool_next := 0, sym_count := 0\<rparr>)) (\<lambda>_.
     bnd (intern ''nil'') (\<lambda>_. bnd (intern ''t'') (\<lambda>_. ret ())))"

section \<open>The table as the list of its names\<close>

definition pool_text :: "string list \<Rightarrow> string" where
  "pool_text ns = concat (map (\<lambda>n. n @ [NUL]) ns)"

definition symtab :: "lisp \<Rightarrow> string list \<Rightarrow> bool" where
  "symtab s ns \<longleftrightarrow> length ns \<le> MAX_SYMBOLS \<and> sym_count s = of_nat (length ns) \<and>
     length (pool_text ns) \<le> NAME_POOL_SIZE \<and> name_pool_next s = of_nat (length (pool_text ns)) \<and>
     (\<forall>k<length (pool_text ns). name_pool s k = pool_text ns ! k) \<and>
     (\<forall>i<length ns. sym_name_off s i = of_nat (length (pool_text (take i ns)))) \<and>
     distinct ns \<and> (\<forall>n\<in>set ns. NUL \<notin> set n)"

lemma pool_text_simps [simp]:
  "pool_text [] = []" "pool_text (n # ns) = n @ NUL # pool_text ns"
  "pool_text (ns @ ms) = pool_text ns @ pool_text ms"
  by (simp_all add: pool_text_def)

lemma pool_split:
  assumes "i < length ns"
  shows "pool_text ns = pool_text (take i ns) @ ns ! i @ NUL # pool_text (drop (Suc i) ns)"
  by (subst id_take_nth_drop [OF assms]) simp

lemma unat_pool [simp]: "n \<le> NAME_POOL_SIZE \<Longrightarrow> unat (of_nat n :: i24) = n"
  "n \<le> MAX_SYMBOLS \<Longrightarrow> unat (of_nat n :: i24) = n"
  "n \<le> MAX_SYMBOLS \<Longrightarrow> sint (of_nat n :: i24) = int n"
  by (simp_all add: NAME_POOL_SIZE_def MAX_SYMBOLS_def sint24)

text \<open>\<open>str_eq\<close> decides equality with the string stored at an offset.\<close>

lemma str_eq_stored:
  assumes "\<forall>k\<le>length n. name_pool s (off + k) = (n @ [NUL]) ! k" and "off + length n < NAME_POOL_SIZE"
    and "NUL \<notin> set n" and "NUL \<notin> set name"
  shows "str_eq (of_nat off) name s = Done (n = name) s"
  using assms
proof (induction name arbitrary: off n)
  case Nil
  then have "name_pool s off = (n @ [NUL]) ! 0" by auto
  with Nil show ?case
    by (cases n) auto
next
  case (Cons d name)
  show ?case
  proof (cases n)
    case Nil
    with Cons.prems show ?thesis by (auto simp: Let_def)
  next
    case (Cons c n')
    have "name_pool s (Suc off + k) = (n' @ [NUL]) ! k" if "k \<le> length n'" for k
      using Cons.prems(1) [rule_format, of "Suc k"] that \<open>n = c # n'\<close> by simp
    then have "str_eq (of_nat (Suc off)) name s = Done (n' = name) s"
      using Cons.prems \<open>n = c # n'\<close> by (intro Cons.IH) auto
    moreover have "name_pool s off = c"
      using Cons.prems(1) [rule_format, of 0] \<open>n = c # n'\<close> by simp
    ultimately show ?thesis
      using Cons.prems \<open>n = c # n'\<close> by (auto simp: Let_def add.commute)
  qed
qed

lemma symtab_entry:
  assumes tab: "symtab s ns" and i: "i < length ns"
  shows "peek_offset (of_nat i) s = Done (of_nat (length (pool_text (take i ns)))) s"
    and "length (pool_text (take i ns)) + length (ns ! i) < NAME_POOL_SIZE"
    and "k \<le> length (ns ! i) \<Longrightarrow> name_pool s (length (pool_text (take i ns)) + k) = (ns ! i @ [NUL]) ! k"
proof -
  show "peek_offset (of_nat i) s = Done (of_nat (length (pool_text (take i ns)))) s"
    using assms by (simp add: peek_offset_def symtab_def)
  show lt: "length (pool_text (take i ns)) + length (ns ! i) < NAME_POOL_SIZE"
    using tab pool_split [OF i] by (simp add: symtab_def)
  show "name_pool s (length (pool_text (take i ns)) + k) = (ns ! i @ [NUL]) ! k" if "k \<le> length (ns ! i)"
  proof -
    have "length (pool_text (take i ns)) + k < length (pool_text ns)"
      using that by (subst pool_split [OF i]) simp
    then have "name_pool s (length (pool_text (take i ns)) + k) =
        pool_text ns ! (length (pool_text (take i ns)) + k)"
      using tab by (simp add: symtab_def)
    also have "\<dots> = (ns ! i @ [NUL]) ! k"
      using that by (subst pool_split [OF i]) (auto simp: nth_append)
    finally show ?thesis .
  qed
qed

lemma intern_search_spec:
  assumes tab: "symtab s ns" and "NUL \<notin> set name" and "i + k = length ns"
    and "name \<notin> set (take i ns)"
  shows "intern_search k i name s = Done (if name \<in> set ns
    then Some (MAKE_SYMBOL (of_nat (length (takeWhile (\<lambda>n. n \<noteq> name) ns)))) else None) s"
  using assms(3,4)
proof (induction k arbitrary: i)
  case 0
  then show ?case by simp
next
  case (Suc k)
  then have i: "i < length ns" by simp
  let ?off = "length (pool_text (take i ns))"
  have eq: "str_eq (of_nat ?off) name s = Done (ns ! i = name) s"
    using symtab_entry(2,3) [OF tab i] tab i assms(2)
    by (intro str_eq_stored) (auto simp: symtab_def)
  show ?case
  proof (cases "ns ! i = name")
    case True
    have "takeWhile (\<lambda>n. n \<noteq> name) ns = take i ns"
      using Suc.prems(2) True i by (intro takeWhile_eq_take_P_nth) (auto simp: in_set_conv_nth)
    with True eq symtab_entry(1) [OF tab i] i show ?thesis
      by (auto simp: bnd_def)
  next
    case False
    then have "name \<notin> set (take (Suc i) ns)"
      using Suc.prems(2) i by (simp add: take_Suc_conv_app_nth)
    with False Suc eq symtab_entry(1) [OF tab i] show ?thesis
      by (simp add: bnd_def)
  qed
qed


lemma str_len_eq [simp]: "str_len cs = of_nat (length cs)"
  by (induction cs) simp_all

lemma str_copy_spec:
  assumes "off + length name < NAME_POOL_SIZE"
  shows "\<exists>p. str_copy (of_nat off) name s = Done () (s\<lparr>name_pool := p\<rparr>) \<and>
    (\<forall>k. p k = (if off \<le> k \<and> k \<le> off + length name then (name @ [NUL]) ! (k - off) else name_pool s k))"
  using assms
proof (induction name arbitrary: off s)
  case Nil
  then show ?case
    by (intro exI [of _ "(name_pool s)(off := NUL)"] conjI) (simp_all add: poke_name_def fun_upd_def)
next
  case (Cons c name)
  let ?s = "s\<lparr>name_pool := (name_pool s)(off := c)\<rparr>"
  from Cons.prems have "Suc off + length name < NAME_POOL_SIZE" by simp
  from Cons.IH [OF this, of ?s] obtain p where
    p: "str_copy (of_nat (Suc off)) name ?s = Done () (?s\<lparr>name_pool := p\<rparr>)"
    and q: "\<And>k. p k = (if Suc off \<le> k \<and> k \<le> Suc off + length name then (name @ [NUL]) ! (k - Suc off)
      else name_pool ?s k)" by blast
  have a: "str_copy (of_nat off) (c # name) s = Done () (s\<lparr>name_pool := p\<rparr>)"
    using p Cons.prems by (simp add: poke_name_def bnd_def add.commute)
  have "(if Suc off \<le> k \<and> k \<le> Suc off + length name then (name @ [NUL]) ! (k - Suc off)
      else name_pool ?s k) = (if off \<le> k \<and> k \<le> off + length (c # name)
      then (c # name @ [NUL]) ! (k - off) else name_pool s k)" for k
    by (cases "k = off") (auto simp: nth_Cons' Suc_le_eq)
  then have "p k = (if off \<le> k \<and> k \<le> off + length (c # name)
      then ((c # name) @ [NUL]) ! (k - off) else name_pool s k)" for k
    unfolding q [of k] by (simp only: append_Cons)
  with a show ?case by blast
qed

definition sym_frame :: "lisp \<Rightarrow> lisp \<Rightarrow> bool" where
  "sym_frame s s' \<longleftrightarrow> (\<exists>o' p n c. s' = s\<lparr>sym_name_off := o', name_pool := p, name_pool_next := n, sym_count := c\<rparr>)"

lemma sym_frame_trans: "sym_frame s s1 \<Longrightarrow> sym_frame s1 s2 \<Longrightarrow> sym_frame s s2"
  unfolding sym_frame_def by (elim exE, hypsubst, simp, intro exI, rule refl)

lemma sym_frame_refl: "sym_frame s s"
  unfolding sym_frame_def
  by (rule exI [of _ "sym_name_off s"], rule exI [of _ "name_pool s"], rule exI [of _ "name_pool_next s"],
      rule exI [of _ "sym_count s"]) simp

lemma sym_frame_reset: "sym_frame s (s\<lparr>name_pool_next := n, sym_count := c\<rparr>)"
  unfolding sym_frame_def
  by (rule exI [of _ "sym_name_off s"], rule exI [of _ "name_pool s"], rule exI [of _ n],
      rule exI [of _ c]) (rule lisp.equality, simp_all)

lemma intern_found:
  assumes "symtab s ns" and "NUL \<notin> set name" and "name \<in> set ns"
  shows "intern name s = Done (MAKE_SYMBOL (of_nat (length (takeWhile (\<lambda>n. n \<noteq> name) ns)))) s"
proof -
  have "nat (sint (sym_count s)) = length ns"
    using assms(1) by (simp add: symtab_def)
  with intern_search_spec [OF assms(1,2), of 0 "length ns"] assms(3) show ?thesis
    by (simp add: intern_def bnd_def)
qed

lemma intern_missing:
  assumes "symtab s ns" and "NUL \<notin> set name" and "name \<notin> set ns"
  shows "intern_search (nat (sint (sym_count s))) 0 name s = Done None s"
proof -
  have "nat (sint (sym_count s)) = length ns"
    using assms(1) by (simp add: symtab_def)
  with intern_search_spec [OF assms(1,2), of 0 "length ns"] assms(3) show ?thesis
    by simp
qed

lemma symtab_snoc:
  assumes tab: "symtab s ns" and new: "name \<notin> set ns" "NUL \<notin> set name"
    and room: "length ns < MAX_SYMBOLS" "length (pool_text ns) + length name + 1 \<le> NAME_POOL_SIZE"
    and p: "\<forall>k. p k = (if length (pool_text ns) \<le> k \<and> k \<le> length (pool_text ns) + length name
      then (name @ [NUL]) ! (k - length (pool_text ns)) else name_pool s k)"
  shows "symtab (s\<lparr>sym_name_off := (sym_name_off s)(length ns := of_nat (length (pool_text ns))), name_pool := p,
    name_pool_next := of_nat (length (pool_text (ns @ [name]))), sym_count := of_nat (length (ns @ [name]))\<rparr>)
    (ns @ [name])"
proof -
  have "p k = pool_text (ns @ [name]) ! k" if "k < length (pool_text (ns @ [name]))" for k
    using that p tab by (auto simp: nth_append symtab_def)
  moreover have "(if i = length ns then of_nat (length (pool_text ns)) else sym_name_off s i) =
      (of_nat (length (pool_text (take i (ns @ [name])))) :: i24)" if "i < length (ns @ [name])" for i
    using that tab by (auto simp: symtab_def less_Suc_eq)
  ultimately show ?thesis
    using tab new room unfolding symtab_def by simp
qed

lemma intern_new:
  assumes tab: "symtab s ns" and new: "name \<notin> set ns" "NUL \<notin> set name"
    and room: "length ns < MAX_SYMBOLS" "length (pool_text ns) + length name + 1 \<le> NAME_POOL_SIZE"
  shows "\<exists>s'. intern name s = Done (MAKE_SYMBOL (of_nat (length ns))) s' \<and> symtab s' (ns @ [name]) \<and>
    sym_frame s s'"
proof -
  let ?off = "length (pool_text ns)"
  have c: "sym_count s = of_nat (length ns)" "name_pool_next s = of_nat ?off"
    using tab by (simp_all add: symtab_def)
  have "?off + length name < NAME_POOL_SIZE" using room by simp
  from str_copy_spec [OF this, of "s\<lparr>sym_name_off := (sym_name_off s)(length ns := of_nat ?off)\<rparr>"]
  obtain p where p: "str_copy (of_nat ?off) name (s\<lparr>sym_name_off := (sym_name_off s)(length ns := of_nat ?off)\<rparr>) =
      Done () (s\<lparr>sym_name_off := (sym_name_off s)(length ns := of_nat ?off), name_pool := p\<rparr>)"
    and q: "\<forall>k. p k = (if ?off \<le> k \<and> k \<le> ?off + length name
      then (name @ [NUL]) ! (k - ?off) else name_pool s k)" by auto
  have e: "(of_nat ?off + of_nat (length name) + 1 :: i24) = of_nat (length (pool_text (ns @ [name])))"
    by simp
  have "sint (of_nat ?off + of_nat (length name) + 1 :: i24) \<le> int NAME_POOL_SIZE"
    unfolding e using room(2) by (subst sint_of_nat_small) (simp_all add: NAME_POOL_SIZE_def)
  then have "intern name s = Done (MAKE_SYMBOL (of_nat (length ns)))
      (s\<lparr>sym_name_off := (sym_name_off s)(length ns := of_nat ?off), name_pool := p,
        name_pool_next := of_nat (length (pool_text (ns @ [name]))), sym_count := of_nat (length (ns @ [name]))\<rparr>)"
    using intern_missing [OF tab new(2,1)] p room c
    by (simp add: intern_def bnd_step add.commute)
  with symtab_snoc [OF tab new room q] show ?thesis
    unfolding sym_frame_def by blast
qed

lemma intern_full:
  assumes tab: "symtab s ns" and new: "name \<notin> set ns" "NUL \<notin> set name" and "length name \<le> 8192"
    and full: "\<not> (length ns < MAX_SYMBOLS \<and> length (pool_text ns) + length name + 1 \<le> NAME_POOL_SIZE)"
  shows "\<exists>s'. intern name s = Halted s'"
proof -
  let ?off = "length (pool_text ns)"
  have c: "sym_count s = of_nat (length ns)" "name_pool_next s = of_nat ?off" "length ns \<le> MAX_SYMBOLS"
    "?off \<le> NAME_POOL_SIZE"
    using tab by (simp_all add: symtab_def)
  have e: "(of_nat ?off + of_nat (length name) + 1 :: i24) = of_nat (?off + length name + 1)"
    by simp
  have "sint (of_nat ?off + of_nat (length name) + 1 :: i24) = int (?off + length name + 1)"
    unfolding e using c(4) assms(4) by (subst sint_of_nat_small) (simp_all add: NAME_POOL_SIZE_def)
  then show ?thesis
    using intern_missing [OF tab new(2,1)] c full
    by (auto simp: intern_def bnd_step)
qed

lemma symbol_init_spec: "\<exists>s'. symbol_init s = Done () s' \<and> symtab s' [''nil'', ''t''] \<and> sym_frame s s'"
proof -
  let ?s = "s\<lparr>name_pool_next := 0, sym_count := 0\<rparr>"
  have "symtab ?s []" by (simp add: symtab_def)
  from intern_new [OF this, of "''nil''"] obtain s1 where
    s1: "intern ''nil'' ?s = Done (MAKE_SYMBOL (of_nat 0)) s1" "symtab s1 [''nil'']" "sym_frame ?s s1"
    by (auto simp: NUL_def MAX_SYMBOLS_def NAME_POOL_SIZE_def)
  from intern_new [OF s1(2), of "''t''"] obtain s2 where
    s2: "intern ''t'' s1 = Done (MAKE_SYMBOL (of_nat 1)) s2" "symtab s2 [''nil'', ''t'']" "sym_frame s1 s2"
    by (auto simp: NUL_def MAX_SYMBOLS_def NAME_POOL_SIZE_def)
  have "sym_frame s s2"
    by (rule sym_frame_trans [OF sym_frame_reset sym_frame_trans [OF s1(3) s2(3)]])
  with s1 s2 show ?thesis
    by (simp add: symbol_init_def bnd_step)
qed

section \<open>Names of symbols\<close>

text \<open>The name of a symbol: the NUL-terminated string at its offset.\<close>

fun pool_string :: "nat \<Rightarrow> nat \<Rightarrow> lisp \<Rightarrow> string option" where
  "pool_string 0 a s = None"
| "pool_string (Suc n) a s = (if name_pool s a = NUL then Some []
     else map_option (\<lambda>cs. name_pool s a # cs) (pool_string n (Suc a) s))"

definition cstring_at :: "i24 \<Rightarrow> string act" where
  "cstring_at a s = (case pool_string (NAME_POOL_SIZE - unat a) (unat a) s of
     None \<Rightarrow> Wild | Some cs \<Rightarrow> Done cs s)"

definition symbol_text :: "i24 \<Rightarrow> string act" where
  "symbol_text v = bnd (sym_name v) cstring_at"

lemma pool_string_stored:
  assumes "\<forall>k\<le>length cs. name_pool s (a + k) = (cs @ [NUL]) ! k" and "length cs < n" and "NUL \<notin> set cs"
  shows "pool_string n a s = Some cs"
  using assms
proof (induction cs arbitrary: a n)
  case Nil
  then show ?case by (cases n) auto
next
  case (Cons c cs)
  then obtain m where m: "n = Suc m" by (cases n) auto
  have "name_pool s (Suc a + k) = (cs @ [NUL]) ! k" if "k \<le> length cs" for k
    using Cons.prems(1) [rule_format, of "Suc k"] that by simp
  then have "pool_string m (Suc a) s = Some cs"
    using Cons.prems m by (intro Cons.IH) auto
  with m Cons.prems(1) [rule_format, of 0] Cons.prems(3) show ?case by auto
qed

lemma symbol_text_spec:
  assumes tab: "symtab s ns" and i: "i < length ns"
  shows "symbol_text (MAKE_SYMBOL (of_nat i)) s = Done (ns ! i) s"
proof -
  have "i < 2097152"
    using tab i by (simp add: symtab_def MAX_SYMBOLS_def)
  moreover have "pool_string (NAME_POOL_SIZE - length (pool_text (take i ns))) (length (pool_text (take i ns))) s
      = Some (ns ! i)"
    using symtab_entry(2,3) [OF tab i] tab i
    by (intro pool_string_stored) (auto simp: symtab_def)
  ultimately show ?thesis
    using symtab_entry(1,2) [OF tab i]
    by (simp add: symbol_text_def sym_name_def bnd_step cstring_at_def)
qed


section \<open>Interning a name\<close>

text \<open>What \<open>intern\<close> returns: the index of the name in a table that only grows, or it panics.\<close>

definition interned :: "string list \<Rightarrow> string \<Rightarrow> string list \<times> nat" where
  "interned ns name = (if name \<in> set ns then (ns, length (takeWhile (\<lambda>n. n \<noteq> name) ns))
     else (ns @ [name], length ns))"

lemma interned_nth:
  assumes "interned ns name = (ns', i)"
  shows "i < length ns'" and "ns' ! i = name" and "\<exists>ms. ns' = ns @ ms"
proof -
  have "length (takeWhile (\<lambda>n. n \<noteq> name) ns) < length ns \<and>
      ns ! length (takeWhile (\<lambda>n. n \<noteq> name) ns) = name" if "name \<in> set ns"
    using that by (induction ns) auto
  with assms show "i < length ns'" "ns' ! i = name" "\<exists>ms. ns' = ns @ ms"
    by (auto simp: interned_def split: if_splits)
qed

lemma intern_result:
  assumes "symtab s ns" and "NUL \<notin> set name" and "length name \<le> 8192"
  shows "(\<exists>s'. intern name s = Done (MAKE_SYMBOL (of_nat (snd (interned ns name)))) s' \<and>
      symtab s' (fst (interned ns name)) \<and> sym_frame s s') \<or> (\<exists>s'. intern name s = Halted s')"
proof (cases "name \<in> set ns")
  case True
  with intern_found [OF assms(1,2)] assms(1) sym_frame_refl show ?thesis
    by (auto simp: interned_def)
next
  case False
  with intern_new [OF assms(1) False assms(2)] intern_full [OF assms(1) False assms(2,3)]
  show ?thesis
    by (cases "length ns < MAX_SYMBOLS \<and> length (pool_text ns) + length name + 1 \<le> NAME_POOL_SIZE")
      (auto simp: interned_def)
qed

lemma make_symbol_inj:
  assumes "i < 2097152" "j < 2097152"
  shows "MAKE_SYMBOL (of_nat i) = MAKE_SYMBOL (of_nat j) \<longleftrightarrow> i = j"
  by (metis assms cell_of_make(2))

end
