(* ===== verification/Tml_String.thy ===== *)
theory Tml_String
  imports Tml_Alloc Tml_Symbol
begin

text \<open>
  Strings (\<open>string.h\<close>): the characters lie in \<open>str_pool\<close>, the cell packs offset and length into
  one fixnum.  A pointer and a length that the C code passes are the list of the characters
  they denote; a string inside the pool is read through its cell.
\<close>

definition STR_POOL_SIZE :: nat where "STR_POOL_SIZE = 8192"

definition string_init :: "unit act" where
  "string_init = upd (\<lambda>s. s\<lparr>str_pool_next := 0\<rparr>)"

definition str_panic :: "'a act" where
  "str_panic s = bnd (puts_str ''PANIC:STR-OOM pool='') (\<lambda>_. bnd (print_int (str_pool_next s)) (\<lambda>_.
     bnd (puts_str ''/'') (\<lambda>_. bnd (print_int (of_nat STR_POOL_SIZE)) (\<lambda>_.
     bnd (putc_uart (CHR 0x0A)) (\<lambda>_. halt))))) s"

text \<open>\<open>str_pool[str_pool_next] = c; str_pool_next = str_pool_next + 1\<close>\<close>

definition push_char :: "char \<Rightarrow> unit act" where
  "push_char c s = (if unat (str_pool_next s) < STR_POOL_SIZE
     then Done () (s\<lparr>str_pool := (str_pool s)(unat (str_pool_next s) := c),
                     str_pool_next := str_pool_next s + 1\<rparr>)
     else Wild)"

fun push_chars :: "string \<Rightarrow> unit act" where
  "push_chars [] = ret ()"
| "push_chars (c # cs) = bnd (push_char c) (\<lambda>_. push_chars cs)"

text \<open>The cell of a string: its type and the packed offset and length.\<close>

definition string_cell :: "i24 \<Rightarrow> i24 \<Rightarrow> i24 act" where
  "string_cell off len = bnd (hold [] alloc_cell) (\<lambda>idx. bnd (poke_car idx ETYPE_STRING) (\<lambda>_.
     bnd (poke_cdr idx (MAKE_FIXNUM (push_bit 11 off OR len))) (\<lambda>_. ret (MAKE_EXTENDED idx))))"

definition make_string :: "string \<Rightarrow> i24 act" where
  "make_string cs s =
     (if sint (str_pool_next s + of_nat (length cs) + 1) > int STR_POOL_SIZE then str_panic s
      else bnd (push_chars cs) (\<lambda>_. bnd (push_char NUL) (\<lambda>_.
        string_cell (str_pool_next s) (of_nat (length cs)))) s)"

definition string_len :: "i24 \<Rightarrow> i24 act" where
  "string_len v = bnd (cdr v) (\<lambda>p. ret (FIXNUM_VAL p AND 0x7FF))"

definition string_data :: "i24 \<Rightarrow> i24 act" where
  "string_data v = bnd (cdr v) (\<lambda>p. ret (signed_drop_bit 11 (FIXNUM_VAL p) AND 0x7FF))"

text \<open>The character at \<open>data[i]\<close> for a pointer into the pool.\<close>

definition peek_char :: "i24 \<Rightarrow> i24 \<Rightarrow> char act" where
  "peek_char off i s = (if unat (off + i) < STR_POOL_SIZE
     then Done (str_pool s (unat (off + i))) s else Wild)"

definition string_ref :: "i24 \<Rightarrow> i24 \<Rightarrow> i24 act" where
  "string_ref v i = bnd (string_data v) (\<lambda>off. bnd (peek_char off i) (\<lambda>c. ret (of_int (schar c))))"

definition is_string :: "i24 \<Rightarrow> bool act" where
  "is_string v = (if \<not> IS_EXTENDED v then ret False
     else bnd (car v) (\<lambda>t. ret (t = ETYPE_STRING)))"

fun equal_from :: "i24 \<Rightarrow> i24 \<Rightarrow> nat \<Rightarrow> nat \<Rightarrow> bool act" where
  "equal_from da db i 0 = ret True"
| "equal_from da db i (Suc k) = bnd (peek_char da (of_nat i)) (\<lambda>c. bnd (peek_char db (of_nat i)) (\<lambda>d.
     if c \<noteq> d then ret False else equal_from da db (Suc i) k))"

definition string_equal :: "i24 \<Rightarrow> i24 \<Rightarrow> bool act" where
  "string_equal a b = bnd (string_len a) (\<lambda>la. bnd (string_len b) (\<lambda>lb.
     if la \<noteq> lb then ret False
     else bnd (string_data a) (\<lambda>da. bnd (string_data b) (\<lambda>db. equal_from da db 0 (unat la)))))"

text \<open>Append \<open>k\<close> characters of a string of the pool, from index \<open>i\<close> on.\<close>

fun push_from :: "i24 \<Rightarrow> nat \<Rightarrow> nat \<Rightarrow> unit act" where
  "push_from d i 0 = ret ()"
| "push_from d i (Suc k) = bnd (peek_char d (of_nat i)) (\<lambda>c. bnd (push_char c) (\<lambda>_. push_from d (Suc i) k))"

definition string_append :: "i24 \<Rightarrow> i24 \<Rightarrow> i24 act" where
  "string_append a b = bnd (string_len a) (\<lambda>la. bnd (string_len b) (\<lambda>lb s.
     if sint (str_pool_next s + (la + lb) + 1) > int STR_POOL_SIZE then str_panic s
     else bnd (string_data a) (\<lambda>da. bnd (string_data b) (\<lambda>db.
       bnd (push_from da 0 (unat la)) (\<lambda>_. bnd (push_from db 0 (unat lb)) (\<lambda>_.
       bnd (push_char NUL) (\<lambda>_. string_cell (str_pool_next s) (la + lb)))))) s))"

text \<open>The characters a string value denotes.\<close>

fun chars_from :: "i24 \<Rightarrow> nat \<Rightarrow> nat \<Rightarrow> string act" where
  "chars_from d i 0 = ret []"
| "chars_from d i (Suc k) = bnd (peek_char d (of_nat i)) (\<lambda>c.
     bnd (chars_from d (Suc i) k) (\<lambda>cs. ret (c # cs)))"

definition string_chars :: "i24 \<Rightarrow> string act" where
  "string_chars v = bnd (string_data v) (\<lambda>d. bnd (string_len v) (\<lambda>n. chars_from d 0 (unat n)))"


section \<open>Packing\<close>

lemma take_bit_small:
  fixes w :: i24
  assumes "unat w < 2 ^ n"
  shows "take_bit n w = w"
proof -
  have "unat (take_bit n w) = take_bit n (unat w)"
    by (rule unsigned_take_bit_eq)
  then show ?thesis
    using assms by (intro word_eq_iff_unsigned [THEN iffD2]) (simp add: take_bit_nat_eq_self)
qed

lemma mask11: "(w :: i24) AND 0x7FF = take_bit 11 w"
  by (simp add: take_bit_eq_mask mask_eq_exp_minus_1)

lemma unpack_len:
  assumes "unat len < 2048"
  shows "FIXNUM_VAL (MAKE_FIXNUM (push_bit 11 off OR len)) AND 0x7FF = len"
proof -
  have "take_bit 11 len = len"
    using assms by (intro take_bit_small) simp
  then have l: "bit len n \<longleftrightarrow> n < 11 \<and> bit len n" for n
    by (metis bit_take_bit_iff)
  show ?thesis
    unfolding payload mask11
  proof (rule bit_word_eqI)
    fix n
    show "bit (take_bit 11 (signed_take_bit 21 (push_bit 11 off OR len))) n = bit len n"
      using l [of n] by (cases "n < 11") (auto simp: bit_simps min_def)
  qed
qed

lemma unpack_off:
  assumes "unat len < 2048"
  shows "signed_drop_bit 11 (FIXNUM_VAL (MAKE_FIXNUM (push_bit 11 off OR len))) AND 0x7FF = take_bit 11 off"
proof -
  have "take_bit 11 len = len"
    using assms by (intro take_bit_small) simp
  then have l: "\<not> bit len n" if "11 \<le> n" for n
    using that by (metis bit_take_bit_iff linorder_not_less)
  show ?thesis
    unfolding payload mask11
  proof (rule bit_word_eqI)
    fix n
    show "bit (take_bit 11 (signed_drop_bit 11 (signed_take_bit 21 (push_bit 11 off OR len)))) n =
        bit (take_bit 11 off) n"
    proof (cases "n < 11")
      case True
      then have "min 21 (11 + n) = 11 + n" by simp
      with True l [of "11 + n"] show ?thesis
        by (simp add: bit_simps)
    qed (simp add: bit_simps)
  qed
qed

lemma unat_str [simp]: "n \<le> STR_POOL_SIZE \<Longrightarrow> unat (of_nat n :: i24) = n"
  by (simp add: STR_POOL_SIZE_def)

section \<open>Storing and reading back\<close>

definition pool_frame :: "lisp \<Rightarrow> lisp \<Rightarrow> bool" where
  "pool_frame s s' \<longleftrightarrow> (\<exists>p n. s' = s\<lparr>str_pool := p, str_pool_next := n\<rparr>)"

lemma push_chars_spec:
  assumes "str_pool_next s = of_nat p" and "p + length cs \<le> STR_POOL_SIZE"
  shows "\<exists>q. push_chars cs s = Done () (s\<lparr>str_pool := q, str_pool_next := of_nat (p + length cs)\<rparr>) \<and>
    (\<forall>k<length cs. q (p + k) = cs ! k) \<and> (\<forall>k. k < p \<or> p + length cs \<le> k \<longrightarrow> q k = str_pool s k)"
  using assms
proof (induction cs arbitrary: p s)
  case Nil
  then show ?case
    by (intro exI [of _ "str_pool s"]) simp
next
  case (Cons c cs)
  let ?s = "s\<lparr>str_pool := (str_pool s)(p := c), str_pool_next := of_nat (Suc p)\<rparr>"
  have "str_pool_next ?s = of_nat (Suc p)" "Suc p + length cs \<le> STR_POOL_SIZE"
    using Cons.prems(2) by simp_all
  from Cons.IH [OF this] obtain q where
    q: "push_chars cs ?s = Done () (?s\<lparr>str_pool := q, str_pool_next := of_nat (Suc p + length cs)\<rparr>)"
    and a: "\<forall>k<length cs. q (Suc p + k) = cs ! k"
    and b: "\<forall>k. k < Suc p \<or> Suc p + length cs \<le> k \<longrightarrow> q k = str_pool ?s k" by blast
  have "push_char c s = Done () ?s"
    using Cons.prems by (simp add: push_char_def add.commute)
  with q have "push_chars (c # cs) s = Done () (s\<lparr>str_pool := q, str_pool_next := of_nat (p + length (c # cs))\<rparr>)"
    by (simp add: bnd_step)
  moreover have "q (p + k) = (c # cs) ! k" if "k < length (c # cs)" for k
    using a b that by (cases k) auto
  moreover have "q k = str_pool s k" if "k < p \<or> p + length (c # cs) \<le> k" for k
    using b that by auto
  ultimately show ?case
    by (intro exI [of _ q]) simp
qed

lemma pool_same_heap: "same_heap s (s\<lparr>str_pool := q, str_pool_next := n\<rparr>)"
  by (simp add: same_heap_def)

text \<open>What \<open>make_string\<close> returns: a fresh cell whose text lies at the old end of the pool.\<close>

lemma string_cell_make: "string_cell off len =
    cells.make_cell [] MAKE_EXTENDED ETYPE_STRING (MAKE_FIXNUM (push_bit 11 off OR len))"
  by (simp add: string_cell_def cells.make_cell_def)

lemma make_string_cell:
  assumes p: "str_pool_next s = of_nat p" and room: "p + length cs + 1 \<le> STR_POOL_SIZE"
  shows "\<exists>q. make_string cs s = cells.make_cell [] MAKE_EXTENDED ETYPE_STRING
      (MAKE_FIXNUM (push_bit 11 (of_nat p) OR of_nat (length cs)))
      (s\<lparr>str_pool := q, str_pool_next := of_nat (p + length cs + 1)\<rparr>) \<and>
    (\<forall>k<length cs. q (p + k) = cs ! k) \<and> (\<forall>k<p. q k = str_pool s k)"
proof -
  have "p + length (cs @ [NUL]) \<le> STR_POOL_SIZE" using room by simp
  from push_chars_spec [OF p this] obtain q where
    q: "push_chars (cs @ [NUL]) s = Done () (s\<lparr>str_pool := q, str_pool_next := of_nat (p + length cs + 1)\<rparr>)"
    and a: "\<forall>k<length (cs @ [NUL]). q (p + k) = (cs @ [NUL]) ! k" and b: "\<forall>k<p. q k = str_pool s k"
    by auto
  have split: "push_chars (xs @ [NUL]) t = bnd (push_chars xs) (\<lambda>_. push_char NUL) t" for xs t
    by (induction xs arbitrary: t) (simp_all add: bnd_def split: outcome.split)
  have e: "(of_nat p + of_nat (length cs) + 1 :: i24) = of_nat (p + length cs + 1)"
    by simp
  have "\<not> sint (of_nat p + of_nat (length cs) + 1 :: i24) > int STR_POOL_SIZE"
    unfolding e using room by (subst sint_of_nat_small) (auto simp: STR_POOL_SIZE_def)
  then have "make_string cs s = bnd (push_chars (cs @ [NUL]))
      (\<lambda>_. string_cell (of_nat p) (of_nat (length cs))) s"
    using p by (simp add: make_string_def split bnd_def split: outcome.split)
  then have "make_string cs s = cells.make_cell [] MAKE_EXTENDED ETYPE_STRING
      (MAKE_FIXNUM (push_bit 11 (of_nat p) OR of_nat (length cs)))
      (s\<lparr>str_pool := q, str_pool_next := of_nat (p + length cs + 1)\<rparr>)"
    using q by (simp add: bnd_step string_cell_make)
  moreover have "q (p + k) = cs ! k" if "k < length cs" for k
    using a [rule_format, of k] that by (simp add: nth_append)
  ultimately show ?thesis
    using b by blast
qed

lemma make_string_spec:
  assumes run: "make_string cs s = Done v s'" and ok: "heap_ok s" and p: "str_pool_next s = of_nat p"
    and room: "p + length cs + 1 \<le> STR_POOL_SIZE"
  shows "\<exists>i q s1. v = MAKE_EXTENDED (of_nat i) \<and> i < HEAP_SIZE \<and> i \<in> used s' \<and> i \<notin> live s \<and>
    heap_car s' i = ETYPE_STRING \<and> heap_cdr s' i = MAKE_FIXNUM (push_bit 11 (of_nat p) OR of_nat (length cs)) \<and>
    s1 = s\<lparr>str_pool := q, str_pool_next := of_nat (p + length cs + 1)\<rparr> \<and> extends s1 s' \<and> alloc_frame s1 s' \<and>
    (\<forall>k<length cs. q (p + k) = cs ! k) \<and> (\<forall>k<p. q k = str_pool s k)"
proof -
  from make_string_cell [OF p room] obtain q where
    cell: "make_string cs s = cells.make_cell [] MAKE_EXTENDED ETYPE_STRING
      (MAKE_FIXNUM (push_bit 11 (of_nat p) OR of_nat (length cs)))
      (s\<lparr>str_pool := q, str_pool_next := of_nat (p + length cs + 1)\<rparr>)" (is "_ = cells.make_cell _ _ _ _ ?s1")
    and q: "\<forall>k<length cs. q (p + k) = cs ! k" "\<forall>k<p. q k = str_pool s k"
    by blast
  have sh: "same_heap s ?s1" by (rule pool_same_heap)
  have ok1: "heap_ok ?s1" using ok same_heap_facts [OF sh] by simp
  have snd: "sound ?s1 (MAKE_FIXNUM x)" "sound ?s1 ETYPE_STRING" for x
    by (simp_all add: sound_def IS_PTR_def ETYPE_STRING_def)
  from cells.make_cell_fresh [OF run [unfolded cell] ok1 snd(2,1)] obtain i where
    "v = MAKE_EXTENDED (of_nat i)" "i < HEAP_SIZE" "i \<in> used s'" "i \<notin> live ?s1" "extends ?s1 s'"
    "alloc_frame ?s1 s'" "heap_car s' i = ETYPE_STRING"
    "heap_cdr s' i = MAKE_FIXNUM (push_bit 11 (of_nat p) OR of_nat (length cs))"
    by (auto simp: IS_PTR_def ETYPE_STRING_def)
  then show ?thesis
    using q same_heap_facts(6) [OF sh] by (intro exI [of _ i] exI [of _ q] exI [of _ ?s1]) auto
qed

lemma make_string_outcome:
  assumes ok: "heap_ok s" and p: "str_pool_next s = of_nat p" and room: "p + length cs + 1 \<le> STR_POOL_SIZE"
  shows "(\<exists>v s'. make_string cs s = Done v s') \<or> (\<exists>s'. make_string cs s = Halted s')"
proof -
  from make_string_cell [OF p room] obtain q where
    cell: "make_string cs s = cells.make_cell [] MAKE_EXTENDED ETYPE_STRING
      (MAKE_FIXNUM (push_bit 11 (of_nat p) OR of_nat (length cs)))
      (s\<lparr>str_pool := q, str_pool_next := of_nat (p + length cs + 1)\<rparr>)"
    by blast
  show ?thesis
    unfolding cell
    by (rule cells.make_cell_outcome) (use ok same_heap_facts(4) [OF pool_same_heap] in simp)
qed

text \<open>A string that lies in the pool at an offset that fits into 11 bits.\<close>

definition string_at :: "lisp \<Rightarrow> i24 \<Rightarrow> string \<Rightarrow> bool" where
  "string_at s v cs \<longleftrightarrow> IS_EXTENDED v \<and> cell_of v < HEAP_SIZE \<and> heap_car s (cell_of v) = ETYPE_STRING \<and>
     (\<exists>off. heap_cdr s (cell_of v) = MAKE_FIXNUM (push_bit 11 (of_nat off) OR of_nat (length cs)) \<and>
       off < 2048 \<and> length cs < 2048 \<and> off + length cs < unat (str_pool_next s) \<and>
       unat (str_pool_next s) \<le> STR_POOL_SIZE \<and> (\<forall>k<length cs. str_pool s (off + k) = cs ! k))"

lemma chars_from_spec:
  assumes "\<forall>k<length cs. str_pool s (off + i + k) = cs ! k" and "off + i + length cs \<le> STR_POOL_SIZE"
  shows "chars_from (of_nat off) i (length cs) s = Done cs s"
  using assms
proof (induction cs arbitrary: i)
  case (Cons c cs)
  have "str_pool s (off + Suc i + k) = cs ! k" if "k < length cs" for k
    using Cons.prems(1) [rule_format, of "Suc k"] that by simp
  then have "chars_from (of_nat off) (Suc i) (length cs) s = Done cs s"
    using Cons.prems(2) by (intro Cons.IH) auto
  moreover have "peek_char (of_nat off) (of_nat i) s = Done c s"
    using Cons.prems unat_str [of "off + i"] by (force simp: peek_char_def)
  ultimately show ?case
    by (simp add: bnd_step)
qed simp

lemma string_at_reads:
  assumes "string_at s v cs"
  shows "is_string v s = Done True s" and "string_len v s = Done (of_nat (length cs)) s"
    and "string_chars v s = Done cs s"
proof -
  from assms obtain off where o: "heap_cdr s (cell_of v) = MAKE_FIXNUM (push_bit 11 (of_nat off) OR of_nat (length cs))"
    "off < 2048" "length cs < 2048" "off + length cs \<le> STR_POOL_SIZE" "\<forall>k<length cs. str_pool s (off + k) = cs ! k"
    and c: "IS_EXTENDED v" "cell_of v < HEAP_SIZE" "heap_car s (cell_of v) = ETYPE_STRING"
    by (auto simp: string_at_def)
  have u: "unat (of_nat (length cs) :: i24) = length cs" "unat (of_nat (length cs) :: i24) < 2048"
    "unat (of_nat off :: i24) < 2 ^ 11"
    using o by simp_all
  show "is_string v s = Done True s"
    using c by (simp add: is_string_def car_eq bnd_step)
  show l: "string_len v s = Done (of_nat (length cs)) s"
    using c o(1) unpack_len [OF u(2)] by (simp add: string_len_def cdr_eq bnd_step)
  have "string_data v s = Done (of_nat off) s"
    using c o(1) unpack_off [OF u(2)] take_bit_small [OF u(3)]
    by (simp add: string_data_def cdr_eq bnd_step)
  moreover have "chars_from (of_nat off) 0 (length cs) s = Done cs s"
    using o by (intro chars_from_spec) auto
  ultimately show "string_chars v s = Done cs s"
    using l u(1) by (simp add: string_chars_def bnd_step)
qed

end
