(* ===== verification/Tml_Print.thy ===== *)
theory Tml_Print
  imports Tml_String
begin

text \<open>
  The printer (\<open>print.h\<close>), the data that values denote, and the text the printer writes for
  them.  The recursion of the printer need not end on a cyclic structure, so it has fuel.
\<close>

definition print_char :: "char \<Rightarrow> unit act" where
  "print_char c = (if c = CHR 0x0A then puts_str [CHR 0x5C, CHR ''n'']
     else if c = CHR 0x22 then puts_str [CHR 0x5C, CHR 0x22]
     else if c = CHR 0x5C then puts_str [CHR 0x5C, CHR 0x5C]
     else putc_uart c)"

fun print_chars :: "i24 \<Rightarrow> nat \<Rightarrow> nat \<Rightarrow> unit act" where
  "print_chars d i 0 = ret ()"
| "print_chars d i (Suc k) = bnd (peek_char d (of_nat i)) (\<lambda>c. bnd (print_char c) (\<lambda>_.
     print_chars d (Suc i) k))"

definition print_extended :: "i24 \<Rightarrow> unit act" where
  "print_extended v = bnd (is_string v) (\<lambda>str.
     if str then bnd (putc_uart (CHR 0x22)) (\<lambda>_. bnd (string_data v) (\<lambda>d. bnd (string_len v) (\<lambda>len.
       bnd (print_chars d 0 (unat len)) (\<lambda>_. putc_uart (CHR 0x22)))))
     else puts_str ''#<obj>'')"

fun print_val :: "nat \<Rightarrow> i24 \<Rightarrow> unit act"
  and print_list :: "nat \<Rightarrow> bool \<Rightarrow> i24 \<Rightarrow> unit act" where
  "print_val 0 v = starved"
| "print_val (Suc n) v =
     (if IS_FIXNUM v then print_int (FIXNUM_VAL v)
      else if IS_NIL v then puts_str ''nil''
      else if IS_SYMBOL v then bnd (symbol_text v) puts_str
      else if IS_CONS v then bnd (putc_uart (CHR ''('')) (\<lambda>_. print_list n True v)
      else print_extended v)"
| "print_list 0 first v = starved"
| "print_list (Suc n) first v =
     (if IS_CONS v
      then bnd (if first then ret () else putc_uart (CHR '' '')) (\<lambda>_. bnd (car v) (\<lambda>a.
        bnd (print_val n a) (\<lambda>_. bnd (cdr v) (\<lambda>d. print_list n False d))))
      else bnd (if IS_NIL v then ret () else bnd (puts_str '' . '') (\<lambda>_. print_val n v))
        (\<lambda>_. putc_uart (CHR '')'')))"

section \<open>Data\<close>

datatype datum = Num i24 | Sym string | Str string | Pair datum datum

fun denotes :: "string list \<Rightarrow> lisp \<Rightarrow> i24 \<Rightarrow> datum \<Rightarrow> bool" where
  "denotes ns s v (Num n) \<longleftrightarrow> v = MAKE_FIXNUM n"
| "denotes ns s v (Sym name) \<longleftrightarrow> (\<exists>i<length ns. v = MAKE_SYMBOL (of_nat i) \<and> ns ! i = name)"
| "denotes ns s v (Str cs) \<longleftrightarrow> string_at s v cs"
| "denotes ns s v (Pair x y) \<longleftrightarrow> IS_CONS v \<and> cell_of v < HEAP_SIZE \<and>
     denotes ns s (heap_car s (cell_of v)) x \<and> denotes ns s (heap_cdr s (cell_of v)) y"

definition pool_grows :: "lisp \<Rightarrow> lisp \<Rightarrow> bool" where
  "pool_grows s s' \<longleftrightarrow> unat (str_pool_next s) \<le> unat (str_pool_next s') \<and>
     unat (str_pool_next s') \<le> STR_POOL_SIZE \<and>
     (\<forall>k<unat (str_pool_next s). str_pool s' k = str_pool s k)"

lemma pool_grows_trans: "pool_grows s s1 \<Longrightarrow> pool_grows s1 s2 \<Longrightarrow> pool_grows s s2"
  by (auto simp: pool_grows_def)

lemma string_at_mono:
  assumes "string_at s v cs" and "heap_car s' (cell_of v) = heap_car s (cell_of v)"
    and "heap_cdr s' (cell_of v) = heap_cdr s (cell_of v)" and "pool_grows s s'"
  shows "string_at s' v cs"
proof -
  from assms(1) obtain off where o: "heap_cdr s (cell_of v) = MAKE_FIXNUM (push_bit 11 (of_nat off) OR of_nat (length cs))"
    "off < 2048" "length cs < 2048" "off + length cs < unat (str_pool_next s)"
    "\<forall>k<length cs. str_pool s (off + k) = cs ! k"
    and c: "IS_EXTENDED v" "cell_of v < HEAP_SIZE" "heap_car s (cell_of v) = ETYPE_STRING"
    by (auto simp: string_at_def)
  have "\<forall>k<length cs. str_pool s' (off + k) = cs ! k"
    using o(4,5) assms(4) by (auto simp: pool_grows_def)
  moreover have "off + length cs < unat (str_pool_next s')" "unat (str_pool_next s') \<le> STR_POOL_SIZE"
    using o(4) assms(4) by (auto simp: pool_grows_def)
  ultimately show ?thesis
    using o(1,2,3) c assms(2,3) unfolding string_at_def by auto
qed

text \<open>A datum stays what it is while its cells do.\<close>

lemma denotes_mono:
  assumes "denotes ns s v x" and "pool_grows s s'" and "ns' = ns @ ms"
    and "\<And>j. j \<in> reach (heap_car s) (heap_cdr s) {v} \<Longrightarrow>
      heap_car s' j = heap_car s j \<and> heap_cdr s' j = heap_cdr s j"
  shows "denotes ns' s' v x"
  using assms(1,4)
proof (induction x arbitrary: v)
  case (Sym name)
  then show ?case using assms(3) by (auto simp: nth_append)
next
  case (Str cs)
  then have "IS_PTR v" by (simp add: string_at_def IS_PTR_def)
  then have "cell_of v \<in> reach (heap_car s) (heap_cdr s) {v}"
    by (auto intro: reach_root)
  with Str.prems(2) [OF this] Str.prems(1) assms(2) show ?case
    by (auto intro: string_at_mono)
next
  case (Pair x y)
  then have "IS_PTR v" by (simp add: IS_PTR_def)
  then have c: "cell_of v \<in> reach (heap_car s) (heap_cdr s) {v}"
    by (auto intro: reach_root)
  have "reach (heap_car s) (heap_cdr s) {heap_car s (cell_of v)} \<subseteq> reach (heap_car s) (heap_cdr s) {v}"
    by (rule reach_from_reach) (auto intro: reach_car c)
  moreover have "reach (heap_car s) (heap_cdr s) {heap_cdr s (cell_of v)} \<subseteq> reach (heap_car s) (heap_cdr s) {v}"
    by (rule reach_from_reach) (auto intro: reach_cdr c)
  ultimately have "denotes ns' s' (heap_car s (cell_of v)) x" "denotes ns' s' (heap_cdr s (cell_of v)) y"
    using Pair.prems by (auto intro!: Pair.IH)
  with Pair.prems(1) Pair.prems(2) [OF c] show ?case
    by simp
qed simp

section \<open>What is printed\<close>

definition escape :: "char \<Rightarrow> string" where
  "escape c = (if c = CHR 0x0A then [CHR 0x5C, CHR ''n''] else if c = CHR 0x22 then [CHR 0x5C, CHR 0x22]
     else if c = CHR 0x5C then [CHR 0x5C, CHR 0x5C] else [c])"

fun shown :: "datum \<Rightarrow> string"
  and shown_tail :: "datum \<Rightarrow> string" where
  "shown (Num n) = int_text (FIXNUM_VAL (MAKE_FIXNUM n))"
| "shown (Sym name) = name"
| "shown (Str cs) = [CHR 0x22] @ concat (map escape cs) @ [CHR 0x22]"
| "shown (Pair x y) = ''('' @ shown x @ shown_tail y"
| "shown_tail (Num n) = '' . '' @ int_text (FIXNUM_VAL (MAKE_FIXNUM n)) @ '')''"
| "shown_tail (Sym name) = (if name = ''nil'' then '')'' else '' . '' @ name @ '')'')"
| "shown_tail (Str cs) = '' . '' @ [CHR 0x22] @ concat (map escape cs) @ [CHR 0x22] @ '')''"
| "shown_tail (Pair x y) = '' '' @ shown x @ shown_tail y"

text \<open>Fuel that suffices: the nesting and the length of the datum.\<close>

fun print_fuel :: "datum \<Rightarrow> nat" where
  "print_fuel (Pair x y) = Suc (Suc (max (print_fuel x) (print_fuel y)))"
| "print_fuel x = 2"

lemma says_simps [simp]:
  "symtab (says t s) ns = symtab s ns" "string_at (says t s) v cs = string_at s v cs"
  by (simp_all add: symtab_def string_at_def)

lemma denotes_says [simp]: "denotes ns (says t s) v x = denotes ns s v x"
  by (induction x arbitrary: v) simp_all

lemma print_char_says: "print_char c s = Done () (says (escape c) s)"
  by (simp add: print_char_def escape_def)

lemma print_chars_says:
  assumes "\<forall>k<length cs. str_pool s (off + i + k) = cs ! k" and "off + i + length cs \<le> STR_POOL_SIZE"
  shows "print_chars (of_nat off) i (length cs) s = Done () (says (concat (map escape cs)) s)"
  using assms
proof (induction cs arbitrary: i s)
  case Nil
  then show ?case by (simp add: says_def)
next
  case (Cons c cs)
  have "str_pool (says (escape c) s) (off + Suc i + k) = cs ! k" if "k < length cs" for k
    using Cons.prems(1) [rule_format, of "Suc k"] that by (simp add: says_def)
  then have "print_chars (of_nat off) (Suc i) (length cs) (says (escape c) s) =
      Done () (says (concat (map escape cs)) (says (escape c) s))"
    using Cons.prems(2) by (intro Cons.IH) auto
  moreover have "peek_char (of_nat off) (of_nat i) s = Done c s"
    using Cons.prems unat_str [of "off + i"] by (force simp: peek_char_def)
  ultimately show ?case
    by (simp add: bnd_step print_char_says)
qed

lemma print_string_says:
  assumes "string_at s v cs"
  shows "print_extended v s = Done () (says (shown (Str cs)) s)"
proof -
  from assms obtain off where o: "heap_cdr s (cell_of v) = MAKE_FIXNUM (push_bit 11 (of_nat off) OR of_nat (length cs))"
    "off < 2048" "length cs < 2048" "off + length cs \<le> STR_POOL_SIZE" "\<forall>k<length cs. str_pool s (off + k) = cs ! k"
    and c: "IS_EXTENDED v" "cell_of v < HEAP_SIZE" "heap_car s (cell_of v) = ETYPE_STRING"
    by (auto simp: string_at_def)
  have u: "unat (of_nat (length cs) :: i24) < 2048" "unat (of_nat off :: i24) < 2 ^ 11"
    "unat (of_nat (length cs) :: i24) = length cs"
    using o by simp_all
  have "is_string v s = Done True s"
    using string_at_reads(1) [OF assms] .
  moreover have "string_data v (says t s) = Done (of_nat off) (says t s)" for t
    using c o(1) unpack_off [OF u(1)] take_bit_small [OF u(2)]
    by (simp add: string_data_def cdr_eq bnd_step)
  moreover have "string_len v (says t s) = Done (of_nat (length cs)) (says t s)" for t
    using c o(1) unpack_len [OF u(1)] by (simp add: string_len_def cdr_eq bnd_step)
  moreover have "print_chars (of_nat off) 0 (length cs) (says t s) =
      Done () (says (concat (map escape cs)) (says t s))" for t
    using o(4,5) by (intro print_chars_says) (auto simp: says_def)
  ultimately show ?thesis
    using u(3) by (simp add: print_extended_def bnd_step)
qed

lemma denotes_tags:
  "denotes ns s v (Num n) \<Longrightarrow> IS_FIXNUM v"
  "denotes ns s v (Sym name) \<Longrightarrow> IS_SYMBOL v \<and> \<not> IS_FIXNUM v \<and> \<not> IS_CONS v"
  "denotes ns s v (Str cs) \<Longrightarrow> \<not> IS_FIXNUM v \<and> \<not> IS_NIL v \<and> \<not> IS_SYMBOL v \<and> \<not> IS_CONS v"
  "denotes ns s v (Pair x y) \<Longrightarrow> \<not> IS_FIXNUM v \<and> \<not> IS_NIL v \<and> \<not> IS_SYMBOL v \<and> IS_CONS v"
proof -
  show "denotes ns s v (Num n) \<Longrightarrow> IS_FIXNUM v"
    by simp
  show "denotes ns s v (Sym name) \<Longrightarrow> IS_SYMBOL v \<and> \<not> IS_FIXNUM v \<and> \<not> IS_CONS v"
    by auto
  show "denotes ns s v (Str cs) \<Longrightarrow> \<not> IS_FIXNUM v \<and> \<not> IS_NIL v \<and> \<not> IS_SYMBOL v \<and> \<not> IS_CONS v"
    using tag_exclusive(3) [of v] by (auto simp: string_at_def IS_NIL_def)
  show "denotes ns s v (Pair x y) \<Longrightarrow> \<not> IS_FIXNUM v \<and> \<not> IS_NIL v \<and> \<not> IS_SYMBOL v \<and> IS_CONS v"
    using tag_exclusive(1) [of v] by (auto simp: IS_NIL_def)
qed

text \<open>The symbol called \<open>nil\<close> is the value \<open>NIL_VAL\<close>, which has index 0.\<close>

lemma denotes_nil:
  assumes "denotes ns s v (Sym name)" and "symtab s ns" and "ns ! 0 = ''nil''"
  shows "IS_NIL v \<longleftrightarrow> name = ''nil''"
proof -
  from assms(1) obtain i where i: "i < length ns" "v = MAKE_SYMBOL (of_nat i)" "ns ! i = name"
    by auto
  then have "i < 2097152" "distinct ns"
    using assms(2) by (auto simp: symtab_def MAX_SYMBOLS_def)
  then have "IS_NIL v \<longleftrightarrow> i = 0"
    using i(2) make_symbol_inj [of i 0] by (simp add: IS_NIL_def NIL_VAL_def)
  also have "\<dots> \<longleftrightarrow> name = ''nil''"
    using \<open>distinct ns\<close> i assms(3) nth_eq_iff_index_eq [of ns i 0] by (cases "length ns") auto
  finally show ?thesis .
qed

lemma symbol_says:
  assumes "denotes ns s v (Sym name)" and "symtab s ns"
  shows "bnd (symbol_text v) puts_str s = Done () (says name s)"
  using assms symbol_text_spec [OF assms(2)] by (auto simp: bnd_step)

text \<open>The printer writes the text of the datum and changes nothing else.\<close>

lemma print_says:
  assumes "symtab s ns" and "ns ! 0 = ''nil''"
  shows "denotes ns s v x \<Longrightarrow> print_fuel x \<le> n \<Longrightarrow> print_val n v s = Done () (says (shown x) s)"
    and "denotes ns s v x \<Longrightarrow> print_fuel x \<le> n \<Longrightarrow> print_list n False v s = Done () (says (shown_tail x) s)"
  using assms
proof (induction x arbitrary: v n s)
  case (Num k)
  {
    case 1
    then obtain m where "n = Suc m" by (cases n) auto
    with 1 show ?case by simp
  next
    case 2
    then obtain m where "n = Suc (Suc m)" by (cases n; cases "n - 1") auto
    with 2 show ?case by (simp add: bnd_def)
  }
next
  case (Sym name)
  {
    case 1
    then obtain m where "n = Suc m" by (cases n) auto
    with denotes_tags(2) [OF 1(1)] denotes_nil [OF 1(1,3,4)] symbol_says [OF 1(1,3)] show ?case
      by auto
  next
    case 2
    then obtain m where "n = Suc (Suc m)" by (cases n; cases "n - 1") auto
    with denotes_tags(2) [OF 2(1)] denotes_nil [OF 2(1,3,4)] symbol_says [of ns "says '' . '' s" v name] 2 show ?case
      by (auto simp: bnd_def)
  }
next
  case (Str cs)
  {
    case 1
    then obtain m where "n = Suc m" by (cases n) auto
    with denotes_tags(3) [OF 1(1)] print_string_says 1 show ?case
      by simp
  next
    case 2
    then obtain m where "n = Suc (Suc m)" by (cases n; cases "n - 1") auto
    with denotes_tags(3) [OF 2(1)] print_string_says [of "says '' . '' s" v cs] 2 show ?case
      by (auto simp: bnd_def)
  }
next
  case (Pair x y)
  {
    case 1
    then obtain m where m: "n = Suc (Suc m)" "print_fuel x \<le> m" "print_fuel y \<le> m"
      by (cases n; cases "n - 1") auto
    from 1 have d: "denotes ns s (heap_car s (cell_of v)) x" "denotes ns s (heap_cdr s (cell_of v)) y"
      "cell_of v < HEAP_SIZE" by auto
    from d m(2) 1 have "print_val m (heap_car s (cell_of v)) (says ''('' s) = Done () (says (shown x) (says ''('' s))"
      by (intro Pair.IH(1)) auto
    moreover from d m(3) 1 have "print_list m False (heap_cdr s (cell_of v)) (says (''('' @ shown x) s) =
        Done () (says (shown_tail y) (says (''('' @ shown x) s))"
      by (intro Pair.IH(4)) auto
    ultimately show ?case
      using denotes_tags(4) [OF 1(1)] d m(1) by (simp add: bnd_def car_eq cdr_eq)
  next
    case 2
    then obtain m where m: "n = Suc (Suc m)" "print_fuel x \<le> Suc m" "print_fuel y \<le> Suc m"
      by (cases n; cases "n - 1") auto
    from 2 have d: "denotes ns s (heap_car s (cell_of v)) x" "denotes ns s (heap_cdr s (cell_of v)) y"
      "cell_of v < HEAP_SIZE" by auto
    from d m(2) 2 have "print_val (Suc m) (heap_car s (cell_of v)) (says '' '' s) = Done () (says (shown x) (says '' '' s))"
      by (intro Pair.IH(1)) auto
    moreover from d m(3) 2 have "print_list (Suc m) False (heap_cdr s (cell_of v)) (says ('' '' @ shown x) s) =
        Done () (says (shown_tail y) (says ('' '' @ shown x) s))"
      by (intro Pair.IH(4)) auto
    ultimately show ?case
      using denotes_tags(4) [OF 2(1)] d m(1)
      by (simp add: print_list.simps(2) [of "Suc m"] bnd_def car_eq cdr_eq del: print_list.simps print_val.simps)
  }
qed

end
