(* ===== verification/Tml_Read.thy ===== *)
theory Tml_Read
  imports Tml_Print
begin

text \<open>
  The reader (\<open>read.h\<close>).  \<open>read_ptr\<close> points into a C string: it is the list of the characters
  from there to the terminating NUL, so \<open>*read_ptr\<close> is NUL at its end, and reading or moving
  past the NUL is \<open>Wild\<close>.  The recursion has fuel.
\<close>

definition is_whitespace :: "char \<Rightarrow> bool" where
  "is_whitespace ch \<longleftrightarrow> ch = CHR '' '' \<or> ch = CHR 0x0A \<or> ch = CHR 0x09 \<or> ch = CHR 0x0D"

definition is_digit :: "char \<Rightarrow> bool" where
  "is_digit ch \<longleftrightarrow> schar ch \<ge> schar (CHR ''0'') \<and> schar ch \<le> schar (CHR ''9'')"

definition is_sym_char :: "char \<Rightarrow> bool" where
  "is_sym_char ch \<longleftrightarrow> \<not> (ch = NUL \<or> is_whitespace ch \<or> ch = CHR ''('' \<or> ch = CHR '')'' \<or> ch = CHR 0x27 \<or>
     ch = CHR 0x60 \<or> ch = CHR '','' \<or> ch = CHR ''.'')"

text \<open>The character under the pointer, and the one after it.\<close>

definition here :: "string \<Rightarrow> char" where
  "here t = (case t of [] \<Rightarrow> NUL | c # _ \<Rightarrow> c)"

fun skip_comment :: "string \<Rightarrow> string" where
  "skip_comment [] = []"
| "skip_comment (c # cs) = (if c \<noteq> CHR 0x0A then skip_comment cs else c # cs)"

lemma length_skip_comment: "length (skip_comment t) \<le> length t"
  by (induction t) auto

function skip_ws :: "string \<Rightarrow> string" where
  "skip_ws t = (if is_whitespace (here t) then skip_ws (tl t)
     else if here t = CHR '';'' then skip_ws (skip_comment t) else t)"
  by pat_completeness auto

termination
proof (relation "measure length")
  show "(tl t, t) \<in> measure length" if "is_whitespace (here t)" for t
    using that by (cases t) (auto simp: here_def is_whitespace_def NUL_def)
  show "(skip_comment t, t) \<in> measure length" if "here t = CHR '';''" for t
    using that length_skip_comment [of "tl t"] by (cases t) (auto simp: here_def NUL_def)
qed simp

declare skip_ws.simps [simp del]

definition skip_whitespace :: "unit act" where
  "skip_whitespace = upd (\<lambda>s. s\<lparr>read_ptr := skip_ws (read_ptr s)\<rparr>)"

definition advance :: "nat \<Rightarrow> unit act" where
  "advance n s = (if n \<le> length (read_ptr s) then Done () (s\<lparr>read_ptr := drop n (read_ptr s)\<rparr>) else Wild)"

definition look :: "char act" where
  "look = get (\<lambda>s. here (read_ptr s))"

section \<open>Numbers\<close>

definition hex_digit_val :: "char \<Rightarrow> int" where
  "hex_digit_val ch =
     (if schar ch \<ge> schar (CHR ''0'') \<and> schar ch \<le> schar (CHR ''9'') then schar ch - schar (CHR ''0'')
      else if schar ch \<ge> schar (CHR ''a'') \<and> schar ch \<le> schar (CHR ''f'')
      then schar ch - schar (CHR ''a'') + 10
      else if schar ch \<ge> schar (CHR ''A'') \<and> schar ch \<le> schar (CHR ''F'')
      then schar ch - schar (CHR ''A'') + 10
      else - 1)"

fun hex_loop :: "i24 \<Rightarrow> string \<Rightarrow> i24 \<times> string" where
  "hex_loop n [] = (n, [])"
| "hex_loop n (c # cs) = (if hex_digit_val c \<ge> 0
     then hex_loop (n * 16 + of_int (hex_digit_val c)) cs else (n, c # cs))"

definition read_hex :: "i24 act" where
  "read_hex = bnd (advance 2) (\<lambda>_ s. let (n, t) = hex_loop 0 (read_ptr s) in
     Done (MAKE_FIXNUM n) (s\<lparr>read_ptr := t\<rparr>))"

fun int_loop :: "i24 \<Rightarrow> string \<Rightarrow> i24 \<times> string" where
  "int_loop n [] = (n, [])"
| "int_loop n (c # cs) = (if is_digit c
     then int_loop (n * 10 + of_int (schar c - schar (CHR ''0''))) cs else (n, c # cs))"

definition read_int :: "i24 act" where
  "read_int = bnd look (\<lambda>ch. bnd (if ch = CHR ''-'' then advance 1 else ret ()) (\<lambda>_ s.
     let (n, t) = int_loop 0 (read_ptr s) in
     Done (MAKE_FIXNUM (if ch = CHR ''-'' then 0 - n else n)) (s\<lparr>read_ptr := t\<rparr>)))"

section \<open>Symbols and strings\<close>

text \<open>The loop of \<open>read_symbol\<close> with room for \<open>k\<close> more characters.\<close>

fun symbol_loop :: "nat \<Rightarrow> string \<Rightarrow> string \<times> string" where
  "symbol_loop 0 t = ([], t)"
| "symbol_loop (Suc k) [] = ([], [])"
| "symbol_loop (Suc k) (c # cs) = (if is_sym_char c
     then (let (name, t) = symbol_loop k cs in (c # name, t)) else ([], c # cs))"

definition read_symbol :: "i24 act" where
  "read_symbol s = (let (name, t) = symbol_loop 63 (read_ptr s) in intern name (s\<lparr>read_ptr := t\<rparr>))"

definition unescape :: "char \<Rightarrow> char" where
  "unescape c = (if c = CHR ''n'' then CHR 0x0A else if c = CHR ''r'' then CHR 0x0D
     else if c = CHR ''t'' then CHR 0x09 else c)"

text \<open>
  The loop of \<open>read_string\<close> with room for \<open>k\<close> more characters.  A backslash before the NUL makes
  it store the NUL and step past it: \<open>None\<close>.
\<close>

fun string_loop :: "nat \<Rightarrow> string \<Rightarrow> (string \<times> string) option" where
  "string_loop 0 t = Some ([], t)"
| "string_loop (Suc k) [] = Some ([], [])"
| "string_loop (Suc k) (c # cs) =
     (if c = CHR 0x22 then Some ([], c # cs)
      else if c = CHR 0x5C
      then (case cs of [] \<Rightarrow> None
         | d # ds \<Rightarrow> map_option (\<lambda>(str, t). (unescape d # str, t)) (string_loop k ds))
      else map_option (\<lambda>(str, t). (c # str, t)) (string_loop k cs))"

definition read_string :: "i24 act" where
  "read_string = bnd (advance 1) (\<lambda>_ s. case string_loop 119 (read_ptr s) of
     None \<Rightarrow> Wild
   | Some (str, t) \<Rightarrow> make_string str (s\<lparr>read_ptr := (if here t = CHR 0x22 then tl t else t)\<rparr>))"

section \<open>Expressions\<close>

definition quote_form :: "string \<Rightarrow> i24 \<Rightarrow> i24 act" where
  "quote_form name val = bnd (intern name) (\<lambda>q. bnd (cons val NIL_VAL) (\<lambda>r. cons q r))"

definition close_list :: "unit act" where
  "close_list = bnd look (\<lambda>c. if c = CHR '')'' then advance 1 else ret ())"

fun read_expr :: "nat \<Rightarrow> i24 act"
  and read_list :: "nat \<Rightarrow> i24 act"
  and read_items :: "nat \<Rightarrow> i24 \<Rightarrow> i24 \<Rightarrow> i24 act" where
  "read_expr 0 = starved"
| "read_expr (Suc n) = bnd skip_whitespace (\<lambda>_. bnd (get read_ptr) (\<lambda>p. let ch = here p; ch2 = here (tl p) in
     if ch = CHR 0x22 then read_string
     else if ch = CHR ''('' then read_list n
     else if ch = CHR 0x27
     then bnd (advance 1) (\<lambda>_. bnd (read_expr n) (quote_form ''quote''))
     else if ch = CHR 0x60
     then bnd (advance 1) (\<lambda>_. bnd (read_expr n) (quote_form ''quasiquote''))
     else if ch = CHR '',''
     then bnd (advance 1) (\<lambda>_. bnd look (\<lambda>c.
       if c = CHR ''@''
       then bnd (advance 1) (\<lambda>_. bnd (read_expr n) (quote_form ''unquote-splicing''))
       else bnd (read_expr n) (quote_form ''unquote'')))
     else if ch = CHR 0x23 \<and> ch2 = CHR ''x'' then read_hex
     else if ch = CHR 0x23 \<and> ch2 = CHR ''t'' then bnd (advance 2) (\<lambda>_. ret T_VAL)
     else if ch = CHR 0x23 \<and> ch2 = CHR ''f'' then bnd (advance 2) (\<lambda>_. ret NIL_VAL)
     else if ch = CHR 0x23 \<and> ch2 = CHR ''_''
     then bnd (advance 2) (\<lambda>_. bnd (read_expr n) (\<lambda>_. read_expr n))
     else if ch = CHR ''-'' \<and> is_digit ch2 then read_int
     else if is_digit ch then read_int
     else if ch \<noteq> NUL \<and> ch \<noteq> CHR '')'' then read_symbol
     else ret NIL_VAL))"
| "read_list 0 = starved"
| "read_list (Suc n) = bnd (advance 1) (\<lambda>_. bnd skip_whitespace (\<lambda>_. bnd look (\<lambda>c.
     if c = CHR '')'' then bnd (advance 1) (\<lambda>_. ret NIL_VAL)
     else bnd (read_expr n) (\<lambda>first. bnd skip_whitespace (\<lambda>_. bnd look (\<lambda>c.
       if c = CHR ''.''
       then bnd (advance 1) (\<lambda>_. bnd skip_whitespace (\<lambda>_. bnd (hold [first] (read_expr n)) (\<lambda>d.
         bnd skip_whitespace (\<lambda>_. bnd close_list (\<lambda>_. cons first d)))))
       else bnd (cons first NIL_VAL) (\<lambda>head. read_items n head head)))))))"
| "read_items 0 head tail = starved"
| "read_items (Suc n) head tail = bnd look (\<lambda>c.
     if c \<noteq> NUL \<and> c \<noteq> CHR '')''
     then bnd (hold [head, tail] (read_expr n)) (\<lambda>elem.
       bnd (hold [head, tail] (cons elem NIL_VAL)) (\<lambda>cell.
       bnd (poke_cdr (PTR_IDX tail) cell) (\<lambda>_.
       bnd skip_whitespace (\<lambda>_. bnd look (\<lambda>c.
         if c = CHR ''.''
         then bnd (advance 1) (\<lambda>_. bnd skip_whitespace (\<lambda>_. bnd (hold [head, cell] (read_expr n)) (\<lambda>d.
           bnd (poke_cdr (PTR_IDX cell) d) (\<lambda>_. bnd skip_whitespace (\<lambda>_. bnd close_list (\<lambda>_. ret head))))))
         else read_items n head cell)))))
     else bnd close_list (\<lambda>_. ret head))"

definition read_str :: "nat \<Rightarrow> string \<Rightarrow> i24 act" where
  "read_str n input = bnd (upd (\<lambda>s. s\<lparr>read_ptr := input\<rparr>)) (\<lambda>_. read_expr n)"

end
