(* ===== verification/Tml_Prims.thy ===== *)
theory Tml_Prims
  imports Tml_Read "HOL-Library.Signed_Division"
begin

text \<open>
  The parts of \<open>eval.h\<close> that do not evaluate: primitive numbers, extended objects, environments
  and the primitives on numbers, strings and symbols.  Loops over lists have fuel, since a list
  may be cyclic.
\<close>

section \<open>Primitive numbers\<close>

abbreviation (input) PRIM_ADD :: i24 where "PRIM_ADD \<equiv> 0"
abbreviation (input) PRIM_SUB :: i24 where "PRIM_SUB \<equiv> 1"
abbreviation (input) PRIM_MUL :: i24 where "PRIM_MUL \<equiv> 2"
abbreviation (input) PRIM_DIV :: i24 where "PRIM_DIV \<equiv> 3"
abbreviation (input) PRIM_MOD :: i24 where "PRIM_MOD \<equiv> 4"
abbreviation (input) PRIM_LT :: i24 where "PRIM_LT \<equiv> 5"
abbreviation (input) PRIM_EQ_NUM :: i24 where "PRIM_EQ_NUM \<equiv> 6"
abbreviation (input) PRIM_CONS :: i24 where "PRIM_CONS \<equiv> 7"
abbreviation (input) PRIM_CAR :: i24 where "PRIM_CAR \<equiv> 8"
abbreviation (input) PRIM_CDR :: i24 where "PRIM_CDR \<equiv> 9"
abbreviation (input) PRIM_LIST :: i24 where "PRIM_LIST \<equiv> 10"
abbreviation (input) PRIM_NULLP :: i24 where "PRIM_NULLP \<equiv> 11"
abbreviation (input) PRIM_PAIRP :: i24 where "PRIM_PAIRP \<equiv> 12"
abbreviation (input) PRIM_ATOMP :: i24 where "PRIM_ATOMP \<equiv> 13"
abbreviation (input) PRIM_EQP :: i24 where "PRIM_EQP \<equiv> 14"
abbreviation (input) PRIM_NOT :: i24 where "PRIM_NOT \<equiv> 15"
abbreviation (input) PRIM_PRINT :: i24 where "PRIM_PRINT \<equiv> 16"
abbreviation (input) PRIM_NUMP :: i24 where "PRIM_NUMP \<equiv> 17"
abbreviation (input) PRIM_EXIT :: i24 where "PRIM_EXIT \<equiv> 18"
abbreviation (input) PRIM_PEEK :: i24 where "PRIM_PEEK \<equiv> 19"
abbreviation (input) PRIM_POKE :: i24 where "PRIM_POKE \<equiv> 20"
abbreviation (input) PRIM_DELAY :: i24 where "PRIM_DELAY \<equiv> 21"
abbreviation (input) PRIM_PRINTLN :: i24 where "PRIM_PRINTLN \<equiv> 22"
abbreviation (input) PRIM_NEWLINE :: i24 where "PRIM_NEWLINE \<equiv> 23"
abbreviation (input) PRIM_APPLY :: i24 where "PRIM_APPLY \<equiv> 24"
abbreviation (input) PRIM_STR_LEN :: i24 where "PRIM_STR_LEN \<equiv> 25"
abbreviation (input) PRIM_STR_REF :: i24 where "PRIM_STR_REF \<equiv> 26"
abbreviation (input) PRIM_STR_APPEND :: i24 where "PRIM_STR_APPEND \<equiv> 27"
abbreviation (input) PRIM_STR_EQ :: i24 where "PRIM_STR_EQ \<equiv> 28"
abbreviation (input) PRIM_STRINGP :: i24 where "PRIM_STRINGP \<equiv> 29"
abbreviation (input) PRIM_DISPLAY :: i24 where "PRIM_DISPLAY \<equiv> 30"
abbreviation (input) PRIM_GC :: i24 where "PRIM_GC \<equiv> 31"
abbreviation (input) PRIM_HEAP_USED :: i24 where "PRIM_HEAP_USED \<equiv> 32"
abbreviation (input) PRIM_HEAP_SIZE :: i24 where "PRIM_HEAP_SIZE \<equiv> 33"
abbreviation (input) PRIM_NUM_TO_STR :: i24 where "PRIM_NUM_TO_STR \<equiv> 34"
abbreviation (input) PRIM_FNQP :: i24 where "PRIM_FNQP \<equiv> 35"
abbreviation (input) PRIM_EVAL :: i24 where "PRIM_EVAL \<equiv> 36"
abbreviation (input) PRIM_MACEXPAND :: i24 where "PRIM_MACEXPAND \<equiv> 37"
abbreviation (input) PRIM_GENSYM :: i24 where "PRIM_GENSYM \<equiv> 38"
abbreviation (input) PRIM_SYM_TO_STR :: i24 where "PRIM_SYM_TO_STR \<equiv> 39"
abbreviation (input) PRIM_STR_TO_SYM :: i24 where "PRIM_STR_TO_SYM \<equiv> 40"
abbreviation (input) PRIM_THROW :: i24 where "PRIM_THROW \<equiv> 41"
abbreviation (input) PRIM_DYN_WIND :: i24 where "PRIM_DYN_WIND \<equiv> 42"
abbreviation (input) PRIM_SYMBOLP :: i24 where "PRIM_SYMBOLP \<equiv> 43"
abbreviation (input) PRIM_SUBSTR :: i24 where "PRIM_SUBSTR \<equiv> 44"
abbreviation (input) PRIM_FORMAT :: i24 where "PRIM_FORMAT \<equiv> 45"
abbreviation (input) PRIM_CHR_TO_INT :: i24 where "PRIM_CHR_TO_INT \<equiv> 46"
abbreviation (input) PRIM_INT_TO_CHR :: i24 where "PRIM_INT_TO_CHR \<equiv> 47"
abbreviation (input) PRIM_STR_INDEX :: i24 where "PRIM_STR_INDEX \<equiv> 48"
abbreviation (input) PRIM_STR_CONTAINS :: i24 where "PRIM_STR_CONTAINS \<equiv> 49"

section \<open>Extended objects\<close>

definition ext_type :: "i24 \<Rightarrow> i24 act" where "ext_type v = peek_car (PTR_IDX v)"
definition ext_data :: "i24 \<Rightarrow> i24 act" where "ext_data v = peek_cdr (PTR_IDX v)"

definition make_closure :: "i24 \<Rightarrow> i24 \<Rightarrow> i24 \<Rightarrow> i24 act" where
  "make_closure params body env =
     bnd (hold [params, body, env] (cons body env)) (\<lambda>inner.
     bnd (hold [params, body, env, inner] (cons params inner)) (\<lambda>data.
     bnd (hold [params, body, env, inner, data] alloc_cell) (\<lambda>idx.
     bnd (poke_car idx ETYPE_CLOSURE) (\<lambda>_. bnd (poke_cdr idx data) (\<lambda>_. ret (MAKE_EXTENDED idx))))))"

definition make_macro :: "i24 \<Rightarrow> i24 \<Rightarrow> i24 \<Rightarrow> i24 act" where
  "make_macro params body env =
     bnd (hold [params, body, env] (cons body env)) (\<lambda>inner.
     bnd (hold [params, body, env, inner] (cons params inner)) (\<lambda>data.
     bnd (hold [params, body, env, inner, data] alloc_cell) (\<lambda>idx.
     bnd (poke_car idx ETYPE_MACRO) (\<lambda>_. bnd (poke_cdr idx data) (\<lambda>_. ret (MAKE_EXTENDED idx))))))"

definition make_primitive :: "i24 \<Rightarrow> i24 act" where
  "make_primitive pid = bnd alloc_cell (\<lambda>idx. bnd (poke_car idx ETYPE_PRIMITIVE) (\<lambda>_.
     bnd (poke_cdr idx (MAKE_FIXNUM pid)) (\<lambda>_. ret (MAKE_EXTENDED idx))))"

definition closure_params :: "i24 \<Rightarrow> i24 act" where
  "closure_params v = bnd (ext_data v) car"

definition closure_body :: "i24 \<Rightarrow> i24 act" where
  "closure_body v = bnd (ext_data v) (\<lambda>d. bnd (cdr d) car)"

definition closure_env :: "i24 \<Rightarrow> i24 act" where
  "closure_env v = bnd (ext_data v) (\<lambda>d. bnd (cdr d) cdr)"

section \<open>Environments\<close>

definition env_extend :: "i24 \<Rightarrow> i24 \<Rightarrow> i24 \<Rightarrow> i24 act" where
  "env_extend symb val env = bnd (hold [symb, val, env] (cons symb val)) (\<lambda>b. cons b env)"

text \<open>
  The search loops over an association list.  The heap does not change on the way, so a walk of
  more than \<open>walk_fuel\<close> steps has come back to a value it has seen and never ends.
\<close>

definition walk_fuel :: nat where "walk_fuel = Suc (4 * HEAP_SIZE)"

fun find_binding :: "nat \<Rightarrow> i24 \<Rightarrow> i24 \<Rightarrow> i24 option act" where
  "find_binding 0 symb e = starved"
| "find_binding (Suc k) symb e = (if IS_NIL e then ret None
     else bnd (car e) (\<lambda>binding. bnd (car binding) (\<lambda>name.
       if name = symb then ret (Some binding) else bnd (cdr e) (find_binding k symb))))"

definition env_lookup :: "nat \<Rightarrow> i24 \<Rightarrow> i24 \<Rightarrow> i24 act" where
  "env_lookup k symb env = bnd (find_binding walk_fuel symb env) (\<lambda>r. case r of Some b \<Rightarrow> cdr b
     | None \<Rightarrow> bnd (get global_env) (\<lambda>g. bnd (find_binding walk_fuel symb g) (\<lambda>r. case r of Some b \<Rightarrow> cdr b
       | None \<Rightarrow> bnd (puts_str ''ERR:unbound '') (\<lambda>_. bnd (print_val k symb) (\<lambda>_.
           bnd (putc_uart (CHR 0x0A)) (\<lambda>_. ret NIL_VAL))))))"

text \<open>\<open>gc_roots[gc_root_count - i] = v\<close>\<close>

definition set_root :: "i24 \<Rightarrow> i24 \<Rightarrow> unit act" where
  "set_root i v s = (if unat (gc_root_count s - i) < MAX_GC_ROOTS
     then Done () (s\<lparr>gc_roots := (gc_roots s)(unat (gc_root_count s - i) := v)\<rparr>) else Wild)"

fun bind_loop :: "nat \<Rightarrow> i24 \<Rightarrow> i24 \<Rightarrow> i24 \<Rightarrow> i24 act" where
  "bind_loop 0 params args env = starved"
| "bind_loop (Suc k) params args env =
     (if IS_CONS params
      then bnd (set_root 2 env) (\<lambda>_. bnd (car params) (\<lambda>p. bnd (car args) (\<lambda>a.
        bnd (hold [params, args, env] (env_extend p a env)) (\<lambda>env.
        bnd (cdr params) (\<lambda>params. bnd (cdr args) (\<lambda>args.
        bnd (set_root 1 args) (\<lambda>_. bind_loop k params args env)))))))
      else if IS_SYMBOL params then hold [params, args, env] (env_extend params args env)
      else ret env)"

definition env_bind :: "i24 \<Rightarrow> i24 \<Rightarrow> i24 \<Rightarrow> i24 act" where
  "env_bind params args env = bnd (gc_protect env) (\<lambda>_. bnd (gc_protect args) (\<lambda>_.
     bnd (bind_loop walk_fuel params args env) (\<lambda>env. bnd (gc_unprotect 2) (\<lambda>_. ret env))))"

section \<open>Numbers\<close>

definition truth :: "bool \<Rightarrow> i24 act" where
  "truth c = ret (if c then T_VAL else NIL_VAL)"

text \<open>The fold of \<open>+\<close>, \<open>-\<close> and \<open>*\<close>; \<open>None\<close> is the return with an error.\<close>

fun arith_loop :: "nat \<Rightarrow> i24 \<Rightarrow> i24 \<Rightarrow> i24 \<Rightarrow> i24 \<Rightarrow> (i24 \<times> i24) option act" where
  "arith_loop 0 pid rest result count = starved"
| "arith_loop (Suc k) pid rest result count = (if IS_NIL rest then ret (Some (result, count))
     else bnd (car rest) (\<lambda>v. if \<not> IS_FIXNUM v
       then bnd (puts_str ''ERR:not-number\<newline>'') (\<lambda>_. ret None)
       else bnd (cdr rest) (\<lambda>rest. arith_loop k pid rest
         (if count = 0 \<and> pid = PRIM_SUB then FIXNUM_VAL v
          else if pid = PRIM_ADD then result + FIXNUM_VAL v
          else if pid = PRIM_SUB then result - FIXNUM_VAL v
          else result * FIXNUM_VAL v) (count + 1))))"

definition prim_arith :: "i24 \<Rightarrow> i24 \<Rightarrow> i24 act" where
  "prim_arith pid args = bnd (arith_loop walk_fuel pid args (if pid = PRIM_MUL then 1 else 0) 0) (\<lambda>r.
     case r of None \<Rightarrow> ret NIL_VAL
     | Some (result, count) \<Rightarrow> ret (MAKE_FIXNUM (if pid = PRIM_SUB \<and> count = 1 then - result else result)))"

text \<open>Division truncates towards zero.\<close>

definition prim_binary :: "i24 \<Rightarrow> i24 \<Rightarrow> i24 \<Rightarrow> i24 act" where
  "prim_binary pid a b =
     (if \<not> IS_FIXNUM a \<or> \<not> IS_FIXNUM b
      then bnd (puts_str ''ERR:not-number\<newline>'') (\<lambda>_. ret NIL_VAL)
      else if (pid = PRIM_DIV \<or> pid = PRIM_MOD) \<and> FIXNUM_VAL b = 0
      then bnd (puts_str ''ERR:div-by-zero\<newline>'') (\<lambda>_. ret NIL_VAL)
      else if pid = PRIM_DIV
      then ret (MAKE_FIXNUM (of_int (sint (FIXNUM_VAL a) sdiv sint (FIXNUM_VAL b))))
      else if pid = PRIM_MOD
      then ret (MAKE_FIXNUM (of_int (sint (FIXNUM_VAL a) smod sint (FIXNUM_VAL b))))
      else if pid = PRIM_LT then truth (sint (FIXNUM_VAL a) < sint (FIXNUM_VAL b))
      else truth (FIXNUM_VAL a = FIXNUM_VAL b))"

text \<open>The digits are written lowest first, then the sign, and the buffer is reversed.\<close>

definition number_text :: "i24 \<Rightarrow> string" where
  "number_text n = (let neg = sint n < 0; n = (if neg then 0 - n else n) in
     if n = 0 then ''0'' else rev (digits_rev (nat (sint n)) @ (if neg then ''-'' else [])))"

definition number_to_string :: "i24 \<Rightarrow> i24 act" where
  "number_to_string a = make_string (number_text (FIXNUM_VAL a))"

section \<open>Strings and symbols\<close>

text \<open>\<open>format\<close>: what \<open>~a\<close> inserts for an argument.\<close>

definition format_arg :: "i24 list \<Rightarrow> i24 \<Rightarrow> string act" where
  "format_arg fr arg = bnd (is_string arg) (\<lambda>str.
     if str then string_chars arg
     else if IS_FIXNUM arg
     then bnd (hold (fr @ [arg]) (cons arg NIL_VAL)) (\<lambda>l. bnd (car l) (\<lambda>n.
       bnd (hold (fr @ [arg, l]) (number_to_string n)) string_chars))
     else if IS_SYMBOL arg then symbol_text arg
     else ret [])"

text \<open>The loop of \<open>format\<close> with \<open>r\<close> characters of the format left from \<open>fi\<close> on.\<close>

fun format_loop :: "nat \<Rightarrow> i24 list \<Rightarrow> i24 \<Rightarrow> nat \<Rightarrow> i24 \<Rightarrow> string \<Rightarrow> string act" where
  "format_loop 0 fr fmt fi fargs buf = ret buf"
| "format_loop (Suc r) fr fmt fi fargs buf =
     (if length buf \<ge> 254 then ret buf
      else bnd (peek_char fmt (of_nat fi)) (\<lambda>c. if c = CHR ''~'' \<and> r > 0
        then bnd (peek_char fmt (of_nat (Suc fi))) (\<lambda>d.
          if d = CHR ''a'' \<and> \<not> IS_NIL fargs
          then bnd (car fargs) (\<lambda>arg. bnd (cdr fargs) (\<lambda>fargs.
            bnd (format_arg (fr @ [fargs]) arg) (\<lambda>cs.
            format_loop (r - 1) fr fmt (fi + 2) fargs (take 254 (buf @ cs)))))
          else format_loop (r - 1) fr fmt (fi + 2) fargs (if d = CHR ''~'' then buf @ ''~'' else buf))
        else format_loop r fr fmt (fi + 1) fargs (buf @ [c])))"

definition prim_format :: "i24 \<Rightarrow> i24 \<Rightarrow> i24 \<Rightarrow> i24 act" where
  "prim_format args a b = bnd (string_data a) (\<lambda>fmt. bnd (string_len a) (\<lambda>flen. bnd (cdr args) (\<lambda>fargs.
     bnd (format_loop (unat flen) [args, a, b] fmt 0 fargs []) make_string)))"

text \<open>\<open>string-index\<close>: the loop with \<open>r\<close> characters left.\<close>

fun index_loop :: "nat \<Rightarrow> i24 \<Rightarrow> nat \<Rightarrow> i24 \<Rightarrow> i24 act" where
  "index_loop 0 d i ch = ret (MAKE_FIXNUM (-1))"
| "index_loop (Suc r) d i ch = bnd (peek_char d (of_nat i)) (\<lambda>c.
     if of_int (schar c) = ch then ret (MAKE_FIXNUM (of_nat i)) else index_loop r d (Suc i) ch)"

definition prim_index :: "i24 \<Rightarrow> i24 \<Rightarrow> i24 act" where
  "prim_index a b = bnd (string_data a) (\<lambda>d. bnd (string_len a) (\<lambda>len.
     index_loop (unat len) d 0 (FIXNUM_VAL b)))"

text \<open>\<open>string-contains?\<close>: whether the needle lies at \<open>i\<close>, and the search with \<open>r\<close> places left.\<close>

fun matches_at :: "nat \<Rightarrow> i24 \<Rightarrow> i24 \<Rightarrow> nat \<Rightarrow> nat \<Rightarrow> bool act" where
  "matches_at 0 h n i j = ret True"
| "matches_at (Suc r) h n i j = bnd (peek_char h (of_nat (i + j))) (\<lambda>c. bnd (peek_char n (of_nat j)) (\<lambda>d.
     if c = d then matches_at r h n i (Suc j) else ret False))"

fun contains_loop :: "nat \<Rightarrow> i24 \<Rightarrow> i24 \<Rightarrow> nat \<Rightarrow> nat \<Rightarrow> bool act" where
  "contains_loop 0 h n nlen i = ret False"
| "contains_loop (Suc r) h n nlen i = bnd (matches_at nlen h n i 0) (\<lambda>found.
     if found then ret True else contains_loop r h n nlen (Suc i))"

definition prim_contains :: "i24 \<Rightarrow> i24 \<Rightarrow> i24 act" where
  "prim_contains a b = bnd (string_data a) (\<lambda>h. bnd (string_len a) (\<lambda>hlen.
     bnd (string_data b) (\<lambda>n. bnd (string_len b) (\<lambda>nlen.
     if nlen = 0 then ret T_VAL
     else bnd (contains_loop (unat hlen + 1 - unat nlen) h n (unat nlen) 0) truth))))"

text \<open>\<open>substring\<close> copies within the pool, character by character.\<close>

definition prim_substring :: "i24 \<Rightarrow> i24 \<Rightarrow> i24 \<Rightarrow> i24 act" where
  "prim_substring args a b = bnd (cdr args) (\<lambda>r. bnd (cdr r) (\<lambda>r. bnd (car r) (\<lambda>e.
     bnd (string_data a) (\<lambda>d s.
       let start = FIXNUM_VAL b; len = FIXNUM_VAL e - start; len = (if sint len < 0 then 0 else len) in
       (if sint (str_pool_next s + len + 1) > int STR_POOL_SIZE then str_panic
        else bnd (push_from (d + start) 0 (unat len)) (\<lambda>_. bnd (push_char NUL) (\<lambda>_.
          string_cell (str_pool_next s) len))) s))))"

definition gensym_text :: "i24 \<Rightarrow> string" where
  "gensym_text n = ''_g'' @ (if n = 0 then ''0'' else rev (digits_rev (nat (sint n))))"

definition prim_gensym :: "i24 act" where
  "prim_gensym = bnd (get gensym_counter) (\<lambda>n.
     bnd (upd (\<lambda>s. s\<lparr>gensym_counter := gensym_counter s + 1\<rparr>)) (\<lambda>_. intern (gensym_text n)))"

text \<open>The C string at an offset of the string pool.\<close>

fun pool_cstring :: "nat \<Rightarrow> nat \<Rightarrow> string act" where
  "pool_cstring 0 a = wild"
| "pool_cstring (Suc r) a = bnd (get (\<lambda>s. str_pool s a)) (\<lambda>c. if c = NUL then ret []
     else bnd (pool_cstring r (Suc a)) (\<lambda>cs. ret (c # cs)))"

definition prim_string_to_symbol :: "i24 \<Rightarrow> i24 act" where
  "prim_string_to_symbol a = bnd (is_string a) (\<lambda>str. if str
     then bnd (string_data a) (\<lambda>d. bnd (pool_cstring (STR_POOL_SIZE - unat d) (unat d)) intern)
     else ret NIL_VAL)"

definition prim_display :: "nat \<Rightarrow> i24 \<Rightarrow> i24 act" where
  "prim_display k a = bnd (is_string a) (\<lambda>str. bnd
     (if str then bnd (string_chars a) puts_str else print_val k a) (\<lambda>_. ret NIL_VAL))"

end
