(* ===== verification/Tml_Build.thy ===== *)
theory Tml_Build
  imports Tml_Read
begin

text \<open>
  Building data in the heap: what an operation that returns a datum promises relative to the
  state it started from, and the operations that allocate.  Everything is relative to a base
  state whose live cells must stay untouched; what is built consists of cells that were not live
  there, also when collections happen on the way.
\<close>

section \<open>Outcomes\<close>

datatype parsed = Parsed datum string | Overrun | Short

fun and_then :: "parsed \<Rightarrow> (datum \<Rightarrow> string \<Rightarrow> parsed) \<Rightarrow> parsed" where
  "and_then (Parsed x t) k = k x t"
| "and_then Overrun k = Overrun"
| "and_then Short k = Short"

definition nil :: datum where "nil = Sym ''nil''"

definition quoted :: "string \<Rightarrow> datum \<Rightarrow> datum" where
  "quoted name x = Pair (Sym name) (Pair x nil)"

definition after :: "char \<Rightarrow> string \<Rightarrow> string" where
  "after c t = (if here t = c then tl t else t)"

section \<open>States of the runtime\<close>

definition state_ok :: "string list \<Rightarrow> lisp \<Rightarrow> bool" where
  "state_ok ns s \<longleftrightarrow> heap_ok s \<and> symtab s ns \<and> unat (str_pool_next s) \<le> STR_POOL_SIZE \<and>
     (\<exists>ms. ns = ''nil'' # ''t'' # ms)"

definition grows :: "string list \<Rightarrow> lisp \<Rightarrow> string list \<Rightarrow> lisp \<Rightarrow> bool" where
  "grows ns s ns' s' \<longleftrightarrow> extends s s' \<and> state_ok ns' s' \<and> (\<exists>ms. ns' = ns @ ms) \<and> pool_grows s s'"

text \<open>Offsets of strings are right only while the pool is below 2048 bytes.\<close>

definition den :: "string list \<Rightarrow> lisp \<Rightarrow> i24 \<Rightarrow> datum \<Rightarrow> bool" where
  "den ns s v x \<longleftrightarrow> (unat (str_pool_next s) \<le> 2048 \<longrightarrow> denotes ns s v x)"

text \<open>What is reachable from a value is none of what was live in the base state.\<close>

definition fresh :: "lisp \<Rightarrow> lisp \<Rightarrow> i24 \<Rightarrow> bool" where
  "fresh s0 s v \<longleftrightarrow> reach (heap_car s) (heap_cdr s) {v} \<inter> live s0 = {}"

definition got :: "string list \<Rightarrow> lisp \<Rightarrow> datum \<Rightarrow> string \<Rightarrow> i24 \<Rightarrow> string list \<Rightarrow> lisp \<Rightarrow> bool" where
  "got ns s x r v ns' s' \<longleftrightarrow> grows ns s ns' s' \<and> sound s' v \<and> fresh s s' v \<and> read_ptr s' = r \<and> NUL \<notin> set r \<and>
     den ns' s' v x"

definition reads :: "string list \<Rightarrow> lisp \<Rightarrow> parsed \<Rightarrow> i24 outcome \<Rightarrow> bool" where
  "reads ns s p out \<longleftrightarrow> (\<exists>s'. out = Halted s') \<or> (case p of
       Parsed x r \<Rightarrow> \<exists>v ns' s'. out = Done v s' \<and> got ns s x r v ns' s'
     | Overrun \<Rightarrow> out = Wild
     | Short \<Rightarrow> out = Starved)"

lemma grows_trans: "grows ns s ns1 s1 \<Longrightarrow> grows ns1 s1 ns2 s2 \<Longrightarrow> grows ns s ns2 s2"
  unfolding grows_def using extends_trans pool_grows_trans by fastforce

lemma grows_refl: "state_ok ns s \<Longrightarrow> grows ns s ns s"
  by (auto simp: grows_def state_ok_def pool_grows_def intro: extends_refl)

lemma got_trans: "grows ns s ns1 s1 \<Longrightarrow> got ns1 s1 x r v ns2 s2 \<Longrightarrow> got ns s x r v ns2 s2"
  using grows_trans extends_live [of s s1] unfolding got_def grows_def fresh_def by blast

lemma fresh_simple [simp]: "\<not> IS_PTR v \<Longrightarrow> fresh s0 s v"
  by (auto simp: fresh_def reach_def)

lemma reads_trans: "grows ns s ns1 s1 \<Longrightarrow> reads ns1 s1 p out \<Longrightarrow> reads ns s p out"
  by (cases p; simp add: reads_def; blast intro: got_trans)

lemma reads_bnd:
  assumes "reads ns s p (m t)"
    and "\<And>x r v ns' s'. p = Parsed x r \<Longrightarrow> got ns s x r v ns' s' \<Longrightarrow> reads ns0 s0 (k x r) (f v s')"
  shows "reads ns0 s0 (and_then p k) (bnd m f t)"
proof (cases "\<exists>s'. m t = Halted s'")
  case True
  then show ?thesis by (auto simp: reads_def bnd_def)
next
  case False
  show ?thesis
  proof (cases p)
    case (Parsed x r)
    with assms(1) False obtain v ns' s' where run: "m t = Done v s'" "got ns s x r v ns' s'"
      by (auto simp: reads_def)
    with assms(2) [OF Parsed run(2)] Parsed show ?thesis
      by (simp add: bnd_def)
  qed (use assms(1) False in \<open>auto simp: reads_def bnd_def\<close>)
qed

lemma den_mono:
  assumes "den ns s v x" and "pool_grows s s'" and "ns' = ns @ ms"
    and "\<And>j. j \<in> reach (heap_car s) (heap_cdr s) {v} \<Longrightarrow>
      heap_car s' j = heap_car s j \<and> heap_cdr s' j = heap_cdr s j"
  shows "den ns' s' v x"
  using assms denotes_mono [of ns s v x s' ns' ms] by (auto simp: den_def pool_grows_def)

text \<open>Moving the reader.\<close>

definition at :: "string \<Rightarrow> lisp \<Rightarrow> lisp" where
  "at t s = s\<lparr>read_ptr := t\<rparr>"

lemma at_simps [simp]:
  "heap_car (at t s) = heap_car s" "heap_cdr (at t s) = heap_cdr s" "c_stack (at t s) = c_stack s"
  "str_pool_next (at t s) = str_pool_next s" "str_pool (at t s) = str_pool s"
  "read_ptr (at t s) = t" "at t (at u s) = at t s" "at (read_ptr s) s = s"
  "symtab (at t s) ns = symtab s ns" "string_at (at t s) v cs = string_at s v cs"
  "same_heap s (at t s)"
  by (simp_all add: at_def symtab_def string_at_def same_heap_def)

lemma denotes_at [simp]: "denotes ns (at t s) v x = denotes ns s v x"
  by (induction x arbitrary: v) simp_all

lemma at_facts [simp]:
  "sound (at t s) v = sound s v" "heap_ok (at t s) = heap_ok s" "used (at t s) = used s"
  "live (at t s) = live s" "state_ok ns (at t s) = state_ok ns s" "den ns (at t s) v x = den ns s v x"
  using same_heap_facts [of s "at t s"] by (simp_all add: state_ok_def den_def)

lemma grows_at: "state_ok ns s \<Longrightarrow> grows ns s ns (at t s)"
  by (auto simp: grows_def pool_grows_def state_ok_def intro: same_heap_extends)

lemma grows_ok: "grows ns s ns' s' \<Longrightarrow> state_ok ns' s'"
  by (simp add: grows_def)

lemma reader_simps [simp]:
  "bnd skip_whitespace f s = f () (at (skip_ws (read_ptr s)) s)"
  "bnd look g s = g (here (read_ptr s)) s"
  "n \<le> length (read_ptr s) \<Longrightarrow> bnd (advance n) h s = h () (at (drop n (read_ptr s)) s)"
  by (simp_all add: skip_whitespace_def look_def advance_def bnd_def at_def)

lemma here_nonempty: "here t \<noteq> NUL \<Longrightarrow> t \<noteq> []"
  by (auto simp: here_def)

lemma length_here: "here t \<noteq> NUL \<Longrightarrow> Suc 0 \<le> length t" "here t \<noteq> NUL \<Longrightarrow> here (tl t) \<noteq> NUL \<Longrightarrow> 2 \<le> length t"
  by (cases t; simp add: here_def) (cases t; cases "tl t"; simp add: here_def)

lemma set_tl: "set (tl t) \<subseteq> set t"
  by (cases t) auto

lemma set_skip_ws: "set (skip_ws t) \<subseteq> set t"
proof (induction t rule: skip_ws.induct)
  case (1 t)
  have c: "set (skip_comment u) \<subseteq> set u" for u
    by (induction u) auto
  consider "is_whitespace (here t)" | "\<not> is_whitespace (here t)" "here t = CHR '';''"
    | "\<not> is_whitespace (here t)" "here t \<noteq> CHR '';''" by blast
  then show ?case
  proof cases
    case 1
    with "1.IH"(1) set_tl [of t] show ?thesis
      by (simp add: skip_ws.simps [of t])
  next
    case 2
    with "1.IH"(2) c [of t] show ?thesis
      by (simp add: skip_ws.simps [of t])
  qed (simp add: skip_ws.simps [of t])
qed

lemma NUL_skip_ws: "NUL \<notin> set t \<Longrightarrow> NUL \<notin> set (skip_ws t)"
  and NUL_tl: "NUL \<notin> set t \<Longrightarrow> NUL \<notin> set (tl t)"
  and NUL_drop: "NUL \<notin> set t \<Longrightarrow> NUL \<notin> set (drop n t)"
  and NUL_after: "NUL \<notin> set t \<Longrightarrow> NUL \<notin> set (after c t)"
  using set_skip_ws [of t] set_tl [of t] by (auto simp: after_def dest: in_set_dropD)

section \<open>The operations the reader uses\<close>

lemma frame_grows:
  assumes "state_ok ns s" and "extends s s'" and "alloc_frame s s'"
  shows "grows ns s ns s'" and "read_ptr s' = read_ptr s" and "pool_grows s s'"
  using assms unfolding alloc_frame_def grows_def state_ok_def extends_def pool_grows_def
  by (auto simp: symtab_def)

lemma cons_reads:
  assumes ok: "state_ok ns s" and snd: "sound s a" "sound s d"
    and run: "cons a d s = Done v s'"
  shows "\<exists>i. v = MAKE_CONS (of_nat i) \<and> cell_of v = i \<and> i < HEAP_SIZE \<and> i \<in> used s' \<and> i \<notin> live s \<and>
    grows ns s ns s' \<and> read_ptr s' = read_ptr s \<and> heap_car s' i = a \<and> heap_cdr s' i = d \<and>
    (\<forall>w j. w \<in> {a, d} \<longrightarrow> j \<in> reach (heap_car s) (heap_cdr s) {w} \<longrightarrow>
       heap_car s' j = heap_car s j \<and> heap_cdr s' j = heap_cdr s j \<and> j \<in> used s' \<and> j \<noteq> i)"
proof -
  have okh: "heap_ok s" using ok by (simp add: state_ok_def)
  from cells.make_cell_fresh [OF run [unfolded cons_make_cell] okh snd] obtain i where
    i: "v = MAKE_CONS (of_nat i)" "i < HEAP_SIZE" "i \<in> used s'" "i \<notin> live s" "extends s s'"
    "alloc_frame s s'" "heap_car s' i = a" "heap_cdr s' i = d"
    and k: "\<forall>w j. w \<in> set [a, d] \<longrightarrow> sound s w \<longrightarrow> j \<in> reach (heap_car s) (heap_cdr s) {w} \<longrightarrow>
       heap_car s' j = heap_car s j \<and> heap_cdr s' j = heap_cdr s j \<and> j \<in> used s' \<and> j \<noteq> i"
    by auto
  have "cell_of v = i"
    using i(1,2) by (simp add: HEAP_SIZE_def)
  with i k snd frame_grows [OF ok i(5,6)] show ?thesis
    by auto
qed

lemma cons_outcome:
  assumes "state_ok ns s"
  shows "(\<exists>v s'. cons a d s = Done v s') \<or> (\<exists>s'. cons a d s = Halted s')"
  unfolding cons_make_cell by (rule cells.make_cell_outcome) (use assms in \<open>simp add: state_ok_def\<close>)

text \<open>The cells of a pair are its own and those of its parts.\<close>

lemma reach_pair:
  assumes "cell_of v = i" and "IS_PTR v"
  shows "reach ca cd {v} \<subseteq> insert i (reach ca cd {ca i} \<union> reach ca cd {cd i})"
proof (rule reach_closed)
  fix j k assume j: "j \<in> insert i (reach ca cd {ca i} \<union> reach ca cd {cd i})" and e: "(j, k) \<in> edges ca cd"
  from e show "k \<in> insert i (reach ca cd {ca i} \<union> reach ca cd {cd i})"
  proof (cases rule: edges_E)
    case 1
    with j show ?thesis
      by (cases "j = i") (auto intro: reach_root reach_car)
  next
    case 2
    with j show ?thesis
      by (cases "j = i") (auto intro: reach_root reach_cdr)
  qed
qed (use assms in auto)

lemma cons_result:
  assumes base: "grows ns0 s0 ns s" and snd: "sound s a" "sound s d" and den: "den ns s a x" "den ns s d y"
    and fr: "fresh s0 s a" "fresh s0 s d" and t: "NUL \<notin> set (read_ptr s)"
    and run: "cons a d s = Done v s'"
  shows "got ns0 s0 (Pair x y) (read_ptr s) v ns s'" and "grows ns s ns s'"
proof -
  have ok: "state_ok ns s" using base by (rule grows_ok)
  from cons_reads [OF ok snd run] obtain i where i: "v = MAKE_CONS (of_nat i)" "cell_of v = i"
    "i < HEAP_SIZE" "i \<in> used s'" "i \<notin> live s" "grows ns s ns s'" "read_ptr s' = read_ptr s"
    "heap_car s' i = a" "heap_cdr s' i = d"
    and k: "\<And>w j. w \<in> {a, d} \<Longrightarrow> j \<in> reach (heap_car s) (heap_cdr s) {w} \<Longrightarrow>
       heap_car s' j = heap_car s j \<and> heap_cdr s' j = heap_cdr s j"
    by metis
  have pg: "pool_grows s s'" using i(6) by (simp add: grows_def)
  have "den ns s' a x" "den ns s' d y"
    using den_mono [OF den(1) pg, of ns "[]"] den_mono [OF den(2) pg, of ns "[]"] k by auto
  then have "den ns s' v (Pair x y)"
    using i by (simp add: den_def)
  moreover have "fresh s0 s' v"
  proof -
    have "reach (heap_car s') (heap_cdr s') {a} = reach (heap_car s) (heap_cdr s) {a}"
      "reach (heap_car s') (heap_cdr s') {d} = reach (heap_car s) (heap_cdr s) {d}"
      by (rule reach_same; use k in auto)+
    moreover have "live s0 \<subseteq> live s"
      using base by (auto simp: grows_def intro: extends_live [THEN subsetD])
    ultimately show ?thesis
      using reach_pair [OF i(2), of "heap_car s'" "heap_cdr s'"] i fr
      by (auto simp: fresh_def IS_PTR_def)
  qed
  ultimately show "got ns0 s0 (Pair x y) (read_ptr s) v ns s'"
    using i t grows_trans [OF base i(6)] by (simp add: got_def sound_def)
  show "grows ns s ns s'" by (rule i(6))
qed

lemma cons_got:
  assumes base: "grows ns0 s0 ns s" and "sound s a" "sound s d" and "den ns s a x" "den ns s d y"
    and "fresh s0 s a" "fresh s0 s d" and "NUL \<notin> set (read_ptr s)"
  shows "reads ns0 s0 (Parsed (Pair x y) (read_ptr s)) (cons a d s)"
  using cons_outcome [OF grows_ok [OF base], of a d] cons_result(1) [OF assms] by (auto simp: reads_def)

lemma sym_frame_heap: "sym_frame s s' \<Longrightarrow> same_heap s s'"
  unfolding sym_frame_def by (elim exE, hypsubst) (simp add: same_heap_def)

lemma intern_cases:
  assumes ok: "state_ok ns s" and name: "NUL \<notin> set name" "length name \<le> 8192"
    and t: "NUL \<notin> set (read_ptr s)"
  shows "(\<exists>v ns' s'. intern name s = Done v s' \<and> got ns s (Sym name) (read_ptr s) v ns' s' \<and>
      same_heap s s' \<and> IS_SYMBOL v) \<or> (\<exists>s'. intern name s = Halted s')"
proof -
  have tab: "symtab s ns" and okh: "heap_ok s" using ok by (auto simp: state_ok_def)
  from intern_result [OF tab name] show ?thesis
  proof (elim disjE exE conjE)
    fix s' assume run: "intern name s = Done (MAKE_SYMBOL (of_nat (snd (interned ns name)))) s'"
      and tab': "symtab s' (fst (interned ns name))" and fr: "sym_frame s s'"
    obtain ns' i where e: "interned ns name = (ns', i)" by fastforce
    have o: "str_pool s' = str_pool s" "str_pool_next s' = str_pool_next s" "read_ptr s' = read_ptr s"
      using fr unfolding sym_frame_def by auto
    have "extends s s'"
      by (rule same_heap_extends [OF sym_frame_heap [OF fr] okh])
    then have "grows ns s ns' s'"
      using ok tab' e o interned_nth(3) [OF e] by (auto simp: grows_def state_ok_def pool_grows_def extends_def)
    moreover have "den ns' s' (MAKE_SYMBOL (of_nat i)) (Sym name)"
      using interned_nth(1,2) [OF e] by (auto simp: den_def)
    ultimately have "got ns s (Sym name) (read_ptr s) (MAKE_SYMBOL (of_nat i)) ns' s'"
      using o t by (simp add: got_def sound_def IS_PTR_def fresh_def reach_def)
    with run e sym_frame_heap [OF fr] show ?thesis
      by auto
  qed auto
qed

lemma intern_got:
  assumes "state_ok ns s" and "NUL \<notin> set name" and "length name \<le> 8192"
    and "NUL \<notin> set (read_ptr s)"
  shows "reads ns s (Parsed (Sym name) (read_ptr s)) (intern name s)"
  using intern_cases [OF assms] by (auto simp: reads_def)

lemma unat_eq_of_nat: "unat (w :: i24) = n \<Longrightarrow> w = of_nat n"
  by auto

lemma make_string_got:
  assumes ok: "state_ok ns s" and len: "length str < 2048" and t: "NUL \<notin> set (read_ptr s)"
  shows "reads ns s (Parsed (Str str) (read_ptr s)) (make_string str s)"
proof -
  define p where "p = unat (str_pool_next s)"
  have p: "str_pool_next s = of_nat p" "p \<le> STR_POOL_SIZE" and okh: "heap_ok s"
    using ok by (auto simp: p_def state_ok_def)
  show ?thesis
  proof (cases "p + length str + 1 \<le> STR_POOL_SIZE")
    case False
    have e: "(of_nat p + of_nat (length str) + 1 :: i24) = of_nat (p + length str + 1)"
      by simp
    have "sint (of_nat p + of_nat (length str) + 1 :: i24) > int STR_POOL_SIZE"
      unfolding e using False p(2) len by (subst sint_of_nat_small) (auto simp: STR_POOL_SIZE_def)
    with p show ?thesis
      by (simp add: make_string_def str_panic_def reads_def)
  next
    case True
    show ?thesis
    proof (cases "\<exists>v s'. make_string str s = Done v s'")
      case True
      then obtain v s' where run: "make_string str s = Done v s'" by blast
      from make_string_spec [OF run okh p(1) \<open>p + length str + 1 \<le> STR_POOL_SIZE\<close>]
      obtain i q s1 where i: "v = MAKE_EXTENDED (of_nat i)" "i < HEAP_SIZE" "i \<in> used s'"
        "heap_car s' i = ETYPE_STRING" "heap_cdr s' i = MAKE_FIXNUM (push_bit 11 (of_nat p) OR of_nat (length str))" "i \<notin> live s"
        and s1: "s1 = s\<lparr>str_pool := q, str_pool_next := of_nat (p + length str + 1)\<rparr>"
        and x: "extends s1 s'" "alloc_frame s1 s'"
        and q: "\<forall>k<length str. q (p + k) = str ! k" "\<forall>k<p. q k = str_pool s k"
        by blast
      have c: "cell_of v = i" using i(1,2) by (simp add: HEAP_SIZE_def)
      have n: "unat (str_pool_next s1) = p + length str + 1"
        using \<open>p + length str + 1 \<le> STR_POOL_SIZE\<close> unfolding s1 by (simp del: of_nat_add of_nat_Suc)
      have sh: "same_heap s s1" unfolding s1 by (rule pool_same_heap)
      have ok1: "state_ok ns s1"
        using ok n \<open>p + length str + 1 \<le> STR_POOL_SIZE\<close> same_heap_facts(4) [OF sh]
        by (simp add: state_ok_def s1 symtab_def)
      have g1: "grows ns s ns s1"
        using same_heap_extends [OF sh okh] ok1 n \<open>p + length str + 1 \<le> STR_POOL_SIZE\<close> p_def q(2)
        by (auto simp: grows_def pool_grows_def s1)
      note g2 = frame_grows [OF ok1 x]
      have "unat (str_pool_next s') = p + length str + 1" "str_pool s' = q" "read_ptr s' = read_ptr s"
        using x(2) n unfolding alloc_frame_def s1 by auto
      then have "den ns s' v (Str str)"
        using i c q(1) len \<open>p + length str + 1 \<le> STR_POOL_SIZE\<close>
        by (auto simp: den_def string_at_def intro!: exI [of _ p])
      moreover have "sound s' v" using i(3) c by (simp add: sound_def)
      moreover have "i \<notin> live s"
        using i(6) .
      then have "fresh s s' v"
        using reach_pair [OF c, of "heap_car s'" "heap_cdr s'"] i(1,4,5)
        by (auto simp: fresh_def IS_PTR_def ETYPE_STRING_def reach_def)
      ultimately have "got ns s (Str str) (read_ptr s) v ns s'"
        using grows_trans [OF g1 g2(1)] t \<open>read_ptr s' = read_ptr s\<close> by (simp add: got_def)
      with run show ?thesis by (auto simp: reads_def)
    next
      case False
      with make_string_outcome [OF okh p(1) \<open>p + length str + 1 \<le> STR_POOL_SIZE\<close>] show ?thesis
        by (auto simp: reads_def)
    qed
  qed
qed


lemma den_sym: "den ns s v (Sym name) \<Longrightarrow> grows ns s ns' s' \<Longrightarrow> den ns' s' v (Sym name)"
  by (auto simp: den_def grows_def pool_grows_def nth_append)

lemma den_nil: "state_ok ns s \<Longrightarrow> den ns s NIL_VAL nil"
  by (auto simp: den_def nil_def NIL_VAL_def state_ok_def intro!: exI [of _ 0])

lemma den_t: "state_ok ns s \<Longrightarrow> den ns s T_VAL (Sym ''t'')"
  by (auto simp: den_def T_VAL_def state_ok_def intro!: exI [of _ 1])

lemma sound_symbol [simp]: "IS_SYMBOL v \<Longrightarrow> sound s v" "sound s NIL_VAL" "sound s T_VAL" "sound s (MAKE_FIXNUM n)"
  using tag_exclusive(2) by (auto simp: sound_def IS_PTR_def)

lemma simple_reads:
  assumes "grows ns0 s0 ns s" and "\<not> IS_PTR v" and "den ns s v x" and "NUL \<notin> set t"
  shows "reads ns0 s0 (Parsed x t) (Done v (at t s))"
proof -
  have "grows ns0 s0 ns (at t s)"
    using assms(1) by (blast intro: grows_trans grows_at grows_ok)
  with assms have "got ns0 s0 x t v ns (at t s)"
    by (simp add: got_def sound_def)
  then show ?thesis
    by (auto simp: reads_def)
qed

lemma not_ptr [simp]: "\<not> IS_PTR NIL_VAL" "\<not> IS_PTR T_VAL" "\<not> IS_PTR (MAKE_FIXNUM n)"
  "IS_SYMBOL v \<Longrightarrow> \<not> IS_PTR v"
  using tag_exclusive(2) by (auto simp: IS_PTR_def)

lemma quote_form_got:
  assumes base: "grows ns0 s0 ns s" and v: "sound s v" "den ns s v x" "fresh s0 s v" and t: "NUL \<notin> set (read_ptr s)"
    and name: "NUL \<notin> set name" "length name \<le> 8192"
  shows "reads ns0 s0 (Parsed (quoted name x) (read_ptr s)) (quote_form name v s)"
  using intern_cases [OF grows_ok [OF base] name t]
proof (elim disjE exE conjE)
  fix q ns1 s1 assume run: "intern name s = Done q s1" and g: "got ns s (Sym name) (read_ptr s) q ns1 s1"
    and sh: "same_heap s s1" and sq: "IS_SYMBOL q"
  have g1: "grows ns s ns1 s1" and ok1: "state_ok ns1 s1" and t1: "NUL \<notin> set (read_ptr s1)"
    and p1: "read_ptr s1 = read_ptr s"
    using g by (auto simp: got_def grows_def)
  have base1: "grows ns0 s0 ns1 s1"
    by (rule grows_trans [OF base g1])
  have v1: "sound s1 v" "fresh s0 s1 v"
    using v same_heap_facts(2) [OF sh] sh by (simp_all add: fresh_def same_heap_def)
  have d1: "den ns1 s1 v x"
    using g1 sh v(2) by (auto simp: grows_def same_heap_def intro: den_mono)
  have dn: "sound s1 NIL_VAL" "den ns1 s1 NIL_VAL nil" "fresh s0 s1 NIL_VAL"
    using den_nil [OF ok1] by simp_all
  show ?thesis
    using cons_outcome [OF ok1, of v NIL_VAL]
  proof (elim disjE exE)
    fix w s2 assume c: "cons v NIL_VAL s1 = Done w s2"
    note g2 = cons_result [OF base1 v1(1) dn(1) d1 dn(2) v1(2) dn(3) t1 c]
    have dq: "den ns1 s2 q (Sym name)"
      using den_sym [OF _ g2(2)] g by (simp add: got_def)
    have "reads ns0 s0 (Parsed (Pair (Sym name) (Pair x nil)) (read_ptr s2)) (cons q w s2)"
      using g2 sq by (intro cons_got [OF _ _ _ dq]) (auto simp: got_def)
    with run c p1 g2 show ?thesis
      by (simp add: quote_form_def bnd_def quoted_def got_def)
  qed (use run in \<open>simp add: quote_form_def bnd_def reads_def\<close>)
qed (simp add: quote_form_def bnd_def reads_def)

section \<open>Holding values while reading\<close>

text \<open>The held values are what they were, and the result \<open>v\<close> shares no cell with them.\<close>

definition kept :: "i24 list \<Rightarrow> lisp \<Rightarrow> i24 \<Rightarrow> lisp \<Rightarrow> bool" where
  "kept vs s v s' \<longleftrightarrow> (\<forall>w\<in>set vs. sound s' w \<and> (\<forall>j\<in>reach (heap_car s) (heap_cdr s) {w}.
     heap_car s' j = heap_car s j \<and> heap_cdr s' j = heap_cdr s j \<and> j \<in> used s' \<and>
     j \<notin> reach (heap_car s') (heap_cdr s') {v}))"

lemma stack_facts [simp]:
  "symtab (s\<lparr>c_stack := x\<rparr>) ns = symtab s ns" "state_ok ns (s\<lparr>c_stack := x\<rparr>) = state_ok ns s"
  "string_at (s\<lparr>c_stack := x\<rparr>) v cs = string_at s v cs"
  by (simp_all add: symtab_def state_ok_def string_at_def)

lemma denotes_stack [simp]:
  "denotes ns (s\<lparr>c_stack := x\<rparr>) v d = denotes ns s v d"
  by (induction d arbitrary: v) simp_all

lemma den_stack [simp]: "den ns (s\<lparr>c_stack := x\<rparr>) v d = den ns s v d"
  by (simp add: den_def)

lemma grows_pop:
  "grows ns (s\<lparr>c_stack := vs @ c_stack s\<rparr>) ns' s1 \<Longrightarrow> grows ns s ns' (s1\<lparr>c_stack := c_stack s\<rparr>)"
  using extends_pop by (auto simp: grows_def pool_grows_def)

lemma held_kept:
  assumes "extends (s\<lparr>c_stack := vs @ c_stack s\<rparr>) s1" and "heap_ok s" and "\<forall>w\<in>set vs. sound s w"
    and "fresh (s\<lparr>c_stack := vs @ c_stack s\<rparr>) s1 v"
  shows "kept vs s v (s1\<lparr>c_stack := c_stack s\<rparr>)"
  unfolding kept_def
proof (intro ballI conjI)
  fix w j assume w: "w \<in> set vs"
  with held_keeps(1) [OF assms(1,2) w] assms(3) show "sound (s1\<lparr>c_stack := c_stack s\<rparr>) w"
    by simp
  assume j: "j \<in> reach (heap_car s) (heap_cdr s) {w}"
  from held_keeps(2) [OF assms(1,2) w _ j] assms(3) w
  have "heap_car s1 j = heap_car s j \<and> heap_cdr s1 j = heap_cdr s j \<and>
      j \<in> live (s\<lparr>c_stack := vs @ c_stack s\<rparr>)" by auto
  then show "heap_car (s1\<lparr>c_stack := c_stack s\<rparr>) j = heap_car s j"
    "heap_cdr (s1\<lparr>c_stack := c_stack s\<rparr>) j = heap_cdr s j" "j \<in> used (s1\<lparr>c_stack := c_stack s\<rparr>)"
    "j \<notin> reach (heap_car (s1\<lparr>c_stack := c_stack s\<rparr>)) (heap_cdr (s1\<lparr>c_stack := c_stack s\<rparr>)) {v}"
    using assms(1,4) by (auto simp: extends_def fresh_def)
qed

lemma reads_hold:
  assumes ok: "state_ok ns s" and snd: "\<forall>w\<in>set vs. sound s w"
    and m: "reads ns (s\<lparr>c_stack := vs @ c_stack s\<rparr>) p (m (s\<lparr>c_stack := vs @ c_stack s\<rparr>))"
    and k: "\<And>x r v ns' s'. p = Parsed x r \<Longrightarrow> got ns s x r v ns' s' \<Longrightarrow> kept vs s v s' \<Longrightarrow>
      reads ns0 s0 (k x r) (f v s')"
  shows "reads ns0 s0 (and_then p k) (bnd (hold vs m) f s)"
proof (cases "\<exists>s'. m (s\<lparr>c_stack := vs @ c_stack s\<rparr>) = Halted s'")
  case True
  then show ?thesis by (auto simp: reads_def bnd_def hold_def)
next
  case False
  show ?thesis
  proof (cases p)
    case (Parsed x r)
    with m False obtain v ns' s1 where run: "m (s\<lparr>c_stack := vs @ c_stack s\<rparr>) = Done v s1"
      and g: "got ns (s\<lparr>c_stack := vs @ c_stack s\<rparr>) x r v ns' s1"
      by (auto simp: reads_def)
    have "got ns s x r v ns' (s1\<lparr>c_stack := c_stack s\<rparr>)"
      using g grows_pop [of ns vs s ns' s1] live_push [of s vs] by (auto simp: got_def fresh_def)
    moreover have "kept vs s v (s1\<lparr>c_stack := c_stack s\<rparr>)"
      using g ok snd by (intro held_kept) (auto simp: got_def grows_def state_ok_def)
    ultimately show ?thesis
      using k [OF Parsed] run Parsed by (simp add: bnd_def hold_def)
  qed (use m False in \<open>auto simp: reads_def bnd_def hold_def\<close>)
qed

section \<open>Lists built from the front\<close>

text \<open>
  \<open>read_items\<close> extends a list at its last cell.  \<open>building\<close> describes the list under
  construction: whatever datum the cdr of the last cell comes to denote, the head denotes the
  items read so far followed by it.
\<close>

fun dlist :: "datum list \<Rightarrow> datum \<Rightarrow> datum" where
  "dlist [] y = y"
| "dlist (x # xs) y = Pair x (dlist xs y)"

lemma dlist_snoc [simp]: "dlist (xs @ [x]) y = dlist xs (Pair x y)"
  by (induction xs) simp_all

abbreviation cells_of :: "lisp \<Rightarrow> i24 \<Rightarrow> nat set" where
  "cells_of s v \<equiv> reach (heap_car s) (heap_cdr s) {v}"

definition hole :: "string list \<Rightarrow> lisp \<Rightarrow> i24 \<Rightarrow> nat \<Rightarrow> datum list \<Rightarrow> bool" where
  "hole ns s head T xs \<longleftrightarrow> (\<forall>s' ms y. pool_grows s s' \<longrightarrow> heap_car s' T = heap_car s T \<longrightarrow>
     (\<forall>j\<in>cells_of s head. j \<noteq> T \<longrightarrow> heap_car s' j = heap_car s j \<and> heap_cdr s' j = heap_cdr s j) \<longrightarrow>
     den (ns @ ms) s' (heap_cdr s' T) y \<longrightarrow> den (ns @ ms) s' head (dlist xs y))"

definition building :: "string list \<Rightarrow> lisp \<Rightarrow> string list \<Rightarrow> lisp \<Rightarrow> i24 \<Rightarrow> i24 \<Rightarrow> datum list \<Rightarrow> bool" where
  "building ns0 s0 ns s head tail xs \<longleftrightarrow> grows ns0 s0 ns s \<and> IS_CONS tail \<and> cell_of tail \<in> used s \<and>
     cell_of tail \<notin> live s0 \<and> cell_of tail \<in> cells_of s head \<and> heap_cdr s (cell_of tail) = NIL_VAL \<and>
     sound s head \<and> fresh s0 s head \<and> hole ns s head (cell_of tail) xs"

lemma pool_grows_ok: "state_ok ns s \<Longrightarrow> pool_grows s s"
  by (simp add: pool_grows_def state_ok_def)

lemma building_start:
  assumes base: "grows ns0 s0 ns s" and a: "sound s a" "den ns s a x" "fresh s0 s a"
    and t: "NUL \<notin> set (read_ptr s)" and run: "cons a NIL_VAL s = Done v s'"
  shows "building ns0 s0 ns s' v v [x]" and "read_ptr s' = read_ptr s"
proof -
  have ok: "state_ok ns s" using base by (rule grows_ok)
  have dn: "sound s NIL_VAL" "den ns s NIL_VAL nil" "fresh s0 s NIL_VAL"
    using den_nil [OF ok] by simp_all
  note g = cons_result [OF base a(1) dn(1) a(2) dn(2) a(3) dn(3) t run]
  from cons_reads [OF ok a(1) dn(1) run] obtain i where i: "v = MAKE_CONS (of_nat i)" "cell_of v = i"
    "i < HEAP_SIZE" "i \<in> used s'" "i \<notin> live s" "read_ptr s' = read_ptr s"
    "heap_car s' i = a" "heap_cdr s' i = NIL_VAL"
    and k: "\<And>j. j \<in> cells_of s a \<Longrightarrow> heap_car s' j = heap_car s j \<and> heap_cdr s' j = heap_cdr s j \<and> j \<noteq> i"
    by blast
  have vi: "i \<in> cells_of s' v"
    using reach_root [of v "{v}"] i(1,2) by (simp add: IS_PTR_def)
  have sub: "cells_of s a \<subseteq> cells_of s' v"
  proof -
    have "cells_of s' a = cells_of s a"
      by (rule reach_same) (use k in auto)
    moreover have "cells_of s' a \<subseteq> cells_of s' v"
      by (rule reach_from_reach) (use reach_car [OF vi] i(7) in auto)
    ultimately show ?thesis by simp
  qed
  have "hole ns s' v i [x]"
    unfolding hole_def
  proof (intro allI impI)
    fix s'' ms y
    assume pg: "pool_grows s' s''" and ci: "heap_car s'' i = heap_car s' i"
      and same: "\<forall>j\<in>cells_of s' v. j \<noteq> i \<longrightarrow> heap_car s'' j = heap_car s' j \<and> heap_cdr s'' j = heap_cdr s' j"
      and d: "den (ns @ ms) s'' (heap_cdr s'' i) y"
    have "pool_grows s s''"
      using g(2) pg by (auto simp: grows_def intro: pool_grows_trans)
    then have "den (ns @ ms) s'' a x"
      by (rule den_mono [OF a(2)]) (use k same sub in auto)
    with d ci i show "den (ns @ ms) s'' v (dlist [x] y)"
      by (simp add: den_def)
  qed
  moreover have "i \<notin> live s0"
    using i(5) base by (auto simp: grows_def dest: extends_live)
  ultimately show "building ns0 s0 ns s' v v [x]"
    using g(1) i vi by (simp add: building_def got_def)
  show "read_ptr s' = read_ptr s" by (rule i(6))
qed

lemma kept_cells:
  assumes "kept vs s v s'" and "w \<in> set vs"
  shows "cells_of s' w = cells_of s w" and "sound s' w"
    and "j \<in> cells_of s w \<Longrightarrow> heap_car s' j = heap_car s j \<and> heap_cdr s' j = heap_cdr s j \<and> j \<in> used s' \<and>
      j \<notin> cells_of s' v"
proof -
  show k: "j \<in> cells_of s w \<Longrightarrow> heap_car s' j = heap_car s j \<and> heap_cdr s' j = heap_cdr s j \<and> j \<in> used s' \<and>
      j \<notin> cells_of s' v" for j
    using assms by (auto simp: kept_def)
  show "cells_of s' w = cells_of s w"
    by (rule reach_same) (use k in auto)
  show "sound s' w"
    using assms by (auto simp: kept_def)
qed

text \<open>A list under construction that is held survives.\<close>

lemma building_mono:
  assumes b: "building ns0 s0 ns s head tail xs" and g: "grows ns s ns1 s1"
    and k: "kept vs s v s1" and h: "head \<in> set vs" and t: "tail \<in> set vs"
  shows "building ns0 s0 ns1 s1 head tail xs" and "cell_of tail \<notin> cells_of s1 v"
proof -
  let ?T = "cell_of tail"
  note kh = kept_cells [OF k h] and kt = kept_cells [OF k t]
  have T: "?T \<in> cells_of s head" "IS_CONS tail" "?T \<in> used s" "heap_cdr s ?T = NIL_VAL" "?T \<notin> live s0"
    and hl: "hole ns s head ?T xs" and fr: "fresh s0 s head"
    using b by (auto simp: building_def)
  obtain ms where ms: "ns1 = ns @ ms" and pg: "pool_grows s s1"
    using g by (auto simp: grows_def)
  have "hole ns1 s1 head ?T xs"
    unfolding hole_def kh(1)
  proof (intro allI impI)
    fix s' ms' y
    assume pg': "pool_grows s1 s'" and cT: "heap_car s' ?T = heap_car s1 ?T"
      and same: "\<forall>j\<in>cells_of s head. j \<noteq> ?T \<longrightarrow> heap_car s' j = heap_car s1 j \<and> heap_cdr s' j = heap_cdr s1 j"
      and d: "den (ns1 @ ms') s' (heap_cdr s' ?T) y"
    have "heap_car s' ?T = heap_car s ?T"
      using cT kh(3) [OF T(1)] by simp
    moreover have "\<forall>j\<in>cells_of s head. j \<noteq> ?T \<longrightarrow> heap_car s' j = heap_car s j \<and> heap_cdr s' j = heap_cdr s j"
      using same kh(3) by auto
    ultimately have "den (ns @ (ms @ ms')) s' head (dlist xs y)"
      using hl d ms pool_grows_trans [OF pg pg'] unfolding hole_def by (metis append.assoc)
    with ms show "den (ns1 @ ms') s' head (dlist xs y)" by simp
  qed
  moreover have "fresh s0 s1 head"
    using fr kh(1) by (simp add: fresh_def)
  ultimately show "building ns0 s0 ns1 s1 head tail xs"
    using T kh(1,2) kh(3) [OF T(1)] b grows_trans [OF _ g] by (auto simp: building_def)
  show "?T \<notin> cells_of s1 v"
    using kh(3) [OF T(1)] by simp
qed

lemma building_done:
  assumes "building ns0 s0 ns s head tail xs" and "NUL \<notin> set (read_ptr s)"
  shows "got ns0 s0 (dlist xs nil) (read_ptr s) head ns s"
proof -
  have ok: "state_ok ns s" using assms by (auto simp: building_def grows_def)
  have "den (ns @ []) s (heap_cdr s (cell_of tail)) nil"
    using assms den_nil [OF ok] by (simp add: building_def)
  moreover have "hole ns s head (cell_of tail) xs"
    using assms by (simp add: building_def)
  ultimately have "den (ns @ []) s head (dlist xs nil)"
    using pool_grows_ok [OF ok] unfolding hole_def by blast
  with assms show ?thesis
    by (simp add: building_def got_def)
qed

text \<open>Writing the cdr of the last cell.\<close>

definition linked :: "nat \<Rightarrow> i24 \<Rightarrow> lisp \<Rightarrow> lisp" where
  "linked T w s = s\<lparr>heap_cdr := (heap_cdr s)(T := w)\<rparr>"

lemma linked_simps [simp]:
  "heap_car (linked T w s) = heap_car s" "heap_cdr (linked T w s) = (heap_cdr s)(T := w)"
  "read_ptr (linked T w s) = read_ptr s" "symtab (linked T w s) ns = symtab s ns"
  "own_roots (linked T w s) = own_roots s" "c_stack (linked T w s) = c_stack s"
  "heap_next (linked T w s) = heap_next s" "str_pool_next (linked T w s) = str_pool_next s"
  "str_pool (linked T w s) = str_pool s" "counts_ok (linked T w s) = counts_ok s"
  "free_list (linked T w s) = free_list s"
  by (simp_all add: linked_def symtab_def own_roots_def counts_ok_def)

lemma linked_ok:
  assumes ok: "heap_ok s" and T: "T \<in> used s" and w: "sound s w"
  shows "used (linked T w s) = used s" and "sound (linked T w s) v = sound s v"
    and "heap_ok (linked T w s)"
proof -
  from ok obtain fl where fl: "free_ok s fl" by (auto simp: heap_ok_def)
  have "chain ((heap_cdr s)(T := w)) (free_list s) fl"
    using fl T used_free [OF fl] by (subst chain_cong [of fl _ "heap_cdr s"]) (auto simp: free_ok_def)
  then have fl': "free_ok (linked T w s) fl"
    using fl by (simp add: free_ok_def)
  show u: "used (linked T w s) = used s"
    using used_free [OF fl] used_free [OF fl'] by simp
  then show snd: "sound (linked T w s) v = sound s v" for v
    by (simp add: sound_def)
  show "heap_ok (linked T w s)"
    using ok fl' u snd w by (auto simp: heap_ok_def)
qed

lemma linked_cells:
  assumes nil: "heap_cdr s T = NIL_VAL" and w: "T \<notin> cells_of s w"
  shows "cells_of (linked T w s) w = cells_of s w"
    and "cells_of s v \<subseteq> cells_of (linked T w s) v"
    and "cells_of (linked T w s) v \<subseteq> cells_of s v \<union> cells_of s w"
    and "T \<in> cells_of s v \<Longrightarrow> cells_of s w \<subseteq> cells_of (linked T w s) v"
proof -
  show e: "cells_of (linked T w s) w = cells_of s w"
    by (rule reach_same) (use w in auto)
  show sub: "cells_of s v \<subseteq> cells_of (linked T w s) v"
  proof (rule reach_closed)
    fix i j assume i: "i \<in> cells_of (linked T w s) v" and ed: "(i, j) \<in> edges (heap_car s) (heap_cdr s)"
    from ed have "(i, j) \<in> edges (heap_car (linked T w s)) (heap_cdr (linked T w s))"
      using nil by (cases rule: edges_E) (auto simp: edges_def)
    with i show "j \<in> cells_of (linked T w s) v" by (rule reach_edge)
  qed (auto intro: reach_root)
  show "cells_of (linked T w s) v \<subseteq> cells_of s v \<union> cells_of s w"
  proof (rule reach_closed)
    fix i j assume i: "i \<in> cells_of s v \<union> cells_of s w"
      and ed: "(i, j) \<in> edges (heap_car (linked T w s)) (heap_cdr (linked T w s))"
    from ed show "j \<in> cells_of s v \<union> cells_of s w"
    proof (cases rule: edges_E)
      case 1
      with i show ?thesis by (auto intro: reach_car)
    next
      case 2
      with i show ?thesis
        by (cases "i = T") (auto intro: reach_cdr reach_root)
    qed
  qed (auto intro: reach_root)
  show "cells_of s w \<subseteq> cells_of (linked T w s) v" if "T \<in> cells_of s v"
  proof -
    have "T \<in> cells_of (linked T w s) v" using that sub by auto
    then have "cells_of (linked T w s) w \<subseteq> cells_of (linked T w s) v"
      by (intro reach_from_reach) (auto dest: reach_cdr)
    with e show ?thesis by simp
  qed
qed

lemma building_fill:
  assumes b: "building ns0 s0 ns s head tail xs" and w: "sound s w" "den ns s w y" "fresh s0 s w"
    and nw: "cell_of tail \<notin> cells_of s w" and t: "NUL \<notin> set (read_ptr s)"
  shows "got ns0 s0 (dlist xs y) (read_ptr s) head ns (linked (cell_of tail) w s)"
proof -
  let ?T = "cell_of tail" and ?l = "linked (cell_of tail) w s"
  have T: "?T \<in> cells_of s head" "?T \<in> used s" "heap_cdr s ?T = NIL_VAL" "?T \<notin> live s0"
    and hl: "hole ns s head ?T xs" and fr: "fresh s0 s head" "sound s head" and g: "grows ns0 s0 ns s"
    using b by (auto simp: building_def)
  have ok: "heap_ok s" "state_ok ns s" using g by (auto simp: grows_def state_ok_def)
  note l = linked_ok [OF ok(1) T(2) w(1)] and c = linked_cells [OF T(3) nw]
  have "state_ok ns ?l"
    using ok l by (simp add: state_ok_def)
  then have "grows ns0 s0 ns ?l"
    using g l T(4) by (auto simp: grows_def extends_def pool_grows_def)
  moreover have "fresh s0 ?l head"
    using c(3) [of head] fr(1) w(3) by (auto simp: fresh_def)
  moreover have "pool_grows s ?l"
    using pool_grows_ok [OF ok(2)] by (simp add: pool_grows_def)
  moreover from this have "den (ns @ []) ?l w y"
    by (rule den_mono [OF w(2)]) (use nw in auto)
  then have "den (ns @ []) ?l head (dlist xs y)"
    using hl \<open>pool_grows s ?l\<close> unfolding hole_def by (auto simp del: append_Nil2)
  ultimately show ?thesis
    using l fr(2) t by (simp add: got_def)
qed

text \<open>One more item: a new last cell.\<close>

lemma building_next:
  assumes b: "building ns0 s0 ns s head tail xs" and e: "sound s e" "den ns s e x" "fresh s0 s e"
    and ne: "cell_of tail \<notin> cells_of s e" and t: "NUL \<notin> set (read_ptr s)"
    and run: "hold [head, tail] (cons e NIL_VAL) s = Done c s2"
  shows "building ns0 s0 ns (linked (cell_of tail) c s2) head c (xs @ [x])"
    and "read_ptr s2 = read_ptr s" and "cell_of tail < HEAP_SIZE"
proof -
  let ?T = "cell_of tail" and ?p = "s\<lparr>c_stack := [head, tail] @ c_stack s\<rparr>"
  have T: "?T \<in> cells_of s head" "?T \<in> used s" "heap_cdr s ?T = NIL_VAL" "?T \<notin> live s0" "IS_CONS tail"
    and fr: "fresh s0 s head" "sound s head" and g: "grows ns0 s0 ns s"
    using b by (auto simp: building_def)
  have ok: "heap_ok s" "state_ok ns s" "state_ok ns ?p" using g by (auto simp: grows_def state_ok_def)
  have st: "sound s tail" using T(2) by (simp add: sound_def)
  show "?T < HEAP_SIZE" by (rule used_size [OF ok(1) T(2)])
  from run obtain sp where run': "cons e NIL_VAL ?p = Done c sp" and s2: "s2 = sp\<lparr>c_stack := c_stack s\<rparr>"
    by (rule hold_Done)
  have se: "sound ?p e" "sound ?p NIL_VAL" using e(1) by simp_all
  from cons_reads [OF ok(3) se run'] obtain i where i: "c = MAKE_CONS (of_nat i)" "cell_of c = i"
    "i < HEAP_SIZE" "i \<in> used sp" "i \<notin> live ?p" "grows ns ?p ns sp" "read_ptr sp = read_ptr ?p"
    "heap_car sp i = e" "heap_cdr sp i = NIL_VAL"
    and ke': "\<forall>w j. w \<in> {e, NIL_VAL} \<longrightarrow> j \<in> cells_of ?p w \<longrightarrow> heap_car sp j = heap_car ?p j \<and>
      heap_cdr sp j = heap_cdr ?p j \<and> j \<in> used sp \<and> j \<noteq> i"
    by blast
  have ke: "heap_car sp j = heap_car s j \<and> heap_cdr sp j = heap_cdr s j \<and> j \<noteq> i" if "j \<in> cells_of s e" for j
    using ke' [rule_format, of e j] that by simp
  show "read_ptr s2 = read_ptr s" using i(7) s2 by simp
  have ex: "extends ?p sp" using i(6) by (simp add: grows_def)
  have k: "kept [head, tail] s NIL_VAL s2"
    unfolding s2 by (rule held_kept [OF ex ok(1)]) (use fr st in auto)
  have ih: "i \<notin> cells_of s head"
    using held_keeps(2) [OF ex ok(1), of head i] fr(2) i(5) by auto
  have g2: "grows ns s ns s2"
    unfolding s2 by (rule grows_pop [OF i(6)])
  have b2: "building ns0 s0 ns s2 head tail xs"
    by (rule building_mono(1) [OF b g2 k]) simp_all
  then have T2: "?T \<in> cells_of s2 head" "?T \<in> used s2" "heap_cdr s2 ?T = NIL_VAL"
    and hl: "hole ns s2 head ?T xs" and base2: "grows ns0 s0 ns s2"
    by (auto simp: building_def)
  have hd2: "cells_of s2 head = cells_of s head"
    by (rule kept_cells(1) [OF k]) simp
  have e2: "cells_of s2 e = cells_of s e"
    by (rule reach_same) (use ke s2 in auto)
  have iT: "i \<noteq> ?T" using ih T(1) by auto
  have ptr_c: "IS_PTR c" using i(1) by (simp add: IS_PTR_def)
  have c2: "cells_of s2 c \<subseteq> insert i (cells_of s e)"
    using reach_pair [OF i(2) ptr_c, of "heap_car s2" "heap_cdr s2"] i(8,9) e2 s2
    by (auto simp: reach_def)
  have i_live: "i \<notin> live s0"
    using i(5) live_push [of s "[head, tail]"] g by (auto simp: grows_def dest: extends_live)
  have c: "sound s2 c" "fresh s0 s2 c" "?T \<notin> cells_of s2 c"
    using i(2,4) s2 c2 e(3) i_live ne iT by (auto simp: sound_def fresh_def)
  have den_c: "den ns s2 c (Pair x nil)"
  proof -
    have "den ns s2 e x"
      using den_mono [OF e(2), of s2 ns "[]"] g2 ke s2 by (auto simp: grows_def)
    with den_nil [OF grows_ok [OF g2]] i s2 show ?thesis by (simp add: den_def)
  qed
  let ?l = "linked ?T c s2"
  have t2: "NUL \<notin> set (read_ptr s2)" using t i(7) s2 by simp
  have gl: "got ns0 s0 (dlist xs (Pair x nil)) (read_ptr s2) head ns ?l"
    by (rule building_fill [OF b2 c(1) den_c c(2,3) t2])
  have ok2: "heap_ok s2" using grows_ok [OF g2] by (simp add: state_ok_def)
  note l = linked_ok [OF ok2 T2(2) c(1)] and cl = linked_cells [OF T2(3) c(3)]
  have cl_c: "cells_of s2 c \<subseteq> cells_of ?l head" by (rule cl(4) [OF T2(1)])
  have ic: "i \<in> cells_of s2 c"
    using reach_root [of c "{c}"] ptr_c i(2) by simp
  have ec: "cells_of s e \<subseteq> cells_of s2 c"
    using reach_from_reach [of "{e}" "heap_car s2" "heap_cdr s2" "{c}"] reach_car [OF ic] i(8) s2 e2 by auto
  have "hole ns ?l head i (xs @ [x])"
    unfolding hole_def
  proof (intro allI impI)
    fix s' ms y
    assume pg: "pool_grows ?l s'" and ci: "heap_car s' i = heap_car ?l i"
      and same: "\<forall>j\<in>cells_of ?l head. j \<noteq> i \<longrightarrow> heap_car s' j = heap_car ?l j \<and> heap_cdr s' j = heap_cdr ?l j"
      and d: "den (ns @ ms) s' (heap_cdr s' i) y"
    have pg2: "pool_grows s2 s'" using pg by (simp add: pool_grows_def)
    have pgs: "pool_grows s s'" using g2 pg2 by (auto simp: grows_def intro: pool_grows_trans)
    have "den (ns @ ms) s' e x"
      by (rule den_mono [OF e(2) pgs]) (use same ke ne ec cl_c s2 in auto)
    with d ci i s2 have dc: "den (ns @ ms) s' c (Pair x y)"
      by (simp add: den_def)
    have "?T \<in> cells_of ?l head" using cl(2) T2(1) by auto
    then have "heap_car s' ?T = heap_car s2 ?T" "heap_cdr s' ?T = c"
      using same iT by auto
    moreover have "\<forall>j\<in>cells_of s2 head. j \<noteq> ?T \<longrightarrow> heap_car s' j = heap_car s2 j \<and> heap_cdr s' j = heap_cdr s2 j"
      using same cl(2) [of head] hd2 ih by (auto simp: subset_iff)
    ultimately show "den (ns @ ms) s' head (dlist (xs @ [x]) y)"
      using hl pg2 dc unfolding hole_def by (metis dlist_snoc)
  qed
  then show "building ns0 s0 ns ?l head c (xs @ [x])"
    using gl l i(1,2,4,9) s2 i_live iT cl_c ic by (auto simp: building_def got_def)
qed

end
