(* ===== verification/Tml_Read_Correct.thy ===== *)
theory Tml_Read_Correct
  imports Tml_Build
begin

text \<open>
  The reader against a parser on data.  \<open>parse\<close> has neither heap nor symbol table nor collector;
  the reader builds in the heap exactly the datum the parser returns, whatever collections
  happen on the way, or it panics for lack of memory.
\<close>

section \<open>The reference parser\<close>

definition parse_int :: "string \<Rightarrow> parsed" where
  "parse_int t = (let (n, r) = int_loop 0 (after (CHR ''-'') t) in
     Parsed (Num (if here t = CHR ''-'' then 0 - n else n)) r)"

fun parse :: "nat \<Rightarrow> string \<Rightarrow> parsed"
  and parse_list :: "nat \<Rightarrow> string \<Rightarrow> parsed"
  and parse_items :: "nat \<Rightarrow> string \<Rightarrow> parsed" where
  "parse 0 t = Short"
| "parse (Suc n) u = (let t = skip_ws u; ch = here t; ch2 = here (tl t) in
     if ch = CHR 0x22
     then (case string_loop 119 (tl t) of None \<Rightarrow> Overrun | Some (str, r) \<Rightarrow> Parsed (Str str) (after (CHR 0x22) r))
     else if ch = CHR ''('' then parse_list n t
     else if ch = CHR 0x27 then and_then (parse n (tl t)) (\<lambda>x. Parsed (quoted ''quote'' x))
     else if ch = CHR 0x60 then and_then (parse n (tl t)) (\<lambda>x. Parsed (quoted ''quasiquote'' x))
     else if ch = CHR '',''
     then (if ch2 = CHR ''@'' then and_then (parse n (tl (tl t))) (\<lambda>x. Parsed (quoted ''unquote-splicing'' x))
       else and_then (parse n (tl t)) (\<lambda>x. Parsed (quoted ''unquote'' x)))
     else if ch = CHR 0x23 \<and> ch2 = CHR ''x''
     then (let (n, r) = hex_loop 0 (tl (tl t)) in Parsed (Num n) r)
     else if ch = CHR 0x23 \<and> ch2 = CHR ''t'' then Parsed (Sym ''t'') (tl (tl t))
     else if ch = CHR 0x23 \<and> ch2 = CHR ''f'' then Parsed nil (tl (tl t))
     else if ch = CHR 0x23 \<and> ch2 = CHR ''_'' then and_then (parse n (tl (tl t))) (\<lambda>_ r. parse n r)
     else if ch = CHR ''-'' \<and> is_digit ch2 then parse_int t
     else if is_digit ch then parse_int t
     else if ch \<noteq> NUL \<and> ch \<noteq> CHR '')'' then (let (name, r) = symbol_loop 63 t in Parsed (Sym name) r)
     else Parsed nil t)"
| "parse_list 0 t = Short"
| "parse_list (Suc n) u = (let t = skip_ws (tl u) in
     if here t = CHR '')'' then Parsed nil (tl t)
     else and_then (parse n t) (\<lambda>x r. let r = skip_ws r in
       if here r = CHR ''.''
       then and_then (parse n (skip_ws (tl r))) (\<lambda>d q. Parsed (Pair x d) (after (CHR '')'') (skip_ws q)))
       else and_then (parse_items n r) (\<lambda>y. Parsed (Pair x y))))"
| "parse_items 0 t = Short"
| "parse_items (Suc n) t =
     (if here t \<noteq> NUL \<and> here t \<noteq> CHR '')''
      then and_then (parse n t) (\<lambda>x r. let r = skip_ws r in
        if here r = CHR ''.''
        then and_then (parse n (skip_ws (tl r))) (\<lambda>d q. Parsed (Pair x d) (after (CHR '')'') (skip_ws q)))
        else and_then (parse_items n r) (\<lambda>y. Parsed (Pair x y)))
      else Parsed nil (after (CHR '')'') t))"


section \<open>The reader builds what the parser returns\<close>

lemma and_then_assoc: "and_then (and_then p k) l = and_then p (\<lambda>x r. and_then (k x r) l)"
  by (cases p) simp_all

lemma close_list_simp [simp]:
  "bnd close_list f s = f () (at (after (CHR '')'') (read_ptr s)) s)"
proof (cases "here (read_ptr s) = CHR '')''")
  case True
  then have "Suc 0 \<le> length (read_ptr s)"
    by (cases "read_ptr s") (auto simp: here_def NUL_def)
  with True show ?thesis
    by (simp add: close_list_def bnd_assoc after_def drop_Suc)
qed (simp add: close_list_def bnd_assoc after_def)

lemma got_at: "got ns0 s0 x r v ns s \<Longrightarrow> NUL \<notin> set t \<Longrightarrow> got ns0 s0 x t v ns (at t s)"
  using grows_trans [of ns0 s0 ns s ns "at t s"] grows_at [of ns s t] grows_ok [of ns0 s0 ns s]
  by (auto simp: got_def fresh_def)

lemma got_reads: "got ns s x r v ns' s' \<Longrightarrow> reads ns s (Parsed x r) (Done v s')"
  by (auto simp: reads_def)

lemma building_at:
  assumes "building ns0 s0 ns s head tail xs"
  shows "building ns0 s0 ns (at t s) head tail xs"
proof -
  have "grows ns0 s0 ns s" using assms by (simp add: building_def)
  then have "grows ns0 s0 ns (at t s)"
    by (blast intro: grows_trans grows_at grows_ok)
  with assms show ?thesis
    by (simp add: building_def fresh_def hole_def pool_grows_def)
qed

lemma NUL_hex_loop: "NUL \<notin> set t \<Longrightarrow> NUL \<notin> set (snd (hex_loop n t))"
  by (induction n t rule: hex_loop.induct) auto

lemma NUL_int_loop: "NUL \<notin> set t \<Longrightarrow> NUL \<notin> set (snd (int_loop n t))"
  by (induction n t rule: int_loop.induct) auto

lemma symbol_loop_facts:
  "length (fst (symbol_loop k t)) \<le> k" "NUL \<notin> set (fst (symbol_loop k t))"
  "NUL \<notin> set t \<Longrightarrow> NUL \<notin> set (snd (symbol_loop k t))"
  by (induction k t rule: symbol_loop.induct) (auto simp: is_sym_char_def split: prod.splits)

lemma string_loop_facts:
  "string_loop k t = Some (str, r) \<Longrightarrow> length str \<le> k \<and> (NUL \<notin> set t \<longrightarrow> NUL \<notin> set r)"
proof (induction k arbitrary: t str r)
  case (Suc k)
  show ?case
  proof (cases t)
    case (Cons c cs)
    consider "c = CHR 0x22" | "c = CHR 0x5C" | "c \<noteq> CHR 0x22" "c \<noteq> CHR 0x5C" by blast
    then show ?thesis
    proof cases
      case 2
      with Suc.prems Cons obtain d ds where "cs = d # ds" by (cases cs) auto
      with 2 Suc.prems Cons show ?thesis by (auto dest!: Suc.IH)
    qed (use Suc.prems Cons in \<open>auto dest!: Suc.IH\<close>)
  qed (use Suc.prems in simp)
qed simp

lemma quote_reads:
  assumes r: "reads ns s (parse n t) (read_expr n (at t s))" and name: "NUL \<notin> set name" "length name \<le> 8192"
  shows "reads ns s (and_then (parse n t) (\<lambda>x. Parsed (quoted name x)))
    (bnd (read_expr n) (quote_form name) (at t s))"
proof (rule reads_bnd [where m = "read_expr n" and t = "at t s", OF r])
  fix x r v ns' s' assume g: "got ns s x r v ns' s'"
  then have "reads ns s (Parsed (quoted name x) (read_ptr s')) (quote_form name v s')"
    by (intro quote_form_got [OF _ _ _ _ _ name]) (auto simp: got_def)
  with g show "reads ns s (Parsed (quoted name x) r) (quote_form name v s')"
    by (simp add: got_def)
qed

lemma int_reads:
  assumes ok: "state_ok ns s" and nul: "NUL \<notin> set (read_ptr s)"
  shows "reads ns s (parse_int (read_ptr s)) (read_int s)"
proof -
  let ?t = "after (CHR ''-'') (read_ptr s)"
  obtain n r where l: "int_loop 0 ?t = (n, r)" by fastforce
  have r: "NUL \<notin> set r"
    using NUL_int_loop [OF NUL_after [OF nul], of 0 "CHR ''-''"] l by simp
  let ?v = "if here (read_ptr s) = CHR ''-'' then 0 - n else n"
  have "read_int s = Done (MAKE_FIXNUM ?v) (at r s)"
  proof (cases "here (read_ptr s) = CHR ''-''")
    case True
    then have "Suc 0 \<le> length (read_ptr s)"
      by (cases "read_ptr s") (auto simp: here_def NUL_def)
    with True l show ?thesis
      by (simp add: read_int_def after_def drop_Suc at_def)
  qed (use l in \<open>simp add: read_int_def after_def at_def\<close>)
  moreover have "reads ns s (Parsed (Num ?v) r) (Done (MAKE_FIXNUM ?v) (at r s))"
    by (rule simple_reads [OF grows_refl [OF ok]]) (use r in \<open>simp_all add: den_def\<close>)
  ultimately show ?thesis
    using l by (simp add: parse_int_def)
qed

lemma string_reads:
  assumes ok: "state_ok ns s" and nul: "NUL \<notin> set (read_ptr s)" and h: "here (read_ptr s) = CHR 0x22"
  shows "reads ns s (case string_loop 119 (tl (read_ptr s)) of None \<Rightarrow> Overrun
     | Some (str, r) \<Rightarrow> Parsed (Str str) (after (CHR 0x22) r)) (read_string s)"
proof -
  have len: "Suc 0 \<le> length (read_ptr s)"
    using h by (cases "read_ptr s") (auto simp: here_def NUL_def)
  show ?thesis
  proof (cases "string_loop 119 (tl (read_ptr s))")
    case None
    with len show ?thesis
      by (simp add: read_string_def drop_Suc reads_def)
  next
    case (Some a)
    then obtain str r where l: "string_loop 119 (tl (read_ptr s)) = Some (str, r)" by (cases a) auto
    let ?s = "at (after (CHR 0x22) r) s"
    have nr: "NUL \<notin> set (after (CHR 0x22) r)"
      using string_loop_facts [OF l] NUL_tl [OF nul] by (intro NUL_after) simp
    have "reads ns ?s (Parsed (Str str) (after (CHR 0x22) r)) (make_string str ?s)"
      using make_string_got [of ns ?s str] string_loop_facts [OF l] ok nr by simp
    then have "reads ns s (Parsed (Str str) (after (CHR 0x22) r)) (make_string str ?s)"
      by (rule reads_trans [OF grows_at [OF ok]])
    with len l show ?thesis
      by (simp add: read_string_def drop_Suc at_def after_def)
  qed
qed

lemma symbol_reads:
  assumes ok: "state_ok ns s" and nul: "NUL \<notin> set (read_ptr s)"
  shows "reads ns s (let (name, r) = symbol_loop 63 (read_ptr s) in Parsed (Sym name) r) (read_symbol s)"
proof -
  obtain name r where l: "symbol_loop 63 (read_ptr s) = (name, r)" by fastforce
  have n: "length name \<le> 8192" "NUL \<notin> set name" "NUL \<notin> set r"
    using symbol_loop_facts [where k = 63 and t = "read_ptr s"] l nul by auto
  have "reads ns (at r s) (Parsed (Sym name) r) (intern name (at r s))"
    using intern_got [of ns "at r s" name] ok n by simp
  then have "reads ns s (Parsed (Sym name) r) (intern name (at r s))"
    by (rule reads_trans [OF grows_at [OF ok]])
  with l show ?thesis
    by (simp add: read_symbol_def at_def)
qed

lemma hex_reads:
  assumes ok: "state_ok ns s" and nul: "NUL \<notin> set (read_ptr s)" and len: "2 \<le> length (read_ptr s)"
  shows "reads ns s (let (n, r) = hex_loop 0 (tl (tl (read_ptr s))) in Parsed (Num n) r) (read_hex s)"
proof -
  obtain n r where l: "hex_loop 0 (tl (tl (read_ptr s))) = (n, r)" by fastforce
  have r: "NUL \<notin> set r"
    using NUL_hex_loop [OF NUL_tl [OF NUL_tl [OF nul]], of 0] l by simp
  have "read_hex s = Done (MAKE_FIXNUM n) (at r s)"
    using l len by (simp add: read_hex_def numeral_2_eq_2 drop_Suc at_def)
  moreover have "reads ns s (Parsed (Num n) r) (Done (MAKE_FIXNUM n) (at r s))"
    by (rule simple_reads [OF grows_refl [OF ok]]) (use r in \<open>simp_all add: den_def\<close>)
  ultimately show ?thesis
    using l by simp
qed

text \<open>The three statements of the induction on the fuel.\<close>

definition expr_spec :: "nat \<Rightarrow> bool" where
  "expr_spec n \<longleftrightarrow> (\<forall>ns s. state_ok ns s \<longrightarrow> NUL \<notin> set (read_ptr s) \<longrightarrow>
     reads ns s (parse n (read_ptr s)) (read_expr n s))"

definition list_spec :: "nat \<Rightarrow> bool" where
  "list_spec n \<longleftrightarrow> (\<forall>ns s. state_ok ns s \<longrightarrow> NUL \<notin> set (read_ptr s) \<longrightarrow> here (read_ptr s) = CHR ''('' \<longrightarrow>
     reads ns s (parse_list n (read_ptr s)) (read_list n s))"

definition items_spec :: "nat \<Rightarrow> bool" where
  "items_spec n \<longleftrightarrow> (\<forall>ns0 s0 ns s head tail xs. building ns0 s0 ns s head tail xs \<longrightarrow>
     NUL \<notin> set (read_ptr s) \<longrightarrow>
     reads ns0 s0 (and_then (parse_items n (read_ptr s)) (\<lambda>y. Parsed (dlist xs y))) (read_items n head tail s))"

lemma expr_spec_at:
  assumes "expr_spec n" and "state_ok ns s" and "NUL \<notin> set t"
  shows "reads ns s (parse n t) (read_expr n (at t s))"
proof -
  have "reads ns (at t s) (parse n t) (read_expr n (at t s))"
    using assms unfolding expr_spec_def by (metis at_simps(6) at_facts(5))
  then show ?thesis
    by (rule reads_trans [OF grows_at [OF assms(2)]])
qed

lemma expr_spec_held:
  assumes "expr_spec n" and "state_ok ns s" and "NUL \<notin> set (read_ptr s)"
  shows "reads ns (s\<lparr>c_stack := st\<rparr>) (parse n (read_ptr s)) (read_expr n (s\<lparr>c_stack := st\<rparr>))"
  using assms(1) [unfolded expr_spec_def, rule_format, of ns "s\<lparr>c_stack := st\<rparr>"] assms(2,3) by simp

lemma here_eq_length: "here t = c \<Longrightarrow> c \<noteq> NUL \<Longrightarrow> Suc 0 \<le> length t"
  by (cases t) (auto simp: here_def)

lemma expr_step:
  assumes E: "expr_spec n" and L: "list_spec n"
  shows "expr_spec (Suc n)"
  unfolding expr_spec_def
proof (intro allI impI)
  fix ns s assume ok: "state_ok ns s" and nul: "NUL \<notin> set (read_ptr s)"
  define t where "t = skip_ws (read_ptr s)"
  let ?s = "at t s"
  have nt: "NUL \<notin> set t" "NUL \<notin> set (tl t)" "NUL \<notin> set (tl (tl t))"
    using NUL_skip_ws [OF nul] by (simp_all add: t_def NUL_tl)
  have okt: "state_ok ns ?s" using ok by simp
  have g: "grows ns s ns ?s" by (rule grows_at [OF ok])
  note defs = numeral_2_eq_2 drop_Suc t_def [symmetric] Let_def
  have one: "Suc 0 \<le> length t" if "here t = c" "c \<noteq> NUL" for c
    using here_eq_length that by blast
  have two: "2 \<le> length t" if "here (tl t) = c" "c \<noteq> NUL" for c
    using here_eq_length [OF that] by simp
  note ex = expr_spec_at [OF E ok]
  have nil_reads: "reads ns s (Parsed x u) (Done v (at u s))"
    if "\<not> IS_PTR v" "den ns s v x" "NUL \<notin> set u" for v x u
    by (rule simple_reads [OF grows_refl [OF ok] that])
  show "reads ns s (parse (Suc n) (read_ptr s)) (read_expr (Suc n) s)"
  proof -
    consider (str) "here t = CHR 0x22" | (lst) "here t = CHR ''(''" | (quo) "here t = CHR 0x27"
      | (qq) "here t = CHR 0x60" | (spl) "here t = CHR '',''" "here (tl t) = CHR ''@''"
      | (unq) "here t = CHR '',''" "here (tl t) \<noteq> CHR ''@''"
      | (hex) "here t = CHR 0x23" "here (tl t) = CHR ''x''" | (tru) "here t = CHR 0x23" "here (tl t) = CHR ''t''"
      | (fls) "here t = CHR 0x23" "here (tl t) = CHR ''f''" | (cmt) "here t = CHR 0x23" "here (tl t) = CHR ''_''"
      | (neg) "here t = CHR ''-''" "is_digit (here (tl t))"
      | (rest) "here t \<noteq> CHR 0x22" "here t \<noteq> CHR ''(''" "here t \<noteq> CHR 0x27" "here t \<noteq> CHR 0x60"
          "here t \<noteq> CHR '',''"
          "\<not> (here t = CHR 0x23 \<and> (here (tl t) = CHR ''x'' \<or> here (tl t) = CHR ''t'' \<or>
             here (tl t) = CHR ''f'' \<or> here (tl t) = CHR ''_''))"
          "\<not> (here t = CHR ''-'' \<and> is_digit (here (tl t)))"
      by blast
    then show ?thesis
    proof cases
      case str
      have "reads ns s (case string_loop 119 (tl t) of None \<Rightarrow> Overrun
          | Some (str, r) \<Rightarrow> Parsed (Str str) (after (CHR 0x22) r)) (read_string ?s)"
        using string_reads [OF okt] nt str by (intro reads_trans [OF g]) simp
      with str show ?thesis by (simp add: defs)
    next
      case lst
      have "reads ns s (parse_list n t) (read_list n ?s)"
        using L [unfolded list_spec_def, rule_format, OF okt] nt lst by (intro reads_trans [OF g]) simp
      with lst show ?thesis by (simp add: defs)
    next
      case quo
      with quote_reads [OF ex [OF nt(2)], of "''quote''"] one [OF quo] show ?thesis
        by (simp add: defs NUL_def)
    next
      case qq
      with quote_reads [OF ex [OF nt(2)], of "''quasiquote''"] one [OF qq] show ?thesis
        by (simp add: defs NUL_def)
    next
      case spl
      have len: "Suc 0 \<le> length t" "Suc 0 \<le> length (tl t)"
        using one [OF spl(1)] here_eq_length [OF spl(2)] by (simp_all add: NUL_def)
      with spl quote_reads [OF ex [OF nt(3)], of "''unquote-splicing''"] show ?thesis
        by (simp add: defs NUL_def)
    next
      case unq
      with quote_reads [OF ex [OF nt(2)], of "''unquote''"] one [OF unq(1)] show ?thesis
        by (simp add: defs NUL_def)
    next
      case hex
      have "reads ns s (let (n, r) = hex_loop 0 (tl (tl t)) in Parsed (Num n) r) (read_hex ?s)"
        using hex_reads [OF okt] nt two [OF hex(2)] by (intro reads_trans [OF g]) (simp add: NUL_def)
      with hex show ?thesis by (simp add: defs)
    next
      case tru
      with nil_reads [of T_VAL "Sym ''t''" "tl (tl t)"] nt two [OF tru(2)] den_t [OF ok] show ?thesis
        by (simp add: defs NUL_def)
    next
      case fls
      with nil_reads [of NIL_VAL nil "tl (tl t)"] nt two [OF fls(2)] den_nil [OF ok] show ?thesis
        by (simp add: defs NUL_def)
    next
      case cmt
      have "reads ns s (and_then (parse n (tl (tl t))) (\<lambda>_ r. parse n r))
          (bnd (read_expr n) (\<lambda>_. read_expr n) (at (tl (tl t)) s))"
      proof (rule reads_bnd [where m = "read_expr n" and t = "at (tl (tl t)) s", OF ex [OF nt(3)]])
        fix x r v ns' s' assume q: "got ns s x r v ns' s'"
        then have "reads ns' s' (parse n r) (read_expr n s')"
          using E [unfolded expr_spec_def, rule_format, of ns' s'] by (auto simp: got_def grows_def)
        with q show "reads ns s (parse n r) (read_expr n s')"
          by (auto simp: got_def intro: reads_trans)
      qed
      with cmt two [OF cmt(2)] show ?thesis by (simp add: defs NUL_def)
    next
      case neg
      have "reads ns s (parse_int t) (read_int ?s)"
        using int_reads [OF okt] nt by (intro reads_trans [OF g]) simp
      with neg show ?thesis by (simp add: defs)
    next
      case rest
      have i: "reads ns s (parse_int t) (read_int ?s)"
        using int_reads [OF okt] nt by (intro reads_trans [OF g]) simp
      have y: "reads ns s (let (name, r) = symbol_loop 63 t in Parsed (Sym name) r) (read_symbol ?s)"
        using symbol_reads [OF okt] nt by (intro reads_trans [OF g]) simp
      have z: "reads ns s (Parsed nil t) (Done NIL_VAL ?s)"
        using nil_reads [of NIL_VAL nil t] nt den_nil [OF ok] by simp
      have h: "\<not> (here t = CHR 0x23 \<and> here (tl t) = CHR ''x'')" "\<not> (here t = CHR 0x23 \<and> here (tl t) = CHR ''t'')"
        "\<not> (here t = CHR 0x23 \<and> here (tl t) = CHR ''f'')" "\<not> (here t = CHR 0x23 \<and> here (tl t) = CHR ''_'')"
        using rest(6) by blast+
      have p: "parse (Suc n) (read_ptr s) = (if is_digit (here t) then parse_int t
          else if here t \<noteq> NUL \<and> here t \<noteq> CHR '')'' then (let (name, r) = symbol_loop 63 t in Parsed (Sym name) r)
          else Parsed nil t)"
        by (simp only: parse.simps defs rest(1,2,3,4,5,7) h if_False)
      have q: "read_expr (Suc n) s = (if is_digit (here t) then read_int
          else if here t \<noteq> NUL \<and> here t \<noteq> CHR '')'' then read_symbol else ret NIL_VAL) ?s"
        by (simp only: read_expr.simps reader_simps bnd_get at_simps defs rest(1,2,3,4,5,7) h if_False)
      show ?thesis
        using i y z unfolding p q by simp
    qed
  qed
qed

lemma skip_dot:
  "here t = CHR ''.'' \<Longrightarrow> Suc 0 \<le> length t" "here t = CHR ''('' \<Longrightarrow> Suc 0 \<le> length t"
  "here t = CHR '')'' \<Longrightarrow> Suc 0 \<le> length t"
  using here_eq_length [of t] by (simp_all add: NUL_def)

lemma NUL_skip_tl: "NUL \<notin> set t \<Longrightarrow> NUL \<notin> set (skip_ws (tl t))"
  by (intro NUL_skip_ws NUL_tl)

text \<open>Reading the datum after a dot while values are held.\<close>

lemma dotted_step:
  assumes E: "expr_spec n" and ok: "state_ok ns s" and nul: "NUL \<notin> set (read_ptr s)"
    and snd: "\<forall>w\<in>set vs. sound s w"
    and k: "\<And>d q v ns' s'. got ns s d q v ns' s' \<Longrightarrow> kept vs s v s' \<Longrightarrow> reads ns0 s0 (k d q) (f v s')"
  shows "reads ns0 s0 (and_then (parse n (read_ptr s)) k) (bnd (hold vs (read_expr n)) f s)"
  by (rule reads_hold [where m = "read_expr n", OF ok snd expr_spec_held [OF E ok nul]]) (rule k)

lemma grows_base: "grows ns0 s0 ns s \<Longrightarrow> got ns s x r v ns' s' \<Longrightarrow> got ns0 s0 x r v ns' s'"
  by (rule got_trans)

lemma list_step:
  assumes E: "expr_spec n" and I: "items_spec n"
  shows "list_spec (Suc n)"
  unfolding list_spec_def
proof (intro allI impI)
  fix ns s assume ok: "state_ok ns s" and nul: "NUL \<notin> set (read_ptr s)" and h: "here (read_ptr s) = CHR ''(''"
  define t where "t = skip_ws (tl (read_ptr s))"
  have nt: "NUL \<notin> set t" using NUL_skip_tl [OF nul] by (simp add: t_def)
  note defs = drop_Suc t_def [symmetric] Let_def skip_dot
  show "reads ns s (parse_list (Suc n) (read_ptr s)) (read_list (Suc n) s)"
  proof (cases "here t = CHR '')''")
    case True
    have "reads ns s (Parsed nil (tl t)) (Done NIL_VAL (at (tl t) s))"
      by (rule simple_reads [OF grows_refl [OF ok]]) (use NUL_tl [OF nt] den_nil [OF ok] in simp_all)
    with True h skip_dot [of t] skip_dot [of "read_ptr s"] show ?thesis
      by (simp add: defs)
  next
    case False
    let ?k = "\<lambda>x r. let r = skip_ws r in
       if here r = CHR ''.''
       then and_then (parse n (skip_ws (tl r))) (\<lambda>d q. Parsed (Pair x d) (after (CHR '')'') (skip_ws q)))
       else and_then (parse_items n r) (\<lambda>y. Parsed (Pair x y))"
    let ?f = "\<lambda>first. bnd skip_whitespace (\<lambda>_. bnd look (\<lambda>c.
       if c = CHR ''.''
       then bnd (advance 1) (\<lambda>_. bnd skip_whitespace (\<lambda>_. bnd (hold [first] (read_expr n)) (\<lambda>d.
         bnd skip_whitespace (\<lambda>_. bnd close_list (\<lambda>_. cons first d)))))
       else bnd (cons first NIL_VAL) (\<lambda>head. read_items n head head)))"
    have "reads ns s (and_then (parse n t) ?k) (bnd (read_expr n) ?f (at t s))"
    proof (rule reads_bnd [where m = "read_expr n" and t = "at t s", OF expr_spec_at [OF E ok nt]])
      fix x r first ns1 s1 assume g: "got ns s x r first ns1 s1"
      define u where "u = skip_ws r"
      have nu: "NUL \<notin> set u" "NUL \<notin> set (skip_ws (tl u))"
        using g by (auto simp: got_def u_def intro!: NUL_skip_ws NUL_tl)
      have g1: "grows ns s ns1 s1" and r: "read_ptr s1 = r" using g by (auto simp: got_def)
      have f1: "sound s1 first" "den ns1 s1 first x" "fresh s s1 first" using g by (auto simp: got_def)
      show "reads ns s (?k x r) (?f first s1)"
      proof (cases "here u = CHR ''.''")
        case True
        let ?s = "at (skip_ws (tl u)) s1"
        have gs: "grows ns s ns1 ?s" using g1 by (blast intro: grows_trans grows_at grows_ok)
        have oks: "state_ok ns1 ?s" by (rule grows_ok [OF gs])
        have "reads ns s (and_then (parse n (read_ptr ?s)) (\<lambda>d q. Parsed (Pair x d) (after (CHR '')'') (skip_ws q))))
          (bnd (hold [first] (read_expr n)) (\<lambda>d. bnd skip_whitespace (\<lambda>_. bnd close_list (\<lambda>_. cons first d))) ?s)"
        proof (rule dotted_step [OF E oks])
          fix d q v ns2 s2 assume g2: "got ns1 ?s d q v ns2 s2" and k2: "kept [first] ?s v s2"
          let ?q = "after (CHR '')'') (skip_ws q)"
          have nq: "NUL \<notin> set ?q" using g2 by (auto simp: got_def intro!: NUL_after NUL_skip_ws)
          have b: "got ns s d ?q v ns2 (at ?q s2)"
            by (rule got_at [OF got_trans [OF gs g2] nq])
          have kf: "cells_of s2 first = cells_of s1 first" "sound s2 first"
            "\<And>j. j \<in> cells_of s1 first \<Longrightarrow> heap_car s2 j = heap_car s1 j \<and> heap_cdr s2 j = heap_cdr s1 j"
            using kept_cells [OF k2, of first] by auto
          have "pool_grows ?s s2" "\<exists>ms. ns2 = ns1 @ ms" using g2 by (auto simp: got_def grows_def)
          then have "den ns2 s2 first x"
            using den_mono [of ns1 ?s first x s2 ns2] f1(2) kf(3) by auto
          then have "reads ns s (Parsed (Pair x d) (read_ptr (at ?q s2))) (cons first v (at ?q s2))"
            using b kf f1(3) nq by (intro cons_got) (auto simp: got_def fresh_def)
          with g2 show "reads ns s (Parsed (Pair x d) ?q)
              (bnd skip_whitespace (\<lambda>_. bnd close_list (\<lambda>_. cons first v)) s2)"
            by (simp add: got_def)
        qed (use nu f1 in simp_all)
        with True r skip_dot [of u] show ?thesis
          by (simp add: drop_Suc Let_def u_def [symmetric])
      next
        case False
        let ?s = "at u s1"
        have gs: "grows ns s ns1 ?s" using g1 by (blast intro: grows_trans grows_at grows_ok)
        have oks: "state_ok ns1 ?s" by (rule grows_ok [OF gs])
        have "reads ns s (and_then (parse_items n u) (\<lambda>y. Parsed (Pair x y)))
          (bnd (cons first NIL_VAL) (\<lambda>head. read_items n head head) ?s)"
          using cons_outcome [OF oks, of first NIL_VAL]
        proof (elim disjE exE)
          fix head s2 assume run: "cons first NIL_VAL ?s = Done head s2"
          have f: "sound ?s first" "den ns1 ?s first x" "fresh s ?s first"
            using f1 by (simp_all add: fresh_def)
          note b = building_start [OF gs f _ run]
          have "building ns s ns1 s2 head head [x]" "read_ptr s2 = u" using b nu by simp_all
          with I [unfolded items_spec_def, rule_format, of ns s ns1 s2 head head "[x]"] nu run
          show ?thesis by (simp add: bnd_def)
        qed (simp add: bnd_def reads_def)
        with False r show ?thesis
          by (simp add: Let_def u_def [symmetric])
      qed
    qed
    with False h skip_dot [of "read_ptr s"] show ?thesis
      by (simp add: defs)
  qed
qed

lemma poke_tail:
  "IS_CONS tail \<Longrightarrow> cell_of tail < HEAP_SIZE \<Longrightarrow>
    bnd (poke_cdr (PTR_IDX tail) c) f s = f () (linked (cell_of tail) c s)"
  by (simp add: bnd_def poke_cdr_def cell_of_def linked_def)

lemma hold_cons_outcome:
  assumes "state_ok ns s"
  shows "(\<exists>c s'. hold vs (cons a d) s = Done c s') \<or> (\<exists>s'. hold vs (cons a d) s = Halted s')"
  using cons_outcome [of ns "s\<lparr>c_stack := vs @ c_stack s\<rparr>" a d] assms
  by (auto simp: hold_def bnd_def)

lemma items_step:
  assumes E: "expr_spec n" and I: "items_spec n"
  shows "items_spec (Suc n)"
  unfolding items_spec_def
proof (intro allI impI)
  fix ns0 s0 ns s head tail xs
  assume b: "building ns0 s0 ns s head tail xs" and nul: "NUL \<notin> set (read_ptr s)"
  define t where "t = read_ptr s"
  have base: "grows ns0 s0 ns s" and ok: "state_ok ns s" and shead: "sound s head" "sound s tail"
    using b by (auto simp: building_def grows_def sound_def)
  show "reads ns0 s0 (and_then (parse_items (Suc n) (read_ptr s)) (\<lambda>y. Parsed (dlist xs y)))
    (read_items (Suc n) head tail s)"
  proof (cases "here t \<noteq> NUL \<and> here t \<noteq> CHR '')''")
    case False
    have "got ns0 s0 (dlist xs nil) (after (CHR '')'') t) head ns (at (after (CHR '')'') t) s)"
      by (rule got_at [OF building_done [OF b nul]]) (use nul in \<open>simp add: t_def NUL_after\<close>)
    then have "reads ns0 s0 (Parsed (dlist xs nil) (after (CHR '')'') t)) (Done head (at (after (CHR '')'') t) s))"
      by (rule got_reads)
    with False show ?thesis
      by (auto simp: t_def)
  next
    case True
    let ?l = "\<lambda>y. Parsed (dlist xs y)"
    let ?k = "\<lambda>x r. let r = skip_ws r in
       if here r = CHR ''.''
       then and_then (parse n (skip_ws (tl r))) (\<lambda>d q. Parsed (Pair x d) (after (CHR '')'') (skip_ws q)))
       else and_then (parse_items n r) (\<lambda>y. Parsed (Pair x y))"
    let ?g = "\<lambda>cell. bnd skip_whitespace (\<lambda>_. bnd look (\<lambda>c.
         if c = CHR ''.''
         then bnd (advance 1) (\<lambda>_. bnd skip_whitespace (\<lambda>_. bnd (hold [head, cell] (read_expr n)) (\<lambda>d.
           bnd (poke_cdr (PTR_IDX cell) d) (\<lambda>_. bnd skip_whitespace (\<lambda>_. bnd close_list (\<lambda>_. ret head))))))
         else read_items n head cell))"
    let ?f = "\<lambda>elem. bnd (hold [head, tail] (cons elem NIL_VAL)) (\<lambda>cell.
       bnd (poke_cdr (PTR_IDX tail) cell) (\<lambda>_. ?g cell))"
    have "reads ns0 s0 (and_then (parse n (read_ptr s)) (\<lambda>x r. and_then (?k x r) ?l))
      (bnd (hold [head, tail] (read_expr n)) ?f s)"
    proof (rule dotted_step [OF E ok nul])
      fix x r elem ns1 s1 assume g: "got ns s x r elem ns1 s1" and kp: "kept [head, tail] s elem s1"
      have gr: "grows ns s ns1 s1" and ok1: "state_ok ns1 s1" using g by (auto simp: got_def grows_def)
      have b1: "building ns0 s0 ns1 s1 head tail xs" and nT: "cell_of tail \<notin> cells_of s1 elem"
        using building_mono [OF b gr kp] by simp_all
      have e1: "sound s1 elem" "den ns1 s1 elem x" "fresh s0 s1 elem"
        using got_trans [OF base g] by (auto simp: got_def)
      have r1: "NUL \<notin> set (read_ptr s1)" "read_ptr s1 = r" using g by (auto simp: got_def)
      show "reads ns0 s0 (and_then (?k x r) ?l) (?f elem s1)"
        using hold_cons_outcome [OF ok1, of "[head, tail]" elem NIL_VAL]
      proof (elim disjE exE)
        fix cell s2 assume run: "hold [head, tail] (cons elem NIL_VAL) s1 = Done cell s2"
        let ?s3 = "linked (cell_of tail) cell s2"
        note bn = building_next [OF b1 e1 nT r1(1) run]
        define u where "u = skip_ws r"
        have nu: "NUL \<notin> set u" "NUL \<notin> set (skip_ws (tl u))"
          using r1 by (auto simp: u_def intro!: NUL_skip_ws NUL_tl)
        have r3: "read_ptr ?s3 = r" using bn(2) r1(2) by simp
        have ct: "IS_CONS tail" using b by (simp add: building_def)
        have "reads ns0 s0 (and_then (?k x r) ?l) (?g cell ?s3)"
        proof (cases "here u = CHR ''.''")
          case False
          have "building ns0 s0 ns1 (at u ?s3) head cell (xs @ [x])"
            by (rule building_at [OF bn(1)])
          with I [unfolded items_spec_def, rule_format, of ns0 s0 ns1 "at u ?s3" head cell "xs @ [x]"] nu
          have "reads ns0 s0 (and_then (parse_items n u) (\<lambda>y. Parsed (dlist (xs @ [x]) y)))
            (read_items n head cell (at u ?s3))" by simp
          with False r3 show ?thesis
            by (simp add: Let_def u_def [symmetric] and_then_assoc del: linked_simps)
        next
          case True
          let ?s4 = "at (skip_ws (tl u)) ?s3"
          have b4: "building ns0 s0 ns1 ?s4 head cell (xs @ [x])"
            by (rule building_at [OF bn(1)])
          then have ok4: "state_ok ns1 ?s4" and s4: "sound ?s4 head" "sound ?s4 cell" and cc: "IS_CONS cell"
            and g4: "grows ns0 s0 ns1 ?s4"
            by (auto simp: building_def grows_def sound_def)
          have "reads ns0 s0 (and_then (parse n (read_ptr ?s4))
              (\<lambda>d q. Parsed (dlist (xs @ [x]) d) (after (CHR '')'') (skip_ws q))))
            (bnd (hold [head, cell] (read_expr n)) (\<lambda>d. bnd (poke_cdr (PTR_IDX cell) d) (\<lambda>_.
               bnd skip_whitespace (\<lambda>_. bnd close_list (\<lambda>_. ret head)))) ?s4)"
          proof (rule dotted_step [OF E ok4])
            fix d q v ns5 s5 assume g5: "got ns1 ?s4 d q v ns5 s5" and k5: "kept [head, cell] ?s4 v s5"
            have gr5: "grows ns1 ?s4 ns5 s5" using g5 by (simp add: got_def)
            have b5: "building ns0 s0 ns5 s5 head cell (xs @ [x])" and n5: "cell_of cell \<notin> cells_of s5 v"
              using building_mono [OF b4 gr5 k5] by simp_all
            have v5: "sound s5 v" "den ns5 s5 v d" "fresh s0 s5 v" "NUL \<notin> set (read_ptr s5)" "read_ptr s5 = q"
              using got_trans [OF g4 g5] by (auto simp: got_def)
            have lt: "cell_of cell < HEAP_SIZE"
              using b5 by (intro used_size [of s5]) (auto simp: building_def grows_def state_ok_def)
            let ?q = "after (CHR '')'') (skip_ws q)"
            have "got ns0 s0 (dlist (xs @ [x]) d) ?q head ns5 (at ?q (linked (cell_of cell) v s5))"
              by (rule got_at [OF building_fill [OF b5 v5(1,2,3) n5 v5(4)]])
                (use v5 in \<open>auto intro!: NUL_after NUL_skip_ws\<close>)
            then show "reads ns0 s0 (Parsed (dlist (xs @ [x]) d) ?q)
              (bnd (poke_cdr (PTR_IDX cell) v) (\<lambda>_. bnd skip_whitespace (\<lambda>_. bnd close_list (\<lambda>_. ret head))) s5)"
              using v5(5) by (simp add: poke_tail [OF cc lt] got_reads)
          qed (use nu s4 in simp_all)
          with True r3 skip_dot [of u] show ?thesis
            by (simp add: drop_Suc Let_def u_def [symmetric] and_then_assoc del: linked_simps)
        qed
        with run show ?thesis
          by (simp add: bnd_step poke_tail [OF ct bn(3)])
      qed (simp add: bnd_def reads_def)
    qed (use shead in simp)
    with True show ?thesis
      by (simp add: t_def and_then_assoc)
  qed
qed

lemma specs: "expr_spec n \<and> list_spec n \<and> items_spec n"
proof (induction n)
  case 0
  show ?case
    by (simp add: expr_spec_def list_spec_def items_spec_def reads_def)
next
  case (Suc n)
  then show ?case
    using expr_step list_step items_step by blast
qed

lemma read_expr_reads:
  assumes "state_ok ns s" and "NUL \<notin> set (read_ptr s)"
  shows "reads ns s (parse n (read_ptr s)) (read_expr n s)"
  using specs [of n] assms by (simp add: expr_spec_def)

end
