(* ===== verification/Tml_Read_Print.thy ===== *)
theory Tml_Read_Print
  imports Tml_Read_Correct
begin

text \<open>
  Consequences of the refinement: the reader always returns, and what the printer wrote for a
  datum is read back as that datum.
\<close>

section \<open>Progress\<close>

lemma length_tl_here: "here t \<noteq> NUL \<Longrightarrow> length (tl t) < length t"
  by (cases t) (auto simp: here_def)

lemma length_skip_ws: "length (skip_ws t) \<le> length t"
proof (induction t rule: skip_ws.induct)
  case (1 t)
  consider "is_whitespace (here t)" | "\<not> is_whitespace (here t)" "here t = CHR '';''"
    | "\<not> is_whitespace (here t)" "here t \<noteq> CHR '';''" by blast
  then show ?case
  proof cases
    case 1
    with "1.IH"(1) show ?thesis
      using order_trans [of "length (skip_ws (tl t))" "length (tl t)" "length t"]
      by (simp add: skip_ws.simps [of t])
  next
    case 2
    with "1.IH"(2) length_skip_comment [of t] show ?thesis
      by (simp add: skip_ws.simps [of t])
  qed (simp add: skip_ws.simps [of t])
qed

lemma skip_ws_idle: "\<not> is_whitespace (here t) \<Longrightarrow> here t \<noteq> CHR '';'' \<Longrightarrow> skip_ws t = t"
  by (simp add: skip_ws.simps)

lemma skip_ws_here: "\<not> is_whitespace (here (skip_ws t)) \<and> here (skip_ws t) \<noteq> CHR '';''"
proof (induction t rule: skip_ws.induct)
  case (1 t)
  then show ?case
    by (cases "is_whitespace (here t)"; cases "here t = CHR '';''") (simp_all add: skip_ws.simps [of t])
qed

lemma length_after: "length (after c t) \<le> length t"
  by (simp add: after_def)

lemma length_hex_loop: "length (snd (hex_loop n t)) \<le> length t"
  by (induction n t rule: hex_loop.induct) auto

lemma length_int_loop: "length (snd (int_loop n t)) \<le> length t"
  by (induction n t rule: int_loop.induct) auto

lemma int_loop_digit: "is_digit (here t) \<Longrightarrow> length (snd (int_loop n t)) < length t"
  using length_int_loop by (cases t) (auto simp: here_def is_digit_def schar_def uchar_def NUL_def less_Suc_eq_le)

lemma length_symbol_loop: "length (snd (symbol_loop k t)) \<le> length t"
  by (induction k t rule: symbol_loop.induct) (auto split: prod.splits)

lemma symbol_loop_progress:
  "is_sym_char (here t) \<Longrightarrow> length (snd (symbol_loop (Suc k) t)) < length t"
  using length_symbol_loop [of k "tl t"] by (cases t) (auto simp: here_def is_sym_char_def split: prod.splits)

lemma length_string_loop: "string_loop k t = Some (str, r) \<Longrightarrow> length r \<le> length t"
proof (induction k arbitrary: t str r)
  case (Suc k)
  show ?case
  proof (cases t)
    case (Cons c cs)
    consider "c = CHR 0x22" | "c = CHR 0x5C" | "c \<noteq> CHR 0x22" "c \<noteq> CHR 0x5C" by blast
    then show ?thesis
    proof cases
      case 2
      with Suc.prems Cons obtain d ds where "cs = d # ds" by (cases cs) auto
      with 2 Suc.prems Cons show ?thesis by (fastforce dest!: Suc.IH)
    qed (use Suc.prems Cons in \<open>fastforce dest!: Suc.IH\<close>)+
  qed (use Suc.prems in simp)
qed simp

text \<open>Text left over by the parser: never more, and less where an expression can begin.\<close>

definition begins :: "string \<Rightarrow> bool" where
  "begins t \<longleftrightarrow> \<not> is_whitespace (here t) \<and> here t \<noteq> CHR '';'' \<and> here t \<noteq> NUL \<and> here t \<noteq> CHR '')'' \<and>
     here t \<noteq> CHR ''.''"

definition shorter :: "string \<Rightarrow> parsed \<Rightarrow> bool" where
  "shorter t p \<longleftrightarrow> (\<forall>x r. p = Parsed x r \<longrightarrow> length r \<le> length t)"

lemma shorter_and_then:
  "shorter t p \<Longrightarrow> (\<And>x r. p = Parsed x r \<Longrightarrow> length r \<le> length t \<Longrightarrow> shorter t (k x r)) \<Longrightarrow> shorter t (and_then p k)"
  by (cases p) (auto simp: shorter_def)

lemma shorter_le: "shorter t p \<Longrightarrow> length t \<le> length u \<Longrightarrow> shorter u p"
  by (auto simp: shorter_def)

lemma shorter_Parsed [simp]: "shorter t (Parsed x r) \<longleftrightarrow> length r \<le> length t" "shorter t Overrun" "shorter t Short"
  by (auto simp: shorter_def)

lemma length_after_skip: "length q \<le> k \<Longrightarrow> length (after c (skip_ws q)) \<le> k"
  using length_after [of c "skip_ws q"] length_skip_ws [of q] by simp

lemma length_skip_le: "length q \<le> k \<Longrightarrow> length (skip_ws q) \<le> k"
  using length_skip_ws [of q] by simp

lemma length_tl_le: "length q \<le> k \<Longrightarrow> length (tl q) \<le> k"
  by simp

lemma parse_shorter:
  "shorter t (parse n t) \<and> shorter (tl t) (parse_list n t) \<and> shorter t (parse_items n t)"
proof (induction n arbitrary: t)
  case (Suc n)
  have P: "shorter u (parse n t)" if "length t \<le> length u" for t u
    using Suc [of t] that by (auto intro: shorter_le)
  have I: "shorter u (parse_items n t)" if "length t \<le> length u" for t u
    using Suc [of t] that by (auto intro: shorter_le)
  have dot: "shorter u (let r = skip_ws r in
       if here r = CHR ''.''
       then and_then (parse n (skip_ws (tl r))) (\<lambda>d q. Parsed (Pair x d) (after (CHR '')'') (skip_ws q)))
       else and_then (parse_items n r) (\<lambda>y. Parsed (Pair x y)))" if r: "length r \<le> length u" for u r x
    by (auto simp: Let_def intro!: shorter_and_then P I length_after_skip length_skip_le length_tl_le r)
  have "shorter (tl t) (parse_list (Suc n) t)"
  proof -
    have l: "length (skip_ws (tl t)) \<le> length (tl t)" by (rule length_skip_ws)
    then have "length (tl (skip_ws (tl t))) \<le> length (tl t)" by simp
    with l show ?thesis
      by (auto simp: Let_def intro!: shorter_and_then P dot [unfolded Let_def])
  qed
  moreover have "shorter t (parse_items (Suc n) t)"
    by (auto simp: intro!: shorter_and_then P dot length_after)
  moreover have "shorter t (parse (Suc n) t)"
  proof -
    let ?t = "skip_ws t"
    have l: "length ?t \<le> length t" by (rule length_skip_ws)
    have q: "shorter t (and_then (parse n u) (\<lambda>x. Parsed (quoted name x)))" if "length u \<le> length t" for u name
      using that by (auto intro!: shorter_and_then P)
    have "shorter t (case string_loop 119 (tl ?t) of None \<Rightarrow> Overrun | Some (str, r) \<Rightarrow> Parsed (Str str) (after (CHR 0x22) r))"
    proof (cases "string_loop 119 (tl ?t)")
      case (Some a)
      then obtain str r where s: "string_loop 119 (tl ?t) = Some (str, r)" by (cases a) auto
      have "length (after (CHR 0x22) r) \<le> length r" by (rule length_after)
      also have "\<dots> \<le> length (tl ?t)" by (rule length_string_loop [OF s])
      also have "\<dots> \<le> length t" using l by simp
      finally show ?thesis using s by simp
    qed simp
    moreover have "shorter t (parse_list n ?t)"
      by (rule shorter_le [of "tl ?t"]) (use Suc [of ?t] l in auto)
    moreover have "shorter t (let (n, r) = hex_loop 0 (tl (tl ?t)) in Parsed (Num n) r)"
      using length_hex_loop [of 0 "tl (tl ?t)"] l by (auto split: prod.splits)
    moreover have "shorter t (parse_int ?t)"
      using length_int_loop [of 0 "after (CHR ''-'') ?t"] length_after [of "CHR ''-''" ?t] l
      by (auto simp: parse_int_def split: prod.splits)
    moreover have "shorter t (let (name, r) = symbol_loop 63 ?t in Parsed (Sym name) r)"
      using length_symbol_loop [of 63 ?t] l by (auto split: prod.splits)
    moreover have "shorter t (and_then (parse n (tl (tl ?t))) (\<lambda>_ r. parse n r))"
      using l by (auto intro!: shorter_and_then P)
    moreover note q [of "tl ?t"] q [of "tl (tl ?t)"]
    moreover have "length ?t - Suc 0 \<le> length t" "length ?t - Suc (Suc 0) \<le> length t"
      using l by simp_all
    ultimately show ?thesis
      using l by (simp add: Let_def)
  qed
  ultimately show ?case by blast
qed simp

lemma parse_progress:
  assumes b: "begins t"
  shows "parse n t = Parsed x r \<Longrightarrow> length r < length t"
proof (cases n)
  case (Suc m)
  have sk: "skip_ws t = t" using b by (intro skip_ws_idle) (auto simp: begins_def)
  have l1: "length (tl t) < length t" using b by (intro length_tl_here) (simp add: begins_def)
  then have l2: "length (tl (tl t)) < length t" by simp
  have sh: "length r < length t" if "shorter u p" "p = Parsed x r" "length u < length t" for u p
    using that by (auto simp: shorter_def)
  have P: "shorter u (parse m u)" "shorter (tl u) (parse_list m u)" for u
    using parse_shorter by blast+
  have PP: "shorter u (and_then (parse m u) (\<lambda>_. parse m))" for u
    using P(1) by (intro shorter_and_then) (auto intro: shorter_le)
  have PQ: "shorter u (and_then (parse m u) (\<lambda>x. Parsed (quoted name x)))" for u name
    using P(1) by (intro shorter_and_then) auto
  have I: "length r < length t" if "parse_int t = Parsed x r" "is_digit (here t) \<or> (here t = CHR ''-'' \<and> is_digit (here (tl t)))"
  proof -
    obtain k r' where l: "int_loop 0 (after (CHR ''-'') t) = (k, r')" by fastforce
    then have "r' = r" using that(1) by (simp add: parse_int_def)
    have "is_digit (here (after (CHR ''-'') t))"
      using that(2) by (auto simp: after_def is_digit_def schar_def uchar_def)
    from int_loop_digit [OF this, of 0] l \<open>r' = r\<close> length_after [of "CHR ''-''" t] show ?thesis
      by simp
  qed
  have Y: "length r < length t" if "(let (name, r) = symbol_loop 63 t in Parsed (Sym name) r) = Parsed x r"
    "is_sym_char (here t)"
    using symbol_loop_progress [OF that(2), of 62] that(1) by (auto simp: Let_def split: prod.splits)
  assume run: "parse n t = Parsed x r"
  show ?thesis
  proof -
    consider (str) "here t = CHR 0x22" | (lst) "here t = CHR ''(''" | (quo) "here t = CHR 0x27"
      | (qq) "here t = CHR 0x60" | (spl) "here t = CHR '',''"
      | (hex) "here t = CHR 0x23" "here (tl t) = CHR ''x''" | (tru) "here t = CHR 0x23" "here (tl t) = CHR ''t''"
      | (fls) "here t = CHR 0x23" "here (tl t) = CHR ''f''" | (cmt) "here t = CHR 0x23" "here (tl t) = CHR ''_''"
      | (num) "is_digit (here t) \<or> (here t = CHR ''-'' \<and> is_digit (here (tl t)))"
      | (rest) "here t \<noteq> CHR 0x22" "here t \<noteq> CHR ''(''" "here t \<noteq> CHR 0x27" "here t \<noteq> CHR 0x60"
          "here t \<noteq> CHR '',''"
          "\<not> (here t = CHR 0x23 \<and> here (tl t) = CHR ''x'')" "\<not> (here t = CHR 0x23 \<and> here (tl t) = CHR ''t'')"
          "\<not> (here t = CHR 0x23 \<and> here (tl t) = CHR ''f'')" "\<not> (here t = CHR 0x23 \<and> here (tl t) = CHR ''_'')"
          "\<not> is_digit (here t)" "\<not> (here t = CHR ''-'' \<and> is_digit (here (tl t)))"
      by blast
    then show ?thesis
    proof cases
      case str
      with run Suc sk obtain s r' where "string_loop 119 (tl t) = Some (s, r')" "r = after (CHR 0x22) r'"
        by (auto simp: Let_def split: option.splits prod.splits)
      with length_string_loop [OF this(1)] length_after [of "CHR 0x22" r'] l1 show ?thesis by simp
    next
      case lst
      with run Suc sk have "parse_list m t = Parsed x r" by (simp add: Let_def)
      then show ?thesis by (rule sh [OF P(2) _ l1])
    next
      case quo
      with run Suc sk have "and_then (parse m (tl t)) (\<lambda>x. Parsed (quoted ''quote'' x)) = Parsed x r" by (simp add: Let_def)
      then show ?thesis by (rule sh [OF PQ _ l1])
    next
      case qq
      with run Suc sk have "and_then (parse m (tl t)) (\<lambda>x. Parsed (quoted ''quasiquote'' x)) = Parsed x r" by (simp add: Let_def)
      then show ?thesis by (rule sh [OF PQ _ l1])
    next
      case spl
      show ?thesis
      proof (cases "here (tl t) = CHR ''@''")
        case True
        with spl run Suc sk have "and_then (parse m (tl (tl t))) (\<lambda>x. Parsed (quoted ''unquote-splicing'' x)) = Parsed x r"
          by (simp add: Let_def)
        then show ?thesis by (rule sh [OF PQ _ l2])
      next
        case False
        with spl run Suc sk have "and_then (parse m (tl t)) (\<lambda>x. Parsed (quoted ''unquote'' x)) = Parsed x r"
          by (simp add: Let_def)
        then show ?thesis by (rule sh [OF PQ _ l1])
      qed
    next
      case hex
      with run Suc sk length_hex_loop [of 0 "tl (tl t)"] l2 show ?thesis
        by (auto simp: Let_def split: prod.splits)
    next
      case tru
      with run Suc sk l2 show ?thesis by (auto simp: Let_def)
    next
      case fls
      with run Suc sk l2 show ?thesis by (auto simp: Let_def)
    next
      case cmt
      with run Suc sk have "and_then (parse m (tl (tl t))) (\<lambda>_. parse m) = Parsed x r" by (simp add: Let_def)
      then show ?thesis by (rule sh [OF PP _ l2])
    next
      case num
      then have "here t \<noteq> CHR 0x22" "here t \<noteq> CHR ''(''" "here t \<noteq> CHR 0x27" "here t \<noteq> CHR 0x60"
        "here t \<noteq> CHR '',''" "here t \<noteq> CHR 0x23"
        by (auto simp: is_digit_def schar_def uchar_def)
      with num have "parse n t = parse_int t"
        by (auto simp: Let_def Suc sk)
      with run num I show ?thesis by simp
    next
      case rest
      have sy: "is_sym_char (here t)"
        using rest b by (simp add: begins_def is_sym_char_def)
      have "parse n t = (let (name, r) = symbol_loop 63 t in Parsed (Sym name) r)"
        using b by (simp only: Suc parse.simps Let_def sk rest if_False) (simp add: begins_def)
      with run Y sy show ?thesis by simp
    qed
  qed
qed simp

text \<open>Fuel in proportion to the length of the text suffices.\<close>

lemma not_short_and_then:
  "p \<noteq> Short \<Longrightarrow> (\<And>x r. p = Parsed x r \<Longrightarrow> k x r \<noteq> Short) \<Longrightarrow> and_then p k \<noteq> Short"
  by (cases p) auto

lemma and_then_Short: "and_then p k = Short \<longleftrightarrow> p = Short \<or> (\<exists>x r. p = Parsed x r \<and> k x r = Short)"
  by (cases p) auto

lemma skip_begins:
  "here (skip_ws t) \<noteq> NUL \<Longrightarrow> here (skip_ws t) \<noteq> CHR '')'' \<Longrightarrow> here (skip_ws t) \<noteq> CHR ''.'' \<Longrightarrow> begins (skip_ws t)"
  using skip_ws_here [of t] by (simp add: begins_def)

lemma parse_enough:
  "(3 * length t + 2 \<le> n \<longrightarrow> parse n t \<noteq> Short) \<and>
   (3 * length t + 1 \<le> n \<longrightarrow> t \<noteq> [] \<longrightarrow> parse_list n t \<noteq> Short) \<and>
   (3 * length t + 3 \<le> n \<longrightarrow> \<not> is_whitespace (here t) \<longrightarrow> here t \<noteq> CHR '';'' \<longrightarrow> here t \<noteq> CHR ''.'' \<longrightarrow>
     parse_items n t \<noteq> Short)"
proof (induction n arbitrary: t)
  case (Suc n)
  have P: "parse n u \<noteq> Short" if "3 * length u + 2 \<le> n" for u
    using Suc that by blast
  have I: "parse_items n (skip_ws u) \<noteq> Short" if "3 * length u + 3 \<le> n" "here (skip_ws u) \<noteq> CHR ''.''" for u
    using Suc [of "skip_ws u"] that skip_ws_here [of u] length_skip_ws [of u] by auto
  have tail: "(let r = skip_ws r in
       if here r = CHR ''.''
       then and_then (parse n (skip_ws (tl r))) (\<lambda>d q. Parsed (Pair x d) (after (CHR '')'') (skip_ws q)))
       else and_then (parse_items n r) (\<lambda>y. Parsed (Pair x y))) \<noteq> Short"
    if "3 * length r + 3 \<le> n" for r x
  proof -
    have "3 * length (skip_ws (tl (skip_ws r))) + 2 \<le> n"
      using length_skip_ws [of "tl (skip_ws r)"] length_skip_ws [of r] that by simp
    then show ?thesis
      using that P I by (auto simp: Let_def and_then_Short)
  qed
  have "parse (Suc n) t \<noteq> Short" if n: "3 * length t + 2 \<le> Suc n"
  proof -
    let ?t = "skip_ws t"
    have l: "length ?t \<le> length t" by (rule length_skip_ws)
    have t1: "3 * length (tl ?t) + 2 \<le> n" if "here ?t \<noteq> NUL"
      using length_tl_here [OF that] l n by simp
    then have t2: "3 * length (tl (tl ?t)) + 2 \<le> n" if "here ?t \<noteq> NUL"
      using that by fastforce
    have q: "and_then (parse n u) (\<lambda>x. Parsed (quoted name x)) \<noteq> Short" if "3 * length u + 2 \<le> n" for u name
      using P [OF that] by (auto simp: and_then_Short)
    have lst: "parse_list n ?t \<noteq> Short" if "here ?t = CHR ''(''"
      using Suc [of ?t] l n that by (auto simp: here_def NUL_def split: list.splits)
    have cmt: "and_then (parse n (tl (tl ?t))) (\<lambda>_. parse n) \<noteq> Short" if "here ?t \<noteq> NUL"
    proof (rule not_short_and_then [OF P [OF t2 [OF that]]], rule P)
      fix x r assume "parse n (tl (tl ?t)) = Parsed x r"
      then have "length r \<le> length (tl (tl ?t))"
        using parse_shorter [of "tl (tl ?t)" n] by (simp add: shorter_def)
      with t2 [OF that] show "3 * length r + 2 \<le> n" by simp
    qed
    have str: "(case string_loop 119 (tl ?t) of None \<Rightarrow> Overrun
        | Some (str, r) \<Rightarrow> Parsed (Str str) (after (CHR 0x22) r)) \<noteq> Short"
      by (simp split: option.split prod.split)
    have num: "parse_int ?t \<noteq> Short" "(let (n, r) = hex_loop 0 (tl (tl ?t)) in Parsed (Num n) r) \<noteq> Short"
      "(let (name, r) = symbol_loop 63 ?t in Parsed (Sym name) r) \<noteq> Short"
      by (simp_all add: parse_int_def split: prod.split)
    consider "here ?t = NUL" | "here ?t \<noteq> NUL" by blast
    then show ?thesis
    proof cases
      case 1
      then show ?thesis by (simp add: Let_def NUL_def is_digit_def schar_def uchar_def)
    next
      case 2
      note f = str lst q [OF t1 [OF 2]] q [OF t2 [OF 2]] cmt [OF 2] num
      show ?thesis
        unfolding parse.simps Let_def
        using f by (simp add: Let_def del: not_None_eq split del: if_split) (simp add: Let_def)
    qed
  qed
  moreover have "parse_list (Suc n) t \<noteq> Short" if n: "3 * length t + 1 \<le> Suc n" "t \<noteq> []"
  proof -
    let ?t = "skip_ws (tl t)"
    have l: "3 * length ?t + 3 \<le> n"
      using n length_skip_ws [of "tl t"] by (cases t) auto
    then have e: "parse n ?t \<noteq> Short" by (intro P) simp
    have "3 * length r + 3 \<le> n" if "parse n ?t = Parsed x r" for x r
      using l that parse_shorter [of ?t n] by (auto simp: shorter_def)
    with e tail show ?thesis
      by (auto simp: Let_def and_then_Short)
  qed
  moreover have "parse_items (Suc n) t \<noteq> Short" if n: "3 * length t + 3 \<le> Suc n"
    and b: "\<not> is_whitespace (here t)" "here t \<noteq> CHR '';''" "here t \<noteq> CHR ''.''"
  proof (cases "here t \<noteq> NUL \<and> here t \<noteq> CHR '')''")
    case True
    with b have "begins t" by (simp add: begins_def)
    then have "3 * length r + 3 \<le> n" if "parse n t = Parsed x r" for x r
      using parse_progress [OF _ that] n by simp
    with True P [of t] n tail show ?thesis
      by (auto simp: Let_def and_then_Short)
  qed auto
  ultimately show ?case by blast
qed simp

section \<open>What the printer writes is read back\<close>

definition ends :: "string \<Rightarrow> bool" where
  "ends r \<longleftrightarrow> \<not> is_sym_char (here r)"

text \<open>Names that are read as symbols, and data that the printed text determines.\<close>

definition plain_name :: "string \<Rightarrow> bool" where
  "plain_name name \<longleftrightarrow> name \<noteq> [] \<and> length name \<le> 63 \<and> (\<forall>c\<in>set name. is_sym_char c) \<and>
     hd name \<noteq> CHR 0x22 \<and> hd name \<noteq> CHR '';'' \<and> \<not> is_digit (hd name) \<and>
     \<not> (hd name = CHR ''-'' \<and> is_digit (here (tl name))) \<and>
     \<not> (hd name = CHR 0x23 \<and> here (tl name) \<in> set ''xtf_'')"

fun readable :: "datum \<Rightarrow> bool" where
  "readable (Num n) \<longleftrightarrow> - 2097152 \<le> sint n \<and> sint n < 2097152"
| "readable (Sym name) \<longleftrightarrow> plain_name name"
| "readable (Str cs) \<longleftrightarrow> length cs \<le> 119 \<and> NUL \<notin> set cs"
| "readable (Pair x y) \<longleftrightarrow> readable x \<and> readable y"

lemma schar_digit: "d < 10 \<Longrightarrow> schar (char_of (48 + d :: nat)) = 48 + int d"
  by (simp add: schar_def uchar_def)

lemma is_digit_char: "d < 10 \<Longrightarrow> is_digit (char_of (48 + d :: nat))"
proof -
  assume "d < 10"
  moreover have "schar (CHR ''0'') = 48" "schar (CHR ''9'') = 57"
    by (simp_all add: schar_def uchar_def)
  ultimately show ?thesis
    by (simp add: is_digit_def schar_digit)
qed

lemma digit_sym: "is_digit c \<Longrightarrow> is_sym_char c"
  by (auto simp: is_digit_def is_sym_char_def is_whitespace_def NUL_def schar_def uchar_def)

lemma int_loop_digits: "int_loop 0 (rev (digits_rev k) @ r) = int_loop (of_nat k) r"
proof (induction k arbitrary: r rule: digits_rev.induct)
  case (1 k)
  show ?case
  proof (cases "k = 0")
    case True
    then show ?thesis by (simp add: digits_rev.simps)
  next
    case False
    have "int_loop 0 (rev (digits_rev k) @ r) = int_loop (of_nat (k div 10)) (char_of (48 + k mod 10) # r)"
      using False 1 [of "char_of (48 + k mod 10) # r"] by (subst digits_rev.simps) simp
    also have "\<dots> = int_loop (of_nat (k div 10) * 10 + of_nat (k mod 10)) r"
    proof -
      have "schar (CHR ''0'') = 48" by (simp add: schar_def uchar_def)
      then show ?thesis by (simp add: is_digit_char schar_digit)
    qed
    also have "of_nat (k div 10) * 10 + of_nat (k mod 10) = (of_nat (k div 10 * 10 + k mod 10) :: i24)"
      by (simp only: of_nat_add of_nat_mult of_nat_numeral)
    finally show ?thesis by simp
  qed
qed

lemma int_loop_stop: "\<not> is_digit (here r) \<Longrightarrow> int_loop n r = (n, r)"
  by (cases r) (auto simp: here_def)

lemma digits_first:
  "0 < k \<Longrightarrow> is_digit (here (rev (digits_rev k) @ r))"
proof (induction k arbitrary: r rule: digits_rev.induct)
  case (1 k)
  have e: "rev (digits_rev k) @ r = rev (digits_rev (k div 10)) @ char_of (48 + k mod 10) # r"
    using 1(2) by (subst digits_rev.simps) simp
  show ?case
  proof (cases "k div 10 = 0")
    case True
    then show ?thesis by (simp add: e digits_rev.simps [of 0] here_def is_digit_char)
  next
    case False
    with 1 e show ?thesis by simp
  qed
qed

lemma parse_int_text:
  assumes "\<not> is_digit (here r)" and range: "- 2097152 \<le> sint n" "sint n < 2097152"
  shows "parse_int (int_text n @ r) = Parsed (Num n) r"
    and "is_digit (here (int_text n @ r)) \<or>
      here (int_text n @ r) = CHR ''-'' \<and> is_digit (here (tl (int_text n @ r)))"
proof -
  have nd: "\<not> is_digit (CHR ''-'')" and d0: "is_digit (CHR ''0'')" and s0: "schar (CHR ''0'') = 48"
    by (simp_all add: is_digit_def schar_def uchar_def)
  have unsigned: "parse_int t = Parsed (Num n) r" if "is_digit (here t)" "int_loop 0 t = (n, r)" for t
    using that nd by (auto simp: parse_int_def after_def)
  consider (neg) "sint n < 0" | (zero) "n = 0" | (pos) "0 < sint n"
    by (metis linorder_neqE_linordered_idom sint_0 signed_eq_0_iff)
  then have "parse_int (int_text n @ r) = Parsed (Num n) r \<and> (is_digit (here (int_text n @ r)) \<or>
      here (int_text n @ r) = CHR ''-'' \<and> is_digit (here (tl (int_text n @ r))))"
  proof cases
    case neg
    let ?k = "nat (sint (0 - n))"
    have "sint (0 - n) = - sint n"
      using neg range by (simp add: sint_word_ariths signed_take_bit_int_eq_self)
    then have k: "0 < ?k" "of_nat ?k = - n"
      using neg by simp_all
    have "here (int_text n @ r) = CHR ''-''" "tl (int_text n @ r) = rev (digits_rev ?k) @ r"
      using neg by (simp_all add: int_text_def here_def)
    then show ?thesis
      using digits_first [OF k(1), of r] k(2) assms(1)
      by (simp add: parse_int_def after_def int_loop_digits int_loop_stop)
  next
    case zero
    then show ?thesis
      using d0 s0 assms unsigned [of "int_text n @ r"] by (simp add: int_text_def here_def [of "_ # _"] int_loop_stop)
  next
    case pos
    have "of_nat (nat (sint n)) = n" using pos by simp
    then show ?thesis
      using pos assms digits_first [of "nat (sint n)" r] by (auto simp: int_text_def int_loop_digits int_loop_stop intro!: unsigned)
  qed
  then show "parse_int (int_text n @ r) = Parsed (Num n) r"
    and "is_digit (here (int_text n @ r)) \<or>
      here (int_text n @ r) = CHR ''-'' \<and> is_digit (here (tl (int_text n @ r)))"
    by blast+
qed

lemma symbol_loop_name:
  "\<forall>c\<in>set name. is_sym_char c \<Longrightarrow> length name \<le> k \<Longrightarrow> ends r \<Longrightarrow> symbol_loop k (name @ r) = (name, r)"
proof (induction name arbitrary: k)
  case Nil
  then show ?case by (cases k; cases r) (auto simp: ends_def here_def)
next
  case (Cons c cs)
  then obtain j where "k = Suc j" by (cases k) auto
  with Cons show ?case by simp
qed

lemma string_loop_text:
  "length cs \<le> k \<Longrightarrow> string_loop k (concat (map escape cs) @ CHR 0x22 # r) = Some (cs, CHR 0x22 # r)"
proof (induction cs arbitrary: k)
  case Nil
  then show ?case by (cases k) auto
next
  case (Cons c cs)
  then obtain j where "k = Suc j" by (cases k) auto
  with Cons show ?case by (auto simp: escape_def unescape_def)
qed

text \<open>Text of a datum begins an expression.\<close>

lemma sym_begins: "is_sym_char (here t) \<Longrightarrow> here t \<noteq> CHR '';'' \<Longrightarrow> begins t"
  by (auto simp: is_sym_char_def begins_def)

lemma shown_begins:
  assumes "readable x" and "ends r"
  shows "begins (shown x @ r)"
proof (cases x)
  case (Num n)
  with assms(1) have e: "FIXNUM_VAL (MAKE_FIXNUM n) = n"
    by (simp add: fixnum_round_trip)
  have "is_sym_char (CHR ''-'')" "\<not> is_digit (CHR '';'')"
    by (simp_all add: is_sym_char_def is_whitespace_def NUL_def is_digit_def schar_def uchar_def)
  moreover have "\<not> is_digit (here r)" using assms(2) digit_sym by (auto simp: ends_def)
  ultimately show ?thesis
    using Num assms(1) parse_int_text(2) [of r n] e digit_sym by (intro sym_begins) auto
next
  case (Sym name)
  with assms(1) show ?thesis
    by (cases name) (auto simp: plain_name_def here_def intro!: sym_begins)
qed (auto simp: begins_def here_def is_whitespace_def NUL_def)

lemma ends_tail: "ends (shown_tail y @ r)"
  by (cases y) (auto simp: ends_def here_def is_sym_char_def is_whitespace_def)

lemma begins_skip: "begins t \<Longrightarrow> skip_ws t = t"
  by (auto simp: begins_def intro: skip_ws_idle)

lemma parse_number:
  assumes num: "is_digit (here t) \<or> here t = CHR ''-'' \<and> is_digit (here (tl t))"
  shows "parse (Suc n) t = parse_int t"
proof -
  have f: "here t \<noteq> CHR 0x22" "here t \<noteq> CHR ''(''" "here t \<noteq> CHR 0x27" "here t \<noteq> CHR 0x60" "here t \<noteq> CHR '',''"
    "here t \<noteq> CHR 0x23" "is_sym_char (here t)" "here t \<noteq> CHR '';''"
    using num digit_sym by (auto simp: is_digit_def schar_def uchar_def is_sym_char_def is_whitespace_def NUL_def)
  then have "skip_ws t = t" by (intro begins_skip sym_begins)
  with num f show ?thesis by (auto simp: Let_def)
qed

lemma parse_symbol:
  assumes "plain_name name" and "ends r"
  shows "parse (Suc n) (name @ r) = Parsed (Sym name) r"
proof -
  from assms(1) obtain c cs where n: "name = c # cs" by (cases name) (auto simp: plain_name_def)
  let ?t = "name @ r"
  have c: "is_sym_char c" "c \<noteq> CHR 0x22" "c \<noteq> CHR '';''" "\<not> is_digit c" "here ?t = c"
    using assms(1) n by (auto simp: plain_name_def here_def)
  have h: "here (tl ?t) = (if cs = [] then here r else here cs)"
    using n by (cases cs) (auto simp: here_def)
  have r: "here r \<notin> set ''xtf_''" "\<not> is_digit (here r)"
    using assms(2) digit_sym by (auto simp: ends_def is_sym_char_def is_whitespace_def NUL_def)
  have h2: "\<not> (c = CHR ''-'' \<and> is_digit (here (tl ?t)))" "\<not> (c = CHR 0x23 \<and> here (tl ?t) \<in> set ''xtf_'')"
    using assms(1) n h r by (auto simp: plain_name_def split: if_splits)
  have "begins ?t" using c by (intro sym_begins) auto
  then have sk: "skip_ws ?t = ?t" by (rule begins_skip)
  have "symbol_loop 63 ?t = (name, r)"
    using assms by (intro symbol_loop_name) (auto simp: plain_name_def)
  moreover have "c \<noteq> CHR ''(''" "c \<noteq> CHR 0x27" "c \<noteq> CHR 0x60" "c \<noteq> CHR '',''" "c \<noteq> NUL" "c \<noteq> CHR '')''"
    using c(1) by (auto simp: is_sym_char_def)
  ultimately show ?thesis
    using c h2 by (auto simp: Let_def sk)
qed

lemma parse_string:
  assumes "length cs \<le> 119"
  shows "parse (Suc n) (CHR 0x22 # concat (map escape cs) @ CHR 0x22 # r) = Parsed (Str cs) r"
proof -
  have "skip_ws (CHR 0x22 # u) = CHR 0x22 # u" for u
    by (rule begins_skip) (simp add: begins_def here_def is_whitespace_def NUL_def)
  moreover have "here (CHR 0x22 # u) = CHR 0x22" for u by (simp add: here_def)
  ultimately show ?thesis
    using string_loop_text [OF assms, of r] by (simp add: Let_def after_def)
qed

text \<open>The rest of a list after its element \<open>x\<close>.\<close>

definition continue :: "nat \<Rightarrow> datum \<Rightarrow> string \<Rightarrow> parsed" where
  "continue n x r = (let r = skip_ws r in
     if here r = CHR ''.''
     then and_then (parse n (skip_ws (tl r))) (\<lambda>d q. Parsed (Pair x d) (after (CHR '')'') (skip_ws q)))
     else and_then (parse_items n r) (\<lambda>y. Parsed (Pair x y)))"

lemma parse_list_continue:
  "parse_list (Suc n) u = (let t = skip_ws (tl u) in
     if here t = CHR '')'' then Parsed nil (tl t) else and_then (parse n t) (continue n))"
  by (simp add: continue_def [abs_def] Let_def)

lemma parse_items_continue:
  "parse_items (Suc n) t = (if here t \<noteq> NUL \<and> here t \<noteq> CHR '')'' then and_then (parse n t) (continue n)
     else Parsed nil (after (CHR '')'') t))"
  by (simp add: continue_def [abs_def] Let_def)

lemma skip_space: "skip_ws (CHR '' '' # t) = skip_ws t"
  by (subst skip_ws.simps) (simp add: here_def is_whitespace_def)

lemma skip_other: "begins t \<or> here t = CHR ''.'' \<or> here t = CHR '')'' \<Longrightarrow> skip_ws t = t"
  by (rule skip_ws_idle) (auto simp: begins_def is_whitespace_def)

text \<open>The cdr of a list that is not a pair: \<open>nil\<close>, or written after a dot.\<close>

lemma continue_dot:
  assumes "readable y" and "\<And>r. ends r \<Longrightarrow> parse n (shown y @ r) \<in> {Short, Parsed y r}"
  shows "continue n x ('' . '' @ shown y @ '')'' @ r) \<in> {Short, Parsed (Pair x y) r}"
proof -
  let ?u = "shown y @ '')'' @ r"
  have e: "ends ('')'' @ r)" by (simp add: ends_def here_def is_sym_char_def)
  have d: "skip_ws ('' . '' @ ?u) = ''. '' @ ?u"
    by (simp add: skip_space skip_other here_def)
  have u: "skip_ws ('' '' @ ?u) = ?u"
    by (simp add: skip_space begins_skip [OF shown_begins [OF assms(1) e, simplified]])
  have "skip_ws ('')'' @ r) = '')'' @ r"
    by (simp add: skip_other here_def)
  then show ?thesis
    using d u assms(2) [OF e] by (auto simp: continue_def Let_def here_def after_def)
qed

lemma continue_nil: "continue n x ('')'' @ r) \<in> {Short, Parsed (Pair x nil) r}"
proof -
  have "skip_ws ('')'' @ r) = '')'' @ r" by (simp add: skip_other here_def)
  then show ?thesis
    by (cases n) (auto simp: continue_def Let_def here_def after_def)
qed

lemma parse_shown:
  assumes "readable x"
  shows "ends r \<Longrightarrow> parse n (shown x @ r) \<in> {Short, Parsed x r}"
    and "continue n w (shown_tail x @ r) \<in> {Short, Parsed (Pair w x) r}"
  using assms
proof (induction x arbitrary: n r w)
  case (Num k)
  have P: "parse n (shown (Num k) @ r) \<in> {Short, Parsed (Num k) r}" if "ends r" "readable (Num k)" for n r
  proof (cases n)
    case (Suc m)
    have "\<not> is_digit (here r)" using that(1) digit_sym by (auto simp: ends_def)
    then show ?thesis
      using that(2) parse_int_text [of r k] parse_number [of "int_text k @ r" m]
      by (simp add: Suc fixnum_round_trip del: parse.simps)
  qed simp
  {
    case 1
    show ?case by (rule P [OF 1])
  next
    case 2
    then show ?case using continue_dot [OF 2 P [OF _ 2]] by simp
  }
next
  case (Sym name)
  have P: "parse n (shown (Sym name) @ r) \<in> {Short, Parsed (Sym name) r}" if "ends r" "readable (Sym name)" for n r
    using that(2) parse_symbol [OF _ that(1), of name] by (cases n) (auto simp del: parse.simps(2))
  {
    case 1
    show ?case by (rule P [OF 1])
  next
    case 2
    then show ?case using continue_dot [OF 2 P [OF _ 2]] continue_nil by (simp add: nil_def)
  }
next
  case (Str cs)
  have P: "parse n (shown (Str cs) @ r) \<in> {Short, Parsed (Str cs) r}" if "readable (Str cs)" for n r
    using that parse_string [of cs _ r] by (cases n) (auto simp del: parse.simps(2))
  {
    case 1
    show ?case by (rule P [OF 1(2)])
  next
    case 2
    then show ?case using continue_dot [OF 2 P [OF 2]] by simp
  }
next
  case (Pair x y)
  have L: "begins (shown x @ shown_tail y @ r)" if "readable (Pair x y)" for r
    using that by (intro shown_begins ends_tail) auto
  {
    case 1
    have X: "parse n (shown x @ shown_tail y @ r) \<in> {Short, Parsed x (shown_tail y @ r)}" for n
      using 1 by (intro Pair.IH(1) ends_tail) auto
    have Y: "continue n x (shown_tail y @ r) \<in> {Short, Parsed (Pair x y) r}" for n
      using 1 by (intro Pair.IH(4)) auto
    have s: "skip_ws (''('' @ u) = ''('' @ u" for u
      by (simp add: begins_skip begins_def here_def is_whitespace_def NUL_def)
    show ?case
    proof (cases n)
      case (Suc m)
      then have "parse n (shown (Pair x y) @ r) = parse_list m (shown (Pair x y) @ r)"
        using s by (simp add: Let_def here_def)
      moreover have "parse_list m (shown (Pair x y) @ r) \<in> {Short, Parsed (Pair x y) r}"
      proof (cases m)
        case (Suc l)
        have "here (shown x @ shown_tail y @ r) \<noteq> CHR '')''"
          using L [OF 1(2), of r] by (auto simp: begins_def)
        with X [of l] Y [of l] show ?thesis
          by (auto simp: Suc parse_list_continue begins_skip [OF L [OF 1(2)]] simp del: parse_list.simps)
      qed simp
      ultimately show ?thesis by metis
    qed simp
  next
    case 2
    have X: "parse n (shown x @ shown_tail y @ r) \<in> {Short, Parsed x (shown_tail y @ r)}" for n
      using 2 by (intro Pair.IH(1) ends_tail) auto
    have Y: "continue n x (shown_tail y @ r) \<in> {Short, Parsed (Pair x y) r}" for n
      using 2 by (intro Pair.IH(4)) auto
    have s: "skip_ws ('' '' @ shown x @ shown_tail y @ r) = shown x @ shown_tail y @ r"
      by (simp add: skip_space begins_skip [OF L [OF 2]])
    have h: "here (shown x @ shown_tail y @ r) \<notin> {NUL, CHR '')'', CHR ''.''}"
      using L [OF 2, of r] by (auto simp: begins_def)
    have "parse_items n (shown x @ shown_tail y @ r) \<in> {Short, Parsed (Pair x y) r}"
    proof (cases n)
      case (Suc l)
      with X [of l] Y [of l] h show ?thesis
        by (auto simp: parse_items_continue simp del: parse_items.simps)
    qed simp
    with s h show ?case
      by (auto simp: continue_def Let_def)
  }
qed

lemma NUL_digits_rev: "NUL \<notin> set (digits_rev k)"
proof (induction k rule: digits_rev.induct)
  case (1 k)
  have "char_of (48 + k mod 10) \<noteq> NUL"
  proof
    assume "char_of (48 + k mod 10) = NUL"
    then have "is_digit NUL" using is_digit_char [of "k mod 10"] by simp
    then show False by (simp add: is_digit_def schar_def uchar_def NUL_def)
  qed
  with 1 show ?case by (subst digits_rev.simps) auto
qed

lemma NUL_int_text: "NUL \<notin> set (int_text n)"
  using NUL_digits_rev by (auto simp: int_text_def NUL_def)

lemma NUL_shown:
  "readable x \<Longrightarrow> NUL \<notin> set (shown x)" and "readable x \<Longrightarrow> NUL \<notin> set (shown_tail x)"
proof (induction x)
  case (Num k)
  { case 1 then show ?case using NUL_int_text by simp
  next case 2 then show ?case using NUL_int_text by (auto simp: NUL_def) }
next
  case (Sym name)
  have "readable (Sym name) \<Longrightarrow> NUL \<notin> set name"
    by (auto simp: plain_name_def is_sym_char_def)
  then show "readable (Sym name) \<Longrightarrow> NUL \<notin> set (shown (Sym name))"
    "readable (Sym name) \<Longrightarrow> NUL \<notin> set (shown_tail (Sym name))"
    by (auto simp: NUL_def)
next
  case (Str cs)
  have "NUL \<notin> set cs \<Longrightarrow> NUL \<notin> set (concat (map escape cs))"
    by (auto simp: escape_def NUL_def)
  then show "readable (Str cs) \<Longrightarrow> NUL \<notin> set (shown (Str cs))"
    "readable (Str cs) \<Longrightarrow> NUL \<notin> set (shown_tail (Str cs))"
    by (auto simp: NUL_def)
next
  case (Pair x y)
  { case 1 with Pair.IH show ?case by (auto simp: NUL_def)
  next case 2 with Pair.IH show ?case by (auto simp: NUL_def) }
qed

end
