(* ===== verification/Tml_Runtime.thy ===== *)
theory Tml_Runtime
  imports Tml_Read_Print
begin

text \<open>
  The runtime of the Lisp as a whole: the state at its start, and what holds of its allocator,
  collector, symbol table, strings, reader and printer.
\<close>

section \<open>The runtime at its start\<close>

text \<open>C zeroes the globals; \<open>main\<close> runs the initialisers.\<close>

definition zeroed :: lisp where
  "zeroed = \<lparr>heap_car = \<lambda>_. 0, heap_cdr = \<lambda>_. 0, heap_next = 0, gc_enabled = False, heap_mark = \<lambda>_. False,
     free_list = 0, gc_roots = \<lambda>_. 0, gc_root_count = 0, gc_collections = 0, c_stack = [],
     name_pool = \<lambda>_. NUL, name_pool_next = 0, sym_name_off = \<lambda>_. 0, sym_count = 0,
     str_pool = \<lambda>_. NUL, str_pool_next = 0, read_ptr = [], global_env = 0, special_sym = \<lambda>_. 0,
     gensym_counter = 0, catch_tags = \<lambda>_. 0, catch_vals = \<lambda>_. 0, catch_depth = 0, catch_throwing = False,
     catch_target = 0, wind_after = \<lambda>_. 0, wind_depth = 0, uart_in = [], uart_out = []\<rparr>"

definition init_runtime :: "unit act" where
  "init_runtime = bnd (upd (\<lambda>s. s\<lparr>gc_enabled := False\<rparr>)) (\<lambda>_. bnd heap_init (\<lambda>_. bnd gc_init (\<lambda>_.
     bnd symbol_init (\<lambda>_. string_init))))"

lemma init_runtime_ok:
  assumes "\<not> IS_PTR (global_env s)" and "wind_depth s = 0" and "catch_depth s = 0"
  shows "\<exists>s'. init_runtime s = Done () s' \<and> state_ok [''nil'', ''t''] s' \<and> str_pool_next s' = 0 \<and>
    \<not> gc_enabled s' \<and> uart_out s' = uart_out s \<and> heap_next s' = 0 \<and> free_list s' = -1 \<and> c_stack s' = []"
proof -
  let ?s = "s\<lparr>gc_enabled := False, heap_next := 0, free_list := -1, gc_root_count := 0, gc_collections := 0, c_stack := []\<rparr>"
  have c: "count_to (0 :: i24) = 0" by (simp add: count_to_def)
  from symbol_init_spec [of ?s] obtain s1 where s1: "symbol_init ?s = Done () s1" "symtab s1 [''nil'', ''t'']"
    "sym_frame ?s s1" by blast
  let ?t = "s1\<lparr>str_pool_next := 0\<rparr>"
  have h: "same_heap ?s ?t"
    using s1(3) by (auto simp: sym_frame_def same_heap_def)
  have "free_ok ?s []" by (simp add: free_ok_def)
  moreover from this have "used ?s = {}"
    using used_free c by fastforce
  ultimately have "heap_ok ?s"
    using assms c by (auto simp: heap_ok_def counts_ok_def own_roots_def sound_def)
  then have "heap_ok ?t" using same_heap_facts(4) [OF h] by simp
  moreover have "symtab ?t [''nil'', ''t'']" using s1(2) by (simp add: symtab_def)
  moreover have "init_runtime s = Done () ?t"
    using s1(1) by (simp add: init_runtime_def heap_init_def gc_init_def string_init_def bnd_step)
  moreover have "\<not> gc_enabled ?t" "uart_out ?t = uart_out s" "heap_next ?t = 0" "free_list ?t = -1" "c_stack ?t = []"
    using s1(3) by (auto simp: sym_frame_def)
  ultimately show ?thesis
    by (intro exI [of _ ?t]) (simp add: state_ok_def)
qed


lemma started: "\<exists>s. init_runtime zeroed = Done () s \<and> state_ok [''nil'', ''t''] s \<and> str_pool_next s = 0 \<and>
    \<not> gc_enabled s \<and> uart_out s = [] \<and> heap_next s = 0 \<and> free_list s = -1 \<and> c_stack s = []"
  using init_runtime_ok [of zeroed] by (simp add: zeroed_def IS_PTR_def tag_defs)

section \<open>Memory\<close>

text \<open>C22: The allocator never hands out a cell that is reachable: the cell is new, every live
  cell keeps its contents, and the heap stays well formed.  It panics only when every cell of
  the heap is reachable.\<close>

theorem allocation_safe:
  assumes "heap_ok s"
  shows "(\<exists>i s'. gc_alloc_cell s = Done (of_nat i) s' \<and> i < HEAP_SIZE \<and> i \<notin> live s \<and> heap_ok s' \<and>
      heap_car s' i = NIL_VAL \<and> heap_cdr s' i = NIL_VAL \<and>
      (\<forall>j\<in>live s. heap_car s' j = heap_car s j \<and> heap_cdr s' j = heap_cdr s j)) \<or>
    (\<exists>s'. gc_alloc_cell s = Halted s' \<and> reachable s = {..<HEAP_SIZE})"
  using gc_alloc_fresh [OF assms] by (auto simp: fresh_cell_def extends_def)

lemma allocation_safe_witness:
  "\<exists>s i s'. init_runtime zeroed = Done () s \<and> gc_alloc_cell s = Done (of_nat i) s' \<and> i < HEAP_SIZE \<and> i \<notin> live s"
proof -
  from started obtain s where s: "init_runtime zeroed = Done () s" "state_ok [''nil'', ''t''] s"
    "heap_next s = 0" "free_list s = -1" by blast
  then have ok: "heap_ok s" by (simp add: state_ok_def)
  have "\<nexists>s'. gc_alloc_cell s = Halted s'"
    using s by (simp add: gc_alloc_cell_def bump_def poke_car_def poke_cdr_def bnd_def HEAP_SIZE_def)
  with allocation_safe [OF ok] s(1) show ?thesis by blast
qed

text \<open>A pair is built from two well-formed values whatever collection happens on the way: the
  cell is new and holds them, and what they refer to is kept.\<close>

lemma cons_safe:
  assumes "heap_ok s" and "sound s a" and "sound s d"
  shows "(\<exists>i s'. cons a d s = Done (MAKE_CONS (of_nat i)) s' \<and> i < HEAP_SIZE \<and> i \<notin> live s \<and> heap_ok s' \<and>
      heap_car s' i = a \<and> heap_cdr s' i = d \<and>
      (\<forall>j\<in>live s \<union> reach (heap_car s) (heap_cdr s) {a, d}.
        heap_car s' j = heap_car s j \<and> heap_cdr s' j = heap_cdr s j \<and> j \<in> used s')) \<or>
    (\<exists>s'. cons a d s = Halted s')"
proof -
  consider v s' where "cons a d s = Done v s'" | "\<exists>s'. cons a d s = Halted s'"
    using cells.make_cell_outcome [OF assms(1)] cons_make_cell by metis
  then show ?thesis
  proof cases
    case (1 v s')
    from cells.make_cell_fresh [OF 1 [unfolded cons_make_cell] assms] obtain i where
      i: "v = MAKE_CONS (of_nat i)" "i < HEAP_SIZE" "i \<notin> live s" "extends s s'" "heap_car s' i = a" "heap_cdr s' i = d"
      and k: "\<forall>w j. w \<in> set [a, d] \<longrightarrow> sound s w \<longrightarrow> j \<in> reach (heap_car s) (heap_cdr s) {w} \<longrightarrow>
        heap_car s' j = heap_car s j \<and> heap_cdr s' j = heap_cdr s j \<and> j \<in> used s' \<and> j \<noteq> i"
      by auto
    have "reach (heap_car s) (heap_cdr s) {a, d} \<subseteq>
        reach (heap_car s) (heap_cdr s) {a} \<union> reach (heap_car s) (heap_cdr s) {d}"
    proof (rule reach_closed)
      fix j l assume "j \<in> reach (heap_car s) (heap_cdr s) {a} \<union> reach (heap_car s) (heap_cdr s) {d}"
        "(j, l) \<in> edges (heap_car s) (heap_cdr s)"
      then show "l \<in> reach (heap_car s) (heap_cdr s) {a} \<union> reach (heap_car s) (heap_cdr s) {d}"
        by (auto intro: reach_edge)
    qed (auto intro: reach_root)
    with k assms(2,3) have "\<forall>j\<in>reach (heap_car s) (heap_cdr s) {a, d}.
        heap_car s' j = heap_car s j \<and> heap_cdr s' j = heap_cdr s j \<and> j \<in> used s'"
      by fastforce
    with 1 i show ?thesis
      by (intro disjI1 exI [of _ i] exI [of _ s']) (auto simp: extends_def)
  qed blast
qed

lemma cons_safe_witness:
  "\<exists>s s'. init_runtime zeroed = Done () s \<and> cons (MAKE_FIXNUM 1) NIL_VAL s = Done (MAKE_CONS 0) s' \<and>
     heap_ok s' \<and> heap_car s' 0 = MAKE_FIXNUM 1"
proof -
  from started obtain s where s: "init_runtime zeroed = Done () s" "state_ok [''nil'', ''t''] s"
    "heap_next s = 0" "free_list s = -1" "\<not> gc_enabled s" by blast
  have snd: "sound s (MAKE_FIXNUM 1)" "sound s NIL_VAL"
    by (simp_all add: sound_def IS_PTR_def)
  have c: "cons (MAKE_FIXNUM 1) NIL_VAL s = Done (MAKE_CONS 0) t \<Longrightarrow> True" for t by simp
  have "\<exists>s'. cons (MAKE_FIXNUM 1) NIL_VAL s = Done (MAKE_CONS 0) s'"
    using s by (simp add: cons_def hold_def alloc_cell_def bump_def poke_car_def poke_cdr_def bnd_def HEAP_SIZE_def)
  then obtain s' where r: "cons (MAKE_FIXNUM 1) NIL_VAL s = Done (MAKE_CONS 0) s'" by blast
  moreover have "i = 0" if "MAKE_CONS 0 = MAKE_CONS (of_nat i)" "i < HEAP_SIZE" for i
    using that cell_of_make(1) [of i] cell_of_make(1) [of 0] by (simp add: HEAP_SIZE_def)
  ultimately show ?thesis
    using cons_safe [OF _ snd] s by (auto simp: state_ok_def)
qed

text \<open>C23: A collection keeps every cell that is reachable from the roots of the runtime or from
  the words of the C stack, as it is, and leaves in the free list exactly the other cells.\<close>

theorem collection_exact:
  assumes "count_to (heap_next s) \<le> HEAP_SIZE" and "counts_ok s"
    and "reachable s \<subseteq> {..<count_to (heap_next s)}"
  shows "\<exists>s'. gc_collect s = Done () s' \<and>
    (\<forall>i\<in>reachable s. heap_car s' i = heap_car s i \<and> heap_cdr s' i = heap_cdr s i) \<and>
    chain (heap_cdr s') (free_list s') (filter (\<lambda>i. i \<notin> reachable s) [0..<count_to (heap_next s)]) \<and>
    own_roots s' = own_roots s \<and> c_stack s' = c_stack s"
  using gc_collect_spec [OF assms] by (auto simp: own_roots_def)

text \<open>The state of a witness: cell 0 is reachable from the environment, cell 1 is garbage.\<close>

definition two_cells :: lisp where
  "two_cells = zeroed\<lparr>heap_next := 2, free_list := -1, global_env := MAKE_CONS 0, c_stack := []\<rparr>"

lemma two_cells_reachable: "reachable two_cells = {0}"
proof -
  have c: "cell_of (MAKE_CONS 0) = 0" using cell_of_make(1) [of 0] by simp
  have r: "all_roots two_cells = {MAKE_CONS 0}"
    by (simp add: all_roots_def own_roots_def two_cells_def zeroed_def count_to_def)
  have "reachable two_cells \<subseteq> {0}"
    unfolding reachable_def r by (rule reach_closed) (auto simp: c two_cells_def zeroed_def IS_PTR_def tag_defs elim!: edges_E)
  moreover have "0 \<in> reachable two_cells"
    unfolding reachable_def r using reach_root [of "MAKE_CONS 0" "{MAKE_CONS 0}"] c by (simp add: IS_PTR_def)
  ultimately show ?thesis by blast
qed

lemma collection_exact_witness:
  "\<exists>s'. gc_collect two_cells = Done () s' \<and> chain (heap_cdr s') (free_list s') [1]"
proof -
  have n: "count_to (heap_next two_cells) = 2" by (simp add: two_cells_def count_to_def)
  have c: "counts_ok two_cells" by (simp add: counts_ok_def two_cells_def zeroed_def count_to_def)
  have "[0..<2] = [0, 1]" by (simp add: upt_rec)
  with collection_exact [OF _ c] n two_cells_reachable show ?thesis
    by (auto simp: HEAP_SIZE_def)
qed

text \<open>
  A marked cell of the heap has had its cdr marked too, so that the cdr is no pointer out of
  the heap.
\<close>

definition marks_ok :: "lisp \<Rightarrow> bool" where
  "marks_ok s \<longleftrightarrow> (\<forall>i<count_to (heap_next s). heap_mark s i \<longrightarrow> IS_PTR (heap_cdr s i) \<longrightarrow>
     cell_of (heap_cdr s i) < HEAP_SIZE)"

lemma mark_cdr:
  "mark ca cd v M = Some M' \<Longrightarrow> M' i \<Longrightarrow> \<not> M i \<Longrightarrow> IS_PTR (cd i) \<Longrightarrow> cell_of (cd i) < HEAP_SIZE"
proof (induction ca cd v M arbitrary: M' rule: mark.induct)
  case (1 ca cd v M)
  show ?case
  proof (cases "IS_PTR v \<and> cell_of v < HEAP_SIZE \<and> \<not> M (cell_of v)")
    case True
    then obtain M1 where m1: "mark ca cd (ca (cell_of v)) (M(cell_of v := True)) = Some M1"
      and m2: "mark ca cd (cd (cell_of v)) M1 = Some M'"
      using "1.prems"(1) by (subst (asm) mark.simps) (auto split: option.splits)
    consider "i = cell_of v" | "i \<noteq> cell_of v" "M1 i" | "\<not> M1 i" by blast
    then show ?thesis
    proof cases
      case 1
      with m2 "1.prems"(4) show ?thesis
        by (subst (asm) mark.simps) (auto split: if_splits)
    next
      case 2
      with "1.IH"(1) [OF _ _ _ m1] "1.prems" True show ?thesis by auto
    next
      case 3
      with "1.IH"(2) [OF _ _ _ m1 m2] "1.prems" True show ?thesis by auto
    qed
  next
    case False
    with "1.prems" show ?thesis
      by (subst (asm) mark.simps) (auto split: if_splits)
  qed
qed

lemma mark_vals_ok:
  assumes "marks_ok s" and "\<And>M. marks_ok (s\<lparr>heap_mark := M\<rparr>) \<Longrightarrow> mark_vals vs s = Done () (s\<lparr>heap_mark := M\<rparr>) \<Longrightarrow>
    k () (s\<lparr>heap_mark := M\<rparr>) = Wild"
  shows "bnd (mark_vals vs) k s = Wild"
proof -
  have "mark_vals vs s = Wild \<or> (\<exists>M. mark_vals vs s = Done () (s\<lparr>heap_mark := M\<rparr>) \<and> marks_ok (s\<lparr>heap_mark := M\<rparr>))"
    using assms(1)
  proof (induction vs arbitrary: s)
    case Nil
    then show ?case by (auto intro: exI [of _ "heap_mark s"])
  next
    case (Cons v vs)
    show ?case
    proof (cases "mark (heap_car s) (heap_cdr s) v (heap_mark s)")
      case None
      then show ?thesis by (simp add: gc_mark_val_def bnd_def)
    next
      case (Some M)
      then have "marks_ok (s\<lparr>heap_mark := M\<rparr>)"
        using Cons.prems mark_cdr [OF Some] by (auto simp: marks_ok_def)
      from Cons.IH [OF this] Some show ?thesis
        by (auto simp: gc_mark_val_def bnd_def)
    qed
  qed
  with assms(2) show ?thesis by (auto simp: bnd_def)
qed

lemma entries_wild:
  "(\<And>rs. k rs s = Wild) \<Longrightarrow> bnd (\<lambda>s. entries n (a s) (c s) s) k s = Wild"
  by (simp add: bnd_def entries_def)

lemma gc_mark_val_vals: "gc_mark_val v = mark_vals [v]"
  by (auto simp: fun_eq_iff bnd_def split: outcome.split)

text \<open>C24: The collector trusts every word of the C stack that looks like a pointer into the heap.
  If it meets a word that denotes the last cell of the free list, it follows the end mark of the
  list, which reads as a pointer, and leaves \<open>heap_mark\<close>.\<close>

theorem stale_word_breaks_collector:
  assumes "w \<in> set (c_stack s)" and "stack_root (heap_next s) w" and "heap_cdr s (cell_of w) = -1"
    and "count_to (heap_next s) \<le> HEAP_SIZE"
  shows "gc_collect s = Wild"
proof -
  let ?n = "count_to (heap_next s)"
  have p: "0 \<le> sint (PTR_IDX w)" "sint (PTR_IDX w) < sint (heap_next s)"
    using assms(2) by (simp_all add: stack_root_def PTR_IDX_def)
  then have lt: "cell_of w < ?n"
    using count_to_unat [OF p(1)] unfolding cell_of_def count_to_def by linarith
  have ptr: "IS_PTR w"
    using assms(2) by (auto simp: stack_root_def IS_PTR_def tag_defs)
  have tip: "IS_PTR (-1)" "\<not> cell_of (-1) < HEAP_SIZE"
    by (simp_all add: IS_PTR_def tag_defs cell_of_def PTR_IDX_def HEAP_SIZE_def unsigned_minus_1_eq_mask mask_eq_exp_minus_1)
  have scan: "bnd gc_scan_stack (\<lambda>_. gc_sweep) t = Wild"
    if "marks_ok t" "c_stack t = c_stack s" "heap_next t = heap_next s" "heap_cdr t = heap_cdr s" for t
  proof -
    have "bnd (mark_vals (filter (stack_root (heap_next t)) (c_stack t))) (\<lambda>_. gc_sweep) t = Wild"
    proof (rule mark_vals_ok [OF that(1)])
      fix M assume ok: "marks_ok (t\<lparr>heap_mark := M\<rparr>)"
        and run: "mark_vals (filter (stack_root (heap_next t)) (c_stack t)) t = Done () (t\<lparr>heap_mark := M\<rparr>)"
      from mark_vals_marks [OF run] obtain M' where "t\<lparr>heap_mark := M\<rparr> = t\<lparr>heap_mark := M'\<rparr>"
        "\<forall>v\<in>set (filter (stack_root (heap_next t)) (c_stack t)). IS_PTR v \<longrightarrow> M' (cell_of v)"
        by (auto simp: marked_by_def)
      then have "M (cell_of w)"
        using assms(1,2) ptr that(2,3) by (auto dest: arg_cong [where f = heap_mark])
      with ok lt that(3,4) assms(3) tip show "gc_sweep (t\<lparr>heap_mark := M\<rparr>) = Wild"
        by (auto simp: marks_ok_def)
    qed
    then show ?thesis by (simp add: gc_scan_stack_def bnd_def)
  qed
  have first: "bnd clear_marks k (s\<lparr>gc_collections := gc_collections s + 1\<rparr>) =
      k () (s\<lparr>gc_collections := gc_collections s + 1, heap_mark := \<lambda>i. heap_mark s i \<and> \<not> i < ?n\<rparr>)" for k
    using assms(4) by (simp add: clear_marks_def bnd_def)
  show ?thesis
    unfolding gc_collect_def bnd_upd first bnd_get gc_mark_val_vals
    by (intro mark_vals_ok entries_wild scan) (simp_all add: marks_ok_def)
qed

lemma stale_word_breaks_collector_witness:
  "gc_collect (two_cells\<lparr>free_list := 1, heap_cdr := (\<lambda>_. 0)(1 := -1), c_stack := [MAKE_CONS 1]\<rparr>) = Wild"
proof (rule stale_word_breaks_collector)
  have "cell_of (MAKE_CONS 1) = 1" using cell_of_make(1) [of 1] by simp
  then show "heap_cdr (two_cells\<lparr>free_list := 1, heap_cdr := (\<lambda>_. 0)(1 := -1), c_stack := [MAKE_CONS 1]\<rparr>)
      (cell_of (MAKE_CONS 1)) = -1" by simp
qed (simp_all add: two_cells_def stack_root_def count_to_def HEAP_SIZE_def make_defs tag_defs)

section \<open>Symbols and strings\<close>



text \<open>Where \<open>string_chars\<close> looks for the text of a new string: eleven bits of its offset.\<close>

lemma make_string_reads:
  assumes run: "make_string cs s = Done v s'" and ok: "heap_ok s" and p: "str_pool_next s = of_nat p"
    and n: "p \<le> STR_POOL_SIZE" "length cs < 2048"
  shows "string_chars v s' = Done (map (str_pool s') [p mod 2048..<p mod 2048 + length cs]) s'"
    and "string_len v s' = Done (of_nat (length cs)) s'" and "is_string v s' = Done True s'"
    and "\<forall>k<length cs. str_pool s' (p + k) = cs ! k"
proof -
  have room: "p + length cs + 1 \<le> STR_POOL_SIZE"
  proof (rule ccontr)
    have e: "(of_nat p + of_nat (length cs) + 1 :: i24) = of_nat (p + length cs + 1)"
      by simp
    assume "\<not> p + length cs + 1 \<le> STR_POOL_SIZE"
    then have "sint (of_nat p + of_nat (length cs) + 1 :: i24) > int STR_POOL_SIZE"
      unfolding e using n by (subst sint_of_nat_small) (auto simp: STR_POOL_SIZE_def)
    with run p show False by (simp add: make_string_def str_panic_def)
  qed
  from make_string_spec [OF run ok p room] obtain i q s1 where
    i: "v = MAKE_EXTENDED (of_nat i)" "i < HEAP_SIZE" "heap_car s' i = ETYPE_STRING"
    and d: "heap_cdr s' i = MAKE_FIXNUM (push_bit 11 (of_nat p) OR of_nat (length cs))"
    and s1: "s1 = s\<lparr>str_pool := q, str_pool_next := of_nat (p + length cs + 1)\<rparr>" "alloc_frame s1 s'"
    and q: "\<forall>k<length cs. q (p + k) = cs ! k"
    by blast
  have c: "cell_of v = i" "IS_EXTENDED v" using i by (simp_all add: HEAP_SIZE_def)
  have u: "unat (of_nat (length cs) :: i24) < 2048" "unat (of_nat (length cs) :: i24) = length cs"
    using n(2) by simp_all
  have w: "take_bit 11 (of_nat p :: i24) = of_nat (p mod 2048)"
  proof (rule word_eq_iff_unsigned [THEN iffD2])
    have "unat (take_bit 11 (of_nat p :: i24)) = take_bit 11 (unat (of_nat p :: i24))"
      by (rule unsigned_take_bit_eq)
    also have "\<dots> = p mod 2048" using n(1) by (simp add: take_bit_eq_mod STR_POOL_SIZE_def)
    finally show "unat (take_bit 11 (of_nat p :: i24)) = unat (of_nat (p mod 2048) :: i24)"
      using n(1) by simp
  qed
  have l: "string_len v s' = Done (of_nat (length cs)) s'"
    using c i(2) d unpack_len [OF u(1)] by (simp add: string_len_def cdr_eq bnd_step)
  have "string_data v s' = Done (of_nat (p mod 2048)) s'"
    using c i(2) d unpack_off [OF u(1), of "of_nat p"] w by (simp add: string_data_def cdr_eq bnd_step)
  moreover have "chars_from (of_nat (p mod 2048)) 0 (length (map (str_pool s') [p mod 2048..<p mod 2048 + length cs])) s' =
      Done (map (str_pool s') [p mod 2048..<p mod 2048 + length cs]) s'"
    by (rule chars_from_spec) (use n in \<open>auto simp: STR_POOL_SIZE_def\<close>)
  ultimately show "string_chars v s' = Done (map (str_pool s') [p mod 2048..<p mod 2048 + length cs]) s'"
    using l u(2) by (simp add: string_chars_def bnd_step)
  show "string_len v s' = Done (of_nat (length cs)) s'" by (rule l)
  show "is_string v s' = Done True s'"
    using c i by (simp add: is_string_def car_eq bnd_step)
  show "\<forall>k<length cs. str_pool s' (p + k) = cs ! k"
    using s1(2) q unfolding alloc_frame_def s1(1) by auto
qed

text \<open>The text of a string can be read back from the value \<open>make_string\<close> returns, as long as
  it begins below 2048 in the pool and is shorter than 2048.\<close>

lemma string_round_trip:
  assumes "make_string cs s = Done v s'" and "heap_ok s" and "str_pool_next s = of_nat p"
    and "p < 2048" and "length cs < 2048"
  shows "string_chars v s' = Done cs s' \<and> string_len v s' = Done (of_nat (length cs)) s' \<and> is_string v s' = Done True s'"
proof -
  have "p \<le> STR_POOL_SIZE" using assms(4) by (simp add: STR_POOL_SIZE_def)
  note r = make_string_reads [OF assms(1-3) this assms(5)]
  have "map (str_pool s') [p..<p + length cs] = cs"
    using r(4) by (intro nth_equalityI) auto
  with r assms(4) show ?thesis by simp
qed

text \<open>The pool has 8192 bytes, but a cell keeps only eleven bits of the offset: a string that
  begins at 2048 or later is read from its offset modulo 2048, where another text lies.\<close>

lemma string_offset_wraps:
  assumes "make_string cs s = Done v s'" and "heap_ok s" and "str_pool_next s = of_nat p"
    and "2048 \<le> p" and "p \<le> STR_POOL_SIZE" and "length cs < 2048"
  shows "string_chars v s' = Done (map (str_pool s') [p mod 2048..<p mod 2048 + length cs]) s' \<and>
    map (str_pool s') [p..<p + length cs] = cs"
proof -
  note r = make_string_reads [OF assms(1-3,5,6)]
  have "map (str_pool s') [p..<p + length cs] = cs"
    using r(4) by (intro nth_equalityI) auto
  with r(1) show ?thesis by simp
qed

text \<open>A string made at the start of the runtime, and after the pool has been filled up to 2048.\<close>

lemma make_string_started:
  assumes "init_runtime zeroed = Done () s" and "p + length cs + 1 \<le> STR_POOL_SIZE"
  shows "\<exists>v s'. make_string cs (s\<lparr>str_pool_next := of_nat p\<rparr>) = Done v s'" and "heap_ok (s\<lparr>str_pool_next := n\<rparr>)"
proof -
  let ?s = "s\<lparr>str_pool_next := of_nat p\<rparr>"
  from started assms(1) have ok: "heap_ok s" "heap_next s = 0" "\<not> gc_enabled s"
    by (auto simp: state_ok_def)
  then show "heap_ok (s\<lparr>str_pool_next := n\<rparr>)"
    using same_heap_facts(4) [of s "s\<lparr>str_pool_next := n\<rparr>"] by (simp add: same_heap_def)
  from make_string_cell [of ?s p, OF _ assms(2)] obtain q where
    "make_string cs ?s = cells.make_cell [] MAKE_EXTENDED ETYPE_STRING
      (MAKE_FIXNUM (push_bit 11 (of_nat p) OR of_nat (length cs)))
      (?s\<lparr>str_pool := q, str_pool_next := of_nat (p + length cs + 1)\<rparr>)" by auto
  then show "\<exists>v s'. make_string cs ?s = Done v s'"
    using ok by (simp add: cells.make_cell_def hold_def alloc_cell_def bump_def poke_car_def poke_cdr_def
        bnd_def HEAP_SIZE_def)
qed

lemma string_round_trip_witness:
  "\<exists>s v s'. make_string ''ok'' s = Done v s' \<and> string_chars v s' = Done ''ok'' s'"
proof -
  from started obtain s where s: "init_runtime zeroed = Done () s" by blast
  note m = make_string_started [OF s, of 0 "''ok''"]
  from m(1) obtain v s' where r: "make_string ''ok'' (s\<lparr>str_pool_next := of_nat 0\<rparr>) = Done v s'"
    by (auto simp: STR_POOL_SIZE_def)
  from string_round_trip [OF r m(2), of 0] r show ?thesis
    by (auto simp: STR_POOL_SIZE_def)
qed

lemma string_offset_wraps_witness:
  "\<exists>s v s'. str_pool_next s = 2048 \<and> make_string ''ok'' s = Done v s' \<and>
     string_chars v s' = Done [str_pool s' 0, str_pool s' 1] s' \<and> [str_pool s' 2048, str_pool s' 2049] = ''ok''"
proof -
  from started obtain s where s: "init_runtime zeroed = Done () s" by blast
  note m = make_string_started [OF s, of 2048 "''ok''"]
  from m(1) obtain v s' where r: "make_string ''ok'' (s\<lparr>str_pool_next := of_nat 2048\<rparr>) = Done v s'"
    by (auto simp: STR_POOL_SIZE_def)
  have l: "[2048..<2050::nat] = [2048, 2049]" "[0..<2::nat] = [0, 1]"
    by (simp_all add: upt_rec)
  from string_offset_wraps [OF r m(2), of 2048] r l show ?thesis
    by (intro exI [of _ "s\<lparr>str_pool_next := of_nat 2048\<rparr>"] exI [of _ v] exI [of _ s']) (simp add: STR_POOL_SIZE_def)
qed

section \<open>The reader and the printer\<close>


text \<open>The start state with a text to read.\<close>

lemma started_reading:
  "\<exists>s. init_runtime zeroed = Done () s \<and> state_ok [''nil'', ''t''] (at t s) \<and> read_ptr (at t s) = t \<and>
    str_pool_next s = 0 \<and> heap_next s = 0 \<and> \<not> gc_enabled s \<and> uart_out s = []"
  using started by auto




text \<open>C28: A closing parenthesis or a dot at the start of an expression is not consumed: the reader
  returns without moving on, so that a loop that reads expressions to the end of the line reads
  the same place again for ever.\<close>

theorem reader_stuck:
  assumes "state_ok ns s" and "NUL \<notin> set (read_ptr s)" and "here (skip_ws (read_ptr s)) \<in> {CHR '')'', CHR ''.''}"
    and "read_expr n s = Done v s'"
  shows "read_ptr s' = skip_ws (read_ptr s) \<and> skip_ws (read_ptr s') = read_ptr s'"
proof -
  let ?t = "skip_ws (read_ptr s)"
  have h: "here ?t = CHR '')'' \<or> here ?t = CHR ''.''" using assms(3) by auto
  then have ns: "\<not> is_sym_char (here ?t)" "\<not> is_digit (here ?t)"
    by (auto simp: is_sym_char_def is_digit_def schar_def uchar_def)
  from ns(1) have sl: "symbol_loop k ?t = ([], ?t)" for k
    by (cases k; cases ?t) (auto simp: here_def)
  have "parse (Suc m) (read_ptr s) = Parsed (if here ?t = CHR '')'' then nil else Sym []) ?t" for m
    using h
  proof
    assume p: "here ?t = CHR '')''"
    with ns(2) have "\<not> is_digit (CHR '')'')" by simp
    with p show ?thesis by (simp add: Let_def)
  next
    assume p: "here ?t = CHR ''.''"
    with ns(2) have "\<not> is_digit (CHR ''.'')" by simp
    with p sl show ?thesis by (simp add: Let_def NUL_def)
  qed
  moreover have "n \<noteq> 0"
  proof
    assume "n = 0"
    with assms(4) show False by simp
  qed
  then obtain m where "n = Suc m" by (cases n) auto
  ultimately have "read_ptr s' = ?t"
    using read_expr_reads [OF assms(1,2), of n] assms(4) by (auto simp: reads_def got_def simp del: parse.simps split: if_splits)
  with h show ?thesis by (auto simp: skip_other)
qed

lemma reader_stuck_witness:
  "\<exists>s. read_ptr s = '')'' \<and> (\<forall>v s'. read_expr 9 s = Done v s' \<longrightarrow> read_ptr s' = '')'')"
proof -
  from started_reading obtain s where s: "state_ok [''nil'', ''t''] (at '')'' s)" by blast
  have k: "skip_ws '')'' = '')''" by (rule skip_other) (simp add: here_def)
  have "NUL \<notin> set (read_ptr (at '')'' s))" by (simp add: NUL_def)
  moreover have "here (skip_ws (read_ptr (at '')'' s))) \<in> {CHR '')'', CHR ''.''}"
    by (simp add: k) (simp add: here_def)
  ultimately have "read_ptr s' = '')''" if "read_expr 9 (at '')'' s) = Done v s'" for v s'
    using reader_stuck [OF s _ _ that] k by simp
  then show ?thesis by (intro exI [of _ "at '')'' s"]) simp
qed



end
