(* ===== verification/Tml_Env.thy ===== *)
theory Tml_Env
  imports Tml_Prims Tml_Runtime
begin

text \<open>
  Environments against association lists: what \<open>env_lookup\<close> finds and what \<open>env_bind\<close> builds,
  whatever collections happen on the way.
\<close>

section \<open>Lists in the heap\<close>

text \<open>The cells from a value on hold the given elements and end in the given value.\<close>

fun segment :: "lisp \<Rightarrow> i24 \<Rightarrow> i24 list \<Rightarrow> i24 \<Rightarrow> bool" where
  "segment s v [] t \<longleftrightarrow> v = t"
| "segment s v (x # xs) t \<longleftrightarrow> IS_CONS v \<and> cell_of v < HEAP_SIZE \<and> heap_car s (cell_of v) = x \<and>
     segment s (heap_cdr s (cell_of v)) xs t"

text \<open>An environment is an association list of pairs.\<close>

fun alist_at :: "lisp \<Rightarrow> i24 \<Rightarrow> (i24 \<times> i24) list \<Rightarrow> bool" where
  "alist_at s e [] \<longleftrightarrow> e = NIL_VAL"
| "alist_at s e ((x, v) # bs) \<longleftrightarrow> IS_CONS e \<and> cell_of e < HEAP_SIZE \<and> IS_CONS (heap_car s (cell_of e)) \<and>
     cell_of (heap_car s (cell_of e)) < HEAP_SIZE \<and> heap_car s (cell_of (heap_car s (cell_of e))) = x \<and>
     heap_cdr s (cell_of (heap_car s (cell_of e))) = v \<and> alist_at s (heap_cdr s (cell_of e)) bs"

lemma cons_ptr: "IS_CONS v \<Longrightarrow> IS_PTR v"
  by (simp add: IS_PTR_def)

lemma cells_cdr:
  assumes "IS_CONS v"
  shows "cell_of v \<in> cells_of s v" and "cells_of s (heap_cdr s (cell_of v)) \<subseteq> cells_of s v"
    and "cells_of s (heap_car s (cell_of v)) \<subseteq> cells_of s v"
proof -
  show c: "cell_of v \<in> cells_of s v"
    using assms by (intro reach_root) (auto intro: cons_ptr)
  show "cells_of s (heap_cdr s (cell_of v)) \<subseteq> cells_of s v" "cells_of s (heap_car s (cell_of v)) \<subseteq> cells_of s v"
    using reach_from_reach [of "{heap_cdr s (cell_of v)}" "heap_car s" "heap_cdr s" "{v}"]
      reach_from_reach [of "{heap_car s (cell_of v)}" "heap_car s" "heap_cdr s" "{v}"] reach_cdr [OF c] reach_car [OF c]
    by auto
qed

definition same_cells :: "lisp \<Rightarrow> lisp \<Rightarrow> nat set \<Rightarrow> bool" where
  "same_cells s s' A \<longleftrightarrow> (\<forall>j\<in>A. heap_car s' j = heap_car s j \<and> heap_cdr s' j = heap_cdr s j)"

lemma same_cells_mono: "same_cells s s' A \<Longrightarrow> B \<subseteq> A \<Longrightarrow> same_cells s s' B"
  by (auto simp: same_cells_def)

lemma same_cells_reach: "same_cells s s' (cells_of s v) \<Longrightarrow> cells_of s' v = cells_of s v"
  by (rule reach_same) (auto simp: same_cells_def)

lemma segment_same: "segment s v xs t \<Longrightarrow> same_cells s s' (cells_of s v) \<Longrightarrow> segment s' v xs t"
proof (induction xs arbitrary: v)
  case (Cons x xs)
  then have c: "IS_CONS v" by simp
  note k = cells_cdr [OF c, of s]
  from Cons.prems k(1) have "heap_car s' (cell_of v) = heap_car s (cell_of v)" "heap_cdr s' (cell_of v) = heap_cdr s (cell_of v)"
    by (auto simp: same_cells_def)
  with Cons k(2) show ?case by (auto intro: same_cells_mono)
qed simp

lemma alist_same: "alist_at s e bs \<Longrightarrow> same_cells s s' (cells_of s e) \<Longrightarrow> alist_at s' e bs"
proof (induction bs arbitrary: e)
  case (Cons b bs)
  obtain x v where b: "b = (x, v)" by (cases b)
  with Cons.prems have c: "IS_CONS e" "IS_CONS (heap_car s (cell_of e))" by auto
  note k = cells_cdr [OF c(1), of s] and k2 = cells_cdr(1) [OF c(2), of s]
  have "heap_car s' (cell_of e) = heap_car s (cell_of e)" "heap_cdr s' (cell_of e) = heap_cdr s (cell_of e)"
    using Cons.prems(2) k(1) by (auto simp: same_cells_def)
  moreover have "heap_car s' (cell_of (heap_car s (cell_of e))) = heap_car s (cell_of (heap_car s (cell_of e)))"
    "heap_cdr s' (cell_of (heap_car s (cell_of e))) = heap_cdr s (cell_of (heap_car s (cell_of e)))"
    using Cons.prems(2) k(3) k2 by (auto simp: same_cells_def)
  ultimately show ?case
    using Cons b k(2) by (auto intro: same_cells_mono)
qed simp

text \<open>A list never comes back to a cell, so it is no longer than the heap.\<close>

lemma alist_unique: "alist_at s e bs \<Longrightarrow> alist_at s e bs' \<Longrightarrow> bs = bs'"
proof (induction bs arbitrary: e bs')
  case Nil
  then show ?case by (cases bs') auto
next
  case (Cons b bs)
  then show ?case by (cases b; cases bs') auto
qed

fun spine :: "lisp \<Rightarrow> i24 \<Rightarrow> 'a list \<Rightarrow> nat list" where
  "spine s e [] = []"
| "spine s e (b # bs) = cell_of e # spine s (heap_cdr s (cell_of e)) bs"

lemma spine_suffix:
  "alist_at s e bs \<Longrightarrow> i \<in> set (spine s e bs) \<Longrightarrow>
    \<exists>e' bs'. alist_at s e' bs' \<and> IS_CONS e' \<and> cell_of e' = i \<and> length bs' \<le> length bs"
proof (induction bs arbitrary: e)
  case (Cons b bs)
  obtain x v where b: "b = (x, v)" by (cases b)
  show ?case
  proof (cases "i = cell_of e")
    case True
    with Cons.prems b show ?thesis by (intro exI [of _ e] exI [of _ "b # bs"]) auto
  next
    case False
    with Cons.prems b have "alist_at s (heap_cdr s (cell_of e)) bs" "i \<in> set (spine s (heap_cdr s (cell_of e)) bs)"
      by auto
    from Cons.IH [OF this] show ?thesis by (metis le_SucI length_Cons)
  qed
qed simp

lemma cons_inj: "IS_CONS v \<Longrightarrow> IS_CONS w \<Longrightarrow> cell_of v = cell_of w \<Longrightarrow> v = w"
proof -
  assume v: "IS_CONS v" and w: "IS_CONS w" and "cell_of v = cell_of w"
  then have "PTR_IDX v = PTR_IDX w" by (simp add: cell_of_def word_unat_eq_iff)
  with make_ptr(2) [OF v] make_ptr(2) [OF w] show ?thesis by metis
qed

lemma spine_distinct:
  assumes "alist_at s e bs"
  shows "distinct (spine s e bs) \<and> set (spine s e bs) \<subseteq> {..<HEAP_SIZE} \<and> length (spine s e bs) = length bs"
  using assms
proof (induction bs arbitrary: e)
  case (Cons b bs)
  obtain x v where b: "b = (x, v)" by (cases b)
  with Cons.prems have c: "IS_CONS e" "cell_of e < HEAP_SIZE" and r: "alist_at s (heap_cdr s (cell_of e)) bs" by auto
  have "cell_of e \<notin> set (spine s (heap_cdr s (cell_of e)) bs)"
  proof
    assume "cell_of e \<in> set (spine s (heap_cdr s (cell_of e)) bs)"
    from spine_suffix [OF r this] obtain e' bs' where s: "alist_at s e' bs'" "IS_CONS e'" "cell_of e' = cell_of e"
      "length bs' \<le> length bs" by blast
    then have "alist_at s e bs'" using cons_inj [OF s(2) c(1) s(3)] by simp
    from alist_unique [OF this Cons.prems] s(4) show False by simp
  qed
  with Cons.IH [OF r] c show ?case by simp
qed simp

lemma alist_length: "alist_at s e bs \<Longrightarrow> length bs \<le> HEAP_SIZE"
proof -
  assume a: "alist_at s e bs"
  have "card (set (spine s e bs)) \<le> card {..<HEAP_SIZE}"
    using spine_distinct [OF a] by (intro card_mono) auto
  with spine_distinct [OF a] distinct_card [of "spine s e bs"] show ?thesis by simp
qed

section \<open>Lookup\<close>

lemma find_binding_spec:
  "alist_at s e bs \<Longrightarrow> length bs < k \<Longrightarrow>
    (map_of bs x = None \<longrightarrow> find_binding k x e s = Done None s) \<and>
    (\<forall>v. map_of bs x = Some v \<longrightarrow> (\<exists>b. find_binding k x e s = Done (Some b) s \<and> cdr b s = Done v s))"
proof (induction bs arbitrary: e k)
  case Nil
  then show ?case by (cases k) auto
next
  case (Cons b bs)
  obtain y v where b: "b = (y, v)" by (cases b)
  from Cons.prems obtain k' where k: "k = Suc k'" "length bs < k'" by (cases k) auto
  from Cons.prems b have a: "IS_CONS e" "cell_of e < HEAP_SIZE" "cell_of (heap_car s (cell_of e)) < HEAP_SIZE"
    "heap_car s (cell_of (heap_car s (cell_of e))) = y" "heap_cdr s (cell_of (heap_car s (cell_of e))) = v"
    and r: "alist_at s (heap_cdr s (cell_of e)) bs" by auto
  have "\<not> IS_NIL e" using a(1) tag_exclusive(1) [of e] by (auto simp: IS_NIL_def)
  with Cons.IH [OF r k(2)] a k(1) b show ?case
    by (auto simp: bnd_def car_eq cdr_eq)
qed

lemma walk_enough: "alist_at s e bs \<Longrightarrow> length bs < walk_fuel"
  using alist_length [of s e bs] by (simp add: walk_fuel_def HEAP_SIZE_def)

text \<open>C37: Looking a symbol up finds the innermost binding of the environment, or else of the global
  environment; if there is none, the runtime says so and returns nil.\<close>

theorem lookup_innermost:
  assumes "alist_at s env bs" and "alist_at s (global_env s) gs"
  shows "env_lookup (Suc k) x env s = (case map_of (bs @ gs) x of Some v \<Rightarrow> Done v s
    | None \<Rightarrow> bnd (print_val (Suc k) x) (\<lambda>_. bnd (putc_uart (CHR 0x0A)) (\<lambda>_. ret NIL_VAL)) (says ''ERR:unbound '' s))"
proof -
  note f = find_binding_spec [OF assms(1) walk_enough [OF assms(1)], of x]
    and g = find_binding_spec [OF assms(2) walk_enough [OF assms(2)], of x]
  show ?thesis
  proof (cases "map_of bs x")
    case (Some v)
    with f show ?thesis by (auto simp: env_lookup_def bnd_def)
  next
    case None
    with f g show ?thesis
      by (cases "map_of gs x") (auto simp: env_lookup_def bnd_def map_add_def)
  qed
qed

section \<open>Extending an environment\<close>

text \<open>
  A transition that keeps the heap well formed, what is reachable from given values, and what
  was live.
\<close>

definition keeping :: "i24 set \<Rightarrow> lisp \<Rightarrow> lisp \<Rightarrow> bool" where
  "keeping V s s' \<longleftrightarrow> extends s s' \<and> alloc_frame s s' \<and> (\<forall>v\<in>V. sound s' v \<and> same_cells s s' (cells_of s v))"

lemma alloc_frame_stack:
  "alloc_frame (s\<lparr>c_stack := k\<rparr>) s1 \<Longrightarrow> alloc_frame s (s1\<lparr>c_stack := c_stack s\<rparr>)"
  unfolding alloc_frame_def by (elim exE, hypsubst, intro exI, rule lisp.equality) simp_all

lemma hold_cons:
  assumes run: "hold ws (cons a d) s = Done c s'" and ok: "heap_ok s" and snd: "sound s a" "sound s d"
    and ws: "\<forall>w\<in>set ws. sound s w"
  shows "\<exists>i. c = MAKE_CONS (of_nat i) \<and> i < HEAP_SIZE \<and> i \<in> used s' \<and> heap_car s' i = a \<and> heap_cdr s' i = d \<and>
    keeping (insert a (insert d (set ws))) s s'"
proof -
  from run obtain s1 where r: "cons a d (s\<lparr>c_stack := ws @ c_stack s\<rparr>) = Done c s1" (is "cons a d ?p = _")
    and s': "s' = s1\<lparr>c_stack := c_stack s\<rparr>" by (rule hold_Done)
  have okp: "heap_ok ?p" using ok by simp
  have sp: "sound ?p a" "sound ?p d" using snd by simp_all
  from cells.make_cell_fresh [OF r [unfolded cons_make_cell] okp sp] obtain i where
    i: "c = MAKE_CONS (of_nat i)" "i < HEAP_SIZE" "i \<in> used s1" "extends ?p s1" "alloc_frame ?p s1"
      "heap_car s1 i = a" "heap_cdr s1 i = d"
    and k: "\<And>w j. w \<in> {a, d} \<Longrightarrow> sound ?p w \<Longrightarrow> j \<in> cells_of ?p w \<Longrightarrow>
      heap_car s1 j = heap_car ?p j \<and> heap_cdr s1 j = heap_cdr ?p j \<and> j \<in> used s1"
    by auto
  have "sound s' w \<and> same_cells s s' (cells_of s w)" if w: "w \<in> {a, d}" for w
  proof -
    have sw: "sound ?p w" using w snd by auto
    have "sound s1 w"
    proof (cases "IS_PTR w")
      case True
      then have "cell_of w \<in> cells_of ?p w" by (auto intro: reach_root)
      with k [OF w sw] show ?thesis by (simp add: sound_def)
    qed (simp add: sound_def)
    with k [OF w sw] show ?thesis by (auto simp: same_cells_def s')
  qed
  moreover have "sound s' w \<and> same_cells s s' (cells_of s w)" if w: "w \<in> set ws" for w
    using held_keeps [OF i(4) ok w] ws w by (auto simp: same_cells_def s')
  moreover have "extends s s'" unfolding s' by (rule extends_pop [OF i(4)])
  moreover have "alloc_frame s s'" unfolding s' by (rule alloc_frame_stack [OF i(5)])
  ultimately show ?thesis
    using i by (auto simp: keeping_def s')
qed

lemma keeping_trans:
  assumes "keeping V s s1" and "keeping W s1 s2" and "U \<subseteq> V" and "U \<subseteq> W"
  shows "keeping U s s2"
proof -
  have "sound s2 v \<and> same_cells s s2 (cells_of s v)" if "v \<in> U" for v
  proof -
    have a: "same_cells s s1 (cells_of s v)" and b: "same_cells s1 s2 (cells_of s1 v)" "sound s2 v"
      using assms that by (auto simp: keeping_def)
    from b same_cells_reach [OF a] have "same_cells s1 s2 (cells_of s v)" by simp
    with a b(2) show ?thesis by (auto simp: same_cells_def)
  qed
  moreover have "extends s s2" "alloc_frame s s2"
    using assms(1,2) extends_trans alloc_frame_trans unfolding keeping_def by blast+
  ultimately show ?thesis by (simp add: keeping_def)
qed

lemma hold_extend:
  assumes run: "hold ws (env_extend x v env) s = Done e s'" and ok: "heap_ok s"
    and snd: "sound s x" "sound s v" "sound s env" and ws: "\<forall>w\<in>set ws. sound s w"
  shows "keeping (insert env (set ws)) s s' \<and> sound s' e \<and> (\<forall>bs. alist_at s env bs \<longrightarrow> alist_at s' e ((x, v) # bs))"
proof -
  from run obtain s0 where "env_extend x v env (s\<lparr>c_stack := ws @ c_stack s\<rparr>) = Done e s0"
    and s': "s' = s0\<lparr>c_stack := c_stack s\<rparr>" by (rule hold_Done)
  then obtain b t where "hold [x, v, env] (cons x v) (s\<lparr>c_stack := ws @ c_stack s\<rparr>) = Done b t"
    and r2: "cons b env t = Done e s0"
    by (auto simp: env_extend_def elim: bnd_Done_E)
  then obtain t0 where r1: "cons x v (s\<lparr>c_stack := ([x, v, env] @ ws) @ c_stack s\<rparr>) = Done b t0"
    and t: "t = t0\<lparr>c_stack := ws @ c_stack s\<rparr>"
    by (auto elim!: hold_Done)
  let ?u = "t0\<lparr>c_stack := c_stack s\<rparr>"
  have h1: "hold ([x, v, env] @ ws) (cons x v) s = Done b ?u"
    by (rule hold_step [of "cons x v" "[x, v, env] @ ws" s, OF r1])
  have w1: "\<forall>w\<in>set ([x, v, env] @ ws). sound s w" using snd ws by auto
  from hold_cons [OF h1 ok snd(1,2) w1] obtain i where
    i: "b = MAKE_CONS (of_nat i)" "i < HEAP_SIZE" "i \<in> used ?u" "heap_car ?u i = x" "heap_cdr ?u i = v"
      "keeping (insert x (insert v (set ([x, v, env] @ ws)))) s ?u" by blast
  have bi: "cell_of b = i" "IS_CONS b" using i(1,2) by (simp_all add: HEAP_SIZE_def)
  have h2: "hold ws (cons b env) ?u = Done e s'"
    unfolding s' using r2 by (intro hold_step [of "cons b env" ws ?u, simplified]) (simp add: t)
  have oku: "heap_ok ?u" and sb: "sound ?u b" and se: "sound ?u env" and w2: "\<forall>w\<in>set ws. sound ?u w"
    using i(3,6) bi by (auto simp: keeping_def extends_def sound_def)
  from hold_cons [OF h2 oku sb se w2] obtain j where
    j: "e = MAKE_CONS (of_nat j)" "j < HEAP_SIZE" "j \<in> used s'" "heap_car s' j = b" "heap_cdr s' j = env"
      "keeping (insert b (insert env (set ws))) ?u s'" by blast
  have ej: "cell_of e = j" "IS_CONS e" using j(1,2) by (simp_all add: HEAP_SIZE_def)
  have k: "keeping (insert env (set ws)) s s'"
    by (rule keeping_trans [OF i(6) j(6)]) auto
  have "i \<in> cells_of ?u b" using cells_cdr(1) [OF bi(2), of ?u] bi(1) by simp
  then have b': "heap_car s' i = x" "heap_cdr s' i = v"
    using j(6) i(4,5) by (auto simp: keeping_def same_cells_def)
  have "alist_at s' e ((x, v) # bs)" if "alist_at s env bs" for bs
    using alist_same [OF that, of s'] k b' bi ej i(2) j(2,4,5) by (auto simp: keeping_def)
  with k ej j(3) show ?thesis by (auto simp: sound_def)
qed

section \<open>Binding parameters\<close>

text \<open>While \<open>env_bind\<close> runs, two more roots are protected than in the state it was called in.\<close>

definition based :: "lisp \<Rightarrow> nat \<Rightarrow> lisp \<Rightarrow> bool" where
  "based s0 c s \<longleftrightarrow> heap_ok s \<and> gc_root_count s0 = of_nat c \<and> gc_root_count s = of_nat (c + 2) \<and>
     c + 2 \<le> MAX_GC_ROOTS \<and> (\<forall>k<c. gc_roots s k = gc_roots s0 k) \<and> global_env s = global_env s0 \<and>
     wind_after s = wind_after s0 \<and> wind_depth s = wind_depth s0 \<and> catch_tags s = catch_tags s0 \<and>
     catch_vals s = catch_vals s0 \<and> catch_depth s = catch_depth s0 \<and> c_stack s = c_stack s0 \<and>
     sint (heap_next s0) \<le> sint (heap_next s) \<and> live s0 \<subseteq> used s \<and> same_cells s0 s (live s0)"

lemma roots_only [simp]:
  "used (s\<lparr>gc_roots := r, gc_root_count := n\<rparr>) = used s" "used (s\<lparr>gc_roots := r\<rparr>) = used s"
  "used (s\<lparr>gc_root_count := n\<rparr>) = used s"
  "sound (s\<lparr>gc_roots := r, gc_root_count := n\<rparr>) v = sound s v" "sound (s\<lparr>gc_roots := r\<rparr>) v = sound s v"
  "sound (s\<lparr>gc_root_count := n\<rparr>) v = sound s v"
  by (simp_all add: used_def sound_def)

lemma count_root: "c \<le> MAX_GC_ROOTS \<Longrightarrow> count_to (of_nat c) = c"
  by (simp add: count_to_def MAX_GC_ROOTS_def sint_of_nat_small)

lemma unat_root: "c \<le> MAX_GC_ROOTS \<Longrightarrow> unat (of_nat c :: i24) = c"
  by (simp add: MAX_GC_ROOTS_def)

lemma based_roots:
  assumes "based s0 c s"
  shows "own_roots s = own_roots s0 \<union> {gc_roots s c, gc_roots s (Suc c)}"
proof -
  have n: "count_to (gc_root_count s) = c + 2" "count_to (gc_root_count s0) = c"
    using assms count_root [of "c + 2"] count_root [of c] unfolding based_def by auto
  have "{..<c + 2} = insert (Suc c) (insert c {..<c})" by auto
  moreover have "gc_roots s ` {..<c} = gc_roots s0 ` {..<c}"
    using assms by (auto simp: based_def)
  ultimately have "gc_roots s ` {..<c + 2} = gc_roots s0 ` {..<c} \<union> {gc_roots s c, gc_roots s (Suc c)}"
    by auto
  with assms n show ?thesis
    by (auto simp: own_roots_def based_def)
qed

lemma based_heap_ok:
  assumes "heap_ok s" and "gc_root_count s' = of_nat n" and "n \<le> MAX_GC_ROOTS"
    and "s' = s\<lparr>gc_roots := r, gc_root_count := of_nat n\<rparr>" and "\<forall>v\<in>own_roots s'. sound s v"
  shows "heap_ok s'"
  using assms count_root [OF assms(3)] by (auto simp: heap_ok_def counts_ok_def free_ok_def)

lemma based_set:
  assumes b: "based s0 c s" and snd: "sound s v" and k: "k = c \<or> k = Suc c"
  shows "based s0 c (s\<lparr>gc_roots := (gc_roots s)(k := v)\<rparr>)"
proof -
  let ?s = "s\<lparr>gc_roots := (gc_roots s)(k := v)\<rparr>"
  have n: "count_to (gc_root_count s) = c + 2"
    using b count_root [of "c + 2"] unfolding based_def by auto
  have "own_roots ?s \<subseteq> insert v (own_roots s)"
    by (auto simp: own_roots_def)
  moreover have "\<forall>w\<in>own_roots s. sound s w" using b by (simp add: based_def heap_ok_def)
  ultimately have "\<forall>w\<in>own_roots ?s. sound s w" using snd by blast
  then have "heap_ok ?s"
    using b n by (auto simp: based_def heap_ok_def counts_ok_def free_ok_def)
  then show ?thesis
    using b k by (auto simp: based_def same_cells_def)
qed

lemma based_live:
  assumes "based s0 c s"
  shows "live s0 \<subseteq> live s"
proof -
  have roots: "all_roots s0 \<subseteq> all_roots s"
    using assms based_roots [OF assms] by (auto simp: all_roots_def based_def stack_root_def)
  have snd: "sound s v" if "v \<in> all_roots s0" "sound s0 v" for v
    using assms live_root [OF that] by (auto simp: sound_def based_def)
  have "live s0 = reach (heap_car s) (heap_cdr s) {v \<in> all_roots s0. sound s0 v}"
    unfolding live_def
    by (rule reach_same [symmetric]) (use assms in \<open>auto simp: based_def live_def same_cells_def\<close>)
  also have "\<dots> \<subseteq> live s"
    unfolding live_def by (rule reach_mono) (use roots snd in auto)
  finally show ?thesis .
qed

lemma based_keeping:
  assumes b: "based s0 c s" and k: "keeping V s s'"
  shows "based s0 c s'"
proof -
  have x: "extends s s'" and f: "alloc_frame s s'" using k by (simp_all add: keeping_def)
  have "gc_root_count s' = gc_root_count s" "gc_roots s' = gc_roots s" "global_env s' = global_env s"
    "wind_after s' = wind_after s" "wind_depth s' = wind_depth s" "catch_tags s' = catch_tags s"
    "catch_vals s' = catch_vals s" "catch_depth s' = catch_depth s"
    using f by (auto simp: alloc_frame_def)
  with b x based_live [OF b] show ?thesis
    by (auto simp: based_def extends_def same_cells_def)
qed

lemma segment_sound:
  "heap_ok s \<Longrightarrow> sound s v \<Longrightarrow> segment s v xs t \<Longrightarrow> sound s t \<and> (\<forall>x\<in>set xs. sound s x)"
proof (induction xs arbitrary: v)
  case (Cons x xs)
  then have "cell_of v \<in> used s" by (auto simp: sound_def cons_ptr)
  then have "sound s (heap_car s (cell_of v))" "sound s (heap_cdr s (cell_of v))"
    using Cons.prems(1) by (auto simp: heap_ok_def)
  with Cons show ?case by auto
qed auto

lemma set_root_based:
  assumes "based s0 c s" and "i = 1 \<or> i = 2"
  shows "set_root i v s = Done () (s\<lparr>gc_roots := (gc_roots s)(c + 2 - unat i := v)\<rparr>)"
proof -
  have "of_nat (c + 2) - i = (of_nat (c + 2 - unat i) :: i24)"
    using assms(2) by auto
  moreover have "unat (of_nat (c + 2 - unat i) :: i24) = c + 2 - unat i"
    using assms by (intro unat_root) (auto simp: based_def)
  ultimately show ?thesis
    using assms by (auto simp: set_root_def based_def)
qed

lemma bind_loop_spec:
  "based s0 c s \<Longrightarrow> segment s params ps t \<Longrightarrow> segment s args vs r \<Longrightarrow> length ps = length vs \<Longrightarrow> IS_SYMBOL t \<Longrightarrow>
   sound s params \<Longrightarrow> sound s args \<Longrightarrow> sound s env \<Longrightarrow> alist_at s env bs \<Longrightarrow>
   bind_loop k params args env s = Done e s' \<Longrightarrow>
   based s0 c s' \<and> sound s' e \<and> alist_at s' e ((t, r) # rev (zip ps vs) @ bs)"
proof (induction ps arbitrary: s params args env vs bs k)
  case Nil
  then obtain m where k: "k = Suc m" by (cases k) auto
  from Nil have p: "params = t" "args = r" "\<not> IS_CONS t" using tag_exclusive(2) by auto
  have ok: "heap_ok s" using Nil.prems(1) by (simp add: based_def)
  from Nil.prems(5,10) k p have "hold [params, args, env] (env_extend params args env) s = Done e s'" by simp
  from hold_extend [OF this ok] Nil.prems have "keeping (insert env (set [params, args, env])) s s'" "sound s' e"
    "alist_at s' e ((params, args) # bs)" by auto
  with based_keeping [OF Nil.prems(1)] p Nil.prems(4) show ?case by auto
next
  case (Cons p ps)
  then obtain m where k: "k = Suc m" by (cases k) auto
  from Cons.prems(4) obtain v vs' where vs: "vs = v # vs'" by (cases vs) auto
  from Cons.prems(2,3) vs have cp: "IS_CONS params" "cell_of params < HEAP_SIZE" "heap_car s (cell_of params) = p"
    and ca: "IS_CONS args" "cell_of args < HEAP_SIZE" "heap_car s (cell_of args) = v" by auto
  let ?s = "s\<lparr>gc_roots := (gc_roots s)(c := env)\<rparr>"
  have b: "based s0 c ?s" by (rule based_set [OF Cons.prems(1,8)]) simp
  then have ok: "heap_ok ?s" by (simp add: based_def)
  have "heap_ok s" using Cons.prems(1) by (simp add: based_def)
  then have snd: "sound ?s p" "sound ?s v"
    using segment_sound [OF _ Cons.prems(6,2)] segment_sound [OF _ Cons.prems(7,3)] vs by auto
  have r2: "set_root 2 env s = Done () ?s"
    using set_root_based [OF Cons.prems(1), of 2 env] by simp
  from Cons.prems(10) k cp ca r2 obtain e1 s1 where
    x: "hold [params, args, env] (env_extend p v env) ?s = Done e1 s1"
    and rest: "bnd (cdr params) (\<lambda>params. bnd (cdr args) (\<lambda>args. bnd (set_root 1 args) (\<lambda>_.
      bind_loop m params args e1))) s1 = Done e s'"
    by (auto simp: car_eq bnd_step elim: bnd_Done_E)
  have ws: "\<forall>w\<in>set [params, args, env]. sound ?s w" "sound ?s env" using Cons.prems(6-8) by auto
  from hold_extend [OF x ok snd ws(2,1)] have kp: "keeping (insert env (set [params, args, env])) ?s s1"
    and e1: "sound s1 e1" "\<And>bs. alist_at ?s env bs \<Longrightarrow> alist_at s1 e1 ((p, v) # bs)" by auto
  have b1: "based s0 c s1" by (rule based_keeping [OF b kp])
  have al: "alist_at ?s env bs" using Cons.prems(9) by (rule alist_same) (simp add: same_cells_def)
  have sp: "same_cells s s1 (cells_of s params)" "sound s1 params" "same_cells s s1 (cells_of s args)" "sound s1 args"
    using kp by (auto simp: keeping_def same_cells_def)
  from segment_same [OF Cons.prems(2) sp(1)] segment_same [OF Cons.prems(3) sp(3)] vs
  have seg: "segment s1 (heap_cdr s1 (cell_of params)) ps t" "segment s1 (heap_cdr s1 (cell_of args)) vs' r" by auto
  have "cell_of params \<in> used s1" "cell_of args \<in> used s1"
    using sp(2,4) cp(1) ca(1) by (auto simp: sound_def cons_ptr)
  then have sc: "sound s1 (heap_cdr s1 (cell_of params))" "sound s1 (heap_cdr s1 (cell_of args))"
    using b1 by (auto simp: based_def heap_ok_def)
  let ?t = "s1\<lparr>gc_roots := (gc_roots s1)(Suc c := heap_cdr s1 (cell_of args))\<rparr>"
  have bt: "based s0 c ?t" by (rule based_set [OF b1 sc(2)]) simp
  have r1: "set_root 1 (heap_cdr s1 (cell_of args)) s1 = Done () ?t"
    using set_root_based [OF b1, of 1 "heap_cdr s1 (cell_of args)"] by simp
  have run: "bind_loop m (heap_cdr s1 (cell_of params)) (heap_cdr s1 (cell_of args)) e1 ?t = Done e s'"
    using rest cp ca r1 by (simp add: cdr_eq bnd_step)
  have same: "same_cells s1 ?t A" for A by (simp add: same_cells_def)
  have "based s0 c s' \<and> sound s' e \<and> alist_at s' e ((t, r) # rev (zip ps vs') @ (p, v) # bs)"
    using Cons.prems(4,5) vs
    by (intro Cons.IH [OF bt segment_same [OF seg(1) same] segment_same [OF seg(2) same] _ _ _ _ _ alist_same [OF e1(2) [OF al] same] run])
      (simp_all add: sc e1(1))
  with vs show ?case by simp
qed


lemma gc_protect_Done:
  assumes "gc_protect v s = Done a s'" and "counts_ok s"
  obtains c where "c < MAX_GC_ROOTS" and "gc_root_count s = of_nat c"
    and "s' = s\<lparr>gc_roots := (gc_roots s)(c := v), gc_root_count := of_nat (Suc c)\<rparr>"
proof -
  let ?c = "unat (gc_root_count s)"
  have "?c < MAX_GC_ROOTS" "s' = s\<lparr>gc_roots := (gc_roots s)(?c := v), gc_root_count := gc_root_count s + 1\<rparr>"
    using assms(1) by (auto simp: gc_protect_def split: if_splits)
  moreover have "gc_root_count s + 1 = of_nat (Suc ?c)" by simp
  ultimately show ?thesis by (intro that [of ?c]) simp_all
qed

lemma protect_based:
  assumes "gc_protect v s = Done a s1" and "gc_protect w s1 = Done b s2" and "heap_ok s"
    and "sound s v" and "sound s w"
  shows "\<exists>c. based s c s2"
proof -
  have ok: "counts_ok s" using assms(3) by (simp add: heap_ok_def)
  from gc_protect_Done [OF assms(1) ok] obtain c where c: "c < MAX_GC_ROOTS" "gc_root_count s = of_nat c"
    "s1 = s\<lparr>gc_roots := (gc_roots s)(c := v), gc_root_count := of_nat (Suc c)\<rparr>" by blast
  have "counts_ok s1" using ok c(1) count_root [of "Suc c"] by (simp add: c(3) counts_ok_def)
  from gc_protect_Done [OF assms(2) this] obtain d where d: "d < MAX_GC_ROOTS" "gc_root_count s1 = of_nat d"
    "s2 = s1\<lparr>gc_roots := (gc_roots s1)(d := w), gc_root_count := of_nat (Suc d)\<rparr>" by blast
  have "gc_root_count s1 = of_nat (Suc c)" by (simp add: c(3))
  then have "of_nat d = (of_nat (Suc c) :: i24)" using d(2) by metis
  then have dc: "d = Suc c"
    using unat_root [of d] unat_root [of "Suc c"] c(1) d(1) by (metis Suc_leI less_imp_le)
  have s2: "s2 = s\<lparr>gc_roots := (gc_roots s)(c := v, Suc c := w), gc_root_count := of_nat (c + 2)\<rparr>"
    unfolding d(3) c(3) dc by simp
  have m: "c + 2 \<le> MAX_GC_ROOTS" using d(1) dc by simp
  have n: "count_to (of_nat (c + 2)) = c + 2" "count_to (gc_root_count s) = c"
    using count_root [of "c + 2"] count_root [of c] c m by simp_all
  have "own_roots s2 \<subseteq> insert v (insert w (own_roots s))"
    using n by (force simp: own_roots_def s2 less_Suc_eq)
  moreover have "\<forall>x\<in>own_roots s. sound s x" using assms(3) by (simp add: heap_ok_def)
  ultimately have "\<forall>x\<in>own_roots s2. sound s x" using assms(4,5) by blast
  then have "heap_ok s2"
    using assms(3) n m by (auto simp: s2 heap_ok_def counts_ok_def free_ok_def)
  then show ?thesis
    using c m live_used [OF assms(3)] by (auto simp: s2 based_def same_cells_def intro!: exI [of _ c])
qed

lemma based_done:
  assumes b: "based s c s2"
  shows "heap_ok (s2\<lparr>gc_root_count := gc_root_count s2 - 2\<rparr>)"
proof -
  let ?s = "s2\<lparr>gc_root_count := gc_root_count s2 - 2\<rparr>"
  have n: "gc_root_count ?s = of_nat c" "count_to (of_nat c) = c" "count_to (gc_root_count s) = c"
    using b count_root [of c] by (auto simp: based_def)
  have "own_roots ?s = own_roots s"
    using b n by (simp add: own_roots_def based_def)
  then have "own_roots ?s \<subseteq> own_roots s2" using based_roots [OF b] by blast
  with b n count_root [of "c + 2"] show ?thesis
    by (auto simp: based_def heap_ok_def counts_ok_def free_ok_def)
qed

text \<open>Calling a closure binds its parameters, in order, to the arguments, in front of the
  environment it was made in, and the end of the parameter list, a rest parameter or nil, to the
  remaining arguments; collections on the way lose and change nothing, and the root stack is as
  before.\<close>

lemma env_bind_binds:
  assumes "env_bind params args env s = Done e s'" and "heap_ok s"
    and "sound s params" and "sound s args" and "sound s env"
    and "segment s params ps t" and "segment s args vs r" and "length ps = length vs" and "IS_SYMBOL t"
    and "alist_at s env bs"
  shows "alist_at s' e ((t, r) # rev (zip ps vs) @ bs) \<and> heap_ok s' \<and> sound s' e \<and>
    gc_root_count s' = gc_root_count s \<and> same_cells s s' (live s)"
proof -
  from assms(1) obtain a b s1 s2 s3 where p: "gc_protect env s = Done a s1" "gc_protect args s1 = Done b s2"
    and l: "bind_loop walk_fuel params args env s2 = Done e s3"
    and s': "s' = s3\<lparr>gc_root_count := gc_root_count s3 - 2\<rparr>"
    by (auto simp: env_bind_def gc_unprotect_def elim!: bnd_Done_E)
  from protect_based [OF p assms(2,5,4)] obtain c where b: "based s c s2" by blast
  have h: "heap_car s2 = heap_car s" "heap_cdr s2 = heap_cdr s" and snd: "sound s2 x = sound s x" for x
    using p by (auto simp: gc_protect_def split: if_splits)
  have same: "same_cells s s2 A" for A by (simp add: same_cells_def h)
  from bind_loop_spec [OF b segment_same [OF assms(6) same] segment_same [OF assms(7) same] assms(8,9) _ _ _
      alist_same [OF assms(10) same] l] assms(3-5) snd
  have "based s c s3" "sound s3 e" "alist_at s3 e ((t, r) # rev (zip ps vs) @ bs)" by auto
  moreover from this have "alist_at s' e ((t, r) # rev (zip ps vs) @ bs)"
    by (elim alist_same) (simp add: s' same_cells_def)
  ultimately show ?thesis
    using based_done [of s c s3] by (simp del: alist_at.simps add: s') (simp add: same_cells_def based_def)
qed

text \<open>Binding \<open>(x)\<close> to \<open>(7)\<close> in a heap that holds the two lists.\<close>

definition two_lists :: lisp where
  "two_lists = zeroed\<lparr>global_env := NIL_VAL, free_list := -1, heap_next := 2,
     heap_car := (\<lambda>_. NIL_VAL)(0 := MAKE_SYMBOL 5, 1 := MAKE_FIXNUM 7), heap_cdr := (\<lambda>_. NIL_VAL)\<rparr>"

lemma two_lists_ok: "heap_ok two_lists"
  by (auto simp: heap_ok_def free_ok_def counts_ok_def own_roots_def two_lists_def zeroed_def count_to_def
      sound_def IS_PTR_def HEAP_SIZE_def intro!: exI [of _ "[]"])

lemma cons_bump:
  assumes "\<not> gc_enabled s" and "heap_next s = of_nat n" and "n < HEAP_SIZE"
  shows "cons a d s = Done (MAKE_CONS (of_nat n)) (s\<lparr>heap_next := of_nat (Suc n),
     heap_car := (heap_car s)(n := a), heap_cdr := (heap_cdr s)(n := d)\<rparr>)"
proof -
  have "unat (of_nat n :: i24) = n" "sint (of_nat n :: i24) = int n"
    using assms(3) by (simp_all add: HEAP_SIZE_def sint_of_nat_small)
  with assms show ?thesis
    by (simp add: cons_def hold_def alloc_cell_def bump_def poke_car_def poke_cdr_def bnd_def HEAP_SIZE_def)
qed

lemma env_bind_binds_witness:
  "\<exists>e s'. env_bind (MAKE_CONS 0) (MAKE_CONS 1) NIL_VAL two_lists = Done e s' \<and>
     alist_at s' e [(NIL_VAL, NIL_VAL), (MAKE_SYMBOL 5, MAKE_FIXNUM 7)] \<and> heap_ok s'"
proof -
  have cells: "cell_of (MAKE_CONS 0) = 0" "cell_of (MAKE_CONS 1) = 1"
    using cell_of_make(1) [of 0] cell_of_make(1) [of 1] by (simp_all add: HEAP_SIZE_def)
  let ?s = "two_lists\<lparr>gc_roots := (\<lambda>_. 0)(0 := NIL_VAL, Suc 0 := MAKE_CONS 1), gc_root_count := 2\<rparr>"
  have p: "env_bind (MAKE_CONS 0) (MAKE_CONS 1) NIL_VAL two_lists =
      bnd (bind_loop walk_fuel (MAKE_CONS 0) (MAKE_CONS 1) NIL_VAL) (\<lambda>env. bnd (gc_unprotect 2) (\<lambda>_. ret env)) ?s"
    by (simp add: env_bind_def gc_protect_def bnd_def MAX_GC_ROOTS_def two_lists_def zeroed_def)
  have "\<exists>e s'. bind_loop (Suc (Suc k)) (MAKE_CONS 0) (MAKE_CONS 1) NIL_VAL ?s = Done e s'" for k
    by (simp add: bnd_def MAX_GC_ROOTS_def set_root_def car_eq cdr_eq cells HEAP_SIZE_def
        hold_def env_extend_def cons_bump [of _ 2] cons_bump [of _ 3] cons_bump [of _ 4] cons_bump [of _ 5]
        two_lists_def zeroed_def)
  moreover have "walk_fuel = Suc (Suc (4 * HEAP_SIZE - 1))" by (simp add: walk_fuel_def HEAP_SIZE_def)
  ultimately have "\<exists>e s'. bind_loop walk_fuel (MAKE_CONS 0) (MAKE_CONS 1) NIL_VAL ?s = Done e s'" by metis
  then have "\<exists>e s'. env_bind (MAKE_CONS 0) (MAKE_CONS 1) NIL_VAL two_lists = Done e s'"
    unfolding p by (auto simp: bnd_Done gc_unprotect_def)
  then obtain e s' where r: "env_bind (MAKE_CONS 0) (MAKE_CONS 1) NIL_VAL two_lists = Done e s'" by blast
  have "free_ok two_lists []" by (simp add: free_ok_def two_lists_def zeroed_def)
  then have u: "used two_lists = {..<2}"
    by (simp add: used_free) (simp add: two_lists_def zeroed_def count_to_def)
  have "sound two_lists (MAKE_CONS 0)" "sound two_lists (MAKE_CONS 1)" "sound two_lists NIL_VAL"
    using cells u by (auto simp: sound_def)
  moreover have "segment two_lists (MAKE_CONS 0) [MAKE_SYMBOL 5] NIL_VAL" "segment two_lists (MAKE_CONS 1) [MAKE_FIXNUM 7] NIL_VAL"
    using cells by (auto simp: two_lists_def HEAP_SIZE_def)
  ultimately show ?thesis
    using env_bind_binds [OF r two_lists_ok, of "[MAKE_SYMBOL 5]" NIL_VAL "[MAKE_FIXNUM 7]" NIL_VAL "[]"] r
    by auto
qed

lemma lookup_innermost_witness:
  "env_lookup 1 (MAKE_SYMBOL 5) NIL_VAL two_lists =
    bnd (print_val 1 (MAKE_SYMBOL 5)) (\<lambda>_. bnd (putc_uart (CHR 0x0A)) (\<lambda>_. ret NIL_VAL)) (says ''ERR:unbound '' two_lists)"
  using lookup_innermost [of two_lists NIL_VAL "[]" "[]" 0 "MAKE_SYMBOL 5"]
  by (simp add: two_lists_def zeroed_def)

end
