(* ===== verification/Tml_Eval.thy ===== *)
theory Tml_Eval
  imports Tml_Prims
begin

text \<open>
  The evaluator of \<open>eval.h\<close>.  \<open>eval\<close> and \<open>apply_fn\<close> call each other through everything else, so
  the other functions take them as the arguments \<open>ev\<close> and \<open>ap\<close>; the knot is tied on fuel at the
  end.  The loops that evaluate or walk a list have the fuel \<open>k\<close>.  A \<open>continue\<close> of the loop in
  \<open>eval\<close> is a call of \<open>ev\<close> in the same frame.
\<close>

type_synonym evaluator = "i24 \<Rightarrow> i24 \<Rightarrow> i24 act"

section \<open>Argument lists\<close>

fun list_loop :: "nat \<Rightarrow> evaluator \<Rightarrow> i24 \<Rightarrow> i24 \<Rightarrow> i24 \<Rightarrow> i24 \<Rightarrow> i24 act" where
  "list_loop 0 ev env result tail args = starved"
| "list_loop (Suc k) ev env result tail args =
     (if IS_CONS args
      then bnd (car args) (\<lambda>e. bnd (hold [args, env, result, tail] (ev e env)) (\<lambda>val.
        bnd (get catch_throwing) (\<lambda>throwing. if throwing
        then bnd (gc_unprotect 1) (\<lambda>_. ret NIL_VAL)
        else bnd (hold [args, env, val, result, tail] (cons val NIL_VAL)) (\<lambda>cell.
          bnd (poke_cdr (PTR_IDX tail) cell) (\<lambda>_. bnd (cdr args) (\<lambda>args.
          list_loop k ev env result cell args))))))
      else bnd (gc_unprotect 1) (\<lambda>_. ret result))"

definition eval_list :: "nat \<Rightarrow> evaluator \<Rightarrow> i24 \<Rightarrow> i24 \<Rightarrow> i24 act" where
  "eval_list k ev args env = (if IS_NIL args then ret NIL_VAL
     else bnd (car args) (\<lambda>e. bnd (hold [args, env] (ev e env)) (\<lambda>val.
       bnd (get catch_throwing) (\<lambda>throwing. if throwing then ret NIL_VAL
       else bnd (hold [args, env, val] (cons val NIL_VAL)) (\<lambda>result.
         bnd (gc_protect result) (\<lambda>_. bnd (cdr args) (\<lambda>args.
         list_loop k ev env result result args)))))))"

section \<open>Escapes\<close>

definition peek_tag :: "i24 \<Rightarrow> i24 act" where
  "peek_tag i s = (if unat i < MAX_CATCH_DEPTH then Done (catch_tags s (unat i)) s else Wild)"

definition peek_val :: "i24 \<Rightarrow> i24 act" where
  "peek_val i s = (if unat i < MAX_CATCH_DEPTH then Done (catch_vals s (unat i)) s else Wild)"

definition poke_tag :: "i24 \<Rightarrow> i24 \<Rightarrow> unit act" where
  "poke_tag i v s = (if unat i < MAX_CATCH_DEPTH
     then Done () (s\<lparr>catch_tags := (catch_tags s)(unat i := v)\<rparr>) else Wild)"

definition poke_val :: "i24 \<Rightarrow> i24 \<Rightarrow> unit act" where
  "poke_val i v s = (if unat i < MAX_CATCH_DEPTH
     then Done () (s\<lparr>catch_vals := (catch_vals s)(unat i := v)\<rparr>) else Wild)"

definition peek_after :: "i24 \<Rightarrow> i24 act" where
  "peek_after i s = (if unat i < MAX_WIND_DEPTH then Done (wind_after s (unat i)) s else Wild)"

definition poke_after :: "i24 \<Rightarrow> i24 \<Rightarrow> unit act" where
  "poke_after i v s = (if unat i < MAX_WIND_DEPTH
     then Done () (s\<lparr>wind_after := (wind_after s)(unat i := v)\<rparr>) else Wild)"

text \<open>The search for the innermost catch of a tag among the lowest \<open>i\<close> frames.\<close>

fun find_catch :: "nat \<Rightarrow> i24 \<Rightarrow> i24 option act" where
  "find_catch 0 tag = ret None"
| "find_catch (Suc i) tag = bnd (peek_tag (of_nat i)) (\<lambda>t.
     if t = tag then ret (Some (of_nat i)) else find_catch i tag)"

text \<open>The loop that runs the after thunks.\<close>

fun unwind :: "nat \<Rightarrow> evaluator \<Rightarrow> i24 list \<Rightarrow> unit act" where
  "unwind 0 ap fr = starved"
| "unwind (Suc k) ap fr = bnd (get wind_depth) (\<lambda>w. if sint w > 0
     then bnd (peek_after (w - 1)) (\<lambda>after. bnd (upd (\<lambda>s. s\<lparr>wind_depth := w - 1\<rparr>)) (\<lambda>_.
       bnd (hold (fr @ [after]) (ap after NIL_VAL)) (\<lambda>_. unwind k ap fr)))
     else ret ())"

definition prim_throw :: "nat \<Rightarrow> evaluator \<Rightarrow> i24 list \<Rightarrow> i24 \<Rightarrow> i24 \<Rightarrow> i24 act" where
  "prim_throw k ap fr tag val = bnd (get catch_depth) (\<lambda>depth. bnd (find_catch (nat (sint depth)) tag) (\<lambda>r.
     case r of
       Some i \<Rightarrow> bnd (unwind k ap (fr @ [tag, val])) (\<lambda>_.
         bnd (upd (\<lambda>s. s\<lparr>catch_throwing := True\<rparr>)) (\<lambda>_.
         bnd (upd (\<lambda>s. s\<lparr>catch_target := i\<rparr>)) (\<lambda>_.
         bnd (poke_val i val) (\<lambda>_. ret NIL_VAL))))
     | None \<Rightarrow> bnd (puts_str ''ERR:no-catch '') (\<lambda>_. bnd (print_val k tag) (\<lambda>_.
         bnd (putc_uart (CHR 0x0A)) (\<lambda>_. ret NIL_VAL)))))"

definition prim_wind :: "evaluator \<Rightarrow> i24 \<Rightarrow> i24 \<Rightarrow> i24 \<Rightarrow> i24 act" where
  "prim_wind ap args before thunk = bnd (cdr args) (\<lambda>r. bnd (cdr r) (\<lambda>r. bnd (car r) (\<lambda>after.
     let fr = [args, before, thunk, after] in
     bnd (hold fr (ap before NIL_VAL)) (\<lambda>_. bnd (get wind_depth) (\<lambda>saved.
     if sint saved \<ge> int MAX_WIND_DEPTH
     then bnd (puts_str ''ERR:wind-overflow\<newline>'') (\<lambda>_. ret NIL_VAL)
     else bnd (poke_after saved after) (\<lambda>_. bnd (upd (\<lambda>s. s\<lparr>wind_depth := saved + 1\<rparr>)) (\<lambda>_.
       bnd (hold fr (ap thunk NIL_VAL)) (\<lambda>result.
       bnd (upd (\<lambda>s. s\<lparr>wind_depth := saved\<rparr>)) (\<lambda>_. bnd (get catch_throwing) (\<lambda>throwing.
       bnd (if throwing then ret NIL_VAL else hold (fr @ [result]) (ap after NIL_VAL)) (\<lambda>_.
       ret result)))))))))))"

section \<open>Primitives\<close>

text \<open>\<open>macroexpand-1\<close> looks the macro up without the error message.\<close>

definition prim_macroexpand :: "evaluator \<Rightarrow> i24 \<Rightarrow> i24 \<Rightarrow> i24 act" where
  "prim_macroexpand ev args a = (if \<not> IS_CONS a then ret a
     else bnd (car a) (\<lambda>mhead. bnd (cdr a) (\<lambda>margs. if IS_SYMBOL mhead
       then bnd (get global_env) (\<lambda>g. bnd (find_binding walk_fuel mhead g) (\<lambda>r.
         bnd (case r of Some b \<Rightarrow> cdr b | None \<Rightarrow> ret NIL_VAL) (\<lambda>fn.
         bnd (if IS_EXTENDED fn then bnd (ext_type fn) (\<lambda>t. ret (t = ETYPE_MACRO)) else ret False) (\<lambda>macro.
         if macro
         then bnd (closure_params fn) (\<lambda>ps. bnd (closure_env fn) (\<lambda>ce.
           bnd (hold [args, a, mhead, margs, fn] (env_bind ps margs ce)) (\<lambda>mac_env.
           bnd (closure_body fn) (\<lambda>body.
           hold [args, a, mhead, margs, fn, mac_env] (ev body mac_env)))))
         else ret a))))
       else ret a)))"

definition prim_fn :: "i24 \<Rightarrow> i24 act" where
  "prim_fn a = (if IS_EXTENDED a
     then bnd (ext_type a) (\<lambda>t. truth (t = ETYPE_CLOSURE \<or> t = ETYPE_PRIMITIVE)) else truth False)"

text \<open>\<open>peek\<close> and \<open>poke\<close> reach memory outside the model.\<close>

definition apply_primitive :: "nat \<Rightarrow> evaluator \<Rightarrow> evaluator \<Rightarrow> i24 \<Rightarrow> i24 \<Rightarrow> i24 act" where
  "apply_primitive k ev ap pid args =
     bnd (if IS_NIL args then ret NIL_VAL else car args) (\<lambda>a.
     bnd (if IS_NIL args then ret NIL_VAL
       else bnd (cdr args) (\<lambda>r. if IS_NIL r then ret NIL_VAL else car r)) (\<lambda>b.
     if pid = PRIM_ADD \<or> pid = PRIM_SUB \<or> pid = PRIM_MUL then prim_arith pid args
     else if pid = PRIM_DIV \<or> pid = PRIM_MOD \<or> pid = PRIM_LT \<or> pid = PRIM_EQ_NUM then prim_binary pid a b
     else if pid = PRIM_CONS then hold [args, a, b] (cons a b)
     else if pid = PRIM_CAR
     then (if \<not> IS_CONS a then bnd (puts_str ''ERR:car-of-non-pair\<newline>'') (\<lambda>_. ret NIL_VAL) else car a)
     else if pid = PRIM_CDR
     then (if \<not> IS_CONS a then bnd (puts_str ''ERR:cdr-of-non-pair\<newline>'') (\<lambda>_. ret NIL_VAL) else cdr a)
     else if pid = PRIM_LIST then ret args
     else if pid = PRIM_NULLP then truth (IS_NIL a)
     else if pid = PRIM_PAIRP then truth (IS_CONS a)
     else if pid = PRIM_ATOMP then truth (\<not> IS_CONS a)
     else if pid = PRIM_EQP then truth (a = b)
     else if pid = PRIM_NOT then truth (IS_NIL a)
     else if pid = PRIM_PRINT then bnd (print_val k a) (\<lambda>_. ret a)
     else if pid = PRIM_PRINTLN then bnd (print_val k a) (\<lambda>_. bnd (putc_uart (CHR 0x0A)) (\<lambda>_. ret a))
     else if pid = PRIM_NEWLINE then bnd (putc_uart (CHR 0x0A)) (\<lambda>_. ret NIL_VAL)
     else if pid = PRIM_NUMP then truth (IS_FIXNUM a)
     else if pid = PRIM_SYMBOLP then truth (IS_SYMBOL a \<and> \<not> IS_NIL a \<and> a \<noteq> T_VAL)
     else if pid = PRIM_FORMAT then prim_format args a b
     else if pid = PRIM_CHR_TO_INT then ret a
     else if pid = PRIM_INT_TO_CHR then ret a
     else if pid = PRIM_STR_INDEX then prim_index a b
     else if pid = PRIM_STR_CONTAINS then prim_contains a b
     else if pid = PRIM_SUBSTR then prim_substring args a b
     else if pid = PRIM_EXIT then bnd (puts_str ''Bye.\<newline>'') (\<lambda>_. halt)
     else if pid = PRIM_PEEK then wild
     else if pid = PRIM_POKE then wild
     else if pid = PRIM_DELAY then ret NIL_VAL
     else if pid = PRIM_APPLY then hold [args, a, b] (ap a b)
     else if pid = PRIM_STR_LEN then bnd (string_len a) (\<lambda>n. ret (MAKE_FIXNUM n))
     else if pid = PRIM_STR_REF then bnd (string_ref a (FIXNUM_VAL b)) (\<lambda>c. ret (MAKE_FIXNUM c))
     else if pid = PRIM_STR_APPEND then hold [args, a, b] (string_append a b)
     else if pid = PRIM_STR_EQ then bnd (string_equal a b) truth
     else if pid = PRIM_STRINGP then bnd (is_string a) truth
     else if pid = PRIM_DISPLAY then prim_display k a
     else if pid = PRIM_GC
     then bnd (hold [args, a, b] gc_collect) (\<lambda>_. bnd gc_count_free (\<lambda>n. ret (MAKE_FIXNUM n)))
     else if pid = PRIM_HEAP_USED
     then bnd gc_count_free (\<lambda>n. bnd (get heap_next) (\<lambda>h. ret (MAKE_FIXNUM (h - n))))
     else if pid = PRIM_HEAP_SIZE then ret (MAKE_FIXNUM (of_nat HEAP_SIZE))
     else if pid = PRIM_FNQP then prim_fn a
     else if pid = PRIM_EVAL then bnd (get global_env) (\<lambda>g. hold [args, a, b] (ev a g))
     else if pid = PRIM_MACEXPAND then prim_macroexpand ev args a
     else if pid = PRIM_GENSYM then prim_gensym
     else if pid = PRIM_SYM_TO_STR
     then bnd (if IS_SYMBOL a then symbol_text a else ret []) (\<lambda>name. hold [args, a, b] (make_string name))
     else if pid = PRIM_STR_TO_SYM then prim_string_to_symbol a
     else if pid = PRIM_THROW then prim_throw k ap [args, a, b] a b
     else if pid = PRIM_DYN_WIND then prim_wind ap args a b
     else if pid = PRIM_NUM_TO_STR then hold [args, a, b] (number_to_string a)
     else ret NIL_VAL))"

section \<open>Quasiquotation\<close>

text \<open>A new last cell of the list under construction.\<close>

definition link_cell :: "i24 \<Rightarrow> i24 \<Rightarrow> i24 \<Rightarrow> i24 act" where
  "link_cell result tail cell = (if IS_NIL result then ret cell
     else bnd (poke_cdr (PTR_IDX tail) cell) (\<lambda>_. ret result))"

fun splice_loop :: "nat \<Rightarrow> i24 list \<Rightarrow> i24 \<Rightarrow> i24 \<Rightarrow> i24 \<Rightarrow> (i24 \<times> i24) act" where
  "splice_loop 0 fr spliced result tail = starved"
| "splice_loop (Suc k) fr spliced result tail =
     (if IS_CONS spliced
      then bnd (car spliced) (\<lambda>x. bnd (hold (fr @ [spliced, result, tail]) (cons x NIL_VAL)) (\<lambda>cell.
        bnd (link_cell result tail cell) (\<lambda>result. bnd (cdr spliced) (\<lambda>spliced.
        splice_loop k fr spliced result cell))))
      else ret (result, tail))"

fun qq_expand :: "nat \<Rightarrow> evaluator \<Rightarrow> i24 \<Rightarrow> i24 \<Rightarrow> i24 act"
  and qq_loop :: "nat \<Rightarrow> evaluator \<Rightarrow> i24 \<Rightarrow> i24 \<Rightarrow> i24 \<Rightarrow> i24 \<Rightarrow> i24 \<Rightarrow> i24 act" where
  "qq_expand 0 ev tmpl env = starved"
| "qq_expand (Suc k) ev tmpl env = (if \<not> IS_CONS tmpl then ret tmpl
     else bnd (car tmpl) (\<lambda>head. bnd (get special_sym) (\<lambda>sp. if head = sp Unquote
       then bnd (cdr tmpl) (\<lambda>r. bnd (car r) (\<lambda>e. hold [tmpl, env, head] (ev e env)))
       else qq_loop k ev tmpl env NIL_VAL NIL_VAL tmpl)))"
| "qq_loop 0 ev tmpl env result tail rest = starved"
| "qq_loop (Suc k) ev tmpl env result tail rest =
     (if IS_CONS rest
      then bnd (car rest) (\<lambda>elem. bnd (get special_sym) (\<lambda>sp.
        bnd (if IS_CONS elem then bnd (car elem) (\<lambda>h. ret (h = sp Unquote_splicing)) else ret False) (\<lambda>splicing.
        bnd (if splicing
          then bnd (cdr elem) (\<lambda>r. bnd (car r) (\<lambda>e.
            bnd (hold [tmpl, env, result, tail, rest, elem] (ev e env)) (\<lambda>spliced.
            splice_loop k [tmpl, env, rest, elem] spliced result tail)))
          else bnd (hold [tmpl, env, result, tail, rest, elem] (qq_expand k ev elem env)) (\<lambda>expanded.
            bnd (hold [tmpl, env, result, tail, rest, elem, expanded] (cons expanded NIL_VAL)) (\<lambda>cell.
            bnd (link_cell result tail cell) (\<lambda>result. ret (result, cell)))))
        (\<lambda>(result, tail). bnd (cdr rest) (\<lambda>rest. qq_loop k ev tmpl env result tail rest)))))
      else bnd (if \<not> IS_NIL rest \<and> \<not> IS_NIL tail
          then bnd (hold [tmpl, env, result, tail, rest] (qq_expand k ev rest env)) (poke_cdr (PTR_IDX tail))
          else ret ())
        (\<lambda>_. ret result))"

section \<open>Special forms\<close>

text \<open>The body of a definition: one form, or several wrapped in \<open>begin\<close>.\<close>

definition body_form :: "i24 list \<Rightarrow> i24 \<Rightarrow> i24 act" where
  "body_form fr forms = bnd (cdr forms) (\<lambda>r. if IS_NIL r then car forms
     else bnd (get special_sym) (\<lambda>sp. hold (fr @ [forms]) (cons (sp Begin) forms)))"

text \<open>\<open>global_env = env_extend(name, val, global_env)\<close>\<close>

definition define_global :: "i24 list \<Rightarrow> i24 \<Rightarrow> i24 \<Rightarrow> i24 act" where
  "define_global fr name val = bnd (get global_env) (\<lambda>g.
     bnd (hold (fr @ [name, val]) (env_extend name val g)) (\<lambda>g.
     bnd (upd (\<lambda>s. s\<lparr>global_env := g\<rparr>)) (\<lambda>_. ret val)))"

definition eval_if :: "evaluator \<Rightarrow> i24 list \<Rightarrow> i24 \<Rightarrow> i24 \<Rightarrow> i24 act" where
  "eval_if ev fr args env = bnd (car args) (\<lambda>c. bnd (hold fr (ev c env)) (\<lambda>cond_val.
     bnd (get catch_throwing) (\<lambda>throwing. if throwing then ret NIL_VAL
     else if \<not> IS_NIL cond_val then bnd (cdr args) (\<lambda>r. bnd (car r) (\<lambda>e. ev e env))
     else bnd (cdr args) (\<lambda>r. bnd (cdr r) (\<lambda>else_part. if IS_NIL else_part then ret NIL_VAL
       else bnd (car else_part) (\<lambda>e. ev e env))))))"

definition eval_define :: "evaluator \<Rightarrow> i24 list \<Rightarrow> i24 \<Rightarrow> i24 \<Rightarrow> i24 act" where
  "eval_define ev fr args env = bnd (car args) (\<lambda>first.
     if IS_CONS first
     then bnd (car first) (\<lambda>name. bnd (cdr first) (\<lambda>params. bnd (cdr args) (\<lambda>forms.
       bnd (body_form (fr @ [first, name, params]) forms) (\<lambda>body.
       bnd (hold (fr @ [first, name, params, forms, body]) (make_closure params body env)) (\<lambda>val.
       define_global (fr @ [first, name, params, forms, body]) name val)))))
     else bnd (cdr args) (\<lambda>r. bnd (car r) (\<lambda>e. bnd (hold (fr @ [first]) (ev e env)) (\<lambda>val.
       bnd (get catch_throwing) (\<lambda>throwing. if throwing then ret NIL_VAL
       else define_global (fr @ [first]) first val)))))"

definition eval_set :: "nat \<Rightarrow> evaluator \<Rightarrow> i24 list \<Rightarrow> i24 \<Rightarrow> i24 \<Rightarrow> i24 act" where
  "eval_set k ev fr args env = bnd (car args) (\<lambda>name. bnd (cdr args) (\<lambda>r. bnd (car r) (\<lambda>e.
     bnd (hold (fr @ [name]) (ev e env)) (\<lambda>val. bnd (get catch_throwing) (\<lambda>throwing.
     if throwing then ret NIL_VAL
     else bnd (find_binding walk_fuel name env) (\<lambda>r. case r of
         Some b \<Rightarrow> bnd (poke_cdr (PTR_IDX b) val) (\<lambda>_. ret val)
       | None \<Rightarrow> bnd (get global_env) (\<lambda>g. bnd (find_binding walk_fuel name g) (\<lambda>r. case r of
           Some b \<Rightarrow> bnd (poke_cdr (PTR_IDX b) val) (\<lambda>_. ret val)
         | None \<Rightarrow> bnd (puts_str ''ERR:set!-unbound '') (\<lambda>_. bnd (print_val k name) (\<lambda>_.
             bnd (putc_uart (CHR 0x0A)) (\<lambda>_. ret NIL_VAL)))))))))))"

definition eval_lambda :: "i24 list \<Rightarrow> i24 \<Rightarrow> i24 \<Rightarrow> i24 act" where
  "eval_lambda fr args env = bnd (car args) (\<lambda>params. bnd (cdr args) (\<lambda>forms.
     bnd (body_form (fr @ [params]) forms) (\<lambda>body.
     hold (fr @ [params, forms, body]) (make_closure params body env))))"

definition eval_defmacro :: "i24 list \<Rightarrow> i24 \<Rightarrow> i24 \<Rightarrow> i24 act" where
  "eval_defmacro fr args env = bnd (car args) (\<lambda>name. bnd (cdr args) (\<lambda>r. bnd (car r) (\<lambda>mparams.
     bnd (cdr r) (\<lambda>forms. bnd (body_form (fr @ [name, mparams]) forms) (\<lambda>mbody.
     bnd (hold (fr @ [name, mparams, forms, mbody]) (make_macro mparams mbody env)) (\<lambda>mac.
     define_global (fr @ [mparams, forms, mbody]) name mac))))))"

definition eval_catch :: "evaluator \<Rightarrow> i24 list \<Rightarrow> i24 \<Rightarrow> i24 \<Rightarrow> i24 act" where
  "eval_catch ev fr args env = bnd (car args) (\<lambda>t. bnd (hold fr (ev t env)) (\<lambda>tag.
     bnd (get catch_throwing) (\<lambda>throwing. if throwing then ret NIL_VAL
     else bnd (get catch_depth) (\<lambda>saved.
       if sint saved \<ge> int MAX_CATCH_DEPTH
       then bnd (puts_str ''ERR:catch-overflow\<newline>'') (\<lambda>_. ret NIL_VAL)
       else bnd (poke_tag saved tag) (\<lambda>_. bnd (poke_val saved NIL_VAL) (\<lambda>_.
         bnd (upd (\<lambda>s. s\<lparr>catch_depth := saved + 1\<rparr>)) (\<lambda>_.
         bnd (cdr args) (\<lambda>r. bnd (car r) (\<lambda>e. bnd (hold (fr @ [tag]) (ev e env)) (\<lambda>result.
         bnd (upd (\<lambda>s. s\<lparr>catch_depth := saved\<rparr>)) (\<lambda>_.
         bnd (get catch_throwing) (\<lambda>throwing. bnd (get catch_target) (\<lambda>target.
         if throwing \<and> target = saved
         then bnd (upd (\<lambda>s. s\<lparr>catch_throwing := False\<rparr>)) (\<lambda>_. peek_val saved)
         else ret (if throwing then NIL_VAL else result))))))))))))))"

fun eval_begin :: "nat \<Rightarrow> evaluator \<Rightarrow> i24 list \<Rightarrow> i24 \<Rightarrow> i24 \<Rightarrow> i24 act" where
  "eval_begin 0 ev fr args env = starved"
| "eval_begin (Suc k) ev fr args env = bnd (cdr args) (\<lambda>r. if IS_NIL r
     then bnd (car args) (\<lambda>e. ev e env)
     else bnd (car args) (\<lambda>e. bnd (hold (fr @ [args]) (ev e env)) (\<lambda>_.
       bnd (get catch_throwing) (\<lambda>throwing. if throwing then ret NIL_VAL
       else bnd (cdr args) (\<lambda>args. eval_begin k ev fr args env)))))"

section \<open>Calls\<close>

definition eval_call :: "nat \<Rightarrow> evaluator \<Rightarrow> evaluator \<Rightarrow> i24 list \<Rightarrow> i24 \<Rightarrow> i24 \<Rightarrow> i24 \<Rightarrow> i24 act" where
  "eval_call k ev ap fr head args env = bnd (hold fr (ev head env)) (\<lambda>fn.
     bnd (get catch_throwing) (\<lambda>throwing. if throwing then ret NIL_VAL
     else bnd (if IS_EXTENDED fn then bnd (ext_type fn) (\<lambda>t. ret (t = ETYPE_MACRO)) else ret False) (\<lambda>macro.
       if macro
       then bnd (closure_params fn) (\<lambda>ps. bnd (closure_env fn) (\<lambda>ce.
         bnd (hold (fr @ [fn]) (env_bind ps args ce)) (\<lambda>mac_env.
         bnd (closure_body fn) (\<lambda>body. bnd (hold (fr @ [fn, mac_env]) (ev body mac_env)) (\<lambda>expanded.
         bnd (get catch_throwing) (\<lambda>throwing. if throwing then ret NIL_VAL
         else ev expanded env))))))
       else bnd (hold (fr @ [fn]) (eval_list k ev args env)) (\<lambda>evaled.
         bnd (get catch_throwing) (\<lambda>throwing. if throwing then ret NIL_VAL
         else if IS_EXTENDED fn
         then bnd (ext_type fn) (\<lambda>fn_type.
           if fn_type = ETYPE_CLOSURE
           then bnd (closure_params fn) (\<lambda>ps. bnd (closure_body fn) (\<lambda>body. bnd (closure_env fn) (\<lambda>ce.
             bnd (hold (fr @ [fn, evaled, ps, body, ce]) (env_bind ps evaled ce)) (\<lambda>env. ev body env))))
           else if fn_type = ETYPE_PRIMITIVE
           then bnd (ext_data fn) (\<lambda>d.
             hold (fr @ [fn, evaled]) (apply_primitive k ev ap (FIXNUM_VAL d) evaled))
           else bnd (puts_str ''ERR:not-fn\<newline>'') (\<lambda>_. ret NIL_VAL))
         else bnd (puts_str ''ERR:not-fn\<newline>'') (\<lambda>_. ret NIL_VAL))))))"

definition eval_turn :: "nat \<Rightarrow> evaluator \<Rightarrow> evaluator \<Rightarrow> evaluator" where
  "eval_turn k ev ap expr env =
     (if IS_FIXNUM expr \<or> IS_NIL expr \<or> expr = T_VAL \<or> IS_EXTENDED expr then ret expr
      else if IS_SYMBOL expr then env_lookup k expr env
      else bnd (car expr) (\<lambda>head. bnd (cdr expr) (\<lambda>args. bnd (get special_sym) (\<lambda>sp.
        let fr = [expr, env, head, args] in
        if head = sp Quote then car args
        else if head = sp Quasiquote then bnd (car args) (\<lambda>t. hold fr (qq_expand k ev t env))
        else if head = sp If then eval_if ev fr args env
        else if head = sp Define then eval_define ev fr args env
        else if head = sp Set then eval_set k ev fr args env
        else if head = sp Lambda then eval_lambda fr args env
        else if head = sp Defmacro then eval_defmacro fr args env
        else if head = sp Catch then eval_catch ev fr args env
        else if head = sp Begin
        then (if IS_NIL args then ret NIL_VAL else eval_begin k ev [expr, env, head] args env)
        else eval_call k ev ap fr head args env))))"

definition apply_turn :: "nat \<Rightarrow> evaluator \<Rightarrow> evaluator \<Rightarrow> evaluator" where
  "apply_turn k ev ap fn args =
     (if IS_EXTENDED fn
      then bnd (ext_type fn) (\<lambda>fn_type.
        if fn_type = ETYPE_CLOSURE
        then bnd (closure_params fn) (\<lambda>ps. bnd (closure_env fn) (\<lambda>ce.
          bnd (hold [fn, args] (env_bind ps args ce)) (\<lambda>bound_env.
          bnd (closure_body fn) (\<lambda>body. hold [fn, args, bound_env] (ev body bound_env)))))
        else if fn_type = ETYPE_PRIMITIVE
        then bnd (ext_data fn) (\<lambda>d. hold [fn, args] (apply_primitive k ev ap (FIXNUM_VAL d) args))
        else bnd (puts_str ''ERR:not-fn\<newline>'') (\<lambda>_. ret NIL_VAL))
      else bnd (puts_str ''ERR:not-fn\<newline>'') (\<lambda>_. ret NIL_VAL))"

fun eval :: "nat \<Rightarrow> evaluator" and apply_fn :: "nat \<Rightarrow> evaluator" where
  "eval 0 = (\<lambda>expr env. starved)"
| "eval (Suc n) = eval_turn n (eval n) (apply_fn n)"
| "apply_fn 0 = (\<lambda>fn args. starved)"
| "apply_fn (Suc n) = apply_turn n (eval n) (apply_fn n)"

section \<open>Initialisation\<close>

definition register_prim :: "string \<Rightarrow> i24 \<Rightarrow> unit act" where
  "register_prim name pid = bnd (intern name) (\<lambda>symb. bnd (make_primitive pid) (\<lambda>prim.
     bnd (get global_env) (\<lambda>g. bnd (env_extend symb prim g) (\<lambda>g.
     upd (\<lambda>s. s\<lparr>global_env := g\<rparr>)))))"

definition special_names :: "(special \<times> string) list" where
  "special_names = [(Quote, ''quote''), (If, ''if''), (Define, ''define''), (Lambda, ''lambda''),
     (Defmacro, ''defmacro''), (Begin, ''begin''), (Quasiquote, ''quasiquote''), (Unquote, ''unquote''),
     (Unquote_splicing, ''unquote-splicing''), (Set, ''set!''), (Catch, ''catch''), (Asm, ''asm'')]"

definition primitive_names :: "(string \<times> i24) list" where
  "primitive_names = [(''+'', PRIM_ADD), (''-'', PRIM_SUB), (''*'', PRIM_MUL), (''/'', PRIM_DIV),
     (''%'', PRIM_MOD), (''<'', PRIM_LT), (''='', PRIM_EQ_NUM), (''cons'', PRIM_CONS), (''car'', PRIM_CAR),
     (''cdr'', PRIM_CDR), (''list'', PRIM_LIST), (''null?'', PRIM_NULLP), (''pair?'', PRIM_PAIRP),
     (''atom?'', PRIM_ATOMP), (''eq?'', PRIM_EQP), (''not'', PRIM_NOT), (''print'', PRIM_PRINT),
     (''number?'', PRIM_NUMP), (''exit'', PRIM_EXIT), (''peek'', PRIM_PEEK), (''poke'', PRIM_POKE),
     (''delay'', PRIM_DELAY), (''println'', PRIM_PRINTLN), (''newline'', PRIM_NEWLINE),
     (''apply'', PRIM_APPLY), (''string-length'', PRIM_STR_LEN), (''string-ref'', PRIM_STR_REF),
     (''string-append'', PRIM_STR_APPEND), (''string=?'', PRIM_STR_EQ), (''string?'', PRIM_STRINGP),
     (''display'', PRIM_DISPLAY), (''gc'', PRIM_GC), (''heap-used'', PRIM_HEAP_USED),
     (''heap-size'', PRIM_HEAP_SIZE), (''number->string'', PRIM_NUM_TO_STR), (''fn?'', PRIM_FNQP),
     (''eval'', PRIM_EVAL), (''macroexpand-1'', PRIM_MACEXPAND), (''gensym'', PRIM_GENSYM),
     (''symbol->string'', PRIM_SYM_TO_STR), (''string->symbol'', PRIM_STR_TO_SYM), (''throw'', PRIM_THROW),
     (''dynamic-wind'', PRIM_DYN_WIND), (''symbol?'', PRIM_SYMBOLP), (''substring'', PRIM_SUBSTR),
     (''format'', PRIM_FORMAT), (''char->integer'', PRIM_CHR_TO_INT), (''integer->char'', PRIM_INT_TO_CHR),
     (''string-index'', PRIM_STR_INDEX), (''string-contains?'', PRIM_STR_CONTAINS)]"

fun intern_specials :: "(special \<times> string) list \<Rightarrow> unit act" where
  "intern_specials [] = ret ()"
| "intern_specials ((x, name) # xs) = bnd (intern name) (\<lambda>v.
     bnd (upd (\<lambda>s. s\<lparr>special_sym := (special_sym s)(x := v)\<rparr>)) (\<lambda>_. intern_specials xs))"

fun register_prims :: "(string \<times> i24) list \<Rightarrow> unit act" where
  "register_prims [] = ret ()"
| "register_prims ((name, pid) # xs) = bnd (register_prim name pid) (\<lambda>_. register_prims xs)"

definition eval_init :: "unit act" where
  "eval_init = bnd (upd (\<lambda>s. s\<lparr>global_env := NIL_VAL\<rparr>)) (\<lambda>_. bnd (intern_specials special_names) (\<lambda>_.
     bnd (upd (\<lambda>s. s\<lparr>catch_depth := 0, catch_throwing := False, wind_depth := 0\<rparr>)) (\<lambda>_.
     bnd (register_prims primitive_names) (\<lambda>_. upd (\<lambda>s. s\<lparr>gensym_counter := 0\<rparr>)))))"

end
