(* ===== verification/Tml_Steady.thy ===== *)
theory Tml_Steady
  imports Tml_Eval Tml_Runtime
begin

text \<open>
  What evaluation leaves alone, for every program: the depths of the stacks of the runtime are
  restored on every path, symbols and the text of strings are never changed, the output only
  grows.
\<close>

section \<open>The relation between the states\<close>

definition steady :: "i24 \<Rightarrow> lisp \<Rightarrow> lisp \<Rightarrow> bool" where
  "steady d s s' \<longleftrightarrow> catch_depth s' = catch_depth s \<and> gc_root_count s' = gc_root_count s + d \<and>
     sint (wind_depth s') \<le> sint (wind_depth s) \<and> c_stack s' = c_stack s \<and> special_sym s' = special_sym s \<and>
     uart_in s' = uart_in s \<and> (\<forall>ns. symtab s ns \<longrightarrow> (\<exists>ms. symtab s' (ns @ ms))) \<and>
     unat (str_pool_next s) \<le> unat (str_pool_next s') \<and>
     (unat (str_pool_next s) \<le> STR_POOL_SIZE \<longrightarrow> unat (str_pool_next s') \<le> STR_POOL_SIZE) \<and>
     (\<forall>i<unat (str_pool_next s). str_pool s' i = str_pool s i) \<and>
     (\<exists>t. uart_out s' = uart_out s @ t)"

text \<open>An operation that keeps to it: \<open>d\<close> is what it adds to the root stack.\<close>

definition moves :: "i24 \<Rightarrow> 'a act \<Rightarrow> bool" where
  "moves d m \<longleftrightarrow> (\<forall>s a s'. m s = Done a s' \<longrightarrow> steady d s s')"

lemma steady_refl [simp]: "steady 0 s s"
  by (auto simp: steady_def intro: exI [of _ "[]"])

lemma steady_same: "s' = s \<Longrightarrow> steady 0 s s'"
  by simp

lemma steady_trans: "steady d s s1 \<Longrightarrow> steady e s1 s2 \<Longrightarrow> steady (d + e) s s2"
proof -
  assume a: "steady d s s1" and b: "steady e s1 s2"
  have "\<exists>ms. symtab s2 (ns @ ms)" if "symtab s ns" for ns
  proof -
    from a that obtain ms where "symtab s1 (ns @ ms)" unfolding steady_def by blast
    with b obtain ms' where "symtab s2 ((ns @ ms) @ ms')" unfolding steady_def by blast
    then show ?thesis by auto
  qed
  with a b show ?thesis
    unfolding steady_def by (auto simp: add.assoc)
qed

named_theorems moving "operations that keep to \<open>steady\<close>, with the rules to compose them"

lemma moves_bnd: "moves d m \<Longrightarrow> (\<And>a. moves e (f a)) \<Longrightarrow> moves (d + e) (bnd m f)"
  unfolding moves_def by (blast elim!: bnd_Done_E intro: steady_trans)

lemma moves_bnd0 [moving]: "moves 0 m \<Longrightarrow> (\<And>a. moves e (f a)) \<Longrightarrow> moves e (bnd m f)"
  using moves_bnd [of 0 m e f] by simp

lemma moves_last [moving]: "moves 0 m \<Longrightarrow> (\<And>a. moves 0 (f a)) \<Longrightarrow> moves 0 (bnd m f)"
  by (rule moves_bnd0)

lemma moves_stuck [moving]: "moves d wild" "moves d starved" "moves d halt"
  by (simp_all add: moves_def)

lemma moves_ret [moving]: "moves 0 (ret a)"
  by (simp add: moves_def)

lemma moves_get [moving]: "moves 0 (get g)"
  by (simp add: moves_def)

lemma moves_cases [moving]:
  "(b \<Longrightarrow> moves d m) \<Longrightarrow> (\<not> b \<Longrightarrow> moves d m') \<Longrightarrow> moves d (if b then m else m')"
  "(x = None \<Longrightarrow> moves d n) \<Longrightarrow> (\<And>y. x = Some y \<Longrightarrow> moves d (f y)) \<Longrightarrow> moves d (case x of None \<Rightarrow> n | Some y \<Rightarrow> f y)"
  "(\<And>y z. p = (y, z) \<Longrightarrow> moves d (g y z)) \<Longrightarrow> moves d (case p of (y, z) \<Rightarrow> g y z)"
  by (auto split: option.split prod.split)

lemma moves_hold [moving]: "moves 0 m \<Longrightarrow> moves 0 (hold vs m)"
  unfolding moves_def
proof (intro allI impI)
  fix s a s' assume m: "\<forall>s a s'. m s = Done a s' \<longrightarrow> steady 0 s s'" and run: "hold vs m s = Done a s'"
  from run obtain s1 where r: "m (s\<lparr>c_stack := vs @ c_stack s\<rparr>) = Done a s1" and s': "s' = s1\<lparr>c_stack := c_stack s\<rparr>"
    by (rule hold_Done)
  have t: "symtab (u\<lparr>c_stack := k\<rparr>) ns = symtab u ns" for u k ns
    by (simp add: symtab_def)
  from m r have "steady 0 (s\<lparr>c_stack := vs @ c_stack s\<rparr>) s1" by blast
  then show "steady 0 s s'"
    unfolding s' steady_def t by simp
qed

text \<open>A continuation that looks at the state.\<close>

lemma moves_state: "(\<And>t. moves d (F t)) \<Longrightarrow> moves d (\<lambda>s. F s s)"
  by (auto simp: moves_def)

section \<open>Operations that change other fields only\<close>

text \<open>The fields \<open>steady\<close> is about.\<close>

definition same_control :: "lisp \<Rightarrow> lisp \<Rightarrow> bool" where
  "same_control s s' \<longleftrightarrow> catch_depth s' = catch_depth s \<and> gc_root_count s' = gc_root_count s \<and>
     wind_depth s' = wind_depth s \<and> c_stack s' = c_stack s \<and> special_sym s' = special_sym s \<and>
     name_pool s' = name_pool s \<and> name_pool_next s' = name_pool_next s \<and> sym_name_off s' = sym_name_off s \<and>
     sym_count s' = sym_count s \<and> str_pool s' = str_pool s \<and> str_pool_next s' = str_pool_next s \<and>
     uart_in s' = uart_in s \<and> uart_out s' = uart_out s \<and> read_ptr s' = read_ptr s"

lemma same_control_steady: "same_control s s' \<Longrightarrow> steady 0 s s'"
  unfolding same_control_def steady_def symtab_def by (auto intro: exI [of _ "[]"])

definition quiet :: "'a act \<Rightarrow> bool" where
  "quiet m \<longleftrightarrow> (\<forall>s a s'. m s = Done a s' \<longrightarrow> same_control s s')"

lemma quiet_moves: "quiet m \<Longrightarrow> moves 0 m"
  using same_control_steady unfolding quiet_def moves_def by blast

lemma quiet_bnd: "quiet m \<Longrightarrow> (\<And>a. quiet (f a)) \<Longrightarrow> quiet (bnd m f)"
  unfolding quiet_def same_control_def by (fastforce elim!: bnd_Done_E)

lemma quiet_pure: "(\<And>s a s'. m s = Done a s' \<Longrightarrow> s' = s) \<Longrightarrow> quiet m"
  by (auto simp: quiet_def same_control_def)

lemma quiet_upd: "(\<And>s. same_control s (g s)) \<Longrightarrow> quiet (upd g)"
  by (auto simp: quiet_def)

lemma quiet_cells: "quiet (peek_car i)" "quiet (peek_cdr i)" "quiet (poke_car i v)" "quiet (poke_cdr i v)"
  by (auto simp: quiet_def same_control_def peek_car_def peek_cdr_def poke_car_def poke_cdr_def split: if_splits)

lemma quiet_gc_mark_val: "quiet (gc_mark_val v)"
  by (auto simp: quiet_def same_control_def gc_mark_val_def split: option.splits)

lemma quiet_mark_vals: "quiet (mark_vals vs)"
proof (induction vs)
  case Nil
  show ?case by (auto intro!: quiet_pure)
next
  case (Cons v vs)
  then show ?case by (auto intro!: quiet_bnd quiet_gc_mark_val)
qed

lemma sweep_loop_control: "same_control s (sweep_loop n s)"
proof (induction n arbitrary: s)
  case (Suc n)
  show ?case
    using Suc [of "if heap_mark s n then s\<lparr>heap_mark := (heap_mark s)(n := False)\<rparr>
      else s\<lparr>heap_cdr := (heap_cdr s)(n := free_list s), heap_car := (heap_car s)(n := NIL_VAL),
             free_list := of_nat n\<rparr>"]
    by (simp add: same_control_def split: if_splits)
qed (simp add: same_control_def)

lemma quiet_gc_sweep: "quiet gc_sweep"
proof -
  have "same_control s (sweep_loop n (s\<lparr>free_list := x\<rparr>))" for s n x
    using sweep_loop_control [of "s\<lparr>free_list := x\<rparr>" n] by (simp add: same_control_def)
  then show ?thesis
    by (auto simp: quiet_def gc_sweep_def split: if_splits)
qed

lemma quiet_gc_collect: "quiet gc_collect"
proof -
  have e: "quiet (\<lambda>s. entries n (a s) (c s) s)" for n a c
    by (auto intro!: quiet_pure simp: entries_def split: if_splits)
  have g: "quiet (get f)" for f :: "lisp \<Rightarrow> i24"
    by (auto intro!: quiet_pure)
  have c: "quiet clear_marks"
    by (auto simp: quiet_def same_control_def clear_marks_def split: if_splits)
  have s: "quiet gc_scan_stack"
    using quiet_mark_vals by (auto simp: quiet_def gc_scan_stack_def)
  show ?thesis
    unfolding gc_collect_def
    by (intro quiet_bnd e g c s quiet_gc_mark_val quiet_mark_vals quiet_gc_sweep quiet_upd) (simp add: same_control_def)
qed

lemma moves_gc_collect [moving]: "moves 0 gc_collect"
  by (rule quiet_moves [OF quiet_gc_collect])

lemma moves_cells [moving]:
  "moves 0 (peek_car i)" "moves 0 (peek_cdr i)" "moves 0 (poke_car i v)" "moves 0 (poke_cdr i v)"
  "moves 0 (car v)" "moves 0 (cdr v)" "moves 0 (ext_type v)" "moves 0 (ext_data v)"
  using quiet_cells by (auto simp: car_def cdr_def ext_type_def ext_data_def intro: quiet_moves)

lemma moves_upd: "(\<And>s. steady d s (g s)) \<Longrightarrow> moves d (upd g)"
  by (simp add: moves_def)

section \<open>Output, allocation, strings\<close>

lemma steady_says: "steady 0 s (says t s)"
proof -
  have "\<exists>ms. symtab (says t s) (ns @ ms)" if "symtab s ns" for ns
    using that by (intro exI [of _ "[]"]) simp
  then show ?thesis by (simp add: steady_def)
qed

lemma moves_putc [moving]: "moves 0 (putc_uart c)"
  by (simp add: moves_def steady_says)

lemma moves_puts [moving]: "moves 0 (puts_str cs)"
  by (simp add: moves_def steady_says)

lemma moves_print_int [moving]: "moves 0 (print_int n)"
  by (simp add: moves_def steady_says)

lemma moves_take_free: "moves 0 take_free" and moves_bump: "moves 0 bump"
proof -
  have u: "moves 0 (upd (\<lambda>s. s\<lparr>free_list := x\<rparr>))" "moves 0 (upd (\<lambda>s. s\<lparr>heap_next := heap_next s + 1\<rparr>))" for x
    by (auto intro!: moves_upd same_control_steady simp: same_control_def)
  show "moves 0 take_free" "moves 0 bump"
    unfolding take_free_def bump_def by (intro moving u)+
qed

lemma moves_gc_alloc: "moves 0 gc_alloc_cell"
proof -
  have "moves 0 (\<lambda>s. (if sint (free_list s) \<ge> 0 then take_free
      else if sint (heap_next s) < int HEAP_SIZE then bump
      else bnd gc_collect (\<lambda>_ s.
        (if sint (free_list s) \<ge> 0 then take_free
        else bnd (puts_str ''PANIC:OOM heap='') (\<lambda>_. bnd (print_int (heap_next s)) (\<lambda>_.
          bnd (puts_str '' free=0 gc='') (\<lambda>_. bnd (print_int (gc_collections s)) (\<lambda>_.
          bnd (putc_uart (CHR 0x0A)) (\<lambda>_. halt)))))) s)) s)"
    by (rule moves_state, intro moving moves_take_free moves_bump, rule moves_state, intro moving moves_take_free)
  moreover have "gc_alloc_cell = (\<lambda>s. (if sint (free_list s) \<ge> 0 then take_free
      else if sint (heap_next s) < int HEAP_SIZE then bump
      else bnd gc_collect (\<lambda>_ s.
        (if sint (free_list s) \<ge> 0 then take_free
        else bnd (puts_str ''PANIC:OOM heap='') (\<lambda>_. bnd (print_int (heap_next s)) (\<lambda>_.
          bnd (puts_str '' free=0 gc='') (\<lambda>_. bnd (print_int (gc_collections s)) (\<lambda>_.
          bnd (putc_uart (CHR 0x0A)) (\<lambda>_. halt)))))) s)) s)"
    by (auto simp: fun_eq_iff gc_alloc_cell_def bnd_def split: outcome.split)
  ultimately show ?thesis by simp
qed

lemma moves_alloc_cell [moving]: "moves 0 alloc_cell"
  unfolding moves_def alloc_cell_def
  using moves_gc_alloc moves_bump by (auto simp: moves_def)

lemma moves_cons [moving]: "moves 0 (cons a d)"
  unfolding cons_def by (intro moving)

lemma moves_push_char [moving]: "moves 0 (push_char c)"
  unfolding moves_def
proof (intro allI impI)
  fix s a s' assume "push_char c s = Done a s'"
  then have n: "unat (str_pool_next s) < STR_POOL_SIZE"
    and s': "s' = s\<lparr>str_pool := (str_pool s)(unat (str_pool_next s) := c), str_pool_next := str_pool_next s + 1\<rparr>"
    by (auto simp: push_char_def split: if_splits)
  have t: "symtab s' ns = symtab s ns" for ns
    by (simp add: s' symtab_def)
  have u: "unat (str_pool_next s + 1) = Suc (unat (str_pool_next s))"
    using n by (simp add: unat_word_ariths STR_POOL_SIZE_def)
  have "\<exists>ms. symtab s' (ns @ ms)" if "symtab s ns" for ns
    using that t by (intro exI [of _ "[]"]) simp
  then show "steady 0 s s'"
    using n u by (simp add: s' steady_def)
qed

lemma moves_peek_char [moving]: "moves 0 (peek_char d i)"
  by (auto simp: moves_def peek_char_def split: if_splits)

lemma moves_push_chars [moving]: "moves 0 (push_chars cs)"
  by (induction cs) (simp_all del: act_simps split del: if_split, (intro moving | assumption)+)

lemma moves_push_from [moving]: "moves 0 (push_from d i r)"
  by (induction r arbitrary: i) (simp_all del: act_simps split del: if_split, (intro moving | assumption)+)

lemma moves_str_panic [moving]: "moves 0 str_panic"
  unfolding moves_def str_panic_def by simp

lemma moves_string_cell [moving]: "moves 0 (string_cell off len)"
  unfolding string_cell_def by (intro moving)

lemma moves_string_len [moving]: "moves 0 (string_len v)" "moves 0 (string_data v)" "moves 0 (is_string v)"
  unfolding string_len_def string_data_def is_string_def by (intro moving)+

lemma moves_string_ref [moving]: "moves 0 (string_ref v i)"
  unfolding string_ref_def by (intro moving)

lemma moves_chars_from [moving]: "moves 0 (chars_from d i r)"
  by (induction r arbitrary: i) (simp_all del: act_simps split del: if_split, (intro moving | assumption)+)

lemma moves_string_chars [moving]: "moves 0 (string_chars v)"
  unfolding string_chars_def by (intro moving)

lemma moves_equal_from: "moves 0 (equal_from da db i r)"
  by (induction r arbitrary: i) (simp_all del: act_simps split del: if_split, (intro moving | assumption)+)

lemma moves_string_equal [moving]: "moves 0 (string_equal a b)"
  unfolding string_equal_def by (intro moving moves_equal_from)

lemma moves_make_string [moving]: "moves 0 (make_string cs)"
proof -
  have e: "make_string cs = (\<lambda>s. (if sint (str_pool_next s + of_nat (length cs) + 1) > int STR_POOL_SIZE then str_panic
      else bnd (push_chars cs) (\<lambda>_. bnd (push_char NUL) (\<lambda>_.
        string_cell (str_pool_next s) (of_nat (length cs))))) s)"
    by (simp add: fun_eq_iff make_string_def)
  show ?thesis unfolding e by (rule moves_state, intro moving)
qed

lemma moves_string_append [moving]: "moves 0 (string_append a b)"
proof -
  have e: "string_append a b = bnd (string_len a) (\<lambda>la. bnd (string_len b) (\<lambda>lb s.
     (if sint (str_pool_next s + (la + lb) + 1) > int STR_POOL_SIZE then str_panic
     else bnd (string_data a) (\<lambda>da. bnd (string_data b) (\<lambda>db.
       bnd (push_from da 0 (unat la)) (\<lambda>_. bnd (push_from db 0 (unat lb)) (\<lambda>_.
       bnd (push_char NUL) (\<lambda>_. string_cell (str_pool_next s) (la + lb))))))) s))"
    unfolding string_append_def by (intro arg_cong2 [where f = bnd] refl ext) simp
  show ?thesis unfolding e by (intro moving, rule moves_state, intro moving)
qed

section \<open>Symbols and the printer\<close>

lemma peek_offset_state: "peek_offset i s = Done a s' \<Longrightarrow> s' = s"
  by (simp add: peek_offset_def split: if_splits)

lemma moves_symbol_text [moving]: "moves 0 (symbol_text v)"
  by (auto simp: moves_def symbol_text_def sym_name_def cstring_at_def elim!: bnd_Done_E
      dest!: peek_offset_state split: option.splits)

lemma str_eq_state: "str_eq a name s = Done b s' \<Longrightarrow> s' = s"
  by (induction name arbitrary: a) (auto simp: Let_def split: if_splits)

lemma intern_search_state: "intern_search k i name s = Done r s' \<Longrightarrow> s' = s"
  by (induction k arbitrary: i) (auto elim!: bnd_Done_E dest!: peek_offset_state str_eq_state split: if_splits)

lemma str_copy_state: "str_copy d name s = Done a s' \<Longrightarrow> \<exists>p. s' = s\<lparr>name_pool := p\<rparr>"
proof (induction name arbitrary: d s)
  case (Cons c name)
  from Cons.prems obtain s1 where "poke_name d c s = Done () s1" "str_copy (d + 1) name s1 = Done a s'"
    by (auto elim!: bnd_Done_E)
  with Cons.IH [OF this(2)] show ?case
    by (auto simp: poke_name_def split: if_splits)
qed (auto simp: poke_name_def split: if_splits)

lemma intern_frame:
  assumes "intern name s = Done v s'"
  shows "sym_frame s s'"
proof -
  from assms obtain r where r: "intern_search (nat (sint (sym_count s))) 0 name s = Done r s"
    using intern_search_state by (force simp: intern_def elim: bnd_Done_E)
  show ?thesis
  proof (cases r)
    case (Some x)
    with assms r show ?thesis
      by (simp add: intern_def bnd_step sym_frame_refl)
  next
    case None
    with assms r obtain a s1 where
      c: "str_copy (name_pool_next s) name
        (s\<lparr>sym_name_off := (sym_name_off s)(unat (sym_count s) := name_pool_next s)\<rparr>) = Done a s1"
      and s': "s' = s1\<lparr>name_pool_next := name_pool_next s1 + str_len name + 1, sym_count := sym_count s1 + 1\<rparr>"
      by (auto simp: intern_def bnd_step split: if_splits elim!: bnd_Done_E)
    from str_copy_state [OF c] show ?thesis
      unfolding s' sym_frame_def by auto
  qed
qed

lemma moves_intern:
  assumes "NUL \<notin> set name" and "length name \<le> 8192"
  shows "moves 0 (intern name)"
  unfolding moves_def
proof (intro allI impI)
  fix s v s' assume run: "intern name s = Done v s'"
  have "\<exists>ms. symtab s' (ns @ ms)" if tab: "symtab s ns" for ns
  proof -
    from intern_result [OF tab assms] run have "symtab s' (fst (interned ns name))" by auto
    moreover obtain ns' i where e: "interned ns name = (ns', i)" by fastforce
    moreover from interned_nth(3) [OF e] obtain ms where "ns' = ns @ ms" by blast
    ultimately show ?thesis by auto
  qed
  moreover have "sym_frame s s'" by (rule intern_frame [OF run])
  ultimately show "steady 0 s s'"
    by (auto simp: steady_def sym_frame_def)
qed

lemma moves_print_char [moving]: "moves 0 (print_char c)"
  by (simp add: moves_def print_char_says steady_says)

lemma moves_print_chars [moving]: "moves 0 (print_chars d i r)"
  by (induction r arbitrary: i) (simp_all del: act_simps split del: if_split, (intro moving | assumption)+)

lemma moves_print_extended [moving]: "moves 0 (print_extended v)"
  unfolding print_extended_def by (intro moving)

lemma moves_print: "moves 0 (print_val n v)" "moves 0 (print_list n first v)"
proof (induction n arbitrary: v first)
  case (Suc n)
  {
    case 1
    show ?case unfolding print_val.simps by (intro moving Suc)
  next
    case 2
    show ?case unfolding print_list.simps by (intro moving Suc)
  }
qed (simp_all del: act_simps split del: if_split, (intro moving)+)

lemmas [moving] = moves_print

section \<open>Objects and environments\<close>

lemma moves_objects [moving]:
  "moves 0 (make_closure params body env)" "moves 0 (make_macro params body env)"
  "moves 0 (closure_params v)" "moves 0 (closure_body v)" "moves 0 (closure_env v)" "moves 0 (env_extend x v env)"
  unfolding make_closure_def make_macro_def closure_params_def closure_body_def closure_env_def env_extend_def
  by (intro moving)+

lemma moves_find_binding [moving]: "moves 0 (find_binding k x e)"
  by (induction k arbitrary: e) (simp_all del: act_simps split del: if_split, (intro moving | assumption)+)

lemma moves_env_lookup [moving]: "moves 0 (env_lookup k x env)"
  unfolding env_lookup_def by (intro moving)

lemma moves_set_root [moving]: "moves 0 (set_root i v)"
  by (auto simp: moves_def set_root_def same_control_def intro!: same_control_steady split: if_splits)

lemma steady_roots: "steady d s (s\<lparr>gc_roots := r, gc_root_count := gc_root_count s + d\<rparr>)"
proof -
  have "symtab (s\<lparr>gc_roots := r, gc_root_count := n\<rparr>) ns = symtab s ns" for ns n
    by (simp add: symtab_def)
  then show ?thesis
    unfolding steady_def by (auto intro: exI [of _ "[]"])
qed

lemma moves_protect: "moves 1 (gc_protect v)"
  using steady_roots [of 1] by (auto simp: moves_def gc_protect_def split: if_splits)

lemma moves_unprotect: "moves (- n) (gc_unprotect n)"
  unfolding moves_def
proof (intro allI impI)
  fix s a s' assume "gc_unprotect n s = Done a s'"
  then show "steady (- n) s s'"
    using steady_roots [of "- n" s "gc_roots s"] by (simp add: gc_unprotect_def)
qed

lemma moves_bind_loop [moving]: "moves 0 (bind_loop k params args env)"
  by (induction k arbitrary: params args env) (simp_all del: act_simps split del: if_split, (intro moving | assumption)+)

lemma moves_unprotect_ret: "moves (- n) (bnd (gc_unprotect n) (\<lambda>_. ret a))"
  using moves_bnd [OF moves_unprotect [of n] moves_ret] by simp

lemma moves_env_bind [moving]: "moves 0 (env_bind params args env)"
proof -
  have "moves (1 + (1 + (0 + - 2))) (env_bind params args env)"
    unfolding env_bind_def
    by (intro moves_bnd [OF moves_protect] moves_bnd [OF moves_bind_loop] moves_unprotect_ret)
  then show ?thesis by simp
qed

section \<open>Primitives\<close>

lemma moves_truth [moving]: "moves 0 (truth c)"
  unfolding truth_def by (intro moving)

lemma moves_arith [moving]: "moves 0 (prim_arith pid args)" "moves 0 (prim_binary pid a b)"
proof -
  have "moves 0 (arith_loop k pid rest result count)" for k rest result count
    by (induction k arbitrary: rest result count) (simp_all del: act_simps split del: if_split, (intro moving | assumption)+)
  then show "moves 0 (prim_arith pid args)"
    unfolding prim_arith_def by (intro moving | assumption)+
  show "moves 0 (prim_binary pid a b)"
    unfolding prim_binary_def by (intro moving)
qed

lemma moves_number_to_string [moving]: "moves 0 (number_to_string a)"
  unfolding number_to_string_def by (intro moving)

lemma moves_format_arg [moving]: "moves 0 (format_arg fr arg)"
  unfolding format_arg_def by (intro moving)

lemma moves_format [moving]: "moves 0 (prim_format args a b)"
proof -
  have "moves 0 (format_loop r fr fmt fi fargs buf)" for r fr fmt fi fargs buf
  proof (induction r arbitrary: fr fi fargs buf rule: less_induct)
    case (less r)
    show ?case
    proof (cases r)
      case 0
      show ?thesis unfolding 0 format_loop.simps by (intro moving)
    next
      case (Suc k)
      show ?thesis unfolding Suc format_loop.simps by (intro moving less) (simp_all add: Suc)
    qed
  qed
  then show ?thesis
    unfolding prim_format_def by (intro moving | assumption)+
qed

lemma moves_index [moving]: "moves 0 (prim_index a b)"
proof -
  have "moves 0 (index_loop r d i ch)" for r d i ch
    by (induction r arbitrary: i) (simp_all del: act_simps split del: if_split, (intro moving | assumption)+)
  then show ?thesis
    unfolding prim_index_def by (intro moving | assumption)+
qed

lemma moves_contains [moving]: "moves 0 (prim_contains a b)"
proof -
  have m: "moves 0 (matches_at r h n i j)" for r h n i j
    by (induction r arbitrary: j) (simp_all del: act_simps split del: if_split, (intro moving | assumption)+)
  have "moves 0 (contains_loop r h n nlen i)" for r h n nlen i
    by (induction r arbitrary: i) (simp_all del: act_simps split del: if_split, (intro moving m | assumption)+)
  then show ?thesis
    unfolding prim_contains_def by (intro moving | assumption)+
qed

lemma moves_substring [moving]: "moves 0 (prim_substring args a b)"
  unfolding prim_substring_def Let_def by (intro moving, rule moves_state, intro moving)

lemma steady_gensym: "steady 0 s (s\<lparr>gensym_counter := n\<rparr>)"
  by (rule same_control_steady) (simp add: same_control_def)

lemma length_digits_rev: "n < 10 ^ d \<Longrightarrow> length (digits_rev n) \<le> d"
proof (induction d arbitrary: n)
  case (Suc d)
  then have "length (digits_rev (n div 10)) \<le> d"
    by (intro Suc.IH) (simp add: less_mult_imp_div_less mult.commute)
  then show ?case by (subst digits_rev.simps) simp
qed (simp add: digits_rev.simps)

lemma moves_gensym [moving]: "moves 0 prim_gensym"
proof -
  have "nat (sint n) < 10 ^ 8" for n :: i24
    using sint_less [of n] by simp
  then have "length (gensym_text n) \<le> 8192" "NUL \<notin> set (gensym_text n)" for n
    using length_digits_rev [of "nat (sint n)" 8] NUL_digits_rev by (auto simp: gensym_text_def NUL_def)
  then show ?thesis
    unfolding prim_gensym_def by (intro moving moves_upd steady_gensym moves_intern)
qed

lemma pool_cstring_text:
  "pool_cstring r a s = Done cs s' \<Longrightarrow> NUL \<notin> set cs \<and> length cs \<le> r \<and> s' = s"
  by (induction r arbitrary: a cs s') (auto elim!: bnd_Done_E split: if_splits)

lemma moves_string_to_symbol [moving]: "moves 0 (prim_string_to_symbol a)"
proof -
  have p: "moves 0 (bnd (pool_cstring (STR_POOL_SIZE - n) n) intern)" for n
    unfolding moves_def
  proof (intro allI impI)
    fix s v s' assume "bnd (pool_cstring (STR_POOL_SIZE - n) n) intern s = Done v s'"
    then obtain cs s1 where c: "pool_cstring (STR_POOL_SIZE - n) n s = Done cs s1" "intern cs s1 = Done v s'"
      by (rule bnd_Done_E)
    from pool_cstring_text [OF c(1)] have "NUL \<notin> set cs" "length cs \<le> 8192" "s1 = s"
      by (auto simp: STR_POOL_SIZE_def)
    with moves_intern [OF this(1,2)] c(2) show "steady 0 s s'"
      by (auto simp: moves_def)
  qed
  show ?thesis
    unfolding prim_string_to_symbol_def
    by (rule moves_bnd0 [OF moves_string_len(3)], rule moves_cases(1), rule moves_bnd0 [OF moves_string_len(2)],
        rule p, rule moves_ret)
qed

lemma moves_display [moving]: "moves 0 (prim_display k a)" "moves 0 (prim_fn a)"
  unfolding prim_display_def prim_fn_def by (intro moving)+

lemma moves_count_free [moving]: "moves 0 gc_count_free"
proof -
  have c: "moves 0 (count_free k node count)" for k node count
    by (induction k arbitrary: node count) (simp_all del: act_simps split del: if_split, (intro moving | assumption)+)
  have e: "gc_count_free = (\<lambda>s. count_free (Suc HEAP_SIZE) (free_list s) 0 s)"
    by (simp add: fun_eq_iff gc_count_free_def)
  show ?thesis unfolding e by (rule moves_state, rule c)
qed

section \<open>Escapes\<close>

lemma moves_slots [moving]:
  "moves 0 (peek_tag i)" "moves 0 (peek_val i)" "moves 0 (poke_tag i v)" "moves 0 (poke_val i v)"
  "moves 0 (peek_after i)" "moves 0 (poke_after i v)"
  by (auto simp: moves_def same_control_def peek_tag_def peek_val_def poke_tag_def poke_val_def peek_after_def
      poke_after_def intro!: same_control_steady split: if_splits)

lemma moves_flags [moving]:
  "moves 0 (upd (\<lambda>s. s\<lparr>catch_throwing := b\<rparr>))" "moves 0 (upd (\<lambda>s. s\<lparr>catch_target := i\<rparr>))"
  "moves 0 (upd (\<lambda>s. s\<lparr>global_env := g\<rparr>))"
  by (auto intro!: moves_upd same_control_steady simp: same_control_def)

lemma moves_find_catch [moving]: "moves 0 (find_catch i tag)"
  by (induction i) (simp_all del: act_simps split del: if_split, (intro moving | assumption)+)

lemma steady_depths:
  "steady 0 (s\<lparr>catch_depth := x\<rparr>) s' \<Longrightarrow> steady 0 s (s'\<lparr>catch_depth := catch_depth s\<rparr>)"
  "steady 0 (s\<lparr>wind_depth := x\<rparr>) s' \<Longrightarrow> steady 0 s (s'\<lparr>wind_depth := wind_depth s\<rparr>)"
  "steady 0 (s\<lparr>wind_depth := x\<rparr>) s' \<Longrightarrow> sint x \<le> sint (wind_depth s) \<Longrightarrow> steady 0 s s'"
  by (simp_all add: steady_def symtab_def)

lemma moves_done: "moves d m \<Longrightarrow> m s = Done a s' \<Longrightarrow> steady d s s'"
  by (simp add: moves_def)

lemma steady_trans0: "steady 0 s s1 \<Longrightarrow> steady 0 s1 s2 \<Longrightarrow> steady 0 s s2"
  using steady_trans [of 0 s s1 0 s2] by simp

lemma sint_pred: "0 < sint w \<Longrightarrow> sint (w - 1) \<le> sint (w :: i24)"
  using sint_less [of w] by (simp add: sint_word_ariths signed_take_bit_int_eq_self)

text \<open>A stretch with the catch depth or the wind depth raised, which is then put back.\<close>

lemma catch_scope:
  assumes "moves 0 m" and "\<And>a. moves 0 (f a)" and "catch_depth s = saved"
    and "bnd (upd (\<lambda>s. s\<lparr>catch_depth := x\<rparr>)) (\<lambda>_. bnd m (\<lambda>a.
      bnd (upd (\<lambda>s. s\<lparr>catch_depth := saved\<rparr>)) (\<lambda>_. f a))) s = Done v s'"
  shows "steady 0 s s'"
proof -
  from assms(4) obtain a s1 where m: "m (s\<lparr>catch_depth := x\<rparr>) = Done a s1"
    and f: "f a (s1\<lparr>catch_depth := saved\<rparr>) = Done v s'"
    by (auto elim: bnd_Done_E)
  from steady_depths(1) [OF moves_done [OF assms(1) m]] assms(3) have "steady 0 s (s1\<lparr>catch_depth := saved\<rparr>)"
    by simp
  then show ?thesis by (rule steady_trans0) (rule moves_done [OF assms(2) f])
qed

lemma wind_scope:
  assumes "moves 0 m" and "\<And>a. moves 0 (f a)" and "wind_depth s = saved"
    and "bnd (upd (\<lambda>s. s\<lparr>wind_depth := x\<rparr>)) (\<lambda>_. bnd m (\<lambda>a.
      bnd (upd (\<lambda>s. s\<lparr>wind_depth := saved\<rparr>)) (\<lambda>_. f a))) s = Done v s'"
  shows "steady 0 s s'"
proof -
  from assms(4) obtain a s1 where m: "m (s\<lparr>wind_depth := x\<rparr>) = Done a s1"
    and f: "f a (s1\<lparr>wind_depth := saved\<rparr>) = Done v s'"
    by (auto elim: bnd_Done_E)
  from steady_depths(2) [OF moves_done [OF assms(1) m]] assms(3) have "steady 0 s (s1\<lparr>wind_depth := saved\<rparr>)"
    by simp
  then show ?thesis by (rule steady_trans0) (rule moves_done [OF assms(2) f])
qed

section \<open>The evaluator\<close>

text \<open>What \<open>eval\<close> and \<open>apply_fn\<close> promise each other.\<close>

locale evaluators =
  fixes ev :: evaluator and ap :: evaluator
  assumes ev_moves: "moves 0 (ev expr env)" and ap_moves: "moves 0 (ap fn args)"
begin

lemma moves_list_loop: "moves (- 1) (list_loop k ev env result tail args)"
proof (induction k arbitrary: result tail args)
  case (Suc k)
  show ?case
    unfolding list_loop.simps
    by (rule moves_unprotect_ret Suc ev_moves moves_cases moves_bnd0 moves_hold moves_cells moves_get moves_cons)+
qed (simp add: moves_stuck)

lemma moves_eval_list: "moves 0 (eval_list k ev args env)"
proof -
  have "moves (1 + - 1) (bnd (gc_protect result) (\<lambda>_. bnd (cdr args) (\<lambda>args. list_loop k ev env result result args)))"
    for args result
    by (intro moves_bnd [OF moves_protect] moves_bnd0 moves_list_loop moving)
  then have p: "moves 0 (bnd (gc_protect result) (\<lambda>_. bnd (cdr args) (\<lambda>args. list_loop k ev env result result args)))"
    for args result by simp
  show ?thesis
    unfolding eval_list_def by (rule p moves_ret moves_cases moves_cells moves_bnd0 moves_hold ev_moves moves_get moves_cons)+
qed

lemma moves_unwind: "moves 0 (unwind k ap fr)"
proof (induction k)
  case (Suc k)
  show ?case
    unfolding moves_def
  proof (intro allI impI)
    fix s a s' assume run: "unwind (Suc k) ap fr s = Done a s'"
    show "steady 0 s s'"
    proof (cases "sint (wind_depth s) > 0")
      case True
      from run True obtain f b s1 where
        r: "hold (fr @ [f]) (ap f NIL_VAL) (s\<lparr>wind_depth := wind_depth s - 1\<rparr>) = Done b s1" "unwind k ap fr s1 = Done a s'"
        by (auto simp: peek_after_def elim!: bnd_Done_E split: if_splits)
      have h: "moves 0 (hold (fr @ [f]) (ap f NIL_VAL))"
        by (intro moving ap_moves)
      have "sint (wind_depth s - 1) \<le> sint (wind_depth s)"
        using True by (rule sint_pred)
      then have "steady 0 s s1"
        by (rule steady_depths(3) [OF moves_done [OF h r(1)]])
      then show ?thesis by (rule steady_trans0) (rule moves_done [OF Suc r(2)])
    qed (use run in simp)
  qed
qed (simp add: moves_def)

lemma moves_throw: "moves 0 (prim_throw k ap fr tag val)"
  unfolding prim_throw_def by (intro moving moves_unwind)

lemma moves_wind: "moves 0 (prim_wind ap args before thunk)"
proof -
  have p: "moves 0 (bnd (get wind_depth) (\<lambda>saved.
     if sint saved \<ge> int MAX_WIND_DEPTH
     then bnd (puts_str ''ERR:wind-overflow\<newline>'') (\<lambda>_. ret NIL_VAL)
     else bnd (poke_after saved after) (\<lambda>_. bnd (upd (\<lambda>s. s\<lparr>wind_depth := saved + 1\<rparr>)) (\<lambda>_.
       bnd (hold fr (ap thunk NIL_VAL)) (\<lambda>result.
       bnd (upd (\<lambda>s. s\<lparr>wind_depth := saved\<rparr>)) (\<lambda>_. bnd (get catch_throwing) (\<lambda>throwing.
       bnd (if throwing then ret NIL_VAL else hold (fr @ [result]) (ap after NIL_VAL)) (\<lambda>_.
       ret result)))))))) " (is "moves 0 (bnd _ ?rest)") for fr after
    unfolding moves_def
  proof (intro allI impI)
    fix s v s' assume run: "bnd (get wind_depth) ?rest s = Done v s'"
    show "steady 0 s s'"
    proof (cases "sint (wind_depth s) \<ge> int MAX_WIND_DEPTH")
      case True
      with run show ?thesis by (auto simp: steady_says)
    next
      case False
      with run obtain s1 where p: "poke_after (wind_depth s) after s = Done () s1"
        and r: "bnd (upd (\<lambda>t. t\<lparr>wind_depth := wind_depth s + 1\<rparr>)) (\<lambda>_.
       bnd (hold fr (ap thunk NIL_VAL)) (\<lambda>result.
       bnd (upd (\<lambda>t. t\<lparr>wind_depth := wind_depth s\<rparr>)) (\<lambda>_. bnd (get catch_throwing) (\<lambda>throwing.
       bnd (if throwing then ret NIL_VAL else hold (fr @ [result]) (ap after NIL_VAL)) (\<lambda>_.
       ret result))))) s1 = Done v s'"
        by (simp only: bnd_get if_False) (erule bnd_Done_E, simp)
      have "wind_depth s1 = wind_depth s"
        using p by (auto simp: poke_after_def split: if_splits)
      have "steady 0 s1 s'"
      proof (rule wind_scope [where m = "hold fr (ap thunk NIL_VAL)" and x = "wind_depth s + 1"
          and saved = "wind_depth s" and f = "\<lambda>result. bnd (get catch_throwing) (\<lambda>throwing.
       bnd (if throwing then ret NIL_VAL else hold (fr @ [result]) (ap after NIL_VAL)) (\<lambda>_.
       ret result))"])
        show "wind_depth s1 = wind_depth s" by fact
      qed (intro moving ap_moves | rule r)+
      with moves_done [OF moves_slots(6) p] show ?thesis by (rule steady_trans0)
    qed
  qed
  show ?thesis
    unfolding prim_wind_def Let_def by (rule p moves_bnd0 moves_cells moves_hold ap_moves)+
qed

lemma moves_macroexpand: "moves 0 (prim_macroexpand ev args a)"
  unfolding prim_macroexpand_def by (intro moving ev_moves)

lemma moves_apply_primitive: "moves 0 (apply_primitive k ev ap pid args)"
  unfolding apply_primitive_def
  by (intro moving ev_moves ap_moves moves_macroexpand moves_throw moves_wind)

lemma moves_link_cell: "moves 0 (link_cell result tail cell)"
  unfolding link_cell_def by (intro moving)

lemma moves_splice_loop: "moves 0 (splice_loop k fr spliced result tail)"
  by (induction k arbitrary: spliced result tail)
    (simp_all del: act_simps split del: if_split, (intro moving moves_link_cell | assumption)+)

lemma moves_qq: "moves 0 (qq_expand k ev tmpl env)" "moves 0 (qq_loop k ev tmpl env result tail rest)"
proof (induction k arbitrary: tmpl result tail rest)
  case (Suc k)
  {
    case 1
    show ?case unfolding qq_expand.simps by (intro moving ev_moves Suc)
  next
    case 2
    show ?case unfolding qq_loop.simps by (intro moving ev_moves Suc moves_link_cell moves_splice_loop)
  }
qed (simp_all del: act_simps, (intro moving)+)

lemma moves_body_form: "moves 0 (body_form fr forms)" and moves_define_global: "moves 0 (define_global fr name val)"
  unfolding body_form_def define_global_def by (intro moving)+

lemma moves_forms:
  "moves 0 (eval_if ev fr args env)" "moves 0 (eval_define ev fr args env)" "moves 0 (eval_set k ev fr args env)"
  "moves 0 (eval_lambda fr args env)" "moves 0 (eval_defmacro fr args env)"
  unfolding eval_if_def eval_define_def eval_set_def eval_lambda_def eval_defmacro_def
  by (intro moving ev_moves moves_body_form moves_define_global)+

lemma moves_begin: "moves 0 (eval_begin k ev fr args env)"
  by (induction k arbitrary: args)
    (simp_all del: act_simps split del: if_split, (intro moving ev_moves | assumption)+)

lemma moves_catch: "moves 0 (eval_catch ev fr args env)"
proof -
  let ?rest = "\<lambda>saved result. bnd (get catch_throwing) (\<lambda>throwing. bnd (get catch_target) (\<lambda>target.
         if throwing \<and> target = saved
         then bnd (upd (\<lambda>s. s\<lparr>catch_throwing := False\<rparr>)) (\<lambda>_. peek_val saved)
         else ret (if throwing then NIL_VAL else result)))"
  let ?body = "\<lambda>tag saved. bnd (upd (\<lambda>s. s\<lparr>catch_depth := saved + 1\<rparr>)) (\<lambda>_.
         bnd (cdr args) (\<lambda>r. bnd (car r) (\<lambda>e. bnd (hold (fr @ [tag]) (ev e env)) (\<lambda>result.
         bnd (upd (\<lambda>s. s\<lparr>catch_depth := saved\<rparr>)) (\<lambda>_. ?rest saved result)))))"
  have rest: "moves 0 (?rest saved result)" for saved result
    by (intro moving)
  have b: "steady 0 s s'" if "?body tag (catch_depth s) s = Done v s'" for tag s v s'
  proof (rule catch_scope [where m = "bnd (cdr args) (\<lambda>r. bnd (car r) (\<lambda>e. hold (fr @ [tag]) (ev e env)))"
      and x = "catch_depth s + 1" and saved = "catch_depth s" and f = "?rest (catch_depth s)"])
    show "moves 0 (bnd (cdr args) (\<lambda>r. bnd (car r) (\<lambda>e. hold (fr @ [tag]) (ev e env))))"
      by (intro moving ev_moves)
    show "moves 0 (?rest (catch_depth s) a)" for a by (rule rest)
    show "bnd (upd (catch_depth_update (\<lambda>_. catch_depth s + 1)))
        (\<lambda>_. bnd (bnd (cdr args) (\<lambda>r. bnd (car r) (\<lambda>e. hold (fr @ [tag]) (ev e env))))
          (\<lambda>a. bnd (upd (catch_depth_update (\<lambda>_. catch_depth s))) (\<lambda>_. ?rest (catch_depth s) a))) s = Done v s'"
      using that by (simp only: bnd_assoc)
  qed simp
  have p: "moves 0 (bnd (get catch_depth) (\<lambda>saved. if sint saved \<ge> int MAX_CATCH_DEPTH
       then bnd (puts_str ''ERR:catch-overflow\<newline>'') (\<lambda>_. ret NIL_VAL)
       else bnd (poke_tag saved tag) (\<lambda>_. bnd (poke_val saved NIL_VAL) (\<lambda>_. ?body tag saved))))" for tag
    unfolding moves_def
  proof (intro allI impI)
    fix s v s' assume run: "bnd (get catch_depth) (\<lambda>saved. if sint saved \<ge> int MAX_CATCH_DEPTH
       then bnd (puts_str ''ERR:catch-overflow\<newline>'') (\<lambda>_. ret NIL_VAL)
       else bnd (poke_tag saved tag) (\<lambda>_. bnd (poke_val saved NIL_VAL) (\<lambda>_. ?body tag saved))) s = Done v s'"
    show "steady 0 s s'"
    proof (cases "sint (catch_depth s) \<ge> int MAX_CATCH_DEPTH")
      case True
      with run show ?thesis by (auto simp: steady_says)
    next
      case False
      have "bnd (poke_tag (catch_depth s) tag) (\<lambda>_. bnd (poke_val (catch_depth s) NIL_VAL) (\<lambda>_. ?body tag (catch_depth s))) s = Done v s'"
        using run False by (simp only: bnd_get if_False)
      then obtain u1 s1 where p1: "poke_tag (catch_depth s) tag s = Done u1 s1"
        and q: "bnd (poke_val (catch_depth s) NIL_VAL) (\<lambda>_. ?body tag (catch_depth s)) s1 = Done v s'"
        by (rule bnd_Done_E)
      from q obtain u2 s2 where p2: "poke_val (catch_depth s) NIL_VAL s1 = Done u2 s2"
        and r: "?body tag (catch_depth s) s2 = Done v s'"
        by (rule bnd_Done_E)
      have "catch_depth s2 = catch_depth s"
        using p1 p2 by (auto simp: poke_tag_def poke_val_def split: if_splits)
      then have "?body tag (catch_depth s2) s2 = Done v s'" using r by (simp only:)
      then have "steady 0 s2 s'" by (rule b)
      then show ?thesis
        using steady_trans0 [OF moves_done [OF moves_slots(3) p1] steady_trans0 [OF moves_done [OF moves_slots(4) p2]]]
        by blast
    qed
  qed
  show ?thesis
    unfolding eval_catch_def
    by (rule p moves_ret moves_cases moves_cells moves_get moves_bnd0 moves_hold ev_moves)+
qed

lemma moves_call: "moves 0 (eval_call k ev ap fr head args env)"
  unfolding eval_call_def by (intro moving ev_moves ap_moves moves_eval_list moves_apply_primitive)

lemma moves_eval_turn: "moves 0 (eval_turn k ev ap expr env)"
  unfolding eval_turn_def Let_def
  by (intro moving moves_qq moves_forms moves_begin moves_catch moves_call)

lemma moves_apply_turn: "moves 0 (apply_turn k ev ap fn args)"
  unfolding apply_turn_def by (intro moving ev_moves moves_apply_primitive)

end

text \<open>The evaluator of the program keeps the promise, by induction on the fuel.\<close>

lemma eval_evaluators: "evaluators (eval n) (apply_fn n)"
proof (induction n)
  case 0
  show ?case by unfold_locales (simp_all add: moves_def)
next
  case (Suc n)
  show ?case
    by unfold_locales
      (simp_all add: evaluators.moves_eval_turn [OF Suc] evaluators.moves_apply_turn [OF Suc])
qed

interpretation running: evaluators "eval n" "apply_fn n" for n
  by (rule eval_evaluators)

section \<open>Properties of every evaluation\<close>

lemma eval_steady: "eval n expr env s = Done v s' \<Longrightarrow> steady 0 s s'"
  by (rule moves_done [OF running.ev_moves])

text \<open>C33: Whatever an expression does, also when it throws, fails or redefines things, the stacks of
  the runtime are balanced when its evaluation returns: the catch depth, the number of protected
  roots and the C stack are as before, and no dynamic-wind frame is left behind.\<close>

theorem eval_balanced:
  assumes "eval n expr env s = Done v s'"
  shows "catch_depth s' = catch_depth s \<and> gc_root_count s' = gc_root_count s \<and> c_stack s' = c_stack s \<and>
    sint (wind_depth s') \<le> sint (wind_depth s)"
  using eval_steady [OF assms] by (simp add: steady_def)

lemma eval_balanced_witness:
  "\<exists>s v s'. init_runtime zeroed = Done () s \<and> eval 1 (MAKE_FIXNUM 7) NIL_VAL s = Done v s' \<and>
     gc_root_count s' = gc_root_count s \<and> v = MAKE_FIXNUM 7"
proof -
  from started obtain s where s: "init_runtime zeroed = Done () s" by blast
  have r: "eval 1 (MAKE_FIXNUM 7) NIL_VAL s = Done (MAKE_FIXNUM 7) s"
    by (simp add: eval_turn_def)
  from eval_balanced [OF r] r s show ?thesis by blast
qed

text \<open>C34: Evaluation never changes a symbol or the text of a string: every name keeps its symbol, and
  what a string has in the pool is never overwritten.\<close>

theorem eval_keeps_texts:
  assumes "eval n expr env s = Done v s'" and "symtab s ns" and "unat (str_pool_next s) \<le> STR_POOL_SIZE"
  shows "(\<exists>ms. symtab s' (ns @ ms)) \<and> unat (str_pool_next s) \<le> unat (str_pool_next s') \<and>
    unat (str_pool_next s') \<le> STR_POOL_SIZE \<and>
    (\<forall>i<unat (str_pool_next s). str_pool s' i = str_pool s i) \<and>
    (\<forall>i<length ns. symbol_text (MAKE_SYMBOL (of_nat i)) s' = Done (ns ! i) s')"
proof -
  from eval_steady [OF assms(1)] assms(2,3) obtain ms where ms: "symtab s' (ns @ ms)"
    by (auto simp: steady_def)
  have "symbol_text (MAKE_SYMBOL (of_nat i)) s' = Done (ns ! i) s'" if "i < length ns" for i
    using symbol_text_spec [OF ms, of i] that by (simp add: nth_append)
  with ms eval_steady [OF assms(1)] assms(3) show ?thesis
    by (auto simp: steady_def)
qed

lemma eval_keeps_texts_witness:
  "\<exists>s v s'. init_runtime zeroed = Done () s \<and> eval 1 T_VAL NIL_VAL s = Done v s' \<and>
     symbol_text (MAKE_SYMBOL (of_nat 1)) s' = Done ''t'' s'"
proof -
  from started obtain s where s: "init_runtime zeroed = Done () s" "state_ok [''nil'', ''t''] s" by blast
  then have t: "symtab s [''nil'', ''t'']" "unat (str_pool_next s) \<le> STR_POOL_SIZE"
    by (simp_all add: state_ok_def)
  have r: "eval 1 T_VAL NIL_VAL s = Done T_VAL s"
    by (simp add: eval_turn_def)
  have "1 < length [''nil'', ''t'']" by simp
  with eval_keeps_texts [OF r t] r s show ?thesis by fastforce
qed



end
