(* ===== verification/Tml_Suite.thy ===== *)
theory Tml_Suite
  imports Tml_Line Tml_Env Tml_Steady
begin

text \<open>
  The resident monitor with its two REPLs (\<open>combined-suite.c\<close>).  The loops have fuel.  The line
  buffer of \<open>repl\<close> is on the C stack: \<open>words\<close> gives the words the collector finds in it, which
  depend on its place and on what it held before.
\<close>

section \<open>The REPL\<close>

definition eval_str :: "nat \<Rightarrow> string \<Rightarrow> unit act" where
  "eval_str k t = bnd (read_str k t) (\<lambda>expr. bnd (get global_env) (\<lambda>g. bnd (eval k expr g) (\<lambda>_. ret ())))"

text \<open>The C string in a buffer.\<close>

definition c_string :: "string \<Rightarrow> string" where
  "c_string buf = takeWhile (\<lambda>c. c \<noteq> NUL) buf"

fun repl_exprs :: "nat \<Rightarrow> i24 list \<Rightarrow> unit act" where
  "repl_exprs 0 fr = starved"
| "repl_exprs (Suc k) fr = bnd look (\<lambda>c. if c \<noteq> NUL
     then bnd (hold fr (read_expr k)) (\<lambda>expr. bnd (get global_env) (\<lambda>g.
       bnd (hold (fr @ [expr]) (eval k expr g)) (\<lambda>result. bnd (print_val k result) (\<lambda>_.
       bnd (putc_uart (CHR 0x0A)) (\<lambda>_. bnd skip_whitespace (\<lambda>_. repl_exprs k fr))))))
     else ret ())"

fun repl_loop :: "(string \<Rightarrow> i24 list) \<Rightarrow> nat \<Rightarrow> i24 act" where
  "repl_loop words 0 = starved"
| "repl_loop words (Suc k) = bnd (read_line_tml 1024) (\<lambda>(len, line).
     if len = -2 then bnd (puts_str [CHR 0x0A]) (\<lambda>_. ret 2)
     else if sint len < 0 then bnd (puts_str ''Bye.\<newline>'') (\<lambda>_. ret 0)
     else if len = 0 then bnd (puts_str ''> '') (\<lambda>_. repl_loop words k)
     else bnd (upd (\<lambda>s. s\<lparr>read_ptr := c_string line\<rparr>)) (\<lambda>_. bnd skip_whitespace (\<lambda>_.
       bnd (repl_exprs k (words line)) (\<lambda>_. bnd (puts_str ''> '') (\<lambda>_. repl_loop words k)))))"

definition repl :: "(string \<Rightarrow> i24 list) \<Rightarrow> nat \<Rightarrow> i24 act" where
  "repl words k = bnd (puts_str ''> '') (\<lambda>_. repl_loop words k)"

section \<open>The two interpreters\<close>

definition reset_interpreter :: "unit act" where
  "reset_interpreter = bnd (upd (\<lambda>s. s\<lparr>gc_enabled := False\<rparr>)) (\<lambda>_. bnd heap_init (\<lambda>_. bnd gc_init (\<lambda>_.
     bnd symbol_init (\<lambda>_. bnd string_init (\<lambda>_. bnd eval_init (\<lambda>_.
     upd (\<lambda>s. s\<lparr>gc_enabled := True\<rparr>)))))))"

fun load_prelude :: "nat \<Rightarrow> string list \<Rightarrow> unit act" where
  "load_prelude k [] = ret ()"
| "load_prelude k (t # ts) = bnd (eval_str k t) (\<lambda>_. load_prelude k ts)"

definition scheme_main :: "string list \<Rightarrow> (string \<Rightarrow> i24 list) \<Rightarrow> nat \<Rightarrow> i24 act" where
  "scheme_main prelude words k = bnd reset_interpreter (\<lambda>_. bnd (puts_str ''Loading Scheme prelude...\<newline>'') (\<lambda>_.
     bnd (load_prelude k prelude) (\<lambda>_. bnd (puts_str ''Scheme REPL\<newline>'') (\<lambda>_. repl words k))))"

definition full_main :: "string list \<Rightarrow> (string \<Rightarrow> i24 list) \<Rightarrow> nat \<Rightarrow> i24 act" where
  "full_main prelude words k = bnd reset_interpreter (\<lambda>_.
     bnd (puts_str ''Loading Full Macro Lisp prelude...\<newline>'') (\<lambda>_.
     bnd (load_prelude k prelude) (\<lambda>_. bnd (puts_str ''Full Macro Lisp REPL\<newline>'') (\<lambda>_. repl words k))))"

section \<open>The monitor\<close>

definition monitor_menu :: "unit act" where
  "monitor_menu = bnd (puts_str ''\<newline>COR24 Lisp monitor\<newline>'') (\<lambda>_.
     bnd (puts_str ''1: Scheme REPL\<newline>'') (\<lambda>_. bnd (puts_str ''2: Full Macro Lisp REPL\<newline>'') (\<lambda>_.
     bnd (puts_str ''h: help\<newline>'') (\<lambda>_. bnd (puts_str ''q: quit\<newline>'') (\<lambda>_. puts_str ''mon> '')))))"

definition monitor_status :: "string \<Rightarrow> i24 \<Rightarrow> unit act" where
  "monitor_status name status = bnd (puts_str [CHR 0x0A]) (\<lambda>_. bnd (puts_str name) (\<lambda>_.
     bnd (puts_str '' returned '') (\<lambda>_. bnd (putc_uart (char_of (48 + unat status))) (\<lambda>_.
     puts_str [CHR 0x0A]))))"

definition echo_key :: "char \<Rightarrow> unit act" where
  "echo_key c = bnd (putc_uart c) (\<lambda>_. puts_str [CHR 0x0A])"

definition monitor_help :: "unit act" where
  "monitor_help = bnd (puts_str ''1 starts Scheme; 2 starts Full Macro Lisp.\<newline>'') (\<lambda>_.
     bnd (puts_str ''Each selection initializes a fresh interpreter and prelude.\<newline>'') (\<lambda>_.
     bnd (puts_str ''Inside either REPL, Ctrl-] returns to this menu.\<newline>'') (\<lambda>_.
     puts_str ''q halts; press S1 for load-and-go.\<newline>'')))"

text \<open>What a key does; \<open>halt\<close> does not return.\<close>

definition select :: "i24 act \<Rightarrow> i24 act \<Rightarrow> char \<Rightarrow> unit act" where
  "select scheme full command =
     (if command = CHR 0x0D \<or> command = CHR 0x0A then ret ()
      else if command = CHR ''1''
      then bnd (echo_key command) (\<lambda>_. bnd scheme (monitor_status ''Scheme''))
      else if command = CHR ''2''
      then bnd (echo_key command) (\<lambda>_. bnd full (monitor_status ''Full Macro Lisp''))
      else if command = CHR ''h'' \<or> command = CHR ''H'' \<or> command = CHR ''?''
      then bnd (echo_key command) (\<lambda>_. monitor_help)
      else if command = CHR ''q'' \<or> command = CHR ''Q''
      then bnd (putc_uart command) (\<lambda>_.
        bnd (puts_str ''\<newline>Monitor halted; press S1 for load-and-go.\<newline>'') (\<lambda>_. halt))
      else bnd (putc_uart command) (\<lambda>_. puts_str ''\<newline>? unknown selection\<newline>''))"

fun menu_loop :: "nat \<Rightarrow> i24 act \<Rightarrow> i24 act \<Rightarrow> unit act" where
  "menu_loop 0 scheme full = starved"
| "menu_loop (Suc k) scheme full = bnd monitor_menu (\<lambda>_. bnd getc_uart (\<lambda>command.
     bnd (select scheme full command) (\<lambda>_. menu_loop k scheme full)))"

definition suite_main :: "string list \<Rightarrow> string list \<Rightarrow> (string \<Rightarrow> i24 list) \<Rightarrow> nat \<Rightarrow> unit act" where
  "suite_main scheme full words k =
     bnd (puts_str ''\<newline>COR24 combined Scheme and Full Macro Lisp suite\<newline>'') (\<lambda>_.
     menu_loop k (scheme_main scheme words k) (full_main full words k))"

end
