(* ===== verification/Tml_Boot.thy ===== *)
theory Tml_Boot
  imports Tml_Suite
begin

text \<open>
  What \<open>reset_interpreter\<close> establishes, whatever the session before it has left behind.
\<close>

section \<open>While the collector is off\<close>

definition below :: "nat \<Rightarrow> i24 \<Rightarrow> bool" where
  "below n v \<longleftrightarrow> (IS_PTR v \<longrightarrow> cell_of v < n)"

definition prim_at :: "lisp \<Rightarrow> nat \<Rightarrow> i24 \<Rightarrow> i24 \<Rightarrow> bool" where
  "prim_at s n v pid \<longleftrightarrow> IS_EXTENDED v \<and> cell_of v < n \<and> heap_car s (cell_of v) = ETYPE_PRIMITIVE \<and>
     heap_cdr s (cell_of v) = MAKE_FIXNUM pid"

definition symbol_of :: "string list \<Rightarrow> string \<Rightarrow> i24 \<Rightarrow> bool" where
  "symbol_of ns name v \<longleftrightarrow> (\<exists>i<length ns. ns ! i = name \<and> v = MAKE_SYMBOL (of_nat i))"

definition booting :: "string list \<Rightarrow> nat \<Rightarrow> (i24 \<times> i24) list \<Rightarrow> (string \<times> i24) list \<Rightarrow> lisp \<Rightarrow> bool" where
  "booting ns n bs ps s \<longleftrightarrow> \<not> gc_enabled s \<and> free_list s = -1 \<and> heap_next s = of_nat n \<and> n \<le> HEAP_SIZE \<and>
     symtab s ns \<and> (\<forall>i<n. below n (heap_car s i) \<and> below n (heap_cdr s i)) \<and> below n (global_env s) \<and>
     alist_at s (global_env s) bs \<and>
     list_all2 (\<lambda>(x, v) (name, pid). symbol_of ns name x \<and> prim_at s n v pid) bs ps"

definition boot_frame :: "lisp \<Rightarrow> lisp \<Rightarrow> bool" where
  "boot_frame s s' \<longleftrightarrow> uart_in s' = uart_in s \<and> uart_out s' = uart_out s \<and> str_pool_next s' = str_pool_next s \<and>
     gc_root_count s' = gc_root_count s \<and> gc_collections s' = gc_collections s \<and> catch_depth s' = catch_depth s \<and>
     catch_throwing s' = catch_throwing s \<and> wind_depth s' = wind_depth s \<and> c_stack s' = c_stack s"

lemma boot_frame_trans: "boot_frame s t \<Longrightarrow> boot_frame t u \<Longrightarrow> boot_frame s u"
  by (simp add: boot_frame_def)

lemma sym_frame_boot: "sym_frame s s' \<Longrightarrow> boot_frame s s' \<and> special_sym s' = special_sym s"
  by (auto simp: sym_frame_def boot_frame_def)

lemma alloc_bump:
  assumes "\<not> gc_enabled s" and "heap_next s = of_nat n" and "n < HEAP_SIZE"
  shows "alloc_cell s = Done (of_nat n) (s\<lparr>heap_next := of_nat (Suc n),
     heap_car := (heap_car s)(n := NIL_VAL), heap_cdr := (heap_cdr s)(n := NIL_VAL)\<rparr>)"
proof -
  have "unat (of_nat n :: i24) = n" "sint (of_nat n :: i24) = int n"
    using assms(3) by simp_all
  with assms show ?thesis
    by (simp add: alloc_cell_def bump_def poke_car_def poke_cdr_def bnd_def HEAP_SIZE_def)
qed

lemma symbol_of_mono: "symbol_of ns name v \<Longrightarrow> symbol_of (ns @ ms) name v"
  unfolding symbol_of_def by (metis nth_append length_append trans_less_add1)

lemma hold_bump:
  assumes "\<not> gc_enabled s" and "heap_next s = of_nat n" and "n < HEAP_SIZE"
  shows "hold ws (cons a d) s = Done (MAKE_CONS (of_nat n)) (s\<lparr>heap_next := of_nat (Suc n),
     heap_car := (heap_car s)(n := a), heap_cdr := (heap_cdr s)(n := d)\<rparr>)"
proof -
  have "cons a d (s\<lparr>c_stack := ws @ c_stack s\<rparr>) = Done (MAKE_CONS (of_nat n)) (s\<lparr>c_stack := ws @ c_stack s,
     heap_next := of_nat (Suc n), heap_car := (heap_car s)(n := a), heap_cdr := (heap_cdr s)(n := d)\<rparr>)"
    by (subst cons_bump [of _ n]) (use assms in simp_all)
  then show ?thesis by (simp add: hold_def bnd_step)
qed

text \<open>Interning a new name.\<close>

lemma boot_intern:
  assumes b: "booting ns n bs ps s" and new: "name \<notin> set ns" "NUL \<notin> set name"
    and room: "length ns < MAX_SYMBOLS" "length (pool_text ns) + length name + 1 \<le> NAME_POOL_SIZE"
  shows "\<exists>s'. intern name s = Done (MAKE_SYMBOL (of_nat (length ns))) s' \<and> booting (ns @ [name]) n bs ps s' \<and>
    boot_frame s s' \<and> special_sym s' = special_sym s"
proof -
  from b have "symtab s ns" by (simp add: booting_def)
  from intern_new [OF this new room] obtain s' where
    s': "intern name s = Done (MAKE_SYMBOL (of_nat (length ns))) s'" "symtab s' (ns @ [name])" "sym_frame s s'" by blast
  have h: "gc_enabled s' = gc_enabled s" "free_list s' = free_list s" "heap_next s' = heap_next s"
    "heap_car s' = heap_car s" "heap_cdr s' = heap_cdr s" "global_env s' = global_env s"
    using s'(3) by (auto simp: sym_frame_def)
  have "alist_at s' (global_env s) bs"
    using b by (intro alist_same [of s "global_env s" bs s']) (simp_all add: booting_def same_cells_def h)
  then have "booting (ns @ [name]) n bs ps s'"
    using b s'(2) by (auto simp: booting_def h prim_at_def intro!: symbol_of_mono elim!: list_all2_mono)
  with s'(1) sym_frame_boot [OF s'(3)] show ?thesis by blast
qed

text \<open>One more cell.\<close>

lemma boot_cell:
  assumes b: "booting ns n bs ps s" and v: "n < HEAP_SIZE" "below (Suc n) a" "below (Suc n) d"
  shows "booting ns (Suc n) bs ps (s\<lparr>heap_next := of_nat (Suc n),
     heap_car := (heap_car s)(n := a), heap_cdr := (heap_cdr s)(n := d)\<rparr>)" (is "booting _ _ _ _ ?s")
proof -
  have "cells_of s (global_env s) \<subseteq> {..<n}"
  proof (rule reach_closed)
    fix i j assume "i \<in> {..<n}" "(i, j) \<in> edges (heap_car s) (heap_cdr s)"
    with b show "j \<in> {..<n}" by (auto simp: booting_def below_def elim!: edges_E)
  qed (use b in \<open>auto simp: booting_def below_def\<close>)
  then have "same_cells s ?s (cells_of s (global_env s))" by (auto simp: same_cells_def)
  with b have "alist_at ?s (global_env s) bs" by (auto simp: booting_def intro: alist_same)
  moreover have "below (Suc n) v" if "below n v" for v using that by (simp add: below_def less_SucI)
  ultimately show ?thesis
    using b v by (auto simp: booting_def symtab_def prim_at_def less_Suc_eq elim!: list_all2_mono)
qed

lemma boot_control:
  "booting ns n bs ps s \<Longrightarrow> booting ns n bs ps (s\<lparr>catch_depth := c, catch_throwing := t, wind_depth := w\<rparr>)"
  using alist_same [of s "global_env s" bs "s\<lparr>catch_depth := c, catch_throwing := t, wind_depth := w\<rparr>"]
  by (auto simp: booting_def symtab_def prim_at_def same_cells_def)

lemma boot_env:
  "booting ns n bs ps s \<Longrightarrow> below n e \<Longrightarrow> alist_at s e bs' \<Longrightarrow>
   list_all2 (\<lambda>(x, v) (name, pid). symbol_of ns name x \<and> prim_at s n v pid) bs' ps' \<Longrightarrow>
   booting ns n bs' ps' (s\<lparr>global_env := e\<rparr>)"
  using alist_same [of s e bs' "s\<lparr>global_env := e\<rparr>"]
  by (auto simp: booting_def symtab_def prim_at_def same_cells_def elim!: list_all2_mono)

section \<open>Registering the primitives\<close>

lemma boot_prim:
  assumes b: "booting ns n bs ps s" and new: "name \<notin> set ns" "NUL \<notin> set name"
    and room: "length ns < MAX_SYMBOLS" "length (pool_text ns) + length name + 1 \<le> NAME_POOL_SIZE"
      "n + 3 \<le> HEAP_SIZE"
  shows "\<exists>s' bs'. register_prim name pid s = Done () s' \<and> booting (ns @ [name]) (Suc (Suc (Suc n))) bs' ((name, pid) # ps) s' \<and>
    boot_frame s s' \<and> special_sym s' = special_sym s"
proof -
  let ?x = "MAKE_SYMBOL (of_nat (length ns))" and ?v = "MAKE_EXTENDED (of_nat n)"
  let ?b = "MAKE_CONS (of_nat (Suc n))" and ?e = "MAKE_CONS (of_nat (Suc (Suc n)))"
  from boot_intern [OF b new room(1,2)] obtain t where t: "intern name s = Done ?x t"
    "booting (ns @ [name]) n bs ps t" "boot_frame s t" "special_sym t = special_sym s" by blast
  have n: "n < HEAP_SIZE" "Suc n < HEAP_SIZE" "Suc (Suc n) < HEAP_SIZE" using room(3) by simp_all
  let ?t1 = "t\<lparr>heap_next := of_nat (Suc n), heap_car := (heap_car t)(n := ETYPE_PRIMITIVE),
    heap_cdr := (heap_cdr t)(n := MAKE_FIXNUM pid)\<rparr>"
  have ge: "\<not> gc_enabled t" "heap_next t = of_nat n" "global_env t = global_env t" using t(2) by (simp_all add: booting_def)
  have p: "make_primitive pid t = Done ?v ?t1"
    using alloc_bump [OF ge(1,2) n(1)] n(1)
    by (simp add: make_primitive_def bnd_step poke_car_def poke_cdr_def)
  have b1: "booting (ns @ [name]) (Suc n) bs ps ?t1"
    by (rule boot_cell [OF t(2) n(1)]) (simp_all add: below_def ETYPE_PRIMITIVE_def)
  let ?g = "global_env t"
  let ?t2 = "?t1\<lparr>heap_next := of_nat (Suc (Suc n)), heap_car := (heap_car ?t1)(Suc n := ?x),
    heap_cdr := (heap_cdr ?t1)(Suc n := ?v)\<rparr>"
  let ?t3 = "?t2\<lparr>heap_next := of_nat (Suc (Suc (Suc n))), heap_car := (heap_car ?t2)(Suc (Suc n) := ?b),
    heap_cdr := (heap_cdr ?t2)(Suc (Suc n) := ?g)\<rparr>"
  have c2: "cons ?x ?v ?t1 = Done ?b ?t2" by (rule cons_bump) (use ge(1) n(2) in simp_all)
  have c3: "cons ?b ?g ?t2 = Done ?e ?t3" by (rule cons_bump) (use ge(1) n(3) in simp_all)
  have h: "hold [?x, ?v, ?g] (cons ?x ?v) ?t1 = Done ?b ?t2"
    by (rule hold_bump) (use ge(1) n(2) in simp_all)
  have run: "register_prim name pid s = Done () (?t3\<lparr>global_env := ?e\<rparr>)"
    using t(1) p h c3 by (simp add: register_prim_def bnd_step env_extend_def)
  have sz: "n < 2097152" "Suc n < 2097152" "Suc (Suc n) < 2097152" using n by (simp_all add: HEAP_SIZE_def)
  have b2: "booting (ns @ [name]) (Suc (Suc n)) bs ps ?t2"
    by (rule boot_cell [OF b1 n(2)]) (use sz in \<open>simp_all add: below_def\<close>)
  have "below n ?g" using t(2) by (simp add: booting_def)
  then have "below (Suc (Suc (Suc n))) ?g" by (auto simp: below_def)
  moreover have "below (Suc (Suc (Suc n))) ?b" by (simp only: below_def cell_of_make [OF sz(2)]) simp
  ultimately have b3: "booting (ns @ [name]) (Suc (Suc (Suc n))) bs ps ?t3"
    by (intro boot_cell [OF b2 n(3)])
  then have g3: "alist_at ?t3 ?g bs" by (simp add: booting_def)
  have "prim_at ?t3 (Suc (Suc (Suc n))) ?v pid" "symbol_of (ns @ [name]) name ?x"
    using n sz by (auto simp: prim_at_def symbol_of_def)
  moreover have "list_all2 (\<lambda>(x, v) (nm, pid). symbol_of (ns @ [name]) nm x \<and> prim_at ?t3 (Suc (Suc (Suc n))) v pid) bs ps"
    using b3 unfolding booting_def by blast
  ultimately have l: "list_all2 (\<lambda>(x, v) (nm, pid). symbol_of (ns @ [name]) nm x \<and> prim_at ?t3 (Suc (Suc (Suc n))) v pid)
      ((?x, ?v) # bs) ((name, pid) # ps)" by simp
  have "alist_at ?t3 ?e ((?x, ?v) # bs)"
    using g3 n by (simp add: cell_of_make [OF sz(3)] cell_of_make [OF sz(2)] del: of_nat_Suc)
  moreover have "below (Suc (Suc (Suc n))) ?e" by (simp only: below_def cell_of_make [OF sz(3)]) simp
  ultimately have bt: "booting (ns @ [name]) (Suc (Suc (Suc n))) ((?x, ?v) # bs) ((name, pid) # ps) (?t3\<lparr>global_env := ?e\<rparr>)"
    by (intro boot_env [OF b3 _ _ l])
  have fr: "boot_frame s (?t3\<lparr>global_env := ?e\<rparr>)"
    by (rule boot_frame_trans [OF t(3)]) (simp add: boot_frame_def)
  have sp: "special_sym (?t3\<lparr>global_env := ?e\<rparr>) = special_sym s" using t(4) by simp
  show ?thesis
    by (rule exI [of _ "?t3\<lparr>global_env := ?e\<rparr>"], rule exI [of _ "(?x, ?v) # bs"], intro conjI run bt fr sp)
qed

lemma boot_prims:
  "booting ns n bs ps s \<Longrightarrow> distinct (ns @ map fst xs) \<Longrightarrow> \<forall>x\<in>set xs. NUL \<notin> set (fst x) \<Longrightarrow>
   length ns + length xs \<le> MAX_SYMBOLS \<Longrightarrow> length (pool_text (ns @ map fst xs)) \<le> NAME_POOL_SIZE \<Longrightarrow>
   n + 3 * length xs \<le> HEAP_SIZE \<Longrightarrow>
   \<exists>s' bs'. register_prims xs s = Done () s' \<and> booting (ns @ map fst xs) (n + 3 * length xs) bs' (rev xs @ ps) s' \<and>
     boot_frame s s' \<and> special_sym s' = special_sym s"
proof (induction xs arbitrary: ns n bs ps s)
  case Nil
  then show ?case by (auto simp: boot_frame_def)
next
  case (Cons x xs)
  obtain name pid where x: "x = (name, pid)" by (cases x)
  have "\<exists>s' bs'. register_prim name pid s = Done () s' \<and>
      booting (ns @ [name]) (Suc (Suc (Suc n))) bs' ((name, pid) # ps) s' \<and> boot_frame s s' \<and> special_sym s' = special_sym s"
    by (rule boot_prim [OF Cons.prems(1)]) (use Cons.prems x in auto)
  then obtain t bs' where t: "register_prim name pid s = Done () t"
    "booting (ns @ [name]) (Suc (Suc (Suc n))) bs' ((name, pid) # ps) t" "boot_frame s t" "special_sym t = special_sym s"
    by blast
  have "\<exists>s' bs2. register_prims xs t = Done () s' \<and>
      booting ((ns @ [name]) @ map fst xs) (Suc (Suc (Suc n)) + 3 * length xs) bs2 (rev xs @ (name, pid) # ps) s' \<and>
      boot_frame t s' \<and> special_sym s' = special_sym t"
    by (rule Cons.IH [OF t(2)]) (use Cons.prems x in auto)
  then obtain u bs2 where u: "register_prims xs t = Done () u"
    "booting ((ns @ [name]) @ map fst xs) (Suc (Suc (Suc n)) + 3 * length xs) bs2 (rev xs @ (name, pid) # ps) u"
    "boot_frame t u" "special_sym u = special_sym t" by blast
  have "Suc (Suc (Suc n)) + 3 * length xs = n + 3 * length (x # xs)" by simp
  with u(2) have "booting (ns @ map fst (x # xs)) (n + 3 * length (x # xs)) bs2 (rev (x # xs) @ ps) u"
    by (simp only: x) simp
  with t u(1,4) x boot_frame_trans [OF t(3) u(3)] show ?case
    by (intro exI [of _ u] exI [of _ bs2]) (simp add: bnd_step)
qed

section \<open>The names of the special forms\<close>

lemma boot_specials:
  "booting ns n bs ps s \<Longrightarrow> distinct (ns @ map snd xs) \<Longrightarrow> \<forall>x\<in>set xs. NUL \<notin> set (snd x) \<Longrightarrow>
   length ns + length xs \<le> MAX_SYMBOLS \<Longrightarrow> length (pool_text (ns @ map snd xs)) \<le> NAME_POOL_SIZE \<Longrightarrow>
   distinct (map fst xs) \<Longrightarrow>
   \<exists>s'. intern_specials xs s = Done () s' \<and> booting (ns @ map snd xs) n bs ps s' \<and> boot_frame s s' \<and>
     (\<forall>(x, name)\<in>set xs. symbol_of (ns @ map snd xs) name (special_sym s' x)) \<and>
     (\<forall>x. x \<notin> fst ` set xs \<longrightarrow> special_sym s' x = special_sym s x)"
proof (induction xs arbitrary: ns s)
  case Nil
  then show ?case by (auto simp: boot_frame_def)
next
  case (Cons y xs)
  obtain x name where y: "y = (x, name)" by (cases y)
  have "\<exists>s'. intern name s = Done (MAKE_SYMBOL (of_nat (length ns))) s' \<and> booting (ns @ [name]) n bs ps s' \<and>
      boot_frame s s' \<and> special_sym s' = special_sym s"
    by (rule boot_intern [OF Cons.prems(1)]) (use Cons.prems y in auto)
  then obtain t where t: "intern name s = Done (MAKE_SYMBOL (of_nat (length ns))) t"
    "booting (ns @ [name]) n bs ps t" "boot_frame s t" "special_sym t = special_sym s" by blast
  let ?t = "t\<lparr>special_sym := (special_sym t)(x := MAKE_SYMBOL (of_nat (length ns)))\<rparr>"
  have a: "alist_at t (global_env t) bs" using t(2) by (simp add: booting_def)
  have "alist_at ?t (global_env t) bs" by (rule alist_same [OF a]) (simp add: same_cells_def)
  then have b: "booting (ns @ [name]) n bs ps ?t"
    using t(2) by (simp add: booting_def symtab_def prim_at_def)
  have "\<exists>s'. intern_specials xs ?t = Done () s' \<and> booting ((ns @ [name]) @ map snd xs) n bs ps s' \<and> boot_frame ?t s' \<and>
     (\<forall>(x, nm)\<in>set xs. symbol_of ((ns @ [name]) @ map snd xs) nm (special_sym s' x)) \<and>
     (\<forall>x. x \<notin> fst ` set xs \<longrightarrow> special_sym s' x = special_sym ?t x)"
    by (rule Cons.IH [OF b]) (use Cons.prems y in auto)
  then obtain u where u: "intern_specials xs ?t = Done () u" "booting ((ns @ [name]) @ map snd xs) n bs ps u"
    "boot_frame ?t u" "\<forall>(x, nm)\<in>set xs. symbol_of ((ns @ [name]) @ map snd xs) nm (special_sym u x)"
    "\<forall>x. x \<notin> fst ` set xs \<longrightarrow> special_sym u x = special_sym ?t x" by blast
  have "symbol_of (ns @ name # map snd xs) name (special_sym u x)"
    using u(5) Cons.prems(6) y by (auto simp: symbol_of_def intro!: exI [of _ "length ns"])
  moreover have "boot_frame s u" using t(3) u(3) by (simp add: boot_frame_def)
  moreover have "intern_specials (y # xs) s = Done () u"
    using t(1) u(1) y by (simp add: bnd_step)
  ultimately show ?case
    using u(2,4,5) y t by (intro exI [of _ u]) (auto simp: bnd_step)
qed

section \<open>A reset\<close>

definition boot_names :: "string list" where
  "boot_names = [''nil'', ''t''] @ map snd special_names @ map fst primitive_names"

text \<open>The interpreter as \<open>reset_interpreter\<close> leaves it.\<close>

definition booted :: "lisp \<Rightarrow> bool" where
  "booted s \<longleftrightarrow> state_ok boot_names s \<and> gc_enabled s \<and> heap_next s = of_nat (3 * length primitive_names) \<and>
     free_list s = -1 \<and> gc_root_count s = 0 \<and> catch_depth s = 0 \<and> \<not> catch_throwing s \<and> wind_depth s = 0 \<and>
     str_pool_next s = 0 \<and> gensym_counter s = 0 \<and> c_stack s = [] \<and>
     (\<forall>(x, name)\<in>set special_names. symbol_of boot_names name (special_sym s x)) \<and>
     (\<exists>bs. alist_at s (global_env s) bs \<and>
       list_all2 (\<lambda>(x, v) (name, pid). symbol_of boot_names name x \<and> prim_at s HEAP_SIZE v pid)
         bs (rev primitive_names))"

lemma boot_names_distinct: "distinct boot_names"
  by (simp add: boot_names_def special_names_def primitive_names_def)

lemma boot_names_size: "length boot_names \<le> MAX_SYMBOLS" "length (pool_text boot_names) \<le> NAME_POOL_SIZE"
    "\<forall>n\<in>set boot_names. NUL \<notin> set n"
  by (simp_all add: boot_names_def special_names_def primitive_names_def MAX_SYMBOLS_def NAME_POOL_SIZE_def NUL_def)

lemma primitives_fit: "3 * length primitive_names \<le> HEAP_SIZE" "3 * length primitive_names < HEAP_SIZE"
  by (simp_all add: primitive_names_def HEAP_SIZE_def)

lemma boot_heap_ok:
  assumes b: "booting ns n bs ps s" and z: "gc_root_count s = 0" "wind_depth s = 0" "catch_depth s = 0"
  shows "heap_ok s"
proof -
  have n: "count_to (heap_next s) = n" "0 \<le> sint (heap_next s)"
    using b sint_cell(2) [of n] by (simp_all add: booting_def count_to_def)
  have f: "free_ok s []" using b by (simp add: free_ok_def booting_def)
  then have u: "used s = {..<n}" using n by (simp add: used_free)
  have c: "count_to (0 :: i24) = 0" by (simp add: count_to_def)
  have "sound s v" if "below n v" for v using that u by (simp add: sound_def below_def)
  moreover have "own_roots s = {global_env s}" using z c by (simp add: own_roots_def)
  ultimately show ?thesis
    using b n f c u z by (auto simp: heap_ok_def counts_ok_def booting_def)
qed

text \<open>C38: Each selection of the monitor initialises a fresh interpreter: from every state, whatever a
  session before has left, the reset ends, and the symbols are exactly nil, t, the special forms
  and the primitives, the global environment binds exactly the primitives to their numbers, all
  stacks are empty and the collector is on over a well-formed heap.\<close>

theorem reset_fresh:
  "\<exists>s'. reset_interpreter s = Done () s' \<and> booted s' \<and> uart_in s' = uart_in s \<and> uart_out s' = uart_out s"
proof -
  let ?s = "s\<lparr>gc_enabled := False, heap_next := 0, free_list := -1, gc_root_count := 0, gc_collections := 0, c_stack := []\<rparr>"
  from symbol_init_spec [of ?s] obtain s1 where s1: "symbol_init ?s = Done () s1" "symtab s1 [''nil'', ''t'']"
    "sym_frame ?s s1" by blast
  let ?t = "s1\<lparr>str_pool_next := 0, global_env := NIL_VAL\<rparr>"
  have b: "booting [''nil'', ''t''] 0 [] [] ?t"
    using s1(2,3) by (auto simp: booting_def sym_frame_def symtab_def below_def)
  let ?sn = "[''nil'', ''t''] @ map snd special_names"
  have "\<exists>s'. intern_specials special_names ?t = Done () s' \<and> booting ?sn 0 [] [] s' \<and> boot_frame ?t s' \<and>
     (\<forall>(x, name)\<in>set special_names. symbol_of ?sn name (special_sym s' x)) \<and>
     (\<forall>x. x \<notin> fst ` set special_names \<longrightarrow> special_sym s' x = special_sym ?t x)"
    by (rule boot_specials [OF b]) (simp_all add: special_names_def MAX_SYMBOLS_def NAME_POOL_SIZE_def NUL_def)
  then obtain s2 where s2: "intern_specials special_names ?t = Done () s2" "booting ?sn 0 [] [] s2" "boot_frame ?t s2"
    "\<forall>(x, name)\<in>set special_names. symbol_of ?sn name (special_sym s2 x)" by blast
  let ?u = "s2\<lparr>catch_depth := 0, catch_throwing := False, wind_depth := 0\<rparr>"
  have b2: "booting ?sn 0 [] [] ?u" by (rule boot_control [OF s2(2)])
  have "\<exists>s' bs'. register_prims primitive_names ?u = Done () s' \<and>
      booting (?sn @ map fst primitive_names) (0 + 3 * length primitive_names) bs' (rev primitive_names @ []) s' \<and>
      boot_frame ?u s' \<and> special_sym s' = special_sym ?u"
    by (rule boot_prims [OF b2]) (use boot_names_distinct boot_names_size primitives_fit in \<open>simp_all add: boot_names_def\<close>)
  then obtain s3 bs where s3: "register_prims primitive_names ?u = Done () s3"
    "booting boot_names (3 * length primitive_names) bs (rev primitive_names) s3"
    "boot_frame ?u s3" "special_sym s3 = special_sym ?u" by (auto simp: boot_names_def)
  let ?z = "s3\<lparr>gensym_counter := 0, gc_enabled := True\<rparr>"
  have "reset_interpreter s = Done () ?z"
    using s1(1) s2(1) s3(1)
    by (simp add: reset_interpreter_def heap_init_def gc_init_def string_init_def eval_init_def bnd_step)
  moreover have "booted ?z"
  proof -
    have z: "gc_root_count s3 = 0" "wind_depth s3 = 0" "catch_depth s3 = 0" "c_stack s3 = []" "str_pool_next s3 = 0"
      "\<not> catch_throwing s3"
      using s1(3) s2(3) s3(3) by (auto simp: boot_frame_def sym_frame_def)
    have k: "heap_next s3 = of_nat (3 * length primitive_names)" "free_list s3 = -1" "symtab s3 boot_names"
      "alist_at s3 (global_env s3) bs"
      "list_all2 (\<lambda>(x, v) (name, pid). symbol_of boot_names name x \<and> prim_at s3 (3 * length primitive_names) v pid)
        bs (rev primitive_names)" using s3(2) by (simp_all add: booting_def)
    have "heap_ok s3" by (rule boot_heap_ok [OF s3(2) z(1-3)])
    then have ok: "state_ok boot_names ?z"
      using k(3) z(5) by (simp add: state_ok_def symtab_def heap_ok_def free_ok_def counts_ok_def own_roots_def
          sound_def used_def boot_names_def)
    have al: "alist_at ?z (global_env s3) bs" by (rule alist_same [OF k(4)]) (simp add: same_cells_def)
    have bound: "list_all2 (\<lambda>(x, v) (name, pid). symbol_of boot_names name x \<and> prim_at ?z HEAP_SIZE v pid)
        bs (rev primitive_names)"
      using k(5) by (rule list_all2_mono) (use primitives_fit in \<open>auto simp: prim_at_def\<close>)
    have spec: "\<forall>(x, name)\<in>set special_names. symbol_of boot_names name (special_sym ?z x)"
      using s2(4) s3(4) symbol_of_mono [of ?sn _ _ "map fst primitive_names"] by (auto simp: boot_names_def)
    show ?thesis
      unfolding booted_def using ok al bound spec k z by (intro conjI) (auto intro: exI [of _ bs])
  qed
  moreover have "uart_in ?z = uart_in s" "uart_out ?z = uart_out s"
    using s1(3) s2(3) s3(3) by (auto simp: boot_frame_def sym_frame_def)
  ultimately show ?thesis by blast
qed

end
