(* ===== verification/Tml_Repl.thy ===== *)
theory Tml_Repl
  imports Tml_Boot
begin

text \<open>
  A turn of the REPL: from the keys that are typed over the line editor, the reader and the
  evaluator to what is printed.
\<close>

lemma at_rest [simp]:
  "special_sym (at t s) = special_sym s" "uart_in (at t s) = uart_in s" "uart_out (at t s) = uart_out s"
  by (simp_all add: at_def)

section \<open>The reader and the stacks of the runtime\<close>

lemma steady_text: "steady d (s\<lparr>read_ptr := t\<rparr>) s' = steady d s s'"
  by (simp add: steady_def symtab_def)

lemma moves_read_ptr [moving]:
  "moves 0 skip_whitespace" "moves 0 (advance n)" "moves 0 look" "moves 0 close_list"
proof -
  have s: "steady 0 s (s\<lparr>read_ptr := t\<rparr>)" for s t
    using steady_refl [of "s\<lparr>read_ptr := t\<rparr>"] steady_text by metis
  then show "moves 0 skip_whitespace" "moves 0 (advance n)" for n
    by (auto simp: moves_def skip_whitespace_def advance_def split: if_splits)
  then show "moves 0 look" "moves 0 close_list"
    unfolding look_def close_list_def by (intro moving)+
qed

lemma moves_read_text:
  assumes "\<And>a. moves 0 (m a)"
  shows "moves 0 (\<lambda>s. m (f (read_ptr s)) (s\<lparr>read_ptr := g (read_ptr s)\<rparr>))"
  using assms by (auto simp: moves_def) (metis steady_text)

lemma moves_read_number [moving]: "moves 0 read_hex" "moves 0 read_int"
proof -
  have "moves 0 (\<lambda>s. ret (MAKE_FIXNUM (fst (hex_loop 0 (read_ptr s)))) (s\<lparr>read_ptr := snd (hex_loop 0 (read_ptr s))\<rparr>))"
    by (rule moves_read_text [of ret]) (rule moving)
  then show "moves 0 read_hex"
    unfolding read_hex_def by (intro moving) (simp add: case_prod_beta Let_def)
  have "moves 0 (\<lambda>s. ret (MAKE_FIXNUM (h (fst (int_loop 0 (read_ptr s))))) (s\<lparr>read_ptr := snd (int_loop 0 (read_ptr s))\<rparr>))"
    for h
    by (rule moves_read_text [of ret]) (rule moving)
  from this [of "\<lambda>n. if _ then 0 - n else n"] show "moves 0 read_int"
    unfolding read_int_def by (intro moving) (simp add: case_prod_beta Let_def)
qed

lemma moves_read_symbol [moving]: "moves 0 read_symbol"
  unfolding moves_def
proof (intro allI impI)
  fix s :: lisp and v s'
  let ?p = "symbol_loop 63 (read_ptr s)"
  assume "read_symbol s = Done v s'"
  then have r: "intern (fst ?p) (s\<lparr>read_ptr := snd ?p\<rparr>) = Done v s'"
    by (simp add: read_symbol_def case_prod_beta)
  have "NUL \<notin> set (fst ?p)" "length (fst ?p) \<le> 8192"
    using symbol_loop_facts(1,2) [where k = 63 and t = "read_ptr s"] by auto
  from moves_intern [OF this] r show "steady 0 s s'"
    using steady_text by (fastforce simp: moves_def)
qed

lemma moves_read_string [moving]: "moves 0 read_string"
proof -
  have "moves 0 (\<lambda>s. case string_loop 119 (read_ptr s) of None \<Rightarrow> Wild
      | Some (str, t) \<Rightarrow> make_string str (s\<lparr>read_ptr := (if here t = CHR 0x22 then tl t else t)\<rparr>))"
    using moves_make_string steady_text
    by (fastforce simp: moves_def split: option.splits)
  then show ?thesis unfolding read_string_def by (intro moving)
qed

lemma moves_quote_form [moving]: "NUL \<notin> set name \<Longrightarrow> length name \<le> 8192 \<Longrightarrow> moves 0 (quote_form name v)"
  unfolding quote_form_def by (intro moving moves_intern)

lemma moves_reader: "moves 0 (read_expr n) \<and> moves 0 (read_list n) \<and> (\<forall>h t. moves 0 (read_items n h t))"
proof (induction n)
  case 0
  show ?case by (simp add: moving del: act_simps)
next
  case (Suc n)
  have q: "NUL \<notin> set ''quote''" "NUL \<notin> set ''quasiquote''" "NUL \<notin> set ''unquote''" "NUL \<notin> set ''unquote-splicing''"
    by (simp_all add: NUL_def)
  from Suc have IH: "moves 0 (read_expr n)" "moves 0 (read_list n)" "\<And>h t. moves 0 (read_items n h t)" by auto
  have "moves 0 (read_expr (Suc n))"
    unfolding read_expr.simps Let_def by (intro moving IH moves_quote_form q) simp_all
  moreover have "moves 0 (read_list (Suc n))" unfolding read_list.simps by (intro moving IH)
  moreover have "moves 0 (read_items (Suc n) h t)" for h t unfolding read_items.simps by (intro moving IH)
  ultimately show ?case by blast
qed

lemmas [moving] = moves_reader [THEN conjunct1]

section \<open>What the reader takes\<close>

text \<open>
  The reader writes nothing unless it panics, and what it adds to the string pool is not longer
  than the text it takes.
\<close>

definition budget :: "lisp \<Rightarrow> nat" where
  "budget s = unat (str_pool_next s) + length (read_ptr s)"

definition thrifty :: "'a act \<Rightarrow> bool" where
  "thrifty m \<longleftrightarrow> (\<forall>s a s'. m s = Done a s' \<longrightarrow> uart_out s' = uart_out s \<and> budget s' \<le> budget s)"

named_theorems thrift "operations that write nothing and keep to the budget"

lemma thrifty_bnd [thrift]: "thrifty m \<Longrightarrow> (\<And>a. thrifty (f a)) \<Longrightarrow> thrifty (bnd m f)"
  unfolding thrifty_def by (metis bnd_Done_E order_trans)

lemma thrifty_hold [thrift]:
  assumes "thrifty m"
  shows "thrifty (hold vs m)"
  unfolding thrifty_def
proof (intro allI impI)
  fix s a s' assume "hold vs m s = Done a s'"
  then obtain s1 where "m (s\<lparr>c_stack := vs @ c_stack s\<rparr>) = Done a s1" "s' = s1\<lparr>c_stack := c_stack s\<rparr>"
    by (rule hold_Done)
  with assms show "uart_out s' = uart_out s \<and> budget s' \<le> budget s"
    by (fastforce simp: thrifty_def budget_def)
qed

lemma thrifty_if [thrift]: "(b \<Longrightarrow> thrifty m) \<Longrightarrow> (\<not> b \<Longrightarrow> thrifty m') \<Longrightarrow> thrifty (if b then m else m')"
  by simp

lemma thrifty_basic [thrift]: "thrifty (ret a)" "thrifty (get g)" "thrifty halt" "thrifty wild" "thrifty starved"
  by (simp_all add: thrifty_def)

lemma quiet_thrifty: "quiet m \<Longrightarrow> thrifty m"
  by (auto simp: quiet_def thrifty_def same_control_def budget_def)

lemma thrifty_cells [thrift]:
  "thrifty (peek_car i)" "thrifty (peek_cdr i)" "thrifty (poke_car i v)" "thrifty (poke_cdr i v)" "thrifty gc_collect"
  by (rule quiet_thrifty, rule quiet_cells quiet_gc_collect)+

lemma thrifty_alloc [thrift]: "thrifty alloc_cell"
proof -
  have t: "thrifty take_free" "thrifty bump"
    by (auto simp: thrifty_def budget_def take_free_def bump_def peek_cdr_def poke_car_def poke_cdr_def
        elim!: bnd_Done_E split: if_splits)
  have "thrifty gc_alloc_cell"
    using t thrifty_cells(5)
    by (fastforce simp: thrifty_def gc_alloc_cell_def elim!: bnd_Done_E split: if_splits)
  with t show ?thesis
    by (auto simp: thrifty_def alloc_cell_def elim!: bnd_Done_E split: if_splits)
qed

lemma thrifty_cons [thrift]: "thrifty (cons a d)"
  unfolding cons_def by (intro thrift)

lemma thrifty_intern [thrift]: "thrifty (intern name)"
  using intern_frame by (fastforce simp: thrifty_def budget_def sym_frame_def)

lemma push_chars_takes:
  "push_chars ds s = Done () s' \<Longrightarrow> uart_out s' = uart_out s \<and> budget s' = budget s + length ds \<and> read_ptr s' = read_ptr s"
proof (induction ds arbitrary: s)
  case (Cons d ds)
  then obtain t where t: "push_char d s = Done () t" "push_chars ds t = Done () s'" by (auto elim: bnd_Done_E)
  then have "unat (str_pool_next s) < STR_POOL_SIZE"
    "t = s\<lparr>str_pool := (str_pool s)(unat (str_pool_next s) := d), str_pool_next := str_pool_next s + 1\<rparr>"
    by (auto simp: push_char_def split: if_splits)
  then have "budget t = Suc (budget s)" "uart_out t = uart_out s" "read_ptr t = read_ptr s"
    by (simp_all add: budget_def unat_word_ariths STR_POOL_SIZE_def)
  with Cons.IH [OF t(2)] show ?case by simp
qed simp

lemma make_string_takes:
  assumes "make_string cs s = Done v s'"
  shows "uart_out s' = uart_out s \<and> budget s' \<le> budget s + length cs + 1"
proof -
  have c: "thrifty (string_cell off len)" for off len unfolding string_cell_def by (intro thrift)
  from assms obtain t u where p: "push_chars cs s = Done () t" "push_chars [NUL] t = Done () u"
    and r: "string_cell (str_pool_next s) (of_nat (length cs)) u = Done v s'"
    by (auto simp: make_string_def str_panic_def bnd_step elim!: bnd_Done_E split: if_splits)
  from push_chars_takes [OF p(1)] push_chars_takes [OF p(2)] c [of "str_pool_next s" "of_nat (length cs)"] r
  show ?thesis by (fastforce simp: thrifty_def)
qed

lemma thrifty_text [thrift]:
  "thrifty skip_whitespace" "thrifty (advance n)" "thrifty look" "thrifty close_list" "thrifty read_hex" "thrifty read_int"
  "thrifty read_symbol"
proof -
  show a: "thrifty skip_whitespace" "thrifty (advance n)" "thrifty look" for n
    using length_skip_ws
    by (auto simp: thrifty_def budget_def skip_whitespace_def advance_def look_def split: if_splits)
  show "thrifty close_list" unfolding close_list_def by (intro thrift a)
  show "thrifty read_hex" "thrifty read_int"
    unfolding read_hex_def read_int_def using length_hex_loop length_int_loop
    by (intro thrift a; auto simp: thrifty_def budget_def Let_def case_prod_beta)+
  show "thrifty read_symbol"
    unfolding thrifty_def
  proof (intro allI impI)
    fix s v s' assume "read_symbol s = Done v s'"
    then show "uart_out s' = uart_out s \<and> budget s' \<le> budget s"
      using thrifty_intern length_symbol_loop [of 63 "read_ptr s"]
      by (fastforce simp: thrifty_def budget_def read_symbol_def case_prod_beta)
  qed
qed

lemma string_loop_takes: "string_loop k t = Some (str, r) \<Longrightarrow> length str + length r \<le> length t"
proof (induction k arbitrary: t str r)
  case (Suc k)
  show ?case
  proof (cases t)
    case (Cons c cs)
    consider "c = CHR 0x22" | "c = CHR 0x5C" | "c \<noteq> CHR 0x22" "c \<noteq> CHR 0x5C" by blast
    then show ?thesis
    proof cases
      case 2
      with Suc.prems Cons obtain d ds where "cs = d # ds" by (cases cs) auto
      with 2 Suc.prems Cons show ?thesis by (auto dest!: Suc.IH)
    qed (use Suc.prems Cons in \<open>auto dest!: Suc.IH\<close>)
  qed (use Suc.prems in simp)
qed simp

lemma thrifty_read_string [thrift]: "thrifty read_string"
  unfolding thrifty_def
proof (intro allI impI)
  fix s v s' assume run: "read_string s = Done v s'"
  then have l: "1 \<le> length (read_ptr s)" by (auto simp: read_string_def advance_def bnd_def split: if_splits)
  with run obtain str t where t: "string_loop 119 (tl (read_ptr s)) = Some (str, t)"
    and m: "make_string str (at (if here t = CHR 0x22 then tl t else t) s) = Done v s'"
    by (auto simp: read_string_def drop_Suc at_def split: option.splits)
  have "length str + length t + 1 \<le> length (read_ptr s)" using string_loop_takes [OF t] l by simp
  with make_string_takes [OF m] show "uart_out s' = uart_out s \<and> budget s' \<le> budget s"
    by (auto simp: budget_def split: if_splits)
qed

lemma thrifty_reader: "thrifty (read_expr n) \<and> thrifty (read_list n) \<and> (\<forall>h t. thrifty (read_items n h t))"
proof (induction n)
  case 0
  show ?case by (simp add: thrift del: act_simps)
next
  case (Suc n)
  then have IH: "thrifty (read_expr n)" "thrifty (read_list n)" "\<And>h t. thrifty (read_items n h t)" by auto
  have q: "thrifty (quote_form name v)" for name v unfolding quote_form_def by (intro thrift)
  have "thrifty (read_expr (Suc n))" unfolding read_expr.simps Let_def by (intro thrift IH q)
  moreover have "thrifty (read_list (Suc n))" unfolding read_list.simps by (intro thrift IH)
  moreover have "thrifty (read_items (Suc n) h t)" for h t unfolding read_items.simps by (intro thrift IH)
  ultimately show ?case by blast
qed

section \<open>A quoted datum\<close>

lemma held_reads:
  assumes ok: "state_ok ns s" and nul: "NUL \<notin> set (read_ptr s)"
  shows "reads ns s (parse k (read_ptr s)) (hold fr (read_expr k) s)"
proof -
  let ?s = "s\<lparr>c_stack := fr @ c_stack s\<rparr>"
  have r: "reads ns ?s (parse k (read_ptr s)) (read_expr k ?s)"
    using read_expr_reads [of ns ?s k] ok nul by simp
  have h: "hold fr (read_expr k) s = (case read_expr k ?s of Done v s1 \<Rightarrow> Done v (s1\<lparr>c_stack := c_stack s\<rparr>)
      | Halted s' \<Rightarrow> Halted s' | Waiting s' \<Rightarrow> Waiting s' | Wild \<Rightarrow> Wild | Starved \<Rightarrow> Starved)"
    by (simp add: hold_def bnd_def split: outcome.split)
  have pop: "got ns s x t v ns' (s1\<lparr>c_stack := c_stack s\<rparr>)" if "got ns ?s x t v ns' s1" for x t v ns' s1
  proof -
    from that have g: "grows ns ?s ns' s1" "sound s1 v" "fresh ?s s1 v" "read_ptr s1 = t" "NUL \<notin> set t" "den ns' s1 v x"
      unfolding got_def by blast+
    have "fresh s (s1\<lparr>c_stack := c_stack s\<rparr>) v"
      using g(3) live_push [of s fr] unfolding fresh_def by simp blast
    with g grows_pop [OF g(1)] show ?thesis by (simp add: got_def)
  qed
  show ?thesis
  proof (cases "parse k (read_ptr s)")
    case (Parsed x t)
    with r pop show ?thesis unfolding reads_def h by fastforce
  qed (use r in \<open>auto simp: reads_def h\<close>)
qed

text \<open>The symbols of the special forms are those of their names.\<close>

definition specials_ok :: "string list \<Rightarrow> lisp \<Rightarrow> bool" where
  "specials_ok ns s \<longleftrightarrow> (\<forall>(x, name)\<in>set special_names. symbol_of ns name (special_sym s x))"

lemma symbol_unique:
  assumes "symtab s ns" and "symbol_of ns name v" and "symbol_of ns name w"
  shows "v = w"
  using assms nth_eq_iff_index_eq [of ns] by (auto simp: symbol_of_def symtab_def)

lemma eval_quoted:
  assumes "symtab s ns" and "specials_ok ns s" and "denotes ns s v (quoted ''quote'' d)"
  shows "\<exists>w. eval (Suc k) v env s = Done w s \<and> denotes ns s w d"
proof -
  from assms(3) have v: "IS_CONS v" "cell_of v < HEAP_SIZE" "denotes ns s (heap_car s (cell_of v)) (Sym ''quote'')"
    "denotes ns s (heap_cdr s (cell_of v)) (Pair d nil)" by (simp_all add: quoted_def)
  have "symbol_of ns ''quote'' (special_sym s Quote)"
    using assms(2) by (auto simp: specials_ok_def special_names_def)
  moreover have "symbol_of ns ''quote'' (heap_car s (cell_of v))" using v(3) by (auto simp: symbol_of_def)
  ultimately have h: "heap_car s (cell_of v) = special_sym s Quote" using symbol_unique [OF assms(1)] by blast
  have t: "\<not> IS_FIXNUM v" "\<not> IS_NIL v" "v \<noteq> T_VAL" "\<not> IS_EXTENDED v" "\<not> IS_SYMBOL v"
    using v(1) tag_exclusive(1) [of v] by (auto simp: IS_NIL_def T_VAL_def)
  show ?thesis
    using v t h by (auto simp: eval_turn_def car_eq cdr_eq bnd_def)
qed

lemma parse_quote:
  assumes "readable d" and "3 * length (shown d) + 2 \<le> n"
  shows "parse (Suc n) (CHR 0x27 # shown d) = Parsed (quoted ''quote'' d) []"
proof -
  have "ends []" by (simp add: ends_def here_def is_sym_char_def)
  with parse_shown(1) [OF assms(1), of "[]" n] parse_enough [of "shown d" n] assms(2)
  have p: "parse n (shown d) = Parsed d []" by auto
  have "skip_ws (CHR 0x27 # shown d) = CHR 0x27 # shown d"
    by (rule begins_skip) (simp add: begins_def here_def is_whitespace_def NUL_def)
  with p show ?thesis by (simp add: here_def Let_def)
qed

lemma state_ok_says [simp]: "state_ok ns (says t s) = state_ok ns s"
  by (simp add: state_ok_def heap_ok_def free_ok_def counts_ok_def own_roots_def sound_def used_def)

lemma state_ok_in [simp]: "state_ok ns (s\<lparr>uart_in := ks\<rparr>) = state_ok ns s"
  by (simp add: state_ok_def heap_ok_def free_ok_def counts_ok_def own_roots_def sound_def used_def symtab_def)

text \<open>
  One expression of the REPL, with the states in which the runtime is known to work: a datum that
  has strings is printed right while the string pool is below 2048 bytes.
\<close>

definition repl_ok :: "string list \<Rightarrow> lisp \<Rightarrow> bool" where
  "repl_ok ns s \<longleftrightarrow> state_ok ns s \<and> specials_ok ns s"

lemma specials_grow:
  "specials_ok ns s \<Longrightarrow> special_sym s' = special_sym s \<Longrightarrow> specials_ok (ns @ ms) s'"
  using symbol_of_mono by (fastforce simp: specials_ok_def)

lemma repl_expr_quote:
  assumes ok: "repl_ok ns s" and p: "read_ptr s = CHR 0x27 # shown d" "readable d"
    and k: "3 * length (shown d) + print_fuel d + 4 \<le> k"
    and room: "unat (str_pool_next s) + length (shown d) < 2048"
  shows "(\<exists>ns' s'. repl_exprs k fr s = Done () s' \<and> repl_ok ns' s' \<and> uart_in s' = uart_in s \<and>
      uart_out s' = uart_out s @ shown d @ [CHR 0x0A] \<and>
      unat (str_pool_next s') \<le> unat (str_pool_next s) + length (shown d) + 1) \<or>
    (\<exists>s'. repl_exprs k fr s = Halted s')"
proof -
  obtain j where j: "k = Suc (Suc j)" "3 * length (shown d) + 2 \<le> j" "print_fuel d \<le> j" "j \<noteq> 0"
    using k by (cases k; cases "k - 1") auto
  have nul: "NUL \<notin> set (read_ptr s)" using p NUL_shown(1) by (simp add: NUL_def)
  have pj: "parse (Suc j) (read_ptr s) = Parsed (quoted ''quote'' d) []"
    unfolding p(1) by (rule parse_quote [OF p(2) j(2)])
  have "state_ok ns s" using ok by (simp add: repl_ok_def)
  from held_reads [OF this nul, of "Suc j" fr] pj consider s' where "hold fr (read_expr (Suc j)) s = Halted s'"
    | v ns' s1 where "hold fr (read_expr (Suc j)) s = Done v s1" "got ns s (quoted ''quote'' d) [] v ns' s1"
    by (auto simp: reads_def)
  then show ?thesis
  proof cases
    case 1
    then show ?thesis using p(1) by (simp add: j(1) here_def NUL_def bnd_step)
  next
    case (2 v ns' s1)
    have tr: "uart_out s1 = uart_out s \<and> budget s1 \<le> budget s"
      using thrifty_hold [OF thrifty_reader [THEN conjunct1]] 2(1) unfolding thrifty_def by blast
    have n: "unat (str_pool_next s1) \<le> unat (str_pool_next s) + length (shown d) + 1"
      using tr p(1) 2(2) by (simp add: budget_def got_def)
    then have True: "unat (str_pool_next s1) \<le> 2048" using room by simp
    with 2(2) have g: "state_ok ns' s1" "\<exists>ms. ns' = ns @ ms" "read_ptr s1 = []" "denotes ns' s1 v (quoted ''quote'' d)"
      by (auto simp: got_def grows_def den_def)
    have "steady 0 s s1" using moves_hold [OF moves_reader [THEN conjunct1]] 2(1) unfolding moves_def by blast
    then have st: "special_sym s1 = special_sym s" "uart_in s1 = uart_in s" by (simp_all add: steady_def)
    from st(1) g(2) ok have sp: "specials_ok ns' s1" by (auto simp: repl_ok_def intro: specials_grow)
    have tab: "symtab s1 ns'" "ns' ! 0 = ''nil''" using g(1) by (auto simp: state_ok_def)
    from eval_quoted [of "s1\<lparr>c_stack := (fr @ [v]) @ c_stack s1\<rparr>" ns' v d "j" "global_env s1"] tab(1) sp g(4)
    obtain w where "eval (Suc j) v (global_env s1) (s1\<lparr>c_stack := (fr @ [v]) @ c_stack s1\<rparr>) =
      Done w (s1\<lparr>c_stack := (fr @ [v]) @ c_stack s1\<rparr>)" "denotes ns' s1 w d"
      by (auto simp: specials_ok_def)
    then have ev: "hold (fr @ [v]) (eval (Suc j) v (global_env s1)) s1 = Done w s1" and w: "denotes ns' s1 w d"
      by (simp_all add: hold_def bnd_step)
    have pr: "print_val (Suc j) w s1 = Done () (says (shown d) s1)"
      by (rule print_says(1) [OF tab w]) (use j in simp)
    let ?z = "at [] (says (shown d @ [CHR 0x0A]) s1)"
    have "skip_ws [] = []" by (rule skip_ws_idle) (simp_all add: here_def is_whitespace_def NUL_def)
    moreover obtain i where "j = Suc i" using j(4) by (cases j) auto
    then have "repl_exprs (Suc j) fr ?z = Done () ?z" by (simp add: here_def)
    ultimately have "repl_exprs k fr s = Done () ?z"
      unfolding j(1) repl_exprs.simps(2) [of "Suc j"] using 2(1) ev pr g(3) p(1)
      by (simp add: bnd_step here_def NUL_def del: read_expr.simps eval.simps print_val.simps repl_exprs.simps)
    moreover have "repl_ok ns' ?z" using g(1) sp by (simp add: repl_ok_def specials_ok_def)
    ultimately show ?thesis
      using st(2) tr n by (intro disjI1) auto
  qed
qed

section \<open>A line with a quoted datum\<close>

definition control_keys :: "char set" where
  "control_keys = {CHR 4, CHR 8, CHR 0x0A, CHR 0x0D, CHR 29, CHR 127}"

lemma edit_plain:
  "set t \<inter> control_keys = {} \<Longrightarrow> length buf + length t < cap - 1 \<Longrightarrow> fst (rescan (buf @ t)) \<le> 0 \<Longrightarrow>
   edit cap buf (t @ CHR 0x0A # keys) = (Line (buf @ t), t @ [CHR 0x0D, CHR 0x0A], keys)"
proof (induction t arbitrary: buf)
  case (Cons c t)
  then have "edit cap (buf @ [c]) (t @ CHR 0x0A # keys) = (Line (buf @ c # t), t @ [CHR 0x0D, CHR 0x0A], keys)"
    using Cons.IH [of "buf @ [c]"] by simp
  with Cons.prems show ?case by (auto simp: control_keys_def)
qed (simp add: control_keys_def)

lemma rescan_quote: "rescan (CHR 0x27 # t) = rescan t"
  by (simp add: rescan_def)

definition typable :: "datum \<Rightarrow> bool" where
  "typable d \<longleftrightarrow> readable d \<and> length (shown d) \<le> 1021 \<and> set (shown d) \<inter> control_keys = {} \<and> fst (rescan (shown d)) \<le> 0"

lemma line_len: "n < 1023 \<Longrightarrow> n \<noteq> 0 \<Longrightarrow> (of_nat n :: i24) \<noteq> -2 \<and> \<not> sint (of_nat n :: i24) < 0 \<and> (of_nat n :: i24) \<noteq> 0"
proof -
  assume n: "n < 1023" "n \<noteq> 0"
  then have s: "sint (of_nat n :: i24) = int n" by (simp add: sint_of_nat_small)
  have "sint (-2 :: i24) = -2" "sint (0 :: i24) = 0" by simp_all
  with s n show ?thesis by (metis of_nat_0_less_iff not_less_iff_gr_or_eq neg_less_0_iff_less of_nat_less_0_iff zero_less_numeral of_nat_eq_0_iff)
qed


lemma booted_repl: "booted s \<Longrightarrow> repl_ok boot_names s"
  by (simp add: booted_def repl_ok_def specials_ok_def)


section \<open>The line editor\<close>



end
