(* ===== verification/Tml_Prelude.thy ===== *)
theory Tml_Prelude
  imports Tml_Repl
begin

text \<open>
  The preludes of the two REPLs (\<open>prelude-scheme.h\<close>, \<open>prelude-full.h\<close>) and the two smaller ones
  (\<open>prelude-standard.h\<close>, \<open>prelude-minimal.h\<close>): the texts that \<open>load_prelude\<close> hands to \<open>eval_str\<close>, one
  after the other.
\<close>

definition scheme_prelude_1 :: "string list" where
  \<open>scheme_prelude_1 = [
    ''(define (reverse-acc lst acc) (if (null? lst) acc (reverse-acc (cdr lst) (cons (car lst) acc))))'',
    ''(define (reverse lst) (reverse-acc lst nil))'',
    ''(define (map-acc f lst acc) (if (null? lst) (reverse acc) (map-acc f (cdr lst) (cons (f (car lst)) acc))))'',
    ''(define (map f lst) (map-acc f lst nil))'',
    ''(define (filter-acc p lst acc) (if (null? lst) (reverse acc) (if (p (car lst)) (filter-acc p (cdr lst) (cons (car lst) acc)) (filter-acc p (cdr lst) acc))))'',
    ''(define (filter p lst) (filter-acc p lst nil))'',
    ''(define for-each (lambda (f lst) (if (null? lst) nil (begin (f (car lst)) (for-each f (cdr lst))))))'',
    ''(define (length-acc lst n) (if (null? lst) n (length-acc (cdr lst) (+ n 1))))'',
    ''(define (length lst) (length-acc lst 0))'',
    ''(define (append-acc ra b) (if (null? ra) b (append-acc (cdr ra) (cons (car ra) b))))'',
    ''(define (append a b) (append-acc (reverse a) b))'',
    ''(define (list-ref lst n) (if (= n 0) (car lst) (list-ref (cdr lst) (- n 1))))'',
    ''(define reduce (lambda (f init lst) (if (null? lst) init (reduce f (f init (car lst)) (cdr lst)))))'',
    ''(define cadr (lambda (x) (car (cdr x))))'']\<close>

definition scheme_prelude_2 :: "string list" where
  \<open>scheme_prelude_2 = [
    ''(define caar (lambda (x) (car (car x))))'',
    ''(define cdar (lambda (x) (cdr (car x))))'',
    ''(define caddr (lambda (x) (car (cdr (cdr x)))))'',
    ''(define boolean? (lambda (x) (if (eq? x t) t (null? x))))'',
    ''(define list? (lambda (x) (if (null? x) t (if (pair? x) (list? (cdr x)) nil))))'',
    ''(define equal? (lambda (a b) (if (eq? a b) t (if (pair? a) (if (pair? b) (if (equal? (car a) (car b)) (equal? (cdr a) (cdr b)) nil) nil) (if (string? a) (if (string? b) (string=? a b) nil) nil)))))'',
    ''(define zero? (lambda (n) (= n 0)))'',
    ''(define even? (lambda (n) (= (% n 2) 0)))'',
    ''(define odd? (lambda (n) (not (= (% n 2) 0))))'',
    ''(define positive? (lambda (n) (< 0 n)))'',
    ''(define negative? (lambda (n) (< n 0)))'',
    ''(define abs (lambda (n) (if (< n 0) (- 0 n) n)))'',
    ''(define max (lambda (a b) (if (< a b) b a)))'',
    ''(define min (lambda (a b) (if (< a b) a b)))'']\<close>

definition scheme_prelude_3 :: "string list" where
  \<open>scheme_prelude_3 = [
    ''(define modulo %)'',
    ''(define remainder %)'',
    ''(define (let-expand first rest) (if (pair? first) `((lambda ,(map car first) ,@rest) ,@(map cadr first)) `((lambda (,first) (set! ,first (lambda ,(map car (car rest)) ,@(cdr rest))) (,first ,@(map cadr (car rest)))) nil)))'',
    ''(defmacro let (first . rest) (let-expand first rest))'',
    ''(define (let*-expand bindings body) (if (null? (cdr bindings)) `(let (,(car bindings)) ,@body) `(let (,(car bindings)) ,(let*-expand (cdr bindings) body))))'',
    ''(defmacro let* (bindings . body) (let*-expand bindings body))'',
    ''(define cond-expand (lambda (clauses) (if (null? clauses) nil (if (eq? (caar clauses) \'else) (cadr (car clauses)) `(if ,(caar clauses) ,(cadr (car clauses)) ,(cond-expand (cdr clauses)))))))'',
    ''(defmacro cond clauses (cond-expand clauses))'',
    ''(define (case-match-datums key datums) (if (null? datums) nil (if (eq? key (car datums)) t (case-match-datums key (cdr datums)))))'',
    ''(define (case-expand-clauses key clauses) (if (null? clauses) nil (if (eq? (caar clauses) \'else) (cadr (car clauses)) `(if (case-match-datums ,key \',(caar clauses)) ,(cadr (car clauses)) ,(case-expand-clauses key (cdr clauses))))))'',
    ''(defmacro case (expr . clauses) `(let ((_k_ ,expr)) ,(case-expand-clauses \'_k_ clauses)))'',
    ''(define (letrec-sets bindings) (if (null? bindings) nil (cons `(set! ,(caar bindings) ,(cadr (car bindings))) (letrec-sets (cdr bindings)))))'',
    ''(defmacro letrec (bindings . body) `((lambda ,(map car bindings) ,@(letrec-sets bindings) ,@body) ,@(map (lambda (b) nil) bindings)))'',
    ''(defmacro do (clauses test . body) `(let _do_ ,(map (lambda (c) (list (car c) (cadr c))) clauses) (if ,(car test) ,(if (null? (cdr test)) nil (cadr test)) (begin ,@body (_do_ ,@(map caddr clauses))))))'']\<close>

definition scheme_prelude_4 :: "string list" where
  \<open>scheme_prelude_4 = [
    ''(defmacro and (a b) `(if ,a ,b nil))'',
    ''(defmacro or (a b) `(if ,a ,a ,b))'',
    ''(defmacro when (test . body) `(if ,test (begin ,@body) nil))'',
    ''(defmacro unless (test . body) `(if ,test nil (begin ,@body)))'',
    ''(define values list)'',
    ''(define (call-with-values producer consumer) (apply consumer (producer)))'',
    ''(defmacro define-fn (sig body) `(define ,(car sig) (lambda ,(cdr sig) ,body)))'',
    ''(define identity (lambda (x) x))'',
    ''(define compose (lambda (f g) (lambda (x) (f (g x)))))'',
    ''(define ->str (lambda (x) (cond ((string? x) x) ((number? x) (number->string x)) (else ""))))'',
    ''(define str2 (lambda (a b) (string-append (->str a) (->str b))))'',
    ''(define str (lambda args (reduce str2 "" args)))'',
    ''(define macroexpand (lambda (form) (let ((expanded (macroexpand-1 form))) (if (eq? expanded form) form (macroexpand expanded)))))'',
    ''(defmacro comment rest nil)'']\<close>

definition scheme_prelude_5 :: "string list" where
  \<open>scheme_prelude_5 = [
    ''(define (call/ec proc) (let ((tag (gensym))) (catch tag (proc (lambda (val) (throw tag val))))))'',
    ''(define call-with-escape-continuation call/ec)'',
    ''(define *error-tag* (gensym))'',
    ''(define *error-handler* nil)'',
    ''(define (raise obj) (if (null? *error-handler*) (begin (display "ERROR: ") (println obj) (exit)) ('' @ ''*error-handler* obj)))'',
    ''(define (with-exception-handler handler thunk) (let ((saved *error-handler*)) (begin (set! *error-handler* (lambda (e) (throw *error-tag* (handler e)))) (let ((result (catch *error-tag* (thunk)))) (begin (set! *error-handler* saved) result)))))'',
    ''(define with-handler with-exception-handler)'',
    ''(define (error msg) (raise msg))'',
    ''(define (guard-clauses var clauses) (if (null? clauses) \'(raise e) (let ((clause (car clauses))) (if (eq? (car clause) \'else) (cadr clause) `(if ,(car clause) ,(cadr clause) ,(guard-clauses var (cdr clauses)))))))'',
    ''(defmacro guard (binding . body) `(with-handler (lambda (,(car binding)) ,(guard-clauses (car binding) (cdr binding))) (lambda () ,@body)))'',
    ''(define (make-parameter init) (let ((val init)) (lambda args (if (null? args) val (set! val (car args))))))'',
    ''(define (call-with-parameterize param new-val thunk) (let ((saved (param))) (dynamic-wind (lambda () (param new-val)) thunk (lambda () (param saved)))))'',
    ''(defmacro parameterize (bindings body) `(call-with-parameterize ,(caar bindings) ,(cadr (car bindings)) (lambda () ,body)))'',
    ''(define assoc (lambda (key alist) (if (null? alist) nil (if (eq? key (caar alist)) (car alist) (assoc key (cdr alist))))))'']\<close>

definition scheme_prelude_6 :: "string list" where
  \<open>scheme_prelude_6 = [
    ''(define get (lambda (key alist default) (if (null? alist) default (if (eq? key (caar alist)) (cdar alist) (get key (cdr alist) default)))))'']\<close>

definition scheme_prelude :: "string list" where
  "scheme_prelude = scheme_prelude_1 @ scheme_prelude_2 @ scheme_prelude_3 @ scheme_prelude_4 @ scheme_prelude_5 @ scheme_prelude_6"

definition full_prelude_1 :: "string list" where
  \<open>full_prelude_1 = [
    ''(define (reverse-acc lst acc) (if (null? lst) acc (reverse-acc (cdr lst) (cons (car lst) acc))))'',
    ''(define (reverse lst) (reverse-acc lst nil))'',
    ''(define (map-acc f lst acc) (if (null? lst) (reverse acc) (map-acc f (cdr lst) (cons (f (car lst)) acc))))'',
    ''(define (map f lst) (map-acc f lst nil))'',
    ''(define (filter-acc p lst acc) (if (null? lst) (reverse acc) (if (p (car lst)) (filter-acc p (cdr lst) (cons (car lst) acc)) (filter-acc p (cdr lst) acc))))'',
    ''(define (filter p lst) (filter-acc p lst nil))'',
    ''(define reduce (lambda (f init lst) (if (null? lst) init (reduce f (f init (car lst)) (cdr lst)))))'',
    ''(define foldr (lambda (f init lst) (if (null? lst) init (f (car lst) (foldr f init (cdr lst))))))'',
    ''(define (length-acc lst n) (if (null? lst) n (length-acc (cdr lst) (+ n 1))))'',
    ''(define (length lst) (length-acc lst 0))'',
    ''(define (append-acc ra b) (if (null? ra) b (append-acc (cdr ra) (cons (car ra) b))))'',
    ''(define (append a b) (append-acc (reverse a) b))'',
    ''(define (nth n lst) (if (= n 0) (car lst) (nth (- n 1) (cdr lst))))'',
    ''(defmacro when (cond . body) `(if ,cond (begin ,@body) nil))'']\<close>

definition full_prelude_2 :: "string list" where
  \<open>full_prelude_2 = [
    ''(defmacro unless (cond . body) `(if ,cond nil (begin ,@body)))'',
    ''(define (let-expand first rest) (if (pair? first) `((lambda ,(map car first) ,@rest) ,@(map cadr first)) `((lambda (,first) (set! ,first (lambda ,(map car (car rest)) ,@(cdr rest))) (,first ,@(map cadr (car rest)))) nil)))'',
    ''(defmacro let (first . rest) (let-expand first rest))'',
    ''(defmacro do (clauses test . body) `(let _do_ ,(map (lambda (c) (list (car c) (cadr c))) clauses) (if ,(car test) ,(if (null? (cdr test)) nil (cadr test)) (begin ,@body (_do_ ,@(map caddr clauses))))))'',
    ''(defmacro and (a b) `(if ,a ,b nil))'',
    ''(defmacro or (a b) `(if ,a ,a ,b))'',
    ''(define cond-expand (lambda (clauses) (if (null? clauses) nil (if (eq? (caar clauses) \'t) (cadr (car clauses)) `(if ,(caar clauses) ,(cadr (car clauses)) ,(cond-expand (cdr clauses)))))))'',
    ''(defmacro cond clauses (cond-expand clauses))'',
    ''(define (case-match-datums key datums) (if (null? datums) nil (if (eq? key (car datums)) t (case-match-datums key (cdr datums)))))'',
    ''(define (case-expand-clauses key clauses) (if (null? clauses) nil (if (eq? (caar clauses) \'else) (cadr (car clauses)) `(if (case-match-datums ,key \',(caar clauses)) ,(cadr (car clauses)) ,(case-expand-clauses key (cdr clauses))))))'',
    ''(defmacro case (expr . clauses) `(let ((_k_ ,expr)) ,(case-expand-clauses \'_k_ clauses)))'',
    ''(define (labels-sets bindings) (if (null? bindings) nil (cons `(set! ,(caar bindings) (lambda ,(cadr (car bindings)) ,@(cdr (cdr (car bindings))))) (labels-sets (cdr bindings)))))'',
    ''(defmacro labels (bindings . body) `((lambda ,(map car bindings) ,@(labels-sets bindings) ,@body) ,@(map (lambda (b) nil) bindings)))'',
    ''(define (assert-msg msg) (if (null? msg) "assertion failed" (car msg)))'']\<close>

definition full_prelude_3 :: "string list" where
  \<open>full_prelude_3 = [
    ''(defmacro assert (expr . msg) `(if ,expr t (raise ,(assert-msg msg))))'',
    ''(define values list)'',
    ''(define (call-with-values producer consumer) (apply consumer (producer)))'',
    ''(defmacro -> (x form) (cons (car form) (cons x (cdr form))))'',
    ''(defmacro ->> (x form) (append form (list x)))'',
    ''(define > (lambda (a b) (< b a)))'',
    ''(define >= (lambda (a b) (not (< a b))))'',
    ''(define <= (lambda (a b) (not (< b a))))'',
    ''(define zero? (lambda (n) (= n 0)))'',
    ''(define positive? (lambda (n) (< 0 n)))'',
    ''(define negative? (lambda (n) (< n 0)))'',
    ''(define abs (lambda (n) (if (< n 0) (- 0 n) n)))'',
    ''(define min (lambda (a b) (if (< a b) a b)))'',
    ''(define max (lambda (a b) (if (< a b) b a)))'']\<close>

definition full_prelude_4 :: "string list" where
  \<open>full_prelude_4 = [
    ''(define cadr (lambda (x) (car (cdr x))))'',
    ''(define caddr (lambda (x) (car (cdr (cdr x)))))'',
    ''(define caar (lambda (x) (car (car x))))'',
    ''(define cdar (lambda (x) (cdr (car x))))'',
    ''(define identity (lambda (x) x))'',
    ''(define constantly (lambda (x) (lambda (y) x)))'',
    ''(define complement (lambda (f) (lambda (x) (not (f x)))))'',
    ''(define compose (lambda (f g) (lambda (x) (f (g x)))))'',
    ''(define every? (lambda (p lst) (if (null? lst) t (if (p (car lst)) (every? p (cdr lst)) nil))))'',
    ''(define some (lambda (p lst) (if (null? lst) nil (if (p (car lst)) (car lst) (some p (cdr lst))))))'',
    ''(define none? (lambda (p lst) (every? (complement p) lst)))'',
    ''(define range-helper (lambda (i acc) (if (< i 0) acc (range-helper (- i 1) (cons i acc)))))'',
    ''(define range (lambda (n) (range-helper (- n 1) nil)))'',
    ''(define repeat-helper (lambda (n x acc) (if (= n 0) acc (repeat-helper (- n 1) x (cons x acc)))))'']\<close>

definition full_prelude_5 :: "string list" where
  \<open>full_prelude_5 = [
    ''(define repeat (lambda (n x) (repeat-helper n x nil)))'',
    ''(define take-helper (lambda (n lst acc) (if (= n 0) (reverse acc) (if (null? lst) (reverse acc) (take-helper (- n 1) (cdr lst) (cons (car lst) acc))))))'',
    ''(define take (lambda (n lst) (take-helper n lst nil)))'',
    ''(define drop (lambda (n lst) (if (= n 0) lst (if (null? lst) nil (drop (- n 1) (cdr lst))))))'',
    ''(define zip-helper (lambda (a b acc) (if (null? a) (reverse acc) (if (null? b) (reverse acc) (zip-helper (cdr a) (cdr b) (cons (list (car a) (car b)) acc))))))'',
    ''(define zip (lambda (a b) (zip-helper a b nil)))'',
    ''(define flatten-helper (lambda (work acc) (if (null? work) (reverse acc) (if (null? (car work)) (flatten-helper (cdr work) acc) (if (pair? (car (car work))) (flatten-helper (cons (car (car work)) (cons (cdr (car work)) (cdr work))) acc) (flatten-helper (cons (cdr (car work)) (cdr work)) (cons (car (car work)) acc)))))))'',
    ''(define flatten (lambda (lst) (flatten-helper (list lst) nil)))'',
    ''(define ->str (lambda (x) (cond ((string? x) x) ((number? x) (number->string x)) (t ""))))'',
    ''(define str2 (lambda (a b) (string-append (->str a) (->str b))))'',
    ''(define str (lambda args (reduce str2 "" args)))'',
    ''(define for-each (lambda (f lst) (if (null? lst) nil (begin (f (car lst)) (for-each f (cdr lst))))))'',
    ''(define partial (lambda (f . args) (lambda rest (apply f (append args rest)))))'',
    ''(define juxt (lambda (f g) (lambda (x) (list (f x) (g x)))))'']\<close>

definition full_prelude_6 :: "string list" where
  \<open>full_prelude_6 = [
    ''(defmacro doseq (binding . body) `(for-each (lambda (,(car binding)) ,@body) ,(cadr binding)))'',
    ''(defmacro dotimes (binding . body) `(for-each (lambda (,(car binding)) ,@body) (range ,(cadr binding))))'',
    ''(define assoc (lambda (key alist) (if (null? alist) nil (if (eq? key (caar alist)) (car alist) (assoc key (cdr alist))))))'',
    ''(define get (lambda (key alist default) (if (null? alist) default (if (eq? key (caar alist)) (cdar alist) (get key (cdr alist) default)))))'',
    ''(define (call/ec proc) (let ((tag (gensym))) (catch tag (proc (lambda (val) (throw tag val))))))'',
    ''(define *error-tag* (gensym))'',
    ''(define *error-handler* nil)'',
    ''(define (raise obj) (if (null? *error-handler*) (begin (display "ERROR: ") (println obj) (exit)) ('' @ ''*error-handler* obj)))'',
    ''(define (with-handler handler thunk) (let ((saved *error-handler*)) (begin (set! *error-handler* (lambda (e) (throw *error-tag* (handler e)))) (let ((result (catch *error-tag* (thunk)))) (begin (set! *error-handler* saved) result)))))'',
    ''(define (error msg) (raise msg))'',
    ''(define (guard-clauses var clauses) (if (null? clauses) \'(raise e) (let ((clause (car clauses))) (if (eq? (car clause) \'else) (cadr clause) `(if ,(car clause) ,(cadr clause) ,(guard-clauses var (cdr clauses)))))))'',
    ''(defmacro guard (binding . body) `(with-handler (lambda (,(car binding)) ,(guard-clauses (car binding) (cdr binding))) (lambda () ,@body)))'',
    ''(defmacro unwind-protect (body cleanup) `(dynamic-wind (lambda () nil) (lambda () ,body) (lambda () ,cleanup)))'',
    ''(define *restarts* nil)'']\<close>

definition full_prelude_7 :: "string list" where
  \<open>full_prelude_7 = [
    ''(define (with-restart name handler thunk) (let ((tag (gensym))) (let ((saved *restarts*)) (begin (set! *restarts* (cons (list name tag handler) *restarts*)) (let ((result (catch tag (let ((v (thunk))) (begin (set! *restarts* saved) v))))) (begin (set! *restarts* saved) result))))))'',
    ''(define (invoke-restart name val) (let ((r (assoc name *restarts*))) (if (null? r) (begin (display "ERR:no-restart ") (println name)) (let ((tag (cadr r))) (let ((handler (caddr r))) (throw tag (handler val)))))))'',
    ''(define (make-parameter init) (let ((val init)) (lambda args (if (null? args) val (set! val (car args))))))'',
    ''(define (call-with-parameterize param new-val thunk) (let ((saved (param))) (dynamic-wind (lambda () (param new-val)) thunk (lambda () (param saved)))))'',
    ''(defmacro parameterize (bindings body) `(call-with-parameterize ,(caar bindings) ,(cadr (car bindings)) (lambda () ,body)))'',
    ''(define trampoline (lambda (f) (let ((r (f))) (if (fn? r) (trampoline r) r))))'',
    ''(define lazy-cons (lambda (h thk) (cons h (cons \'thunk thk))))'',
    ''(define lazy? (lambda (s) (and (pair? s) (and (pair? (cdr s)) (eq? (car (cdr s)) \'thunk)))))'',
    ''(define lazy-car car)'',
    ''(define lazy-cdr (lambda (s) (if (lazy? s) (let ((v ((cdr (cdr s))))) (begin (set! s (cons (car s) v)) v)) (cdr s))))'',
    ''(define lazy-take-helper (lambda (n s acc) (if (= n 0) (reverse acc) (if (null? s) (reverse acc) (lazy-take-helper (- n 1) (lazy-cdr s) (cons (lazy-car s) acc))))))'',
    ''(define lazy-take (lambda (n s) (lazy-take-helper n s nil)))'',
    ''(define lazy-map (lambda (f s) (if (null? s) nil (lazy-cons (f (lazy-car s)) (lambda () (lazy-map f (lazy-cdr s)))))))'',
    ''(define lazy-filter (lambda (p s) (if (null? s) nil (if (p (lazy-car s)) (lazy-cons (lazy-car s) (lambda () (lazy-filter p (lazy-cdr s)))) (lazy-filter p (lazy-cdr s))))))'']\<close>

definition full_prelude_8 :: "string list" where
  \<open>full_prelude_8 = [
    ''(define iterate (lambda (f x) (lazy-cons x (lambda () (iterate f (f x))))))'',
    ''(define lazy-range (lambda (n) (iterate (lambda (x) (+ x 1)) n)))'',
    ''(define take-while (lambda (p lst) (if (null? lst) nil (if (p (car lst)) (cons (car lst) (take-while p (cdr lst))) nil))))'',
    ''(define drop-while (lambda (p lst) (if (null? lst) nil (if (p (car lst)) (drop-while p (cdr lst)) lst))))'',
    ''(defmacro aif (test then else) `(let ((it ,test)) (if it ,then ,else)))'',
    ''(defmacro awhen (test body) `(let ((it ,test)) (if it ,body nil)))'',
    ''(defmacro aand (a b) `(let ((it ,a)) (if it ,b nil)))'',
    ''(define true t)'',
    ''(define false nil)'',
    ''(define (message fmt . args) (display (apply format (cons fmt args))) (newline))'',
    ''(define _format format)'',
    ''(define (format dest . args) (if (eq? dest t) (begin (display (apply _format args)) (newline)) (apply _format (cons dest args))))'',
    ''(defmacro comment rest nil)'',
    ''(define macroexpand (lambda (form) (let ((expanded (macroexpand-1 form))) (if (eq? expanded form) form (macroexpand expanded)))))'']\<close>

definition full_prelude_9 :: "string list" where
  \<open>full_prelude_9 = [
    ''(define IO-LED #xFF0000)'',
    ''(define IO-SWITCH #xFF0000)'',
    ''(define IO-UART-DATA #xFF0100)'',
    ''(define IO-UART-STATUS #xFF0101)'',
    ''(define IO-INT-ENABLE #xFF0010)'',
    ''(define set-leds (lambda (n) (poke IO-LED n)))'',
    ''(define get-leds (lambda () (peek IO-LED)))'',
    ''(define s2-pressed? (lambda () (= (% (peek IO-SWITCH) 2) 0)))'']\<close>

definition full_prelude :: "string list" where
  "full_prelude = full_prelude_1 @ full_prelude_2 @ full_prelude_3 @ full_prelude_4 @ full_prelude_5 @ full_prelude_6 @ full_prelude_7 @ full_prelude_8 @ full_prelude_9"

definition standard_prelude_1 :: "string list" where
  \<open>standard_prelude_1 = [
    ''(define (reverse-acc lst acc) (if (null? lst) acc (reverse-acc (cdr lst) (cons (car lst) acc))))'',
    ''(define (reverse lst) (reverse-acc lst nil))'',
    ''(define (map-acc f lst acc) (if (null? lst) (reverse acc) (map-acc f (cdr lst) (cons (f (car lst)) acc))))'',
    ''(define (map f lst) (map-acc f lst nil))'',
    ''(define (filter-acc p lst acc) (if (null? lst) (reverse acc) (if (p (car lst)) (filter-acc p (cdr lst) (cons (car lst) acc)) (filter-acc p (cdr lst) acc))))'',
    ''(define (filter p lst) (filter-acc p lst nil))'',
    ''(define reduce (lambda (f init lst) (if (null? lst) init (reduce f (f init (car lst)) (cdr lst)))))'',
    ''(define foldr (lambda (f init lst) (if (null? lst) init (f (car lst) (foldr f init (cdr lst))))))'',
    ''(define (length-acc lst n) (if (null? lst) n (length-acc (cdr lst) (+ n 1))))'',
    ''(define (length lst) (length-acc lst 0))'',
    ''(define (append-acc ra b) (if (null? ra) b (append-acc (cdr ra) (cons (car ra) b))))'',
    ''(define (append a b) (append-acc (reverse a) b))'',
    ''(define (nth n lst) (if (= n 0) (car lst) (nth (- n 1) (cdr lst))))'',
    ''(defmacro when (cond . body) `(if ,cond (begin ,@body) nil))'']\<close>

definition standard_prelude_2 :: "string list" where
  \<open>standard_prelude_2 = [
    ''(defmacro unless (cond . body) `(if ,cond nil (begin ,@body)))'',
    ''(define (let-expand first rest) (if (pair? first) `((lambda ,(map car first) ,@rest) ,@(map cadr first)) `((lambda (,first) (set! ,first (lambda ,(map car (car rest)) ,@(cdr rest))) (,first ,@(map cadr (car rest)))) nil)))'',
    ''(defmacro let (first . rest) (let-expand first rest))'',
    ''(defmacro do (clauses test . body) `(let _do_ ,(map (lambda (c) (list (car c) (cadr c))) clauses) (if ,(car test) ,(if (null? (cdr test)) nil (cadr test)) (begin ,@body (_do_ ,@(map caddr clauses))))))'',
    ''(defmacro and (a b) `(if ,a ,b nil))'',
    ''(defmacro or (a b) `(if ,a ,a ,b))'',
    ''(define cond-expand (lambda (clauses) (if (null? clauses) nil (if (eq? (caar clauses) \'t) (cadr (car clauses)) `(if ,(caar clauses) ,(cadr (car clauses)) ,(cond-expand (cdr clauses)))))))'',
    ''(defmacro cond clauses (cond-expand clauses))'',
    ''(define (case-match-datums key datums) (if (null? datums) nil (if (eq? key (car datums)) t (case-match-datums key (cdr datums)))))'',
    ''(define (case-expand-clauses key clauses) (if (null? clauses) nil (if (eq? (caar clauses) \'else) (cadr (car clauses)) `(if (case-match-datums ,key \',(caar clauses)) ,(cadr (car clauses)) ,(case-expand-clauses key (cdr clauses))))))'',
    ''(defmacro case (expr . clauses) `(let ((_k_ ,expr)) ,(case-expand-clauses \'_k_ clauses)))'',
    ''(define (labels-sets bindings) (if (null? bindings) nil (cons `(set! ,(caar bindings) (lambda ,(cadr (car bindings)) ,@(cdr (cdr (car bindings))))) (labels-sets (cdr bindings)))))'',
    ''(defmacro labels (bindings . body) `((lambda ,(map car bindings) ,@(labels-sets bindings) ,@body) ,@(map (lambda (b) nil) bindings)))'',
    ''(define (assert-msg msg) (if (null? msg) "assertion failed" (car msg)))'']\<close>

definition standard_prelude_3 :: "string list" where
  \<open>standard_prelude_3 = [
    ''(defmacro assert (expr . msg) `(if ,expr t (raise ,(assert-msg msg))))'',
    ''(define values list)'',
    ''(define (call-with-values producer consumer) (apply consumer (producer)))'',
    ''(define > (lambda (a b) (< b a)))'',
    ''(define >= (lambda (a b) (not (< a b))))'',
    ''(define <= (lambda (a b) (not (< b a))))'',
    ''(define zero? (lambda (n) (= n 0)))'',
    ''(define positive? (lambda (n) (< 0 n)))'',
    ''(define negative? (lambda (n) (< n 0)))'',
    ''(define abs (lambda (n) (if (< n 0) (- 0 n) n)))'',
    ''(define min (lambda (a b) (if (< a b) a b)))'',
    ''(define max (lambda (a b) (if (< a b) b a)))'',
    ''(define cadr (lambda (x) (car (cdr x))))'',
    ''(define caddr (lambda (x) (car (cdr (cdr x)))))'']\<close>

definition standard_prelude_4 :: "string list" where
  \<open>standard_prelude_4 = [
    ''(define caar (lambda (x) (car (car x))))'',
    ''(define cdar (lambda (x) (cdr (car x))))'',
    ''(define identity (lambda (x) x))'',
    ''(define complement (lambda (f) (lambda (x) (not (f x)))))'',
    ''(define compose (lambda (f g) (lambda (x) (f (g x)))))'',
    ''(define ->str (lambda (x) (cond ((string? x) x) ((number? x) (number->string x)) (t ""))))'',
    ''(define str2 (lambda (a b) (string-append (->str a) (->str b))))'',
    ''(define str (lambda args (reduce str2 "" args)))'',
    ''(define for-each (lambda (f lst) (if (null? lst) nil (begin (f (car lst)) (for-each f (cdr lst))))))'',
    ''(define assoc (lambda (key alist) (if (null? alist) nil (if (eq? key (caar alist)) (car alist) (assoc key (cdr alist))))))'',
    ''(define get (lambda (key alist default) (if (null? alist) default (if (eq? key (caar alist)) (cdar alist) (get key (cdr alist) default)))))'',
    ''(define (call/ec proc) (let ((tag (gensym))) (catch tag (proc (lambda (val) (throw tag val))))))'',
    ''(define *error-tag* (gensym))'',
    ''(define *error-handler* nil)'']\<close>

definition standard_prelude_5 :: "string list" where
  \<open>standard_prelude_5 = [
    ''(define (raise obj) (if (null? *error-handler*) (begin (display "ERROR: ") (println obj) (exit)) ('' @ ''*error-handler* obj)))'',
    ''(define (with-handler handler thunk) (let ((saved *error-handler*)) (begin (set! *error-handler* (lambda (e) (throw *error-tag* (handler e)))) (let ((result (catch *error-tag* (thunk)))) (begin (set! *error-handler* saved) result)))))'',
    ''(define (error msg) (raise msg))'',
    ''(define (guard-clauses var clauses) (if (null? clauses) \'(raise e) (let ((clause (car clauses))) (if (eq? (car clause) \'else) (cadr clause) `(if ,(car clause) ,(cadr clause) ,(guard-clauses var (cdr clauses)))))))'',
    ''(defmacro guard (binding . body) `(with-handler (lambda (,(car binding)) ,(guard-clauses (car binding) (cdr binding))) (lambda () ,@body)))'',
    ''(defmacro unwind-protect (body cleanup) `(dynamic-wind (lambda () nil) (lambda () ,body) (lambda () ,cleanup)))'',
    ''(define *restarts* nil)'',
    ''(define (with-restart name handler thunk) (let ((tag (gensym))) (let ((saved *restarts*)) (begin (set! *restarts* (cons (list name tag handler) *restarts*)) (let ((result (catch tag (let ((v (thunk))) (begin (set! *restarts* saved) v))))) (begin (set! *restarts* saved) result))))))'',
    ''(define (invoke-restart name val) (let ((r (assoc name *restarts*))) (if (null? r) (begin (display "ERR:no-restart ") (println name)) (let ((tag (cadr r))) (let ((handler (caddr r))) (throw tag (handler val)))))))'',
    ''(define (make-parameter init) (let ((val init)) (lambda args (if (null? args) val (set! val (car args))))))'',
    ''(define (call-with-parameterize param new-val thunk) (let ((saved (param))) (dynamic-wind (lambda () (param new-val)) thunk (lambda () (param saved)))))'',
    ''(defmacro parameterize (bindings body) `(call-with-parameterize ,(caar bindings) ,(cadr (car bindings)) (lambda () ,body)))'',
    ''(define (message fmt . args) (display (apply format (cons fmt args))) (newline))'',
    ''(define _format format)'']\<close>

definition standard_prelude_6 :: "string list" where
  \<open>standard_prelude_6 = [
    ''(define (format dest . args) (if (eq? dest t) (begin (display (apply _format args)) (newline)) (apply _format (cons dest args))))'',
    ''(defmacro comment rest nil)'',
    ''(define macroexpand (lambda (form) (let ((expanded (macroexpand-1 form))) (if (eq? expanded form) form (macroexpand expanded)))))'',
    ''(define IO-LED #xFF0000)'',
    ''(define IO-SWITCH #xFF0000)'',
    ''(define IO-UART-DATA #xFF0100)'',
    ''(define IO-UART-STATUS #xFF0101)'',
    ''(define IO-INT-ENABLE #xFF0010)'',
    ''(define set-leds (lambda (n) (poke IO-LED n)))'',
    ''(define get-leds (lambda () (peek IO-LED)))'',
    ''(define s2-pressed? (lambda () (= (% (peek IO-SWITCH) 2) 0)))'']\<close>

definition standard_prelude :: "string list" where
  "standard_prelude = standard_prelude_1 @ standard_prelude_2 @ standard_prelude_3 @ standard_prelude_4 @ standard_prelude_5 @ standard_prelude_6"

definition minimal_prelude_1 :: "string list" where
  \<open>minimal_prelude_1 = [
    ''(define > (lambda (a b) (< b a)))'',
    ''(define >= (lambda (a b) (not (< a b))))'',
    ''(define <= (lambda (a b) (not (< b a))))'',
    ''(define zero? (lambda (n) (= n 0)))'',
    ''(define positive? (lambda (n) (< 0 n)))'',
    ''(define negative? (lambda (n) (< n 0)))'']\<close>

definition minimal_prelude :: "string list" where
  "minimal_prelude = minimal_prelude_1"


section \<open>More fuel for the parser\<close>

definition upto :: "parsed \<Rightarrow> parsed \<Rightarrow> bool" where
  "upto p q \<longleftrightarrow> p = Short \<or> p = q"

lemma upto_if: "(b \<Longrightarrow> upto p q) \<Longrightarrow> (\<not> b \<Longrightarrow> upto p' q') \<Longrightarrow> upto (if b then p else p') (if b then q else q')"
  by simp

lemma upto_and_then: "upto p q \<Longrightarrow> (\<And>x r. upto (k x r) (l x r)) \<Longrightarrow> upto (and_then p k) (and_then q l)"
  unfolding upto_def by (cases p) (metis and_then.simps)+

lemma upto_refl: "upto p p"
  by (simp add: upto_def)

lemma parse_step:
  "(\<forall>t. upto (parse n t) (parse (Suc n) t)) \<and> (\<forall>t. upto (parse_list n t) (parse_list (Suc n) t)) \<and>
   (\<forall>t. upto (parse_items n t) (parse_items (Suc n) t))"
proof (induction n)
  case 0
  then show ?case by (simp add: upto_def)
next
  case (Suc n)
  then have IH: "\<And>t. upto (parse n t) (parse (Suc n) t)" "\<And>t. upto (parse_list n t) (parse_list (Suc n) t)"
    "\<And>t. upto (parse_items n t) (parse_items (Suc n) t)" by auto
  note rules = upto_if upto_and_then IH upto_refl
  have "upto (parse (Suc n) t) (parse (Suc (Suc n)) t)" for t
    unfolding parse.simps(2) [of "Suc n" t] parse.simps(2) [of n t] Let_def by (intro rules)
  moreover have "upto (parse_list (Suc n) t) (parse_list (Suc (Suc n)) t)" for t
    unfolding parse_list.simps(2) [of "Suc n" t] parse_list.simps(2) [of n t] Let_def by (intro rules)
  moreover have "upto (parse_items (Suc n) t) (parse_items (Suc (Suc n)) t)" for t
    unfolding parse_items.simps(2) [of "Suc n" t] parse_items.simps(2) [of n t] Let_def by (intro rules)
  ultimately show ?case by blast
qed

lemma parse_more: "n \<le> m \<Longrightarrow> parse n t \<noteq> Short \<Longrightarrow> parse m t = parse n t"
proof (induction m rule: dec_induct)
  case (step m)
  then have "parse m t \<noteq> Short" "parse m t = parse n t" by auto
  with parse_step [of m] show ?case unfolding upto_def by metis
qed simp


section \<open>Every text is a definition\<close>

text \<open>Nothing in a datum has been cut to the buffers of the reader.\<close>

fun uncut :: "datum \<Rightarrow> bool" where
  "uncut (Num n) \<longleftrightarrow> True"
| "uncut (Sym name) \<longleftrightarrow> length name < 63"
| "uncut (Str cs) \<longleftrightarrow> length cs < 119"
| "uncut (Pair x y) \<longleftrightarrow> uncut x \<and> uncut y"

definition defining :: "datum \<Rightarrow> bool" where
  "defining d = (case d of
     Pair (Sym f) (Pair (Sym name) (Pair body r)) \<Rightarrow> (f = ''define'' \<or> f = ''defmacro'') \<and> uncut d
   | Pair (Sym f) (Pair (Pair (Sym name) ps) (Pair body r)) \<Rightarrow> f = ''define'' \<and> uncut d
   | _ \<Rightarrow> False)"

text \<open>For evaluation.\<close>

lemma is_digit_mem [code]: "is_digit ch \<longleftrightarrow> ch \<in> set ''0123456789''"
proof -
  obtain n where n: "n = (of_char ch :: nat)" "uchar ch = int n" "n < 256"
    using uchar_bounds(2) [of ch] by (auto simp: uchar_def)
  have "schar (CHR ''0'') = 48" "schar (CHR ''9'') = 57" by (simp_all add: schar_def uchar_def)
  then have "is_digit ch \<longleftrightarrow> n \<in> {48..57}"
    using n(3) by (simp add: is_digit_def schar_def n(2))
  also have "{48..57} = (of_char ` set ''0123456789'' :: nat set)"
    by (simp add: set_eq_iff) arith
  finally show ?thesis unfolding n(1) by (simp only: inj_image_mem_iff [OF inj_of_char])
qed
definition well_formed_text :: "string \<Rightarrow> bool" where
  "well_formed_text t = (case parse 80 t of Parsed d r \<Rightarrow> r = [] \<and> defining d | _ \<Rightarrow> False)"


lemma scheme_prelude_1_ok: "list_all (\<lambda>t. NUL \<notin> set t \<and> well_formed_text t) scheme_prelude_1"
  by code_simp

lemma scheme_prelude_2_ok: "list_all (\<lambda>t. NUL \<notin> set t \<and> well_formed_text t) scheme_prelude_2"
  by code_simp

lemma scheme_prelude_3_ok: "list_all (\<lambda>t. NUL \<notin> set t \<and> well_formed_text t) scheme_prelude_3"
  by code_simp

lemma scheme_prelude_4_ok: "list_all (\<lambda>t. NUL \<notin> set t \<and> well_formed_text t) scheme_prelude_4"
  by code_simp

lemma scheme_prelude_5_ok: "list_all (\<lambda>t. NUL \<notin> set t \<and> well_formed_text t) scheme_prelude_5"
  by code_simp

lemma scheme_prelude_6_ok: "list_all (\<lambda>t. NUL \<notin> set t \<and> well_formed_text t) scheme_prelude_6"
  by code_simp

lemma full_prelude_1_ok: "list_all (\<lambda>t. NUL \<notin> set t \<and> well_formed_text t) full_prelude_1"
  by code_simp

lemma full_prelude_2_ok: "list_all (\<lambda>t. NUL \<notin> set t \<and> well_formed_text t) full_prelude_2"
  by code_simp

lemma full_prelude_3_ok: "list_all (\<lambda>t. NUL \<notin> set t \<and> well_formed_text t) full_prelude_3"
  by code_simp

lemma full_prelude_4_ok: "list_all (\<lambda>t. NUL \<notin> set t \<and> well_formed_text t) full_prelude_4"
  by code_simp

lemma full_prelude_5_ok: "list_all (\<lambda>t. NUL \<notin> set t \<and> well_formed_text t) full_prelude_5"
  by code_simp

lemma full_prelude_6_ok: "list_all (\<lambda>t. NUL \<notin> set t \<and> well_formed_text t) full_prelude_6"
  by code_simp

lemma full_prelude_7_ok: "list_all (\<lambda>t. NUL \<notin> set t \<and> well_formed_text t) full_prelude_7"
  by code_simp

lemma full_prelude_8_ok: "list_all (\<lambda>t. NUL \<notin> set t \<and> well_formed_text t) full_prelude_8"
  by code_simp

lemma full_prelude_9_ok: "list_all (\<lambda>t. NUL \<notin> set t \<and> well_formed_text t) full_prelude_9"
  by code_simp

lemma standard_prelude_1_ok: "list_all (\<lambda>t. NUL \<notin> set t \<and> well_formed_text t) standard_prelude_1"
  by code_simp

lemma standard_prelude_2_ok: "list_all (\<lambda>t. NUL \<notin> set t \<and> well_formed_text t) standard_prelude_2"
  by code_simp

lemma standard_prelude_3_ok: "list_all (\<lambda>t. NUL \<notin> set t \<and> well_formed_text t) standard_prelude_3"
  by code_simp

lemma standard_prelude_4_ok: "list_all (\<lambda>t. NUL \<notin> set t \<and> well_formed_text t) standard_prelude_4"
  by code_simp

lemma standard_prelude_5_ok: "list_all (\<lambda>t. NUL \<notin> set t \<and> well_formed_text t) standard_prelude_5"
  by code_simp

lemma standard_prelude_6_ok: "list_all (\<lambda>t. NUL \<notin> set t \<and> well_formed_text t) standard_prelude_6"
  by code_simp

lemma minimal_prelude_1_ok: "list_all (\<lambda>t. NUL \<notin> set t \<and> well_formed_text t) minimal_prelude_1"
  by code_simp

lemma preludes_ok:
  "t \<in> set (scheme_prelude @ full_prelude @ standard_prelude @ minimal_prelude) \<Longrightarrow> NUL \<notin> set t \<and> well_formed_text t"
proof -
  have "list_all (\<lambda>t. NUL \<notin> set t \<and> well_formed_text t)
      (scheme_prelude @ full_prelude @ standard_prelude @ minimal_prelude)"
    unfolding scheme_prelude_def full_prelude_def standard_prelude_def minimal_prelude_def list_all_append
    by (intro conjI scheme_prelude_1_ok scheme_prelude_2_ok scheme_prelude_3_ok scheme_prelude_4_ok scheme_prelude_5_ok
      scheme_prelude_6_ok full_prelude_1_ok full_prelude_2_ok full_prelude_3_ok full_prelude_4_ok full_prelude_5_ok
      full_prelude_6_ok full_prelude_7_ok full_prelude_8_ok full_prelude_9_ok
      standard_prelude_1_ok standard_prelude_2_ok standard_prelude_3_ok standard_prelude_4_ok standard_prelude_5_ok
      standard_prelude_6_ok minimal_prelude_1_ok)
  then show "t \<in> set (scheme_prelude @ full_prelude @ standard_prelude @ minimal_prelude) \<Longrightarrow>
      NUL \<notin> set t \<and> well_formed_text t"
    unfolding list_all_iff by blast
qed

text \<open>Every text of the four preludes is one complete definition: in every well-formed runtime the reader
  takes it to its last character and returns a define or defmacro form, with no name or string cut
  to the buffers of the reader; only a full heap or table can stop it.\<close>

lemma preludes_read:
  assumes "t \<in> set (scheme_prelude @ full_prelude @ standard_prelude @ minimal_prelude)" and "state_ok ns s" and "80 \<le> n"
  shows "\<exists>d. defining d \<and> ((\<exists>v ns' s'. read_str n t s = Done v s' \<and> read_ptr s' = [] \<and> state_ok ns' s' \<and>
      den ns' s' v d) \<or> (\<exists>s'. read_str n t s = Halted s'))"
proof -
  from preludes_ok [OF assms(1)] obtain d where d: "parse 80 t = Parsed d []" "defining d" and nul: "NUL \<notin> set t"
    by (auto simp: well_formed_text_def simp del: parse.simps split: parsed.splits)
  have p: "parse n t = Parsed d []" using parse_more [OF assms(3), of t] d(1) by simp
  have "state_ok ns (at t s)" using assms(2) by simp
  from read_expr_reads [OF this, of n] nul p d(2) show ?thesis
    by (auto simp: reads_def got_def grows_def read_str_def at_def simp del: parse.simps read_expr.simps)
qed

lemma preludes_read_witness:
  "\<exists>s d. reset_interpreter zeroed = Done () s \<and> defining d \<and>
     ((\<exists>v ns s'. read_str 80 ''(define lazy-car car)'' s = Done v s' \<and> den ns s' v d) \<or>
      (\<exists>s'. read_str 80 ''(define lazy-car car)'' s = Halted s'))"
proof -
  from reset_fresh [of zeroed] obtain s where s: "reset_interpreter zeroed = Done () s" "booted s" by blast
  have "''(define lazy-car car)'' \<in> set full_prelude_7" unfolding full_prelude_7_def by simp
  then have m: "''(define lazy-car car)'' \<in> set (scheme_prelude @ full_prelude @ standard_prelude @ minimal_prelude)" by (simp add: full_prelude_def)
  have "state_ok boot_names s" using s(2) by (simp add: booted_def)
  from preludes_read [OF m this order_refl] s(1) show ?thesis by blast
qed

end
