(* ===== verification/Tml_Compile.thy ===== *)
theory Tml_Compile
  imports Tml_Prims
begin

text \<open>
  The native-code compiler (\<open>compile.h\<close>): it walks an expression in the heap and writes assembly
  text to the UART.  Its globals are a record of their own that is threaded through the operations
  of the runtime.  The recursion has fuel.  A table that is indexed past its end is \<open>Wild\<close>.
\<close>

section \<open>The state of the compiler\<close>

datatype cprim = CP_plus | CP_minus | CP_star | CP_lt | CP_eq | CP_cons | CP_car | CP_cdr
  | CP_nullp | CP_pairp | CP_not | CP_print

definition CFMAX :: nat where "CFMAX = 32"
definition CGMAX :: nat where "CGMAX = 64"

record compiler =
  clbl :: i24
  cp_sym :: "cprim \<Rightarrow> i24"
  cf_lbl :: "nat \<Rightarrow> i24"
  cf_body :: "nat \<Rightarrow> i24"
  cf_env :: "nat \<Rightarrow> i24"
  cf_n :: i24
  cf_done :: i24
  cg_sym :: "nat \<Rightarrow> i24"
  cg_n :: i24

type_synonym 'a cact = "compiler \<Rightarrow> ('a \<times> compiler) act"

definition cret :: "'a \<Rightarrow> 'a cact" where "cret a c = ret (a, c)"

definition cbnd :: "'a cact \<Rightarrow> ('a \<Rightarrow> 'b cact) \<Rightarrow> 'b cact" where
  "cbnd m k c = bnd (m c) (\<lambda>(a, c'). k a c')"

text \<open>An operation of the runtime, and access to the compiler's globals.\<close>

definition rt :: "'a act \<Rightarrow> 'a cact" where "rt m c = bnd m (\<lambda>a. ret (a, c))"
definition cget :: "(compiler \<Rightarrow> 'a) \<Rightarrow> 'a cact" where "cget f c = ret (f c, c)"
definition cupd :: "(compiler \<Rightarrow> compiler) \<Rightarrow> unit cact" where "cupd g c = ret ((), g c)"
definition chold :: "i24 list \<Rightarrow> 'a cact \<Rightarrow> 'a cact" where "chold vs m c = hold vs (m c)"

definition cp_names :: "(cprim \<times> string) list" where
  "cp_names = [(CP_plus, ''+''), (CP_minus, ''-''), (CP_star, ''*''), (CP_lt, ''<''), (CP_eq, ''=''),
     (CP_cons, ''cons''), (CP_car, ''car''), (CP_cdr, ''cdr''), (CP_nullp, ''null?''), (CP_pairp, ''pair?''),
     (CP_not, ''not''), (CP_print, ''print'')]"

fun cp_intern :: "(cprim \<times> string) list \<Rightarrow> unit cact" where
  "cp_intern [] = cret ()"
| "cp_intern ((p, name) # ps) = cbnd (rt (intern name)) (\<lambda>v.
     cbnd (cupd (\<lambda>c. c\<lparr>cp_sym := (cp_sym c)(p := v)\<rparr>)) (\<lambda>_. cp_intern ps))"

definition compile_init :: "unit cact" where
  "compile_init = cbnd (cupd (\<lambda>c. c\<lparr>clbl := 0, cf_n := 0, cf_done := 0, cg_n := 0\<rparr>)) (\<lambda>_. cp_intern cp_names)"

definition clnew :: "i24 cact" where
  "clnew = cbnd (cget clbl) (\<lambda>l. cbnd (cupd (\<lambda>c. c\<lparr>clbl := l + 1\<rparr>)) (\<lambda>_. cret l))"

definition peek_cg :: "nat \<Rightarrow> i24 cact" where
  "peek_cg i c = (if i < CGMAX then ret (cg_sym c i, c) else wild)"

text \<open>The search among the \<open>r\<close> entries from \<open>i\<close> on.\<close>

fun cg_find :: "nat \<Rightarrow> nat \<Rightarrow> i24 \<Rightarrow> bool cact" where
  "cg_find 0 i symb = cret False"
| "cg_find (Suc r) i symb = cbnd (peek_cg i) (\<lambda>v. if v = symb then cret True else cg_find r (Suc i) symb)"

definition cg_add :: "i24 \<Rightarrow> unit cact" where
  "cg_add symb = cbnd (cget cg_n) (\<lambda>n. cbnd (cg_find (nat (sint n)) 0 symb) (\<lambda>found. if found then cret ()
     else (\<lambda>c. if unat n < CGMAX
       then ret ((), c\<lparr>cg_sym := (cg_sym c)(unat n := symb), cg_n := n + 1\<rparr>) else wild)))"

section \<open>Writing assembly\<close>

definition ce :: "string \<Rightarrow> unit act" where
  "ce t = bnd (puts_str ''        '') (\<lambda>_. bnd (puts_str t) (\<lambda>_. putc_uart (CHR 0x0A)))"

definition ce_ld :: "i24 \<Rightarrow> unit act" where
  "ce_ld l = bnd (puts_str ''_CL'') (\<lambda>_. bnd (print_int l) (\<lambda>_. bnd (putc_uart (CHR '':'')) (\<lambda>_.
     putc_uart (CHR 0x0A))))"

definition ce_lr :: "i24 \<Rightarrow> unit act" where
  "ce_lr l = bnd (puts_str ''_CL'') (\<lambda>_. print_int l)"

definition ce_gr :: "i24 \<Rightarrow> unit act" where
  "ce_gr symb = bnd (puts_str ''_G'') (\<lambda>_. print_int (PTR_IDX symb))"

definition ce_li :: "i24 \<Rightarrow> unit act" where
  "ce_li v = bnd (if sint v \<ge> -128 \<and> sint v \<le> 127 then puts_str ''        lc      r0,''
     else puts_str ''        la      r0,'') (\<lambda>_. bnd (print_int v) (\<lambda>_. putc_uart (CHR 0x0A)))"

definition ce_li1 :: "i24 \<Rightarrow> unit act" where
  "ce_li1 v = bnd (if sint v \<ge> -128 \<and> sint v \<le> 127 then puts_str ''        lc      r1,''
     else puts_str ''        la      r1,'') (\<lambda>_. bnd (print_int v) (\<lambda>_. putc_uart (CHR 0x0A)))"

text \<open>Lines that end in a label or a global: \<open>puts_str\<close>, \<open>ce_lr\<close> or \<open>ce_gr\<close>, and the newline.\<close>

definition ce_to :: "string \<Rightarrow> i24 \<Rightarrow> unit act" where
  "ce_to t l = bnd (puts_str t) (\<lambda>_. bnd (ce_lr l) (\<lambda>_. putc_uart (CHR 0x0A)))"

definition ce_glob :: "string \<Rightarrow> i24 \<Rightarrow> unit act" where
  "ce_glob t symb = bnd (puts_str t) (\<lambda>_. bnd (ce_gr symb) (\<lambda>_. putc_uart (CHR 0x0A)))"

section \<open>Quoted data and environments\<close>

text \<open>The call of a routine of the runtime, and what takes its arguments off the stack.\<close>

definition ce_call :: "string \<Rightarrow> string \<Rightarrow> unit act" where
  "ce_call name pops = bnd (puts_str (''        la      r0,'' @ name @ ''\<newline>'')) (\<lambda>_.
     bnd (ce ''jal     r1,(r0)'') (\<lambda>_. ce pops))"

fun cquote :: "nat \<Rightarrow> i24 \<Rightarrow> unit act" where
  "cquote 0 val = starved"
| "cquote (Suc k) val = (if IS_FIXNUM val \<or> IS_SYMBOL val then ce_li val
     else if IS_CONS val
     then bnd (cdr val) (\<lambda>d. bnd (cquote k d) (\<lambda>_. bnd (ce ''push    r0'') (\<lambda>_.
       bnd (car val) (\<lambda>a. bnd (cquote k a) (\<lambda>_. bnd (ce ''push    r0'') (\<lambda>_.
       ce_call ''_cons'' ''add     sp,6''))))))
     else ce_li NIL_VAL)"

fun clen_loop :: "nat \<Rightarrow> i24 \<Rightarrow> i24 \<Rightarrow> i24 act" where
  "clen_loop 0 n lst = starved"
| "clen_loop (Suc k) n lst = (if IS_NIL lst then ret n else bnd (cdr lst) (clen_loop k (n + 1)))"

definition clen :: "i24 \<Rightarrow> i24 act" where
  "clen lst = clen_loop walk_fuel 0 lst"

fun cenv_loop :: "nat \<Rightarrow> i24 \<Rightarrow> i24 \<Rightarrow> i24 act" where
  "cenv_loop 0 symb env = starved"
| "cenv_loop (Suc k) symb env = (if IS_NIL env then ret (-9999)
     else bnd (car env) (\<lambda>b. bnd (car b) (\<lambda>x. if x = symb then bnd (cdr b) (\<lambda>o'. ret (FIXNUM_VAL o'))
       else bnd (cdr env) (cenv_loop k symb))))"

definition cenv_get :: "i24 \<Rightarrow> i24 \<Rightarrow> i24 act" where
  "cenv_get symb env = cenv_loop walk_fuel symb env"

definition cenv_put :: "i24 \<Rightarrow> i24 \<Rightarrow> i24 \<Rightarrow> i24 act" where
  "cenv_put symb off env = bnd (hold [symb, off, env] (cons symb (MAKE_FIXNUM off))) (\<lambda>b. cons b env)"

fun params_loop :: "nat \<Rightarrow> i24 \<Rightarrow> i24 \<Rightarrow> i24 \<Rightarrow> i24 \<Rightarrow> i24 act" where
  "params_loop 0 params env p off = starved"
| "params_loop (Suc k) params env p off = (if IS_NIL p then ret env
     else bnd (car p) (\<lambda>x. bnd (hold [params, env, p, off] (cenv_put x off env)) (\<lambda>env.
       bnd (cdr p) (\<lambda>p. params_loop k params env p (off + 3)))))"

definition cenv_params :: "i24 \<Rightarrow> i24 act" where
  "cenv_params params = params_loop walk_fuel params NIL_VAL params 9"

section \<open>Expressions\<close>

text \<open>The parts of \<open>cexpr\<close> take its recursive call as the argument \<open>cx\<close>.\<close>

type_synonym compile_fn = "i24 \<Rightarrow> i24 \<Rightarrow> unit cact"

text \<open>A variable of the frame or a global.\<close>

definition c_symbol :: "i24 \<Rightarrow> i24 \<Rightarrow> unit cact" where
  "c_symbol expr env = cbnd (rt (cenv_get expr env)) (\<lambda>off. if off \<noteq> -9999
     then rt (bnd (puts_str ''        lw      r0,'') (\<lambda>_. bnd (print_int off) (\<lambda>_. puts_str ''(fp)\<newline>'')))
     else cbnd (cg_add expr) (\<lambda>_. rt (bnd (ce_glob ''        la      r1,'' expr) (\<lambda>_. ce ''lw      r0,0(r1)''))))"

definition asm_break :: "i24 \<Rightarrow> unit act" where
  "asm_break rest = (if IS_NIL rest then putc_uart (CHR 0x0A)
     else bnd (car rest) (\<lambda>n. if \<not> IS_SYMBOL n then putc_uart (CHR 0x0A) else ret ()))"

fun c_asm :: "nat \<Rightarrow> i24 \<Rightarrow> unit cact" where
  "c_asm 0 strs = rt starved"
| "c_asm (Suc k) strs = (if IS_NIL strs then cret ()
     else cbnd (rt (car strs)) (\<lambda>v. cbnd (rt (cdr strs)) (\<lambda>rest. cbnd (rt (is_string v)) (\<lambda>str.
       if str
       then cbnd (rt (bnd (string_data v) (\<lambda>d. bnd (pool_cstring (STR_POOL_SIZE - unat d) (unat d)) puts_str))) (\<lambda>_.
         cbnd (rt (asm_break rest)) (\<lambda>_. c_asm k rest))
       else if IS_SYMBOL v
       then cbnd (cg_add v) (\<lambda>_. cbnd (rt (ce_gr v)) (\<lambda>_. cbnd (rt (asm_break rest)) (\<lambda>_. c_asm k rest)))
       else rt (puts_str ''ERR:asm-bad-arg\<newline>'')))))"

definition c_if :: "compile_fn \<Rightarrow> i24 list \<Rightarrow> i24 \<Rightarrow> i24 \<Rightarrow> unit cact" where
  "c_if cx fr args env = cbnd clnew (\<lambda>lt. cbnd clnew (\<lambda>le. cbnd clnew (\<lambda>lx.
     let fr = fr @ [lt, le, lx] in
     cbnd (rt (car args)) (\<lambda>e. cbnd (chold fr (cx e env)) (\<lambda>_.
     cbnd (rt (bnd (ce_li1 NIL_VAL) (\<lambda>_. bnd (ce ''ceq     r0,r1'') (\<lambda>_.
       bnd (ce_to ''        brf     '' lt) (\<lambda>_. bnd (ce_to ''        la      r2,'' le) (\<lambda>_.
       bnd (ce ''jmp     (r2)'') (\<lambda>_. ce_ld lt))))))) (\<lambda>_.
     cbnd (rt (bnd (cdr args) car)) (\<lambda>e. cbnd (chold fr (cx e env)) (\<lambda>_.
     cbnd (rt (bnd (ce_to ''        la      r2,'' lx) (\<lambda>_. bnd (ce ''jmp     (r2)'') (\<lambda>_. ce_ld le)))) (\<lambda>_.
     cbnd (rt (bnd (cdr args) cdr)) (\<lambda>r. cbnd (if IS_NIL r then rt (ce_li NIL_VAL)
       else cbnd (rt (car r)) (\<lambda>e. chold fr (cx e env))) (\<lambda>_. rt (ce_ld lx))))))))))))"

fun c_begin :: "nat \<Rightarrow> compile_fn \<Rightarrow> i24 list \<Rightarrow> i24 \<Rightarrow> i24 \<Rightarrow> unit cact" where
  "c_begin 0 cx fr args env = rt starved"
| "c_begin (Suc k) cx fr args env = (if IS_NIL args then cret ()
     else cbnd (rt (car args)) (\<lambda>e. cbnd (chold (fr @ [args]) (cx e env)) (\<lambda>_.
       cbnd (rt (cdr args)) (\<lambda>args. c_begin k cx fr args env))))"

text \<open>A function whose body is compiled later.\<close>

definition defer_fn :: "i24 \<Rightarrow> i24 \<Rightarrow> i24 \<Rightarrow> unit cact" where
  "defer_fn fl fb fe c = (if unat (cf_n c) < CFMAX
     then ret ((), c\<lparr>cf_lbl := (cf_lbl c)(unat (cf_n c) := fl), cf_body := (cf_body c)(unat (cf_n c) := fb),
       cf_env := (cf_env c)(unat (cf_n c) := fe), cf_n := cf_n c + 1\<rparr>) else wild)"

definition c_function :: "i24 list \<Rightarrow> i24 \<Rightarrow> i24 cact" where
  "c_function fr args = cbnd clnew (\<lambda>fl. cbnd (rt (car args)) (\<lambda>ps. cbnd (rt (bnd (cdr args) car)) (\<lambda>fb.
     cbnd (chold (fr @ [fl, ps, fb]) (rt (cenv_params ps))) (\<lambda>fe. cbnd (defer_fn fl fb fe) (\<lambda>_. cret fl)))))"

definition c_lambda :: "i24 list \<Rightarrow> i24 \<Rightarrow> unit cact" where
  "c_lambda fr args = cbnd (c_function fr args) (\<lambda>fl. rt (ce_to ''        la      r0,'' fl))"

definition c_store :: "i24 \<Rightarrow> unit act" where
  "c_store symb = bnd (ce_glob ''        la      r1,'' symb) (\<lambda>_. ce ''sw      r0,0(r1)'')"

definition c_define :: "compile_fn \<Rightarrow> i24 list \<Rightarrow> i24 \<Rightarrow> i24 \<Rightarrow> unit cact" where
  "c_define cx fr args env = cbnd (rt (car args)) (\<lambda>symb. cbnd (rt (bnd (cdr args) car)) (\<lambda>vexpr.
     cbnd (cg_add symb) (\<lambda>_. cbnd (rt (if IS_CONS vexpr
         then bnd (car vexpr) (\<lambda>h. bnd (get special_sym) (\<lambda>sp. ret (h = sp Lambda))) else ret False)) (\<lambda>fun'.
     if fun'
     then cbnd (rt (cdr vexpr)) (\<lambda>largs. cbnd (c_function (fr @ [symb, vexpr]) largs) (\<lambda>fl.
       cbnd (rt (ce_to ''        la      r0,'' fl)) (\<lambda>_. rt (c_store symb))))
     else cbnd (chold (fr @ [symb, vexpr]) (cx vexpr env)) (\<lambda>_. rt (c_store symb))))))"

section \<open>Primitives\<close>

text \<open>Both operands: the second is pushed, the first is left in \<open>r0\<close>.\<close>

definition c_operands :: "compile_fn \<Rightarrow> i24 list \<Rightarrow> i24 \<Rightarrow> i24 \<Rightarrow> i24 \<Rightarrow> unit cact" where
  "c_operands cx fr a1 a2 env = cbnd (chold fr (cx a2 env)) (\<lambda>_. cbnd (rt (ce ''push    r0'')) (\<lambda>_.
     chold fr (cx a1 env)))"

definition c_arith :: "compile_fn \<Rightarrow> i24 list \<Rightarrow> string list \<Rightarrow> i24 \<Rightarrow> i24 \<Rightarrow> i24 \<Rightarrow> unit cact" where
  "c_arith cx fr ops a1 a2 env = cbnd (c_operands cx fr a1 a2 env) (\<lambda>_. rt (bnd (ce ''pop     r1'') (\<lambda>_.
     foldr (\<lambda>t m. bnd (ce t) (\<lambda>_. m)) ops (ret ()))))"

text \<open>The end of every test: nil or t, by the condition flag.\<close>

definition c_truth :: "i24 \<Rightarrow> i24 \<Rightarrow> unit act" where
  "c_truth lt lx = bnd (ce_to ''        brt     '' lt) (\<lambda>_. bnd (ce_li NIL_VAL) (\<lambda>_.
     bnd (ce_to ''        la      r2,'' lx) (\<lambda>_. bnd (ce ''jmp     (r2)'') (\<lambda>_. bnd (ce_ld lt) (\<lambda>_.
     bnd (ce_li T_VAL) (\<lambda>_. ce_ld lx))))))"

definition c_compare :: "compile_fn \<Rightarrow> i24 list \<Rightarrow> string \<Rightarrow> i24 \<Rightarrow> i24 \<Rightarrow> i24 \<Rightarrow> unit cact" where
  "c_compare cx fr op a1 a2 env = cbnd clnew (\<lambda>lt. cbnd clnew (\<lambda>lx.
     cbnd (c_operands cx (fr @ [lt, lx]) a1 a2 env) (\<lambda>_. rt (bnd (ce ''pop     r1'') (\<lambda>_. bnd (ce op) (\<lambda>_.
     c_truth lt lx))))))"

definition c_cons :: "compile_fn \<Rightarrow> i24 list \<Rightarrow> i24 \<Rightarrow> i24 \<Rightarrow> i24 \<Rightarrow> unit cact" where
  "c_cons cx fr a1 a2 env = cbnd (c_operands cx fr a1 a2 env) (\<lambda>_. rt (bnd (ce ''push    r0'') (\<lambda>_.
     ce_call ''_cons'' ''add     sp,6'')))"

definition c_part :: "compile_fn \<Rightarrow> i24 list \<Rightarrow> string \<Rightarrow> i24 \<Rightarrow> i24 \<Rightarrow> unit cact" where
  "c_part cx fr name a1 env = cbnd (chold fr (cx a1 env)) (\<lambda>_. rt (bnd (ce ''push    r0'') (\<lambda>_.
     ce_call name ''add     sp,3'')))"

text \<open>\<open>null?\<close> and \<open>not\<close>, and \<open>pair?\<close>.\<close>

definition c_null :: "compile_fn \<Rightarrow> i24 list \<Rightarrow> i24 \<Rightarrow> i24 \<Rightarrow> unit cact" where
  "c_null cx fr a1 env = cbnd clnew (\<lambda>lt. cbnd clnew (\<lambda>lx. cbnd (chold (fr @ [lt, lx]) (cx a1 env)) (\<lambda>_.
     rt (bnd (ce_li1 NIL_VAL) (\<lambda>_. bnd (ce ''ceq     r0,r1'') (\<lambda>_. c_truth lt lx))))))"

definition c_pair :: "compile_fn \<Rightarrow> i24 list \<Rightarrow> i24 \<Rightarrow> i24 \<Rightarrow> unit cact" where
  "c_pair cx fr a1 env = cbnd clnew (\<lambda>lt. cbnd clnew (\<lambda>lx. cbnd (chold (fr @ [lt, lx]) (cx a1 env)) (\<lambda>_.
     rt (bnd (ce ''lc      r1,3'') (\<lambda>_. bnd (ce ''and     r0,r1'') (\<lambda>_. bnd (ce ''lc      r1,1'') (\<lambda>_.
     bnd (ce ''ceq     r0,r1'') (\<lambda>_. c_truth lt lx))))))))"

definition c_print :: "compile_fn \<Rightarrow> i24 list \<Rightarrow> i24 \<Rightarrow> i24 \<Rightarrow> unit cact" where
  "c_print cx fr a1 env = cbnd (chold fr (cx a1 env)) (\<lambda>_. rt (bnd (ce ''push    r0'') (\<lambda>_.
     bnd (ce ''push    r0'') (\<lambda>_. bnd (ce_call ''_print_val'' ''add     sp,3'') (\<lambda>_. ce ''pop     r0'')))))"

text \<open>The primitives that are inlined; \<open>None\<close> if the head is none of them.\<close>

definition c_prim :: "compile_fn \<Rightarrow> i24 list \<Rightarrow> (cprim \<Rightarrow> i24) \<Rightarrow> i24 \<Rightarrow> i24 \<Rightarrow> i24 \<Rightarrow> i24 \<Rightarrow> unit cact option" where
  "c_prim cx fr cp head a1 a2 env =
     (if head = cp CP_plus then Some (c_arith cx fr [''add     r0,r1''] a1 a2 env)
      else if head = cp CP_minus then Some (c_arith cx fr [''sub     r0,r1''] a1 a2 env)
      else if head = cp CP_star
      then Some (c_arith cx fr [''lc      r2,2'', ''sra     r1,r2'', ''mul     r0,r1''] a1 a2 env)
      else if head = cp CP_lt then Some (c_compare cx fr ''cls     r0,r1'' a1 a2 env)
      else if head = cp CP_eq then Some (c_compare cx fr ''ceq     r0,r1'' a1 a2 env)
      else if head = cp CP_cons then Some (c_cons cx fr a1 a2 env)
      else if head = cp CP_car then Some (c_part cx fr ''_car'' a1 env)
      else if head = cp CP_cdr then Some (c_part cx fr ''_cdr'' a1 env)
      else if head = cp CP_nullp then Some (c_null cx fr a1 env)
      else if head = cp CP_pairp then Some (c_pair cx fr a1 env)
      else if head = cp CP_not then Some (c_null cx fr a1 env)
      else if head = cp CP_print then Some (c_print cx fr a1 env)
      else None)"

text \<open>The first two arguments, nil if there are fewer.\<close>

definition c_args :: "i24 \<Rightarrow> (i24 \<times> i24) act" where
  "c_args args = bnd (if IS_NIL args then ret NIL_VAL else car args) (\<lambda>a1.
     bnd (if IS_NIL args then ret NIL_VAL
       else bnd (cdr args) (\<lambda>r. if IS_NIL r then ret NIL_VAL else car r)) (\<lambda>a2. ret (a1, a2)))"

section \<open>Calls\<close>

definition c_call :: "compile_fn \<Rightarrow> compile_fn \<Rightarrow> i24 list \<Rightarrow> i24 \<Rightarrow> i24 \<Rightarrow> i24 \<Rightarrow> unit cact" where
  "c_call cx push fr head args env = cbnd (rt (clen args)) (\<lambda>nargs.
     cbnd (chold (fr @ [nargs]) (push args env)) (\<lambda>_.
     cbnd (if IS_SYMBOL head then c_symbol head env else chold (fr @ [nargs]) (cx head env)) (\<lambda>_.
     rt (bnd (ce ''jal     r1,(r0)'') (\<lambda>_. if sint nargs > 0
       then bnd (puts_str ''        add     sp,'') (\<lambda>_. bnd (print_int (nargs * 3)) (\<lambda>_. putc_uart (CHR 0x0A)))
       else ret ())))))"

definition c_special :: "nat \<Rightarrow> compile_fn \<Rightarrow> i24 list \<Rightarrow> (special \<Rightarrow> i24) \<Rightarrow> i24 \<Rightarrow> i24 \<Rightarrow> i24 \<Rightarrow> unit cact option" where
  "c_special k cx fr sp head args env =
     (if head = sp Asm then Some (c_asm k args)
      else if head = sp Quote then Some (cbnd (rt (car args)) (\<lambda>v. rt (cquote k v)))
      else if head = sp If then Some (c_if cx fr args env)
      else if head = sp Begin then Some (c_begin k cx [fr ! 0, env, head] args env)
      else if head = sp Define then Some (c_define cx fr args env)
      else if head = sp Lambda then Some (c_lambda fr args)
      else None)"

definition cexpr_turn :: "nat \<Rightarrow> compile_fn \<Rightarrow> compile_fn \<Rightarrow> compile_fn" where
  "cexpr_turn k cx push expr env =
     (if IS_FIXNUM expr then rt (ce_li expr)
      else if IS_NIL expr then rt (ce_li NIL_VAL)
      else if expr = T_VAL then rt (ce_li T_VAL)
      else if IS_SYMBOL expr then c_symbol expr env
      else if \<not> IS_CONS expr then rt (ce_li NIL_VAL)
      else cbnd (rt (car expr)) (\<lambda>head. cbnd (rt (cdr expr)) (\<lambda>args.
        let fr = [expr, env, head, args] in
        cbnd (rt (get special_sym)) (\<lambda>sp. case c_special k cx fr sp head args env of Some m \<Rightarrow> m
        | None \<Rightarrow> cbnd (if IS_SYMBOL head then cbnd (rt (c_args args)) (\<lambda>p. cret (Some p)) else cret None) (\<lambda>p.
          cbnd (cget cp_sym) (\<lambda>cp. case p of
            Some (a1, a2) \<Rightarrow> (case c_prim cx (fr @ [a1, a2]) cp head a1 a2 env of Some m \<Rightarrow> m
              | None \<Rightarrow> c_call cx push fr head args env)
          | None \<Rightarrow> c_call cx push fr head args env))))))"

definition push_turn :: "compile_fn \<Rightarrow> compile_fn \<Rightarrow> compile_fn" where
  "push_turn cx push args env = (if IS_NIL args then cret ()
     else cbnd (rt (cdr args)) (\<lambda>r. cbnd (chold [args, env] (push r env)) (\<lambda>_. cbnd (rt (car args)) (\<lambda>e.
       cbnd (chold [args, env] (cx e env)) (\<lambda>_. rt (ce ''push    r0''))))))"

fun cexpr :: "nat \<Rightarrow> compile_fn"
  and cpush_args :: "nat \<Rightarrow> compile_fn" where
  "cexpr 0 = (\<lambda>expr env. rt starved)"
| "cexpr (Suc k) = cexpr_turn k (cexpr k) (cpush_args k)"
| "cpush_args 0 = (\<lambda>args env. rt starved)"
| "cpush_args (Suc k) = push_turn (cexpr k) (cpush_args k)"

section \<open>Programs\<close>

definition c_prologue :: "unit act" where
  "c_prologue = bnd (ce ''push    fp'') (\<lambda>_. bnd (ce ''push    r2'') (\<lambda>_. bnd (ce ''push    r1'') (\<lambda>_.
     ce ''mov     fp,sp'')))"

definition c_epilogue :: "unit act" where
  "c_epilogue = bnd (ce ''mov     sp,fp'') (\<lambda>_. bnd (ce ''pop     r1'') (\<lambda>_. bnd (ce ''pop     r2'') (\<lambda>_.
     bnd (ce ''pop     fp'') (\<lambda>_. ce ''jmp     (r1)''))))"

definition peek_cf :: "(compiler \<Rightarrow> nat \<Rightarrow> i24) \<Rightarrow> i24 \<Rightarrow> i24 cact" where
  "peek_cf f i c = (if unat i < CFMAX then ret (f c (unat i), c) else wild)"

definition cemit_fn :: "nat \<Rightarrow> i24 \<Rightarrow> unit cact" where
  "cemit_fn k i = cbnd (peek_cf cf_lbl i) (\<lambda>l. cbnd (rt (bnd (ce_ld l) (\<lambda>_. c_prologue))) (\<lambda>_.
     cbnd (peek_cf cf_body i) (\<lambda>b. cbnd (peek_cf cf_env i) (\<lambda>e. cbnd (chold [i] (cexpr k b e)) (\<lambda>_.
     rt c_epilogue)))))"

fun cemit_fns :: "nat \<Rightarrow> unit cact" where
  "cemit_fns 0 = rt starved"
| "cemit_fns (Suc k) = cbnd (cget cf_done) (\<lambda>d. cbnd (cget cf_n) (\<lambda>n. if sint d < sint n
     then cbnd (cemit_fn k d) (\<lambda>_. cbnd (cupd (\<lambda>c. c\<lparr>cf_done := cf_done c + 1\<rparr>)) (\<lambda>_. cemit_fns k))
     else cret ()))"

text \<open>The \<open>r\<close> globals from \<open>i\<close> on.\<close>

fun data_loop :: "nat \<Rightarrow> nat \<Rightarrow> unit cact" where
  "data_loop 0 i = cret ()"
| "data_loop (Suc r) i = cbnd (peek_cg i) (\<lambda>v. cbnd (rt (bnd (ce_gr v) (\<lambda>_.
     puts_str '':\<newline>        .word   0\<newline>''))) (\<lambda>_. data_loop r (Suc i)))"

definition cemit_data :: "unit cact" where
  "cemit_data = cbnd (cget cg_n) (\<lambda>n. if n = 0 then cret ()
     else cbnd (rt (puts_str ''        .data\<newline>'')) (\<lambda>_. data_loop (nat (sint n)) 0))"

fun c_toplevel :: "nat \<Rightarrow> i24 \<Rightarrow> unit cact" where
  "c_toplevel 0 exprs = rt starved"
| "c_toplevel (Suc k) exprs = (if IS_NIL exprs then cret ()
     else cbnd (rt (car exprs)) (\<lambda>e. cbnd (chold [exprs] (cexpr k e NIL_VAL)) (\<lambda>_.
       cbnd (rt (cdr exprs)) (c_toplevel k))))"

definition compile_program :: "nat \<Rightarrow> i24 \<Rightarrow> unit cact" where
  "compile_program k exprs = cbnd (rt (bnd (puts_str ''; Generated by tml24c compiler\<newline>'') (\<lambda>_.
       bnd (puts_str ''        .text\<newline>\<newline>'') (\<lambda>_. bnd (puts_str ''        .globl  _cmain\<newline>'') (\<lambda>_.
       bnd (puts_str ''_cmain:\<newline>'') (\<lambda>_. c_prologue)))))) (\<lambda>_.
     cbnd (c_toplevel k exprs) (\<lambda>_. cbnd (rt (bnd c_epilogue (\<lambda>_. putc_uart (CHR 0x0A)))) (\<lambda>_.
     cbnd (cemit_fns k) (\<lambda>_. cbnd (rt (putc_uart (CHR 0x0A))) (\<lambda>_. cemit_data)))))"

end
