(* ===== verification/Tml_Codegen.thy ===== *)
theory Tml_Codegen
  imports Tml_Compile Tml_Build
begin

text \<open>
  What the compiler of \<open>compile.h\<close> should write, free of heap and runtime: a compiler from
  expression trees to lines of assembly.  Its state counts labels and cells and lists the globals
  and the functions whose bodies are still to come; it fails when one of the tables of the C code
  or the heap is full.
\<close>

section \<open>Expressions\<close>

datatype op1 = OCar | OCdr | ONull | OPair | ONot | OPrint
datatype op2 = OAdd | OSub | OMul | OLt | OEq | OCons

text \<open>Operands beyond those of the primitive are part of the form but not of the program.\<close>

datatype exp = ENum i24 | ENil | ET | EStr string | EVar string | EQuote datum | EIf exp exp exp
  | EIf1 exp exp | EBegin "exp list" | EDef string exp | EFun "string list" exp
  | EOp1 op1 exp "datum list" | EOp2 op2 exp exp "datum list" | ECall exp "exp list"

fun lst :: "datum list \<Rightarrow> datum" where
  "lst [] = nil"
| "lst (x # xs) = Pair x (lst xs)"

fun op1_prim :: "op1 \<Rightarrow> cprim" where
  "op1_prim OCar = CP_car" | "op1_prim OCdr = CP_cdr" | "op1_prim ONull = CP_nullp"
| "op1_prim OPair = CP_pairp" | "op1_prim ONot = CP_not" | "op1_prim OPrint = CP_print"

fun op2_prim :: "op2 \<Rightarrow> cprim" where
  "op2_prim OAdd = CP_plus" | "op2_prim OSub = CP_minus" | "op2_prim OMul = CP_star"
| "op2_prim OLt = CP_lt" | "op2_prim OEq = CP_eq" | "op2_prim OCons = CP_cons"

definition prim_name :: "cprim \<Rightarrow> string" where
  "prim_name p = the (map_of cp_names p)"

fun form :: "exp \<Rightarrow> datum" where
  "form (ENum n) = Num n"
| "form ENil = nil"
| "form ET = Sym ''t''"
| "form (EStr t) = Str t"
| "form (EVar x) = Sym x"
| "form (EQuote d) = lst [Sym ''quote'', d]"
| "form (EIf a b c) = lst [Sym ''if'', form a, form b, form c]"
| "form (EIf1 a b) = lst [Sym ''if'', form a, form b]"
| "form (EBegin es) = lst (Sym ''begin'' # map form es)"
| "form (EDef x e) = lst [Sym ''define'', Sym x, form e]"
| "form (EFun ps e) = lst [Sym ''lambda'', lst (map Sym ps), form e]"
| "form (EOp1 p a ds) = lst (Sym (prim_name (op1_prim p)) # form a # ds)"
| "form (EOp2 p a b ds) = lst (Sym (prim_name (op2_prim p)) # form a # form b # ds)"
| "form (ECall f es) = lst (form f # map form es)"

text \<open>The names that are no variable or function.\<close>

definition special_heads :: "string list" where
  "special_heads = [''asm'', ''quote'', ''if'', ''begin'', ''define'', ''lambda'']"

definition callable :: "exp \<Rightarrow> bool" where
  "callable f \<longleftrightarrow> (case f of ENil \<Rightarrow> False | ET \<Rightarrow> False | EVar x \<Rightarrow> x \<notin> set special_heads \<and> x \<notin> snd ` set cp_names
     | _ \<Rightarrow> True)"

fun wf_exp :: "exp \<Rightarrow> bool" where
  "wf_exp (EVar x) \<longleftrightarrow> x \<noteq> ''nil'' \<and> x \<noteq> ''t''"
| "wf_exp (EIf a b c) \<longleftrightarrow> wf_exp a \<and> wf_exp b \<and> wf_exp c"
| "wf_exp (EIf1 a b) \<longleftrightarrow> wf_exp a \<and> wf_exp b"
| "wf_exp (EBegin es) \<longleftrightarrow> (\<forall>e\<in>set es. wf_exp e)"
| "wf_exp (EDef x e) \<longleftrightarrow> wf_exp e"
| "wf_exp (EFun ps e) \<longleftrightarrow> wf_exp e"
| "wf_exp (EOp1 p a ds) \<longleftrightarrow> wf_exp a"
| "wf_exp (EOp2 p a b ds) \<longleftrightarrow> wf_exp a \<and> wf_exp b"
| "wf_exp (ECall f es) \<longleftrightarrow> wf_exp f \<and> callable f \<and> (\<forall>e\<in>set es. wf_exp e)"
| "wf_exp e \<longleftrightarrow> True"

section \<open>Lines\<close>

datatype reg = R0 | R1 | R2 | FP

datatype line = Push reg | Pop reg | AddSp nat | Alu string | Li reg i24 | LaLabel reg nat | LaGlobal nat
  | LaName string | LwFrame nat | LwGlobal | SwGlobal | Brt nat | Brf nat | JmpR2 | JmpR1 | Call | SetFp | SetSp
  | Label nat | Word nat | Text string

fun reg_text :: "reg \<Rightarrow> string" where
  "reg_text R0 = ''r0''" | "reg_text R1 = ''r1''" | "reg_text R2 = ''r2''" | "reg_text FP = ''fp''"

definition ins :: "string \<Rightarrow> string" where
  "ins t = ''        '' @ t @ [CHR 0x0A]"

definition label_text :: "nat \<Rightarrow> string" where
  "label_text l = ''_CL'' @ int_text (of_nat l)"

definition glob_text :: "nat \<Rightarrow> string" where
  "glob_text i = ''_G'' @ int_text (of_nat i)"

definition short_imm :: "i24 \<Rightarrow> bool" where
  "short_imm v \<longleftrightarrow> sint v \<ge> -128 \<and> sint v \<le> 127"

fun line_text :: "line \<Rightarrow> string" where
  "line_text (Push r) = ins (''push    '' @ reg_text r)"
| "line_text (Pop r) = ins (''pop     '' @ reg_text r)"
| "line_text (AddSp n) = ins (''add     sp,'' @ int_text (of_nat n))"
| "line_text (Alu t) = ins t"
| "line_text (Li r v) = ins ((if short_imm v then ''lc      '' else ''la      '') @ reg_text r @ '','' @ int_text v)"
| "line_text (LaLabel r l) = ins (''la      '' @ reg_text r @ '','' @ label_text l)"
| "line_text (LaGlobal i) = ins (''la      r1,'' @ glob_text i)"
| "line_text (LaName x) = ins (''la      r0,'' @ x)"
| "line_text (LwFrame n) = ins (''lw      r0,'' @ int_text (of_nat n) @ ''(fp)'')"
| "line_text LwGlobal = ins ''lw      r0,0(r1)''"
| "line_text SwGlobal = ins ''sw      r0,0(r1)''"
| "line_text (Brt l) = ins (''brt     '' @ label_text l)"
| "line_text (Brf l) = ins (''brf     '' @ label_text l)"
| "line_text JmpR2 = ins ''jmp     (r2)''"
| "line_text JmpR1 = ins ''jmp     (r1)''"
| "line_text Call = ins ''jal     r1,(r0)''"
| "line_text SetFp = ins ''mov     fp,sp''"
| "line_text SetSp = ins ''mov     sp,fp''"
| "line_text (Label l) = label_text l @ [CHR '':'', CHR 0x0A]"
| "line_text (Word i) = glob_text i @ '':'' @ [CHR 0x0A] @ ins ''.word   0''"
| "line_text (Text t) = t @ [CHR 0x0A]"

definition code_text :: "line list \<Rightarrow> string" where
  "code_text ls = concat (map line_text ls)"

lemma code_text_simps [simp]:
  "code_text [] = []" "code_text (l # ls) = line_text l @ code_text ls"
  "code_text (ls @ ms) = code_text ls @ code_text ms"
  by (simp_all add: code_text_def)

section \<open>The state of the code generator\<close>

type_synonym penv = "(string \<times> nat) list"

record gst =
  labels :: nat
  globs :: "nat list"
  funs :: "(nat \<times> exp \<times> penv) list"
  cells :: nat

datatype 'a gres = Ok "line list" 'a gst | Table | Full

type_synonym 'a gen = "gst \<Rightarrow> 'a gres"

definition gret :: "'a \<Rightarrow> 'a gen" where "gret a g = Ok [] a g"

definition gbnd :: "'a gen \<Rightarrow> ('a \<Rightarrow> 'b gen) \<Rightarrow> 'b gen" where
  "gbnd m k g = (case m g of Ok ls a g1 \<Rightarrow> (case k a g1 of Ok ms b g2 \<Rightarrow> Ok (ls @ ms) b g2 | Table \<Rightarrow> Table | Full \<Rightarrow> Full)
     | Table \<Rightarrow> Table | Full \<Rightarrow> Full)"

definition emit :: "line list \<Rightarrow> unit gen" where "emit ls g = Ok ls () g"

definition glabel :: "nat gen" where
  "glabel g = Ok [] (labels g) (g\<lparr>labels := Suc (labels g)\<rparr>)"

definition gglob :: "nat \<Rightarrow> unit gen" where
  "gglob i g = (if i \<in> set (globs g) then Ok [] () g
     else if length (globs g) < CGMAX then Ok [] () (g\<lparr>globs := globs g @ [i]\<rparr>) else Table)"

definition gdefer :: "nat \<times> exp \<times> penv \<Rightarrow> unit gen" where
  "gdefer f g = (if length (funs g) < CFMAX then Ok [] () (g\<lparr>funs := funs g @ [f]\<rparr>) else Table)"

definition gcells :: "nat \<Rightarrow> unit gen" where
  "gcells n g = (if cells g + n \<le> HEAP_SIZE then Ok [] () (g\<lparr>cells := cells g + n\<rparr>) else Full)"

section \<open>The code of an expression\<close>

definition call_code :: "string \<Rightarrow> nat \<Rightarrow> line list" where
  "call_code name n = [LaName name, Call, AddSp n]"

fun quote_code :: "(string \<Rightarrow> nat) \<Rightarrow> datum \<Rightarrow> line list" where
  "quote_code ix (Num n) = [Li R0 (MAKE_FIXNUM n)]"
| "quote_code ix (Sym x) = [Li R0 (MAKE_SYMBOL (of_nat (ix x)))]"
| "quote_code ix (Str t) = [Li R0 NIL_VAL]"
| "quote_code ix (Pair a d) = quote_code ix d @ [Push R0] @ quote_code ix a @ [Push R0] @ call_code ''_cons'' 6"

definition param_env :: "string list \<Rightarrow> penv" where
  "param_env ps = rev (zip ps (map (\<lambda>i. 9 + 3 * i) [0..<length ps]))"

definition gvar :: "(string \<Rightarrow> nat) \<Rightarrow> penv \<Rightarrow> string \<Rightarrow> unit gen" where
  "gvar ix env x = (case map_of env x of Some off \<Rightarrow> emit [LwFrame off]
     | None \<Rightarrow> gbnd (gglob (ix x)) (\<lambda>_. emit [LaGlobal (ix x), LwGlobal]))"

definition gfun :: "string list \<Rightarrow> exp \<Rightarrow> unit gen" where
  "gfun ps e = gbnd glabel (\<lambda>l. gbnd (gcells (2 * length ps)) (\<lambda>_. gbnd (gdefer (l, e, param_env ps)) (\<lambda>_.
     emit [LaLabel R0 l])))"

text \<open>The test that ends in nil or t.\<close>

definition truth_code :: "nat \<Rightarrow> nat \<Rightarrow> line list" where
  "truth_code lt lx = [Brt lt, Li R0 NIL_VAL, LaLabel R2 lx, JmpR2, Label lt, Li R0 T_VAL, Label lx]"

fun op2_code :: "op2 \<Rightarrow> line list" where
  "op2_code OAdd = [Alu ''add     r0,r1'']"
| "op2_code OSub = [Alu ''sub     r0,r1'']"
| "op2_code OMul = [Alu ''lc      r2,2'', Alu ''sra     r1,r2'', Alu ''mul     r0,r1'']"
| "op2_code OLt = [Alu ''cls     r0,r1'']"
| "op2_code OEq = [Alu ''ceq     r0,r1'']"
| "op2_code OCons = [Push R0] @ call_code ''_cons'' 6"

fun op1_code :: "op1 \<Rightarrow> line list" where
  "op1_code OCar = [Push R0] @ call_code ''_car'' 3"
| "op1_code OCdr = [Push R0] @ call_code ''_cdr'' 3"
| "op1_code ONull = [Li R1 NIL_VAL, Alu ''ceq     r0,r1'']"
| "op1_code OPair = [Alu ''lc      r1,3'', Alu ''and     r0,r1'', Alu ''lc      r1,1'', Alu ''ceq     r0,r1'']"
| "op1_code ONot = [Li R1 NIL_VAL, Alu ''ceq     r0,r1'']"
| "op1_code OPrint = [Push R0, Push R0] @ call_code ''_print_val'' 3 @ [Pop R0]"

definition test2 :: "op2 \<Rightarrow> bool" where "test2 p \<longleftrightarrow> p = OLt \<or> p = OEq"
definition test1 :: "op1 \<Rightarrow> bool" where "test1 p \<longleftrightarrow> p = ONull \<or> p = OPair \<or> p = ONot"

text \<open>The labels of a test are taken before its operands.\<close>

definition gtest :: "bool \<Rightarrow> unit gen \<Rightarrow> unit gen" where
  "gtest t m = (if t then gbnd glabel (\<lambda>lt. gbnd glabel (\<lambda>lx. gbnd m (\<lambda>_. emit (truth_code lt lx)))) else m)"

fun gexp :: "(string \<Rightarrow> nat) \<Rightarrow> penv \<Rightarrow> exp \<Rightarrow> unit gen"
  and gseq :: "(string \<Rightarrow> nat) \<Rightarrow> penv \<Rightarrow> exp list \<Rightarrow> unit gen"
  and gpush :: "(string \<Rightarrow> nat) \<Rightarrow> penv \<Rightarrow> exp list \<Rightarrow> unit gen" where
  "gexp ix env (ENum n) = emit [Li R0 (MAKE_FIXNUM n)]"
| "gexp ix env ENil = emit [Li R0 NIL_VAL]"
| "gexp ix env ET = emit [Li R0 T_VAL]"
| "gexp ix env (EStr t) = emit [Li R0 NIL_VAL]"
| "gexp ix env (EVar x) = gvar ix env x"
| "gexp ix env (EQuote d) = emit (quote_code ix d)"
| "gexp ix env (EIf a b c) = gbnd glabel (\<lambda>lt. gbnd glabel (\<lambda>le. gbnd glabel (\<lambda>lx.
     gbnd (gexp ix env a) (\<lambda>_.
     gbnd (emit [Li R1 NIL_VAL, Alu ''ceq     r0,r1'', Brf lt, LaLabel R2 le, JmpR2, Label lt]) (\<lambda>_.
     gbnd (gexp ix env b) (\<lambda>_. gbnd (emit [LaLabel R2 lx, JmpR2, Label le]) (\<lambda>_.
     gbnd (gexp ix env c) (\<lambda>_. emit [Label lx]))))))))"
| "gexp ix env (EIf1 a b) = gbnd glabel (\<lambda>lt. gbnd glabel (\<lambda>le. gbnd glabel (\<lambda>lx.
     gbnd (gexp ix env a) (\<lambda>_.
     gbnd (emit [Li R1 NIL_VAL, Alu ''ceq     r0,r1'', Brf lt, LaLabel R2 le, JmpR2, Label lt]) (\<lambda>_.
     gbnd (gexp ix env b) (\<lambda>_. gbnd (emit [LaLabel R2 lx, JmpR2, Label le]) (\<lambda>_.
     gbnd (emit [Li R0 NIL_VAL]) (\<lambda>_. emit [Label lx]))))))))"
| "gexp ix env (EBegin es) = gseq ix env es"
| "gexp ix env (EDef x e) = gbnd (gglob (ix x)) (\<lambda>_. gbnd (gexp ix env e) (\<lambda>_. emit [LaGlobal (ix x), SwGlobal]))"
| "gexp ix env (EFun ps e) = gfun ps e"
| "gexp ix env (EOp1 p a ds) = gtest (test1 p) (gbnd (gexp ix env a) (\<lambda>_. emit (op1_code p)))"
| "gexp ix env (EOp2 p a b ds) = gtest (test2 p) (gbnd (gexp ix env b) (\<lambda>_. gbnd (emit [Push R0]) (\<lambda>_.
     gbnd (gexp ix env a) (\<lambda>_. emit (if p = OCons then op2_code p else Pop R1 # op2_code p)))))"
| "gexp ix env (ECall f es) = gbnd (gpush ix env es) (\<lambda>_. gbnd (gexp ix env f) (\<lambda>_.
     emit (if es = [] then [Call] else [Call, AddSp (3 * length es)])))"
| "gseq ix env [] = gret ()"
| "gseq ix env (e # es) = gbnd (gexp ix env e) (\<lambda>_. gseq ix env es)"
| "gpush ix env [] = gret ()"
| "gpush ix env (e # es) = gbnd (gpush ix env es) (\<lambda>_. gbnd (gexp ix env e) (\<lambda>_. emit [Push R0]))"

section \<open>Programs\<close>

definition prologue :: "line list" where "prologue = [Push FP, Push R2, Push R1, SetFp]"
definition epilogue :: "line list" where "epilogue = [SetSp, Pop R1, Pop R2, Pop FP, JmpR1]"

definition gfn :: "(string \<Rightarrow> nat) \<Rightarrow> nat \<times> exp \<times> penv \<Rightarrow> unit gen" where
  "gfn ix f = (case f of (l, e, env) \<Rightarrow> gbnd (emit (Label l # prologue)) (\<lambda>_. gbnd (gexp ix env e) (\<lambda>_. emit epilogue)))"

text \<open>At most \<open>r\<close> functions, from number \<open>d\<close> on; the table has \<open>CFMAX\<close> entries.\<close>

fun gfns :: "(string \<Rightarrow> nat) \<Rightarrow> nat \<Rightarrow> nat \<Rightarrow> unit gen" where
  "gfns ix 0 d = gret ()"
| "gfns ix (Suc r) d = (\<lambda>g. if d < length (funs g) then gbnd (gfn ix (funs g ! d)) (\<lambda>_. gfns ix r (Suc d)) g else Ok [] () g)"

definition data_code :: "nat list \<Rightarrow> line list" where
  "data_code gs = (if gs = [] then [] else Text ''        .data'' # map Word gs)"

definition gdata :: "unit gen" where
  "gdata g = Ok (data_code (globs g)) () g"

definition header :: "line list" where
  "header = [Text ''; Generated by tml24c compiler'', Text ''        .text'', Text [], Text ''        .globl  _cmain'',
     Text ''_cmain:'']"

definition gprogram :: "(string \<Rightarrow> nat) \<Rightarrow> exp list \<Rightarrow> unit gen" where
  "gprogram ix es = gbnd (emit (header @ prologue)) (\<lambda>_. gbnd (gseq ix [] es) (\<lambda>_.
     gbnd (emit (epilogue @ [Text []])) (\<lambda>_. gbnd (gfns ix CFMAX 0) (\<lambda>_. gbnd (emit [Text []]) (\<lambda>_. gdata)))))"

definition gstart :: "nat \<Rightarrow> gst" where
  "gstart n = \<lparr>labels = 0, globs = [], funs = [], cells = n\<rparr>"

end
