(* ===== verification/Tml_Compile_Correct.thy ===== *)
theory Tml_Compile_Correct
  imports Tml_Codegen Tml_Repl
begin

text \<open>
  The compiler of \<open>compile.h\<close> writes the code of \<open>Tml_Codegen\<close>: every operation is related to a
  step of the code generator, from the lines it writes to the tables it fills.
\<close>

section \<open>Names\<close>

definition names :: "string list \<Rightarrow> bool" where
  "names ns \<longleftrightarrow> distinct ns \<and> length ns \<le> MAX_SYMBOLS \<and> (\<exists>ms. ns = ''nil'' # ''t'' # ms)"

definition index_of :: "string list \<Rightarrow> string \<Rightarrow> nat" where
  "index_of ns x = length (takeWhile (\<lambda>y. y \<noteq> x) ns)"

lemma index_of_nth: "distinct ns \<Longrightarrow> i < length ns \<Longrightarrow> index_of ns (ns ! i) = i"
  unfolding index_of_def by (simp add: takeWhile_eq_take_P_nth [of i] nth_eq_iff_index_eq)

lemma symbol_index:
  "names ns \<Longrightarrow> symbol_of ns x v \<longleftrightarrow> index_of ns x < length ns \<and> x \<in> set ns \<and> v = MAKE_SYMBOL (of_nat (index_of ns x))"
  by (auto simp: symbol_of_def names_def index_of_nth in_set_conv_nth)

lemma index_inj: "names ns \<Longrightarrow> x \<in> set ns \<Longrightarrow> y \<in> set ns \<Longrightarrow> index_of ns x = index_of ns y \<longleftrightarrow> x = y"
  by (auto simp: names_def in_set_conv_nth index_of_nth)

lemma symbol_same:
  "names ns \<Longrightarrow> symbol_of ns x v \<Longrightarrow> symbol_of ns y w \<Longrightarrow> v = w \<longleftrightarrow> x = y"
  using make_symbol_inj [of "index_of ns x" "index_of ns y"] index_inj [of ns x y]
  by (auto simp: symbol_index names_def MAX_SYMBOLS_def)

lemma symbol_const: "names ns \<Longrightarrow> symbol_of ns ''nil'' NIL_VAL" "names ns \<Longrightarrow> symbol_of ns ''t'' T_VAL"
  by (force simp: names_def symbol_of_def NIL_VAL_def, force simp: names_def symbol_of_def T_VAL_def)

lemma symbol_of_nil: "symbol_of ns ''nil'' v \<Longrightarrow> names ns \<Longrightarrow> v = NIL_VAL"
  using symbol_same symbol_const(1) by blast

lemma symbol_of_t: "symbol_of ns ''t'' v \<Longrightarrow> names ns \<Longrightarrow> v = T_VAL"
  using symbol_same symbol_const(2) by blast

lemma symbol_tag: "symbol_of ns x v \<Longrightarrow> IS_SYMBOL v"
  by (auto simp: symbol_of_def)

section \<open>Source and environments in the heap\<close>

fun src :: "string list \<Rightarrow> lisp \<Rightarrow> i24 \<Rightarrow> datum \<Rightarrow> bool" where
  "src ns s v (Num n) \<longleftrightarrow> v = MAKE_FIXNUM n"
| "src ns s v (Sym x) \<longleftrightarrow> symbol_of ns x v"
| "src ns s v (Str t) \<longleftrightarrow> IS_EXTENDED v"
| "src ns s v (Pair a d) \<longleftrightarrow> IS_CONS v \<and> cell_of v < unat (heap_next s) \<and> unat (heap_next s) \<le> HEAP_SIZE \<and>
     src ns s (heap_car s (cell_of v)) a \<and> src ns s (heap_cdr s (cell_of v)) d"

fun env_at :: "string list \<Rightarrow> lisp \<Rightarrow> i24 \<Rightarrow> penv \<Rightarrow> bool" where
  "env_at ns s v [] \<longleftrightarrow> v = NIL_VAL"
| "env_at ns s v ((x, off) # ps) \<longleftrightarrow> IS_CONS v \<and> cell_of v < unat (heap_next s) \<and> unat (heap_next s) \<le> HEAP_SIZE \<and>
     IS_CONS (heap_car s (cell_of v)) \<and> cell_of (heap_car s (cell_of v)) < unat (heap_next s) \<and>
     symbol_of ns x (heap_car s (cell_of (heap_car s (cell_of v)))) \<and> off < 1048576 \<and>
     heap_cdr s (cell_of (heap_car s (cell_of v))) = MAKE_FIXNUM (of_nat off) \<and>
     env_at ns s (heap_cdr s (cell_of v)) ps"

definition later :: "lisp \<Rightarrow> lisp \<Rightarrow> bool" where
  "later s s' \<longleftrightarrow> unat (heap_next s) \<le> unat (heap_next s') \<and> unat (heap_next s') \<le> HEAP_SIZE \<and>
     (\<forall>i<unat (heap_next s). heap_car s' i = heap_car s i \<and> heap_cdr s' i = heap_cdr s i) \<and>
     special_sym s' = special_sym s \<and> gc_enabled s' = gc_enabled s \<and> free_list s' = free_list s \<and> c_stack s' = c_stack s"

lemma later_trans: "later s s1 \<Longrightarrow> later s1 s2 \<Longrightarrow> later s s2"
  by (auto simp: later_def)

lemma later_says [simp]: "later s (says t s') = later s s'"
  by (auto simp: later_def)

lemma later_refl: "unat (heap_next s) \<le> HEAP_SIZE \<Longrightarrow> later s s"
  by (simp add: later_def)

lemma src_later: "src ns s v d \<Longrightarrow> later s s' \<Longrightarrow> src ns s' v d"
  by (induction d arbitrary: v) (auto simp: later_def)

lemma env_later: "env_at ns s v ps \<Longrightarrow> later s s' \<Longrightarrow> env_at ns s' v ps"
  by (induction ps arbitrary: v) (auto simp: later_def)

lemma src_stack [simp]:
  "src ns (s\<lparr>c_stack := k\<rparr>) v d = src ns s v d" "env_at ns (s\<lparr>c_stack := k\<rparr>) v ps = env_at ns s v ps"
  "src ns (says t s) v d = src ns s v d" "env_at ns (says t s) v ps = env_at ns s v ps"
  by (induction d arbitrary: v, simp_all) (induction ps arbitrary: v, auto)+

subsection \<open>Length of a list in the heap\<close>

fun cdrs :: "lisp \<Rightarrow> i24 \<Rightarrow> nat \<Rightarrow> i24 list" where
  "cdrs s v 0 = []"
| "cdrs s v (Suc k) = v # cdrs s (heap_cdr s (cell_of v)) k"

fun chain :: "lisp \<Rightarrow> i24 \<Rightarrow> nat \<Rightarrow> bool" where
  "chain s v 0 \<longleftrightarrow> v = NIL_VAL"
| "chain s v (Suc k) \<longleftrightarrow> IS_CONS v \<and> cell_of v < HEAP_SIZE \<and> chain s (heap_cdr s (cell_of v)) k"

lemma src_chain_unique: "chain s v m \<Longrightarrow> chain s v n \<Longrightarrow> m = n"
proof (induction m arbitrary: v n)
  case 0
  then show ?case by (cases n) auto
next
  case (Suc m)
  then show ?case by (cases n) auto
qed

lemma chain_suffix: "chain s v n \<Longrightarrow> w \<in> set (cdrs s v n) \<Longrightarrow> \<exists>m\<le>n. 0 < m \<and> chain s w m"
proof (induction n arbitrary: v)
  case (Suc n)
  show ?case
  proof (cases "w = v")
    case True
    with Suc.prems show ?thesis by (intro exI [of _ "Suc n"]) simp
  next
    case False
    with Suc.prems Suc.IH [of "heap_cdr s (cell_of v)"] show ?thesis by (auto intro: le_SucI)
  qed
qed simp

lemma chain_distinct:
  "chain s v n \<Longrightarrow> distinct (map cell_of (cdrs s v n)) \<and> cell_of ` set (cdrs s v n) \<subseteq> {..<HEAP_SIZE} \<and>
     length (cdrs s v n) = n \<and> (\<forall>w\<in>set (cdrs s v n). IS_CONS w)"
proof (induction n arbitrary: v)
  case (Suc n)
  let ?d = "heap_cdr s (cell_of v)"
  from Suc have i: "distinct (map cell_of (cdrs s ?d n))" "\<forall>w\<in>set (cdrs s ?d n). IS_CONS w" and c: "chain s ?d n" "IS_CONS v"
    by auto
  have "cell_of v \<noteq> cell_of w" if w: "w \<in> set (cdrs s ?d n)" for w
  proof
    assume "cell_of v = cell_of w"
    with i(2) w c(2) have "v = w" by (auto intro: cons_inj)
    with chain_suffix [OF c(1) w] src_chain_unique [OF Suc.prems] show False by fastforce
  qed
  with Suc show ?case by auto
qed simp

lemma chain_length: "chain s v n \<Longrightarrow> n \<le> HEAP_SIZE"
proof -
  assume c: "chain s v n"
  let ?c = "map cell_of (cdrs s v n)"
  from chain_distinct [OF c] have d: "distinct ?c" "set ?c \<subseteq> {..<HEAP_SIZE}" "length ?c = n" by auto
  from card_mono [OF _ d(2)] distinct_card [OF d(1)] d(3) show ?thesis by simp
qed

lemma src_chain: "src ns s v (lst ds) \<Longrightarrow> names ns \<Longrightarrow> chain s v (length ds)"
  by (induction ds arbitrary: v) (auto simp: nil_def dest: symbol_of_nil)

lemma env_chain: "env_at ns s v ps \<Longrightarrow> chain s v (length ps)"
  by (induction ps arbitrary: v) auto

section \<open>Representation\<close>

text \<open>The fuel a form takes, without the bodies of its functions.\<close>

fun dsize :: "datum \<Rightarrow> nat" where
  "dsize (Pair a d) = Suc (dsize a + dsize d)"
| "dsize d = 1"

fun work :: "exp \<Rightarrow> nat" where
  "work (EQuote d) = Suc (dsize d)"
| "work (EIf a b c) = Suc (work a + work b + work c)"
| "work (EIf1 a b) = Suc (work a + work b)"
| "work (EBegin es) = Suc (Suc (sum_list (map (\<lambda>e. Suc (work e)) es)))"
| "work (EDef x e) = Suc (work e)"
| "work (EFun ps e) = Suc (work e)"
| "work (EOp1 p a ds) = Suc (work a)"
| "work (EOp2 p a b ds) = Suc (work a + work b)"
| "work (ECall f es) = Suc (Suc (work f + sum_list (map (\<lambda>e. Suc (work e)) es)))"
| "work e = 1"

definition ready :: "string list \<Rightarrow> compiler \<Rightarrow> lisp \<Rightarrow> bool" where
  "ready ns c s \<longleftrightarrow> names ns \<and> specials_ok ns s \<and> (\<forall>(p, name)\<in>set cp_names. symbol_of ns name (cp_sym c p)) \<and>
     (gc_enabled s \<longrightarrow> sint (free_list s) < 0)"

definition fun_at :: "string list \<Rightarrow> nat \<Rightarrow> lisp \<Rightarrow> compiler \<Rightarrow> nat \<Rightarrow> nat \<times> exp \<times> penv \<Rightarrow> bool" where
  "fun_at ns K s c i f \<longleftrightarrow> (case f of (l, e, env) \<Rightarrow> cf_lbl c i = of_nat l \<and> src ns s (cf_body c i) (form e) \<and> wf_exp e \<and>
     work e < K \<and> env_at ns s (cf_env c i) env)"

definition rep :: "string list \<Rightarrow> nat \<Rightarrow> compiler \<Rightarrow> lisp \<Rightarrow> gst \<Rightarrow> bool" where
  "rep ns K c s g \<longleftrightarrow> ready ns c s \<and> clbl c = of_nat (labels g) \<and>
     cg_n c = of_nat (length (globs g)) \<and> length (globs g) \<le> CGMAX \<and>
     (\<forall>i<length (globs g). cg_sym c i = MAKE_SYMBOL (of_nat (globs g ! i)) \<and> globs g ! i < length ns) \<and>
     cf_n c = of_nat (length (funs g)) \<and> length (funs g) \<le> CFMAX \<and>
     (\<forall>i<length (funs g). fun_at ns K s c i (funs g ! i)) \<and>
     heap_next s = of_nat (cells g) \<and> cells g \<le> HEAP_SIZE"

lemma rep_says [simp]: "rep ns K c (says t s) g = rep ns K c s g"
  by (simp add: rep_def ready_def fun_at_def specials_ok_def)

lemma rep_stack [simp]: "rep ns K c (s\<lparr>c_stack := k\<rparr>) g = rep ns K c s g"
  by (simp add: rep_def ready_def fun_at_def specials_ok_def)

lemma rep_room: "rep ns K c s g \<Longrightarrow> unat (heap_next s) \<le> HEAP_SIZE \<and> unat (heap_next s) = cells g"
  by (auto simp: rep_def HEAP_SIZE_def)

section \<open>Operations and steps of the code generator\<close>

definition tr :: "string list \<Rightarrow> nat \<Rightarrow> 'a cact \<Rightarrow> compiler \<Rightarrow> lisp \<Rightarrow> 'b gres \<Rightarrow> ('a \<Rightarrow> 'b \<Rightarrow> lisp \<Rightarrow> bool) \<Rightarrow> bool" where
  "tr ns K m c s r R \<longleftrightarrow> (case r of
       Ok ls b g' \<Rightarrow> \<exists>a c' s'. m c s = Done (a, c') s' \<and> uart_out s' = uart_out s @ code_text ls \<and> later s s' \<and>
         cf_done c' = cf_done c \<and> rep ns K c' s' g' \<and> R a b s'
     | Table \<Rightarrow> m c s = Wild
     | Full \<Rightarrow> True)"

lemma tr_bnd:
  assumes "tr ns K m c s (p g) R"
    and "\<And>a b c' s' g'. later s s' \<Longrightarrow> rep ns K c' s' g' \<Longrightarrow> R a b s' \<Longrightarrow> tr ns K (k a) c' s' (q b g') R'"
  shows "tr ns K (cbnd m k) c s (gbnd p q g) R'"
proof (cases "p g")
  case (Ok ls b g1)
  with assms(1) obtain a c1 s1 where m: "m c s = Done (a, c1) s1" "uart_out s1 = uart_out s @ code_text ls" "later s s1"
    "cf_done c1 = cf_done c" "rep ns K c1 s1 g1" "R a b s1" by (auto simp: tr_def)
  from assms(2) [OF m(3,5,6)] m(1,2,4) Ok show ?thesis
    by (auto simp: tr_def cbnd_def gbnd_def bnd_def intro: later_trans [OF m(3)] split: gres.splits)
qed (use assms(1) in \<open>auto simp: tr_def cbnd_def gbnd_def bnd_def\<close>)

lemma tr_seq:
  assumes "tr ns K m c s (p g) (\<lambda>_ _ _. True)"
    and "\<And>a b c' s' g'. later s s' \<Longrightarrow> rep ns K c' s' g' \<Longrightarrow> tr ns K (k a) c' s' (q b g') R"
  shows "tr ns K (cbnd m k) c s (gbnd p q g) R"
  using assms by (rule tr_bnd)

text \<open>Reading the heap.\<close>

lemma tr_cong: "m c s = m' c s \<Longrightarrow> tr ns K m c s r R = tr ns K m' c s r R"
  by (cases r) (simp_all add: tr_def)

lemma tr_read: "m s = Done a s \<Longrightarrow> tr ns K (cbnd (rt m) k) c s r R = tr ns K (k a) c s r R"
  by (rule tr_cong) (simp add: cbnd_def rt_def bnd_def)

lemma tr_get [simp]: "tr ns K (cbnd (cget f) k) c s r R = tr ns K (k (f c)) c s r R"
  by (rule tr_cong) (simp add: cbnd_def cget_def bnd_def)

lemma tr_reads [simp]:
  "tr ns K (cbnd (rt (get f)) k) c s r R = tr ns K (k (f s)) c s r R"
  "tr ns K (cbnd (rt (ret b)) k) c s r R = tr ns K (k b) c s r R"
  "tr ns K (cbnd (cret b) k) c s r R = tr ns K (k b) c s r R"
  "cell_of v < HEAP_SIZE \<Longrightarrow> tr ns K (cbnd (rt (car v)) l) c s r R = tr ns K (l (heap_car s (cell_of v))) c s r R"
  "cell_of v < HEAP_SIZE \<Longrightarrow> tr ns K (cbnd (rt (cdr v)) l) c s r R = tr ns K (l (heap_cdr s (cell_of v))) c s r R"
  "cell_of v < HEAP_SIZE \<Longrightarrow> tr ns K (cbnd (rt (bnd (car v) f')) l) c s r R = tr ns K (cbnd (rt (f' (heap_car s (cell_of v)))) l) c s r R"
  "cell_of v < HEAP_SIZE \<Longrightarrow> tr ns K (cbnd (rt (bnd (cdr v) f')) l) c s r R = tr ns K (cbnd (rt (f' (heap_cdr s (cell_of v)))) l) c s r R"
  by (rule tr_cong, simp add: cbnd_def rt_def bnd_def car_eq cdr_eq cret_def)+

lemma tr_ret: "rep ns K c s g \<Longrightarrow> R a b s \<Longrightarrow> tr ns K (cret a) c s (gret b g) R"
  using rep_room [of ns K c s g] by (simp add: tr_def cret_def gret_def later_refl)

text \<open>Writing lines.\<close>

lemma tr_emit: "m s = Done () (says (code_text ls) s) \<Longrightarrow> rep ns K c s g \<Longrightarrow> tr ns K (rt m) c s (emit ls g) (\<lambda>_ _ _. True)"
  using rep_room [of ns K c s g] by (simp add: tr_def rt_def emit_def bnd_def later_refl)

text \<open>Locals on the stack.\<close>

lemma tr_hold:
  assumes "tr ns K m c (s\<lparr>c_stack := vs @ c_stack s\<rparr>) r (\<lambda>a b s'. R a b (s'\<lparr>c_stack := c_stack s\<rparr>))"
  shows "tr ns K (chold vs m) c s r R"
proof (cases r)
  case (Ok ls b g')
  with assms obtain a c' s' where "m c (s\<lparr>c_stack := vs @ c_stack s\<rparr>) = Done (a, c') s'" "uart_out s' = uart_out s @ code_text ls"
    "later (s\<lparr>c_stack := vs @ c_stack s\<rparr>) s'" "cf_done c' = cf_done c" "rep ns K c' s' g'" "R a b (s'\<lparr>c_stack := c_stack s\<rparr>)"
    by (auto simp: tr_def)
  with Ok show ?thesis by (auto simp: tr_def chold_def hold_def bnd_def later_def)
qed (use assms in \<open>auto simp: tr_def chold_def hold_def bnd_def\<close>)

section \<open>Labels, globals, functions\<close>

lemma fun_at_cong:
  "cf_lbl c' i = cf_lbl c i \<Longrightarrow> cf_body c' i = cf_body c i \<Longrightarrow> cf_env c' i = cf_env c i \<Longrightarrow>
   fun_at ns K s c' i f = fun_at ns K s c i f"
  by (simp add: fun_at_def)

lemma tr_clnew: "rep ns K c s g \<Longrightarrow> tr ns K clnew c s (glabel g) (\<lambda>a b s'. a = of_nat b)"
  using rep_room [of ns K c s g]
  by (simp add: tr_def clnew_def cbnd_def cget_def cupd_def cret_def bnd_def glabel_def later_refl rep_def ready_def fun_at_def)

lemma cg_find_spec:
  "i + r \<le> CGMAX \<Longrightarrow> cg_find r i v c s = Done (v \<in> cg_sym c ` {i..<i + r}, c) s"
proof (induction r arbitrary: i)
  case (Suc r)
  then have "cg_find r (Suc i) v c s = Done (v \<in> cg_sym c ` {Suc i..<i + Suc r}, c) s" by simp
  moreover have "{i..<i + Suc r} = insert i {Suc i..<i + Suc r}" by auto
  ultimately show ?case
    using Suc.prems by (auto simp: cbnd_def peek_cg_def cret_def bnd_def)
qed (simp add: cret_def)

lemma tr_cg_add:
  assumes r: "rep ns K c s g" and i: "i < length ns"
  shows "tr ns K (cg_add (MAKE_SYMBOL (of_nat i))) c s (gglob i g) (\<lambda>_ _ _. True)"
proof -
  let ?n = "length (globs g)" and ?v = "MAKE_SYMBOL (of_nat i)"
  have le: "?n \<le> 64" "length ns \<le> 512" using r by (auto simp: rep_def ready_def names_def CGMAX_def MAX_SYMBOLS_def)
  have n: "cg_n c = of_nat ?n" "nat (sint (cg_n c)) = ?n" "unat (cg_n c) = ?n"
    using r le by (auto simp: rep_def sint_of_nat_small)
  have m: "?v \<in> cg_sym c ` {0..<?n} \<longleftrightarrow> i \<in> set (globs g)"
  proof
    assume "?v \<in> cg_sym c ` {0..<?n}"
    then obtain j where j: "j < ?n" "?v = cg_sym c j" by auto
    with r have "?v = MAKE_SYMBOL (of_nat (globs g ! j))" "globs g ! j < length ns" by (auto simp: rep_def)
    with i le(2) make_symbol_inj [of i "globs g ! j"] j(1) show "i \<in> set (globs g)" by simp
  next
    assume "i \<in> set (globs g)"
    then obtain j where "j < ?n" "i = globs g ! j" by (auto simp: in_set_conv_nth)
    with r show "?v \<in> cg_sym c ` {0..<?n}" by (auto simp: rep_def intro!: image_eqI [of _ _ j])
  qed
  have f: "cg_find ?n 0 ?v c s = Done (i \<in> set (globs g), c) s"
    using cg_find_spec [of 0 ?n ?v c s] le m by (simp add: CGMAX_def)
  show ?thesis
  proof (cases "i \<in> set (globs g)")
    case True
    with r f n rep_room [OF r] show ?thesis
      by (simp add: tr_def cg_add_def cbnd_def cget_def cret_def bnd_def gglob_def later_refl)
  next
    case False
    show ?thesis
    proof (cases "?n < CGMAX")
      case True
      have "rep ns K (c\<lparr>cg_sym := (cg_sym c)(?n := ?v), cg_n := of_nat (Suc ?n)\<rparr>) s (g\<lparr>globs := globs g @ [i]\<rparr>)"
        using r True i by (auto simp: rep_def ready_def fun_at_def nth_append less_Suc_eq)
      with True False r f n rep_room [OF r] show ?thesis
        by (simp add: tr_def cg_add_def cbnd_def cget_def cret_def bnd_def gglob_def later_refl add.commute)
    next
      case False
      with \<open>i \<notin> set (globs g)\<close> f n show ?thesis
        by (simp add: tr_def cg_add_def cbnd_def cget_def bnd_def gglob_def)
    qed
  qed
qed

lemma tr_defer:
  assumes r: "rep ns K c s g" and f: "src ns s fb (form e)" "wf_exp e" "work e < K" "env_at ns s fe env"
  shows "tr ns K (defer_fn (of_nat l) fb fe) c s (gdefer (l, e, env) g) (\<lambda>_ _ _. True)"
proof -
  let ?n = "length (funs g)"
  have n: "cf_n c = of_nat ?n" "unat (cf_n c) = ?n" using r by (auto simp: rep_def CFMAX_def)
  have "rep ns K (c\<lparr>cf_lbl := (cf_lbl c)(?n := of_nat l), cf_body := (cf_body c)(?n := fb), cf_env := (cf_env c)(?n := fe),
      cf_n := of_nat (Suc ?n)\<rparr>) s (g\<lparr>funs := funs g @ [(l, e, env)]\<rparr>)" if "?n < CFMAX"
    using r f that by (auto simp: rep_def ready_def fun_at_def nth_append less_Suc_eq)
  with n rep_room [OF r] show ?thesis
    by (simp add: tr_def defer_fn_def gdefer_def later_refl add.commute)
qed

section \<open>Writing\<close>

lemma ce_says [simp]:
  "ce t s = Done () (says (ins t) s)"
  "ce_ld l' s = Done () (says (''_CL'' @ int_text l' @ [CHR '':'', CHR 0x0A]) s)"
  "ce_lr l' s = Done () (says (''_CL'' @ int_text l') s)"
  "ce_gr v s = Done () (says (''_G'' @ int_text (PTR_IDX v)) s)"
  "ce_li w s = Done () (says (line_text (Li R0 w)) s)"
  "ce_li1 w s = Done () (says (line_text (Li R1 w)) s)"
  by (simp_all add: ce_def ins_def ce_ld_def ce_lr_def ce_gr_def ce_li_def ce_li1_def short_imm_def bnd_def)

lemma ce_to_says [simp]:
  "ce_to t l s = Done () (says (t @ ''_CL'' @ int_text l @ [CHR 0x0A]) s)"
  "ce_glob t v s = Done () (says (t @ ''_G'' @ int_text (PTR_IDX v) @ [CHR 0x0A]) s)"
  by (simp_all add: ce_to_def ce_glob_def bnd_def)

lemma ce_call_says [simp]:
  "ce_call name t s = Done () (says (line_text (LaName name) @ line_text Call @ ins t) s)"
  by (simp add: ce_call_def ins_def bnd_def)

lemma bnd_ce [simp]:
  "bnd (ce t) k s = k () (says (ins t) s)"
  "bnd (ce_ld l') k s = k () (says (''_CL'' @ int_text l' @ [CHR '':'', CHR 0x0A]) s)"
  "bnd (ce_lr l') k s = k () (says (''_CL'' @ int_text l') s)"
  "bnd (ce_gr v) k s = k () (says (''_G'' @ int_text (PTR_IDX v)) s)"
  "bnd (ce_li w) k s = k () (says (line_text (Li R0 w)) s)"
  "bnd (ce_li1 w) k s = k () (says (line_text (Li R1 w)) s)"
  "bnd (ce_to t l) k s = k () (says (t @ ''_CL'' @ int_text l @ [CHR 0x0A]) s)"
  "bnd (ce_glob t v) k s = k () (says (t @ ''_G'' @ int_text (PTR_IDX v) @ [CHR 0x0A]) s)"
  "bnd (ce_call name t) k s = k () (says (line_text (LaName name) @ line_text Call @ ins t) s)"
  by (simp_all add: bnd_def)

lemmas texts = ins_def label_text_def glob_text_def

lemma int_text_digits: "int_text 3 = ''3''" "int_text 6 = ''6''"
  by (simp_all add: int_text_def digits_rev.simps sint_small) (code_simp+)

lemma cquote_says:
  "src ns s v d \<Longrightarrow> names ns \<Longrightarrow> dsize d \<le> k \<Longrightarrow>
    cquote k v s = Done () (says (code_text (quote_code (index_of ns) d)) s)"
proof (induction d arbitrary: v k s)
  case (Num n)
  then show ?case by (cases k) simp_all
next
  case (Sym x)
  then show ?case using symbol_tag [of ns x v] by (cases k) (auto simp: symbol_index)
next
  case (Str t)
  then show ?case using tag_exclusive(3) [of v] by (cases k) auto
next
  case (Pair a d)
  from Pair.prems obtain j where k: "k = Suc j" "dsize a \<le> j" "dsize d \<le> j" by (cases k) auto
  from Pair.prems(1) have v: "IS_CONS v" "\<not> IS_FIXNUM v" "\<not> IS_SYMBOL v" "cell_of v < HEAP_SIZE"
    "src ns s (heap_car s (cell_of v)) a" "src ns s (heap_cdr s (cell_of v)) d"
    using tag_exclusive(1) [of v] by auto
  have "cquote j (heap_cdr s (cell_of v)) s = Done () (says (code_text (quote_code (index_of ns) d)) s)"
    by (rule Pair.IH(2) [OF v(6) Pair.prems(2) k(3)])
  moreover have "cquote j (heap_car s (cell_of v)) (says t s) =
      Done () (says (t @ code_text (quote_code (index_of ns) a)) s)" for t
    using Pair.IH(1) [of "says t s", OF _ Pair.prems(2) k(2)] v(5) by simp
  ultimately show ?case
    using v k(1) by (simp add: car_eq cdr_eq bnd_def call_code_def int_text_digits ins_def)
qed

section \<open>Lists and environments\<close>

lemma cons_tags: "IS_CONS v \<Longrightarrow> \<not> IS_NIL v \<and> \<not> IS_FIXNUM v \<and> \<not> IS_SYMBOL v \<and> v \<noteq> T_VAL"
  using tag_exclusive(1) [of v] by (auto simp: IS_NIL_def)

lemma clen_loop_chain: "chain s v n \<Longrightarrow> n < k \<Longrightarrow> clen_loop k m v s = Done (m + of_nat n) s"
proof (induction n arbitrary: v k m)
  case 0
  then show ?case by (cases k) auto
next
  case (Suc n)
  then obtain j where k: "k = Suc j" "n < j" by (cases k) auto
  from Suc.prems have v: "IS_CONS v" "cell_of v < HEAP_SIZE" "chain s (heap_cdr s (cell_of v)) n" by auto
  from Suc.IH [OF v(3) k(2), of "m + 1"] v(2) cons_tags [OF v(1)] k(1) show ?case
    by (simp add: bnd_def cdr_eq algebra_simps)
qed

lemma clen_chain: "chain s v n \<Longrightarrow> clen v s = Done (of_nat n) s"
  using clen_loop_chain [of s v n walk_fuel 0] chain_length [of s v n] by (simp add: clen_def walk_fuel_def)

lemma offset_facts:
  assumes "off < 1048576"
  shows "FIXNUM_VAL (MAKE_FIXNUM (of_nat off)) = of_nat off" "(of_nat off :: i24) \<noteq> -9999"
proof -
  have "sint (of_nat off :: i24) = int off" using assms by (intro sint_of_nat_small) simp
  then show "FIXNUM_VAL (MAKE_FIXNUM (of_nat off)) = of_nat off" "(of_nat off :: i24) \<noteq> -9999"
    using assms by (auto intro!: fixnum_round_trip)
qed

definition offset :: "penv \<Rightarrow> string \<Rightarrow> i24" where
  "offset ps x = (case map_of ps x of None \<Rightarrow> -9999 | Some off \<Rightarrow> of_nat off)"

lemma cenv_loop_at:
  "env_at ns s v ps \<Longrightarrow> names ns \<Longrightarrow> symbol_of ns x w \<Longrightarrow> length ps < k \<Longrightarrow> cenv_loop k w v s = Done (offset ps x) s"
proof (induction ps arbitrary: v k)
  case Nil
  then show ?case by (cases k) (auto simp: offset_def)
next
  case (Cons p ps)
  obtain y off where p: "p = (y, off)" by (cases p)
  from Cons.prems(4) obtain j where k: "k = Suc j" "length ps < j" by (cases k) auto
  let ?b = "heap_car s (cell_of v)"
  from Cons.prems(1) p have v: "IS_CONS v" "cell_of v < HEAP_SIZE" "IS_CONS ?b" "cell_of ?b < HEAP_SIZE"
    "symbol_of ns y (heap_car s (cell_of ?b))" "off < 1048576" "heap_cdr s (cell_of ?b) = MAKE_FIXNUM (of_nat off)"
    "env_at ns s (heap_cdr s (cell_of v)) ps" by auto
  from v cons_tags [OF v(1)] Cons.IH [OF v(8) Cons.prems(2,3) k(2)] offset_facts(1) [OF v(6)]
    symbol_same [OF Cons.prems(2) v(5) Cons.prems(3)] k(1) p show ?case
    by (simp add: bnd_def car_eq cdr_eq offset_def)
qed

lemma cenv_get_at: "env_at ns s v ps \<Longrightarrow> names ns \<Longrightarrow> symbol_of ns x w \<Longrightarrow> cenv_get w v s = Done (offset ps x) s"
  using cenv_loop_at [of ns s v ps x w walk_fuel] chain_length [OF env_chain, of ns s v ps]
  by (simp add: cenv_get_def walk_fuel_def)

lemma env_small: "env_at ns s v ps \<Longrightarrow> map_of ps x = Some off \<Longrightarrow> off < 1048576"
  by (induction ps arbitrary: v) (auto split: if_splits)

lemma rep_names: "rep ns K c s g \<Longrightarrow> names ns \<and> length ns < 2097152"
  by (auto simp: rep_def ready_def names_def MAX_SYMBOLS_def)

lemma tr_symbol:
  assumes r: "rep ns K c s g" and x: "symbol_of ns x w" and e: "env_at ns s v env"
  shows "tr ns K (c_symbol w v) c s (gvar (index_of ns) env x g) (\<lambda>_ _ _. True)"
proof -
  from rep_names [OF r] have n: "names ns" by simp
  with x have w: "w = MAKE_SYMBOL (of_nat (index_of ns x))" "index_of ns x < length ns" by (auto simp: symbol_index)
  have "tr ns K (if offset env x \<noteq> -9999
      then rt (bnd (puts_str ''        lw      r0,'') (\<lambda>_. bnd (print_int (offset env x)) (\<lambda>_. puts_str ''(fp)\<newline>'')))
      else cbnd (cg_add w) (\<lambda>_. rt (bnd (ce_glob ''        la      r1,'' w) (\<lambda>_. ce ''lw      r0,0(r1)''))))
      c s (gvar (index_of ns) env x g) (\<lambda>_ _ _. True)"
  proof (cases "map_of env x")
    case None
    with r w rep_names [OF r] show ?thesis
      by (auto simp: gvar_def offset_def texts intro!: tr_seq tr_cg_add tr_emit)
  next
    case (Some off)
    with r offset_facts(2) [OF env_small [OF e Some]] show ?thesis
      by (auto simp: gvar_def offset_def ins_def intro!: tr_emit)
  qed
  then show ?thesis
    unfolding c_symbol_def by (subst tr_read [of "cenv_get w v" s "offset env x"]) (simp_all add: cenv_get_at [OF e n x])
qed

section \<open>Parameters\<close>

lemma cons_room:
  assumes "gc_enabled s \<longrightarrow> sint (free_list s) < 0" and "heap_next s = of_nat n" and "n < HEAP_SIZE"
  shows "cons a d s = Done (MAKE_CONS (of_nat n)) (s\<lparr>heap_next := of_nat (Suc n),
     heap_car := (heap_car s)(n := a), heap_cdr := (heap_cdr s)(n := d)\<rparr>)"
proof -
  have "unat (of_nat n :: i24) = n" "sint (of_nat n :: i24) = int n"
    using assms(3) by (simp_all add: HEAP_SIZE_def sint_of_nat_small)
  with assms show ?thesis
    by (cases "gc_enabled s") (simp_all add: not_le cons_def hold_def alloc_cell_def gc_alloc_cell_def bump_def poke_car_def poke_cdr_def bnd_def HEAP_SIZE_def)
qed

text \<open>One more binding: two cells.\<close>

definition bound :: "i24 \<Rightarrow> i24 \<Rightarrow> i24 \<Rightarrow> nat \<Rightarrow> lisp \<Rightarrow> lisp" where
  "bound x off env n s = s\<lparr>heap_next := of_nat (Suc (Suc n)),
     heap_car := (heap_car s)(n := x, Suc n := MAKE_CONS (of_nat n)),
     heap_cdr := (heap_cdr s)(n := MAKE_FIXNUM off, Suc n := env)\<rparr>"

lemma cenv_put_room:
  assumes "gc_enabled s \<longrightarrow> sint (free_list s) < 0" and "heap_next s = of_nat n" and "Suc n < HEAP_SIZE"
  shows "hold ws (cenv_put x off env) s = Done (MAKE_CONS (of_nat (Suc n))) (bound x off env n s)"
  using assms by (simp add: cenv_put_def bound_def hold_def bnd_def cons_room [where n = n] cons_room [where n = "Suc n"]
    del: of_nat_Suc)

lemma bound_later:
  assumes "heap_next s = of_nat n" and "Suc n < HEAP_SIZE"
  shows "later s (bound x off env n s)"
  using assms by (simp add: later_def bound_def HEAP_SIZE_def del: of_nat_Suc)

lemma rep_later:
  assumes "rep ns K c s g" and "later s s'" and "heap_next s' = of_nat n" and "n \<le> HEAP_SIZE"
  shows "rep ns K c s' (g\<lparr>cells := n\<rparr>)"
  using assms unfolding rep_def ready_def fun_at_def specials_ok_def
  by (auto simp: later_def intro!: src_later [OF _ assms(2)] env_later [OF _ assms(2)])

lemma bound_env:
  assumes "heap_next s = of_nat n" and "Suc n < HEAP_SIZE" and "symbol_of ns q x" and "off < 1048576" and "env_at ns s env ps"
  shows "env_at ns (bound x (of_nat off) env n s) (MAKE_CONS (of_nat (Suc n))) ((q, off) # ps)"
proof -
  have "env_at ns (bound x (of_nat off) env n s) env ps"
    using assms(5) bound_later [OF assms(1,2)] by (rule env_later)
  then show ?thesis
    using assms by (simp add: bound_def HEAP_SIZE_def del: of_nat_Suc)
qed

lemma zip_offsets:
  "zip (q # qs) (map (\<lambda>i. off + 3 * i) [0..<Suc (length qs)]) = (q, off) # zip qs (map (\<lambda>i. (off + 3) + 3 * i) [0..<length qs])"
  by (simp add: map_upt_Suc del: upt_Suc) (simp add: add.assoc)

lemma params_room:
  assumes "src ns s p (lst (map Sym qs))" and "env_at ns s env ps" and "names ns"
    and "gc_enabled s \<longrightarrow> sint (free_list s) < 0" and "heap_next s = of_nat n" and "n + 2 * length qs \<le> HEAP_SIZE"
    and "length qs < k" and "off + 3 * length qs < 1048576"
  shows "\<exists>v s'. params_loop k params env p (of_nat off) s = Done v s' \<and> later s s' \<and>
    heap_next s' = of_nat (n + 2 * length qs) \<and> uart_out s' = uart_out s \<and>
    env_at ns s' v (rev (zip qs (map (\<lambda>i. off + 3 * i) [0..<length qs])) @ ps)"
  using assms
proof (induction qs arbitrary: p env ps s n k off)
  case Nil
  then obtain j where "k = Suc j" by (cases k) auto
  with Nil have "IS_NIL p" by (auto simp: nil_def IS_NIL_def dest: symbol_of_nil)
  with Nil \<open>k = Suc j\<close> show ?case by (auto intro!: later_refl simp: HEAP_SIZE_def)
next
  case (Cons q qs)
  from Cons.prems(7) obtain j where k: "k = Suc j" "length qs < j" by (cases k) auto
  from Cons.prems(1) have p: "IS_CONS p" "cell_of p < HEAP_SIZE" "cell_of p < unat (heap_next s)"
    "symbol_of ns q (heap_car s (cell_of p))" "src ns s (heap_cdr s (cell_of p)) (lst (map Sym qs))" by auto
  let ?x = "heap_car s (cell_of p)"
  let ?s = "bound ?x (of_nat off) env n s" and ?e = "MAKE_CONS (of_nat (Suc n))"
  have room: "Suc n < HEAP_SIZE" using Cons.prems(6) by simp
  have l: "later s ?s" by (rule bound_later [OF Cons.prems(5) room])
  have d: "cdr p ?s = Done (heap_cdr s (cell_of p)) ?s"
    using l p(2,3) by (simp add: later_def cdr_eq)
  have e: "env_at ns ?s ?e ((q, off) # ps)"
    using Cons.prems(8) by (intro bound_env [OF Cons.prems(5) room p(4) _ Cons.prems(2)]) simp
  have gc: "gc_enabled ?s \<longrightarrow> sint (free_list ?s) < 0" using Cons.prems(4) by (simp add: bound_def)
  have hn: "heap_next ?s = of_nat (Suc (Suc n))" and out: "uart_out ?s = uart_out s" by (simp_all add: bound_def)
  have fits: "Suc (Suc n) + 2 * length qs \<le> HEAP_SIZE" "off + 3 + 3 * length qs < 1048576" using Cons.prems(6,8) by simp_all
  from Cons.IH [OF src_later [OF p(5) l] e Cons.prems(3) gc hn fits(1) k(2) fits(2)]
  obtain v s' where r: "params_loop j params ?e (heap_cdr s (cell_of p)) (of_nat (off + 3)) ?s = Done v s'" "later ?s s'"
    "heap_next s' = of_nat (Suc (Suc n) + 2 * length qs)" "uart_out s' = uart_out s"
    "env_at ns s' v (rev (zip qs (map (\<lambda>i. off + 3 + 3 * i) [0..<length qs])) @ (q, off) # ps)" using out by metis
  have "params_loop k params env p (of_nat off) s = Done v s'"
    using k(1) cons_tags [OF p(1)] p(2) d r(1)
    by (simp add: bnd_def car_eq cenv_put_room [OF Cons.prems(4,5) room] add.commute)
  moreover have "Suc (Suc n) + 2 * length qs = n + 2 * length (q # qs)" by simp
  ultimately show ?case
    using r later_trans [OF l r(2)] zip_offsets [of q qs off] by (simp only: list.size rev.simps append_assoc append_Cons append_Nil) auto
qed

lemma tr_params:
  assumes r: "rep ns K c s g" and p: "src ns s p (lst (map Sym qs))"
  shows "tr ns K (rt (cenv_params p)) c s (gcells (2 * length qs) g) (\<lambda>v _ s'. env_at ns s' v (param_env qs))"
proof (cases "cells g + 2 * length qs \<le> HEAP_SIZE")
  case True
  have w: "length qs < walk_fuel" using True by (simp add: walk_fuel_def)
  have o: "9 + 3 * length qs < 1048576" using True by (simp add: HEAP_SIZE_def)
  have f: "names ns" "gc_enabled s \<longrightarrow> sint (free_list s) < 0" "heap_next s = of_nat (cells g)"
    using r by (simp_all add: rep_def ready_def)
  have e: "env_at ns s NIL_VAL []" by simp
  from params_room [OF p e f True w o, where params = p] obtain v s' where
    v: "cenv_params p s = Done v s'" "later s s'" "heap_next s' = of_nat (cells g + 2 * length qs)" "uart_out s' = uart_out s"
      "env_at ns s' v (param_env qs)"
    by (auto simp: cenv_params_def param_env_def)
  with rep_later [OF r v(2,3) True] True show ?thesis
    by (simp add: tr_def rt_def bnd_def gcells_def)
qed (simp add: tr_def gcells_def)

section \<open>Forms\<close>

lemma cbnd_assoc: "cbnd (cbnd m k) l = cbnd m (\<lambda>a. cbnd (k a) l)"
  by (auto simp: cbnd_def fun_eq_iff bnd_assoc intro!: arg_cong [where f = "\<lambda>h. bnd _ h _"])

lemma gbnd_assoc: "gbnd (gbnd m k) l = gbnd m (\<lambda>a. gbnd (k a) l)"
  by (auto simp: gbnd_def fun_eq_iff split: gres.splits)

lemma gbnd_ret [simp]: "gbnd (gret a) k = k a" "gbnd (emit ls) (\<lambda>_. emit ms) = emit (ls @ ms)"
  by (auto simp: gbnd_def gret_def emit_def fun_eq_iff split: gres.splits)

text \<open>What the recursive call promises for an expression.\<close>

definition compiles :: "string list \<Rightarrow> nat \<Rightarrow> compile_fn \<Rightarrow> penv \<Rightarrow> exp \<Rightarrow> bool" where
  "compiles ns K cx env e \<longleftrightarrow> (\<forall>v w c s g. src ns s v (form e) \<longrightarrow> env_at ns s w env \<longrightarrow> rep ns K c s g \<longrightarrow>
     tr ns K (cx v w) c s (gexp (index_of ns) env e g) (\<lambda>_ _ _. True))"

text \<open>Steps from a state that is later than the one the source is known in.\<close>

lemma tr_step:
  assumes "later s0 s" and "tr ns K m c s (p g) R"
    and "\<And>a b c' s' g'. later s0 s' \<Longrightarrow> rep ns K c' s' g' \<Longrightarrow> R a b s' \<Longrightarrow> tr ns K (k a) c' s' (q b g') R'"
  shows "tr ns K (cbnd m k) c s (gbnd p q g) R'"
  by (rule tr_bnd, rule assms(2), rule assms(3)) (auto intro: later_trans [OF assms(1)])

lemma tr_expr:
  assumes "later s0 s" and "src ns s0 v (form e)" and "env_at ns s0 w env" and "compiles ns K cx env e" and "rep ns K c s g"
    and "\<And>c' s' g'. later s0 s' \<Longrightarrow> rep ns K c' s' g' \<Longrightarrow> tr ns K (k ()) c' s' (q () g') R'"
  shows "tr ns K (cbnd (chold fr (cx v w)) k) c s (gbnd (gexp (index_of ns) env e) q g) R'"
proof (rule tr_step [OF assms(1)])
  show "tr ns K (chold fr (cx v w)) c s (gexp (index_of ns) env e g) (\<lambda>_ _ _. True)"
    using assms(4,5) src_later [OF assms(2,1)] env_later [OF assms(3,1)] by (intro tr_hold) (simp add: compiles_def)
qed (use assms(6) in simp)

lemma tr_expr_last:
  assumes "later s0 s" and "src ns s0 v (form e)" and "env_at ns s0 w env" and "compiles ns K cx env e" and "rep ns K c s g"
  shows "tr ns K (chold fr (cx v w)) c s (gexp (index_of ns) env e g) (\<lambda>_ _ _. True)"
  using assms(4,5) src_later [OF assms(2,1)] env_later [OF assms(3,1)] by (intro tr_hold) (simp add: compiles_def)

lemma tr_lines:
  assumes "later s0 s" and "m s = Done () (says (code_text ls) s)" and "rep ns K c s g"
    and "\<And>c' s' g'. later s0 s' \<Longrightarrow> rep ns K c' s' g' \<Longrightarrow> tr ns K (k ()) c' s' (q () g') R'"
  shows "tr ns K (cbnd (rt m) k) c s (gbnd (emit ls) q g) R'"
  by (rule tr_step, rule assms(1), rule tr_emit, rule assms(2), rule assms(3)) (use assms(4) in simp)

lemma tr_label:
  assumes "later s0 s" and "rep ns K c s g"
    and "\<And>l c' s' g'. later s0 s' \<Longrightarrow> rep ns K c' s' g' \<Longrightarrow> tr ns K (k (of_nat l)) c' s' (q l g') R'"
  shows "tr ns K (cbnd clnew k) c s (gbnd glabel q g) R'"
  by (rule tr_step, rule assms(1), rule tr_clnew, rule assms(2)) (use assms(3) in simp)

lemma tr_car:
  assumes "later s0 s" and "cell_of v < unat (heap_next s0)"
  shows "tr ns K (k (heap_car s0 (cell_of v))) c s r R \<Longrightarrow> tr ns K (cbnd (rt (car v)) k) c s r R"
    "tr ns K (cbnd (rt (f (heap_car s0 (cell_of v)))) k) c s r R \<Longrightarrow> tr ns K (cbnd (rt (bnd (car v) f)) k) c s r R"
    "tr ns K (k (heap_cdr s0 (cell_of v))) c s r R \<Longrightarrow> tr ns K (cbnd (rt (cdr v)) k) c s r R"
    "tr ns K (cbnd (rt (f (heap_cdr s0 (cell_of v)))) k) c s r R \<Longrightarrow> tr ns K (cbnd (rt (bnd (cdr v) f)) k) c s r R"
  using assms by (simp_all add: later_def)

lemma if_says:
  "bnd (ce_li1 NIL_VAL) (\<lambda>_. bnd (ce ''ceq     r0,r1'') (\<lambda>_.
     bnd (ce_to ''        brf     '' (of_nat lt)) (\<lambda>_. bnd (ce_to ''        la      r2,'' (of_nat le)) (\<lambda>_.
     bnd (ce ''jmp     (r2)'') (\<lambda>_. ce_ld (of_nat lt)))))) s =
   Done () (says (code_text [Li R1 NIL_VAL, Alu ''ceq     r0,r1'', Brf lt, LaLabel R2 le, JmpR2, Label lt]) s)"
  "bnd (ce_to ''        la      r2,'' (of_nat lx)) (\<lambda>_. bnd (ce ''jmp     (r2)'') (\<lambda>_. ce_ld (of_nat le))) s =
   Done () (says (code_text [LaLabel R2 lx, JmpR2, Label le]) s)"
  "ce_ld (of_nat lx) s = Done () (says (code_text [Label lx]) s)"
  by (simp_all add: texts)

lemma tr_if:
  assumes a: "compiles ns K cx env a" and b: "compiles ns K cx env b" and d: "compiles ns K cx env d"
    and x: "src ns s args (lst [form a, form b, form d])" and w: "env_at ns s w env" and r: "rep ns K c s g"
  shows "tr ns K (c_if cx fr args w) c s (gexp (index_of ns) env (EIf a b d) g) (\<lambda>_ _ _. True)"
proof -
  let ?d = "heap_cdr s (cell_of args)"
  let ?dd = "heap_cdr s (cell_of ?d)"
  from x have args: "cell_of args < unat (heap_next s)" "cell_of ?d < unat (heap_next s)" "cell_of ?dd < unat (heap_next s)"
    "src ns s (heap_car s (cell_of args)) (form a)" "src ns s (heap_car s (cell_of ?d)) (form b)"
    "src ns s (heap_car s (cell_of ?dd)) (form d)" "\<not> IS_NIL ?dd" using cons_tags [of ?dd] by simp_all
  have l: "later s s" using rep_room [OF r] by (simp add: later_refl)
  show ?thesis
    unfolding c_if_def gexp.simps Let_def
    apply (rule tr_label [OF l r])
    apply (rule tr_label, assumption, assumption)
    apply (rule tr_label, assumption, assumption)
    apply (rule tr_car(1), assumption, rule args)
    apply (rule tr_expr, assumption, rule args, rule w, rule a, assumption)
    apply (rule tr_lines, assumption, rule if_says, assumption)
    apply (rule tr_car(4), assumption, rule args)
    apply (rule tr_car(1), assumption, rule args)
    apply (rule tr_expr, assumption, rule args, rule w, rule b, assumption)
    apply (rule tr_lines, assumption, rule if_says, assumption)
    apply (rule tr_car(4), assumption, rule args)
    apply (rule tr_car(3), assumption, rule args)
    apply (simp only: args if_False cbnd_assoc)
    apply (rule tr_car(1), assumption, rule args)
    apply (rule tr_expr, assumption, rule args, rule w, rule d, assumption)
    apply (rule tr_emit, rule if_says, assumption)
    done
qed

lemma tr_if1:
  assumes a: "compiles ns K cx env a" and b: "compiles ns K cx env b"
    and x: "src ns s args (lst [form a, form b])" and w: "env_at ns s w env" and r: "rep ns K c s g"
  shows "tr ns K (c_if cx fr args w) c s (gexp (index_of ns) env (EIf1 a b) g) (\<lambda>_ _ _. True)"
proof -
  let ?d = "heap_cdr s (cell_of args)"
  let ?dd = "heap_cdr s (cell_of ?d)"
  from x have args: "cell_of args < unat (heap_next s)" "cell_of ?d < unat (heap_next s)"
    "src ns s (heap_car s (cell_of args)) (form a)" "src ns s (heap_car s (cell_of ?d)) (form b)" by simp_all
  from x rep_names [OF r] have n: "IS_NIL ?dd" by (auto simp: nil_def IS_NIL_def dest: symbol_of_nil)
  have l: "later s s" using rep_room [OF r] by (simp add: later_refl)
  show ?thesis
    unfolding c_if_def gexp.simps Let_def
    apply (rule tr_label [OF l r])
    apply (rule tr_label, assumption, assumption)
    apply (rule tr_label, assumption, assumption)
    apply (rule tr_car(1), assumption, rule args)
    apply (rule tr_expr, assumption, rule args, rule w, rule a, assumption)
    apply (rule tr_lines, assumption, rule if_says, assumption)
    apply (rule tr_car(4), assumption, rule args)
    apply (rule tr_car(1), assumption, rule args)
    apply (rule tr_expr, assumption, rule args, rule w, rule b, assumption)
    apply (rule tr_lines, assumption, rule if_says, assumption)
    apply (rule tr_car(4), assumption, rule args)
    apply (rule tr_car(3), assumption, rule args)
    apply (simp only: n if_True)
    apply (rule tr_lines, assumption, simp, assumption)
    apply (rule tr_emit, rule if_says, assumption)
    done
qed

lemma tr_begin:
  "\<forall>e\<in>set es. compiles ns K cx env e \<Longrightarrow> length es < k \<Longrightarrow> src ns s args (lst (map form es)) \<Longrightarrow> env_at ns s w env \<Longrightarrow>
   rep ns K c s g \<Longrightarrow> tr ns K (c_begin k cx fr args w) c s (gseq (index_of ns) env es g) (\<lambda>_ _ _. True)"
proof (induction es arbitrary: k args c s g)
  case Nil
  then obtain j where "k = Suc j" by (cases k) auto
  moreover have "IS_NIL args"
    using Nil.prems(3) rep_names [OF Nil.prems(5)] by (auto simp: nil_def IS_NIL_def dest: symbol_of_nil)
  ultimately show ?case using Nil.prems(5) by (simp add: tr_ret)
next
  case (Cons e es)
  from Cons.prems(2) obtain j where k: "k = Suc j" "length es < j" by (cases k) auto
  from Cons.prems(3) have a: "IS_CONS args" "cell_of args < unat (heap_next s)" "src ns s (heap_car s (cell_of args)) (form e)"
    "src ns s (heap_cdr s (cell_of args)) (lst (map form es))" by auto
  have l: "later s s" using rep_room [OF Cons.prems(5)] by (simp add: later_refl)
  have e: "compiles ns K cx env e" using Cons.prems(1) by simp
  have n: "\<not> IS_NIL args" using cons_tags [OF a(1)] by simp
  show ?case
    unfolding k(1) c_begin.simps gseq.simps
    apply (simp only: n if_False)
    apply (rule tr_car(1), rule l, rule a)
    apply (rule tr_expr, rule l, rule a, rule Cons.prems(4), rule e, rule Cons.prems(5))
    apply (rule tr_car(3), assumption, rule a)
    apply (rule Cons.IH)
    using Cons.prems(1,4) a(4) k(2) apply (auto intro: src_later env_later)
    done
qed

lemma tr_params_held:
  assumes "rep ns K c s g" and "src ns s p (lst (map Sym qs))"
  shows "tr ns K (chold fr (rt (cenv_params p))) c s (gcells (2 * length qs) g) (\<lambda>v _ s'. env_at ns s' v (param_env qs))"
  using assms tr_params [of ns K c "s\<lparr>c_stack := fr @ c_stack s\<rparr>" g p qs] by (intro tr_hold) simp

lemma tr_function:
  assumes x: "src ns s args (lst [lst (map Sym ps), form e])" and e: "wf_exp e" "work e < K" and r: "rep ns K c s g"
    and k: "\<And>l c' s' g'. later s s' \<Longrightarrow> rep ns K c' s' g' \<Longrightarrow> tr ns K (k (of_nat l)) c' s' (q l g') R"
  shows "tr ns K (cbnd (c_function fr args) k) c s (gbnd glabel (\<lambda>l. gbnd (gcells (2 * length ps)) (\<lambda>_.
     gbnd (gdefer (l, e, param_env ps)) (\<lambda>_. q l))) g) R"
proof -
  let ?d = "heap_cdr s (cell_of args)"
  from x have args: "cell_of args < unat (heap_next s)" "cell_of ?d < unat (heap_next s)"
    "src ns s (heap_car s (cell_of args)) (lst (map Sym ps))" "src ns s (heap_car s (cell_of ?d)) (form e)" by simp_all
  have l: "later s s" using rep_room [OF r] by (simp add: later_refl)
  show ?thesis
    unfolding c_function_def cbnd_assoc
    apply (rule tr_label [OF l r])
    apply (rule tr_car(1), assumption, rule args)
    apply (rule tr_car(4), assumption, rule args)
    apply (rule tr_car(1), assumption, rule args)
    apply (rule tr_step, assumption, rule tr_params_held, assumption, erule src_later [OF args(3)])
    apply (rule tr_step, assumption, rule tr_defer, assumption)
        apply (erule src_later [OF args(4)], rule e, rule e)
     apply simp
    apply (simp add: k)
    done
qed

lemma to_says:
  "ce_to ''        la      r0,'' (of_nat l) s = Done () (says (code_text [LaLabel R0 l]) s)"
  by (simp add: texts)

lemma tr_lambda:
  assumes "src ns s args (lst [lst (map Sym ps), form e])" and "wf_exp e" "work e < K" and "rep ns K c s g"
  shows "tr ns K (c_lambda fr args) c s (gexp (index_of ns) env (EFun ps e) g) (\<lambda>_ _ _. True)"
  unfolding c_lambda_def gexp.simps gfun_def
  by (rule tr_function [OF assms]) (rule tr_emit, rule to_says)

section \<open>Heads\<close>

lemma not_fixnum: "IS_SYMBOL v \<Longrightarrow> MAKE_FIXNUM n \<noteq> v"
  by auto

lemma src_special:
  assumes "ready ns c s" and "src ns s h d" and "(S, name) \<in> set special_names"
  shows "h = special_sym s S \<longleftrightarrow> d = Sym name"
proof -
  have s: "symbol_of ns name (special_sym s S)" using assms by (auto simp: ready_def specials_ok_def)
  have n: "names ns" using assms(1) by (simp add: ready_def)
  show ?thesis
  proof (cases d)
    case (Sym x)
    with assms(2) symbol_same [OF n _ s, of x h] show ?thesis by simp
  qed (use assms(2) symbol_tag [OF s] not_fixnum [OF symbol_tag [OF s]] tag_exclusive(1,3) [of h] in auto)
qed

lemma src_prim:
  assumes "ready ns c s" and "src ns s h d" and "(p, name) \<in> set cp_names"
  shows "h = cp_sym c p \<longleftrightarrow> d = Sym name"
proof -
  have s: "symbol_of ns name (cp_sym c p)" using assms by (auto simp: ready_def)
  have n: "names ns" using assms(1) by (simp add: ready_def)
  show ?thesis
  proof (cases d)
    case (Sym x)
    with assms(2) symbol_same [OF n _ s, of x h] show ?thesis by simp
  qed (use assms(2) symbol_tag [OF s] not_fixnum [OF symbol_tag [OF s]] tag_exclusive(1,3) [of h] in auto)
qed

lemma special_heads_eq:
  assumes "ready ns c s" and "src ns s h d"
  shows "h = special_sym s Asm \<longleftrightarrow> d = Sym ''asm''" "h = special_sym s Quote \<longleftrightarrow> d = Sym ''quote''"
    "h = special_sym s If \<longleftrightarrow> d = Sym ''if''" "h = special_sym s Begin \<longleftrightarrow> d = Sym ''begin''"
    "h = special_sym s Define \<longleftrightarrow> d = Sym ''define''" "h = special_sym s Lambda \<longleftrightarrow> d = Sym ''lambda''"
  by (rule src_special [OF assms], simp add: special_names_def)+

lemma prim_heads_eq:
  assumes "ready ns c s" and "src ns s h d"
  shows "h = cp_sym c CP_plus \<longleftrightarrow> d = Sym ''+''" "h = cp_sym c CP_minus \<longleftrightarrow> d = Sym ''-''"
    "h = cp_sym c CP_star \<longleftrightarrow> d = Sym ''*''" "h = cp_sym c CP_lt \<longleftrightarrow> d = Sym ''<''"
    "h = cp_sym c CP_eq \<longleftrightarrow> d = Sym ''=''" "h = cp_sym c CP_cons \<longleftrightarrow> d = Sym ''cons''"
    "h = cp_sym c CP_car \<longleftrightarrow> d = Sym ''car''" "h = cp_sym c CP_cdr \<longleftrightarrow> d = Sym ''cdr''"
    "h = cp_sym c CP_nullp \<longleftrightarrow> d = Sym ''null?''" "h = cp_sym c CP_pairp \<longleftrightarrow> d = Sym ''pair?''"
    "h = cp_sym c CP_not \<longleftrightarrow> d = Sym ''not''" "h = cp_sym c CP_print \<longleftrightarrow> d = Sym ''print''"
  by (rule src_prim [OF assms], simp add: cp_names_def)+

lemma prim_names [simp]:
  "prim_name CP_plus = ''+''" "prim_name CP_minus = ''-''" "prim_name CP_star = ''*''" "prim_name CP_lt = ''<''"
  "prim_name CP_eq = ''=''" "prim_name CP_cons = ''cons''" "prim_name CP_car = ''car''" "prim_name CP_cdr = ''cdr''"
  "prim_name CP_nullp = ''null?''" "prim_name CP_pairp = ''pair?''" "prim_name CP_not = ''not''"
  "prim_name CP_print = ''print''"
  by (simp_all add: prim_name_def cp_names_def)

text \<open>The head of a call is none of the forms.\<close>

lemma callable_head:
  assumes "callable f"
  shows "form f \<notin> Sym ` set special_heads" "form f \<notin> Sym ` snd ` set cp_names"
  using assms by (cases f; auto simp: callable_def nil_def special_heads_def cp_names_def)+

fun is_fun :: "exp \<Rightarrow> bool" where
  "is_fun (EFun ps e) = True"
| "is_fun e = False"

lemma form_lambda:
  assumes "wf_exp e" and "form e = Pair h d" and "h = Sym ''lambda''"
  shows "is_fun e"
proof (cases e)
  case (EOp1 p a ds)
  with assms show ?thesis by (cases p) simp_all
next
  case (EOp2 p a b ds)
  with assms show ?thesis by (cases p) simp_all
next
  case (ECall f es)
  with assms callable_head(1) [of f] show ?thesis by (auto simp: special_heads_def)
qed (use assms in \<open>auto simp: nil_def\<close>)

lemma store_says:
  "names ns \<Longrightarrow> symbol_of ns x w \<Longrightarrow> c_store w s = Done () (says (code_text [LaGlobal (index_of ns x), SwGlobal]) s)"
  by (auto simp: c_store_def texts symbol_index names_def MAX_SYMBOLS_def)

lemma tr_define:
  assumes e: "wf_exp e" "is_fun e \<or> compiles ns K cx env e" "work e < K"
    and x: "src ns s args (lst [Sym x, form e])" and w: "env_at ns s w env" and r: "rep ns K c s g"
  shows "tr ns K (c_define cx fr args w) c s (gexp (index_of ns) env (EDef x e) g) (\<lambda>_ _ _. True)"
proof -
  let ?x = "heap_car s (cell_of args)" and ?d = "heap_cdr s (cell_of args)"
  let ?v = "heap_car s (cell_of ?d)"
  from x have args: "cell_of args < unat (heap_next s)" "cell_of ?d < unat (heap_next s)"
    "symbol_of ns x ?x" "src ns s ?v (form e)" by simp_all
  from rep_names [OF r] have n: "names ns" "length ns < 2097152" by simp_all
  with args(3) have i: "?x = MAKE_SYMBOL (of_nat (index_of ns x))" "index_of ns x < length ns" by (auto simp: symbol_index)
  have l: "later s s" using rep_room [OF r] by (simp add: later_refl)
  let ?t = "if IS_CONS ?v then bnd (car ?v) (\<lambda>h. bnd (get special_sym) (\<lambda>sp. ret (h = sp Lambda))) else ret False"
  have test: "?t s' = Done (is_fun e) s'" if s': "later s s'" "rep ns K c' s' g'" for c' s' g'
  proof (cases "\<exists>a b. form e = Pair a b")
    case True
    then obtain a b where p: "form e = Pair a b" by blast
    with src_later [OF args(4) s'(1)] have c: "IS_CONS ?v" "cell_of ?v < HEAP_SIZE" "src ns s' (heap_car s' (cell_of ?v)) a" by auto
    from s'(2) have "ready ns c' s'" by (simp add: rep_def)
    from special_heads_eq(6) [OF this c(3)] form_lambda [OF e(1) p] p c(1,2) show ?thesis
      by (cases e) (auto simp: bnd_def car_eq)
  next
    case False
    then have "\<not> IS_CONS ?v" "\<not> is_fun e"
      using args(4) symbol_tag tag_exclusive(2,3) by (cases e; auto simp: nil_def)+
    then show ?thesis by simp
  qed
  have store: "tr ns K (rt (c_store ?x)) c' s' (emit [LaGlobal (index_of ns x), SwGlobal] g') (\<lambda>_ _ _. True)"
    if "rep ns K c' s' g'" for c' s' g'
    by (rule tr_emit, rule store_says [OF n(1) args(3)], rule that)
  have fun_case: "tr ns K (cbnd (rt (cdr ?v)) (\<lambda>largs. cbnd (c_function (fr @ [?x, ?v]) largs) (\<lambda>fl.
      cbnd (rt (ce_to ''        la      r0,'' fl)) (\<lambda>_. rt (c_store ?x))))) c' s'
      (gbnd (gexp (index_of ns) env e) (\<lambda>_. emit [LaGlobal (index_of ns x), SwGlobal]) g') (\<lambda>_ _ _. True)"
    if f: "is_fun e" and s': "later s s'" "rep ns K c' s' g'" for c' s' g'
  proof -
    from f obtain ps b where b: "e = EFun ps b" by (cases e) auto
    with args(4) have v: "cell_of ?v < unat (heap_next s)" "src ns s (heap_cdr s (cell_of ?v)) (lst [lst (map Sym ps), form b])"
      by simp_all
    have wb: "wf_exp b" "work b < K" using e(1,3) b by simp_all
    show ?thesis
      unfolding b gexp.simps gfun_def gbnd_assoc
      apply (rule tr_car(3), rule s', rule v)
      apply (rule tr_function, rule src_later [OF v(2) s'(1)], rule wb, rule wb, rule s'(2))
      apply (rule tr_lines, rule later_trans [OF s'(1)], assumption, rule to_says, assumption)
      apply (rule store, assumption)
      done
  qed
  show ?thesis
    unfolding c_define_def gexp.simps
    apply (rule tr_car(1), rule l, rule args)
    apply (rule tr_car(4), rule l, rule args)
    apply (rule tr_car(1), rule l, rule args)
    apply (rule tr_step, rule l)
     apply (subst i(1), rule tr_cg_add, rule r, rule i(2))
    apply (subst tr_read, rule test, assumption, assumption)
    apply (cases "is_fun e")
     apply (simp only: if_True, rule fun_case, assumption+)
    apply (simp only: if_False)
    apply (rule tr_expr, assumption, rule args, rule w)
      using e(2) apply simp
     apply assumption
    apply (rule store, assumption)
    done
qed

section \<open>Primitives\<close>

lemma tr_operands:
  assumes "later s0 s" and a: "src ns s0 a1 (form a)" "compiles ns K cx env a" and b: "src ns s0 a2 (form b)" "compiles ns K cx env b"
    and w: "env_at ns s0 w env" and r: "rep ns K c s g"
    and k: "\<And>c' s' g'. later s0 s' \<Longrightarrow> rep ns K c' s' g' \<Longrightarrow> tr ns K (k ()) c' s' (q () g') R"
  shows "tr ns K (cbnd (c_operands cx fr a1 a2 w) k) c s (gbnd (gexp (index_of ns) env b) (\<lambda>_. gbnd (emit [Push R0]) (\<lambda>_.
     gbnd (gexp (index_of ns) env a) q)) g) R"
  unfolding c_operands_def cbnd_assoc
  apply (rule tr_expr, rule assms(1), rule b, rule w, rule b, rule r)
  apply (rule tr_lines, assumption, simp add: ins_def, assumption)
  apply (rule tr_expr, assumption, rule a, rule w, rule a, assumption)
  apply (rule k, assumption+)
  done

lemma truth_says [simp]:
  "c_truth (of_nat lt) (of_nat lx) s = Done () (says (code_text (truth_code lt lx)) s)"
  by (simp add: c_truth_def truth_code_def texts)

lemma ops_says:
  "foldr (\<lambda>t m. bnd (ce t) (\<lambda>_. m)) ts (ret ()) s = Done () (says (code_text (map Alu ts)) s)"
  by (induction ts arbitrary: s) simp_all

lemma arith_says:
  "bnd (ce ''pop     r1'') (\<lambda>_. foldr (\<lambda>t m. bnd (ce t) (\<lambda>_. m)) ts (ret ())) s =
   Done () (says (code_text (Pop R1 # map Alu ts)) s)"
  by (simp add: ops_says)

lemma tr_arith:
  assumes "src ns s a1 (form a)" "compiles ns K cx env a" "src ns s a2 (form b)" "compiles ns K cx env b"
    and "env_at ns s w env" and r: "rep ns K c s g"
  shows "tr ns K (c_arith cx fr ts a1 a2 w) c s (gbnd (gexp (index_of ns) env b) (\<lambda>_. gbnd (emit [Push R0]) (\<lambda>_.
     gbnd (gexp (index_of ns) env a) (\<lambda>_. emit (Pop R1 # map Alu ts)))) g) (\<lambda>_ _ _. True)"
  unfolding c_arith_def
  apply (rule tr_operands [OF later_refl assms])
  using rep_room [OF r] apply simp
  apply (rule tr_emit, rule arith_says, assumption)
  done

lemma compare_says:
  "bnd (ce ''pop     r1'') (\<lambda>_. bnd (ce op) (\<lambda>_. c_truth (of_nat lt) (of_nat lx))) s =
   Done () (says (code_text ([Pop R1, Alu op] @ truth_code lt lx)) s)"
  by simp

lemma tr_compare:
  assumes a: "src ns s a1 (form a)" "compiles ns K cx env a" and b: "src ns s a2 (form b)" "compiles ns K cx env b"
    and w: "env_at ns s w env" and r: "rep ns K c s g"
  shows "tr ns K (c_compare cx fr op a1 a2 w) c s (gtest True (gbnd (gexp (index_of ns) env b) (\<lambda>_. gbnd (emit [Push R0]) (\<lambda>_.
     gbnd (gexp (index_of ns) env a) (\<lambda>_. emit [Pop R1, Alu op])))) g) (\<lambda>_ _ _. True)"
proof -
  have l: "later s s" using rep_room [OF r] by (simp add: later_refl)
  show ?thesis
    unfolding c_compare_def gtest_def if_True gbnd_assoc gbnd_ret
    apply (rule tr_label [OF l r])
    apply (rule tr_label, assumption, assumption)
    apply (rule tr_operands, assumption, rule a, rule a, rule b, rule b, rule w, assumption)
    apply (rule tr_emit, rule compare_says, assumption)
    done
qed

lemma call_says:
  "bnd (ce ''push    r0'') (\<lambda>_. ce_call ''_cons'' ''add     sp,6'') s = Done () (says (code_text ([Push R0] @ call_code ''_cons'' 6)) s)"
  "bnd (ce ''push    r0'') (\<lambda>_. ce_call name ''add     sp,3'') s = Done () (says (code_text ([Push R0] @ call_code name 3)) s)"
  "bnd (ce ''push    r0'') (\<lambda>_. bnd (ce ''push    r0'') (\<lambda>_. bnd (ce_call ''_print_val'' ''add     sp,3'') (\<lambda>_. ce ''pop     r0''))) s =
   Done () (says (code_text ([Push R0, Push R0] @ call_code ''_print_val'' 3 @ [Pop R0])) s)"
  by (simp_all add: call_code_def int_text_digits)

lemma tr_cons:
  assumes "src ns s a1 (form a)" "compiles ns K cx env a" "src ns s a2 (form b)" "compiles ns K cx env b"
    and "env_at ns s w env" and r: "rep ns K c s g"
  shows "tr ns K (c_cons cx fr a1 a2 w) c s (gbnd (gexp (index_of ns) env b) (\<lambda>_. gbnd (emit [Push R0]) (\<lambda>_.
     gbnd (gexp (index_of ns) env a) (\<lambda>_. emit ([Push R0] @ call_code ''_cons'' 6)))) g) (\<lambda>_ _ _. True)"
  unfolding c_cons_def
  apply (rule tr_operands [OF later_refl assms])
  using rep_room [OF r] apply simp
  apply (rule tr_emit, rule call_says, assumption)
  done

lemma tr_one:
  assumes a: "src ns s a1 (form a)" "compiles ns K cx env a" and w: "env_at ns s w env" and r: "rep ns K c s g"
    and m: "\<And>s. m s = Done () (says (code_text ls) s)"
  shows "tr ns K (cbnd (chold fr (cx a1 w)) (\<lambda>_. rt m)) c s (gbnd (gexp (index_of ns) env a) (\<lambda>_. emit ls) g) (\<lambda>_ _ _. True)"
  apply (rule tr_expr [OF later_refl a(1) w a(2) r])
  using rep_room [OF r] apply simp
  apply (rule tr_emit, rule m, assumption)
  done

lemma tr_test:
  assumes a: "src ns s a1 (form a)" "compiles ns K cx env a" and w: "env_at ns s w env" and r: "rep ns K c s g"
    and m: "\<And>lt lx s. m (of_nat lt) (of_nat lx) s = Done () (says (code_text (ls @ truth_code lt lx)) s)"
  shows "tr ns K (cbnd clnew (\<lambda>lt. cbnd clnew (\<lambda>lx. cbnd (chold (fr @ [lt, lx]) (cx a1 w)) (\<lambda>_. rt (m lt lx))))) c s
     (gtest True (gbnd (gexp (index_of ns) env a) (\<lambda>_. emit ls)) g) (\<lambda>_ _ _. True)"
proof -
  have l: "later s s" using rep_room [OF r] by (simp add: later_refl)
  show ?thesis
    unfolding gtest_def if_True gbnd_assoc gbnd_ret
    apply (rule tr_label [OF l r])
    apply (rule tr_label, assumption, assumption)
    apply (rule tr_expr, assumption, rule a, rule w, rule a, assumption)
    apply (rule tr_emit, rule m, assumption)
    done
qed

lemma test_says:
  "bnd (ce_li1 NIL_VAL) (\<lambda>_. bnd (ce ''ceq     r0,r1'') (\<lambda>_. c_truth (of_nat lt) (of_nat lx))) s =
   Done () (says (code_text ([Li R1 NIL_VAL, Alu ''ceq     r0,r1''] @ truth_code lt lx)) s)"
  "bnd (ce ''lc      r1,3'') (\<lambda>_. bnd (ce ''and     r0,r1'') (\<lambda>_. bnd (ce ''lc      r1,1'') (\<lambda>_.
     bnd (ce ''ceq     r0,r1'') (\<lambda>_. c_truth (of_nat lt) (of_nat lx))))) s =
   Done () (says (code_text ([Alu ''lc      r1,3'', Alu ''and     r0,r1'', Alu ''lc      r1,1'', Alu ''ceq     r0,r1''] @ truth_code lt lx)) s)"
  by simp_all

lemma tr_op2:
  assumes h: "src ns s0 head (Sym (prim_name (op2_prim p)))" "ready ns c s0"
    and a: "src ns s a1 (form a)" "compiles ns K cx env a" and b: "src ns s a2 (form b)" "compiles ns K cx env b"
    and w: "env_at ns s w env" and r: "rep ns K c s g"
  shows "\<exists>m. c_prim cx fr (cp_sym c) head a1 a2 w = Some m \<and>
    tr ns K m c s (gexp (index_of ns) env (EOp2 p a b ds) g) (\<lambda>_ _ _. True)"
proof -
  note ar = tr_arith [OF a b w r] and cm = tr_compare [OF a b w r] and cn = tr_cons [OF a b w r]
  note eqs = prim_heads_eq [OF h(2,1)]
  show ?thesis
    using ar [of fr "[''add     r0,r1'']"] ar [of fr "[''sub     r0,r1'']"]
      ar [of fr "[''lc      r2,2'', ''sra     r1,r2'', ''mul     r0,r1'']"] cm [of fr "''cls     r0,r1''"]
      cm [of fr "''ceq     r0,r1''"] cn [of fr]
    by (cases p) (simp_all add: c_prim_def eqs test2_def gtest_def)
qed

lemma tr_op1:
  assumes h: "src ns s0 head (Sym (prim_name (op1_prim p)))" "ready ns c s0"
    and a: "src ns s a1 (form a)" "compiles ns K cx env a"
    and w: "env_at ns s w env" and r: "rep ns K c s g"
  shows "\<exists>m. c_prim cx fr (cp_sym c) head a1 a2 w = Some m \<and>
    tr ns K m c s (gexp (index_of ns) env (EOp1 p a ds) g) (\<lambda>_ _ _. True)"
proof -
  note eqs = prim_heads_eq [OF h(2,1)]
  note one = tr_one [OF a w r] and test = tr_test [OF a w r]
  have "tr ns K (c_part cx fr name a1 w) c s (gbnd (gexp (index_of ns) env a) (\<lambda>_. emit ([Push R0] @ call_code name 3)) g) (\<lambda>_ _ _. True)" for name
    unfolding c_part_def by (rule one, rule call_says)
  moreover have "tr ns K (c_print cx fr a1 w) c s (gbnd (gexp (index_of ns) env a) (\<lambda>_. emit (op1_code OPrint)) g) (\<lambda>_ _ _. True)"
    unfolding c_print_def op1_code.simps by (rule one, rule call_says)
  moreover have "tr ns K (c_null cx fr a1 w) c s (gtest True (gbnd (gexp (index_of ns) env a) (\<lambda>_. emit (op1_code ONull))) g) (\<lambda>_ _ _. True)"
    unfolding c_null_def op1_code.simps by (rule test, rule test_says)
  moreover have "tr ns K (c_pair cx fr a1 w) c s (gtest True (gbnd (gexp (index_of ns) env a) (\<lambda>_. emit (op1_code OPair))) g) (\<lambda>_ _ _. True)"
    unfolding c_pair_def op1_code.simps by (rule test, rule test_says)
  ultimately show ?thesis
    by (cases p) (simp_all add: c_prim_def eqs test1_def gtest_def)
qed

section \<open>Calls\<close>

lemma jal_says:
  "bnd (ce ''jal     r1,(r0)'') (\<lambda>_. if sint (of_nat n :: i24) > 0
     then bnd (puts_str ''        add     sp,'') (\<lambda>_. bnd (print_int (of_nat n * 3)) (\<lambda>_. putc_uart (CHR 0x0A))) else ret ()) s =
   Done () (says (code_text (if n = 0 then [Call] else [Call, AddSp (3 * n)])) s)" if "n \<le> HEAP_SIZE" for n
proof -
  have "sint (of_nat n :: i24) = int n" using that by (intro sint_of_nat_small) (simp add: HEAP_SIZE_def)
  moreover have "of_nat n * 3 = (of_nat (3 * n) :: i24)" by simp
  ultimately show ?thesis by (simp add: ins_def mult.commute)
qed

definition pushes :: "string list \<Rightarrow> nat \<Rightarrow> compile_fn \<Rightarrow> penv \<Rightarrow> exp list \<Rightarrow> bool" where
  "pushes ns K push env es \<longleftrightarrow> (\<forall>v w c s g. src ns s v (lst (map form es)) \<longrightarrow> env_at ns s w env \<longrightarrow> rep ns K c s g \<longrightarrow>
     tr ns K (push v w) c s (gpush (index_of ns) env es g) (\<lambda>_ _ _. True))"

lemma tr_call:
  assumes h: "src ns s head (form f)" "compiles ns K cx env f" and callable: "wf_exp f" "callable f"
    and x: "src ns s args (lst (map form es))" "pushes ns K push env es" and w: "env_at ns s w env" and r: "rep ns K c s g"
  shows "tr ns K (c_call cx push fr head args w) c s (gexp (index_of ns) env (ECall f es) g) (\<lambda>_ _ _. True)"
proof -
  have l: "later s s" using rep_room [OF r] by (simp add: later_refl)
  from rep_names [OF r] have n: "names ns" by simp
  from src_chain [OF x(1) n] have ch: "chain s args (length es)" by simp
  note len = clen_chain [OF this]
  have le: "length es \<le> HEAP_SIZE" using chain_length [OF ch] .
  have push: "tr ns K (chold fr' (push args w)) c s (gpush (index_of ns) env es g) (\<lambda>_ _ _. True)" for fr'
    using x w r by (intro tr_hold) (simp add: pushes_def)
  have fn: "tr ns K (if IS_SYMBOL head then c_symbol head w else chold fr' (cx head w)) c' s'
      (gexp (index_of ns) env f g') (\<lambda>_ _ _. True)" if s': "later s s'" "rep ns K c' s' g'" for fr' c' s' g'
  proof (cases f)
    case (EVar y)
    with src_later [OF h(1) s'(1)] env_later [OF w s'(1)] s'(2) symbol_tag show ?thesis
      by (auto intro: tr_symbol)
  next
    case ENil
    with callable show ?thesis by (simp add: callable_def)
  next
    case ET
    with callable show ?thesis by (simp add: callable_def)
  next
    case (ENum k)
    with h(1) have "\<not> IS_SYMBOL head" by simp
    then show ?thesis using tr_expr_last [OF s'(1) h(1) w h(2) s'(2)] by simp
  qed (use h(1) tag_exclusive(1,3) [of head] tr_expr_last [OF s'(1) h(1) w h(2) s'(2)] in auto)
  show ?thesis
    unfolding c_call_def gexp.simps
    apply (subst tr_read, rule len)
    apply (rule tr_step, rule l, rule push)
    apply (rule tr_step, assumption, rule fn, assumption, assumption)
    apply (rule tr_emit)
     apply (subst jal_says [OF le])
    apply simp_all
    done
qed

section \<open>Dispatch\<close>

lemma turn_pair:
  assumes "src ns s v (Pair h ds)"
  shows "tr ns K (cexpr_turn k cx push v w) c s r R \<longleftrightarrow> tr ns K
    (let head = heap_car s (cell_of v); args = heap_cdr s (cell_of v); fr = [v, w, head, args] in
     case c_special k cx fr (special_sym s) head args w of Some m \<Rightarrow> m
     | None \<Rightarrow> cbnd (if IS_SYMBOL head then cbnd (rt (c_args args)) (\<lambda>p. cret (Some p)) else cret None) (\<lambda>p.
         cbnd (cget cp_sym) (\<lambda>cp. case p of
           Some (a1, a2) \<Rightarrow> (case c_prim cx (fr @ [a1, a2]) cp head a1 a2 w of Some m \<Rightarrow> m
             | None \<Rightarrow> c_call cx push fr head args w)
         | None \<Rightarrow> c_call cx push fr head args w))) c s r R"
proof -
  from assms have "IS_CONS v" "cell_of v < HEAP_SIZE" by auto
  with cons_tags [of v] show ?thesis by (simp add: cexpr_turn_def Let_def)
qed

lemma special_cases:
  assumes "ready ns c s" and "src ns s h d"
  shows "c_special k cx fr (special_sym s) h args w =
     (if d = Sym ''asm'' then Some (c_asm k args)
      else if d = Sym ''quote'' then Some (cbnd (rt (car args)) (\<lambda>v. rt (cquote k v)))
      else if d = Sym ''if'' then Some (c_if cx fr args w)
      else if d = Sym ''begin'' then Some (c_begin k cx [fr ! 0, w, h] args w)
      else if d = Sym ''define'' then Some (c_define cx fr args w)
      else if d = Sym ''lambda'' then Some (c_lambda fr args)
      else None)"
  by (simp add: c_special_def special_heads_eq [OF assms])

lemma args_done:
  assumes "src ns s v (lst ds)" and "names ns"
  obtains a1 a2 where "c_args v s = Done (a1, a2) s" "\<And>d r. ds = d # r \<Longrightarrow> src ns s a1 d"
    "\<And>d d' r. ds = d # d' # r \<Longrightarrow> src ns s a2 d'"
proof (cases ds)
  case Nil
  with assms have "IS_NIL v" by (auto simp: nil_def IS_NIL_def dest: symbol_of_nil)
  with Nil that [of NIL_VAL NIL_VAL] show ?thesis by (simp add: c_args_def)
next
  case (Cons d r)
  with assms have v: "\<not> IS_NIL v" "cell_of v < HEAP_SIZE" "src ns s (heap_car s (cell_of v)) d"
    "src ns s (heap_cdr s (cell_of v)) (lst r)" using cons_tags [of v] by auto
  let ?r = "heap_cdr s (cell_of v)"
  show ?thesis
  proof (cases r)
    case Nil
    with v(4) assms have "IS_NIL ?r" by (auto simp: nil_def IS_NIL_def dest: symbol_of_nil)
    with Nil v Cons that [of "heap_car s (cell_of v)" NIL_VAL] show ?thesis
      by (simp add: c_args_def bnd_def car_eq cdr_eq)
  next
    case (Cons d' r')
    with v(4) have "\<not> IS_NIL ?r" "cell_of ?r < HEAP_SIZE" "src ns s (heap_car s (cell_of ?r)) d'"
      using cons_tags [of ?r] by auto
    with Cons v \<open>ds = d # r\<close> that [of "heap_car s (cell_of v)" "heap_car s (cell_of ?r)"] show ?thesis
      by (simp add: c_args_def bnd_def car_eq cdr_eq)
  qed
qed

lemma turn_prim:
  assumes v: "src ns s v (Pair (Sym x) (lst ds))" and r: "rep ns K c s g" and x: "x \<notin> set special_heads"
    and m: "\<And>fr a1 a2. (\<And>d r. ds = d # r \<Longrightarrow> src ns s a1 d) \<Longrightarrow> (\<And>d d' r. ds = d # d' # r \<Longrightarrow> src ns s a2 d') \<Longrightarrow>
      \<exists>m. c_prim cx fr (cp_sym c) (heap_car s (cell_of v)) a1 a2 w = Some m \<and> tr ns K m c s t R"
  shows "tr ns K (cexpr_turn k cx push v w) c s t R"
proof -
  from r have ready: "ready ns c s" "names ns" by (auto simp: rep_def ready_def)
  from v have h: "src ns s (heap_car s (cell_of v)) (Sym x)" "src ns s (heap_cdr s (cell_of v)) (lst ds)" by simp_all
  have y: "IS_SYMBOL (heap_car s (cell_of v))" using h(1) symbol_tag by simp
  from args_done [OF h(2) ready(2)] obtain a1 a2 where a: "c_args (heap_cdr s (cell_of v)) s = Done (a1, a2) s"
    "\<And>d r. ds = d # r \<Longrightarrow> src ns s a1 d" "\<And>d d' r. ds = d # d' # r \<Longrightarrow> src ns s a2 d'" by blast
  have "\<exists>m. c_prim cx [v, w, heap_car s (cell_of v), heap_cdr s (cell_of v), a1, a2] (cp_sym c) (heap_car s (cell_of v)) a1 a2 w = Some m \<and>
      tr ns K m c s t R" by (rule m) (erule a(2), erule a(3))
  then obtain m' where m': "c_prim cx [v, w, heap_car s (cell_of v), heap_cdr s (cell_of v), a1, a2] (cp_sym c) (heap_car s (cell_of v)) a1 a2 w = Some m'"
    "tr ns K m' c s t R" by blast
  show ?thesis
    using x y m' by (simp add: turn_pair [OF v] special_cases [OF ready(1) h(1)] Let_def special_heads_def cbnd_assoc tr_read [of "c_args (heap_cdr s (cell_of v))" s "(a1, a2)", OF a(1)])
qed

lemma turn_call:
  assumes v: "src ns s v (Pair (form f) (lst ds))" and r: "rep ns K c s g" and f: "callable f"
    and m: "\<And>fr. tr ns K (c_call cx push fr (heap_car s (cell_of v)) (heap_cdr s (cell_of v)) w) c s t R"
  shows "tr ns K (cexpr_turn k cx push v w) c s t R"
proof -
  from r have ready: "ready ns c s" "names ns" by (auto simp: rep_def ready_def)
  from v have h: "src ns s (heap_car s (cell_of v)) (form f)" "src ns s (heap_cdr s (cell_of v)) (lst ds)" by simp_all
  have sp: "c_special k cx fr (special_sym s) (heap_car s (cell_of v)) args w = None" for fr args
    using callable_head(1) [OF f] by (auto simp: special_cases [OF ready(1) h(1)] special_heads_def)
  have cp: "c_prim cx fr (cp_sym c) (heap_car s (cell_of v)) a1 a2 w = None" for fr a1 a2
    using callable_head(2) [OF f] by (auto simp: c_prim_def prim_heads_eq [OF ready(1) h(1)] cp_names_def)
  show ?thesis
  proof (cases "IS_SYMBOL (heap_car s (cell_of v))")
    case True
    obtain a1 a2 where a: "c_args (heap_cdr s (cell_of v)) s = Done (a1, a2) s" by (rule args_done [OF h(2) ready(2)])
    show ?thesis
      by (simp only: turn_pair [OF v] Let_def sp cp option.case True if_True cbnd_assoc tr_read [of "c_args (heap_cdr s (cell_of v))" s "(a1, a2)", OF a] tr_reads(3) tr_get prod.case m)
  next
    case False
    then show ?thesis
      by (simp only: turn_pair [OF v] Let_def sp option.case if_False tr_reads(3) tr_get m)
  qed
qed

section \<open>Expressions\<close>

lemma work_elem: "e \<in> set es \<Longrightarrow> work e \<le> sum_list (map (\<lambda>e. Suc (work e)) es)"
  using member_le_sum_list [of "Suc (work e)" "map (\<lambda>e. Suc (work e)) es"] by auto

lemma work_length: "length es \<le> sum_list (map (\<lambda>e. Suc (work e)) es)"
  by (induction es) auto

lemma pushes_all:
  assumes "\<And>e k. e \<in> set es \<Longrightarrow> work e \<le> k \<Longrightarrow> compiles ns K (cexpr k) env e"
    and "Suc (sum_list (map (\<lambda>e. Suc (work e)) es)) \<le> k"
  shows "pushes ns K (cpush_args k) env es"
  using assms
proof (induction es arbitrary: k)
  case Nil
  then obtain j where "k = Suc j" by (cases k) auto
  then show ?case
    by (auto simp: pushes_def push_turn_def nil_def IS_NIL_def dest: symbol_of_nil rep_names intro!: tr_ret)
next
  case (Cons e es)
  from Cons.prems(2) obtain j where k: "k = Suc j" "Suc (sum_list (map (\<lambda>e. Suc (work e)) es)) \<le> j" "work e \<le> j" by (cases k) auto
  have push: "pushes ns K (cpush_args j) env es" using Cons k(2) by simp
  have e: "compiles ns K (cexpr j) env e" using Cons.prems(1) k(3) by simp
  show ?case
    unfolding pushes_def
  proof (intro allI impI)
    fix v w c s g
    assume x: "src ns s v (lst (map form (e # es)))" and w: "env_at ns s w env" and r: "rep ns K c s g"
    have l: "later s s" using rep_room [OF r] by (simp add: later_refl)
    from x have v: "cell_of v < unat (heap_next s)" "src ns s (heap_car s (cell_of v)) (form e)"
      "src ns s (heap_cdr s (cell_of v)) (lst (map form es))" "\<not> IS_NIL v" using cons_tags [of v] by auto
    have ps: "tr ns K (chold fr (cpush_args j (heap_cdr s (cell_of v)) w)) c s (gpush (index_of ns) env es g) (\<lambda>_ _ _. True)" for fr
      using push v(3) w r by (intro tr_hold) (simp add: pushes_def)
    show "tr ns K (cpush_args k v w) c s (gpush (index_of ns) env (e # es) g) (\<lambda>_ _ _. True)"
      unfolding k(1) cpush_args.simps push_turn_def gpush.simps
      apply (simp only: v(4) if_False)
      apply (rule tr_car(3), rule l, rule v(1))
      apply (rule tr_step, rule l, rule ps)
      apply (rule tr_car(1), assumption, rule v(1))
      apply (rule tr_expr, assumption, rule v(2), rule w, rule e, assumption)
      apply (rule tr_emit, simp add: ins_def, assumption)
      done
  qed
qed

lemma li_says: "tr ns K (rt (ce_li v)) c s (emit [Li R0 v] g) (\<lambda>_ _ _. True)" if "rep ns K c s g"
  by (rule tr_emit, simp, rule that)

text \<open>The forms that are no lists.\<close>

lemma turn_atom:
  assumes r: "rep ns K c s g" and w: "env_at ns s w env"
  shows "tr ns K (cexpr_turn k cx push (MAKE_FIXNUM n) w) c s (emit [Li R0 (MAKE_FIXNUM n)] g) (\<lambda>_ _ _. True)"
    "tr ns K (cexpr_turn k cx push NIL_VAL w) c s (emit [Li R0 NIL_VAL] g) (\<lambda>_ _ _. True)"
    "tr ns K (cexpr_turn k cx push T_VAL w) c s (emit [Li R0 T_VAL] g) (\<lambda>_ _ _. True)"
    "IS_EXTENDED v \<Longrightarrow> tr ns K (cexpr_turn k cx push v w) c s (emit [Li R0 NIL_VAL] g) (\<lambda>_ _ _. True)"
    "symbol_of ns x v \<Longrightarrow> x \<noteq> ''nil'' \<Longrightarrow> x \<noteq> ''t'' \<Longrightarrow>
       tr ns K (cexpr_turn k cx push v w) c s (gvar (index_of ns) env x g) (\<lambda>_ _ _. True)"
proof -
  note li = li_says [OF r]
  show "tr ns K (cexpr_turn k cx push (MAKE_FIXNUM n) w) c s (emit [Li R0 (MAKE_FIXNUM n)] g) (\<lambda>_ _ _. True)"
    "tr ns K (cexpr_turn k cx push NIL_VAL w) c s (emit [Li R0 NIL_VAL] g) (\<lambda>_ _ _. True)"
    "tr ns K (cexpr_turn k cx push T_VAL w) c s (emit [Li R0 T_VAL] g) (\<lambda>_ _ _. True)"
    using li by (simp_all add: cexpr_turn_def)
  show "tr ns K (cexpr_turn k cx push v w) c s (emit [Li R0 NIL_VAL] g) (\<lambda>_ _ _. True)" if "IS_EXTENDED v"
    using that li tag_exclusive(3) [of v] by (auto simp: cexpr_turn_def IS_NIL_def)
  show "tr ns K (cexpr_turn k cx push v w) c s (gvar (index_of ns) env x g) (\<lambda>_ _ _. True)"
    if x: "symbol_of ns x v" "x \<noteq> ''nil''" "x \<noteq> ''t''"
  proof -
    have "v \<noteq> NIL_VAL" "v \<noteq> T_VAL"
      using x symbol_const [of ns] symbol_same [of ns x v] rep_names [OF r] by metis+
    with symbol_tag [OF x(1)] tag_exclusive(2) [of v] tr_symbol [OF r x(1) w] show ?thesis
      by (simp add: cexpr_turn_def IS_NIL_def)
  qed
qed

lemma compilesI:
  assumes "\<And>v w c s g. src ns s v (form e) \<Longrightarrow> env_at ns s w env \<Longrightarrow> rep ns K c s g \<Longrightarrow> ready ns c s \<Longrightarrow> names ns \<Longrightarrow>
    tr ns K (cexpr_turn j (cexpr j) (cpush_args j) v w) c s (gexp (index_of ns) env e g) (\<lambda>_ _ _. True)"
  shows "compiles ns K (cexpr (Suc j)) env e"
  using assms by (simp add: compiles_def rep_def ready_def)

lemma turn_form:
  assumes v: "src ns s v (Pair (Sym x) (lst ds))" and r: "rep ns K c s g"
    and m: "\<And>m. c_special k cx [v, w, heap_car s (cell_of v), heap_cdr s (cell_of v)] (special_sym s) (heap_car s (cell_of v))
      (heap_cdr s (cell_of v)) w = Some m \<Longrightarrow> tr ns K m c s t R"
    and x: "x \<in> set special_heads"
  shows "tr ns K (cexpr_turn k cx push v w) c s t R"
proof -
  from r have ready: "ready ns c s" by (auto simp: rep_def ready_def)
  from v have h: "src ns s (heap_car s (cell_of v)) (Sym x)" by simp
  from x obtain m' where m': "c_special k cx [v, w, heap_car s (cell_of v), heap_cdr s (cell_of v)] (special_sym s) (heap_car s (cell_of v))
      (heap_cdr s (cell_of v)) w = Some m'"
    by (auto simp: special_cases [OF ready h] special_heads_def)
  show ?thesis
    by (simp only: turn_pair [OF v] Let_def m' option.case m [OF m'])
qed

lemma cexpr_compiles:
  "wf_exp e \<Longrightarrow> work e \<le> k \<Longrightarrow> work e \<le> K \<Longrightarrow> compiles ns K (cexpr k) env e"
proof (induction e arbitrary: k)
  case (ENum n)
  then obtain j where k: "k = Suc j" by (cases k) auto
  show ?case unfolding k by (rule compilesI) (simp add: turn_atom)
next
  case ENil
  then obtain j where k: "k = Suc j" by (cases k) auto
  show ?case unfolding k by (rule compilesI) (auto simp: nil_def turn_atom dest: symbol_of_nil)
next
  case ET
  then obtain j where k: "k = Suc j" by (cases k) auto
  show ?case unfolding k by (rule compilesI) (auto simp: turn_atom dest: symbol_of_t)
next
  case (EStr t)
  then obtain j where k: "k = Suc j" by (cases k) auto
  show ?case unfolding k by (rule compilesI) (simp add: turn_atom)
next
  case (EVar x)
  then obtain j where k: "k = Suc j" by (cases k) auto
  show ?case unfolding k using EVar.prems(1) by (intro compilesI) (auto intro: turn_atom)
next
  case (EQuote d)
  then obtain j where k: "k = Suc j" "dsize d \<le> j" by (cases k) auto
  show ?case
    unfolding k(1)
  proof (rule compilesI)
    fix v w c s g assume v: "src ns s v (form (EQuote d))" and r: "rep ns K c s g" and n: "ready ns c s" "names ns"
    from v have h: "src ns s v (Pair (Sym ''quote'') (lst [d]))" "src ns s (heap_car s (cell_of v)) (Sym ''quote'')"
      "cell_of (heap_cdr s (cell_of v)) < HEAP_SIZE" "src ns s (heap_car s (cell_of (heap_cdr s (cell_of v)))) d" by auto
    show "tr ns K (cexpr_turn j (cexpr j) (cpush_args j) v w) c s (gexp (index_of ns) env (EQuote d) g) (\<lambda>_ _ _. True)"
      by (rule turn_form [OF h(1) r]) (auto simp: special_cases [OF n(1) h(2)] special_heads_def h(3)
          intro!: tr_emit cquote_says [OF h(4) n(2) k(2)] r)
  qed
next
  case (EIf a b d)
  then obtain j where k: "k = Suc j" "work a \<le> j" "work b \<le> j" "work d \<le> j" by (cases k) auto
  have c: "compiles ns K (cexpr j) env a" "compiles ns K (cexpr j) env b" "compiles ns K (cexpr j) env d"
    using EIf k by auto
  show ?case
    unfolding k(1)
  proof (rule compilesI)
    fix v w c s g assume v: "src ns s v (form (EIf a b d))" and w: "env_at ns s w env" and r: "rep ns K c s g" and n: "ready ns c s"
    from v have h: "src ns s v (Pair (Sym ''if'') (lst [form a, form b, form d]))" "src ns s (heap_car s (cell_of v)) (Sym ''if'')"
      "src ns s (heap_cdr s (cell_of v)) (lst [form a, form b, form d])" by auto
    show "tr ns K (cexpr_turn j (cexpr j) (cpush_args j) v w) c s (gexp (index_of ns) env (EIf a b d) g) (\<lambda>_ _ _. True)"
      by (rule turn_form [OF h(1) r]) (auto simp: special_cases [OF n h(2)] special_heads_def simp del: gexp.simps
          intro!: tr_if [OF c h(3) w r])
  qed
next
  case (EIf1 a b)
  then obtain j where k: "k = Suc j" "work a \<le> j" "work b \<le> j" by (cases k) auto
  have c: "compiles ns K (cexpr j) env a" "compiles ns K (cexpr j) env b" using EIf1 k by auto
  show ?case
    unfolding k(1)
  proof (rule compilesI)
    fix v w c s g assume v: "src ns s v (form (EIf1 a b))" and w: "env_at ns s w env" and r: "rep ns K c s g" and n: "ready ns c s"
    from v have h: "src ns s v (Pair (Sym ''if'') (lst [form a, form b]))" "src ns s (heap_car s (cell_of v)) (Sym ''if'')"
      "src ns s (heap_cdr s (cell_of v)) (lst [form a, form b])" by auto
    show "tr ns K (cexpr_turn j (cexpr j) (cpush_args j) v w) c s (gexp (index_of ns) env (EIf1 a b) g) (\<lambda>_ _ _. True)"
      by (rule turn_form [OF h(1) r]) (auto simp: special_cases [OF n h(2)] special_heads_def simp del: gexp.simps
          intro!: tr_if1 [OF c h(3) w r])
  qed
next
  case (EDef x e)
  then obtain j where k: "k = Suc j" "work e \<le> j" "wf_exp e" "work e < K" by (cases k) auto
  have c: "is_fun e \<or> compiles ns K (cexpr j) env e" using EDef k by auto
  show ?case
    unfolding k(1)
  proof (rule compilesI)
    fix v w c s g assume v: "src ns s v (form (EDef x e))" and w: "env_at ns s w env" and r: "rep ns K c s g" and n: "ready ns c s"
    from v have h: "src ns s v (Pair (Sym ''define'') (lst [Sym x, form e]))" "src ns s (heap_car s (cell_of v)) (Sym ''define'')"
      "src ns s (heap_cdr s (cell_of v)) (lst [Sym x, form e])" by auto
    show "tr ns K (cexpr_turn j (cexpr j) (cpush_args j) v w) c s (gexp (index_of ns) env (EDef x e) g) (\<lambda>_ _ _. True)"
      by (rule turn_form [OF h(1) r]) (auto simp: special_cases [OF n h(2)] special_heads_def simp del: gexp.simps
          intro!: tr_define [OF k(3) c k(4) h(3) w r])
  qed
next
  case (EFun ps e)
  then obtain j where k: "k = Suc j" "wf_exp e" "work e < K" by (cases k) auto
  show ?case
    unfolding k(1)
  proof (rule compilesI)
    fix v w c s g assume v: "src ns s v (form (EFun ps e))" and w: "env_at ns s w env" and r: "rep ns K c s g" and n: "ready ns c s"
    from v have h: "src ns s v (Pair (Sym ''lambda'') (lst [lst (map Sym ps), form e]))" "src ns s (heap_car s (cell_of v)) (Sym ''lambda'')"
      "src ns s (heap_cdr s (cell_of v)) (lst [lst (map Sym ps), form e])" by auto
    show "tr ns K (cexpr_turn j (cexpr j) (cpush_args j) v w) c s (gexp (index_of ns) env (EFun ps e) g) (\<lambda>_ _ _. True)"
      by (rule turn_form [OF h(1) r]) (auto simp: special_cases [OF n h(2)] special_heads_def simp del: gexp.simps
          intro!: tr_lambda [OF h(3) k(2,3) r])
  qed
next
  case (EBegin es)
  then obtain j where k: "k = Suc j" "Suc (sum_list (map (\<lambda>e. Suc (work e)) es)) \<le> j" by (cases k) auto
  have c: "\<forall>e\<in>set es. compiles ns K (cexpr j) env e"
    using EBegin k work_elem [of _ es] by (fastforce intro: order_trans)
  have len: "length es < j" using work_length [of es] k(2) by simp
  show ?case
    unfolding k(1)
  proof (rule compilesI)
    fix v w c s g assume v: "src ns s v (form (EBegin es))" and w: "env_at ns s w env" and r: "rep ns K c s g" and n: "ready ns c s"
    from v have h: "src ns s v (Pair (Sym ''begin'') (lst (map form es)))" "src ns s (heap_car s (cell_of v)) (Sym ''begin'')"
      "src ns s (heap_cdr s (cell_of v)) (lst (map form es))" by auto
    show "tr ns K (cexpr_turn j (cexpr j) (cpush_args j) v w) c s (gexp (index_of ns) env (EBegin es) g) (\<lambda>_ _ _. True)"
      by (rule turn_form [OF h(1) r]) (auto simp: special_cases [OF n h(2)] special_heads_def
          intro!: tr_begin [OF c len h(3) w r])
  qed
next
  case (EOp1 p a ds)
  then obtain j where k: "k = Suc j" "work a \<le> j" by (cases k) auto
  have c: "compiles ns K (cexpr j) env a" using EOp1 k by auto
  have x: "prim_name (op1_prim p) \<notin> set special_heads" by (cases p) (simp_all add: special_heads_def)
  show ?case
    unfolding k(1)
  proof (rule compilesI)
    fix v w c s g assume v: "src ns s v (form (EOp1 p a ds))" and w: "env_at ns s w env" and r: "rep ns K c s g" and n: "ready ns c s"
    from v have h: "src ns s v (Pair (Sym (prim_name (op1_prim p))) (lst (form a # ds)))"
      "src ns s (heap_car s (cell_of v)) (Sym (prim_name (op1_prim p)))" by auto
    show "tr ns K (cexpr_turn j (cexpr j) (cpush_args j) v w) c s (gexp (index_of ns) env (EOp1 p a ds) g) (\<lambda>_ _ _. True)"
      by (rule turn_prim [OF h(1) r x]) (rule tr_op1 [OF h(2) n _ c w r], simp)
  qed
next
  case (EOp2 p a b ds)
  then obtain j where k: "k = Suc j" "work a \<le> j" "work b \<le> j" by (cases k) auto
  have c: "compiles ns K (cexpr j) env a" "compiles ns K (cexpr j) env b" using EOp2 k by auto
  have x: "prim_name (op2_prim p) \<notin> set special_heads" by (cases p) (simp_all add: special_heads_def)
  show ?case
    unfolding k(1)
  proof (rule compilesI)
    fix v w c s g assume v: "src ns s v (form (EOp2 p a b ds))" and w: "env_at ns s w env" and r: "rep ns K c s g" and n: "ready ns c s"
    from v have h: "src ns s v (Pair (Sym (prim_name (op2_prim p))) (lst (form a # form b # ds)))"
      "src ns s (heap_car s (cell_of v)) (Sym (prim_name (op2_prim p)))" by auto
    show "tr ns K (cexpr_turn j (cexpr j) (cpush_args j) v w) c s (gexp (index_of ns) env (EOp2 p a b ds) g) (\<lambda>_ _ _. True)"
      by (rule turn_prim [OF h(1) r x]) (rule tr_op2 [OF h(2) n _ c(1) _ c(2) w r], simp, simp)
  qed
next
  case (ECall f es)
  then obtain j where k: "k = Suc j" "work f \<le> j" "Suc (sum_list (map (\<lambda>e. Suc (work e)) es)) \<le> j" by (cases k) auto
  have c: "compiles ns K (cexpr j) env f" using ECall k by auto
  have f: "wf_exp f" "callable f" using ECall by auto
  have p: "pushes ns K (cpush_args j) env es"
  proof (rule pushes_all [OF _ k(3)])
    fix e i assume "e \<in> set es" "work e \<le> i"
    with ECall work_elem [of e es] show "compiles ns K (cexpr i) env e" by auto
  qed
  show ?case
    unfolding k(1)
  proof (rule compilesI)
    fix v w c s g assume v: "src ns s v (form (ECall f es))" and w: "env_at ns s w env" and r: "rep ns K c s g" and n: "ready ns c s"
    from v have h: "src ns s v (Pair (form f) (lst (map form es)))" "src ns s (heap_car s (cell_of v)) (form f)"
      "src ns s (heap_cdr s (cell_of v)) (lst (map form es))" by auto
    show "tr ns K (cexpr_turn j (cexpr j) (cpush_args j) v w) c s (gexp (index_of ns) env (ECall f es) g) (\<lambda>_ _ _. True)"
      by (rule turn_call [OF h(1) r f(2)]) (rule tr_call [OF h(2) c f h(3) p w r])
  qed
qed

section \<open>Programs\<close>

lemma tr_toplevel:
  "\<forall>e\<in>set es. wf_exp e \<and> work e \<le> K \<Longrightarrow> K + length es < k \<Longrightarrow> src ns s v (lst (map form es)) \<Longrightarrow> rep ns K c s g \<Longrightarrow>
   tr ns K (c_toplevel k v) c s (gseq (index_of ns) [] es g) (\<lambda>_ _ _. True)"
proof (induction es arbitrary: k v c s g)
  case Nil
  then obtain j where "k = Suc j" by (cases k) auto
  moreover have "IS_NIL v"
    using Nil.prems(3) rep_names [OF Nil.prems(4)] by (auto simp: nil_def IS_NIL_def dest: symbol_of_nil)
  ultimately show ?case using Nil.prems(4) by (simp add: tr_ret)
next
  case (Cons e es)
  from Cons.prems(2) obtain j where k: "k = Suc j" "K + length es < j" by (cases k) auto
  from Cons.prems(3) have a: "cell_of v < unat (heap_next s)" "src ns s (heap_car s (cell_of v)) (form e)"
    "src ns s (heap_cdr s (cell_of v)) (lst (map form es))" "\<not> IS_NIL v" using cons_tags [of v] by auto
  have l: "later s s" using rep_room [OF Cons.prems(4)] by (simp add: later_refl)
  have e: "compiles ns K (cexpr j) [] e" using Cons.prems(1) k(2) by (intro cexpr_compiles) auto
  have w: "env_at ns s NIL_VAL []" by simp
  have rest: "tr ns K (c_toplevel j (heap_cdr s (cell_of v))) c' s' (gseq (index_of ns) [] es g') (\<lambda>_ _ _. True)"
    if "later s s'" "rep ns K c' s' g'" for c' s' g'
    using Cons.prems(1) k(2) that by (intro Cons.IH) (auto intro: src_later [OF a(3)])
  show ?case
    unfolding k(1) c_toplevel.simps gseq.simps
    apply (simp only: a(4) if_False)
    apply (rule tr_car(1), rule l, rule a)
    apply (rule tr_expr, rule l, rule a, rule w, rule e, rule Cons.prems(4))
    apply (rule tr_car(3), assumption, rule a)
    apply (rule rest, assumption+)
    done
qed

text \<open>Lines whose state is known exactly.\<close>

lemma tr_exact:
  assumes m: "m s = Done () (says (code_text ls) s)" and r: "rep ns K c s g"
    and k: "tr ns K (k ()) c (says (code_text ls) s) (q () g) R"
  shows "tr ns K (cbnd (rt m) k) c s (gbnd (emit ls) q g) R"
  using k rep_room [OF r]
  by (auto simp: tr_def cbnd_def rt_def bnd_def m gbnd_def emit_def later_def split: gres.splits)

lemma tr_peek:
  "i < CFMAX \<Longrightarrow> tr ns K (cbnd (peek_cf f (of_nat i)) k) c s r R = tr ns K (k (f c i)) c s r R"
  by (rule tr_cong) (simp add: cbnd_def peek_cf_def bnd_def CFMAX_def)

lemma prologue_says:
  "c_prologue s = Done () (says (code_text prologue) s)"
  "c_epilogue s = Done () (says (code_text epilogue) s)"
  "bnd (ce_ld (of_nat l)) (\<lambda>_. c_prologue) s = Done () (says (code_text (Label l # prologue)) s)"
  "bnd c_epilogue (\<lambda>_. putc_uart (CHR 0x0A)) s = Done () (says (code_text (epilogue @ [Text []])) s)"
  by (simp_all add: c_prologue_def c_epilogue_def prologue_def epilogue_def label_text_def bnd_assoc)

lemma tr_emit_fn:
  assumes r: "rep ns K c s g" and d: "d < length (funs g)" and k: "K \<le> k"
  shows "tr ns K (cemit_fn k (of_nat d)) c s (gfn (index_of ns) (funs g ! d) g) (\<lambda>_ _ _. True)"
proof -
  obtain l e env where f: "funs g ! d = (l, e, env)" by (cases "funs g ! d")
  from r d f have i: "d < CFMAX" and at: "cf_lbl c d = of_nat l" "src ns s (cf_body c d) (form e)" "wf_exp e" "work e < K"
    "env_at ns s (cf_env c d) env" by (auto simp: rep_def fun_at_def)
  have e: "compiles ns K (cexpr k) env e" using at(3,4) k by (intro cexpr_compiles) auto
  let ?s = "says (code_text (Label l # prologue)) s"
  have src: "src ns ?s (cf_body c d) (form e)" "env_at ns ?s (cf_env c d) env" "rep ns K c ?s g"
    using at r by simp_all
  have l: "later ?s ?s" using rep_room [OF src(3)] by (intro later_refl) simp
  show ?thesis
    unfolding cemit_fn_def gfn_def f prod.case
    apply (simp only: tr_peek [OF i] at(1))
    apply (rule tr_exact, rule prologue_says, rule r)
    apply (simp only: tr_peek [OF i])
    apply (rule tr_expr, rule l, rule src, rule src, rule e, rule src)
    apply (rule tr_emit, rule prologue_says, assumption)
    done
qed

text \<open>The same without the promise about the count of finished functions.\<close>

definition trd :: "string list \<Rightarrow> nat \<Rightarrow> unit cact \<Rightarrow> compiler \<Rightarrow> lisp \<Rightarrow> unit gres \<Rightarrow> bool" where
  "trd ns K m c s r \<longleftrightarrow> (case r of
       Ok ls b g' \<Rightarrow> \<exists>c' s'. m c s = Done ((), c') s' \<and> uart_out s' = uart_out s @ code_text ls \<and> later s s' \<and> rep ns K c' s' g'
     | Table \<Rightarrow> m c s = Wild
     | Full \<Rightarrow> True)"

lemma trd_first:
  assumes "tr ns K m c s (p g) (\<lambda>_ _ _. True)"
    and "\<And>a b c' s' g'. later s s' \<Longrightarrow> rep ns K c' s' g' \<Longrightarrow> cf_done c' = cf_done c \<Longrightarrow> trd ns K (k a) c' s' (q b g')"
  shows "trd ns K (cbnd m k) c s (gbnd p q g)"
proof (cases "p g")
  case (Ok ls b g1)
  with assms(1) obtain a c1 s1 where m: "m c s = Done (a, c1) s1" "uart_out s1 = uart_out s @ code_text ls" "later s s1"
    "rep ns K c1 s1 g1" "cf_done c1 = cf_done c" by (auto simp: tr_def)
  from assms(2) [OF m(3,4,5), of a b] m(1,2) Ok show ?thesis
    by (auto simp: trd_def cbnd_def gbnd_def bnd_def intro: later_trans [OF m(3)] split: gres.splits)
qed (use assms(1) in \<open>auto simp: tr_def trd_def cbnd_def gbnd_def bnd_def\<close>)

lemma trd_bnd:
  assumes "trd ns K m c s (p g)"
    and "\<And>c' s' g'. later s s' \<Longrightarrow> rep ns K c' s' g' \<Longrightarrow> trd ns K (k ()) c' s' (q () g')"
  shows "trd ns K (cbnd m k) c s (gbnd p q g)"
proof (cases "p g")
  case (Ok ls b g1)
  with assms(1) obtain c1 s1 where m: "m c s = Done ((), c1) s1" "uart_out s1 = uart_out s @ code_text ls" "later s s1"
    "rep ns K c1 s1 g1" by (auto simp: trd_def)
  from assms(2) [OF m(3,4)] m(1,2) Ok show ?thesis
    by (auto simp: trd_def cbnd_def gbnd_def bnd_def intro: later_trans [OF m(3)] split: gres.splits)
qed (use assms(1) in \<open>auto simp: trd_def cbnd_def gbnd_def bnd_def\<close>)

lemma trd_cong: "m c s = m' c' s \<Longrightarrow> trd ns K m c s r = trd ns K m' c' s r"
  by (cases r) (simp_all add: trd_def)

lemma tr_trd: "tr ns K m c s r (\<lambda>_ _ _. True) \<Longrightarrow> trd ns K m c s r"
  by (auto simp: tr_def trd_def split: gres.splits)

lemma trd_fns:
  "rep ns K c s g \<Longrightarrow> cf_done c = of_nat d \<Longrightarrow> d + r = CFMAX \<Longrightarrow> K + r < k \<Longrightarrow>
   trd ns K (cemit_fns k) c s (gfns (index_of ns) r d g)"
proof (induction r arbitrary: d c s g k)
  case 0
  then obtain j where k: "k = Suc j" by (cases k) auto
  from 0 have n: "cf_n c = of_nat (length (funs g))" "length (funs g) \<le> d" "d = 32" by (auto simp: rep_def CFMAX_def)
  then have "\<not> sint (cf_done c) < sint (cf_n c)"
    using 0(2) by (simp add: sint_of_nat_small sint_small)
  with 0(1) k rep_room [OF 0(1)] show ?case
    by (simp add: trd_def cbnd_def cget_def cret_def bnd_def gret_def later_refl)
next
  case (Suc r)
  from Suc.prems(4) obtain j where k: "k = Suc j" "K + r < j" by (cases k) auto
  from Suc.prems have n: "cf_n c = of_nat (length (funs g))" "length (funs g) \<le> 32" "d < 32" by (auto simp: rep_def CFMAX_def)
  then have lt: "sint (cf_done c) < sint (cf_n c) \<longleftrightarrow> d < length (funs g)"
    using Suc.prems(2) by (simp add: sint_of_nat_small)
  show ?case
  proof (cases "d < length (funs g)")
    case False
    with lt Suc.prems(1) k rep_room [OF Suc.prems(1)] show ?thesis
      by (simp add: trd_def cbnd_def cget_def cret_def bnd_def later_refl)
  next
    case True
    let ?k = "\<lambda>_. cbnd (cupd (\<lambda>c. c\<lparr>cf_done := cf_done c + 1\<rparr>)) (\<lambda>_. cemit_fns j)"
    have "trd ns K (cbnd (cemit_fn j (of_nat d)) ?k) c s (gbnd (gfn (index_of ns) (funs g ! d)) (\<lambda>_. gfns (index_of ns) r (Suc d)) g)"
    proof (rule trd_first)
      show "tr ns K (cemit_fn j (of_nat d)) c s (gfn (index_of ns) (funs g ! d) g) (\<lambda>_ _ _. True)"
        using k(2) by (intro tr_emit_fn [OF Suc.prems(1) True]) simp
      fix b c' s' g' assume l: "later s s'" and r: "rep ns K c' s' g'" and dn: "cf_done c' = cf_done c"
      let ?c = "c'\<lparr>cf_done := cf_done c' + 1\<rparr>"
      have "rep ns K ?c s' g'" using r by (simp add: rep_def ready_def fun_at_def)
      moreover have "cf_done ?c = of_nat (Suc d)" using dn Suc.prems(2) by simp
      ultimately have "trd ns K (cemit_fns j) ?c s' (gfns (index_of ns) r (Suc d) g')"
        using Suc.prems(3) k(2) by (intro Suc.IH) simp_all
      then show "trd ns K (?k a) c' s' (gfns (index_of ns) r (Suc d) g')" for a
        by (subst trd_cong [where m' = "cemit_fns j" and c' = ?c]) (simp_all add: cbnd_def cupd_def bnd_def)
    qed
    moreover have "cemit_fns k c s = cbnd (cemit_fn j (of_nat d)) ?k c s"
      using lt True Suc.prems(2) by (simp add: k(1) cbnd_def cget_def bnd_def)
    ultimately show ?thesis
      using True by (subst trd_cong [where m' = "cbnd (cemit_fn j (of_nat d)) ?k" and c' = c]) simp_all
  qed
qed

lemma data_loop_says:
  assumes r: "rep ns K c s g"
  shows "i + n = length (globs g) \<Longrightarrow>
    data_loop n i c t = Done ((), c) (says (code_text (map Word (drop i (globs g)))) t)"
proof (induction n arbitrary: i t)
  case (Suc n)
  let ?i = "globs g ! i"
  from Suc.prems have i: "i < length (globs g)" by simp
  with r have c: "i < CGMAX" "cg_sym c i = MAKE_SYMBOL (of_nat ?i)" "?i < length ns" by (auto simp: rep_def)
  with rep_names [OF r] have "?i < 2097152" by simp
  note c = c this
  have "drop i (globs g) = ?i # drop (Suc i) (globs g)" using Suc.prems by (simp add: Cons_nth_drop_Suc)
  with c Suc show ?case
    by (simp add: cbnd_def peek_cg_def rt_def bnd_def texts)
qed (simp add: cret_def)

lemma trd_data: "rep ns K c s g \<Longrightarrow> trd ns K cemit_data c s (gdata g)"
proof -
  assume r: "rep ns K c s g"
  let ?n = "length (globs g)"
  have n: "cg_n c = of_nat ?n" "?n \<le> 64" using r by (auto simp: rep_def CGMAX_def)
  then have "nat (sint (cg_n c)) = ?n" "cg_n c = 0 \<longleftrightarrow> globs g = []" by (simp_all add: sint_of_nat_small unat_eq_0 [symmetric])
  with r rep_room [OF r] data_loop_says [OF r, of 0 ?n] show ?thesis
    by (simp add: trd_def cemit_data_def cbnd_def cget_def rt_def cret_def bnd_def gdata_def data_code_def later_refl)
qed

lemma header_says:
  "bnd (puts_str ''; Generated by tml24c compiler\<newline>'') (\<lambda>_. bnd (puts_str ''        .text\<newline>\<newline>'') (\<lambda>_.
     bnd (puts_str ''        .globl  _cmain\<newline>'') (\<lambda>_. bnd (puts_str ''_cmain:\<newline>'') (\<lambda>_. c_prologue)))) s =
   Done () (says (code_text (header @ prologue)) s)"
  by (simp add: header_def prologue_says)

text \<open>What \<open>compile_init\<close> leaves behind.\<close>

definition initialised :: "string list \<Rightarrow> compiler \<Rightarrow> lisp \<Rightarrow> bool" where
  "initialised ns c s \<longleftrightarrow> ready ns c s \<and> clbl c = 0 \<and> cg_n c = 0 \<and> cf_n c = 0 \<and> cf_done c = 0"

lemma trd_program:
  assumes i: "initialised ns c s" and n: "heap_next s = of_nat n" "n \<le> HEAP_SIZE"
    and es: "\<forall>e\<in>set es. wf_exp e \<and> work e \<le> K" and k: "K + length es < k" "K + CFMAX < k"
    and v: "src ns s v (lst (map form es))"
  shows "trd ns K (compile_program k v) c s (gprogram (index_of ns) es (gstart n))"
proof -
  have r: "rep ns K c s (gstart n)" using i n by (simp add: initialised_def rep_def gstart_def)
  show ?thesis
    unfolding compile_program_def gprogram_def
  proof (rule trd_first)
    show "tr ns K (rt (bnd (puts_str ''; Generated by tml24c compiler\<newline>'') (\<lambda>_. bnd (puts_str ''        .text\<newline>\<newline>'') (\<lambda>_.
        bnd (puts_str ''        .globl  _cmain\<newline>'') (\<lambda>_. bnd (puts_str ''_cmain:\<newline>'') (\<lambda>_. c_prologue)))))) c s
        (emit (header @ prologue) (gstart n)) (\<lambda>_ _ _. True)"
      by (rule tr_emit, rule header_says, rule r)
    fix a b c1 s1 g1 assume l1: "later s s1" and r1: "rep ns K c1 s1 g1" and d1: "cf_done c1 = cf_done c"
    show "trd ns K (cbnd (c_toplevel k v) (\<lambda>_. cbnd (rt (bnd c_epilogue (\<lambda>_. putc_uart (CHR 0x0A)))) (\<lambda>_.
        cbnd (cemit_fns k) (\<lambda>_. cbnd (rt (putc_uart (CHR 0x0A))) (\<lambda>_. cemit_data))))) c1 s1
        (gbnd (gseq (index_of ns) [] es) (\<lambda>_. gbnd (emit (epilogue @ [Text []])) (\<lambda>_. gbnd (gfns (index_of ns) CFMAX 0) (\<lambda>_.
          gbnd (emit [Text []]) (\<lambda>_. gdata)))) g1)"
    proof (rule trd_first, rule tr_toplevel [OF es k(1) src_later [OF v l1] r1])
      fix a b c2 s2 g2 assume r2: "rep ns K c2 s2 g2" and d2: "cf_done c2 = cf_done c1"
      show "trd ns K (cbnd (rt (bnd c_epilogue (\<lambda>_. putc_uart (CHR 0x0A)))) (\<lambda>_.
          cbnd (cemit_fns k) (\<lambda>_. cbnd (rt (putc_uart (CHR 0x0A))) (\<lambda>_. cemit_data)))) c2 s2
          (gbnd (emit (epilogue @ [Text []])) (\<lambda>_. gbnd (gfns (index_of ns) CFMAX 0) (\<lambda>_. gbnd (emit [Text []]) (\<lambda>_. gdata))) g2)"
      proof (rule trd_first, rule tr_emit, rule prologue_says, rule r2)
        fix a b c3 s3 g3 assume r3: "rep ns K c3 s3 g3" and d3: "cf_done c3 = cf_done c2"
        have "cf_done c3 = of_nat 0" using d1 d2 d3 i by (simp add: initialised_def)
        then have fns: "trd ns K (cemit_fns k) c3 s3 (gfns (index_of ns) CFMAX 0 g3)"
          using k(2) by (intro trd_fns [OF r3]) simp_all
        show "trd ns K (cbnd (cemit_fns k) (\<lambda>_. cbnd (rt (putc_uart (CHR 0x0A))) (\<lambda>_. cemit_data))) c3 s3
            (gbnd (gfns (index_of ns) CFMAX 0) (\<lambda>_. gbnd (emit [Text []]) (\<lambda>_. gdata)) g3)"
          by (rule trd_bnd, rule fns, rule trd_first, rule tr_emit, simp, assumption, rule trd_data, assumption)
      qed
    qed
  qed
qed

end
