(* ===== verification/Tml_Codegen_Safe.thy ===== *)
theory Tml_Codegen_Safe
  imports Tml_Codegen
begin

text \<open>
  A checker for the lines the compiler writes: it follows the height of the stack along the code,
  compares the heights at which a label is reached, and requires every label to be defined once
  and every label in use to be defined.  The code generator only writes lines that it accepts.
\<close>

section \<open>The checker\<close>

record typing =
  height :: "nat option"
  frame :: "nat option"
  target :: "nat option"
  known :: "nat \<Rightarrow> nat option"
  seen :: "nat set"

text \<open>A label is reached with a height.\<close>

definition reached :: "nat \<Rightarrow> nat \<Rightarrow> typing \<Rightarrow> typing option" where
  "reached l h t = (case known t l of None \<Rightarrow> Some (t\<lparr>known := (known t)(l \<mapsto> h)\<rparr>)
     | Some h' \<Rightarrow> if h' = h then Some t else None)"

text \<open>An instruction at a height; the register \<open>r2\<close> holds a label only right after it is loaded.\<close>

fun instr :: "line \<Rightarrow> nat \<Rightarrow> typing \<Rightarrow> typing option" where
  "instr (Push r) h t = Some (t\<lparr>height := Some (Suc h)\<rparr>)"
| "instr (Pop r) h t = (if 0 < h then Some (t\<lparr>height := Some (h - 1)\<rparr>) else None)"
| "instr (AddSp n) h t = (if n mod 3 = 0 \<and> n div 3 \<le> h then Some (t\<lparr>height := Some (h - n div 3)\<rparr>) else None)"
| "instr (LaLabel R0 l) h t = reached l 0 t"
| "instr (LaLabel R2 l) h t = Some (t\<lparr>target := Some l\<rparr>)"
| "instr (LaLabel r l) h t = None"
| "instr (LwFrame n) h t = (if 9 \<le> n \<and> n mod 3 = 0 \<and> frame t \<noteq> None then Some t else None)"
| "instr (Brt l) h t = reached l h t"
| "instr (Brf l) h t = reached l h t"
| "instr JmpR2 h t = None"
| "instr JmpR1 h t = (if h = 0 then Some (t\<lparr>height := None\<rparr>) else None)"
| "instr SetFp h t = Some (t\<lparr>frame := Some h\<rparr>)"
| "instr SetSp h t = (case frame t of None \<Rightarrow> None | Some f \<Rightarrow> if f \<le> h then Some (t\<lparr>height := Some f\<rparr>) else None)"
| "instr (Label l) h t = None"
| "instr x h t = Some t"

fun check1 :: "line \<Rightarrow> typing \<Rightarrow> typing option" where
  "check1 (Text x) t = Some t"
| "check1 (Word i) t = Some t"
| "check1 (Label l) t = (if l \<in> seen t then None else
     case height t of
       Some h \<Rightarrow> map_option (seen_update (insert l)) (reached l h t)
     | None \<Rightarrow> map_option (\<lambda>h. t\<lparr>height := Some h, seen := insert l (seen t)\<rparr>) (known t l))"
| "check1 JmpR2 t = (case (height t, target t) of
       (Some h, Some l) \<Rightarrow> map_option (\<lambda>t. t\<lparr>height := None, target := None\<rparr>) (reached l h t)
     | _ \<Rightarrow> None)"
| "check1 x t = (case height t of Some h \<Rightarrow> instr x h (t\<lparr>target := None\<rparr>) | None \<Rightarrow> None)"

fun check :: "line list \<Rightarrow> typing \<Rightarrow> typing option" where
  "check [] t = Some t"
| "check (x # xs) t = (case check1 x t of None \<Rightarrow> None | Some t' \<Rightarrow> check xs t')"

lemma check_append: "check (xs @ ys) t = (case check xs t of None \<Rightarrow> None | Some t' \<Rightarrow> check ys t')"
  by (induction xs arbitrary: t) (auto split: option.splits)

definition typing0 :: typing where
  "typing0 = \<lparr>height = Some 0, frame = None, target = None, known = Map.empty, seen = {}\<rparr>"

text \<open>A program is accepted if it returns at the height of its entry and all labels are defined.\<close>

definition accepted :: "line list \<Rightarrow> bool" where
  "accepted ls \<longleftrightarrow> (case check ls typing0 of None \<Rightarrow> False | Some t \<Rightarrow> height t = None \<and> dom (known t) \<subseteq> seen t)"

section \<open>Generated code\<close>

definition pending :: "typing \<Rightarrow> nat set" where
  "pending t = dom (known t) - seen t"

definition sane :: "nat \<Rightarrow> typing \<Rightarrow> bool" where
  "sane n t \<longleftrightarrow> seen t \<subseteq> dom (known t) \<and> dom (known t) \<subseteq> {..<n}"

text \<open>Code that leaves \<open>d\<close> words more on the stack; its labels are new, and those it does not
  define are the entries of the functions it defers.\<close>

definition good :: "nat \<Rightarrow> gst \<Rightarrow> line list \<Rightarrow> gst \<Rightarrow> bool" where
  "good d g ls g' \<longleftrightarrow> labels g \<le> labels g' \<and>
     (\<exists>fs. funs g' = funs g @ fs \<and> distinct (map fst fs) \<and> fst ` set fs \<subseteq> {labels g..<labels g'} \<and>
       (\<forall>t h. height t = Some h \<longrightarrow> frame t \<noteq> None \<longrightarrow> sane (labels g) t \<longrightarrow>
         (\<exists>t'. check ls t = Some t' \<and> height t' = Some (h + d) \<and> frame t' = frame t \<and> sane (labels g') t' \<and>
           (\<forall>l<labels g. known t' l = known t l \<and> (l \<in> seen t' \<longleftrightarrow> l \<in> seen t)) \<and>
           pending t' = pending t \<union> fst ` set fs \<and> (\<forall>l\<in>fst ` set fs. known t' l = Some 0))))"

lemma gbnd_Ok:
  "gbnd m k g = Ok ls b g' \<longleftrightarrow> (\<exists>l1 a g1 l2. m g = Ok l1 a g1 \<and> k a g1 = Ok l2 b g' \<and> ls = l1 @ l2)"
  by (auto simp: gbnd_def split: gres.splits)

lemma good_seq:
  assumes a: "good d g ls g1" and b: "good e g1 ms g2"
  shows "good (d + e) g (ls @ ms) g2"
proof -
  from a obtain fs where fs: "labels g \<le> labels g1" "funs g1 = funs g @ fs" "distinct (map fst fs)" "fst ` set fs \<subseteq> {labels g..<labels g1}"
    and ra: "\<And>t h. height t = Some h \<Longrightarrow> frame t \<noteq> None \<Longrightarrow> sane (labels g) t \<Longrightarrow>
         (\<exists>t'. check ls t = Some t' \<and> height t' = Some (h + d) \<and> frame t' = frame t \<and> sane (labels g1) t' \<and>
           (\<forall>l<labels g. known t' l = known t l \<and> (l \<in> seen t' \<longleftrightarrow> l \<in> seen t)) \<and>
           pending t' = pending t \<union> fst ` set fs \<and> (\<forall>l\<in>fst ` set fs. known t' l = Some 0))"
    by (auto simp: good_def)
  from b obtain fs' where fs': "labels g1 \<le> labels g2" "funs g2 = funs g1 @ fs'" "distinct (map fst fs')" "fst ` set fs' \<subseteq> {labels g1..<labels g2}"
    and rb: "\<And>t h. height t = Some h \<Longrightarrow> frame t \<noteq> None \<Longrightarrow> sane (labels g1) t \<Longrightarrow>
         (\<exists>t'. check ms t = Some t' \<and> height t' = Some (h + e) \<and> frame t' = frame t \<and> sane (labels g2) t' \<and>
           (\<forall>l<labels g1. known t' l = known t l \<and> (l \<in> seen t' \<longleftrightarrow> l \<in> seen t)) \<and>
           pending t' = pending t \<union> fst ` set fs' \<and> (\<forall>l\<in>fst ` set fs'. known t' l = Some 0))"
    by (auto simp: good_def)
  have "\<exists>t'. check (ls @ ms) t = Some t' \<and> height t' = Some (h + (d + e)) \<and> frame t' = frame t \<and> sane (labels g2) t' \<and>
      (\<forall>l<labels g. known t' l = known t l \<and> (l \<in> seen t' \<longleftrightarrow> l \<in> seen t)) \<and>
      pending t' = pending t \<union> fst ` set (fs @ fs') \<and> (\<forall>l\<in>fst ` set (fs @ fs'). known t' l = Some 0)"
    if t: "height t = Some h" "frame t \<noteq> None" "sane (labels g) t" for t h
  proof -
    from ra [OF t] obtain t1 where t1: "check ls t = Some t1" "height t1 = Some (h + d)" "frame t1 = frame t" "sane (labels g1) t1"
      "\<forall>l<labels g. known t1 l = known t l \<and> (l \<in> seen t1 \<longleftrightarrow> l \<in> seen t)"
      "pending t1 = pending t \<union> fst ` set fs" "\<forall>l\<in>fst ` set fs. known t1 l = Some 0" by blast
    with t(2) rb [of t1 "h + d"] obtain t2 where t2: "check ms t1 = Some t2" "height t2 = Some (h + d + e)" "frame t2 = frame t1" "sane (labels g2) t2"
      "\<forall>l<labels g1. known t2 l = known t1 l \<and> (l \<in> seen t2 \<longleftrightarrow> l \<in> seen t1)"
      "pending t2 = pending t1 \<union> fst ` set fs'" "\<forall>l\<in>fst ` set fs'. known t2 l = Some 0" by auto
    have "\<forall>l\<in>fst ` set (fs @ fs'). known t2 l = Some 0"
      using t1(7) t2(5,7) fs(4) by fastforce
    moreover have "\<forall>l<labels g. known t2 l = known t l \<and> (l \<in> seen t2 \<longleftrightarrow> l \<in> seen t)"
      using t1(5) t2(5) fs(1) by simp
    ultimately show ?thesis
      using t1 t2 by (auto simp: check_append add.assoc)
  qed
  moreover have "distinct (map fst (fs @ fs'))"
    using fs(3,4) fs'(3,4) by fastforce
  ultimately show ?thesis
    unfolding good_def using fs(1,2,4) fs'(1,2,4) by (intro conjI exI [of _ "fs @ fs'"]) (auto intro: order_trans)
qed

text \<open>Straight-line code.\<close>

lemma good_lines:
  assumes "\<And>t h. height t = Some h \<Longrightarrow> frame t \<noteq> None \<Longrightarrow>
    \<exists>o'. check ls t = Some (t\<lparr>height := Some (h + d), target := o'\<rparr>)"
  shows "good d g ls g"
proof -
  have "\<exists>t'. check ls t = Some t' \<and> height t' = Some (h + d) \<and> frame t' = frame t \<and> sane (labels g) t' \<and>
      (\<forall>l<labels g. known t' l = known t l \<and> (l \<in> seen t' \<longleftrightarrow> l \<in> seen t)) \<and> pending t' = pending t"
    if t: "height t = Some h" "frame t \<noteq> None" "sane (labels g) t" for t h
  proof -
    from assms [OF t(1,2)] obtain o' where "check ls t = Some (t\<lparr>height := Some (h + d), target := o'\<rparr>)" by blast
    with t(3) show ?thesis by (auto simp: sane_def pending_def)
  qed
  then show ?thesis by (auto simp: good_def)
qed

lemma good_globs: "good d (g\<lparr>globs := x\<rparr>) ls g' = good d g ls g'" "good d g ls (g'\<lparr>globs := x\<rparr>) = good d g ls g'"
  "good d (g\<lparr>cells := n\<rparr>) ls g' = good d g ls g'" "good d g ls (g'\<lparr>cells := n\<rparr>) = good d g ls g'"
  by (simp_all add: good_def)

lemma good_nil: "good 0 g [] g"
proof (rule good_lines)
  fix t :: typing and h assume "height t = Some h"
  then show "\<exists>o'. check [] t = Some (t\<lparr>height := Some (h + 0), target := o'\<rparr>)"
    by (intro exI [of _ "target t"]) simp
qed

section \<open>Branches\<close>

lemma check_branch:
  assumes "height t = Some h" "known t lt = None" "known t le = None" "lt \<noteq> le" "lt \<notin> seen t"
  shows "check [Li R1 v, Alu x, Brf lt, LaLabel R2 le, JmpR2, Label lt] t =
    Some (t\<lparr>height := Some h, target := None, known := (known t)(lt \<mapsto> h, le \<mapsto> h), seen := insert lt (seen t)\<rparr>)"
  using assms by (simp add: reached_def)

lemma check_else:
  assumes "height t = Some h" "known t lx = None" "known t le = Some h" "le \<noteq> lx" "le \<notin> seen t"
  shows "check [LaLabel R2 lx, JmpR2, Label le] t =
    Some (t\<lparr>height := Some h, target := None, known := (known t)(lx \<mapsto> h), seen := insert le (seen t)\<rparr>)"
  using assms by (simp add: reached_def)

lemma check_join:
  assumes "height t = Some h" "known t lx = Some h" "lx \<notin> seen t"
  shows "check [Label lx] t = Some (t\<lparr>seen := insert lx (seen t)\<rparr>)"
  using assms by (simp add: reached_def)

lemma check_truth:
  assumes "height t = Some h" "known t lt = None" "known t lx = None" "lt \<noteq> lx" "lt \<notin> seen t" "lx \<notin> seen t"
  shows "\<exists>o'. check (truth_code lt lx) t =
    Some (t\<lparr>height := Some h, target := o', known := (known t)(lt \<mapsto> h, lx \<mapsto> h), seen := insert lx (insert lt (seen t))\<rparr>)"
  using assms by (intro exI [of _ None]) (simp add: truth_code_def reached_def o_def)

text \<open>The effect of good code on a state.\<close>

definition effect :: "nat \<Rightarrow> nat \<Rightarrow> nat set \<Rightarrow> typing \<Rightarrow> typing \<Rightarrow> bool" where
  "effect n n' F t t' \<longleftrightarrow> frame t' = frame t \<and> sane n' t' \<and> (\<forall>l<n. known t' l = known t l \<and> (l \<in> seen t' \<longleftrightarrow> l \<in> seen t)) \<and>
     pending t' = pending t \<union> F \<and> (\<forall>l\<in>F. known t' l = Some 0)"

lemma good_alt:
  "good d g ls g' \<longleftrightarrow> labels g \<le> labels g' \<and>
     (\<exists>fs. funs g' = funs g @ fs \<and> distinct (map fst fs) \<and> fst ` set fs \<subseteq> {labels g..<labels g'} \<and>
       (\<forall>t h. height t = Some h \<longrightarrow> frame t \<noteq> None \<longrightarrow> sane (labels g) t \<longrightarrow>
         (\<exists>t'. check ls t = Some t' \<and> height t' = Some (h + d) \<and> effect (labels g) (labels g') (fst ` set fs) t t')))"
  unfolding good_def effect_def by meson

lemma sane_fresh: "sane n t \<Longrightarrow> n \<le> l \<Longrightarrow> known t l = None \<and> l \<notin> seen t"
  by (auto simp: sane_def) (metis domI lessThan_iff not_None_eq not_less subsetD)

lemma sane_le: "sane n t \<Longrightarrow> n \<le> m \<Longrightarrow> sane m t"
  by (auto simp: sane_def)

lemma good_test:
  assumes a: "good 0 (g\<lparr>labels := Suc (Suc (labels g))\<rparr>) ls g'"
  shows "good 0 g (ls @ truth_code (labels g) (Suc (labels g))) g'"
proof -
  let ?n = "labels g"
  from a obtain fs where fs: "Suc (Suc ?n) \<le> labels g'" "funs g' = funs g @ fs" "distinct (map fst fs)" "fst ` set fs \<subseteq> {Suc (Suc ?n)..<labels g'}"
    and ra: "\<And>t h. height t = Some h \<Longrightarrow> frame t \<noteq> None \<Longrightarrow> sane (Suc (Suc ?n)) t \<Longrightarrow>
      (\<exists>t'. check ls t = Some t' \<and> height t' = Some h \<and> effect (Suc (Suc ?n)) (labels g') (fst ` set fs) t t')"
    by (auto simp: good_alt)
  have "\<exists>t'. check (ls @ truth_code ?n (Suc ?n)) t = Some t' \<and> height t' = Some h \<and> effect ?n (labels g') (fst ` set fs) t t'"
    if t: "height t = Some h" "frame t \<noteq> None" "sane ?n t" for t h
  proof -
    from ra [OF t(1,2) sane_le [OF t(3)]] obtain t1 where t1: "check ls t = Some t1" "height t1 = Some h"
      "effect (Suc (Suc ?n)) (labels g') (fst ` set fs) t t1" by auto
    have f: "known t1 ?n = None" "known t1 (Suc ?n) = None" "?n \<notin> seen t1" "Suc ?n \<notin> seen t1"
      using t1(3) sane_fresh [OF t(3), of ?n] sane_fresh [OF t(3), of "Suc ?n"] by (auto simp: effect_def)
    from check_truth [OF t1(2) f(1,2) _ f(3,4)] obtain o' where o': "check (truth_code ?n (Suc ?n)) t1 =
      Some (t1\<lparr>height := Some h, target := o', known := (known t1)(?n \<mapsto> h, Suc ?n \<mapsto> h), seen := insert (Suc ?n) (insert ?n (seen t1))\<rparr>)"
      by auto
    have "effect ?n (labels g') (fst ` set fs) t
      (t1\<lparr>height := Some h, target := o', known := (known t1)(?n \<mapsto> h, Suc ?n \<mapsto> h), seen := insert (Suc ?n) (insert ?n (seen t1))\<rparr>)"
      using t1(3) fs(1,4) f by (auto simp: effect_def sane_def pending_def)
    with t1 o' show ?thesis by (auto simp: check_append)
  qed
  with fs show ?thesis unfolding good_alt by (intro conjI exI [of _ fs]) auto
qed

lemma good_if:
  assumes a: "good 0 (g\<lparr>labels := Suc (Suc (Suc (labels g)))\<rparr>) la g1" and b: "good 0 g1 lb g2" and c: "good 0 g2 lc g3"
  shows "good 0 g (la @ [Li R1 v, Alu x, Brf (labels g), LaLabel R2 (Suc (labels g)), JmpR2, Label (labels g)] @ lb @
    [LaLabel R2 (Suc (Suc (labels g))), JmpR2, Label (Suc (labels g))] @ lc @ [Label (Suc (Suc (labels g)))]) g3"
    (is "good 0 g (la @ ?X @ lb @ ?Y @ lc @ ?Z) g3")
proof -
  let ?lt = "labels g" and ?le = "Suc (labels g)" and ?lx = "Suc (Suc (labels g))"
  let ?n = "Suc (Suc (Suc (labels g)))"
  from a obtain fa where fa: "?n \<le> labels g1" "funs g1 = funs g @ fa" "distinct (map fst fa)" "fst ` set fa \<subseteq> {?n..<labels g1}"
    and ra: "\<And>t h. height t = Some h \<Longrightarrow> frame t \<noteq> None \<Longrightarrow> sane ?n t \<Longrightarrow>
      (\<exists>t'. check la t = Some t' \<and> height t' = Some h \<and> effect ?n (labels g1) (fst ` set fa) t t')"
    by (auto simp: good_alt)
  from b obtain fb where fb: "labels g1 \<le> labels g2" "funs g2 = funs g1 @ fb" "distinct (map fst fb)" "fst ` set fb \<subseteq> {labels g1..<labels g2}"
    and rb: "\<And>t h. height t = Some h \<Longrightarrow> frame t \<noteq> None \<Longrightarrow> sane (labels g1) t \<Longrightarrow>
      (\<exists>t'. check lb t = Some t' \<and> height t' = Some h \<and> effect (labels g1) (labels g2) (fst ` set fb) t t')"
    by (auto simp: good_alt)
  from c obtain fc where fc: "labels g2 \<le> labels g3" "funs g3 = funs g2 @ fc" "distinct (map fst fc)" "fst ` set fc \<subseteq> {labels g2..<labels g3}"
    and rc: "\<And>t h. height t = Some h \<Longrightarrow> frame t \<noteq> None \<Longrightarrow> sane (labels g2) t \<Longrightarrow>
      (\<exists>t'. check lc t = Some t' \<and> height t' = Some h \<and> effect (labels g2) (labels g3) (fst ` set fc) t t')"
    by (auto simp: good_alt)
  let ?F = "fst ` set (fa @ fb @ fc)"
  have run: "\<exists>t'. check (la @ ?X @ lb @ ?Y @ lc @ ?Z) t = Some t' \<and> height t' = Some h \<and> effect ?lt (labels g3) ?F t t'"
    if t: "height t = Some h" "frame t \<noteq> None" "sane ?lt t" for t h
  proof -
    from ra [OF t(1,2) sane_le [OF t(3)]] obtain t1 where t1: "check la t = Some t1" "height t1 = Some h"
      "effect ?n (labels g1) (fst ` set fa) t t1" by auto
    have f: "known t1 ?lt = None" "known t1 ?le = None" "known t1 ?lx = None" "?lt \<notin> seen t1" "?le \<notin> seen t1" "?lx \<notin> seen t1"
      using t1(3) sane_fresh [OF t(3)] by (auto simp: effect_def)
    define u1 where "u1 = t1\<lparr>height := Some h, target := None, known := (known t1)(?lt \<mapsto> h, ?le \<mapsto> h), seen := insert ?lt (seen t1)\<rparr>"
    have cu1: "check ?X t1 = Some u1" using check_branch [OF t1(2) f(1,2) _ f(4)] by (simp add: u1_def)
    have u1: "height u1 = Some h" "frame u1 \<noteq> None" "sane (labels g1) u1"
      using t1(3) t(2) fa(1) by (auto simp: u1_def effect_def sane_def)
    from rb [OF u1] obtain t2 where t2: "check lb u1 = Some t2" "height t2 = Some h" "effect (labels g1) (labels g2) (fst ` set fb) u1 t2" by auto
    have f2: "known t2 ?lx = None" "known t2 ?le = Some h" "?le \<notin> seen t2" "?lx \<notin> seen t2"
      using t2(3) f fa(1) by (auto simp: effect_def u1_def)
    define u2 where "u2 = t2\<lparr>height := Some h, target := None, known := (known t2)(?lx \<mapsto> h), seen := insert ?le (seen t2)\<rparr>"
    have cu2: "check ?Y t2 = Some u2" using check_else [OF t2(2) f2(1,2) _ f2(3)] by (simp add: u2_def)
    have u2: "height u2 = Some h" "frame u2 \<noteq> None" "sane (labels g2) u2"
      using t2(3) u1(2) f2 fa(1) fb(1) by (auto simp: u2_def effect_def sane_def)
    from rc [OF u2] obtain t3 where t3: "check lc u2 = Some t3" "height t3 = Some h" "effect (labels g2) (labels g3) (fst ` set fc) u2 t3" by auto
    have f3: "known t3 ?lx = Some h" "?lx \<notin> seen t3"
      using t3(3) f2 fa(1) fb(1) by (auto simp: effect_def u2_def)
    define u3 where "u3 = t3\<lparr>seen := insert ?lx (seen t3)\<rparr>"
    have cu3: "check ?Z t3 = Some u3" using check_join [OF t3(2) f3] by (simp add: u3_def)
    have c: "check (la @ ?X @ lb @ ?Y @ lc @ ?Z) t = Some u3"
      by (simp only: check_append t1(1) cu1 t2(1) cu2 t3(1) cu3 option.case)
    have frame: "frame u3 = frame t" using t1(3) t2(3) t3(3) by (simp add: effect_def u1_def u2_def u3_def)
    have sane: "sane (labels g3) u3" using t3(3) f3 by (auto simp: effect_def u3_def sane_def)
    have old: "\<forall>l<?lt. known u3 l = known t l \<and> (l \<in> seen u3 \<longleftrightarrow> l \<in> seen t)"
      using t1(3) t2(3) t3(3) fa(1) fb(1) by (simp add: effect_def u1_def u2_def u3_def)
    have p1: "pending u1 = insert ?le (pending t \<union> fst ` set fa)"
      using t1(3) f by (auto simp: effect_def u1_def pending_def)
    have p2: "pending u2 = insert ?lx (pending t \<union> fst ` set fa \<union> fst ` set fb)"
      using t2(3) p1 f2 sane_fresh [OF t(3), of ?le] fa(4) fb(4) fa(1) by (auto simp: effect_def u2_def pending_def)
    have p3: "pending u3 = pending t \<union> ?F"
      using t3(3) p2 f3 sane_fresh [OF t(3), of ?lx] fa(4) fb(4) fc(4) fa(1) fb(1) by (auto simp: effect_def u3_def pending_def)
    have z: "\<forall>l\<in>?F. known u3 l = Some 0"
    proof
      fix l assume "l \<in> ?F"
      then consider "l \<in> fst ` set fa" | "l \<in> fst ` set fb" | "l \<in> fst ` set fc" by auto
      then show "known u3 l = Some 0"
      proof cases
        case 1
        with fa(4) have "?n \<le> l" "l < labels g1" by auto
        moreover have "known t1 l = Some 0" using 1 t1(3) unfolding effect_def by blast
        ultimately show ?thesis using t2(3) t3(3) fb(1) by (simp add: effect_def u1_def u2_def u3_def)
      next
        case 2
        with fb(4) have "labels g1 \<le> l" "l < labels g2" by auto
        moreover have "known t2 l = Some 0" using 2 t2(3) unfolding effect_def by blast
        ultimately show ?thesis using t3(3) fa(1) by (simp add: effect_def u1_def u2_def u3_def)
      next
        case 3
        with t3(3) have "known t3 l = Some 0" unfolding effect_def by blast
        then show ?thesis by (simp add: u3_def)
      qed
    qed
    have "height u3 = Some h" using t3(2) by (simp add: u3_def)
    with c frame sane old p3 z show ?thesis unfolding effect_def by blast
  qed
  have "distinct (map fst (fa @ fb @ fc))"
    using fa(3,4) fb(3,4) fc(3,4) fa(1) fb(1) by fastforce
  moreover have "?F \<subseteq> {?lt..<labels g3}" using fa fb fc by auto
  moreover have "labels g \<le> labels g3" "funs g3 = funs g @ fa @ fb @ fc" using fa(1,2) fb(1,2) fc(1,2) by auto
  ultimately show ?thesis unfolding good_alt using run by (intro conjI exI [of _ "fa @ fb @ fc"]) auto
qed

section \<open>Every generated expression is good\<close>

lemma height_target [simp]:
  "height_update f (target_update k t) = target_update k (height_update f t)"
  by simp

lemma height_same [simp]: "height t = Some h \<Longrightarrow> t\<lparr>height := Some h\<rparr> = (t :: typing)"
  by (cases t) simp

lemma good_quote: "good 0 g (quote_code ix d) g"
proof (rule good_lines)
  fix t :: typing and h assume "height t = Some h"
  then show "\<exists>o'. check (quote_code ix d) t = Some (t\<lparr>height := Some (h + 0), target := o'\<rparr>)"
  proof (induction d arbitrary: t h)
    case (Pair a d)
    from Pair.IH(2) [OF Pair.prems] obtain o1 where "check (quote_code ix d) t = Some (t\<lparr>height := Some h, target := o1\<rparr>)" by auto
    moreover obtain o2 where "check (quote_code ix a) (t\<lparr>height := Some (Suc h), target := None\<rparr>) =
      Some (t\<lparr>height := Some (Suc h), target := o2\<rparr>)"
      using Pair.IH(1) [of "t\<lparr>height := Some (Suc h), target := None\<rparr>" "Suc h"] by auto
    ultimately show ?case by (intro exI [of _ None]) (simp add: check_append call_code_def)
  qed (rule exI [of _ None], simp)+
qed

lemma good_code:
  assumes "ls \<noteq> []" and "\<And>t h. height t = Some h \<Longrightarrow> frame t \<noteq> None \<Longrightarrow>
    check ls t = Some (t\<lparr>height := Some (h + d), target := None\<rparr>)"
  shows "good d g ls g"
  using assms by (intro good_lines) blast

lemma good_simple:
  "good 0 g [Li r v] g" "good 0 g [Push R0, Push R0, LaName x, Call, AddSp 3, Pop R0] g"
  "good 0 g [Push R0, LaName x, Call, AddSp 3] g"
  "good 1 g [Push R0] g" "good 0 g [LaGlobal i, SwGlobal] g" "good 0 g [LaGlobal i, LwGlobal] g"
  "9 \<le> off \<Longrightarrow> off mod 3 = 0 \<Longrightarrow> good 0 g [LwFrame off] g" "good 0 g [Call] g"
  by (rule good_code, simp, simp)+

lemma good_alus: "good 0 g (Li R1 v # map Alu ts) g" "good 0 g (map Alu ts) g"
proof -
  have a: "\<exists>o'. check (map Alu ts) t = Some (t\<lparr>target := o'\<rparr>)" if "height t = Some h" for t :: typing and h
    using that
  proof (induction ts arbitrary: t)
    case (Cons x xs)
    from Cons.IH [of "t\<lparr>target := None\<rparr>"] Cons.prems show ?case by auto
  next
    case Nil
    show ?case by (rule exI [of _ "target t"]) simp
  qed
  show "good 0 g (map Alu ts) g"
    by (rule good_lines) (use a in simp)
  show "good 0 g (Li R1 v # map Alu ts) g"
  proof (rule good_lines)
    fix t :: typing and h assume "height t = Some h"
    with a [of "t\<lparr>target := None\<rparr>" h] show "\<exists>o'. check (Li R1 v # map Alu ts) t = Some (t\<lparr>height := Some (h + 0), target := o'\<rparr>)"
      by simp
  qed
qed

lemma good_tail:
  assumes a: "good d g ls g'"
    and b: "\<And>t h. height t = Some (h + d) \<Longrightarrow> frame t \<noteq> None \<Longrightarrow> \<exists>o'. check ms t = Some (t\<lparr>height := Some (h + e), target := o'\<rparr>)"
  shows "good e g (ls @ ms) g'"
proof -
  have "\<exists>t'. check (ls @ ms) t = Some t' \<and> height t' = Some (h + e) \<and> effect n n' F t t'"
    if "check ls t = Some t1 \<and> height t1 = Some (h + d) \<and> effect n n' F t t1" "frame t \<noteq> None" for t t1 h n n' F
  proof -
    have "frame t1 \<noteq> None" using that by (simp add: effect_def)
    with b [of t1 h] that obtain o' where "check ms t1 = Some (t1\<lparr>height := Some (h + e), target := o'\<rparr>)" by auto
    with that show ?thesis by (auto simp: check_append effect_def sane_def pending_def)
  qed
  with a show ?thesis unfolding good_alt by metis
qed

lemma good_pop:
  assumes "good (Suc d) g ls g'"
  shows "good d g (ls @ Pop r # map Alu ts) g'"
proof -
  have p: "\<exists>o'. check (map Alu ts) t = Some (t\<lparr>target := o'\<rparr>)" if "height t \<noteq> None" for t :: typing
    using that
  proof (induction ts arbitrary: t)
    case (Cons x xs)
    from Cons.IH [of "t\<lparr>target := None\<rparr>"] Cons.prems show ?case by auto
  next
    case Nil
    show ?case by (rule exI [of _ "target t"]) simp
  qed
  show ?thesis
  proof (rule good_tail [OF assms])
    fix t :: typing and h assume h: "height t = Some (h + Suc d)"
    from p [of "t\<lparr>height := Some (h + d), target := None\<rparr>"] h
    show "\<exists>o'. check (Pop r # map Alu ts) t = Some (t\<lparr>height := Some (h + d), target := o'\<rparr>)" by simp
  qed
qed

lemma good_cons: "good (Suc d) g ls g' \<Longrightarrow> good d g (ls @ [Push R0, LaName x, Call, AddSp 6]) g'"
  by (erule good_tail) (rule exI [of _ None], simp)

lemma good_call: "good n g ls g' \<Longrightarrow> good 0 g (ls @ [Call, AddSp (3 * n)]) g'"
  by (erule good_tail) (rule exI [of _ None], simp)

lemma good_fun:
  assumes "gfun ps e g = Ok ls b g'"
  shows "good 0 g ls g'"
proof -
  from assms have l: "ls = [LaLabel R0 (labels g)]" "labels g' = Suc (labels g)"
    "funs g' = funs g @ [(labels g, e, param_env ps)]"
    by (auto simp: gfun_def gbnd_Ok glabel_def gcells_def gdefer_def emit_def split: if_splits)
  have "\<exists>t'. check ls t = Some t' \<and> height t' = Some h \<and> effect (labels g) (labels g') {labels g} t t'"
    if t: "height t = Some h" "sane (labels g) t" for t h
    using that sane_fresh [OF t(2), of "labels g"] l by (auto simp: reached_def effect_def sane_def pending_def)
  with l show ?thesis unfolding good_alt by (intro conjI exI [of _ "[(labels g, e, param_env ps)]"]) auto
qed

definition env_ok :: "penv \<Rightarrow> bool" where
  "env_ok env \<longleftrightarrow> (\<forall>(x, off)\<in>set env. 9 \<le> off \<and> off mod 3 = 0)"

lemma env_ok_params: "env_ok (param_env ps)"
  by (auto simp: env_ok_def param_env_def set_zip)

lemma good_glob: "gglob i g = Ok ls b g' \<Longrightarrow> ls = [] \<and> (\<exists>x. g' = g\<lparr>globs := x\<rparr>)"
  by (auto simp: gglob_def intro: exI [of _ "globs g"] split: if_splits)

lemma good_var:
  assumes "gvar ix env x g = Ok ls b g'" and "env_ok env"
  shows "good 0 g ls g'"
proof (cases "map_of env x")
  case None
  with assms(1) good_glob [of "ix x" g] show ?thesis
    by (auto simp: gvar_def gbnd_Ok emit_def good_globs good_simple)
next
  case (Some off)
  with assms(2) map_of_SomeD [OF Some] have "9 \<le> off" "off mod 3 = 0" by (auto simp: env_ok_def)
  with assms(1) Some show ?thesis by (auto simp: gvar_def emit_def intro: good_simple)
qed

lemma good_gtest:
  assumes m: "\<And>g ls b g'. m g = Ok ls b g' \<Longrightarrow> good 0 g ls g'" and r: "gtest t m g = Ok ls b g'"
  shows "good 0 g ls g'"
proof (cases t)
  case True
  with r obtain l1 where l: "m (g\<lparr>labels := Suc (Suc (labels g))\<rparr>) = Ok l1 () g'" "ls = l1 @ truth_code (labels g) (Suc (labels g))"
    by (auto simp: gtest_def gbnd_Ok glabel_def emit_def)
  from good_test [OF m [OF l(1)]] l(2) show ?thesis by simp
qed (use assms in \<open>simp add: gtest_def\<close>)

lemma good_op1:
  assumes "good 0 g ls g'"
  shows "good 0 g (ls @ op1_code p) g'"
proof -
  have "good 0 g' (op1_code p) g'"
    using good_alus(1) [of g' NIL_VAL "[''ceq     r0,r1'']"] good_simple
      good_alus(2) [of g' "[''lc      r1,3'', ''and     r0,r1'', ''lc      r1,1'', ''ceq     r0,r1'']"]
    by (cases p) (simp_all add: call_code_def)
  from good_seq [OF assms this] show ?thesis by simp
qed

lemma good_op2:
  assumes b: "good 0 g lb g1" and a: "good 0 g1 la g2"
  shows "good 0 g (lb @ [Push R0] @ la @ (if p = OCons then op2_code p else Pop R1 # op2_code p)) g2"
proof -
  have s: "good (Suc 0) g (lb @ [Push R0] @ la) g2"
    using good_seq [OF good_seq [OF b good_simple(4)] a] by simp
  show ?thesis
    using good_cons [OF s] good_pop [OF s, of R1 "[''add     r0,r1'']"] good_pop [OF s, of R1 "[''sub     r0,r1'']"]
      good_pop [OF s, of R1 "[''lc      r2,2'', ''sra     r1,r2'', ''mul     r0,r1'']"]
      good_pop [OF s, of R1 "[''cls     r0,r1'']"] good_pop [OF s, of R1 "[''ceq     r0,r1'']"]
    by (cases p) (simp_all add: call_code_def)
qed

lemma good_exp:
  "gexp ix env e g = Ok ls u g' \<Longrightarrow> env_ok env \<Longrightarrow> good 0 g ls g'"
  "gseq ix env es g = Ok ls u g' \<Longrightarrow> env_ok env \<Longrightarrow> good 0 g ls g'"
  "gpush ix env es g = Ok ls u g' \<Longrightarrow> env_ok env \<Longrightarrow> good (length es) g ls g'"
proof (induction ix env e and ix env es and ix env es arbitrary: g ls u g' and g ls u g' and g ls u g'
    rule: gexp_gseq_gpush.induct)
  case (6 ix env d)
  then show ?case by (auto simp: emit_def good_quote)
next
  case (7 ix env a b c)
  from "7.prems"(1) obtain la g1 lb g2 lc where
    r: "gexp ix env a (g\<lparr>labels := Suc (Suc (Suc (labels g)))\<rparr>) = Ok la () g1" "gexp ix env b g1 = Ok lb () g2" "gexp ix env c g2 = Ok lc () g'"
    "ls = la @ [Li R1 NIL_VAL, Alu ''ceq     r0,r1'', Brf (labels g), LaLabel R2 (Suc (labels g)), JmpR2, Label (labels g)] @ lb @
      [LaLabel R2 (Suc (Suc (labels g))), JmpR2, Label (Suc (labels g))] @ lc @ [Label (Suc (Suc (labels g)))]"
    by (auto simp: gbnd_Ok glabel_def emit_def)
  from "7.IH" r "7.prems"(2) show ?case
    unfolding r(4) by (intro good_if) auto
next
  case (8 ix env a b)
  from "8.prems"(1) obtain la g1 lb where
    r: "gexp ix env a (g\<lparr>labels := Suc (Suc (Suc (labels g)))\<rparr>) = Ok la () g1" "gexp ix env b g1 = Ok lb () g'"
    "ls = la @ [Li R1 NIL_VAL, Alu ''ceq     r0,r1'', Brf (labels g), LaLabel R2 (Suc (labels g)), JmpR2, Label (labels g)] @ lb @
      [LaLabel R2 (Suc (Suc (labels g))), JmpR2, Label (Suc (labels g))] @ [Li R0 NIL_VAL] @ [Label (Suc (Suc (labels g)))]"
    by (auto simp: gbnd_Ok glabel_def emit_def)
  from "8.IH" r "8.prems"(2) show ?case
    unfolding r(3) by (intro good_if [OF _ _ good_simple(1)]) auto
next
  case (10 ix env x e)
  from "10.prems"(1) obtain xs l1 where "gexp ix env e (g\<lparr>globs := xs\<rparr>) = Ok l1 () g'" "ls = l1 @ [LaGlobal (ix x), SwGlobal]"
    using good_glob [of "ix x" g] by (auto simp: gbnd_Ok emit_def)
  with "10.IH" [of "g\<lparr>globs := xs\<rparr>" l1] "10.prems"(2) good_seq [OF _ good_simple(5)] show ?case
    by (fastforce simp: good_globs)
next
  case (12 ix env p a ds)
  have "good 0 h l h'" if run: "gbnd (gexp ix env a) (\<lambda>_. emit (op1_code p)) h = Ok l u h'" for h l u h'
  proof -
    from run obtain l1 where "gexp ix env a h = Ok l1 () h'" "l = l1 @ op1_code p" by (auto simp: gbnd_Ok emit_def)
    with "12.IH" "12.prems"(2) show ?thesis by (auto intro: good_op1)
  qed
  from good_gtest [OF this] "12.prems"(1) show ?case by simp
next
  case (13 ix env p a b ds)
  let ?c = "if p = OCons then op2_code p else Pop R1 # op2_code p"
  have "good 0 h l h'" if run: "gbnd (gexp ix env b) (\<lambda>_. gbnd (emit [Push R0]) (\<lambda>_. gbnd (gexp ix env a) (\<lambda>_. emit ?c))) h = Ok l u h'" for h l u h'
  proof -
    from run obtain lb h1 la where "gexp ix env b h = Ok lb () h1" "gexp ix env a h1 = Ok la () h'" "l = lb @ [Push R0] @ la @ ?c"
      by (auto simp: gbnd_Ok emit_def)
    with "13.IH" "13.prems"(2) good_op2 [of h lb h1 la h' p] show ?thesis by metis
  qed
  from good_gtest [OF this] "13.prems"(1) show ?case by simp
next
  case (14 ix env f es)
  from "14.prems"(1) obtain l1 g1 l2 where r: "gpush ix env es g = Ok l1 () g1" "gexp ix env f g1 = Ok l2 () g'"
    "ls = l1 @ l2 @ (if es = [] then [Call] else [Call, AddSp (3 * length es)])"
    by (auto simp: gbnd_Ok emit_def)
  have s: "good (length es) g (l1 @ l2) g'"
    using good_seq [OF "14.IH"(1) [OF r(1) "14.prems"(2)] "14.IH"(2) [OF r(2) "14.prems"(2)]] by simp
  show ?case
    using good_call [OF s] good_seq [OF s good_simple(8)] r(3) by (cases es) simp_all
next
  case (16 ix env e es)
  from "16.prems"(1) obtain l1 g1 l2 where r: "gexp ix env e g = Ok l1 () g1" "gseq ix env es g1 = Ok l2 () g'" "ls = l1 @ l2"
    by (auto simp: gbnd_Ok)
  from good_seq [OF "16.IH"(1) [OF r(1) "16.prems"(2)] "16.IH"(2) [OF r(2) "16.prems"(2)]] r(3) show ?case by simp
next
  case (18 ix env e es)
  from "18.prems"(1) obtain l1 g1 l2 where r: "gpush ix env es g = Ok l1 () g1" "gexp ix env e g1 = Ok l2 () g'" "ls = l1 @ l2 @ [Push R0]"
    by (auto simp: gbnd_Ok emit_def)
  from good_seq [OF "18.IH"(1) [OF r(1) "18.prems"(2)] good_seq [OF "18.IH"(2) [OF r(2) "18.prems"(2)] good_simple(4)]] r(3)
  show ?case by simp
qed (auto simp: emit_def gret_def good_simple good_nil intro: good_var good_fun)

section \<open>Programs\<close>

lemma check_prologue:
  "height t = Some 0 \<Longrightarrow> check prologue t = Some (t\<lparr>height := Some 3, frame := Some 3, target := None\<rparr>)"
  by (simp add: prologue_def)

lemma check_epilogue:
  "height t = Some 3 \<Longrightarrow> frame t = Some 3 \<Longrightarrow> check epilogue t = Some (t\<lparr>height := None, target := None\<rparr>)"
  by (simp add: epilogue_def)

definition undone :: "nat \<Rightarrow> gst \<Rightarrow> nat set" where
  "undone d g = fst ` set (drop d (funs g))"

text \<open>Between two functions: the entries of those still to come are all that is pending.\<close>

definition between :: "nat \<Rightarrow> gst \<Rightarrow> typing \<Rightarrow> bool" where
  "between d g t \<longleftrightarrow> height t = None \<and> sane (labels g) t \<and> pending t = undone d g \<and>
     (\<forall>l\<in>undone d g. known t l = Some 0) \<and> distinct (map fst (funs g)) \<and> fst ` set (funs g) \<subseteq> {..<labels g} \<and>
     (\<forall>f\<in>set (funs g). env_ok (snd (snd f)))"

text \<open>Properties of the deferred functions that every new one has.\<close>

lemma gexp_keeps:
  assumes P: "\<And>g n. P (g\<lparr>labels := n\<rparr>) = P g" "\<And>g x. P (g\<lparr>globs := x\<rparr>) = P g"
    and F: "\<And>g ls u g' ps e. gfun ps e g = Ok ls u g' \<Longrightarrow> P g \<Longrightarrow> P g'"
  shows "gexp ix env e g = Ok ls u g' \<Longrightarrow> P g \<Longrightarrow> P g'"
    and "gseq ix env es g = Ok ls u g' \<Longrightarrow> P g \<Longrightarrow> P g'"
    and "gpush ix env es g = Ok ls u g' \<Longrightarrow> P g \<Longrightarrow> P g'"
proof (induction ix env e and ix env es and ix env es arbitrary: g ls u g' and g ls u g' and g ls u g'
    rule: gexp_gseq_gpush.induct)
  case (5 ix env x)
  then show ?case using good_glob [of "ix x" g] by (auto simp: gvar_def gbnd_Ok emit_def P split: option.splits)
next
  case (7 ix env a b c)
  from "7.prems"(1) obtain la g1 lb g2 lc where
    r: "gexp ix env a (g\<lparr>labels := Suc (Suc (Suc (labels g)))\<rparr>) = Ok la () g1" "gexp ix env b g1 = Ok lb () g2" "gexp ix env c g2 = Ok lc () g'"
    by (auto simp: gbnd_Ok glabel_def emit_def)
  show ?case by (rule "7.IH"(3) [OF r(3) "7.IH"(2) [OF r(2) "7.IH"(1) [OF r(1)]]]) (simp add: P "7.prems")
next
  case (8 ix env a b)
  from "8.prems"(1) obtain la g1 lb where
    r: "gexp ix env a (g\<lparr>labels := Suc (Suc (Suc (labels g)))\<rparr>) = Ok la () g1" "gexp ix env b g1 = Ok lb () g'"
    by (auto simp: gbnd_Ok glabel_def emit_def)
  show ?case by (rule "8.IH"(2) [OF r(2) "8.IH"(1) [OF r(1)]]) (simp add: P "8.prems")
next
  case (10 ix env x e)
  from "10.prems"(1) obtain xs l1 where "gexp ix env e (g\<lparr>globs := xs\<rparr>) = Ok l1 () g'"
    using good_glob [of "ix x" g] by (auto simp: gbnd_Ok emit_def)
  from "10.IH" [OF this] "10.prems"(2) show ?case by (simp add: P)
next
  case (12 ix env p a ds)
  then obtain l h where "gexp ix env a h = Ok l () g'" "P h"
    by (cases "test1 p") (auto simp: gtest_def gbnd_Ok glabel_def emit_def P)
  from "12.IH" [OF this] show ?case .
next
  case (13 ix env p a b ds)
  then obtain l1 h l2 g1 where r: "gexp ix env b h = Ok l1 () g1" "P h" "gexp ix env a g1 = Ok l2 () g'"
    by (cases "test2 p") (auto simp: gtest_def gbnd_Ok glabel_def emit_def P)
  show ?case by (rule "13.IH"(2) [OF r(3) "13.IH"(1) [OF r(1,2)]])
next
  case (14 ix env f es)
  then show ?case by (auto simp: gbnd_Ok emit_def)
next
  case (16 ix env e es)
  then show ?case by (auto simp: gbnd_Ok)
next
  case (18 ix env e es)
  then show ?case by (auto simp: gbnd_Ok emit_def)
qed (auto simp: emit_def gret_def intro: F)

lemma funs_env:
  "gexp ix env e g = Ok ls u g' \<Longrightarrow> \<forall>f\<in>set (funs g). env_ok (snd (snd f)) \<Longrightarrow> \<forall>f\<in>set (funs g'). env_ok (snd (snd f))"
  "gseq ix env es g = Ok ls u g' \<Longrightarrow> \<forall>f\<in>set (funs g). env_ok (snd (snd f)) \<Longrightarrow> \<forall>f\<in>set (funs g'). env_ok (snd (snd f))"
  by (erule gexp_keeps(1,2) [rotated 3], assumption, simp, simp,
    use env_ok_params in \<open>fastforce simp: gfun_def gbnd_Ok glabel_def gcells_def gdefer_def emit_def split: if_splits\<close>)+

text \<open>The table of functions never holds more than it has room for.\<close>

lemma funs_bound:
  "gexp ix env e g = Ok ls u g' \<Longrightarrow> length (funs g) \<le> CFMAX \<Longrightarrow> length (funs g') \<le> CFMAX"
  "gseq ix env es g = Ok ls u g' \<Longrightarrow> length (funs g) \<le> CFMAX \<Longrightarrow> length (funs g') \<le> CFMAX"
  by (erule gexp_keeps(1,2) [rotated 3], assumption, simp, simp,
    fastforce simp: gfun_def gbnd_Ok glabel_def gcells_def gdefer_def emit_def split: if_splits)+

lemma good_fn:
  assumes r: "gfn ix (funs g ! d) g = Ok ls u g'" and d: "d < length (funs g)" and b: "between d g t"
  shows "\<exists>t'. check ls t = Some t' \<and> between (Suc d) g' t'"
proof -
  obtain l e env where f: "funs g ! d = (l, e, env)" by (cases "funs g ! d")
  from r f obtain l1 where l1: "gexp ix env e g = Ok l1 () g'" "ls = Label l # prologue @ l1 @ epilogue"
    by (auto simp: gfn_def gbnd_Ok emit_def)
  have m: "(l, e, env) \<in> set (funs g)" using d f nth_mem by metis
  have u: "undone d g = insert l (undone (Suc d) g)" using d f by (simp add: undone_def flip: Cons_nth_drop_Suc)
  have nl: "l \<notin> undone (Suc d) g"
  proof -
    have "distinct (map fst (drop d (funs g)))" using b by (simp add: between_def drop_map distinct_drop flip: drop_map)
    then show ?thesis using d f by (auto simp: undone_def simp flip: Cons_nth_drop_Suc)
  qed
  have l: "known t l = Some 0" "l \<notin> seen t" "env_ok env" "l < labels g"
    using b u m by (force simp: between_def pending_def)+
  let ?t = "t\<lparr>height := Some 3, frame := Some 3, target := None, seen := insert l (seen t)\<rparr>"
  have c1: "check (Label l # prologue) t = Some ?t"
    using b l(1,2) by (simp add: between_def prologue_def)
  have s: "sane (labels g) ?t" using b l(1) by (auto simp: between_def sane_def)
  from good_exp(1) [OF l1(1) l(3)] obtain fs where fs: "labels g \<le> labels g'" "funs g' = funs g @ fs" "distinct (map fst fs)"
    "fst ` set fs \<subseteq> {labels g..<labels g'}"
    and rr: "\<And>t h. height t = Some h \<Longrightarrow> frame t \<noteq> None \<Longrightarrow> sane (labels g) t \<Longrightarrow>
      (\<exists>t'. check l1 t = Some t' \<and> height t' = Some h \<and> effect (labels g) (labels g') (fst ` set fs) t t')"
    by (auto simp: good_alt)
  from rr [of ?t 3] s obtain t1 where t1: "check l1 ?t = Some t1" "height t1 = Some 3" "effect (labels g) (labels g') (fst ` set fs) ?t t1" by auto
  let ?z = "t1\<lparr>height := None, target := None\<rparr>"
  have c2: "check epilogue t1 = Some ?z" using t1 by (intro check_epilogue) (auto simp: effect_def)
  have un: "undone (Suc d) g' = undone (Suc d) g \<union> fst ` set fs" using d fs(2) by (auto simp: undone_def)
  have pt: "pending ?t = undone (Suc d) g" using b u nl l(1) by (auto simp: between_def pending_def)
  have old: "undone (Suc d) g \<subseteq> {..<labels g}" using b set_drop_subset [of "Suc d" "funs g"] by (force simp: between_def undone_def)
  have "between (Suc d) g' ?z"
    unfolding between_def
  proof (intro conjI)
    show "pending ?z = undone (Suc d) g'" using t1(3) pt un by (simp add: effect_def pending_def)
    show "\<forall>l\<in>undone (Suc d) g'. known ?z l = Some 0"
      using t1(3) b u old un by (auto simp: effect_def between_def)
    show "distinct (map fst (funs g'))" using b fs by (fastforce simp: between_def)
    show "fst ` set (funs g') \<subseteq> {..<labels g'}" using b fs by (fastforce simp: between_def)
    show "\<forall>f\<in>set (funs g'). env_ok (snd (snd f))" using funs_env(1) [OF l1(1)] b by (simp add: between_def)
  qed (use t1(3) in \<open>auto simp: effect_def sane_def\<close>)
  with c1 c2 t1(1) l1(2) show ?thesis
    by (simp only: append_Cons [symmetric] check_append option.case) blast
qed

lemma good_fns:
  "gfns ix r d g = Ok ls u g' \<Longrightarrow> between d g t \<Longrightarrow> length (funs g') \<le> d + r \<Longrightarrow>
    \<exists>t' d'. check ls t = Some t' \<and> between d' g' t' \<and> length (funs g') \<le> d'"
proof (induction r arbitrary: d g ls u t)
  case 0
  then show ?case by (auto simp: gret_def)
next
  case (Suc r)
  show ?case
  proof (cases "d < length (funs g)")
    case True
    with Suc.prems(1) obtain l1 g1 l2 where r: "gfn ix (funs g ! d) g = Ok l1 () g1" "gfns ix r (Suc d) g1 = Ok l2 () g'" "ls = l1 @ l2"
      by (auto simp: gbnd_Ok)
    from good_fn [OF r(1) True Suc.prems(2)] obtain t1 where t1: "check l1 t = Some t1" "between (Suc d) g1 t1" by blast
    from Suc.IH [OF r(2) t1(2)] Suc.prems(3) t1(1) r(3) show ?thesis by (auto simp: check_append)
  next
    case False
    with Suc.prems show ?thesis by (auto intro!: exI [of _ d])
  qed
qed

lemma check_words: "check (map Word is) t = Some t"
  by (induction "is") simp_all

lemma check_data: "check (data_code is) t = Some t"
  by (simp add: data_code_def check_words)

lemma fns_bound: "gfns ix r d g = Ok ls u g' \<Longrightarrow> length (funs g) \<le> CFMAX \<Longrightarrow> length (funs g') \<le> CFMAX"
proof (induction r arbitrary: d g ls u)
  case (Suc r)
  show ?case
  proof (cases "d < length (funs g)")
    case True
    with Suc.prems(1) obtain l1 g1 l2 where r: "gfn ix (funs g ! d) g = Ok l1 () g1" "gfns ix r (Suc d) g1 = Ok l2 () g'"
      by (auto simp: gbnd_Ok)
    from r(1) obtain l3 e env where "gexp ix env e g = Ok l3 () g1" by (auto simp: gfn_def gbnd_Ok emit_def split: prod.splits)
    from Suc.IH [OF r(2) funs_bound(1) [OF this Suc.prems(2)]] show ?thesis .
  qed (use Suc.prems in auto)
qed (simp add: gret_def)

lemma program_accepted:
  assumes "gprogram ix es (gstart n) = Ok ls u g"
  shows "accepted ls"
proof -
  from assms obtain l1 g1 l2 g2 where r: "gseq ix [] es (gstart n) = Ok l1 () g1" "gfns ix CFMAX 0 g1 = Ok l2 () g2"
    "ls = (header @ prologue) @ l1 @ (epilogue @ [Text []]) @ l2 @ [Text []] @ data_code (globs g2)"
    by (auto simp: gprogram_def gbnd_Ok emit_def gdata_def)
  have b: "length (funs g1) \<le> CFMAX" "length (funs g2) \<le> CFMAX"
    using funs_bound(2) [OF r(1)] fns_bound [OF r(2)] by (simp_all add: gstart_def)
  let ?t = "typing0\<lparr>height := Some 3, frame := Some 3, target := None\<rparr>"
  have c0: "check (header @ prologue) typing0 = Some ?t"
    by (simp add: header_def typing0_def check_prologue)
  from good_exp(2) [OF r(1)] obtain fs where fs: "funs g1 = fs" "distinct (map fst fs)" "fst ` set fs \<subseteq> {0..<labels g1}"
    and rr: "\<And>t h. height t = Some h \<Longrightarrow> frame t \<noteq> None \<Longrightarrow> sane 0 t \<Longrightarrow>
      (\<exists>t'. check l1 t = Some t' \<and> height t' = Some h \<and> effect 0 (labels g1) (fst ` set fs) t t')"
    by (auto simp: good_alt gstart_def env_ok_def)
  from rr [of ?t 3] obtain t1 where t1: "check l1 ?t = Some t1" "height t1 = Some 3" "effect 0 (labels g1) (fst ` set fs) ?t t1"
    by (auto simp: sane_def typing0_def)
  let ?z = "t1\<lparr>height := None, target := None\<rparr>"
  have c1: "check (epilogue @ [Text []]) t1 = Some ?z"
    using t1(2,3) check_epilogue [of t1] by (simp add: check_append effect_def)
  have "between 0 g1 ?z"
    using t1(3) fs funs_env(2) [OF r(1)] by (auto simp: between_def effect_def sane_def pending_def undone_def typing0_def gstart_def)
  from good_fns [OF r(2) this] b(2) obtain t2 d where t2: "check l2 ?z = Some t2" "between d g2 t2" "length (funs g2) \<le> d" by auto
  have "check ls typing0 = Some t2"
    unfolding r(3) check_append [of "header @ prologue"] c0 option.case check_append [of l1] t1(1)
      check_append [of "epilogue @ [Text []]"] c1 check_append [of l2] t2(1) by (simp add: check_data)
  moreover have "dom (known t2) \<subseteq> seen t2" "height t2 = None"
    using t2(2,3) by (auto simp: between_def undone_def pending_def)
  ultimately show ?thesis by (simp add: accepted_def)
qed

end
