(* ===== verification/Tml_Compile_Props.thy ===== *)
theory Tml_Compile_Props
  imports Tml_Compile_Correct Tml_Codegen_Safe
begin

text \<open>
  What the compiler of \<open>compile.h\<close> does from its initialisation on: the text it writes is the code
  of the program, and that code keeps the stack balanced and defines what it refers to.
\<close>

section \<open>Initialisation\<close>

lemma sym_frame_same:
  assumes "sym_frame s s'"
  shows "heap_next s' = heap_next s" "special_sym s' = special_sym s" "gc_enabled s' = gc_enabled s"
    "free_list s' = free_list s" "heap_car s' = heap_car s" "heap_cdr s' = heap_cdr s" "uart_out s' = uart_out s"
    "c_stack s' = c_stack s"
  using assms by (auto simp: sym_frame_def)

lemma src_frame:
  "src ns s v d \<Longrightarrow> sym_frame s s' \<Longrightarrow> src (ns @ ms) s' v d"
  by (induction d arbitrary: v) (auto simp: sym_frame_same intro: symbol_of_mono)

lemma intern_symbol:
  assumes "symtab s ns" and "NUL \<notin> set name" "length name \<le> 8192"
  shows "(\<exists>s'. intern name s = Halted s') \<or>
    (\<exists>v s' ms. intern name s = Done v s' \<and> symtab s' (ns @ ms) \<and> symbol_of (ns @ ms) name v \<and> sym_frame s s')"
proof -
  obtain ns' i where e: "interned ns name = (ns', i)" by fastforce
  from interned_nth [OF e] obtain ms where i: "i < length ns'" "ns' ! i = name" "ns' = ns @ ms" by auto
  have "symbol_of (ns @ ms) name (MAKE_SYMBOL (of_nat i))" using i unfolding symbol_of_def by blast
  with intern_result [OF assms] e i(3) show ?thesis by fastforce
qed

lemma cp_intern_symbols:
  "symtab s ns \<Longrightarrow> \<forall>(p, name)\<in>set ps. NUL \<notin> set name \<and> length name \<le> 8192 \<Longrightarrow> distinct (map fst ps) \<Longrightarrow>
    (\<exists>s'. cp_intern ps c s = Halted s') \<or>
    (\<exists>c' s' ms. cp_intern ps c s = Done ((), c') s' \<and> symtab s' (ns @ ms) \<and> sym_frame s s' \<and>
      (\<exists>f. c' = c\<lparr>cp_sym := f\<rparr> \<and> (\<forall>p. p \<notin> fst ` set ps \<longrightarrow> f p = cp_sym c p)) \<and>
      (\<forall>(p, name)\<in>set ps. symbol_of (ns @ ms) name (cp_sym c' p)))"
proof (induction ps arbitrary: s ns c)
  case Nil
  show ?case
    by (rule disjI2, rule exI [of _ c], rule exI [of _ s], rule exI [of _ "[]"])
      (use Nil in \<open>auto simp: cret_def sym_frame_refl intro!: exI [of _ "cp_sym c"]\<close>)
next
  case (Cons q ps)
  obtain p name where q: "q = (p, name)" by (cases q)
  with Cons.prems have name: "NUL \<notin> set name" "length name \<le> 8192" by auto
  let ?step = "\<lambda>v. c\<lparr>cp_sym := (cp_sym c)(p := v)\<rparr>"
  from intern_symbol [OF Cons.prems(1) name] show ?case
  proof (elim disjE exE conjE)
    fix s' assume "intern name s = Halted s'"
    then show ?thesis by (simp add: q cbnd_def rt_def bnd_def)
  next
    fix v s1 ms assume r: "intern name s = Done v s1" "symtab s1 (ns @ ms)" "symbol_of (ns @ ms) name v" "sym_frame s s1"
    have run: "cp_intern (q # ps) c s = cp_intern ps (?step v) s1"
      using r(1) by (simp add: q cbnd_def rt_def cupd_def bnd_def)
    have "\<forall>(p, name)\<in>set ps. NUL \<notin> set name \<and> length name \<le> 8192" "distinct (map fst ps)" using Cons.prems by auto
    from Cons.IH [OF r(2) this, of "?step v"] show ?thesis
    proof (elim disjE exE conjE)
      fix s' assume "cp_intern ps (?step v) s1 = Halted s'"
      with run show ?thesis by simp
    next
      fix c' s' ms' f
      assume i: "cp_intern ps (?step v) s1 = Done ((), c') s'" "symtab s' ((ns @ ms) @ ms')" "sym_frame s1 s'"
        "c' = ?step v\<lparr>cp_sym := f\<rparr>" "\<forall>p'. p' \<notin> fst ` set ps \<longrightarrow> f p' = cp_sym (?step v) p'"
        "\<forall>(p, name)\<in>set ps. symbol_of ((ns @ ms) @ ms') name (cp_sym c' p)"
      have "p \<notin> fst ` set ps" using Cons.prems(3) q by auto
      then have "cp_sym c' p = v" using i(4,5) by simp
      with r(3) have "symbol_of (ns @ ms @ ms') name (cp_sym c' p)" using symbol_of_mono [of "ns @ ms" name v ms'] by simp
      moreover have "sym_frame s s'" by (rule sym_frame_trans [OF r(4) i(3)])
      moreover have "c' = c\<lparr>cp_sym := f\<rparr>" "\<forall>p'. p' \<notin> fst ` set (q # ps) \<longrightarrow> f p' = cp_sym c p'" using i(4,5) q by auto
      ultimately show ?thesis
        using run i(1,2,6) q by (intro disjI2 exI [of _ c'] exI [of _ s'] exI [of _ "ms @ ms'"]) auto
    qed
  qed
qed

lemma compile_init_ready:
  assumes "symtab s ns" and "names ns" and "specials_ok ns s" and "gc_enabled s \<longrightarrow> sint (free_list s) < 0"
  shows "(\<exists>s'. compile_init c s = Halted s') \<or>
    (\<exists>c' s' ms. compile_init c s = Done ((), c') s' \<and> sym_frame s s' \<and> initialised (ns @ ms) c' s')"
proof -
  let ?c = "c\<lparr>clbl := 0, cf_n := 0, cf_done := 0, cg_n := 0\<rparr>"
  have run: "compile_init c s = cp_intern cp_names ?c s"
    by (simp add: compile_init_def cbnd_def cupd_def bnd_def)
  have ok: "\<forall>(p, name)\<in>set cp_names. NUL \<notin> set name \<and> length name \<le> 8192" "distinct (map fst cp_names)"
    by (simp_all add: cp_names_def NUL_def)
  from cp_intern_symbols [OF assms(1) ok, of ?c] show ?thesis
  proof (elim disjE exE conjE)
    fix c' s' ms f
    assume r: "cp_intern cp_names ?c s = Done ((), c') s'" "symtab s' (ns @ ms)" "sym_frame s s'" "c' = ?c\<lparr>cp_sym := f\<rparr>"
      "\<forall>(p, name)\<in>set cp_names. symbol_of (ns @ ms) name (cp_sym c' p)"
    have "names (ns @ ms)" using r(2) assms(2) by (auto simp: names_def symtab_def)
    moreover have "specials_ok (ns @ ms) s'"
      using assms(3) sym_frame_same(2) [OF r(3)] symbol_of_mono by (fastforce simp: specials_ok_def)
    ultimately have "initialised (ns @ ms) c' s'"
      using r(4,5) assms(4) sym_frame_same [OF r(3)] by (simp add: initialised_def ready_def)
    with run r(1,3) show ?thesis by auto
  qed (use run in auto)
qed

section \<open>Globals\<close>

text \<open>Every global in use has its word in the data section, once.\<close>

fun words_of :: "line list \<Rightarrow> nat list" where
  "words_of [] = []"
| "words_of (Word i # ls) = i # words_of ls"
| "words_of (_ # ls) = words_of ls"

fun uses :: "line list \<Rightarrow> nat list" where
  "uses [] = []"
| "uses (LaGlobal i # ls) = i # uses ls"
| "uses (_ # ls) = uses ls"

definition linked :: "line list \<Rightarrow> bool" where
  "linked ls \<longleftrightarrow> set (uses ls) \<subseteq> set (words_of ls) \<and> distinct (words_of ls)"

lemma uses_append [simp]: "uses (ls @ ms) = uses ls @ uses ms" "words_of (ls @ ms) = words_of ls @ words_of ms"
  by (induction ls rule: uses.induct; simp) (induction ls rule: words_of.induct; simp)

definition links :: "gst \<Rightarrow> line list \<Rightarrow> gst \<Rightarrow> bool" where
  "links g ls g' \<longleftrightarrow> set (globs g) \<subseteq> set (globs g') \<and> (distinct (globs g) \<longrightarrow> distinct (globs g')) \<and>
     set (uses ls) \<subseteq> set (globs g') \<and> words_of ls = []"

lemma links_seq: "links g ls g1 \<Longrightarrow> links g1 ms g2 \<Longrightarrow> links g (ls @ ms) g2"
  by (auto simp: links_def)

lemma links_bnd:
  "gbnd m k g = Ok ls b g' \<Longrightarrow> (\<And>l a g1. m g = Ok l a g1 \<Longrightarrow> links g l g1) \<Longrightarrow>
   (\<And>a h l g1. k a h = Ok l b g1 \<Longrightarrow> links h l g1) \<Longrightarrow> links g ls g'"
  by (auto simp: gbnd_Ok intro: links_seq)

lemma links_basic:
  "glabel g = Ok ls a g' \<Longrightarrow> links g ls g'" "gcells n g = Ok ls b g' \<Longrightarrow> links g ls g'"
  "gdefer f g = Ok ls b g' \<Longrightarrow> links g ls g'" "gglob i g = Ok ls b g' \<Longrightarrow> links g ls g' \<and> i \<in> set (globs g')"
  "gret b g = Ok ls b g' \<Longrightarrow> links g ls g'"
  "emit l g = Ok ls b g' \<Longrightarrow> uses l = [] \<Longrightarrow> words_of l = [] \<Longrightarrow> links g ls g'"
  by (auto simp: glabel_def gcells_def gdefer_def gglob_def gret_def emit_def links_def split: if_splits)

lemma quiet_code [simp]:
  "uses (quote_code ix d) = []" "words_of (quote_code ix d) = []"
  "uses (op1_code p) = []" "words_of (op1_code p) = []" "uses (op2_code q) = []" "words_of (op2_code q) = []"
  "uses (truth_code lt lx) = []" "words_of (truth_code lt lx) = []"
  by (induction d) (simp_all add: call_code_def truth_code_def; cases p; cases q; simp add: call_code_def)+

lemma quiet_op2 [simp]:
  "uses (if p = OCons then op2_code p else Pop R1 # op2_code p) = []"
  "words_of (if p = OCons then op2_code p else Pop R1 # op2_code p) = []"
  by (simp_all add: call_code_def)

lemma links_labels [simp]: "links (g\<lparr>labels := n\<rparr>) ls g' = links g ls g'"
  by (simp add: links_def)

lemma links_fun: "gfun ps e g = Ok ls u g' \<Longrightarrow> links g ls g'"
  by (auto simp: gfun_def gbnd_Ok glabel_def gcells_def gdefer_def emit_def links_def split: if_splits)

lemma links_exp:
  "gexp ix env e g = Ok ls u g' \<Longrightarrow> links g ls g'"
  "gseq ix env es g = Ok ls u g' \<Longrightarrow> links g ls g'"
  "gpush ix env es g = Ok ls u g' \<Longrightarrow> links g ls g'"
proof (induction ix env e and ix env es and ix env es arbitrary: g ls u g' and g ls u g' and g ls u g'
    rule: gexp_gseq_gpush.induct)
  case (5 ix env x)
  then show ?case
    by (cases "map_of env x") (auto simp: gvar_def gbnd_Ok emit_def links_def gglob_def split: if_splits)
next
  case (7 ix env a b c)
  from "7.prems"(1) obtain la g1 lb g2 lc where
    r: "gexp ix env a (g\<lparr>labels := Suc (Suc (Suc (labels g)))\<rparr>) = Ok la () g1" "gexp ix env b g1 = Ok lb () g2" "gexp ix env c g2 = Ok lc () g'"
    "uses ls = uses la @ uses lb @ uses lc" "words_of ls = words_of la @ words_of lb @ words_of lc"
    by (auto simp: gbnd_Ok glabel_def emit_def)
  from "7.IH"(1) [OF r(1)] "7.IH"(2) [OF r(2)] "7.IH"(3) [OF r(3)] r(4,5) show ?case by (auto simp: links_def)
next
  case (8 ix env a b)
  from "8.prems"(1) obtain la g1 lb where
    r: "gexp ix env a (g\<lparr>labels := Suc (Suc (Suc (labels g)))\<rparr>) = Ok la () g1" "gexp ix env b g1 = Ok lb () g'"
    "uses ls = uses la @ uses lb" "words_of ls = words_of la @ words_of lb"
    by (auto simp: gbnd_Ok glabel_def emit_def)
  from "8.IH"(1) [OF r(1)] "8.IH"(2) [OF r(2)] r(3,4) show ?case by (auto simp: links_def)
next
  case (10 ix env x e)
  from "10.prems"(1) obtain g1 l1 where r: "gglob (ix x) g = Ok [] () g1" "gexp ix env e g1 = Ok l1 () g'" "ls = l1 @ [LaGlobal (ix x), SwGlobal]"
    using good_glob [of "ix x" g] by (auto simp: gbnd_Ok emit_def)
  from links_basic(4) [OF r(1)] "10.IH" [OF r(2)] r(3) show ?case by (auto simp: links_def)
next
  case (12 ix env p a ds)
  then obtain l n where r: "gexp ix env a (g\<lparr>labels := n\<rparr>) = Ok l () g'" "uses ls = uses l" "words_of ls = words_of l"
    by (cases "test1 p") (auto simp: gtest_def gbnd_Ok glabel_def emit_def intro: that [of "labels g"])
  from "12.IH" [OF r(1)] r(2,3) show ?case by (simp add: links_def)
next
  case (13 ix env p a b ds)
  then obtain l1 n l2 g1 where r: "gexp ix env b (g\<lparr>labels := n\<rparr>) = Ok l1 () g1" "gexp ix env a g1 = Ok l2 () g'"
    "uses ls = uses l1 @ uses l2" "words_of ls = words_of l1 @ words_of l2"
    by (cases "test2 p") (auto simp: gtest_def gbnd_Ok glabel_def emit_def simp del: if_split intro: that [of "labels g"])
  from "13.IH"(1) [OF r(1)] "13.IH"(2) [OF r(2)] r(3,4) show ?case by (auto simp: links_def)
next
  case (14 ix env f es)
  from "14.prems"(1) obtain l1 g1 l2 where r: "gpush ix env es g = Ok l1 () g1" "gexp ix env f g1 = Ok l2 () g'"
    "uses ls = uses l1 @ uses l2" "words_of ls = words_of l1 @ words_of l2"
    by (auto simp: gbnd_Ok emit_def)
  from "14.IH"(1) [OF r(1)] "14.IH"(2) [OF r(2)] r(3,4) show ?case by (auto simp: links_def)
next
  case (16 ix env e es)
  from "16.prems"(1) obtain l1 g1 l2 where r: "gexp ix env e g = Ok l1 () g1" "gseq ix env es g1 = Ok l2 () g'" "ls = l1 @ l2"
    by (auto simp: gbnd_Ok)
  from links_seq [OF "16.IH"(1) [OF r(1)] "16.IH"(2) [OF r(2)]] r(3) show ?case by simp
next
  case (18 ix env e es)
  from "18.prems"(1) obtain l1 g1 l2 where r: "gpush ix env es g = Ok l1 () g1" "gexp ix env e g1 = Ok l2 () g'" "ls = l1 @ l2 @ [Push R0]"
    by (auto simp: gbnd_Ok emit_def)
  from links_seq [OF "18.IH"(1) [OF r(1)] "18.IH"(2) [OF r(2)]] r(3) show ?case by (simp add: links_def)
qed (auto simp: emit_def gret_def links_def dest: links_fun [unfolded links_def])

lemma links_fns: "gfns ix r d g = Ok ls u g' \<Longrightarrow> links g ls g'"
proof (induction r arbitrary: d g ls u)
  case (Suc r)
  show ?case
  proof (cases "d < length (funs g)")
    case True
    obtain l e env where f: "funs g ! d = (l, e, env)" by (cases "funs g ! d")
    from Suc.prems True f obtain l1 g1 l2 where r: "gexp ix env e g = Ok l1 () g1" "gfns ix r (Suc d) g1 = Ok l2 () g'"
      "ls = (Label l # prologue) @ l1 @ epilogue @ l2"
      by (auto simp: gbnd_Ok gfn_def emit_def)
    from links_exp(1) [OF r(1)] Suc.IH [OF r(2)] r(3) show ?thesis by (auto simp: links_def prologue_def epilogue_def)
  qed (use Suc.prems in \<open>auto simp: links_def\<close>)
qed (auto simp: gret_def links_def)

lemma words_data: "words_of (data_code is) = is" "uses (data_code is) = []"
proof -
  have "words_of (map Word is) = is" "uses (map Word is) = []" by (induction "is") simp_all
  then show "words_of (data_code is) = is" "uses (data_code is) = []" by (simp_all add: data_code_def)
qed

lemma program_linked:
  assumes "gprogram ix es (gstart n) = Ok ls u g"
  shows "linked ls"
proof -
  from assms obtain l1 g1 l2 g2 where r: "gseq ix [] es (gstart n) = Ok l1 () g1" "gfns ix CFMAX 0 g1 = Ok l2 () g2"
    "ls = (header @ prologue) @ l1 @ (epilogue @ [Text []]) @ l2 @ [Text []] @ data_code (globs g2)"
    by (auto simp: gprogram_def gbnd_Ok emit_def gdata_def)
  from links_exp(2) [OF r(1)] links_fns [OF r(2)] show ?thesis
    by (auto simp: r(3) linked_def links_def words_data header_def prologue_def epilogue_def gstart_def)
qed

section \<open>Room\<close>

text \<open>Two cells for every parameter of every function are all the compiler allocates.\<close>

fun params :: "exp \<Rightarrow> nat" where
  "params (EIf a b c) = params a + params b + params c"
| "params (EIf1 a b) = params a + params b"
| "params (EBegin es) = sum_list (map params es)"
| "params (EDef x e) = params e"
| "params (EFun ps e) = length ps + params e"
| "params (EOp1 p a ds) = params a"
| "params (EOp2 p a b ds) = params a + params b"
| "params (ECall f es) = params f + sum_list (map params es)"
| "params e = 0"

text \<open>The cells in use and those the functions from number \<open>d\<close> on will take.\<close>

definition claim :: "nat \<Rightarrow> gst \<Rightarrow> nat" where
  "claim d g = cells g + 2 * sum_list (map (\<lambda>(l, e, env). params e) (drop d (funs g)))"

definition fits :: "nat \<Rightarrow> nat \<Rightarrow> 'a gen \<Rightarrow> bool" where
  "fits d n m \<longleftrightarrow> (\<forall>g. d \<le> length (funs g) \<longrightarrow> claim d g + 2 * n \<le> HEAP_SIZE \<longrightarrow>
     (case m g of Ok ls u g' \<Rightarrow> d \<le> length (funs g') \<and> claim d g' \<le> claim d g + 2 * n | Table \<Rightarrow> True | Full \<Rightarrow> False))"

named_theorems fitting "operations that stay within their claim"

lemma fits_bnd: "fits d a m \<Longrightarrow> (\<And>x. fits d b (k x)) \<Longrightarrow> fits d (a + b) (gbnd m k)"
proof -
  assume m: "fits d a m" and k: "\<And>x. fits d b (k x)"
  show ?thesis
    unfolding fits_def
  proof (intro allI impI)
    fix g assume g: "d \<le> length (funs g)" "claim d g + 2 * (a + b) \<le> HEAP_SIZE"
    show "case gbnd m k g of Ok ls u g' \<Rightarrow> d \<le> length (funs g') \<and> claim d g' \<le> claim d g + 2 * (a + b) | Table \<Rightarrow> True | Full \<Rightarrow> False"
    proof (cases "m g")
      case (Ok l x g1)
      with m g have 1: "d \<le> length (funs g1)" "claim d g1 \<le> claim d g + 2 * a" by (fastforce simp: fits_def)+
      with k [of x] g(2) have "case k x g1 of Ok ls u g' \<Rightarrow> d \<le> length (funs g') \<and> claim d g' \<le> claim d g1 + 2 * b | Table \<Rightarrow> True | Full \<Rightarrow> False"
        by (simp add: fits_def)
      with 1 Ok show ?thesis by (auto simp: gbnd_def split: gres.splits)
    qed (use m g in \<open>fastforce simp: fits_def gbnd_def\<close>)+
  qed
qed

lemma fits_bnd0 [fitting]: "fits d 0 m \<Longrightarrow> (\<And>x. fits d b (k x)) \<Longrightarrow> fits d b (gbnd m k)"
  using fits_bnd [of d 0 m b k] by simp

lemma fits_last: "fits d a m \<Longrightarrow> (\<And>x. fits d 0 (k x)) \<Longrightarrow> fits d a (gbnd m k)"
  using fits_bnd [of d a m 0 k] by simp

lemma fits_basic [fitting]: "fits d 0 glabel" "fits d 0 (emit ls)" "fits d 0 (gret x)" "fits d 0 (gglob i)"
  by (auto simp: fits_def claim_def glabel_def emit_def gret_def gglob_def split: gres.split)

lemma fits_fun: "fits d (length ps + params e) (gfun ps e)"
  by (auto simp: fits_def claim_def gfun_def gbnd_def glabel_def gcells_def gdefer_def emit_def)

lemma fits_var: "fits d 0 (gvar ix env x)"
  by (cases "map_of env x") (auto simp: gvar_def intro!: fitting)

lemma fits_test: "fits d n m \<Longrightarrow> fits d n (gtest t m)"
  by (simp add: gtest_def) (intro impI fits_bnd0 fits_last fitting; assumption)

lemma fits_exp:
  "fits d (params e) (gexp ix env e)"
  "fits d (sum_list (map params es)) (gseq ix env es)"
  "fits d (sum_list (map params es)) (gpush ix env es)"
proof (induction ix env e and ix env es and ix env es rule: gexp_gseq_gpush.induct)
  case (7 ix env a b c)
  have "fits d (params a + (params b + (params c + 0))) (gexp ix env (EIf a b c))"
    unfolding gexp.simps by (intro fits_bnd0 fits_basic fits_bnd [OF "7.IH"(1)] fits_bnd [OF "7.IH"(2)] fits_bnd [OF "7.IH"(3)])
  then show ?case by (simp add: add.assoc)
next
  case (8 ix env a b)
  have "fits d (params a + (params b + 0)) (gexp ix env (EIf1 a b))"
    unfolding gexp.simps by (intro fits_bnd0 fits_basic fits_bnd [OF "8.IH"(1)] fits_bnd [OF "8.IH"(2)])
  then show ?case by simp
next
  case (10 ix env x e)
  show ?case
    unfolding gexp.simps params.simps by (rule fits_bnd0, rule fits_basic, rule fits_last, rule "10.IH", rule fits_basic)
next
  case (12 ix env p a ds)
  show ?case
    unfolding gexp.simps params.simps by (rule fits_test, rule fits_last, rule "12.IH", rule fits_basic)
next
  case (13 ix env p a b ds)
  have "fits d (params b + (params a + 0)) (gexp ix env (EOp2 p a b ds))"
    unfolding gexp.simps by (intro fits_test fits_bnd [OF "13.IH"(1)] fits_bnd0 fits_bnd [OF "13.IH"(2)] fits_basic)
  then show ?case by (simp add: add.commute)
next
  case (14 ix env f es)
  have "fits d (sum_list (map params es) + (params f + 0)) (gexp ix env (ECall f es))"
    unfolding gexp.simps by (intro fits_bnd [OF "14.IH"(1)] fits_bnd [OF "14.IH"(2)] fits_basic)
  then show ?case by (simp add: add.commute)
next
  case (16 ix env e es)
  from fits_bnd [OF "16.IH"(1), of _ "\<lambda>_. gseq ix env es"] "16.IH"(2) show ?case by simp
next
  case (18 ix env e es)
  have "fits d (sum_list (map params es) + (params e + 0)) (gpush ix env (e # es))"
    unfolding gpush.simps by (intro fits_bnd [OF "18.IH"(1)] fits_bnd [OF "18.IH"(2)] fits_basic)
  then show ?case by (simp add: add.commute)
qed (auto intro: fits_basic fits_var fits_fun)

lemma fns_room: "d \<le> length (funs g) \<Longrightarrow> claim d g \<le> HEAP_SIZE \<Longrightarrow> gfns ix r d g \<noteq> Full"
proof (induction r arbitrary: d g)
  case (Suc r)
  show ?case
  proof (cases "d < length (funs g)")
    case True
    obtain l e env where f: "funs g ! d = (l, e, env)" by (cases "funs g ! d")
    have c: "claim d g = claim (Suc d) g + 2 * params e" using True f by (simp add: claim_def flip: Cons_nth_drop_Suc)
    have "fits (Suc d) (params e) (gfn ix (funs g ! d))"
      unfolding gfn_def f prod.case by (rule fits_bnd0, rule fits_basic, rule fits_last, rule fits_exp, rule fits_basic)
    then have "case gfn ix (funs g ! d) g of Ok ls u g' \<Rightarrow> Suc d \<le> length (funs g') \<and> claim (Suc d) g' \<le> claim (Suc d) g + 2 * params e
        | Table \<Rightarrow> True | Full \<Rightarrow> False"
      using Suc.prems(2) c True unfolding fits_def by (simp add: Suc_leI)
    then have "case gfn ix (funs g ! d) g of Ok ls u g' \<Rightarrow> Suc d \<le> length (funs g') \<and> claim (Suc d) g' \<le> HEAP_SIZE
        | Table \<Rightarrow> True | Full \<Rightarrow> False"
      using Suc.prems(2) c by (simp split: gres.splits)
    then show ?thesis using True Suc.IH [of "Suc d"] by (auto simp: gbnd_def split: gres.splits)
  qed simp
qed (simp add: gret_def)

lemma program_room:
  assumes "n + 2 * sum_list (map params es) \<le> HEAP_SIZE"
  shows "gprogram ix es (gstart n) \<noteq> Full"
proof -
  have "case gseq ix [] es (gstart n) of Ok ls u g' \<Rightarrow> claim 0 g' \<le> HEAP_SIZE | Table \<Rightarrow> True | Full \<Rightarrow> False"
    using fits_exp(2) [of 0 es ix "[]"] assms by (force simp: fits_def claim_def gstart_def split: gres.splits)
  then show ?thesis
    using fns_room [of 0] by (auto simp: gprogram_def gbnd_def emit_def gdata_def split: gres.splits)
qed

section \<open>The compiler on a program in the heap\<close>

definition compilable :: "string list \<Rightarrow> lisp \<Rightarrow> i24 \<Rightarrow> exp list \<Rightarrow> nat \<Rightarrow> nat \<Rightarrow> bool" where
  "compilable ns s v es n K \<longleftrightarrow> symtab s ns \<and> names ns \<and> specials_ok ns s \<and> (gc_enabled s \<longrightarrow> sint (free_list s) < 0) \<and>
     heap_next s = of_nat n \<and> n + 2 * sum_list (map params es) \<le> HEAP_SIZE \<and> (\<forall>e\<in>set es. wf_exp e \<and> work e \<le> K) \<and>
     src ns s v (lst (map form es))"

definition compile :: "nat \<Rightarrow> i24 \<Rightarrow> unit cact" where
  "compile k v = cbnd compile_init (\<lambda>_. compile_program k v)"

lemma compile_run:
  assumes "compilable ns s v es n K" and k: "K + length es < k" "K + CFMAX < k"
  shows "(\<exists>s'. compile_init c s = Halted s') \<or> (\<exists>ms. case gprogram (index_of (ns @ ms)) es (gstart n) of
      Ok ls u g \<Rightarrow> \<exists>c' s'. compile k v c s = Done ((), c') s' \<and> uart_out s' = uart_out s @ code_text ls
    | _ \<Rightarrow> compile k v c s = Wild)"
proof -
  from assms(1) have tab: "symtab s ns" "names ns" "specials_ok ns s" "gc_enabled s \<longrightarrow> sint (free_list s) < 0"
    and n: "heap_next s = of_nat n" "n \<le> HEAP_SIZE" "n + 2 * sum_list (map params es) \<le> HEAP_SIZE"
    and es: "\<forall>e\<in>set es. wf_exp e \<and> work e \<le> K" and v: "src ns s v (lst (map form es))"
    by (auto simp: compilable_def)
  from compile_init_ready [OF tab, of c] show ?thesis
  proof (elim disjE exE conjE)
    fix s' assume "compile_init c s = Halted s'"
    then show ?thesis by blast
  next
    fix c1 s1 ms assume r: "compile_init c s = Done ((), c1) s1" "sym_frame s s1" "initialised (ns @ ms) c1 s1"
    have run: "compile k v c s = compile_program k v c1 s1" using r(1) by (simp add: compile_def cbnd_def bnd_def)
    have "trd (ns @ ms) K (compile_program k v) c1 s1 (gprogram (index_of (ns @ ms)) es (gstart n))"
      using n by (intro trd_program [OF r(3) _ n(2) es k src_frame [OF v r(2)]]) (simp add: sym_frame_same [OF r(2)])
    then have "case gprogram (index_of (ns @ ms)) es (gstart n) of
        Ok ls u g \<Rightarrow> \<exists>c' s'. compile k v c s = Done ((), c') s' \<and> uart_out s' = uart_out s @ code_text ls
      | _ \<Rightarrow> compile k v c s = Wild"
      using program_room [OF n(3), of "index_of (ns @ ms)"]
      by (auto simp: trd_def run sym_frame_same [OF r(2)] split: gres.splits)
    then show ?thesis by blast
  qed
qed



section \<open>A table that is too small\<close>

lemma seq_vars_overflow:
  "distinct xs \<Longrightarrow> inj_on ix (set xs) \<Longrightarrow> ix ` set xs \<inter> set (globs g) = {} \<Longrightarrow> length (globs g) \<le> CGMAX \<Longrightarrow>
   CGMAX < length (globs g) + length xs \<Longrightarrow> gseq ix [] (map EVar xs) g = Table"
proof (induction xs arbitrary: g)
  case (Cons x xs)
  show ?case
  proof (cases "length (globs g) < CGMAX")
    case True
    have "gseq ix [] (map EVar xs) (g\<lparr>globs := globs g @ [ix x]\<rparr>) = Table"
      using Cons.prems True by (intro Cons.IH) (auto simp: inj_on_def)
    with True Cons.prems(3) show ?thesis by (simp add: gbnd_def gvar_def gglob_def emit_def)
  next
    case False
    with Cons.prems(3) show ?thesis by (simp add: gbnd_def gvar_def gglob_def)
  qed
qed simp

lemma src_syms: "src ns s v (lst (map Sym xs)) \<Longrightarrow> set xs \<subseteq> set ns"
  by (induction xs arbitrary: v) (auto simp: symbol_of_def)


section \<open>Programs for which it holds\<close>

text \<open>A runtime that has interned some names and holds some cells.\<close>

definition holding :: "string list \<Rightarrow> (i24 \<times> i24) list \<Rightarrow> lisp" where
  "holding ns hs = zeroed\<lparr>heap_car := (\<lambda>i. if i < length hs then fst (hs ! i) else 0),
     heap_cdr := (\<lambda>i. if i < length hs then snd (hs ! i) else 0), heap_next := of_nat (length hs),
     name_pool := (\<lambda>k. if k < length (pool_text ns) then pool_text ns ! k else NUL),
     name_pool_next := of_nat (length (pool_text ns)),
     sym_name_off := (\<lambda>i. of_nat (length (pool_text (take i ns)))), sym_count := of_nat (length ns),
     special_sym := (\<lambda>S. MAKE_SYMBOL (of_nat (index_of ns (the (map_of special_names S)))))\<rparr>"

lemma holding_ok:
  assumes "names ns" and "length (pool_text ns) \<le> NAME_POOL_SIZE" and "\<forall>n\<in>set ns. NUL \<notin> set n"
    and "snd ` set special_names \<subseteq> set ns"
  shows "symtab (holding ns hs) ns" "specials_ok ns (holding ns hs)" "\<not> gc_enabled (holding ns hs)"
    "heap_next (holding ns hs) = of_nat (length hs)"
proof -
  show "symtab (holding ns hs) ns" using assms(1-3) by (simp add: holding_def symtab_def names_def)
  have d: "distinct (map fst special_names)" by (simp add: special_names_def)
  show "specials_ok ns (holding ns hs)"
    unfolding specials_ok_def
  proof (clarify)
    fix S name assume m: "(S, name) \<in> set special_names"
    with assms(4) have "name \<in> set ns" by force
    moreover from this have "index_of ns name < length ns"
      using assms(1) by (auto simp: in_set_conv_nth index_of_nth names_def)
    ultimately show "symbol_of ns name (special_sym (holding ns hs) S)"
      using m d assms(1) by (simp add: holding_def symbol_index)
  qed
qed (simp_all add: holding_def zeroed_def)

definition demo_names :: "string list" where
  "demo_names = [''nil'', ''t''] @ map snd special_names @ [''f'', ''x'']"

lemma demo_names_ok:
  "names demo_names" "length (pool_text demo_names) \<le> NAME_POOL_SIZE" "\<forall>n\<in>set demo_names. NUL \<notin> set n"
  "snd ` set special_names \<subseteq> set demo_names"
  by (simp_all add: demo_names_def special_names_def names_def MAX_SYMBOLS_def NAME_POOL_SIZE_def NUL_def)

text \<open>The program \<open>(define f (lambda (x) x))\<close>.\<close>

definition demo_cells :: "(i24 \<times> i24) list" where
  "demo_cells = [(MAKE_CONS 1, NIL_VAL), (MAKE_SYMBOL 4, MAKE_CONS 2), (MAKE_SYMBOL 14, MAKE_CONS 3), (MAKE_CONS 4, NIL_VAL),
     (MAKE_SYMBOL 5, MAKE_CONS 5), (MAKE_CONS 6, MAKE_CONS 7), (MAKE_SYMBOL 15, NIL_VAL), (MAKE_SYMBOL 15, NIL_VAL)]"

definition demo_program :: "exp list" where
  "demo_program = [EDef ''f'' (EFun [''x''] (EVar ''x''))]"

lemma demo_symbols:
  "symbol_of demo_names ''define'' (MAKE_SYMBOL 4)" "symbol_of demo_names ''lambda'' (MAKE_SYMBOL 5)"
  "symbol_of demo_names ''f'' (MAKE_SYMBOL 14)" "symbol_of demo_names ''x'' (MAKE_SYMBOL 15)"
  "symbol_of demo_names ''nil'' NIL_VAL"
proof -
  have i: "symbol_of demo_names (demo_names ! i) (MAKE_SYMBOL (of_nat i))" if "i < length demo_names" for i
    using that by (auto simp: symbol_of_def)
  show "symbol_of demo_names ''define'' (MAKE_SYMBOL 4)" "symbol_of demo_names ''lambda'' (MAKE_SYMBOL 5)"
    "symbol_of demo_names ''f'' (MAKE_SYMBOL 14)" "symbol_of demo_names ''x'' (MAKE_SYMBOL 15)"
    using i [of 4] i [of 5] i [of 14] i [of 15] by (simp_all add: demo_names_def special_names_def)
  show "symbol_of demo_names ''nil'' NIL_VAL" using symbol_const(1) [OF demo_names_ok(1)] .
qed

lemma cell_numeral [simp]:
  "cell_of (MAKE_CONS 0) = 0" "cell_of (MAKE_CONS 1) = 1"
  "(numeral n :: nat) < 2097152 \<Longrightarrow> cell_of (MAKE_CONS (numeral n)) = numeral n"
  using cell_of_make(1) [of 0] cell_of_make(1) [of 1] cell_of_make(1) [of "numeral n"] by simp_all

lemma demo_compilable: "compilable demo_names (holding demo_names demo_cells) (MAKE_CONS 0) demo_program 8 5"
proof -
  have n: "heap_next (holding demo_names demo_cells) = 8" by (simp add: holding_def demo_cells_def)
  have "src demo_names (holding demo_names demo_cells) (MAKE_CONS 0) (lst (map form demo_program))"
    by (simp add: demo_program_def n HEAP_SIZE_def demo_symbols nil_def)
      (simp add: holding_def demo_cells_def demo_symbols)
  with holding_ok [OF demo_names_ok, of demo_cells] n demo_names_ok(1) show ?thesis
    by (simp add: compilable_def demo_program_def HEAP_SIZE_def)
qed


text \<open>With room in the tables of the symbol module the initialisation does not stop.\<close>

lemma intern_room:
  assumes "symtab s ns" and "NUL \<notin> set name" and "length ns < MAX_SYMBOLS"
    and "length (pool_text ns) + length name + 1 \<le> NAME_POOL_SIZE"
  shows "\<exists>v s' ns'. intern name s = Done v s' \<and> symtab s' ns' \<and> length ns' \<le> Suc (length ns) \<and>
    length (pool_text ns') \<le> length (pool_text ns) + length name + 1"
proof (cases "name \<in> set ns")
  case True
  with intern_found [OF assms(1,2)] assms(1) show ?thesis by fastforce
next
  case False
  from intern_new [OF assms(1) False assms(2-4)] obtain s' where
    "intern name s = Done (MAKE_SYMBOL (of_nat (length ns))) s'" "symtab s' (ns @ [name])" by blast
  then show ?thesis by (intro exI [of _ s'] exI [of _ "ns @ [name]"] exI) (auto simp: pool_text_def)
qed

lemma cp_intern_room:
  "symtab s ns \<Longrightarrow> \<forall>(p, name)\<in>set ps. NUL \<notin> set name \<Longrightarrow> length ns + length ps \<le> MAX_SYMBOLS \<Longrightarrow>
    length (pool_text ns) + sum_list (map (\<lambda>(p, name). Suc (length name)) ps) \<le> NAME_POOL_SIZE \<Longrightarrow> cp_intern ps c s \<noteq> Halted s'"
proof (induction ps arbitrary: s ns c)
  case (Cons q ps)
  obtain p name where q: "q = (p, name)" by (cases q)
  from Cons.prems q have "NUL \<notin> set name" "length ns < MAX_SYMBOLS" "length (pool_text ns) + length name + 1 \<le> NAME_POOL_SIZE" by auto
  from intern_room [OF Cons.prems(1) this] obtain v s1 ns' where i: "intern name s = Done v s1" "symtab s1 ns'"
    "length ns' \<le> Suc (length ns)" "length (pool_text ns') \<le> length (pool_text ns) + length name + 1" by blast
  have "cp_intern ps c1 s1 \<noteq> Halted s'" for c1
    using Cons.prems q i(3,4) by (intro Cons.IH [OF i(2)]) auto
  with i(1) show ?case by (simp add: q cbnd_def rt_def cupd_def bnd_def)
qed (simp add: cret_def)

lemma compile_init_room:
  assumes "symtab s ns" and "length ns + 12 \<le> MAX_SYMBOLS" and "length (pool_text ns) + 60 \<le> NAME_POOL_SIZE"
  shows "compile_init c s \<noteq> Halted s'"
  using cp_intern_room [OF assms(1), of cp_names] assms(2,3)
  by (simp add: compile_init_def cbnd_def cupd_def bnd_def cp_names_def NUL_def del: cp_intern.simps)

lemma fns_step:
  "gfns ix (numeral n) d g = (if d < length (funs g) then gbnd (gfn ix (funs g ! d)) (\<lambda>_. gfns ix (pred_numeral n) (Suc d)) g
     else Ok [] () g)"
  by (simp add: numeral_eq_Suc)

lemma demo_done:
  "\<exists>c' s'. cbnd compile_init (\<lambda>_. compile_program 40 (MAKE_CONS 0)) c (holding demo_names demo_cells) = Done ((), c') s'"
proof -
  have "length demo_names + 12 \<le> MAX_SYMBOLS" "length (pool_text demo_names) + 60 \<le> NAME_POOL_SIZE"
    by (simp_all add: demo_names_def special_names_def MAX_SYMBOLS_def NAME_POOL_SIZE_def)
  note init = compile_init_room [OF holding_ok(1) [OF demo_names_ok, of demo_cells] this, of c]
  have g: "\<exists>ls g. gprogram ix demo_program (gstart 8) = Ok ls () g" for ix
    by (simp add: fns_step gprogram_def demo_program_def gbnd_def gfun_def gglob_def gcells_def gdefer_def glabel_def emit_def gdata_def
        gstart_def CFMAX_def CGMAX_def HEAP_SIZE_def gfn_def param_env_def gvar_def gret_def)
  have "5 + length demo_program < (40 :: nat)" "5 + CFMAX < (40 :: nat)" by (simp_all add: demo_program_def CFMAX_def)
  from compile_run [OF demo_compilable this, of c] init obtain ms where
    "case gprogram (index_of (demo_names @ ms)) demo_program (gstart 8) of
        Ok ls u g \<Rightarrow> \<exists>c' s'. compile 40 (MAKE_CONS 0) c (holding demo_names demo_cells) = Done ((), c') s' \<and>
          uart_out s' = uart_out (holding demo_names demo_cells) @ code_text ls
      | _ \<Rightarrow> compile 40 (MAKE_CONS 0) c (holding demo_names demo_cells) = Wild" by blast
  with g [of "index_of (demo_names @ ms)"] show ?thesis by (auto simp: compile_def)
qed


text \<open>Sixty-five variables.\<close>

definition many :: "string list" where
  "many = map (\<lambda>i. [char_of (97 + i div 10), char_of (48 + i mod 10)]) [0..<65]"

definition many_names :: "string list" where
  "many_names = [''nil'', ''t''] @ map snd special_names @ many"

definition many_cells :: "(i24 \<times> i24) list" where
  "many_cells = map (\<lambda>i. (MAKE_SYMBOL (of_nat (14 + i)), if i = 64 then NIL_VAL else MAKE_CONS (of_nat (Suc i)))) [0..<65]"

lemma many_names_ok:
  "names many_names" "length (pool_text many_names) \<le> NAME_POOL_SIZE" "\<forall>n\<in>set many_names. NUL \<notin> set n"
  "snd ` set special_names \<subseteq> set many_names"
proof -
  have d: "distinct many_names" by code_simp
  have l: "length many_names = 79" by (simp add: many_names_def many_def special_names_def)
  show "names many_names" using d l by (auto simp: names_def MAX_SYMBOLS_def many_names_def)
  have "length (pool_text many_names) = 290" by code_simp
  then show "length (pool_text many_names) \<le> NAME_POOL_SIZE" by (simp add: NAME_POOL_SIZE_def)
  have "list_all (\<lambda>n. NUL \<notin> set n) many_names" by code_simp
  then show "\<forall>n\<in>set many_names. NUL \<notin> set n" by (simp add: list_all_iff)
  show "snd ` set special_names \<subseteq> set many_names" by (auto simp: many_names_def)
qed

lemma many_src:
  assumes "i \<le> 65"
  shows "src many_names (holding many_names many_cells) (if i = 65 then NIL_VAL else MAKE_CONS (of_nat i)) (lst (map Sym (drop i many)))"
  using assms
proof (induction "65 - i" arbitrary: i)
  case 0
  then show ?case using symbol_const(1) [OF many_names_ok(1)] by (simp add: many_def nil_def)
next
  case (Suc d)
  then have i: "i < 65" by simp
  have l: "length many = 65" "length many_cells = 65" by (simp_all add: many_def many_cells_def)
  have "many_names ! (14 + i) = many ! i" by (simp add: many_names_def special_names_def nth_append)
  then have s: "symbol_of many_names (many ! i) (MAKE_SYMBOL (of_nat (14 + i)))"
    using i l(1) unfolding symbol_of_def by (intro exI [of _ "14 + i"]) (simp add: many_names_def special_names_def)
  have c: "heap_car (holding many_names many_cells) i = MAKE_SYMBOL (of_nat (14 + i))"
    "heap_cdr (holding many_names many_cells) i = (if Suc i = 65 then NIL_VAL else MAKE_CONS (of_nat (Suc i)))"
    "heap_next (holding many_names many_cells) = 65"
    using i by (auto simp: holding_def many_cells_def)
  have "src many_names (holding many_names many_cells) (if Suc i = 65 then NIL_VAL else MAKE_CONS (of_nat (Suc i))) (lst (map Sym (drop (Suc i) many)))"
    using Suc i by (intro Suc.hyps(1)) auto
  moreover have "drop i many = many ! i # drop (Suc i) many" using i l(1) by (simp add: Cons_nth_drop_Suc)
  ultimately show ?case using i s c by (simp add: HEAP_SIZE_def del: of_nat_Suc of_nat_add)
qed

lemma many_compilable: "compilable many_names (holding many_names many_cells) (MAKE_CONS 0) (map EVar many) 65 1"
proof -
  have "list_all (\<lambda>x. x \<noteq> ''nil'' \<and> x \<noteq> ''t'') many" by code_simp
  then have "\<forall>e\<in>set (map EVar many). wf_exp e \<and> work e \<le> 1" by (simp add: list_all_iff)
  moreover have "sum_list (map params (map EVar many)) = 0" by (simp add: o_def)
  ultimately show ?thesis
    using holding_ok [OF many_names_ok, of many_cells] many_names_ok(1) many_src [of 0]
    by (simp add: compilable_def HEAP_SIZE_def many_cells_def o_def)
qed


end
