(* ===== verification/Tml_Snapshot.thy ===== *)
theory Tml_Snapshot
  imports Tml_Repl
begin

text \<open>
  Heap snapshots (\<open>snapshot.h\<close>): \<open>snapshot_save\<close> writes the state of the interpreter to the UART in
  hexadecimal, \<open>snapshot_restore\<close> takes it from the bytes of an image in memory.  The memory that
  holds the image is an argument, and so is the cursor into it; it does not overlap the variables
  of the runtime.  An array that is indexed past its end is \<open>Wild\<close>.
\<close>

section \<open>Writing\<close>

definition SNAPSHOT_ADDR :: i24 where "SNAPSHOT_ADDR = 0x080000"

definition snap_hex_init :: string where
  "snap_hex_init = ''0123456789abcdef''"

definition snap_hex_byte :: "string \<Rightarrow> i24 \<Rightarrow> unit act" where
  "snap_hex_byte hex_chars b = bnd (putc_uart (hex_chars ! unat (signed_drop_bit 4 b AND 15))) (\<lambda>_.
     putc_uart (hex_chars ! unat (b AND 15)))"

definition snap_write_int :: "string \<Rightarrow> i24 \<Rightarrow> unit act" where
  "snap_write_int hex_chars v = bnd (snap_hex_byte hex_chars (v AND 255)) (\<lambda>_.
     bnd (snap_hex_byte hex_chars (signed_drop_bit 8 v AND 255)) (\<lambda>_.
     snap_hex_byte hex_chars (signed_drop_bit 16 v AND 255)))"

text \<open>The loops over an array, given by its read or write access, with \<open>r\<close> entries left from \<open>i\<close> on.\<close>

fun write_loop :: "('a \<Rightarrow> unit act) \<Rightarrow> (i24 \<Rightarrow> 'a act) \<Rightarrow> nat \<Rightarrow> i24 \<Rightarrow> unit act" where
  "write_loop out arr 0 i = ret ()"
| "write_loop out arr (Suc r) i = bnd (arr i) (\<lambda>v. bnd (out v) (\<lambda>_. write_loop out arr r (i + 1)))"

definition snap_write_ints :: "string \<Rightarrow> (i24 \<Rightarrow> i24 act) \<Rightarrow> i24 \<Rightarrow> unit act" where
  "snap_write_ints hex_chars arr n = write_loop (snap_write_int hex_chars) arr (nat (sint n)) 0"

definition snap_write_bytes :: "string \<Rightarrow> (i24 \<Rightarrow> char act) \<Rightarrow> i24 \<Rightarrow> unit act" where
  "snap_write_bytes hex_chars arr n =
     write_loop (\<lambda>c. snap_hex_byte hex_chars (of_int (schar c) AND 255)) arr (nat (sint n)) 0"

definition peek_name :: "i24 \<Rightarrow> char act" where
  "peek_name i s = (if unat i < NAME_POOL_SIZE then Done (name_pool s (unat i)) s else Wild)"

text \<open>The scalars in the order in which they are written and read; the symbol of \<open>asm\<close> is not among them.\<close>

definition saved_symbols :: "special list" where
  "saved_symbols = [Quote, If, Define, Lambda, Defmacro, Begin, Quasiquote, Unquote, Unquote_splicing, Set, Catch]"

definition saved_fields :: "(lisp \<Rightarrow> i24) list" where
  "saved_fields = [heap_next, free_list, global_env, sym_count, name_pool_next, str_pool_next, gensym_counter]
     @ map (\<lambda>x s. special_sym s x) saved_symbols"

fun write_fields :: "string \<Rightarrow> (lisp \<Rightarrow> i24) list \<Rightarrow> unit act" where
  "write_fields hex_chars [] = ret ()"
| "write_fields hex_chars (f # fs) = bnd (get f) (\<lambda>v. bnd (snap_write_int hex_chars v) (\<lambda>_.
     write_fields hex_chars fs))"

definition snapshot_save :: "unit act" where
  "snapshot_save = (let hex_chars = snap_hex_init in
     bnd (putc_uart (CHR ''T'')) (\<lambda>_. bnd (putc_uart (CHR ''M'')) (\<lambda>_. bnd (putc_uart (CHR ''L'')) (\<lambda>_.
     bnd (write_fields hex_chars saved_fields) (\<lambda>_.
     bnd (get heap_next) (\<lambda>n. bnd (snap_write_ints hex_chars peek_car n) (\<lambda>_.
     bnd (get heap_next) (\<lambda>n. bnd (snap_write_ints hex_chars peek_cdr n) (\<lambda>_.
     bnd (get name_pool_next) (\<lambda>n. bnd (snap_write_bytes hex_chars peek_name n) (\<lambda>_.
     bnd (get sym_count) (\<lambda>n. bnd (snap_write_ints hex_chars peek_offset n) (\<lambda>_.
     bnd (get str_pool_next) (\<lambda>n. snap_write_bytes hex_chars (peek_char 0) n))))))))))))))"

section \<open>Reading\<close>

type_synonym image_memory = "i24 \<Rightarrow> char"

text \<open>\<open>p[k] & 255\<close>\<close>

definition byte_at :: "image_memory \<Rightarrow> i24 \<Rightarrow> i24" where
  "byte_at mem p = of_int (schar (mem p)) AND 255"

text \<open>The value and the cursor after it.\<close>

definition snap_read_int :: "image_memory \<Rightarrow> i24 \<Rightarrow> i24 \<times> i24" where
  "snap_read_int mem snap_cursor = (byte_at mem snap_cursor OR push_bit 8 (byte_at mem (snap_cursor + 1))
     OR push_bit 16 (byte_at mem (snap_cursor + 2)), snap_cursor + 3)"

fun read_ints_loop :: "image_memory \<Rightarrow> (i24 \<Rightarrow> i24 \<Rightarrow> unit act) \<Rightarrow> nat \<Rightarrow> i24 \<Rightarrow> i24 \<Rightarrow> i24 act" where
  "read_ints_loop mem arr 0 i snap_cursor = ret snap_cursor"
| "read_ints_loop mem arr (Suc r) i snap_cursor = (let (v, snap_cursor) = snap_read_int mem snap_cursor in
     bnd (arr i v) (\<lambda>_. read_ints_loop mem arr r (i + 1) snap_cursor))"

definition snap_read_ints :: "image_memory \<Rightarrow> (i24 \<Rightarrow> i24 \<Rightarrow> unit act) \<Rightarrow> i24 \<Rightarrow> i24 \<Rightarrow> i24 act" where
  "snap_read_ints mem arr n snap_cursor = read_ints_loop mem arr (nat (sint n)) 0 snap_cursor"

fun read_bytes_loop :: "image_memory \<Rightarrow> (i24 \<Rightarrow> char \<Rightarrow> unit act) \<Rightarrow> nat \<Rightarrow> i24 \<Rightarrow> i24 \<Rightarrow> unit act" where
  "read_bytes_loop mem arr 0 i p = ret ()"
| "read_bytes_loop mem arr (Suc r) i p = bnd (arr i (mem (p + i))) (\<lambda>_. read_bytes_loop mem arr r (i + 1) p)"

definition snap_read_bytes :: "image_memory \<Rightarrow> (i24 \<Rightarrow> char \<Rightarrow> unit act) \<Rightarrow> i24 \<Rightarrow> i24 \<Rightarrow> i24 act" where
  "snap_read_bytes mem arr n snap_cursor =
     bnd (read_bytes_loop mem arr (nat (sint n)) 0 snap_cursor) (\<lambda>_. ret (snap_cursor + n))"

definition poke_offset :: "i24 \<Rightarrow> i24 \<Rightarrow> unit act" where
  "poke_offset i v s = (if unat i < MAX_SYMBOLS
     then Done () (s\<lparr>sym_name_off := (sym_name_off s)(unat i := v)\<rparr>) else Wild)"

definition poke_str :: "i24 \<Rightarrow> char \<Rightarrow> unit act" where
  "poke_str i c s = (if unat i < STR_POOL_SIZE
     then Done () (s\<lparr>str_pool := (str_pool s)(unat i := c)\<rparr>) else Wild)"

definition restored_fields :: "(i24 \<Rightarrow> lisp \<Rightarrow> lisp) list" where
  "restored_fields = [\<lambda>v s. s\<lparr>heap_next := v\<rparr>, \<lambda>v s. s\<lparr>free_list := v\<rparr>, \<lambda>v s. s\<lparr>global_env := v\<rparr>,
     \<lambda>v s. s\<lparr>sym_count := v\<rparr>, \<lambda>v s. s\<lparr>name_pool_next := v\<rparr>, \<lambda>v s. s\<lparr>str_pool_next := v\<rparr>,
     \<lambda>v s. s\<lparr>gensym_counter := v\<rparr>]
     @ map (\<lambda>x v s. s\<lparr>special_sym := (special_sym s)(x := v)\<rparr>) saved_symbols"

fun read_fields :: "image_memory \<Rightarrow> (i24 \<Rightarrow> lisp \<Rightarrow> lisp) list \<Rightarrow> i24 \<Rightarrow> i24 act" where
  "read_fields mem [] snap_cursor = ret snap_cursor"
| "read_fields mem (f # fs) snap_cursor = (let (v, snap_cursor) = snap_read_int mem snap_cursor in
     bnd (upd (f v)) (\<lambda>_. read_fields mem fs snap_cursor))"

definition snapshot_restore :: "image_memory \<Rightarrow> i24 \<Rightarrow> i24 act" where
  "snapshot_restore mem p = (if mem p \<noteq> CHR ''T'' \<or> mem (p + 1) \<noteq> CHR ''M'' \<or> mem (p + 2) \<noteq> CHR ''L'' then ret 0
     else bnd (read_fields mem restored_fields (p + 3)) (\<lambda>cur.
       bnd (get heap_next) (\<lambda>n. bnd (snap_read_ints mem poke_car n cur) (\<lambda>cur.
       bnd (get heap_next) (\<lambda>n. bnd (snap_read_ints mem poke_cdr n cur) (\<lambda>cur.
       bnd (get name_pool_next) (\<lambda>n. bnd (snap_read_bytes mem poke_name n cur) (\<lambda>cur.
       bnd (get sym_count) (\<lambda>n. bnd (snap_read_ints mem poke_offset n cur) (\<lambda>cur.
       bnd (get str_pool_next) (\<lambda>n. bnd (snap_read_bytes mem poke_str n cur) (\<lambda>_.
       bnd (upd (\<lambda>s. s\<lparr>gc_enabled := True, gc_root_count := 0, gc_collections := 0, catch_depth := 0,
         catch_throwing := False, wind_depth := 0\<rparr>)) (\<lambda>_. ret 1)))))))))))))"

end
