(* ===== verification/Tml_Snapshot_Correct.thy ===== *)
theory Tml_Snapshot_Correct
  imports Tml_Snapshot
begin

text \<open>
  A snapshot is restored as it was saved: the bytes an interpreter is written as, the loops over the
  arrays of the runtime (an interface with five instances), and the round trip.
\<close>

section \<open>The image as bytes\<close>

text \<open>A byte in hexadecimal, as the loader of the image decodes it, and a 24-bit word as three bytes.\<close>

definition hex_of :: "char \<Rightarrow> string" where
  "hex_of c = [snap_hex_init ! (of_char c div 16), snap_hex_init ! (of_char c mod 16)]"

definition hexes :: "string \<Rightarrow> string" where
  "hexes cs = concat (map hex_of cs)"

definition int_bytes :: "i24 \<Rightarrow> string" where
  "int_bytes v = map (\<lambda>k. char_of (unat (drop_bit (8 * k) v) mod 256)) [0, 1, 2]"

definition entries_of :: "('a \<Rightarrow> string) \<Rightarrow> (nat \<Rightarrow> 'a) \<Rightarrow> i24 \<Rightarrow> string" where
  "entries_of enc f n = concat (map (\<lambda>i. enc (f i)) [0..<count_to n])"

definition snap_image :: "lisp \<Rightarrow> string" where
  "snap_image s = concat (map (\<lambda>f. int_bytes (f s)) saved_fields) @
     entries_of int_bytes (heap_car s) (heap_next s) @ entries_of int_bytes (heap_cdr s) (heap_next s) @
     entries_of (\<lambda>c. [c]) (name_pool s) (name_pool_next s) @ entries_of int_bytes (sym_name_off s) (sym_count s) @
     entries_of (\<lambda>c. [c]) (str_pool s) (str_pool_next s)"

text \<open>What the text says, two digits a byte.\<close>

definition hex_value :: "char \<Rightarrow> nat" where
  "hex_value c = (if of_char c < (58 :: nat) then of_char c - 48 else of_char c - 87)"

fun unhex :: "string \<Rightarrow> string" where
  "unhex (a # b # cs) = char_of (16 * hex_value a + hex_value b) # unhex cs"
| "unhex _ = []"

lemma hexes_simps [simp]: "hexes [] = []" "hexes (c # cs) = hex_of c @ hexes cs" "hexes (a @ b) = hexes a @ hexes b"
  by (simp_all add: hexes_def)

lemma low_byte:
  fixes v :: i24
  assumes "8 * k + 8 \<le> 24"
  shows "signed_drop_bit (8 * k) v AND 255 = of_nat (unat (drop_bit (8 * k) v) mod 256)"
proof -
  have "signed_drop_bit (8 * k) v AND 255 = take_bit 8 (drop_bit (8 * k) v)"
    using assms by (simp add: arith24)
  also have "\<dots> = of_nat (take_bit 8 (unat (drop_bit (8 * k) v)))"
    by (simp add: of_nat_take_bit)
  finally show ?thesis by (simp add: take_bit_eq_mod)
qed

lemma hex_byte_says:
  assumes "n < 256"
  shows "snap_hex_byte snap_hex_init (of_nat n) s = Done () (says (hex_of (char_of n)) s)"
proof -
  have n: "unat (of_nat n :: i24) = n" using assms by simp
  have "unat (signed_drop_bit 4 (of_nat n :: i24) AND 15) = n div 16" "unat ((of_nat n :: i24) AND 15) = n mod 16"
    using unat_nibble [of 1 "of_nat n :: i24"] unat_nibble [of 0 "of_nat n :: i24"] n assms by simp_all
  then show ?thesis
    using assms by (simp add: snap_hex_byte_def hex_of_def says_def putc_uart_def bnd_step upd_def)
qed

lemma write_int_says: "snap_write_int snap_hex_init v s = Done () (says (hexes (int_bytes v)) s)"
  using low_byte [of 0 v] low_byte [of 1 v] low_byte [of 2 v]
  by (simp add: snap_write_int_def bnd_step hex_byte_says int_bytes_def)

lemma char_byte: "(of_int (schar c) :: i24) AND 255 = of_nat (of_char c)"
proof -
  have b: "of_char c < (256 :: nat)" by (metis char_of_nat nat_of_char_less_256)
  have u: "uchar c = int (of_char c :: nat)" by (simp add: uchar_def)
  have "take_bit 8 (of_int (schar c) :: i24) = of_int (take_bit 8 (schar c))"
    by (simp add: of_int_take_bit)
  also have "take_bit 8 (schar c) = int (of_char c :: nat)"
    using b by (simp add: schar_def u take_bit_eq_mod mod_diff_right_eq [of _ 256 256, symmetric])
  finally show ?thesis by (simp add: arith24)
qed

section \<open>Memory that holds an image\<close>

definition holds :: "image_memory \<Rightarrow> i24 \<Rightarrow> string \<Rightarrow> bool" where
  "holds mem p cs \<longleftrightarrow> (\<forall>k<length cs. mem (p + of_nat k) = cs ! k)"

lemma holds_simps [simp]: "holds mem p []" "holds mem p (c # cs) \<longleftrightarrow> mem p = c \<and> holds mem (p + 1) cs"
proof -
  show "holds mem p []" by (simp add: holds_def)
  show "holds mem p (c # cs) \<longleftrightarrow> mem p = c \<and> holds mem (p + 1) cs"
    by (simp add: holds_def All_less_Suc2 algebra_simps)
qed

lemma holds_append [simp]: "holds mem p (a @ b) \<longleftrightarrow> holds mem p a \<and> holds mem (p + of_nat (length a)) b"
  by (induction a arbitrary: p) (simp_all add: algebra_simps)

lemma length_int_bytes [simp]: "length (int_bytes v) = 3"
  by (simp add: int_bytes_def)

lemma three_bytes:
  fixes v :: i24
  shows "take_bit 8 v OR push_bit 8 (take_bit 8 (drop_bit 8 v)) OR push_bit 16 (take_bit 8 (drop_bit 16 v)) = v"
proof (rule bit_word_eqI)
  fix n assume "n < LENGTH(24)"
  moreover have "n < 8 \<or> 8 \<le> n \<and> n < 16 \<or> 16 \<le> n" by linarith
  ultimately show "bit (take_bit 8 v OR push_bit 8 (take_bit 8 (drop_bit 8 v)) OR
      push_bit 16 (take_bit 8 (drop_bit 16 v))) n = bit v n"
    by (auto simp: bit_simps)
qed

lemma read_int_holds:
  assumes "holds mem p (int_bytes v)"
  shows "snap_read_int mem p = (v, p + 3)"
proof -
  have t: "(of_nat (unat w mod 256) :: i24) = take_bit 8 w" for w :: i24
    by (simp add: of_nat_take_bit flip: take_bit_eq_mod [of 8, simplified])
  have m: "mem p = char_of (unat v mod 256)" "mem (p + 1) = char_of (unat (drop_bit 8 v) mod 256)"
    "mem (p + 2) = char_of (unat (drop_bit 16 v) mod 256)"
    using assms by (simp_all add: int_bytes_def add.assoc)
  show ?thesis
    by (simp add: snap_read_int_def byte_at_def char_byte m t three_bytes)
qed

section \<open>Arrays of the runtime\<close>

text \<open>The contents after \<open>xs\<close> has been stored from entry \<open>i\<close> on.\<close>

definition stored :: "nat \<Rightarrow> 'a list \<Rightarrow> (nat \<Rightarrow> 'a) \<Rightarrow> nat \<Rightarrow> 'a" where
  "stored i xs f k = (if i \<le> k \<and> k < i + length xs then xs ! (k - i) else f k)"

lemma stored_simps: "stored i [] f = f" "stored (Suc i) xs (f(i := x)) = stored i (x # xs) f"
proof -
  show "stored i [] f = f" by (rule ext) (auto simp: stored_def)
  show "stored (Suc i) xs (f(i := x)) = stored i (x # xs) f"
    by (rule ext) (auto simp: stored_def nth_Cons')
qed

text \<open>
  What the loops rely on: reading an entry, writing an entry, and the field of the state behind
  them.  The five arrays of the snapshot are instances.
\<close>

locale runtime_array =
  fixes peek :: "i24 \<Rightarrow> 'a act" and poke :: "i24 \<Rightarrow> 'a \<Rightarrow> unit act"
    and view :: "lisp \<Rightarrow> nat \<Rightarrow> 'a" and upd_view :: "((nat \<Rightarrow> 'a) \<Rightarrow> nat \<Rightarrow> 'a) \<Rightarrow> lisp \<Rightarrow> lisp" and size :: nat
  assumes peek: "peek i s = (if unat i < size then Done (view s (unat i)) s else Wild)"
    and poke: "poke i v s = (if unat i < size then Done () (upd_view (\<lambda>f. f(unat i := v)) s) else Wild)"
    and view_says: "view (says t s) = view s"
    and upd_same: "upd_view (\<lambda>f. f) s = s"
    and upd_upd: "upd_view g (upd_view h s) = upd_view (\<lambda>f. g (h f)) s"
    and size: "size < 8388608"
begin

lemma write_loop_says:
  assumes out: "\<And>v s. out v s = Done () (says (hexes (enc v)) s)" and "i + r \<le> size"
  shows "write_loop out peek r (of_nat i) s =
    Done () (says (hexes (concat (map (\<lambda>i. enc (view s i)) [i..<i + r]))) s)"
  using assms(2)
proof (induction r arbitrary: i s)
  case 0
  then show ?case by (simp add: ret_def says_def)
next
  case (Suc r)
  have "write_loop out peek r (of_nat (Suc i)) (says (hexes (enc (view s i))) s) =
      Done () (says (hexes (concat (map (\<lambda>i. enc (view s i)) [Suc i..<Suc i + r]))) (says (hexes (enc (view s i))) s))"
    using Suc.IH [of "Suc i" "says (hexes (enc (view s i))) s"] Suc.prems by (simp add: view_says del: upt_Suc)
  moreover have "peek (of_nat i) s = Done (view s i) s" using Suc.prems size by (simp add: peek)
  moreover have "[i..<i + Suc r] = i # [Suc i..<Suc i + r]" by (simp add: upt_conv_Cons del: upt_Suc)
  ultimately show ?case by (simp add: bnd_step out [of "view s i" s] add.commute del: upt_Suc)
qed

end


locale int_array = runtime_array peek poke view upd_view size
  for peek :: "i24 \<Rightarrow> i24 act" and poke :: "i24 \<Rightarrow> i24 \<Rightarrow> unit act" and view upd_view size
begin

lemma write_ints_says:
  assumes "count_to n \<le> size"
  shows "snap_write_ints snap_hex_init peek n s = Done () (says (hexes (entries_of int_bytes (view s) n)) s)"
  using write_loop_says [of "snap_write_int snap_hex_init" int_bytes 0 "count_to n" s] assms
  by (simp add: snap_write_ints_def entries_of_def count_to_def write_int_says)

lemma read_ints_loop_stores:
  assumes "holds mem p (concat (map int_bytes xs))" and "i + length xs \<le> size"
  shows "read_ints_loop mem poke (length xs) (of_nat i) p s =
    Done (p + of_nat (3 * length xs)) (upd_view (stored i xs) s)"
  using assms
proof (induction xs arbitrary: i p s)
  case Nil
  then show ?case by (simp add: ret_def stored_simps(1) [abs_def] upd_same)
next
  case (Cons x xs)
  let ?s = "upd_view (\<lambda>f. f(i := x)) s"
  have "read_ints_loop mem poke (length xs) (of_nat (Suc i)) (p + 3) ?s =
      Done (p + 3 + of_nat (3 * length xs)) (upd_view (stored (Suc i) xs) ?s)"
    using Cons.IH [of "p + 3" "Suc i" ?s] Cons.prems by simp
  moreover have "poke (of_nat i) x s = Done () ?s" using Cons.prems size by (simp add: poke)
  moreover have "snap_read_int mem p = (x, p + 3)" using Cons.prems by (intro read_int_holds) simp
  ultimately show ?case
    by (simp add: bnd_step upd_upd stored_simps(2) algebra_simps)
qed

lemma read_ints_stores:
  assumes "holds mem p (entries_of int_bytes f n)" and "0 \<le> sint n" and "count_to n \<le> size"
  shows "snap_read_ints mem poke n p s = Done (p + of_nat (length (entries_of int_bytes f n)))
    (upd_view (stored 0 (map f [0..<count_to n])) s)"
proof -
  have "length (concat (map (int_bytes \<circ> f) [0..<m])) = 3 * m" for m
    by (induction m) simp_all
  then show ?thesis
    using read_ints_loop_stores [of mem p "map f [0..<count_to n]" 0 s] assms
    by (simp add: snap_read_ints_def entries_of_def count_to_def o_def)
qed

end

locale char_array = runtime_array peek poke view upd_view size
  for peek :: "i24 \<Rightarrow> char act" and poke :: "i24 \<Rightarrow> char \<Rightarrow> unit act" and view upd_view size
begin

lemma write_bytes_says:
  assumes "count_to n \<le> size"
  shows "snap_write_bytes snap_hex_init peek n s = Done () (says (hexes (entries_of (\<lambda>c. [c]) (view s) n)) s)"
proof -
  have "snap_hex_byte snap_hex_init (of_int (schar c) AND 255) s = Done () (says (hexes [c]) s)" for c s
  proof -
    have "of_char c < (256 :: nat)" by (metis char_of_nat nat_of_char_less_256)
    then show ?thesis by (simp add: char_byte hex_byte_says)
  qed
  then show ?thesis
    using write_loop_says [of "\<lambda>c. snap_hex_byte snap_hex_init (of_int (schar c) AND 255)" "\<lambda>c. [c]" 0 "count_to n" s] assms
    by (simp add: snap_write_bytes_def entries_of_def count_to_def)
qed

lemma read_bytes_loop_stores:
  assumes "holds mem (p + of_nat i) xs" and "i + length xs \<le> size"
  shows "read_bytes_loop mem poke (length xs) (of_nat i) p s = Done () (upd_view (stored i xs) s)"
  using assms
proof (induction xs arbitrary: i s)
  case Nil
  then show ?case by (simp add: ret_def stored_simps(1) [abs_def] upd_same)
next
  case (Cons x xs)
  let ?s = "upd_view (\<lambda>f. f(i := x)) s"
  have "read_bytes_loop mem poke (length xs) (of_nat (Suc i)) p ?s = Done () (upd_view (stored (Suc i) xs) ?s)"
    using Cons.IH [of "Suc i" ?s] Cons.prems by (simp add: algebra_simps)
  moreover have "poke (of_nat i) x s = Done () ?s" using Cons.prems size by (simp add: poke)
  ultimately show ?case
    using Cons.prems by (simp add: bnd_step upd_upd stored_simps(2) add.commute)
qed

lemma read_bytes_stores:
  assumes "holds mem p (entries_of (\<lambda>c. [c]) f n)" and "0 \<le> sint n" and "count_to n \<le> size"
  shows "snap_read_bytes mem poke n p s = Done (p + of_nat (length (entries_of (\<lambda>c. [c]) f n)))
    (upd_view (stored 0 (map f [0..<count_to n])) s)"
proof -
  have c: "concat (map (\<lambda>i. [f i]) [0..<m]) = map f [0..<m]" for m
    by (induction m) simp_all
  have "(of_nat (count_to n) :: i24) = n" using assms(2) by (simp add: count_to_unat)
  then show ?thesis
    using read_bytes_loop_stores [of mem p 0 "map f [0..<count_to n]" s] assms
    by (simp add: snap_read_bytes_def entries_of_def count_to_def c bnd_step)
qed

end

interpretation cars: int_array peek_car poke_car heap_car heap_car_update HEAP_SIZE
  by unfold_locales (auto simp: peek_car_def poke_car_def HEAP_SIZE_def o_def)

interpretation cdrs: int_array peek_cdr poke_cdr heap_cdr heap_cdr_update HEAP_SIZE
  by unfold_locales (auto simp: peek_cdr_def poke_cdr_def HEAP_SIZE_def o_def)

interpretation offsets: int_array peek_offset poke_offset sym_name_off sym_name_off_update MAX_SYMBOLS
  by unfold_locales (auto simp: peek_offset_def poke_offset_def MAX_SYMBOLS_def o_def)

interpretation names: char_array peek_name poke_name name_pool name_pool_update NAME_POOL_SIZE
  by unfold_locales (auto simp: peek_name_def poke_name_def NAME_POOL_SIZE_def o_def)

interpretation texts: char_array "peek_char 0" poke_str str_pool str_pool_update STR_POOL_SIZE
  by unfold_locales (auto simp: peek_char_def poke_str_def STR_POOL_SIZE_def o_def)


section \<open>Save and restore\<close>

lemma write_fields_says:
  assumes "\<forall>f\<in>set fs. \<forall>t. f (says t s) = f s"
  shows "write_fields snap_hex_init fs (says t s) =
    Done () (says (t @ hexes (concat (map (\<lambda>f. int_bytes (f s)) fs))) s)"
  using assms by (induction fs arbitrary: t) (simp_all add: ret_def bnd_step get_def write_int_says)

lemma saved_fields_says: "\<forall>f\<in>set saved_fields. \<forall>t. f (says t s) = f s"
  by (auto simp: saved_fields_def)

text \<open>The counts of a state with its arrays in bounds.\<close>

definition counts_fit :: "lisp \<Rightarrow> bool" where
  "counts_fit s \<longleftrightarrow> 0 \<le> sint (heap_next s) \<and> count_to (heap_next s) \<le> HEAP_SIZE \<and>
     0 \<le> sint (sym_count s) \<and> count_to (sym_count s) \<le> MAX_SYMBOLS \<and>
     0 \<le> sint (name_pool_next s) \<and> count_to (name_pool_next s) \<le> NAME_POOL_SIZE \<and>
     0 \<le> sint (str_pool_next s) \<and> count_to (str_pool_next s) \<le> STR_POOL_SIZE"

lemma save_says:
  assumes "counts_fit s"
  shows "snapshot_save s = Done () (says (''TML'' @ hexes (snap_image s)) s)"
  using assms write_fields_says [OF saved_fields_says, where t = "''TML''" and s = s]
  by (simp add: snapshot_save_def snap_image_def counts_fit_def bnd_step get_def cars.write_ints_says cdrs.write_ints_says
      names.write_bytes_says offsets.write_ints_says texts.write_bytes_says)

lemma read_fields_stores:
  assumes "length us = length vs" and "holds mem p (concat (map int_bytes vs))"
  shows "read_fields mem us p t = Done (p + of_nat (3 * length vs)) (fold (\<lambda>(u, v). u v) (zip us vs) t)"
  using assms
proof (induction us vs arbitrary: p t rule: list_induct2)
  case (Cons u us v vs)
  then show ?case
    using read_int_holds [of mem p v] Cons.IH [of "p + 3" "u v t"] by (simp add: bnd_step upd_def algebra_simps)
qed (simp add: ret_def)

text \<open>The scalars of \<open>s\<close> in the state \<open>t\<close>.\<close>

definition with_fields :: "lisp \<Rightarrow> lisp \<Rightarrow> lisp" where
  "with_fields s t = t\<lparr>heap_next := heap_next s, free_list := free_list s, global_env := global_env s,
     sym_count := sym_count s, name_pool_next := name_pool_next s, str_pool_next := str_pool_next s,
     gensym_counter := gensym_counter s, special_sym := (special_sym s)(Asm := special_sym t Asm)\<rparr>"

lemma restored_fields_fold:
  "fold (\<lambda>(u, v). u v) (zip restored_fields (map (\<lambda>f. f s) saved_fields)) t = with_fields s t"
proof -
  have "(special_sym t)(Quote := special_sym s Quote, If := special_sym s If, Define := special_sym s Define,
      Lambda := special_sym s Lambda, Defmacro := special_sym s Defmacro, Begin := special_sym s Begin,
      Quasiquote := special_sym s Quasiquote, Unquote := special_sym s Unquote,
      Unquote_splicing := special_sym s Unquote_splicing, Set := special_sym s Set, Catch := special_sym s Catch) =
    (special_sym s)(Asm := special_sym t Asm)" (is "?f = ?g")
  proof
    fix x show "?f x = ?g x" by (cases x) simp_all
  qed
  then show ?thesis
    by (simp add: restored_fields_def saved_fields_def saved_symbols_def with_fields_def)
qed

definition restored :: "lisp \<Rightarrow> lisp \<Rightarrow> lisp" where
  "restored s t = (with_fields s t)\<lparr>
     heap_car := stored 0 (map (heap_car s) [0..<count_to (heap_next s)]) (heap_car t),
     heap_cdr := stored 0 (map (heap_cdr s) [0..<count_to (heap_next s)]) (heap_cdr t),
     name_pool := stored 0 (map (name_pool s) [0..<count_to (name_pool_next s)]) (name_pool t),
     sym_name_off := stored 0 (map (sym_name_off s) [0..<count_to (sym_count s)]) (sym_name_off t),
     str_pool := stored 0 (map (str_pool s) [0..<count_to (str_pool_next s)]) (str_pool t),
     gc_enabled := True, gc_root_count := 0, gc_collections := 0, catch_depth := 0, catch_throwing := False,
     wind_depth := 0\<rparr>"

lemma restore_stores:
  assumes "counts_fit s" and "holds mem p (''TML'' @ snap_image s)"
  shows "snapshot_restore mem p t = Done 1 (restored s t)"
proof -
  have m: "mem p = CHR ''T''" "mem (p + 1) = CHR ''M''" "mem (p + 2) = CHR ''L''"
    using assms(2) by (simp_all add: add.assoc)
  let ?fs = "concat (map (\<lambda>f. int_bytes (f s)) saved_fields)"
  have n: "length ?fs = 54" by (simp add: saved_fields_def saved_symbols_def)
  let ?p0 = "p + 3 + of_nat (length ?fs)"
  let ?a = "entries_of int_bytes (heap_car s) (heap_next s)" let ?p1 = "?p0 + of_nat (length ?a)"
  let ?b = "entries_of int_bytes (heap_cdr s) (heap_next s)" let ?p2 = "?p1 + of_nat (length ?b)"
  let ?c = "entries_of (\<lambda>c. [c]) (name_pool s) (name_pool_next s)" let ?p3 = "?p2 + of_nat (length ?c)"
  let ?d = "entries_of int_bytes (sym_name_off s) (sym_count s)" let ?p4 = "?p3 + of_nat (length ?d)"
  let ?e = "entries_of (\<lambda>c. [c]) (str_pool s) (str_pool_next s)"
  have h: "holds mem (p + 3) ?fs" "holds mem ?p0 ?a" "holds mem ?p1 ?b" "holds mem ?p2 ?c" "holds mem ?p3 ?d" "holds mem ?p4 ?e"
    using assms(2) by (simp_all add: snap_image_def add.assoc)
  have "read_fields mem restored_fields (p + 3) t = Done ?p0 (with_fields s t)"
    using read_fields_stores [of restored_fields "map (\<lambda>f. f s) saved_fields" mem "p + 3" t] h(1) n
    by (simp add: o_def restored_fields_fold) (simp add: restored_fields_def saved_fields_def saved_symbols_def)
  moreover have w: "heap_next (with_fields s t) = heap_next s" "name_pool_next (with_fields s t) = name_pool_next s"
    "sym_count (with_fields s t) = sym_count s" "str_pool_next (with_fields s t) = str_pool_next s"
    by (simp_all add: with_fields_def)
  ultimately show ?thesis
    using assms(1) m w cars.read_ints_stores [OF h(2)] cdrs.read_ints_stores [OF h(3)] names.read_bytes_stores [OF h(4)]
      offsets.read_ints_stores [OF h(5)] texts.read_bytes_stores [OF h(6)]
    by (simp add: snapshot_restore_def bnd_step get_def upd_def ret_def counts_fit_def)
      (simp add: restored_def with_fields_def)
qed

lemma restored_views:
  "k < count_to (heap_next s) \<Longrightarrow> heap_car (restored s t) k = heap_car s k"
  "k < count_to (heap_next s) \<Longrightarrow> heap_cdr (restored s t) k = heap_cdr s k"
  "k < count_to (name_pool_next s) \<Longrightarrow> name_pool (restored s t) k = name_pool s k"
  "k < count_to (sym_count s) \<Longrightarrow> sym_name_off (restored s t) k = sym_name_off s k"
  "k < count_to (str_pool_next s) \<Longrightarrow> str_pool (restored s t) k = str_pool s k"
  by (simp_all add: restored_def stored_def)

lemma restored_scalars [simp]:
  "heap_next (restored s t) = heap_next s" "free_list (restored s t) = free_list s"
  "global_env (restored s t) = global_env s" "sym_count (restored s t) = sym_count s"
  "name_pool_next (restored s t) = name_pool_next s" "str_pool_next (restored s t) = str_pool_next s"
  "gensym_counter (restored s t) = gensym_counter s"
  "special_sym (restored s t) = (special_sym s)(Asm := special_sym t Asm)"
  "gc_root_count (restored s t) = 0" "catch_depth (restored s t) = 0" "wind_depth (restored s t) = 0"
  "gc_enabled (restored s t)" "\<not> catch_throwing (restored s t)"
  by (simp_all add: restored_def with_fields_def)

lemma state_ok_counts: "state_ok ns s \<Longrightarrow> counts_fit s"
  using sint_small [of "str_pool_next s"]
  by (auto simp: state_ok_def heap_ok_def symtab_def counts_fit_def count_to_def MAX_SYMBOLS_def NAME_POOL_SIZE_def
      STR_POOL_SIZE_def sint_of_nat_small)

lemma restored_chain:
  assumes "set fl \<subseteq> {..<count_to (heap_next s)}"
  shows "chain (heap_cdr (restored s t)) h fl = chain (heap_cdr s) h fl"
  using assms by (intro chain_cong) (auto intro: restored_views)

lemma restored_used:
  assumes "heap_ok s"
  shows "used (restored s t) = used s" "heap_ok (restored s t)"
proof -
  obtain fl where fl: "free_ok s fl" using assms by (auto simp: heap_ok_def)
  then have fl': "free_ok (restored s t) fl" by (simp add: free_ok_def restored_chain)
  show u: "used (restored s t) = used s" using fl fl' by (simp add: used_free)
  have "own_roots (restored s t) \<subseteq> own_roots s" by (auto simp: own_roots_def count_to_def)
  moreover have "sound (restored s t) v = sound s v" for v by (simp add: sound_def u)
  moreover have "i < count_to (heap_next s)" if "i \<in> used s" for i using that by (simp add: used_def)
  ultimately show "heap_ok (restored s t)"
    using assms fl' u by (auto simp: heap_ok_def counts_ok_def count_to_def [of 0] restored_views)
qed

lemma restored_symtab:
  assumes "symtab s ns"
  shows "symtab (restored s t) ns"
proof -
  have c: "count_to (sym_count s) = length ns" "count_to (name_pool_next s) = length (pool_text ns)"
    using assms by (auto simp: symtab_def count_to_def MAX_SYMBOLS_def NAME_POOL_SIZE_def sint_of_nat_small)
  then show ?thesis using assms by (simp add: symtab_def restored_views)
qed

lemma restored_denotes:
  assumes "state_ok ns s" and "sound s v" and "denotes ns s v x"
  shows "denotes ns (restored s t) v x"
  using assms(2,3)
proof (induction x arbitrary: v)
  case (Str cs)
  then have "cell_of v < count_to (heap_next s)"
    by (auto simp: string_at_def sound_def IS_PTR_def used_def)
  moreover have "pool_grows s (restored s t)"
    using assms(1) count_to_unat [of "str_pool_next s"] state_ok_counts [OF assms(1)]
    by (simp add: pool_grows_def state_ok_def restored_views counts_fit_def)
  ultimately show ?case
    using Str string_at_mono [of s v cs "restored s t"] by (simp add: restored_views)
next
  case (Pair x y)
  then have c: "cell_of v \<in> used s" "cell_of v < count_to (heap_next s)"
    by (auto simp: sound_def IS_PTR_def used_def)
  then have "sound s (heap_car s (cell_of v))" "sound s (heap_cdr s (cell_of v))"
    using assms(1) by (auto simp: state_ok_def heap_ok_def)
  with Pair c show ?case by (auto simp: restored_views)
qed auto

lemma restored_ok: "state_ok ns s \<Longrightarrow> state_ok ns (restored s t)"
  by (simp add: state_ok_def restored_used restored_symtab)

lemma hex_value_digit: "d < 16 \<Longrightarrow> hex_value (snap_hex_init ! d) = d"
  by (erule nat_less_16_cases) (simp_all add: hex_value_def snap_hex_init_def)

lemma unhex_hexes: "unhex (hexes cs) = cs"
proof (induction cs)
  case (Cons c cs)
  have "of_char c < (256 :: nat)" by (metis char_of_nat nat_of_char_less_256)
  then have "of_char c div 16 < (16 :: nat)" by linarith
  then have "hex_value (snap_hex_init ! (of_char c div 16)) = of_char c div 16"
    "hex_value (snap_hex_init ! (of_char c mod 16)) = of_char c mod 16"
    by (intro hex_value_digit; simp)+
  with Cons show ?case by (simp add: hex_of_def)
qed simp

text \<open>C30: A snapshot of any well-formed interpreter is written completely, and restoring what was written,
  once its digits are decoded into memory, gives from any other state an interpreter in which the saved
  one goes on: every cell in use, every datum, the symbols, the strings and the global environment are
  as they were, the invariants hold, and the stacks are empty.  Only the symbol of \<open>asm\<close> is not
  restored.\<close>

theorem snapshot_round_trip:
  assumes "state_ok ns s"
  shows "\<exists>code. snapshot_save s = Done () (says (''TML'' @ code) s) \<and>
    (\<forall>mem p t. holds mem p (''TML'' @ unhex code) \<longrightarrow>
      (\<exists>t'. snapshot_restore mem p t = Done 1 t' \<and> state_ok ns t' \<and>
        (\<forall>i\<in>used s. heap_car t' i = heap_car s i \<and> heap_cdr t' i = heap_cdr s i) \<and> used t' = used s \<and>
        (\<forall>v x. sound s v \<and> denotes ns s v x \<longrightarrow> denotes ns t' v x) \<and>
        global_env t' = global_env s \<and> gensym_counter t' = gensym_counter s \<and>
        special_sym t' = (special_sym s)(Asm := special_sym t Asm) \<and>
        gc_enabled t' \<and> \<not> catch_throwing t' \<and>
        gc_root_count t' = 0 \<and> catch_depth t' = 0 \<and> wind_depth t' = 0))"
proof (intro exI conjI allI impI)
  have f: "counts_fit s" by (rule state_ok_counts [OF assms])
  then show "snapshot_save s = Done () (says (''TML'' @ hexes (snap_image s)) s)" by (rule save_says)
  fix mem p t assume "holds mem p (''TML'' @ unhex (hexes (snap_image s)))"
  then show "snapshot_restore mem p t = Done 1 (restored s t)"
    using restore_stores [OF f] by (simp only: unhex_hexes)
  have h: "heap_ok s" using assms by (simp add: state_ok_def)
  show "used (restored s t) = used s" by (rule restored_used [OF h])
  show "\<forall>i\<in>used s. heap_car (restored s t) i = heap_car s i \<and> heap_cdr (restored s t) i = heap_cdr s i"
    by (simp add: used_def restored_views)
  show "state_ok ns (restored s t)" by (rule restored_ok [OF assms])
  show "denotes ns (restored s t) v x" if "sound s v \<and> denotes ns s v x" for v x
    using that restored_denotes [OF assms] by blast
qed simp_all

text \<open>A state that holds the list of 7 in its first cell.\<close>

definition saved_demo :: lisp where
  "saved_demo = two_lists\<lparr>heap_car := (\<lambda>_. NIL_VAL)(0 := MAKE_FIXNUM 7), name_pool := (!) (pool_text [''nil'', ''t'']),
     name_pool_next := 6, sym_name_off := (\<lambda>i. of_nat (length (pool_text (take i [''nil'', ''t''])))), sym_count := 2\<rparr>"

lemma saved_demo_ok: "state_ok [''nil'', ''t''] saved_demo"
  "sound saved_demo (MAKE_CONS 0)" "denotes [''nil'', ''t''] saved_demo (MAKE_CONS 0) (Pair (Num 7) nil)"
proof -
  have n: "count_to (heap_next saved_demo) = 2" by (simp add: saved_demo_def two_lists_def count_to_def)
  have f: "free_ok saved_demo []" by (simp add: free_ok_def saved_demo_def two_lists_def)
  then have u: "used saved_demo = {..<2}" using n by (simp add: used_free)
  show "state_ok [''nil'', ''t''] saved_demo"
    using f u n by (auto simp: state_ok_def heap_ok_def counts_ok_def own_roots_def sound_def symtab_def saved_demo_def
        two_lists_def zeroed_def count_to_def IS_PTR_def HEAP_SIZE_def MAX_SYMBOLS_def NAME_POOL_SIZE_def
        STR_POOL_SIZE_def NUL_def less_Suc_eq numeral_2_eq_2)
  show "sound saved_demo (MAKE_CONS 0)" using u cell_of_make(1) [of 0] by (simp add: sound_def)
  show "denotes [''nil'', ''t''] saved_demo (MAKE_CONS 0) (Pair (Num 7) nil)"
    using cell_of_make(1) [of 0]
    by (simp add: saved_demo_def two_lists_def nil_def HEAP_SIZE_def NIL_VAL_def exI [of _ 0])
qed

lemma length_entries: "(\<And>v. length (enc v) = k) \<Longrightarrow> length (entries_of enc f n) = k * count_to n"
proof -
  assume "\<And>v. length (enc v) = k"
  then have "length (concat (map (\<lambda>i. enc (f i)) [0..<m])) = k * m" for m by (induction m) simp_all
  then show ?thesis by (simp add: entries_of_def)
qed

lemma memory_with: "length cs < 16777216 \<Longrightarrow> \<exists>mem. holds mem p cs"
  by (intro exI [of _ "\<lambda>a. cs ! unat (a - p)"]) (simp add: holds_def)

theorem snapshot_round_trip_witness:
  "\<exists>code mem t'. snapshot_save saved_demo = Done () (says (''TML'' @ code) saved_demo) \<and>
    holds mem SNAPSHOT_ADDR (''TML'' @ unhex code) \<and> snapshot_restore mem SNAPSHOT_ADDR zeroed = Done 1 t' \<and>
    denotes [''nil'', ''t''] t' (MAKE_CONS 0) (Pair (Num 7) nil)"
proof -
  from snapshot_round_trip [OF saved_demo_ok(1)] obtain code
    where t: "snapshot_save saved_demo = Done () (says (''TML'' @ code) saved_demo)"
      and r: "\<And>mem p t. holds mem p (''TML'' @ unhex code) \<Longrightarrow> \<exists>t'. snapshot_restore mem p t = Done 1 t' \<and>
        (\<forall>v x. sound saved_demo v \<and> denotes [''nil'', ''t''] saved_demo v x \<longrightarrow> denotes [''nil'', ''t''] t' v x)"
    by (elim exE conjE) (metis (no_types))
  have "says (''TML'' @ code) saved_demo = says (''TML'' @ hexes (snap_image saved_demo)) saved_demo"
    using t save_says [OF state_ok_counts [OF saved_demo_ok(1)]] by simp
  from arg_cong [OF this, of uart_out] have "code = hexes (snap_image saved_demo)" by simp
  then have "unhex code = snap_image saved_demo" by (simp add: unhex_hexes)
  moreover have "length (snap_image saved_demo) < 1000"
    by (simp add: snap_image_def length_entries [where k = 3] length_entries [where k = 1])
      (simp add: saved_fields_def saved_symbols_def saved_demo_def two_lists_def zeroed_def count_to_def)
  ultimately obtain mem where "holds mem SNAPSHOT_ADDR (''TML'' @ unhex code)"
    using memory_with [of "''TML'' @ unhex code" SNAPSHOT_ADDR] by auto
  with t r saved_demo_ok(2,3) show ?thesis by metis
qed

text \<open>Without the three letters nothing is read.\<close>

lemma restore_refuses: "\<not> holds mem p ''TML'' \<Longrightarrow> snapshot_restore mem p t = Done 0 t"
  by (auto simp: snapshot_restore_def ret_def add.assoc)

end
