(* ===== verification/Tml_Values.thy ===== *)
theory Tml_Values
  imports Tml_Env Tml_Eval
begin

text \<open>
  Lisp values without a heap and what it means that a word of the heap denotes one, a rule per
  construct for operations that may only return or halt, and what such operations keep: the cells
  that were live, the roots and everything outside the heap.
\<close>

section \<open>Values\<close>

datatype sval = Atom i24 | Cell sval sval | Obj i24 i24 | Clo sval sval "(i24 \<times> sval) list"

type_synonym senv = "(i24 \<times> sval) list"

fun shape :: "lisp \<Rightarrow> i24 \<Rightarrow> sval \<Rightarrow> bool" and shape_env :: "lisp \<Rightarrow> i24 \<Rightarrow> senv \<Rightarrow> bool" where
  "shape s w (Atom x) \<longleftrightarrow> w = x \<and> \<not> IS_PTR x"
| "shape s w (Cell a d) \<longleftrightarrow> IS_CONS w \<and> cell_of w < HEAP_SIZE \<and>
     shape s (heap_car s (cell_of w)) a \<and> shape s (heap_cdr s (cell_of w)) d"
| "shape s w (Obj t d) \<longleftrightarrow> IS_EXTENDED w \<and> cell_of w < HEAP_SIZE \<and> heap_car s (cell_of w) = t \<and>
     heap_cdr s (cell_of w) = d \<and> \<not> IS_PTR t \<and> \<not> IS_PTR d \<and> t \<noteq> ETYPE_CLOSURE \<and> t \<noteq> ETYPE_MACRO"
| "shape s w (Clo ps b ce) \<longleftrightarrow> IS_EXTENDED w \<and> cell_of w < HEAP_SIZE \<and>
     heap_car s (cell_of w) = ETYPE_CLOSURE \<and> IS_CONS (heap_cdr s (cell_of w)) \<and>
     cell_of (heap_cdr s (cell_of w)) < HEAP_SIZE \<and>
     shape s (heap_car s (cell_of (heap_cdr s (cell_of w)))) ps \<and>
     IS_CONS (heap_cdr s (cell_of (heap_cdr s (cell_of w)))) \<and>
     cell_of (heap_cdr s (cell_of (heap_cdr s (cell_of w)))) < HEAP_SIZE \<and>
     shape s (heap_car s (cell_of (heap_cdr s (cell_of (heap_cdr s (cell_of w)))))) b \<and>
     shape_env s (heap_cdr s (cell_of (heap_cdr s (cell_of (heap_cdr s (cell_of w)))))) ce"
| "shape_env s e [] \<longleftrightarrow> e = NIL_VAL"
| "shape_env s e ((x, v) # bs) \<longleftrightarrow> \<not> IS_PTR x \<and> IS_CONS e \<and> cell_of e < HEAP_SIZE \<and> IS_CONS (heap_car s (cell_of e)) \<and>
     cell_of (heap_car s (cell_of e)) < HEAP_SIZE \<and> heap_car s (cell_of (heap_car s (cell_of e))) = x \<and>
     shape s (heap_cdr s (cell_of (heap_car s (cell_of e)))) v \<and> shape_env s (heap_cdr s (cell_of e)) bs"

text \<open>An environment is an association list whose values have a shape.\<close>

lemma shape_env_alist:
  "shape_env s e bs \<longleftrightarrow> (\<exists>ws. alist_at s e ws \<and> list_all2 (\<lambda>(x, w) (y, v). x = y \<and> \<not> IS_PTR x \<and> shape s w v) ws bs)"
proof (induction bs arbitrary: e)
  case (Cons b bs)
  obtain x v where b: "b = (x, v)" by (cases b)
  show ?case
  proof
    assume l: "shape_env s e (b # bs)"
    with b Cons.IH [of "heap_cdr s (cell_of e)"] obtain ws where
      "alist_at s (heap_cdr s (cell_of e)) ws" "list_all2 (\<lambda>(x, w) (y, v). x = y \<and> \<not> IS_PTR x \<and> shape s w v) ws bs" by auto
    with l b show "\<exists>ws. alist_at s e ws \<and> list_all2 (\<lambda>(x, w) (y, v). x = y \<and> \<not> IS_PTR x \<and> shape s w v) ws (b # bs)"
      by (intro exI [of _ "(x, heap_cdr s (cell_of (heap_car s (cell_of e)))) # ws"]) simp
  next
    assume "\<exists>ws. alist_at s e ws \<and> list_all2 (\<lambda>(x, w) (y, v). x = y \<and> \<not> IS_PTR x \<and> shape s w v) ws (b # bs)"
    with b Cons.IH [of "heap_cdr s (cell_of e)"] show "shape_env s e (b # bs)"
      by (auto simp: list_all2_Cons2)
  qed
qed simp

lemma shape_tags:
  "shape s w (Atom x) \<Longrightarrow> \<not> IS_CONS w \<and> \<not> IS_EXTENDED w"
  "shape s w (Cell a d) \<Longrightarrow> IS_CONS w \<and> \<not> IS_EXTENDED w \<and> \<not> IS_SYMBOL w \<and> \<not> IS_FIXNUM w \<and> \<not> IS_NIL w \<and> w \<noteq> T_VAL"
  "shape s w (Obj t e) \<Longrightarrow> IS_EXTENDED w \<and> \<not> IS_CONS w \<and> \<not> IS_SYMBOL w \<and> \<not> IS_FIXNUM w \<and> \<not> IS_NIL w \<and> w \<noteq> T_VAL"
  "shape s w (Clo p b ce) \<Longrightarrow> IS_EXTENDED w \<and> \<not> IS_CONS w \<and> \<not> IS_SYMBOL w \<and> \<not> IS_FIXNUM w \<and> \<not> IS_NIL w \<and> w \<noteq> T_VAL"
  using tag_exclusive(1) [of w] tag_exclusive(3) [of w] by (auto simp: IS_PTR_def IS_NIL_def)

lemma shape_nil: "shape s w v \<Longrightarrow> IS_NIL w \<longleftrightarrow> v = Atom NIL_VAL"
proof -
  assume h: "shape s w v"
  show ?thesis
  proof (cases v)
    case (Cell a d)
    with h shape_tags(2) [of s w a d] show ?thesis by blast
  next
    case (Obj t d)
    with h shape_tags(3) [of s w t d] show ?thesis by blast
  next
    case (Clo p b ce)
    with h shape_tags(4) [of s w p b ce] show ?thesis by blast
  qed (use h in \<open>simp add: IS_NIL_def\<close>)
qed

text \<open>What is reachable from a pointer.\<close>

lemma cells_ptr:
  assumes "IS_PTR v"
  shows "cell_of v \<in> cells_of s v" and "cells_of s (heap_cdr s (cell_of v)) \<subseteq> cells_of s v"
    and "cells_of s (heap_car s (cell_of v)) \<subseteq> cells_of s v"
proof -
  show c: "cell_of v \<in> cells_of s v"
    using assms by (intro reach_root) auto
  show "cells_of s (heap_cdr s (cell_of v)) \<subseteq> cells_of s v" "cells_of s (heap_car s (cell_of v)) \<subseteq> cells_of s v"
    using reach_from_reach [of "{heap_cdr s (cell_of v)}" "heap_car s" "heap_cdr s" "{v}"]
      reach_from_reach [of "{heap_car s (cell_of v)}" "heap_car s" "heap_cdr s" "{v}"] reach_cdr [OF c] reach_car [OF c]
    by auto
qed

lemma same_ptr:
  assumes "same_cells s s' (cells_of s v)" and "IS_PTR v"
  shows "heap_car s' (cell_of v) = heap_car s (cell_of v)" and "heap_cdr s' (cell_of v) = heap_cdr s (cell_of v)"
    and "same_cells s s' (cells_of s (heap_car s (cell_of v)))" and "same_cells s s' (cells_of s (heap_cdr s (cell_of v)))"
  using assms cells_ptr [OF assms(2), of s] by (auto simp: same_cells_def)

lemma ext_ptr: "IS_EXTENDED v \<Longrightarrow> IS_PTR v"
  by (simp add: IS_PTR_def)

lemma shape_same:
  "shape s w v \<Longrightarrow> same_cells s s' (cells_of s w) \<Longrightarrow> shape s' w v"
  "shape_env s e bs \<Longrightarrow> same_cells s s' (cells_of s e) \<Longrightarrow> shape_env s' e bs"
proof (induction s w v and s e bs rule: shape_shape_env.induct)
  case (2 s w a d)
  then have "IS_PTR w" by (simp add: cons_ptr)
  with 2 same_ptr [OF 2(4) this] show ?case by simp
next
  case (3 s w t d)
  then have "IS_PTR w" by (simp add: ext_ptr)
  with 3 same_ptr [OF 3(2) this] show ?case by simp
next
  case (4 s w ps b ce)
  let ?d = "heap_cdr s (cell_of w)"
  let ?i = "heap_cdr s (cell_of ?d)"
  have p: "IS_PTR w" "IS_PTR ?d" "IS_PTR ?i" using 4(4) by (simp_all add: ext_ptr cons_ptr)
  note k = same_ptr [OF 4(5) p(1)]
  note l = same_ptr [OF k(4) p(2)]
  note m = same_ptr [OF l(4) p(3)]
  show ?case
    using 4 k(1,2) l(1-3) m by simp
next
  case (6 s e x v bs)
  have p: "IS_PTR e" "IS_PTR (heap_car s (cell_of e))" using 6(3) by (simp_all add: cons_ptr)
  note k = same_ptr [OF 6(4) p(1)]
  note l = same_ptr [OF k(3) p(2)]
  show ?case
    using 6 k(1,2,4) l by simp
qed auto

lemma shape_cells: "heap_car s' = heap_car s \<Longrightarrow> heap_cdr s' = heap_cdr s \<Longrightarrow> shape s' w v = shape s w v"
  using shape_same(1) [of s w v s'] shape_same(1) [of s' w v s] by (auto simp: same_cells_def)

lemma shape_env_cells:
  "heap_car s' = heap_car s \<Longrightarrow> heap_cdr s' = heap_cdr s \<Longrightarrow> shape_env s' w v = shape_env s w v"
  using shape_same(2) [of s w v s'] shape_same(2) [of s' w v s] by (auto simp: same_cells_def)

section \<open>Operations that return or halt\<close>

text \<open>The endless loop at the end of a panic: its message has been written.\<close>

definition panicked :: "lisp \<Rightarrow> bool" where
  "panicked s \<longleftrightarrow> (\<exists>p t. uart_out s = p @ ''PANIC:'' @ t)"

definition runs :: "'a act \<Rightarrow> lisp \<Rightarrow> ('a \<Rightarrow> lisp \<Rightarrow> bool) \<Rightarrow> bool" where
  "runs m s Q \<longleftrightarrow> (case m s of Done a s' \<Rightarrow> Q a s' | Halted s' \<Rightarrow> panicked s' | _ \<Rightarrow> False)"

lemma runs_simps [simp]:
  "runs (ret a) s Q = Q a s" "runs (get f) s Q' = Q' (f s) s" "runs (upd g) s Q'' = Q'' () (g s)"
  by (simp_all add: runs_def)

lemma panic_says: "panicked (says (''PANIC:'' @ t) s)"
  by (auto simp: panicked_def)

lemma panic_more: "panicked s \<Longrightarrow> panicked (says t s)"
  unfolding panicked_def by (elim exE) (simp, metis append.assoc append_Cons)

lemma runs_bnd: "runs (bnd m k) s Q = runs m s (\<lambda>a s'. runs (k a) s' Q)"
  by (auto simp: runs_def bnd_def split: outcome.split)

lemma runs_bndI: "runs m s (\<lambda>a s'. runs (k a) s' Q) \<Longrightarrow> runs (bnd m k) s Q"
  by (simp add: runs_bnd)

lemma runs_get [simp]: "runs (bnd (get f) k) s Q = runs (k (f s)) s Q"
  by (simp add: runs_def)

lemma runs_car [simp]:
  "cell_of w < HEAP_SIZE \<Longrightarrow> runs (car w) s Q = Q (heap_car s (cell_of w)) s"
  "cell_of w < HEAP_SIZE \<Longrightarrow> runs (cdr w) s Q = Q (heap_cdr s (cell_of w)) s"
  "cell_of w < HEAP_SIZE \<Longrightarrow> runs (ext_type w) s Q = Q (heap_car s (cell_of w)) s"
  "cell_of w < HEAP_SIZE \<Longrightarrow> runs (ext_data w) s Q = Q (heap_cdr s (cell_of w)) s"
  by (simp_all add: runs_def car_eq cdr_eq ext_type_def ext_data_def peek_car_def peek_cdr_def cell_of_def)

lemma runs_if: "runs (if c then m else n) s Q = (if c then runs m s Q else runs n s Q)"
  by simp

lemma runs_mono: "runs m s Q \<Longrightarrow> (\<And>a s'. Q a s' \<Longrightarrow> R a s') \<Longrightarrow> runs m s R"
  by (auto simp: runs_def split: outcome.splits)

lemma runs_hold:
  assumes "runs m (s\<lparr>c_stack := vs @ c_stack s\<rparr>) Q"
    and "\<And>a s1. Q a s1 \<Longrightarrow> R a (s1\<lparr>c_stack := c_stack s\<rparr>)"
  shows "runs (hold vs m) s R"
  using assms by (auto simp: runs_def hold_def bnd_def split: outcome.splits)


section \<open>What is kept\<close>

text \<open>Nothing outside the heap has changed; slots of the root stack that are in use are as before.\<close>

definition heap_only :: "lisp \<Rightarrow> lisp \<Rightarrow> bool" where
  "heap_only s s' \<longleftrightarrow> (\<exists>a d n m f k r. s' = s\<lparr>heap_car := a, heap_cdr := d, heap_next := n, heap_mark := m,
     free_list := f, gc_collections := k, gc_roots := r\<rparr> \<and> (\<forall>i<count_to (gc_root_count s). r i = gc_roots s i))"

definition grown :: "lisp \<Rightarrow> lisp \<Rightarrow> bool" where
  "grown s s' \<longleftrightarrow> extends s s' \<and> heap_only s s'"

definition intact :: "lisp \<Rightarrow> lisp \<Rightarrow> i24 \<Rightarrow> bool" where
  "intact s s' v \<longleftrightarrow> sound s' v \<and> same_cells s s' (cells_of s v)"

lemma heap_only_refl: "heap_only s s"
proof -
  have "s = s\<lparr>heap_car := heap_car s, heap_cdr := heap_cdr s, heap_next := heap_next s,
    heap_mark := heap_mark s, free_list := free_list s, gc_collections := gc_collections s, gc_roots := gc_roots s\<rparr>"
    by simp
  then show ?thesis unfolding heap_only_def by blast
qed

lemma heap_only_trans: "heap_only s s1 \<Longrightarrow> heap_only s1 s2 \<Longrightarrow> heap_only s s2"
  unfolding heap_only_def by (elim exE conjE, hypsubst, intro exI conjI, rule lisp.equality) simp_all

lemma heap_only_alloc: "alloc_frame s s' \<Longrightarrow> heap_only s s'"
proof -
  assume "alloc_frame s s'"
  then obtain a d n m f k where s': "s' = s\<lparr>heap_car := a, heap_cdr := d, heap_next := n, heap_mark := m,
    free_list := f, gc_collections := k\<rparr>" unfolding alloc_frame_def by blast
  have "s' = s\<lparr>heap_car := a, heap_cdr := d, heap_next := n, heap_mark := m,
    free_list := f, gc_collections := k, gc_roots := gc_roots s\<rparr>"
    unfolding s' by (rule lisp.equality) simp_all
  then show ?thesis unfolding heap_only_def by blast
qed

lemma heap_only_fields:
  "heap_only s s' \<Longrightarrow> special_sym s' = special_sym s \<and> catch_throwing s' = catch_throwing s \<and>
    global_env s' = global_env s \<and> gc_root_count s' = gc_root_count s \<and> c_stack s' = c_stack s \<and>
    uart_out s' = uart_out s \<and> uart_in s' = uart_in s"
  unfolding heap_only_def by (elim exE conjE, hypsubst) simp

lemma heap_only_roots: "heap_only s s' \<Longrightarrow> i < count_to (gc_root_count s) \<Longrightarrow> gc_roots s' i = gc_roots s i"
  unfolding heap_only_def by (elim exE conjE, hypsubst) simp

lemma heap_only_pop:
  "heap_only (s\<lparr>c_stack := k\<rparr>) s1 \<Longrightarrow> heap_only s (s1\<lparr>c_stack := c_stack s\<rparr>)"
  unfolding heap_only_def by (elim exE conjE, hypsubst, intro exI conjI, rule lisp.equality) simp_all

lemma grown_refl: "heap_ok s \<Longrightarrow> grown s s"
  by (simp add: grown_def heap_only_refl extends_refl)

lemma grown_trans: "grown s s1 \<Longrightarrow> grown s1 s2 \<Longrightarrow> grown s s2"
  unfolding grown_def using extends_trans heap_only_trans by blast

lemma grown_ok: "grown s s' \<Longrightarrow> heap_ok s'"
  by (simp add: grown_def extends_def)

lemma keeping_grown: "keeping V s s' \<Longrightarrow> grown s s' \<and> (\<forall>v\<in>V. intact s s' v)"
  by (auto simp: keeping_def grown_def intact_def intro: heap_only_alloc)

lemma intact_refl: "sound s v \<Longrightarrow> intact s s v"
  by (simp add: intact_def same_cells_def)

lemma intact_cells: "intact s s' v \<Longrightarrow> cells_of s' v = cells_of s v"
  by (simp add: intact_def same_cells_reach)

lemma intact_trans: "intact s s1 v \<Longrightarrow> intact s1 s2 v \<Longrightarrow> intact s s2 v"
  using intact_cells [of s s1 v] by (simp add: intact_def same_cells_def)

lemma intact_part:
  assumes "intact s s' v" and "IS_PTR v" and "heap_ok s'"
  shows "intact s s' (heap_car s (cell_of v))" and "intact s s' (heap_cdr s (cell_of v))"
    and "heap_car s' (cell_of v) = heap_car s (cell_of v)" and "heap_cdr s' (cell_of v) = heap_cdr s (cell_of v)"
proof -
  note k = same_ptr [of s s' v, OF _ assms(2)]
  have "cell_of v \<in> used s'" using assms by (simp add: intact_def sound_def)
  then have "sound s' (heap_car s' (cell_of v))" "sound s' (heap_cdr s' (cell_of v))"
    using assms(3) by (auto simp: heap_ok_def)
  with assms(1) k show "intact s s' (heap_car s (cell_of v))" "intact s s' (heap_cdr s (cell_of v))"
    "heap_car s' (cell_of v) = heap_car s (cell_of v)" "heap_cdr s' (cell_of v) = heap_cdr s (cell_of v)"
    by (simp_all add: intact_def)
qed

lemma shape_intact: "intact s s' w \<Longrightarrow> shape s w v \<Longrightarrow> shape s' w v"
  and shape_env_intact: "intact s s' w \<Longrightarrow> shape_env s w bs \<Longrightarrow> shape_env s' w bs"
  using shape_same by (auto simp: intact_def)

lemma sound_part:
  assumes "heap_ok s" and "sound s v" and "IS_PTR v"
  shows "sound s (heap_car s (cell_of v))" and "sound s (heap_cdr s (cell_of v))"
  using assms by (auto simp: heap_ok_def sound_def)

text \<open>A word of the C stack and the global environment are kept.\<close>

lemma stack_in_roots:
  assumes "heap_ok s" and "v \<in> set (c_stack s)" and "sound s v" and "IS_PTR v"
  shows "v \<in> all_roots s"
  using pushed_root [of "s\<lparr>c_stack := []\<rparr>" v "c_stack s"] assms by simp

lemma stack_live:
  assumes "heap_ok s" and "v \<in> insert (global_env s) (set (c_stack s))" and "sound s v"
  shows "cells_of s v \<subseteq> live s"
proof (cases "IS_PTR v")
  case True
  with assms have "v \<in> all_roots s"
    using stack_in_roots by (auto simp: all_roots_def own_roots_def)
  with assms(3) reach_live show ?thesis by blast
qed (auto simp: reach_def)

lemma live_intact:
  assumes "extends s s'" and "sound s v" and "cells_of s v \<subseteq> live s"
  shows "intact s s' v"
proof -
  have "same_cells s s' (cells_of s v)" using assms by (auto simp: extends_def same_cells_def)
  moreover have "cell_of v \<in> live s" if "IS_PTR v" using assms(3) cells_ptr(1) [OF that] by blast
  then have "sound s' v" using assms(1) by (auto simp: extends_def sound_def)
  ultimately show ?thesis by (simp add: intact_def)
qed

lemma grown_keeps:
  assumes "grown s s'" and "heap_ok s" and "v \<in> insert (global_env s) (set (c_stack s))" and "sound s v"
  shows "intact s s' v"
  using live_intact [OF _ assms(4) stack_live [OF assms(2-4)]] assms(1) by (simp add: grown_def)

lemma global_sound: "heap_ok s \<Longrightarrow> sound s (global_env s)"
  by (auto simp: heap_ok_def own_roots_def)

section \<open>Where a value comes from\<close>

text \<open>
  What a value reaches is reachable from the given words or from the global environment, or was
  not live before.
\<close>

definition from_words :: "i24 set \<Rightarrow> lisp \<Rightarrow> lisp \<Rightarrow> i24 \<Rightarrow> bool" where
  "from_words V s s' w \<longleftrightarrow>
     cells_of s' w \<subseteq> reach (heap_car s) (heap_cdr s) (insert (global_env s) V) \<union> - live s"

definition yields :: "i24 set \<Rightarrow> lisp \<Rightarrow> i24 \<Rightarrow> lisp \<Rightarrow> bool" where
  "yields V s w s' \<longleftrightarrow> grown s s' \<and> sound s' w \<and> from_words V s s' w"

lemma reach_in: "v \<in> V \<Longrightarrow> cells_of s v \<subseteq> reach (heap_car s) (heap_cdr s) V"
  by (rule reach_mono) auto

lemma from_intact: "v \<in> insert (global_env s) V \<Longrightarrow> intact s s' v \<Longrightarrow> from_words V s s' v"
  using intact_cells [of s s' v] reach_in [of v "insert (global_env s) V" s] by (auto simp: from_words_def)

lemma from_part: "from_words V s s' v \<Longrightarrow> IS_PTR v \<Longrightarrow>
    from_words V s s' (heap_car s' (cell_of v)) \<and> from_words V s s' (heap_cdr s' (cell_of v))"
  using cells_ptr [of v s'] by (auto simp: from_words_def)

lemma from_atom: "\<not> IS_PTR v \<Longrightarrow> from_words V s s' v"
  by (auto simp: from_words_def reach_def)

lemma from_later: "from_words V s s1 v \<Longrightarrow> intact s1 s2 v \<Longrightarrow> from_words V s s2 v"
  by (simp add: from_words_def intact_cells)

lemma from_trans:
  assumes "from_words W s1 s2 w" and "grown s s1" and "heap_ok s" and "\<forall>v\<in>W. from_words V s s1 v"
  shows "from_words V s s2 w"
proof -
  have "cells_of s1 (global_env s1) \<subseteq> reach (heap_car s) (heap_cdr s) (insert (global_env s) V)"
    using intact_cells [OF grown_keeps [OF assms(2,3) _ global_sound [OF assms(3)]]] assms(2)
      reach_in [of "global_env s" "insert (global_env s) V" s] heap_only_fields [of s s1] by (auto simp: grown_def)
  moreover have "reach (heap_car s1) (heap_cdr s1) (insert (global_env s1) W) \<subseteq>
      cells_of s1 (global_env s1) \<union> (\<Union>v\<in>W. cells_of s1 v)"
    by (auto simp: reach_def)
  moreover have "live s \<subseteq> live s1" using assms(2) by (simp add: grown_def extends_live)
  ultimately show ?thesis
    using assms(1,4) by (fastforce simp: from_words_def)
qed

lemma yields_trans:
  assumes "yields W s1 w s2" and "grown s s1" and "heap_ok s" and "\<forall>v\<in>W. from_words V s s1 v"
  shows "yields V s w s2"
  using assms grown_trans from_trans unfolding yields_def by blast

text \<open>Under \<open>hold\<close>.\<close>

lemma grown_held:
  assumes "grown (s\<lparr>c_stack := vs @ c_stack s\<rparr>) s1" and "heap_ok s"
  shows "grown s (s1\<lparr>c_stack := c_stack s\<rparr>)"
    and "v \<in> set vs \<Longrightarrow> sound s v \<Longrightarrow> intact s (s1\<lparr>c_stack := c_stack s\<rparr>) v"
proof -
  show "grown s (s1\<lparr>c_stack := c_stack s\<rparr>)"
    using assms extends_pop heap_only_pop by (auto simp: grown_def)
  show "intact s (s1\<lparr>c_stack := c_stack s\<rparr>) v" if "v \<in> set vs" "sound s v"
    using grown_keeps [OF assms(1), of v] assms(2) that by (auto simp: intact_def same_cells_def)
qed

lemma yields_held:
  assumes "yields V (s\<lparr>c_stack := vs @ c_stack s\<rparr>) w s1" and "heap_ok s"
  shows "yields V s w (s1\<lparr>c_stack := c_stack s\<rparr>)"
  using assms grown_held(1) live_push [of s vs] by (auto simp: yields_def from_words_def)

lemma runs_held:
  assumes "heap_ok s" and "runs m (s\<lparr>c_stack := vs @ c_stack s\<rparr>) (\<lambda>w s1. yields V (s\<lparr>c_stack := vs @ c_stack s\<rparr>) w s1 \<and> P w s1)"
    and "\<And>w s1. P w s1 \<Longrightarrow> P w (s1\<lparr>c_stack := c_stack s\<rparr>)"
    and "\<And>w s'. yields V s w s' \<Longrightarrow> \<forall>v\<in>set vs. sound s v \<longrightarrow> intact s s' v \<Longrightarrow> P w s' \<Longrightarrow>
      from_words V (s\<lparr>c_stack := vs @ c_stack s\<rparr>) s' w \<Longrightarrow> R w s'"
  shows "runs (hold vs m) s R"
proof (rule runs_hold [OF assms(2)])
  fix w s1 assume a: "yields V (s\<lparr>c_stack := vs @ c_stack s\<rparr>) w s1 \<and> P w s1"
  then have g: "grown (s\<lparr>c_stack := vs @ c_stack s\<rparr>) s1" by (simp add: yields_def)
  show "R w (s1\<lparr>c_stack := c_stack s\<rparr>)"
  proof (rule assms(4))
    show "yields V s w (s1\<lparr>c_stack := c_stack s\<rparr>)" using a assms(1) yields_held by blast
    show "\<forall>v\<in>set vs. sound s v \<longrightarrow> intact s (s1\<lparr>c_stack := c_stack s\<rparr>) v"
      using grown_held(2) [OF g assms(1)] by blast
    show "P w (s1\<lparr>c_stack := c_stack s\<rparr>)" using a assms(3) by blast
    show "from_words V (s\<lparr>c_stack := vs @ c_stack s\<rparr>) (s1\<lparr>c_stack := c_stack s\<rparr>) w"
      using a by (simp add: yields_def from_words_def)
  qed
qed

end
