(* ===== verification/Tml_Build_Values.thy ===== *)
theory Tml_Build_Values
  imports Tml_Values
begin

text \<open>
  How the evaluator builds values: new cells, closures, environments with parameters bound, and
  regions in which slots of the root stack protect what is under construction.
\<close>

section \<open>New cells\<close>

lemma cells_cons:
  assumes "IS_PTR v"
  shows "cells_of s v = insert (cell_of v) (cells_of s (heap_car s (cell_of v)) \<union> cells_of s (heap_cdr s (cell_of v)))"
proof
  let ?S = "insert (cell_of v) (cells_of s (heap_car s (cell_of v)) \<union> cells_of s (heap_cdr s (cell_of v)))"
  show "cells_of s v \<subseteq> ?S"
  proof (rule reach_closed)
    fix i j assume "i \<in> ?S" "(i, j) \<in> edges (heap_car s) (heap_cdr s)"
    then show "j \<in> ?S" by (auto elim!: edges_E intro: reach_root reach_car reach_cdr)
  qed auto
  show "?S \<subseteq> cells_of s v" using cells_ptr [OF assms, of s] by auto
qed

definition makes :: "i24 list \<Rightarrow> i24 \<Rightarrow> i24 \<Rightarrow> lisp \<Rightarrow> i24 \<Rightarrow> lisp \<Rightarrow> bool" where
  "makes vs a d s w s' \<longleftrightarrow> IS_PTR w \<and> cell_of w < HEAP_SIZE \<and> sound s' w \<and> grown s s' \<and>
     heap_car s' (cell_of w) = a \<and> heap_cdr s' (cell_of w) = d \<and> cell_of w \<notin> live s \<and>
     (\<forall>v\<in>set vs. intact s s' v \<and> cell_of w \<notin> cells_of s v)"

text \<open>Allocation halts only after its panic.\<close>

definition goes_on :: "'a act \<Rightarrow> bool" where
  "goes_on m \<longleftrightarrow> (\<forall>s s'. m s \<noteq> Halted s')"

lemma goes_on_bnd: "goes_on m \<Longrightarrow> (\<And>a. goes_on (k a)) \<Longrightarrow> goes_on (bnd m k)"
  by (auto simp: goes_on_def bnd_def split: outcome.splits)

lemma goes_on_steps:
  "goes_on (ret a)" "goes_on (Done b)" "goes_on (get f)" "goes_on (upd g)" "goes_on (peek_cdr i)" "goes_on (poke_car i v)" "goes_on (poke_cdr i v)"
  "goes_on (gc_mark_val v)" "goes_on clear_marks" "goes_on gc_sweep" "goes_on (\<lambda>s. entries l (arr s) (n s) s)"
  by (auto simp: goes_on_def peek_cdr_def poke_car_def poke_cdr_def gc_mark_val_def clear_marks_def gc_sweep_def entries_def
      split: option.splits)

lemma goes_on_marks: "goes_on (mark_vals vs)"
  by (induction vs) (simp_all add: goes_on_steps goes_on_bnd)

lemma goes_on_collect: "goes_on gc_collect" "goes_on take_free" "goes_on bump"
proof -
  have "goes_on gc_scan_stack"
    using goes_on_marks by (auto simp: goes_on_def gc_scan_stack_def)
  then show "goes_on gc_collect"
    unfolding gc_collect_def by (intro goes_on_bnd goes_on_steps goes_on_marks)
  show "goes_on take_free" "goes_on bump"
    unfolding take_free_def bump_def by (intro goes_on_bnd goes_on_steps)+
qed

lemma alloc_panics: "alloc_cell s = Halted s' \<Longrightarrow> panicked s'"
proof -
  have *: "panicked s'" if "gc_alloc_cell s = Halted s'"
    using that goes_on_collect panic_more panic_says
    by (auto simp: gc_alloc_cell_def goes_on_def bnd_def [of gc_collect] split: if_splits outcome.splits)
  show "alloc_cell s = Halted s' \<Longrightarrow> panicked s'"
    using * goes_on_collect panic_more panic_says by (auto simp: alloc_cell_def goes_on_def split: if_splits)
qed

lemma make_cell_panics: "cells.make_cell vs tag a d s = Halted s' \<Longrightarrow> panicked s'"
  using alloc_panics goes_on_steps(6,7)
  by (auto simp: cells.make_cell_def hold_def bnd_def goes_on_def split: outcome.splits)

lemma runs_make_cell:
  assumes ok: "heap_ok s" and vs: "\<forall>v\<in>set vs. sound s v"
    and held: "a \<in> set vs \<or> \<not> IS_PTR a" "d \<in> set vs \<or> \<not> IS_PTR d"
    and tag: "\<And>i. i < HEAP_SIZE \<Longrightarrow> IS_PTR (tag (of_nat i)) \<and> cell_of (tag (of_nat i)) = i"
  shows "runs (cells.make_cell vs tag a d) s (\<lambda>w s'. makes vs a d s w s' \<and> (\<exists>i. w = tag (of_nat i)))"
  using cells.make_cell_outcome [OF ok, of vs tag a d]
proof (elim disjE exE)
  fix w s' assume r: "cells.make_cell vs tag a d s = Done w s'"
  have snd: "sound s a" "sound s d" using vs held by (auto simp: sound_def)
  from cells.make_cell_fresh [OF r ok snd] held obtain i where
    i: "w = tag (of_nat i)" "i < HEAP_SIZE" "i \<in> used s'" "i \<notin> live s" "extends s s'" "alloc_frame s s'"
      "heap_car s' i = a" "heap_cdr s' i = d"
    and k: "\<And>v j. v \<in> set vs \<Longrightarrow> sound s v \<Longrightarrow> j \<in> cells_of s v \<Longrightarrow>
      heap_car s' j = heap_car s j \<and> heap_cdr s' j = heap_cdr s j \<and> j \<in> used s' \<and> j \<noteq> i"
    by blast
  have "intact s s' v \<and> i \<notin> cells_of s v" if "v \<in> set vs" for v
    using k [OF that] vs that cells_ptr(1) [of v s] by (auto simp: intact_def same_cells_def sound_def)
  with i tag [OF i(2)] r show ?thesis
    by (auto simp: runs_def makes_def grown_def sound_def intro: heap_only_alloc)
qed (use make_cell_panics in \<open>auto simp: runs_def\<close>)

lemma make_ptr_tag:
  "i < HEAP_SIZE \<Longrightarrow> IS_PTR (MAKE_CONS (of_nat i)) \<and> cell_of (MAKE_CONS (of_nat i)) = i"
  "i < HEAP_SIZE \<Longrightarrow> IS_PTR (MAKE_EXTENDED (of_nat i)) \<and> cell_of (MAKE_EXTENDED (of_nat i)) = i"
  by (simp_all add: IS_PTR_def HEAP_SIZE_def)

lemma runs_cons:
  assumes "heap_ok s" and "sound s a" and "sound s d"
  shows "runs (cons a d) s (\<lambda>w s'. makes [a, d] a d s w s' \<and> IS_CONS w)"
  unfolding cons_make_cell
proof (rule runs_mono [OF runs_make_cell [of s "[a, d]" a d MAKE_CONS]])
  show "IS_PTR (MAKE_CONS (of_nat i)) \<and> cell_of (MAKE_CONS (of_nat i)) = i" if "i < HEAP_SIZE" for i
    using that by (rule make_ptr_tag)
qed (use assms in auto)

text \<open>Under \<open>hold\<close> the other words of the frame are kept too.\<close>

lemma makes_held:
  assumes "makes vs a d (s\<lparr>c_stack := ws @ c_stack s\<rparr>) w s1" and "heap_ok s" and "\<forall>v\<in>set ws. sound s v"
  shows "makes (vs @ ws) a d s w (s1\<lparr>c_stack := c_stack s\<rparr>)"
proof -
  let ?p = "s\<lparr>c_stack := ws @ c_stack s\<rparr>" and ?t = "s1\<lparr>c_stack := c_stack s\<rparr>"
  have g: "grown ?p s1" using assms(1) by (simp add: makes_def)
  have "intact s ?t v \<and> cell_of w \<notin> cells_of s v" if "v \<in> set ws" for v
    using grown_held(2) [OF g assms(2), of v] that assms stack_live [of ?p v]
    by (auto simp: makes_def)
  moreover have "intact s ?t v \<and> cell_of w \<notin> cells_of s v" if "v \<in> set vs" for v
    using assms(1) that by (auto simp: makes_def intact_def same_cells_def)
  ultimately show ?thesis
    using assms(1) grown_held(1) [OF g assms(2)] live_push [of s ws] by (auto simp: makes_def)
qed

lemma runs_hold_cons:
  assumes "heap_ok s" and "sound s a" and "sound s d" and "\<forall>v\<in>set ws. sound s v"
  shows "runs (hold ws (cons a d)) s (\<lambda>w s'. makes ([a, d] @ ws) a d s w s' \<and> IS_CONS w)"
proof (rule runs_hold [OF runs_cons])
  fix w s1 assume "makes [a, d] a d (s\<lparr>c_stack := ws @ c_stack s\<rparr>) w s1 \<and> IS_CONS w"
  with makes_held assms show "makes ([a, d] @ ws) a d s w (s1\<lparr>c_stack := c_stack s\<rparr>) \<and> IS_CONS w" by blast
qed (use assms in simp_all)

lemma makes_from:
  assumes "makes vs a d s w s'" and "grown s0 s" and "from_words V s0 s' a" and "from_words V s0 s' d"
  shows "from_words V s0 s' w"
  using assms cells_cons [of w s'] extends_live [of s0 s] by (auto simp: from_words_def makes_def grown_def)

lemma makes_facts:
  assumes "makes vs a d s w s'"
  shows "grown s s'" "sound s' w" "IS_PTR w" "cell_of w < HEAP_SIZE" "heap_car s' (cell_of w) = a"
    "heap_cdr s' (cell_of w) = d" "cell_of w \<notin> live s" "v \<in> set vs \<Longrightarrow> intact s s' v"
    "v \<in> set vs \<Longrightarrow> cell_of w \<notin> cells_of s v" "heap_ok s'"
  using assms grown_ok by (auto simp: makes_def)

text \<open>Closures.\<close>

lemma runs_make_closure:
  assumes ok: "heap_ok s" and snd: "sound s ps" "sound s b" "sound s e"
    and sh: "shape s ps pv" "shape s b bv" "shape_env s e ce"
  shows "runs (make_closure ps b e) s (\<lambda>w s'. grown s s' \<and> sound s' w \<and> shape s' w (Clo pv bv ce) \<and>
    from_words {ps, b, e} s s' w)"
  unfolding make_closure_def
proof (rule runs_bndI, rule runs_mono [OF runs_hold_cons], (use ok snd in simp_all)[4], elim conjE)
  fix i s1 assume m1: "makes ([b, e] @ [ps, b, e]) b e s i s1" and i: "IS_CONS i"
  note f1 = makes_facts [OF m1]
  have s1: "sound s1 ps" "sound s1 b" "sound s1 e" "sound s1 i"
    using f1(2) f1(8) [of ps] f1(8) [of b] f1(8) [of e] by (simp_all add: intact_def)
  let ?alloc = "\<lambda>d. bnd (hold [ps, b, e, i, d] alloc_cell)
    (\<lambda>idx. bnd (poke_car idx ETYPE_CLOSURE) (\<lambda>_. bnd (poke_cdr idx d) (\<lambda>_. ret (MAKE_EXTENDED idx))))"
    and ?Q = "\<lambda>w s'. grown s s' \<and> sound s' w \<and> shape s' w (Clo pv bv ce) \<and> from_words {ps, b, e} s s' w"
  show "runs (bnd (hold [ps, b, e, i] (cons ps i)) ?alloc) s1 ?Q"
  proof (rule runs_bndI, rule runs_mono [OF runs_hold_cons], (use f1(10) s1 in simp_all)[4], elim conjE)
    fix d s2 assume m2: "makes ([ps, i] @ [ps, b, e, i]) ps i s1 d s2" and d: "IS_CONS d"
    note f2 = makes_facts [OF m2]
    have s2: "sound s2 ps" "sound s2 b" "sound s2 e" "sound s2 i" "sound s2 d"
      using f2(2) f2(8) [of ps] f2(8) [of b] f2(8) [of e] f2(8) [of i] by (simp_all add: intact_def)
    have "runs (cells.make_cell [ps, b, e, i, d] MAKE_EXTENDED ETYPE_CLOSURE d) s2
      (\<lambda>w s'. makes [ps, b, e, i, d] ETYPE_CLOSURE d s2 w s' \<and> (\<exists>i. w = MAKE_EXTENDED (of_nat i)))"
      by (rule runs_make_cell [OF _ _ _ _ make_ptr_tag(2)]) (use s2 f2(10) in \<open>simp_all add: IS_PTR_def ETYPE_CLOSURE_def\<close>)
    then show "runs (?alloc d) s2 ?Q"
      unfolding cells.make_cell_def [symmetric]
    proof (rule runs_mono, elim conjE exE)
      fix w s3 j assume m3: "makes [ps, b, e, i, d] ETYPE_CLOSURE d s2 w s3" and w: "w = MAKE_EXTENDED (of_nat j)"
      note f3 = makes_facts [OF m3]
      have g: "grown s s3" "grown s s2" using grown_trans f1(1) f2(1) f3(1) by blast+
      have k: "intact s s3 v" if "v \<in> {ps, b, e}" for v
      proof -
        have "intact s s1 v" "intact s1 s2 v" "intact s2 s3 v"
          using that f1(8) [of v] f2(8) [of v] f3(8) [of v] by auto
        then show ?thesis using intact_trans by blast
      qed
      have hi: "heap_car s3 (cell_of i) = b" "heap_cdr s3 (cell_of i) = e" "intact s2 s3 i" "intact s1 s2 i"
        using intact_part(3,4) [OF f2(8) [of i] f1(3) f2(10)] intact_part(3,4) [OF f3(8) [of i] f1(3) f3(10)] f1(5,6) f3(8) [of i] f2(8) [of i] by simp_all
      have hd: "heap_car s3 (cell_of d) = ps" "heap_cdr s3 (cell_of d) = i" "intact s2 s3 d"
        using intact_part(3,4) [OF f3(8) [of d] f2(3) f3(10)] f2(5,6) f3(8) [of d] by simp_all
      have fr: "from_words {ps, b, e} s s3 v" if "v \<in> {ps, b, e}" for v by (rule from_intact [OF insertI2 [OF that] k [OF that]])
      have "from_words {ps, b, e} s s1 v" if "v \<in> {ps, b, e}" for v using that f1(8) [of v] by (auto intro: from_intact)
      with makes_from [OF m1 grown_refl [OF ok]] have "from_words {ps, b, e} s s1 i" by blast
      then have i2: "from_words {ps, b, e} s s2 i" using hi(4) by (rule from_later)
      have "intact s s2 ps" using intact_trans [of s s1 ps s2] f1(8) [of ps] f2(8) [of ps] by simp
      then have "from_words {ps, b, e} s s2 ps" by (intro from_intact) simp_all
      with makes_from [OF m2 f1(1)] i2 have "from_words {ps, b, e} s s2 d" by blast
      then have "from_words {ps, b, e} s s3 d" using hd(3) by (rule from_later)
      then have "from_words {ps, b, e} s s3 w"
        using makes_from [OF m3 g(2)] by (simp add: from_atom IS_PTR_def ETYPE_CLOSURE_def)
      moreover have "shape s3 w (Clo pv bv ce)"
        using w d i f3(4-6) f1(4) f2(4) hi(1,2) hd(1,2) sh shape_intact [OF k] shape_env_intact [OF k]
        by simp
      ultimately show "grown s s3 \<and> sound s3 w \<and> shape s3 w (Clo pv bv ce) \<and> from_words {ps, b, e} s s3 w"
        using g f3(2) by blast
    qed
  qed
qed

section \<open>Protected regions\<close>

text \<open>Since \<open>s0\<close>, \<open>m\<close> slots of the root stack have been pushed on the \<open>c\<close> that were in use.\<close>

definition inside :: "nat \<Rightarrow> nat \<Rightarrow> lisp \<Rightarrow> lisp \<Rightarrow> bool" where
  "inside m c s0 s \<longleftrightarrow> grown s0 (s\<lparr>gc_root_count := gc_root_count s0\<rparr>) \<and> heap_ok s \<and>
     gc_root_count s0 = of_nat c \<and> gc_root_count s = of_nat (c + m) \<and> c + m \<le> MAX_GC_ROOTS"

lemma inside_grown: "inside m c s0 s \<Longrightarrow> grown s0 (s\<lparr>gc_root_count := gc_root_count s0\<rparr>)"
  unfolding inside_def by blast

lemma fewer_roots:
  assumes "heap_ok s" and "count_to n \<le> count_to (gc_root_count s)"
  shows "heap_ok (s\<lparr>gc_root_count := n\<rparr>)" and "live (s\<lparr>gc_root_count := n\<rparr>) \<subseteq> live s"
proof -
  let ?s = "s\<lparr>gc_root_count := n\<rparr>"
  have r: "own_roots ?s \<subseteq> own_roots s" using assms(2) by (auto simp: own_roots_def)
  then show "heap_ok ?s"
    using assms by (auto simp: heap_ok_def counts_ok_def free_ok_def)
  show "live ?s \<subseteq> live s"
    unfolding live_def using r by (simp, intro reach_mono) (auto simp: all_roots_def)
qed

lemma grown_fewer:
  assumes "grown s s'" and "heap_ok s" and "count_to n \<le> count_to (gc_root_count s)"
  shows "grown (s\<lparr>gc_root_count := n\<rparr>) (s'\<lparr>gc_root_count := n\<rparr>)"
proof -
  have h: "heap_only s s'" and x: "extends s s'" using assms(1) by (simp_all add: grown_def)
  have f: "gc_root_count s' = gc_root_count s" using heap_only_fields [OF h] by simp
  from h obtain a d nx m f k r where s': "s' = s\<lparr>heap_car := a, heap_cdr := d, heap_next := nx, heap_mark := m,
     free_list := f, gc_collections := k, gc_roots := r\<rparr>" and r: "\<forall>i<count_to (gc_root_count s). r i = gc_roots s i"
    unfolding heap_only_def by blast
  have "r ` {..<count_to n} = gc_roots s ` {..<count_to n}" using r assms(3) by auto
  then have o: "own_roots (s'\<lparr>gc_root_count := n\<rparr>) = own_roots (s\<lparr>gc_root_count := n\<rparr>)"
    by (simp add: own_roots_def s')
  have "s'\<lparr>gc_root_count := n\<rparr> = s\<lparr>gc_root_count := n\<rparr>\<lparr>heap_car := a, heap_cdr := d, heap_next := nx, heap_mark := m,
     free_list := f, gc_collections := k, gc_roots := r\<rparr>" unfolding s' by (rule lisp.equality) simp_all
  moreover have "\<forall>i<count_to (gc_root_count (s\<lparr>gc_root_count := n\<rparr>)). r i = gc_roots (s\<lparr>gc_root_count := n\<rparr>) i"
    using r assms(3) by simp
  ultimately have "heap_only (s\<lparr>gc_root_count := n\<rparr>) (s'\<lparr>gc_root_count := n\<rparr>)"
    unfolding heap_only_def by blast
  moreover have "extends (s\<lparr>gc_root_count := n\<rparr>) (s'\<lparr>gc_root_count := n\<rparr>)"
    using x o fewer_roots [OF assms(2,3)] fewer_roots(1) [of s' n] assms(3) f by (auto simp: extends_def)
  ultimately show ?thesis by (simp add: grown_def)
qed

lemma inside_count:
  "inside m c s0 s \<Longrightarrow> count_to (gc_root_count s) = c + m \<and> count_to (gc_root_count s0) = c \<and>
    unat (gc_root_count s) = c + m"
  using count_root [of "c + m"] count_root [of c] unat_root [of "c + m"] by (auto simp: inside_def)

lemma inside_step:
  assumes "inside m c s0 s" and "grown s s'"
  shows "inside m c s0 s'"
proof -
  have n: "count_to (gc_root_count s0) \<le> count_to (gc_root_count s)" using inside_count [OF assms(1)] by simp
  have ok: "heap_ok s" using assms(1) by (simp add: inside_def)
  have "grown s0 (s'\<lparr>gc_root_count := gc_root_count s0\<rparr>)"
    by (rule grown_trans [OF inside_grown [OF assms(1)] grown_fewer [OF assms(2) ok n]])
  moreover have "gc_root_count s' = gc_root_count s" using assms(2) heap_only_fields [of s s'] by (simp add: grown_def)
  ultimately show ?thesis
    using assms(1) grown_ok [OF assms(2)] by (simp add: inside_def)
qed

lemma inside_live:
  assumes "inside m c s0 s"
  shows "live s0 \<subseteq> live s"
proof -
  have "live s0 \<subseteq> live (s\<lparr>gc_root_count := gc_root_count s0\<rparr>)"
    using inside_grown [OF assms] by (intro extends_live) (simp add: grown_def)
  also have "\<dots> \<subseteq> live s"
    using assms inside_count [OF assms] by (intro fewer_roots) (simp_all add: inside_def)
  finally show ?thesis .
qed

text \<open>Only the roots differ.\<close>

definition same_cells_roots :: "lisp \<Rightarrow> lisp \<Rightarrow> bool" where
  "same_cells_roots s s' \<longleftrightarrow> (\<exists>r n. s' = s\<lparr>gc_roots := r, gc_root_count := n\<rparr>)"

lemma roots_only_facts:
  assumes "same_cells_roots s s'"
  shows "heap_car s' = heap_car s" "heap_cdr s' = heap_cdr s" "sound s' v = sound s v" "intact s s' v = sound s v"
    "shape s' w x = shape s w x" "shape_env s' w bs = shape_env s w bs" "from_words V s0 s' w = from_words V s0 s w"
    "global_env s' = global_env s" "c_stack s' = c_stack s" "special_sym s' = special_sym s" "catch_throwing s' = catch_throwing s"
proof -
  show h: "heap_car s' = heap_car s" "heap_cdr s' = heap_cdr s" "sound s' v = sound s v"
    "global_env s' = global_env s" "c_stack s' = c_stack s" "special_sym s' = special_sym s" "catch_throwing s' = catch_throwing s" for v
    using assms by (auto simp: same_cells_roots_def)
  from h(1-3) show "intact s s' v = sound s v" "from_words V s0 s' w = from_words V s0 s w"
    by (simp_all add: intact_def same_cells_def from_words_def)
  show "shape s' w x = shape s w x" "shape_env s' w bs = shape_env s w bs"
    using h(1,2) by (rule shape_cells, rule shape_env_cells)
qed

lemma inside_start:
  "heap_ok s \<Longrightarrow> unat (gc_root_count s) \<le> MAX_GC_ROOTS \<Longrightarrow> inside 0 (unat (gc_root_count s)) s s"
  by (simp add: inside_def grown_refl)

lemma roots_slot:
  assumes "inside m c s0 s" and "sound s v" and "c \<le> k" and "k < c + n" and "c + n \<le> MAX_GC_ROOTS"
    and "n \<le> m \<or> (n = Suc m \<and> k = c + m)"
  shows "inside n c s0 (s\<lparr>gc_roots := (gc_roots s)(k := v), gc_root_count := of_nat (c + n)\<rparr>)"
proof -
  let ?s = "s\<lparr>gc_roots := (gc_roots s)(k := v), gc_root_count := of_nat (c + n)\<rparr>"
  note cs = inside_count [OF assms(1)] and cn = count_root [OF assms(5)]
  have ok: "heap_ok s" and s0: "gc_root_count s0 = of_nat c" using assms(1) by (simp_all add: inside_def)
  have "own_roots ?s \<subseteq> insert v (own_roots s)"
    using cs cn assms(6) by (auto simp: own_roots_def less_Suc_eq)
  then have ok': "heap_ok ?s"
    using ok cn assms(2,5) by (auto simp: heap_ok_def counts_ok_def free_ok_def)
  let ?u = "s\<lparr>gc_root_count := gc_root_count s0\<rparr>" and ?t = "?s\<lparr>gc_root_count := gc_root_count s0\<rparr>"
  have "gc_roots s ` {..<c} = ((gc_roots s)(k := v)) ` {..<c}" using assms(3) by auto
  then have o: "own_roots ?t = own_roots ?u" using cs by (simp add: own_roots_def)
  have "grown ?u ?t"
  proof -
    have "count_to (gc_root_count s0) \<le> count_to (gc_root_count ?s)" using cs cn assms(3,4) by simp
    with fewer_roots(1) [OF ok' this] have t: "heap_ok ?t" by simp
    have "?t = ?u\<lparr>heap_car := heap_car ?u, heap_cdr := heap_cdr ?u, heap_next := heap_next ?u, heap_mark := heap_mark ?u,
     free_list := free_list ?u, gc_collections := gc_collections ?u, gc_roots := (gc_roots s)(k := v)\<rparr>"
      by (rule lisp.equality) simp_all
    moreover have "\<forall>i<count_to (gc_root_count ?u). ((gc_roots s)(k := v)) i = gc_roots ?u i"
      using cs assms(3) by simp
    ultimately have "heap_only ?u ?t" unfolding heap_only_def by blast
    moreover have "extends ?u ?t"
      using t o live_used [of ?u] fewer_roots(1) [OF ok, of "gc_root_count s0"] cs by (auto simp: extends_def)
    ultimately show ?thesis by (simp add: grown_def)
  qed
  then show ?thesis
    using assms(1,5) ok' grown_trans by (auto simp: inside_def)
qed

lemma runs_protect:
  assumes "inside m c s0 s" and "sound s v"
  shows "runs (gc_protect v) s (\<lambda>_ s'. inside (Suc m) c s0 s' \<and> same_cells_roots s s' \<and> gc_roots s' = (gc_roots s)(c + m := v))"
proof (cases "sint (gc_root_count s) \<ge> int MAX_GC_ROOTS")
  case False
  note n = inside_count [OF assms(1)]
  have "c + m \<le> MAX_GC_ROOTS" using assms(1) by (simp add: inside_def)
  moreover have "sint (gc_root_count s) = int (c + m)"
    using assms(1) sint_of_nat_small [of "c + m"] by (simp add: inside_def MAX_GC_ROOTS_def del: of_nat_add)
  ultimately have lt: "c + m < MAX_GC_ROOTS" using False by simp
  let ?s = "s\<lparr>gc_roots := (gc_roots s)(c + m := v), gc_root_count := gc_root_count s + 1\<rparr>"
  have e: "gc_root_count s + 1 = of_nat (c + Suc m)" using assms(1) by (simp add: inside_def)
  have "inside (Suc m) c s0 ?s"
    unfolding e by (rule roots_slot [OF assms]) (use lt in simp_all)
  moreover have "gc_protect v s = Done v ?s"
    using False n lt by (simp add: gc_protect_def)
  moreover have "same_cells_roots s ?s" unfolding same_cells_roots_def by blast
  ultimately show ?thesis by (simp add: runs_def)
next
  case True
  then have "gc_protect v s = Halted (says (''PANIC:'' @ ''GC root stack full\<newline>'') s)"
    by (simp add: gc_protect_def)
  then show ?thesis using panic_says by (simp add: runs_def)
qed

lemma inside_set:
  assumes "inside m c s0 s" and "sound s v" and "0 < unat i" and "unat i \<le> m"
  shows "\<exists>s'. set_root i v s = Done () s' \<and> inside m c s0 s' \<and> same_cells_roots s s' \<and>
    gc_roots s' = (gc_roots s)(c + m - unat i := v)"
proof -
  let ?k = "c + m - unat i"
  have b: "c + m \<le> MAX_GC_ROOTS" and e: "gc_root_count s = of_nat (c + m)" using assms(1) by (simp_all add: inside_def)
  have "gc_root_count s - i = of_nat ?k"
    unfolding e using assms(4) by (simp add: of_nat_diff)
  moreover have "unat (of_nat ?k :: i24) = ?k" using b by (intro unat_root) simp
  ultimately have k: "unat (gc_root_count s - i) = ?k" by simp
  have "s\<lparr>gc_roots := (gc_roots s)(?k := v), gc_root_count := of_nat (c + m)\<rparr> = s\<lparr>gc_roots := (gc_roots s)(?k := v)\<rparr>"
    using e by (simp add: lisp.equality)
  with roots_slot [OF assms(1,2), of ?k m] have "inside m c s0 (s\<lparr>gc_roots := (gc_roots s)(?k := v)\<rparr>)"
    using assms(3,4) b by simp
  moreover have "s\<lparr>gc_roots := (gc_roots s)(?k := v)\<rparr> = s\<lparr>gc_roots := (gc_roots s)(?k := v), gc_root_count := gc_root_count s\<rparr>"
    by (rule lisp.equality) simp_all
  then have "same_cells_roots s (s\<lparr>gc_roots := (gc_roots s)(?k := v)\<rparr>)"
    unfolding same_cells_roots_def by blast
  ultimately show ?thesis
    using k b assms(3,4) by (simp add: set_root_def)
qed

lemma inside_leave:
  assumes "inside m c s0 s"
  shows "\<exists>s'. gc_unprotect (of_nat m) s = Done () s' \<and> grown s0 s' \<and> same_cells_roots s s'"
proof -
  have e: "gc_root_count s - of_nat m = gc_root_count s0" using assms by (simp add: inside_def)
  have "s\<lparr>gc_root_count := n\<rparr> = s\<lparr>gc_roots := gc_roots s, gc_root_count := n\<rparr>" for n
    by (rule lisp.equality) simp_all
  then have "same_cells_roots s (s\<lparr>gc_root_count := n\<rparr>)" for n unfolding same_cells_roots_def by blast
  with inside_grown [OF assms] show ?thesis unfolding gc_unprotect_def act_simps e by blast
qed

lemma inside_keeps:
  assumes "inside m c s0 s" and "heap_ok s0" and "v \<in> insert (global_env s0) (set (c_stack s0))" and "sound s0 v"
  shows "intact s0 s v"
  using grown_keeps [OF inside_grown [OF assms(1)] assms(2-4)] by (simp add: intact_def same_cells_def)

lemma inside_fields:
  "inside m c s0 s \<Longrightarrow> global_env s = global_env s0 \<and> c_stack s = c_stack s0 \<and> special_sym s = special_sym s0 \<and>
    catch_throwing s = catch_throwing s0 \<and> heap_ok s"
  using inside_grown [of m c s0 s] heap_only_fields [of s0 "s\<lparr>gc_root_count := gc_root_count s0\<rparr>"]
  by (auto simp: grown_def inside_def)

lemma from_inside:
  assumes "from_words W s1 s2 w" and "inside m c s0 s1" and "heap_ok s0" and "\<forall>v\<in>W. from_words V s0 s1 v"
  shows "from_words V s0 s2 w"
proof -
  have "from_words V s0 s1 (global_env s1)"
    using inside_keeps [OF assms(2,3) _ global_sound [OF assms(3)]] inside_fields [OF assms(2)]
      from_intact [of "global_env s0" s0 V s1] by simp
  then have "\<forall>v\<in>insert (global_env s1) W. from_words V s0 s1 v" using assms(4) by simp
  moreover have "reach (heap_car s1) (heap_cdr s1) (insert (global_env s1) W) = (\<Union>v\<in>insert (global_env s1) W. cells_of s1 v)"
    by (auto simp: reach_def)
  ultimately show ?thesis
    using assms(1) inside_live [OF assms(2)] by (fastforce simp: from_words_def)
qed

section \<open>Binding parameters\<close>

definition mk_list :: "sval list \<Rightarrow> sval" where
  "mk_list vs = foldr Cell vs (Atom NIL_VAL)"

fun binds :: "sval \<Rightarrow> sval list \<Rightarrow> senv option" where
  "binds (Atom x) vs = (if IS_SYMBOL x then Some [(x, mk_list vs)] else None)"
| "binds (Cell (Atom p) ps) (v # vs) = map_option (\<lambda>bs. bs @ [(p, v)]) (binds ps vs)"
| "binds _ _ = None"

lemma runs_env_extend:
  assumes ok: "heap_ok s" and snd: "sound s v" "sound s env" and x: "\<not> IS_PTR x"
    and sh: "shape s v vv" "shape_env s env ce"
  shows "runs (env_extend x v env) s (\<lambda>e s'. yields {v, env} s e s' \<and> shape_env s' e ((x, vv) # ce))"
  unfolding env_extend_def
proof (rule runs_bndI, rule runs_mono [OF runs_hold_cons], (use ok snd x in \<open>simp_all add: sound_def\<close>)[4], elim conjE)
  fix b s1 assume m1: "makes ([x, v] @ [x, v, env]) x v s b s1" and b: "IS_CONS b"
  note f1 = makes_facts [OF m1]
  have s1: "intact s s1 v" "intact s s1 env" "sound s1 env" using f1(8) [of v] f1(8) [of env] by (simp_all add: intact_def)
  show "runs (cons b env) s1 (\<lambda>e s'. yields {v, env} s e s' \<and> shape_env s' e ((x, vv) # ce))"
  proof (rule runs_mono [OF runs_cons [OF f1(10,2) s1(3)]], elim conjE)
    fix e s2 assume m2: "makes [b, env] b env s1 e s2" and e: "IS_CONS e"
    note f2 = makes_facts [OF m2]
    have k: "intact s s2 v" "intact s s2 env" "intact s1 s2 b"
      using f2(8) [of env] f2(8) [of b] s1 intact_trans intact_part(2) [OF f2(8) [of b] f1(3) f2(10)] f1(6) by auto
    note h = intact_part(3,4) [OF k(3) f1(3) f2(10)]
    have "from_words {v, env} s s1 v" using s1(1) by (rule from_intact [rotated]) simp
    with makes_from [OF m1 grown_refl [OF ok]] x have "from_words {v, env} s s1 b" by (simp add: from_atom)
    then have "from_words {v, env} s s2 b" using k(3) by (rule from_later)
    moreover have "from_words {v, env} s s2 env" using k(2) by (rule from_intact [rotated]) simp
    ultimately have "from_words {v, env} s s2 e" using makes_from [OF m2 f1(1)] by blast
    moreover have "shape_env s2 e ((x, vv) # ce)"
      using x e b f2(4-6) f1(4-6) h shape_intact [OF k(1) sh(1)] shape_env_intact [OF k(2) sh(2)] by simp
    ultimately show "yields {v, env} s e s2 \<and> shape_env s2 e ((x, vv) # ce)"
      using grown_trans [OF f1(1) f2(1)] f2(2) by (simp add: yields_def)
  qed
qed

lemma runs_hold_extend:
  assumes ok: "heap_ok s" and snd: "sound s v" "sound s env" and x: "\<not> IS_PTR x"
    and sh: "shape s v vv" "shape_env s env ce"
    and R: "\<And>e s'. yields {v, env} s e s' \<Longrightarrow> \<forall>w\<in>set ws. sound s w \<longrightarrow> intact s s' w \<Longrightarrow>
      shape_env s' e ((x, vv) # ce) \<Longrightarrow> R e s'"
  shows "runs (hold ws (env_extend x v env)) s R"
proof (rule runs_held [OF ok])
  let ?p = "s\<lparr>c_stack := ws @ c_stack s\<rparr>"
  show "runs (env_extend x v env) ?p (\<lambda>e s1. yields {v, env} ?p e s1 \<and> shape_env s1 e ((x, vv) # ce))"
    by (rule runs_env_extend) (use assms shape_cells [of ?p s] shape_env_cells [of ?p s] in simp_all)
  show "shape_env (s1\<lparr>c_stack := c_stack s\<rparr>) e ((x, vv) # ce)" if "shape_env s1 e ((x, vv) # ce)" for e s1
    using that shape_env_cells [of "s1\<lparr>c_stack := c_stack s\<rparr>" s1 e "(x, vv) # ce"] by (simp del: shape_env.simps)
qed (rule R)

fun len :: "sval \<Rightarrow> nat" where
  "len (Cell a d) = Suc (len d)"
| "len _ = 0"

lemma runs_bind_loop:
  assumes "binds pv vs = Some bs" and "heap_ok s0" and "inside 2 c s0 s" and "shape s params pv" and "shape s args (mk_list vs)"
    and "shape_env s env ce" and "sound s params" and "sound s args" and "sound s env"
    and "from_words V s0 s args" and "from_words V s0 s env" and "len pv < k"
  shows "runs (bind_loop k params args env) s (\<lambda>e s'. inside 2 c s0 s' \<and> sound s' e \<and>
    shape_env s' e (bs @ ce) \<and> from_words V s0 s' e)"
  using assms
proof (induction pv vs arbitrary: bs s params args env ce k rule: binds.induct)
  case (1 x vs)
  then obtain m where k: "k = Suc m" by (cases k) auto
  have p: "params = x" "IS_SYMBOL x" "\<not> IS_PTR x" "bs = [(x, mk_list vs)]" "\<not> IS_CONS params"
    using 1(1,4) by (auto simp: IS_PTR_def split: if_splits)
  have ok: "heap_ok s" using inside_fields [OF 1(3)] by simp
  have "runs (hold [params, args, env] (env_extend x args env)) s (\<lambda>e s'. inside 2 c s0 s' \<and> sound s' e \<and>
    shape_env s' e (bs @ ce) \<and> from_words V s0 s' e)"
  proof (rule runs_hold_extend [OF ok 1(8,9) p(3) 1(5,6)], intro conjI)
    fix e s' assume y: "yields {args, env} s e s'" and e: "shape_env s' e ((x, mk_list vs) # ce)"
    show "inside 2 c s0 s'" using y inside_step [OF 1(3)] by (simp add: yields_def)
    show "sound s' e" using y by (simp add: yields_def)
    show "shape_env s' e (bs @ ce)" using e p(4) by simp
    show "from_words V s0 s' e"
      using y 1(10,11) by (intro from_inside [OF _ 1(3,2), of "{args, env}"]) (auto simp: yields_def)
  qed
  then show ?case using k p(2,5) by (simp add: p(1))
next
  case (2 p ps v vs)
  then obtain m where k: "k = Suc m" by (cases k) auto
  from 2(2) obtain bs' where bs': "binds ps vs = Some bs'" "bs = bs' @ [(p, v)]" by auto
  have cp: "IS_CONS params" "cell_of params < HEAP_SIZE" "heap_car s (cell_of params) = p" "\<not> IS_PTR p"
      "shape s (heap_cdr s (cell_of params)) ps"
    and ca: "IS_CONS args" "cell_of args < HEAP_SIZE" "shape s (heap_car s (cell_of args)) v"
      "shape s (heap_cdr s (cell_of args)) (mk_list vs)"
    using 2(5,6) by (simp_all add: mk_list_def)
  from inside_set [OF 2(4,10), of 2] obtain s1 where s1: "set_root 2 env s = Done () s1" "inside 2 c s0 s1"
    "same_cells_roots s s1" by auto
  note r1 = roots_only_facts [OF s1(3)]
  have ok1: "heap_ok s1" using inside_fields [OF s1(2)] by simp
  let ?a = "heap_car s (cell_of args)"
  have a: "sound s1 ?a" "from_words V s0 s1 ?a"
    using sound_part(1) [of s args] inside_fields [OF 2(4)] 2(9) from_part [OF 2(11)] ca(1) r1(3,7) by (auto simp: cons_ptr)
  have "runs (hold [params, args, env] (env_extend p ?a env)) s1 (\<lambda>e s'. runs (bnd (cdr params) (\<lambda>params. bnd (cdr args) (\<lambda>args.
      bnd (set_root 1 args) (\<lambda>_. bind_loop m params args e)))) s' (\<lambda>e s'. inside 2 c s0 s' \<and> sound s' e \<and>
    shape_env s' e (bs @ ce) \<and> from_words V s0 s' e))"
  proof (rule runs_hold_extend [OF ok1 a(1) _ cp(4), where vv = v and ce = ce])
    show "sound s1 env" "shape s1 ?a v" "shape_env s1 env ce" using 2(7,10) ca(3) r1(3,5,6) by simp_all
    fix e s2 assume y: "yields {?a, env} s1 e s2" and kp: "\<forall>w\<in>set [params, args, env]. sound s1 w \<longrightarrow> intact s1 s2 w"
      and e: "shape_env s2 e ((p, v) # ce)"
    have in2: "inside 2 c s0 s2" using y inside_step [OF s1(2)] by (simp add: yields_def)
    have ok2: "heap_ok s2" using inside_fields [OF in2] by simp
    have kpa: "intact s1 s2 params" "intact s1 s2 args" using kp 2(8,9) r1(3) by simp_all
    note pp = intact_part [OF kpa(1) cons_ptr [OF cp(1)] ok2] and pa = intact_part [OF kpa(2) cons_ptr [OF ca(1)] ok2]
    let ?ps = "heap_cdr s (cell_of params)" and ?as = "heap_cdr s (cell_of args)"
    have as: "sound s2 ?as" "from_words V s0 s2 ?as" "shape s2 ?as (mk_list vs)"
      using pa(2) r1 from_part [OF 2(11)] ca shape_intact [of s1 s2 ?as] from_later [of V s0 s1 ?as s2]
      by (auto simp: intact_def cons_ptr)
    have ps: "sound s2 ?ps" "shape s2 ?ps ps"
      using pp(2) r1 cp shape_intact [of s1 s2 ?ps] by (auto simp: intact_def)
    from inside_set [OF in2 as(1), of 1] obtain s3 where s3: "set_root 1 ?as s2 = Done () s3" "inside 2 c s0 s3"
      "same_cells_roots s2 s3" by auto
    note r3 = roots_only_facts [OF s3(3)]
    have fe: "from_words V s0 s2 e"
      using y a(2) 2(12) r1(7) by (intro from_inside [OF _ s1(2) 2(3), of "{?a, env}"]) (auto simp: yields_def)
    have "runs (bind_loop m ?ps ?as e) s3 (\<lambda>e s'. inside 2 c s0 s' \<and> sound s' e \<and>
      shape_env s' e (bs' @ (p, v) # ce) \<and> from_words V s0 s' e)"
      by (rule 2(1)) (use bs' 2(3,13) k s3(2) ps as e fe r3 y in \<open>simp_all add: yields_def\<close>)
    then show "runs (bnd (cdr params) (\<lambda>params. bnd (cdr args) (\<lambda>args. bnd (set_root 1 args) (\<lambda>_. bind_loop m params args e)))) s2
      (\<lambda>e s'. inside 2 c s0 s' \<and> sound s' e \<and> shape_env s' e (bs @ ce) \<and> from_words V s0 s' e)"
      using cp(2) ca(2) pp(4) pa(4) r1(2) s3(1) bs'(2) by (simp add: runs_bnd) (simp add: runs_def)
  qed
  then show ?case
    using k cp ca s1(1) r1(1) by (simp add: runs_bnd) (simp add: runs_def)
qed simp_all

text \<open>A list in the heap is no longer than the heap.\<close>

lemma shape_len_zero: "shape s w v \<Longrightarrow> \<not> IS_CONS w \<Longrightarrow> len v = 0"
  by (cases v) simp_all

lemma shape_len_unique: "shape s w v \<Longrightarrow> shape s w v' \<Longrightarrow> len v = len v'"
proof (induction v arbitrary: w v')
  case (Cell a d)
  then have c: "IS_CONS w" by simp
  then have "\<exists>a' d'. v' = Cell a' d'"
    using Cell.prems(2) tag_exclusive(1) [OF c] by (cases v') (auto simp: IS_PTR_def)
  then obtain a' d' where v': "v' = Cell a' d'" by blast
  with Cell show ?case by auto
next
  case (Atom x)
  then show ?case using shape_len_zero shape_tags(1) by (metis len.simps(2))
next
  case (Obj t d)
  then show ?case using shape_len_zero shape_tags(3) by (metis len.simps(3))
next
  case (Clo p b ce)
  then show ?case using shape_len_zero shape_tags(4) by (metis len.simps(4))
qed

fun list_cells :: "lisp \<Rightarrow> i24 \<Rightarrow> sval \<Rightarrow> nat list" where
  "list_cells s w (Cell a d) = cell_of w # list_cells s (heap_cdr s (cell_of w)) d"
| "list_cells s w _ = []"

lemma list_cells_part: "shape s w v \<Longrightarrow> i \<in> set (list_cells s w v) \<Longrightarrow>
    \<exists>w' v'. shape s w' v' \<and> IS_CONS w' \<and> cell_of w' = i \<and> len v' \<le> len v"
proof (induction v arbitrary: w)
  case (Cell a d)
  show ?case
  proof (cases "i = cell_of w")
    case True
    with Cell.prems show ?thesis by (intro exI [of _ w] exI [of _ "Cell a d"]) auto
  next
    case False
    with Cell.prems have "shape s (heap_cdr s (cell_of w)) d" "i \<in> set (list_cells s (heap_cdr s (cell_of w)) d)" by auto
    from Cell.IH(2) [OF this] show ?thesis by (metis le_SucI len.simps(1))
  qed
qed simp_all

lemma list_cells_distinct: "shape s w v \<Longrightarrow>
    distinct (list_cells s w v) \<and> set (list_cells s w v) \<subseteq> {..<HEAP_SIZE} \<and> length (list_cells s w v) = len v"
proof (induction v arbitrary: w)
  case (Cell a d)
  then have c: "IS_CONS w" "cell_of w < HEAP_SIZE" and r: "shape s (heap_cdr s (cell_of w)) d" by auto
  have "cell_of w \<notin> set (list_cells s (heap_cdr s (cell_of w)) d)"
  proof
    assume "cell_of w \<in> set (list_cells s (heap_cdr s (cell_of w)) d)"
    from list_cells_part [OF r this] obtain w' v' where
      p: "shape s w' v'" "IS_CONS w'" "cell_of w' = cell_of w" "len v' \<le> len d" by blast
    with cons_inj [OF p(2) c(1) p(3)] have "shape s w v'" by simp
    from shape_len_unique [OF this Cell.prems] p(4) show False by simp
  qed
  with Cell.IH(2) [OF r] c show ?case by simp
qed simp_all

lemma shape_len: "shape s w v \<Longrightarrow> len v \<le> HEAP_SIZE"
  using list_cells_distinct [of s w v] card_mono [of "{..<HEAP_SIZE}" "set (list_cells s w v)"]
    distinct_card [of "list_cells s w v"] by simp

lemma runs_env_bind:
  assumes "binds pv vs = Some bs" and ok: "heap_ok s" and n: "unat (gc_root_count s) \<le> MAX_GC_ROOTS"
    and sh: "shape s params pv" "shape s args (mk_list vs)" "shape_env s env ce"
    and snd: "sound s params" "sound s args" "sound s env"
  shows "runs (env_bind params args env) s (\<lambda>e s'. yields {args, env} s e s' \<and> shape_env s' e (bs @ ce))"
  unfolding env_bind_def
proof (rule runs_bndI, rule runs_mono [OF runs_protect [OF inside_start [OF ok n] snd(3)]], elim conjE)
  let ?c = "unat (gc_root_count s)" and ?Q = "\<lambda>e s'. yields {args, env} s e s' \<and> shape_env s' e (bs @ ce)"
  fix s1 assume s1: "inside (Suc 0) ?c s s1" "same_cells_roots s s1"
  note r1 = roots_only_facts [OF s1(2)]
  have a1: "sound s1 args" using snd r1(3) by simp
  show "runs (bnd (gc_protect args) (\<lambda>_. bnd (bind_loop walk_fuel params args env) (\<lambda>env. bnd (gc_unprotect 2) (\<lambda>_. ret env)))) s1 ?Q"
  proof (rule runs_bndI, rule runs_mono [OF runs_protect [OF s1(1) a1]], elim conjE)
    fix s2 assume s2: "inside (Suc (Suc 0)) ?c s s2" "same_cells_roots s1 s2"
    note r2 = roots_only_facts [OF s2(2)]
    have fr: "from_words {args, env} s s2 v" if "v \<in> {args, env}" for v
      using from_intact [of v s "{args, env}" s] that snd intact_refl [of s v] r1(7) r2(7) by auto
    have "len pv < walk_fuel" using shape_len [OF sh(1)] by (simp add: walk_fuel_def HEAP_SIZE_def)
    with assms(1) ok s2 have l: "runs (bind_loop walk_fuel params args env) s2 (\<lambda>e s'. inside 2 ?c s s' \<and> sound s' e \<and>
      shape_env s' e (bs @ ce) \<and> from_words {args, env} s s' e)"
      by (intro runs_bind_loop [of pv vs]) (use sh snd fr r1 r2 in \<open>simp_all add: numeral_2_eq_2\<close>)
    show "runs (bnd (bind_loop walk_fuel params args env) (\<lambda>env. bnd (gc_unprotect 2) (\<lambda>_. ret env))) s2 ?Q"
    proof (rule runs_bndI, rule runs_mono [OF l], elim conjE)
      fix e s3 assume s3: "inside 2 ?c s s3" "sound s3 e" "shape_env s3 e (bs @ ce)" "from_words {args, env} s s3 e"
      from inside_leave [OF s3(1)] obtain s4 where s4: "gc_unprotect 2 s3 = Done () s4" "grown s s4" "same_cells_roots s3 s4"
        by auto
      note r4 = roots_only_facts [OF s4(3)]
      show "runs (bnd (gc_unprotect 2) (\<lambda>_. ret e)) s3 ?Q"
        using s4(1,2) s3 r4 by (simp add: runs_def bnd_def yields_def)
    qed
  qed
qed

section \<open>Lists under construction\<close>

lemma inside_intact:
  assumes "inside m c s0 s" and "sound s0 v" and "cells_of s0 v \<subseteq> live s0"
  shows "intact s0 s v"
  using live_intact [OF _ assms(2,3), of "s\<lparr>gc_root_count := gc_root_count s0\<rparr>"] inside_grown [OF assms(1)]
  by (simp add: grown_def intact_def same_cells_def)

text \<open>Changing the second field of a cell in use.\<close>

lemma poke_used:
  assumes "heap_ok s" and "sound s p" and "IS_PTR p" and "sound s v"
  shows "heap_ok (s\<lparr>heap_cdr := (heap_cdr s)(cell_of p := v)\<rparr>)"
    and "used (s\<lparr>heap_cdr := (heap_cdr s)(cell_of p := v)\<rparr>) = used s"
proof -
  let ?s = "s\<lparr>heap_cdr := (heap_cdr s)(cell_of p := v)\<rparr>"
  from assms(1) obtain fl where fl: "free_ok s fl" by (auto simp: heap_ok_def)
  have "cell_of p \<notin> set fl" using assms(2,3) used_free [OF fl] by (auto simp: sound_def)
  then have "chain ((heap_cdr s)(cell_of p := v)) (free_list s) fl"
    using fl by (subst chain_cong [of fl _ "heap_cdr s"]) (auto simp: free_ok_def)
  then have fl': "free_ok ?s fl" using fl by (simp add: free_ok_def)
  show u: "used ?s = used s" using used_free [OF fl] used_free [OF fl'] by simp
  show "heap_ok ?s"
    using assms fl' u by (auto simp: heap_ok_def own_roots_def counts_ok_def sound_def)
qed

lemma inside_poke:
  assumes "inside m c s0 s" and "sound s p" and "IS_PTR p" and "sound s v" and "cell_of p \<notin> live s0"
  shows "inside m c s0 (s\<lparr>heap_cdr := (heap_cdr s)(cell_of p := v)\<rparr>)"
    and "sound s x \<Longrightarrow> cell_of p \<notin> cells_of s x \<Longrightarrow> intact s (s\<lparr>heap_cdr := (heap_cdr s)(cell_of p := v)\<rparr>) x"
    and "sound s x \<Longrightarrow> sound (s\<lparr>heap_cdr := (heap_cdr s)(cell_of p := v)\<rparr>) x"
proof -
  let ?s = "s\<lparr>heap_cdr := (heap_cdr s)(cell_of p := v)\<rparr>"
  have ok: "heap_ok s" using assms(1) by (simp add: inside_def)
  note k = poke_used [OF ok assms(2-4)]
  show s: "sound s x \<Longrightarrow> sound ?s x" using k(2) by (simp add: sound_def)
  then show "sound s x \<Longrightarrow> cell_of p \<notin> cells_of s x \<Longrightarrow> intact s ?s x"
    by (auto simp: intact_def same_cells_def)
  let ?u = "s\<lparr>gc_root_count := gc_root_count s0\<rparr>" and ?t = "?s\<lparr>gc_root_count := gc_root_count s0\<rparr>"
  have g: "grown s0 ?u" by (rule inside_grown [OF assms(1)])
  have n: "count_to (gc_root_count s0) \<le> count_to (gc_root_count s)" using inside_count [OF assms(1)] by simp
  then have "heap_ok ?t" using fewer_roots(1) [OF k(1), of "gc_root_count s0"] by simp
  then have "extends s0 ?t" using g assms(5) k(2) by (auto simp: grown_def extends_def own_roots_def)
  moreover have "heap_only s0 ?t"
  proof -
    from g obtain a d nx mk f q r where u: "?u = s0\<lparr>heap_car := a, heap_cdr := d, heap_next := nx, heap_mark := mk,
      free_list := f, gc_collections := q, gc_roots := r\<rparr>" and r: "\<forall>i<count_to (gc_root_count s0). r i = gc_roots s0 i"
      unfolding grown_def heap_only_def by blast
    have "?t = ?u\<lparr>heap_cdr := (heap_cdr s)(cell_of p := v)\<rparr>" by (rule lisp.equality) simp_all
    also have "\<dots> = s0\<lparr>heap_car := a, heap_cdr := (heap_cdr s)(cell_of p := v), heap_next := nx, heap_mark := mk,
      free_list := f, gc_collections := q, gc_roots := r\<rparr>" unfolding u by (rule lisp.equality) simp_all
    finally show ?thesis using r unfolding heap_only_def by blast
  qed
  ultimately have "grown s0 ?t" by (simp add: grown_def)
  then show "inside m c s0 ?s" using assms(1) k(1) by (auto simp: inside_def)
qed

end
