(* ===== verification/Tml_Lang.thy ===== *)
theory Tml_Lang
  imports Tml_Build_Values
begin

text \<open>
  The language of the evaluator as a big-step semantics on values: no heap, no collector, no
  stack of roots.  It covers literals, variables, \<open>quote\<close>, \<open>if\<close>, \<open>begin\<close>, \<open>lambda\<close>, calls of
  closures, with rest parameters, and of the primitives on numbers and lists.  Programs are
  values.  What prints a message in the code has no rule.
\<close>

section \<open>Primitives\<close>

definition number_val :: "i24 \<Rightarrow> sval" where "number_val n = Atom (MAKE_FIXNUM n)"

definition boolean :: "bool \<Rightarrow> sval" where "boolean c = Atom (if c then T_VAL else NIL_VAL)"

fun nums :: "sval list \<Rightarrow> i24 list option" where
  "nums [] = Some []"
| "nums (Atom x # vs) = (if IS_FIXNUM x then map_option ((#) (FIXNUM_VAL x)) (nums vs) else None)"
| "nums _ = None"

fun difference :: "i24 list \<Rightarrow> i24" where
  "difference [] = 0"
| "difference [n] = - n"
| "difference (n # ns) = n - sum_list ns"

definition prim_one :: "i24 \<Rightarrow> sval \<Rightarrow> sval option" where
  "prim_one pid a =
     (if pid = PRIM_CAR then (case a of Cell x y \<Rightarrow> Some x | _ \<Rightarrow> None)
      else if pid = PRIM_CDR then (case a of Cell x y \<Rightarrow> Some y | _ \<Rightarrow> None)
      else if pid = PRIM_NULLP \<or> pid = PRIM_NOT then Some (boolean (a = Atom NIL_VAL))
      else if pid = PRIM_PAIRP then Some (boolean (case a of Cell x y \<Rightarrow> True | _ \<Rightarrow> False))
      else if pid = PRIM_ATOMP then Some (boolean (case a of Cell x y \<Rightarrow> False | _ \<Rightarrow> True))
      else if pid = PRIM_NUMP then Some (boolean (case a of Atom x \<Rightarrow> IS_FIXNUM x | _ \<Rightarrow> False))
      else None)"

definition prim_two :: "i24 \<Rightarrow> sval \<Rightarrow> sval \<Rightarrow> sval option" where
  "prim_two pid a b =
     (if pid = PRIM_CONS then Some (Cell a b)
      else case (a, b) of (Atom x, Atom y) \<Rightarrow>
        if pid = PRIM_EQP then Some (boolean (x = y))
        else if IS_FIXNUM x \<and> IS_FIXNUM y then
          if pid = PRIM_LT then Some (boolean (sint (FIXNUM_VAL x) < sint (FIXNUM_VAL y)))
          else if pid = PRIM_EQ_NUM then Some (boolean (x = y))
          else if FIXNUM_VAL y = 0 then None
          else if pid = PRIM_DIV then Some (number_val (of_int (sint (FIXNUM_VAL x) sdiv sint (FIXNUM_VAL y))))
          else if pid = PRIM_MOD then Some (number_val (of_int (sint (FIXNUM_VAL x) smod sint (FIXNUM_VAL y))))
          else None
        else None
      | _ \<Rightarrow> None)"

definition prim_result :: "i24 \<Rightarrow> sval list \<Rightarrow> sval option" where
  "prim_result pid vs =
     (if pid = PRIM_ADD then map_option (\<lambda>ns. number_val (sum_list ns)) (nums vs)
      else if pid = PRIM_SUB then map_option (\<lambda>ns. number_val (difference ns)) (nums vs)
      else if pid = PRIM_MUL then map_option (\<lambda>ns. number_val (prod_list ns)) (nums vs)
      else if pid = PRIM_LIST then Some (mk_list vs)
      else case vs of [a] \<Rightarrow> prim_one pid a | [a, b] \<Rightarrow> prim_two pid a b | _ \<Rightarrow> None)"

section \<open>Evaluation\<close>

text \<open>The words of the special forms, in the order in which the evaluator compares the head.\<close>

definition special_forms :: "special list" where
  "special_forms = [Quote, Quasiquote, If, Define, Set, Lambda, Defmacro, Catch, Begin]"

definition is_special :: "(special \<Rightarrow> i24) \<Rightarrow> sval \<Rightarrow> bool" where
  "is_special sp h \<longleftrightarrow> h \<in> (\<lambda>x. Atom (sp x)) ` set special_forms"

definition body_of :: "(special \<Rightarrow> i24) \<Rightarrow> sval \<Rightarrow> sval \<Rightarrow> sval" where
  "body_of sp b r = (if r = Atom NIL_VAL then b else Cell (Atom (sp Begin)) (Cell b r))"

inductive evaluates :: "(special \<Rightarrow> i24) \<Rightarrow> senv \<Rightarrow> senv \<Rightarrow> sval \<Rightarrow> sval \<Rightarrow> bool"
  and evaluates_all :: "(special \<Rightarrow> i24) \<Rightarrow> senv \<Rightarrow> senv \<Rightarrow> sval \<Rightarrow> sval list \<Rightarrow> bool"
  and evaluates_seq :: "(special \<Rightarrow> i24) \<Rightarrow> senv \<Rightarrow> senv \<Rightarrow> sval \<Rightarrow> sval \<Rightarrow> bool"
  for sp :: "special \<Rightarrow> i24" and G :: senv where
  literal: "IS_FIXNUM x \<or> x = NIL_VAL \<or> x = T_VAL \<Longrightarrow> evaluates sp G env (Atom x) (Atom x)"
| object: "evaluates sp G env (Obj t d) (Obj t d)"
| closure: "evaluates sp G env (Clo ps b ce) (Clo ps b ce)"
| variable: "IS_SYMBOL x \<Longrightarrow> x \<noteq> NIL_VAL \<Longrightarrow> x \<noteq> T_VAL \<Longrightarrow> map_of (env @ G) x = Some v \<Longrightarrow>
    evaluates sp G env (Atom x) v"
| quote: "evaluates sp G env (Cell (Atom (sp Quote)) (Cell d r)) d"
| if_true: "evaluates sp G env c u \<Longrightarrow> u \<noteq> Atom NIL_VAL \<Longrightarrow> evaluates sp G env t v \<Longrightarrow>
    evaluates sp G env (Cell (Atom (sp If)) (Cell c (Cell t r))) v"
| if_false: "evaluates sp G env c (Atom NIL_VAL) \<Longrightarrow> evaluates sp G env e v \<Longrightarrow>
    evaluates sp G env (Cell (Atom (sp If)) (Cell c (Cell t (Cell e r)))) v"
| if_none: "evaluates sp G env c (Atom NIL_VAL) \<Longrightarrow>
    evaluates sp G env (Cell (Atom (sp If)) (Cell c (Cell t (Atom NIL_VAL)))) (Atom NIL_VAL)"
| begin_none: "evaluates sp G env (Cell (Atom (sp Begin)) (Atom NIL_VAL)) (Atom NIL_VAL)"
| begin_some: "evaluates_seq sp G env (Cell e r) v \<Longrightarrow> evaluates sp G env (Cell (Atom (sp Begin)) (Cell e r)) v"
| lambda: "evaluates sp G env (Cell (Atom (sp Lambda)) (Cell ps (Cell b r))) (Clo ps (body_of sp b r) env)"
| call_closure: "\<not> is_special sp h \<Longrightarrow> evaluates sp G env h (Clo ps b ce) \<Longrightarrow> evaluates_all sp G env args vs \<Longrightarrow>
    binds ps vs = Some bs \<Longrightarrow> evaluates sp G (bs @ ce) b v \<Longrightarrow> evaluates sp G env (Cell h args) v"
| call_primitive: "\<not> is_special sp h \<Longrightarrow> evaluates sp G env h (Obj ETYPE_PRIMITIVE d) \<Longrightarrow>
    evaluates_all sp G env args vs \<Longrightarrow> prim_result (FIXNUM_VAL d) vs = Some v \<Longrightarrow> evaluates sp G env (Cell h args) v"
| all_none: "evaluates_all sp G env (Atom NIL_VAL) []"
| all_some: "evaluates sp G env e v \<Longrightarrow> evaluates_all sp G env r vs \<Longrightarrow> evaluates_all sp G env (Cell e r) (v # vs)"
| seq_last: "evaluates sp G env e v \<Longrightarrow> evaluates_seq sp G env (Cell e (Atom NIL_VAL)) v"
| seq_more: "evaluates sp G env e u \<Longrightarrow> evaluates_seq sp G env (Cell f r) v \<Longrightarrow>
    evaluates_seq sp G env (Cell e (Cell f r)) v"

text \<open>Arguments are a proper list of as many forms as there are values.\<close>

lemma mk_list_simps [simp]: "mk_list [] = Atom NIL_VAL" "mk_list (v # vs) = Cell v (mk_list vs)"
  by (simp_all add: mk_list_def)

section \<open>The contract of an evaluator\<close>

text \<open>The states in which the words of the special forms and the global environment are as given.\<close>

definition prepared :: "(special \<Rightarrow> i24) \<Rightarrow> senv \<Rightarrow> lisp \<Rightarrow> bool" where
  "prepared sp G s \<longleftrightarrow> heap_ok s \<and> special_sym s = sp \<and> \<not> catch_throwing s \<and> shape_env s (global_env s) G \<and>
     unat (gc_root_count s) \<le> MAX_GC_ROOTS \<and> inj sp \<and> (\<forall>f. IS_SYMBOL (sp f))"

definition computes :: "(special \<Rightarrow> i24) \<Rightarrow> senv \<Rightarrow> evaluator \<Rightarrow> senv \<Rightarrow> sval \<Rightarrow> sval \<Rightarrow> bool" where
  "computes sp G ev env e v \<longleftrightarrow> (\<forall>s x ew. prepared sp G s \<longrightarrow> sound s x \<longrightarrow> sound s ew \<longrightarrow> shape s x e \<longrightarrow>
     shape_env s ew env \<longrightarrow> runs (ev x ew) s (\<lambda>w s'. yields {x, ew} s w s' \<and> shape s' w v))"

lemma prepared_stack [simp]: "prepared sp G (s\<lparr>c_stack := k\<rparr>) = prepared sp G s"
  using shape_env_cells [of "s\<lparr>c_stack := k\<rparr>" s] by (simp add: prepared_def)

lemma prepared_grown: "prepared sp G s \<Longrightarrow> grown s s' \<Longrightarrow> prepared sp G s'"
  using shape_env_intact [OF grown_keeps, of s s' "global_env s"] heap_only_fields [of s s'] grown_ok [of s s'] global_sound [of s]
  by (auto simp: prepared_def grown_def)

lemma prepared_inside: "prepared sp G s0 \<Longrightarrow> inside m c s0 s \<Longrightarrow> prepared sp G s"
  using shape_env_intact [OF inside_keeps, of m c s0 s "global_env s0"] inside_fields [of m c s0 s]
    inside_count [of m c s0 s] global_sound [of s0]
  by (auto simp: prepared_def) (simp add: inside_def)

lemma runs_held_ev:
  assumes "computes sp G ev env e v" and g: "prepared sp G s" and "sound s x" and "sound s ew" and "shape s x e"
    and "shape_env s ew env"
    and "\<And>w s'. yields {x, ew} s w s' \<Longrightarrow> \<forall>y\<in>set vs. sound s y \<longrightarrow> intact s s' y \<Longrightarrow> shape s' w v \<Longrightarrow>
      prepared sp G s' \<Longrightarrow> from_words {x, ew} (s\<lparr>c_stack := vs @ c_stack s\<rparr>) s' w \<Longrightarrow> R w s'"
  shows "runs (hold vs (ev x ew)) s R"
proof (rule runs_held)
  let ?p = "s\<lparr>c_stack := vs @ c_stack s\<rparr>"
  show "heap_ok s" using g by (simp add: prepared_def)
  show "runs (ev x ew) ?p (\<lambda>w s1. yields {x, ew} ?p w s1 \<and> shape s1 w v)"
    using assms(1-6) shape_cells [of ?p s] shape_env_cells [of ?p s] unfolding computes_def by simp
  show "shape (s1\<lparr>c_stack := c_stack s\<rparr>) w v" if "shape s1 w v" for w s1
    using that shape_cells [of "s1\<lparr>c_stack := c_stack s\<rparr>" s1 w v] by simp
  show "R w s'" if "yields {x, ew} s w s'" "\<forall>y\<in>set vs. sound s y \<longrightarrow> intact s s' y" "shape s' w v"
    "from_words {x, ew} ?p s' w" for w s'
    using assms(7) [OF that(1-3) _ that(4)] prepared_grown [OF g] that(1) by (simp add: yields_def)
qed

end
