(* ===== verification/Tml_Args.thy ===== *)
theory Tml_Args
  imports Tml_Lang
begin

text \<open>
  The evaluation of argument lists: the list under construction hangs on the root stack and is
  extended at its end while arguments are evaluated and collections happen.
\<close>

section \<open>The list so far\<close>

fun built :: "lisp \<Rightarrow> i24 \<Rightarrow> i24 list \<Rightarrow> i24 list \<Rightarrow> bool" where
  "built s p [] [] \<longleftrightarrow> p = NIL_VAL"
| "built s p (q # qs) (w # ws) \<longleftrightarrow> p = q \<and> IS_CONS q \<and> cell_of q < HEAP_SIZE \<and> heap_car s (cell_of q) = w \<and>
     built s (heap_cdr s (cell_of q)) qs ws"
| "built s p _ _ \<longleftrightarrow> False"

lemma built_cong:
  "built s p qs ws \<Longrightarrow> (\<And>q. q \<in> set qs \<Longrightarrow> heap_car s' (cell_of q) = heap_car s (cell_of q) \<and>
     heap_cdr s' (cell_of q) = heap_cdr s (cell_of q)) \<Longrightarrow> built s' p qs ws"
  by (induction s p qs ws rule: built.induct) auto

lemma built_cells: "built s p qs ws \<Longrightarrow> cells_of s p \<subseteq> cell_of ` set qs \<union> (\<Union>w\<in>set ws. cells_of s w)"
proof (induction s p qs ws rule: built.induct)
  case (1 s p)
  then show ?case by (auto simp: reach_def IS_PTR_def)
next
  case (2 s p q qs w ws)
  then have "cells_of s (heap_cdr s (cell_of q)) \<subseteq> cell_of ` set qs \<union> (\<Union>w\<in>set ws. cells_of s w)" by simp
  with 2(2) cells_cons [OF cons_ptr, of q s] show ?case by auto
qed simp_all

text \<open>The values are reachable from the list.\<close>

lemma built_part:
  "built s p (q # qs) (w # ws) \<Longrightarrow> IS_PTR p \<and> cell_of q \<in> cells_of s p \<and> cells_of s w \<subseteq> cells_of s p \<and>
    cells_of s (heap_cdr s (cell_of q)) \<subseteq> cells_of s p"
  using cells_ptr [OF cons_ptr, of q s] by (auto intro: cons_ptr)

lemma built_values: "built s p qs ws \<Longrightarrow> w \<in> set ws \<Longrightarrow> cells_of s w \<subseteq> cells_of s p"
proof (induction s p qs ws rule: built.induct)
  case (2 s p q qs u ws)
  note b = built_part [OF 2(2)]
  show ?case
  proof (cases "w = u")
    case False
    with 2 have "cells_of s w \<subseteq> cells_of s (heap_cdr s (cell_of q))" by simp
    with b show ?thesis by blast
  qed (use b in blast)
qed simp_all

lemma built_in: "built s p qs ws \<Longrightarrow> cell_of ` set qs \<subseteq> cells_of s p"
proof (induction s p qs ws rule: built.induct)
  case (2 s p q qs w ws)
  note b = built_part [OF 2(2)]
  from 2 have "cell_of ` set qs \<subseteq> cells_of s (heap_cdr s (cell_of q))" by simp
  with b show ?case by auto
qed simp_all

lemma built_shape: "built s p qs ws \<Longrightarrow> list_all2 (shape s) ws vs \<Longrightarrow> shape s p (mk_list vs)"
proof (induction s p qs ws arbitrary: vs rule: built.induct)
  case (2 s p q qs w ws)
  then show ?case by (cases vs) auto
qed (auto simp: IS_PTR_def)

text \<open>A new last cell.\<close>

lemma built_append:
  assumes "built s p qs ws" and "qs \<noteq> []" and "distinct (map cell_of qs)"
    and "IS_CONS c" and "cell_of c < HEAP_SIZE" and "heap_car s (cell_of c) = w" and "heap_cdr s (cell_of c) = NIL_VAL"
    and "cell_of c \<notin> cell_of ` set qs"
  shows "built (s\<lparr>heap_cdr := (heap_cdr s)(cell_of (last qs) := c)\<rparr>) p (qs @ [c]) (ws @ [w])"
  using assms
proof (induction s p qs ws rule: built.induct)
  case (2 s p q qs u ws)
  show ?case
  proof (cases qs)
    case Nil
    with 2(2) obtain "ws = []" by (cases ws) auto
    with 2 Nil show ?thesis by auto
  next
    case (Cons r rs)
    let ?s = "s\<lparr>heap_cdr := (heap_cdr s)(cell_of (last qs) := c)\<rparr>"
    have "cell_of q \<noteq> cell_of (last qs)" using 2(4) Cons by auto
    moreover have "built ?s (heap_cdr s (cell_of q)) (qs @ [c]) (ws @ [w])"
      using 2(2-9) Cons by (intro 2(1)) simp_all
    ultimately have "built ?s p ((q # qs) @ [c]) ((u # ws) @ [w])" using 2(2) by simp
    moreover have "last (q # qs) = last qs" using Cons by simp
    ultimately show ?thesis by (simp only:)
  qed
qed simp_all

text \<open>
  The invariant of the loop.  The base state \<open>s0\<close> is the one in which the call began; the cells
  of the list are new since then, and no value shares them.
\<close>

definition collecting :: "nat \<Rightarrow> lisp \<Rightarrow> i24 set \<Rightarrow> lisp \<Rightarrow> i24 \<Rightarrow> i24 list \<Rightarrow> sval list \<Rightarrow> bool" where
  "collecting c s0 V s result qs vs \<longleftrightarrow> inside 1 c s0 s \<and> gc_roots s c = result \<and> qs \<noteq> [] \<and>
     distinct (map cell_of qs) \<and> sound s result \<and> cell_of ` set qs \<inter> live s0 = {} \<and>
     (\<exists>ws. built s result qs ws \<and> list_all2 (shape s) ws vs \<and>
       (\<forall>w\<in>set ws. sound s w \<and> from_words V s0 s w \<and> cells_of s w \<inter> cell_of ` set qs = {}))"

lemma collecting_parts:
  assumes "collecting c s0 V s result qs vs"
  obtains ws where "built s result qs ws" and "list_all2 (shape s) ws vs"
    and "\<forall>w\<in>set ws. sound s w \<and> from_words V s0 s w \<and> cells_of s w \<inter> cell_of ` set qs = {}"
    and "inside 1 c s0 s" and "gc_roots s c = result" and "qs \<noteq> []" and "distinct (map cell_of qs)"
    and "sound s result" and "cell_of ` set qs \<inter> live s0 = {}"
  using assms unfolding collecting_def by (elim exE conjE) (rule that; assumption)

lemma collecting_intro:
  "built s result qs ws \<Longrightarrow> list_all2 (shape s) ws vs \<Longrightarrow>
    \<forall>w\<in>set ws. sound s w \<and> from_words V s0 s w \<and> cells_of s w \<inter> cell_of ` set qs = {} \<Longrightarrow>
    inside 1 c s0 s \<Longrightarrow> gc_roots s c = result \<Longrightarrow> qs \<noteq> [] \<Longrightarrow> distinct (map cell_of qs) \<Longrightarrow>
    sound s result \<Longrightarrow> cell_of ` set qs \<inter> live s0 = {} \<Longrightarrow> collecting c s0 V s result qs vs"
  unfolding collecting_def by (intro conjI exI [of _ ws]) assumption+

lemma collecting_done:
  assumes "collecting c s0 V s result qs vs"
  shows "shape s result (mk_list vs)" and "from_words V s0 s result"
proof -
  from assms obtain ws where w: "built s result qs ws" "list_all2 (shape s) ws vs" "\<forall>w\<in>set ws. from_words V s0 s w"
    and f: "cell_of ` set qs \<inter> live s0 = {}" unfolding collecting_def by blast
  show "shape s result (mk_list vs)" using w(1,2) by (rule built_shape)
  show "from_words V s0 s result"
    using built_cells [OF w(1)] w(3) f unfolding from_words_def by blast
qed

lemma collecting_live:
  assumes "collecting c s0 V s result qs vs"
  shows "cells_of s result \<subseteq> live s" and "cell_of ` set qs \<subseteq> live s"
proof -
  have "inside 1 c s0 s" "sound s result" "gc_roots s c = result" using assms by (auto simp: collecting_def)
  moreover from this have "result \<in> all_roots s"
    using inside_count [of 1 c s0 s] by (auto simp: all_roots_def own_roots_def)
  ultimately show c: "cells_of s result \<subseteq> live s" by (intro reach_live)
  from assms obtain ws where "built s result qs ws" by (auto simp: collecting_def)
  from built_in [OF this] c show "cell_of ` set qs \<subseteq> live s" by blast
qed

lemma built_sound:
  "heap_ok s \<Longrightarrow> sound s p \<Longrightarrow> built s p qs ws \<Longrightarrow> q \<in> set qs \<Longrightarrow> sound s q \<and> IS_CONS q"
proof (induction s p qs ws rule: built.induct)
  case (2 s p r qs w ws)
  then have "sound s (heap_cdr s (cell_of r))" using sound_part(2) [of s r] cons_ptr [of r] by simp
  with 2 show ?case by auto
qed simp_all

lemma shapes_intact:
  "list_all2 (shape s) ws vs \<Longrightarrow> (\<And>w. w \<in> set ws \<Longrightarrow> intact s s' w) \<Longrightarrow> list_all2 (shape s') ws vs"
  by (induction rule: list_all2_induct) (auto intro: shape_intact)

text \<open>An evaluation or an allocation in between.\<close>

lemma collecting_step:
  assumes c: "collecting c s0 V s result qs vs" and g: "grown s s'"
  shows "collecting c s0 V s' result qs vs"
proof -
  have ins: "inside 1 c s0 s" "sound s result" "gc_roots s c = result" using c by (auto simp: collecting_def)
  have ok: "heap_ok s" using inside_fields [OF ins(1)] by simp
  have r: "gc_roots s' c = result"
    using g ins(3) inside_count [OF ins(1)] heap_only_roots [of s s' c] by (simp add: grown_def)
  from c obtain ws where w: "built s result qs ws" "list_all2 (shape s) ws vs"
    "\<forall>w\<in>set ws. sound s w \<and> from_words V s0 s w \<and> cells_of s w \<inter> cell_of ` set qs = {}"
    "inside 1 c s0 s" "gc_roots s c = result" "qs \<noteq> []" "distinct (map cell_of qs)" "sound s result"
      "cell_of ` set qs \<inter> live s0 = {}" by (rule collecting_parts)
  have sc: "same_cells s s' (live s)" and lu: "live s \<subseteq> used s'" using g unfolding grown_def extends_def same_cells_def by blast+
  have b: "built s' result qs ws"
    by (rule built_cong [OF w(1)]) (use sc collecting_live(2) [OF c] in \<open>auto simp: same_cells_def\<close>)
  have "cells_of s w \<subseteq> cells_of s result" if "w \<in> set ws" for w
    by (rule built_values [OF w(1) that])
  then have k: "intact s s' w" if "w \<in> set ws" for w
    using bspec [OF w(3) that] collecting_live(1) [OF c] that g by (intro live_intact) (auto simp: grown_def)
  have "list_all2 (shape s') ws vs"
    using w(2) k by (rule shapes_intact)
  moreover have "\<forall>w\<in>set ws. sound s' w \<and> from_words V s0 s' w \<and> cells_of s' w \<inter> cell_of ` set qs = {}"
  proof
    fix w assume h: "w \<in> set ws"
    show "sound s' w \<and> from_words V s0 s' w \<and> cells_of s' w \<inter> cell_of ` set qs = {}"
      using k [OF h] bspec [OF w(3) h] from_later [of V s0 s w s'] intact_cells [of s s' w] by (simp add: intact_def)
  qed
  moreover have "sound s' result"
    using live_intact [OF _ ins(2) collecting_live(1) [OF c], of s'] g by (simp add: grown_def intact_def)
  ultimately show ?thesis
    using collecting_intro [OF b] r inside_step [OF ins(1) g] w(6,7,9) by blast
qed

text \<open>The first cell.\<close>

lemma collecting_start:
  assumes m: "makes vs0 w NIL_VAL s p s1" and ok: "heap_ok s" and cons: "IS_CONS p" and sh: "shape s1 w v"
    and snd: "sound s1 w" and fr: "from_words V s0 s1 w" and ext: "live s0 \<subseteq> live s" and new: "cell_of p \<notin> cells_of s1 w"
    and ins: "inside (Suc 0) c s0 s2" and r: "same_cells_roots s1 s2" "gc_roots s2 c = p"
  shows "collecting c s0 V s2 p [p] [v]"
  unfolding collecting_def
  using makes_facts [OF m] roots_only_facts [OF r(1)] assms
  by (auto intro!: exI [of _ "[w]"])

text \<open>A further cell.\<close>

lemma collecting_append:
  assumes c: "collecting c s0 V s result qs vs" and m: "makes us w NIL_VAL s p s1" and p: "IS_CONS p"
    and w: "sound s1 w" "shape s1 w v" "from_words V s0 s1 w" "cells_of s1 w \<inter> cell_of ` set qs = {}"
    and us: "w \<in> set us"
  shows "\<exists>s2. poke_cdr (PTR_IDX (last qs)) p s1 = Done () s2 \<and> collecting c s0 V s2 result (qs @ [p]) (vs @ [v])"
proof -
  note f = makes_facts [OF m]
  have c1: "collecting c s0 V s1 result qs vs" by (rule collecting_step [OF c f(1)])
  then obtain ws where b: "built s1 result qs ws" "list_all2 (shape s1) ws vs"
    "\<forall>w\<in>set ws. sound s1 w \<and> from_words V s0 s1 w \<and> cells_of s1 w \<inter> cell_of ` set qs = {}"
    and ins: "inside 1 c s0 s1" "gc_roots s1 c = result" "qs \<noteq> []" "distinct (map cell_of qs)" "sound s1 result"
      "cell_of ` set qs \<inter> live s0 = {}" by (rule collecting_parts)
  let ?t = "last qs" and ?s2 = "s1\<lparr>heap_cdr := (heap_cdr s1)(cell_of (last qs) := p)\<rparr>"
  have t: "sound s1 ?t" "IS_PTR ?t" "?t \<in> set qs"
    using built_sound [OF f(10) ins(5) b(1), of ?t] ins(3) by (simp_all add: cons_ptr)
  have tl: "cell_of ?t \<notin> live s0" using t(3) ins(6) by blast
  note k = inside_poke [OF ins(1) t(1,2) f(2) tl]
  have live_s: "cells_of s result \<subseteq> live s" "cell_of ` set qs \<subseteq> live s" using collecting_live [OF c] .
  have pq: "cell_of p \<notin> cell_of ` set qs" using f(7) live_s(2) by blast
  have iw: "cell_of p \<notin> cells_of s1 w" using f(9) [OF us] intact_cells [OF f(8) [OF us]] by simp
  have kw: "intact s1 ?s2 x" if "x \<in> insert w (set ws)" for x
    using that w(1,4) b(3) t(3) by (intro k(2)) auto
  have pw: "cell_of p \<notin> cells_of s1 x" if "x \<in> set ws" for x
  proof -
    have "cells_of s1 x \<subseteq> cells_of s1 result" by (rule built_values [OF b(1) that])
    also have "\<dots> = cells_of s result"
      using f(1) live_s(1) by (intro same_cells_reach) (auto simp: grown_def extends_def same_cells_def)
    finally show ?thesis using live_s(1) f(7) by blast
  qed
  have "built ?s2 result (qs @ [p]) (ws @ [w])"
    by (rule built_append [OF b(1) ins(3,4) p f(4) f(5,6) pq])
  moreover have "list_all2 (shape ?s2) (ws @ [w]) (vs @ [v])"
    using shapes_intact [OF b(2), of ?s2] kw shape_intact [OF kw w(2)] by (auto simp: list_all2_appendI)
  moreover have "sound ?s2 x \<and> from_words V s0 ?s2 x \<and> cells_of ?s2 x \<inter> cell_of ` set (qs @ [p]) = {}"
    if "x \<in> set (ws @ [w])" for x
  proof -
    have x: "intact s1 ?s2 x" using that by (intro kw) auto
    have "cells_of s1 x \<inter> cell_of ` set (qs @ [p]) = {}" "from_words V s0 s1 x"
      using that b(3) w(3,4) iw pw by auto
    with x show ?thesis using from_later [of V s0 s1 x ?s2] intact_cells [OF x] by (simp add: intact_def)
  qed
  moreover have "cell_of p \<notin> live s0"
  proof -
    have "inside 1 c s0 s" using c by (simp add: collecting_def)
    with inside_live f(7) show ?thesis by blast
  qed
  ultimately have "collecting c s0 V ?s2 result (qs @ [p]) (vs @ [v])"
    unfolding collecting_def using ins k(1) k(3) [OF ins(5)] pq by (intro conjI exI [of _ "ws @ [w]"]) auto
  moreover have "cell_of ?t < HEAP_SIZE" using t(1,2) used_size [OF f(10)] by (auto simp: sound_def)
  ultimately show ?thesis
    by (intro exI [of _ ?s2]) (simp add: poke_cdr_def cell_of_def)
qed

section \<open>Evaluating the arguments\<close>

lemma runs_list_loop:
  assumes "list_all2 (computes sp G ev env) es us" and "prepared sp G s0" and "args0 \<in> set (c_stack s0)" and "ew \<in> set (c_stack s0)"
    and "sound s0 args0" and "sound s0 ew" and "shape_env s0 ew env"
    and "collecting c s0 {args0, ew} s result qs vs"
    and "sound s0 args" and "shape s0 args (mk_list es)" and "cells_of s0 args \<subseteq> cells_of s0 args0" and "length es < k"
  shows "runs (list_loop k ev ew result (last qs) args) s (\<lambda>w s'. yields {args0, ew} s0 w s' \<and> shape s' w (mk_list (vs @ us)))"
  using assms
proof (induction es us arbitrary: k s qs vs args rule: list_all2_induct)
  case Nil
  let ?V = "{args0, ew}"
  obtain m where k: "k = Suc m" using Nil(11) by (cases k) auto
  have "args = NIL_VAL" using Nil(9) by simp
  have ins: "inside 1 c s0 s" "sound s result" using Nil(7) by (auto simp: collecting_def)
  from inside_leave [OF ins(1)] obtain s' where s': "gc_unprotect 1 s = Done () s'" "grown s0 s'" "same_cells_roots s s'"
    by auto
  note r = roots_only_facts [OF s'(3)]
  show ?case
    using k \<open>args = NIL_VAL\<close> s'(1,2) r collecting_done [OF Nil(7)] ins(2) by (simp add: runs_def bnd_step yields_def)
next
  case (Cons e es u us)
  note prem = Cons(4-14)
  let ?V = "{args0, ew}" and ?Q = "\<lambda>w s'. yields {args0, ew} s0 w s' \<and> shape s' w (mk_list (vs @ u # us))"
  obtain m where k: "k = Suc m" "length es < m" using prem(11) by (cases k) auto
  have ok0: "heap_ok s0" using prem(1) by (simp add: prepared_def)
  have ca: "IS_CONS args" "cell_of args < HEAP_SIZE" using prem(9) by simp_all
  let ?x = "heap_car s0 (cell_of args)" and ?r = "heap_cdr s0 (cell_of args)" and ?t = "last qs"
  have lv: "cells_of s0 args0 \<subseteq> live s0" "cells_of s0 ew \<subseteq> live s0" "cells_of s0 (global_env s0) \<subseteq> live s0"
    using stack_live [OF ok0] prem(2-5) global_sound [OF ok0] by auto
  then have la: "cells_of s0 args \<subseteq> live s0" using prem(10) by blast
  have part: "sound s0 ?x" "sound s0 ?r" "cells_of s0 ?x \<subseteq> cells_of s0 args" "cells_of s0 ?r \<subseteq> cells_of s0 args"
    using sound_part [OF ok0 prem(8) cons_ptr [OF ca(1)]] cells_ptr [OF cons_ptr [OF ca(1)], of s0] by auto
  have frm: "from_words ?V s0 t v" if "intact s0 t v" "cells_of s0 v \<subseteq> cells_of s0 args \<or> v = ew" for v t
    using intact_cells [OF that(1)] that(2) prem(10) reach_in [of args0 "insert (global_env s0) ?V" s0]
      reach_in [of ew "insert (global_env s0) ?V" s0] unfolding from_words_def by auto
  have keep: "intact s0 t args" "intact s0 t ew" "intact s0 t ?x" "heap_car t (cell_of args) = ?x" "heap_cdr t (cell_of args) = ?r"
    if "inside 1 c s0 t" for t
  proof -
    show "intact s0 t args" "intact s0 t ew" by (rule inside_intact [OF that], use prem(5,8) la lv in blast, use la lv in blast)+
    note p = intact_part [OF this(1) cons_ptr [OF ca(1)]] inside_fields [OF that]
    show "intact s0 t ?x" "heap_car t (cell_of args) = ?x" "heap_cdr t (cell_of args) = ?r" using p by auto
  qed
  have ins: "inside 1 c s0 s" using prem(7) by (simp add: collecting_def)
  note kp = keep [OF ins]
  have x: "sound s ?x" "shape s ?x e" "sound s ew" "shape_env s ew env" "sound s args"
    using kp(1-3) prem(6,9) shape_intact shape_env_intact by (auto simp: intact_def)
  have "runs (hold [args, ew, result, ?t] (ev ?x ew)) s (\<lambda>val s1. runs (bnd (get catch_throwing) (\<lambda>throwing. if throwing
        then bnd (gc_unprotect 1) (\<lambda>_. ret NIL_VAL)
        else bnd (hold [args, ew, val, result, ?t] (cons val NIL_VAL)) (\<lambda>cell.
          bnd (poke_cdr (PTR_IDX ?t) cell) (\<lambda>_. bnd (cdr args) (\<lambda>args.
          list_loop m ev ew result cell args))))) s1 ?Q)"
  proof (rule runs_held_ev [OF Cons(1) prepared_inside [OF prem(1) ins] x(1,3,2,4)])
    fix w s1 assume y: "yields {?x, ew} s w s1" and sh: "shape s1 w u" and g: "prepared sp G s1"
    have gr: "grown s s1" and sw: "sound s1 w" using y by (simp_all add: yields_def)
    have c1: "collecting c s0 ?V s1 result qs vs" by (rule collecting_step [OF prem(7) gr])
    then have ins1: "inside 1 c s0 s1" and res: "sound s1 result" by (simp_all add: collecting_def)
    have ok1: "heap_ok s1" using g by (simp add: prepared_def)
    have fw: "from_words ?V s0 s1 w"
      by (rule from_inside [OF _ ins ok0, of "{?x, ew}"]) (use y frm kp part in \<open>auto simp: yields_def\<close>)
    have tl: "sound s1 ?t"
    proof -
      from c1 obtain ws where "built s1 result qs ws" "qs \<noteq> []" by (rule collecting_parts)
      with built_sound [OF ok1 res] last_in_set show ?thesis by blast
    qed
    have "cells_of s (global_env s0) = cells_of s0 (global_env s0)" "cells_of s ew = cells_of s0 ew" "cells_of s ?x = cells_of s0 ?x"
      using intact_cells kp(2,3) inside_keeps [OF ins ok0, of "global_env s0"] global_sound [OF ok0] by blast+
    moreover have "reach (heap_car s) (heap_cdr s) (insert (global_env s) {?x, ew}) =
        cells_of s (global_env s0) \<union> cells_of s ?x \<union> cells_of s ew"
      using inside_fields [OF ins] by (auto simp: reach_def)
    ultimately have "reach (heap_car s) (heap_cdr s) (insert (global_env s) {?x, ew}) \<subseteq> live s0"
      using lv la part(3) by blast
    moreover have "cell_of ` set qs \<inter> live s0 = {}" using prem(7) by (simp add: collecting_def)
    ultimately have dis: "cells_of s1 w \<inter> cell_of ` set qs = {}"
      using y collecting_live(2) [OF prem(7)] unfolding yields_def from_words_def by blast
    have "runs (hold [args, ew, w, result, ?t] (cons w NIL_VAL)) s1
      (\<lambda>p s2. makes ([w, NIL_VAL] @ [args, ew, w, result, ?t]) w NIL_VAL s1 p s2 \<and> IS_CONS p)"
      by (rule runs_hold_cons) (use ok1 sw res tl keep [OF ins1] in \<open>auto simp: sound_def intact_def IS_PTR_def\<close>)
    then have "runs (hold [args, ew, w, result, ?t] (cons w NIL_VAL)) s1 (\<lambda>p s2. runs (bnd (poke_cdr (PTR_IDX ?t) p) (\<lambda>_.
      bnd (cdr args) (\<lambda>args. list_loop m ev ew result p args))) s2 ?Q)"
    proof (rule runs_mono, elim conjE)
      fix p s2 assume mk: "makes ([w, NIL_VAL] @ [args, ew, w, result, ?t]) w NIL_VAL s1 p s2" and cp: "IS_CONS p"
      have iw: "intact s1 s2 w" using makes_facts(8) [OF mk, of w] by simp
      have "cells_of s2 w \<inter> cell_of ` set qs = {}" using dis intact_cells [OF iw] by simp
      then obtain s3 where s3: "poke_cdr (PTR_IDX ?t) p s2 = Done () s3" "collecting c s0 ?V s3 result (qs @ [p]) (vs @ [u])"
        using collecting_append [OF c1 mk cp _ shape_intact [OF iw sh] from_later [OF fw iw]] iw by (auto simp: intact_def)
      then have ins3: "inside 1 c s0 s3" by (simp add: collecting_def)
      have "runs (list_loop m ev ew result (last (qs @ [p])) ?r) s3
        (\<lambda>w s'. yields ?V s0 w s' \<and> shape s' w (mk_list ((vs @ [u]) @ us)))"
        by (rule Cons(3) [OF prem(1-6) s3(2) part(2)]) (use prem(9,10) part(4) k(2) in auto)
      then show "runs (bnd (poke_cdr (PTR_IDX ?t) p) (\<lambda>_. bnd (cdr args) (\<lambda>args. list_loop m ev ew result p args))) s2 ?Q"
        using s3(1) ca(2) keep(5) [OF ins3] by (simp add: runs_def bnd_step cdr_eq)
    qed
    then show "runs (bnd (get catch_throwing) (\<lambda>throwing. if throwing then bnd (gc_unprotect 1) (\<lambda>_. ret NIL_VAL)
        else bnd (hold [args, ew, w, result, ?t] (cons w NIL_VAL)) (\<lambda>cell.
          bnd (poke_cdr (PTR_IDX ?t) cell) (\<lambda>_. bnd (cdr args) (\<lambda>args. list_loop m ev ew result cell args))))) s1 ?Q"
      using g by (simp add: prepared_def runs_bnd)
  qed
  then show ?case using k(1) ca kp(4) by (simp add: runs_bnd)
qed

lemma runs_eval_list:
  assumes all: "list_all2 (computes sp G ev env) es us" and g: "prepared sp G s" and st: "args \<in> set (c_stack s)" "ew \<in> set (c_stack s)"
    and snd: "sound s args" "sound s ew" and sh: "shape s args (mk_list es)" "shape_env s ew env" and k: "length es \<le> k"
  shows "runs (eval_list k ev args ew) s (\<lambda>w s'. yields {args, ew} s w s' \<and> shape s' w (mk_list us))"
proof (cases es)
  case Nil
  then have "args = NIL_VAL" "us = []" using sh all by auto
  with g snd show ?thesis
    by (simp add: eval_list_def yields_def prepared_def grown_refl from_atom IS_PTR_def sound_def)
next
  case (Cons e es')
  with all obtain u us' where us: "us = u # us'" "computes sp G ev env e u" "list_all2 (computes sp G ev env) es' us'"
    by (auto simp: list_all2_Cons1)
  let ?V = "{args, ew}" and ?Q = "\<lambda>w s'. yields {args, ew} s w s' \<and> shape s' w (mk_list us)"
  have ok: "heap_ok s" and rc: "unat (gc_root_count s) \<le> MAX_GC_ROOTS" using g by (simp_all add: prepared_def)
  have ca: "IS_CONS args" "cell_of args < HEAP_SIZE" using sh Cons by simp_all
  let ?x = "heap_car s (cell_of args)" and ?r = "heap_cdr s (cell_of args)"
  have nil: "\<not> IS_NIL args" using ca tag_exclusive(1) [of args] by (auto simp: IS_NIL_def)
  have part: "sound s ?x" "sound s ?r" "cells_of s ?x \<subseteq> cells_of s args" "cells_of s ?r \<subseteq> cells_of s args"
    using sound_part [OF ok snd(1) cons_ptr [OF ca(1)]] cells_ptr [OF cons_ptr [OF ca(1)], of s] by auto
  have x: "shape s ?x e" using sh Cons by simp
  have frx: "from_words ?V s s v" if "v \<in> {?x, ew}" for v
    using that part(3) reach_in [of args "insert (global_env s) ?V" s] reach_in [of ew "insert (global_env s) ?V" s]
    unfolding from_words_def by auto
  have "runs (hold [args, ew] (ev ?x ew)) s (\<lambda>val s1. runs (bnd (get catch_throwing) (\<lambda>throwing. if throwing then ret NIL_VAL
       else bnd (hold [args, ew, val] (cons val NIL_VAL)) (\<lambda>result.
         bnd (gc_protect result) (\<lambda>_. bnd (cdr args) (\<lambda>args. list_loop k ev ew result result args))))) s1 ?Q)"
  proof (rule runs_held_ev [OF us(2) g part(1) snd(2) x sh(2)])
    fix w s1 assume y: "yields {?x, ew} s w s1" and shw: "shape s1 w u" and g1: "prepared sp G s1"
    have gr: "grown s s1" and sw: "sound s1 w" using y by (simp_all add: yields_def)
    have ok1: "heap_ok s1" using g1 by (simp add: prepared_def)
    have fw: "from_words ?V s s1 w"
      by (rule from_trans [OF _ grown_refl [OF ok] ok, of "{?x, ew}"]) (use y frx in \<open>auto simp: yields_def\<close>)
    have "intact s s1 args" "intact s s1 ew" using grown_keeps [OF gr ok] st snd by auto
    then have "runs (hold [args, ew, w] (cons w NIL_VAL)) s1
      (\<lambda>p s2. makes ([w, NIL_VAL] @ [args, ew, w]) w NIL_VAL s1 p s2 \<and> IS_CONS p)"
      by (intro runs_hold_cons) (use ok1 sw in \<open>auto simp: sound_def intact_def IS_PTR_def\<close>)
    then have "runs (hold [args, ew, w] (cons w NIL_VAL)) s1 (\<lambda>p s2. runs (bnd (gc_protect p) (\<lambda>_. bnd (cdr args) (\<lambda>args.
       list_loop k ev ew p p args))) s2 ?Q)"
    proof (rule runs_mono, elim conjE)
      fix p s2 assume mk: "makes ([w, NIL_VAL] @ [args, ew, w]) w NIL_VAL s1 p s2" and cp: "IS_CONS p"
      note f = makes_facts [OF mk]
      have iw: "intact s1 s2 w" "cell_of p \<notin> cells_of s2 w" using f(8,9) [of w] intact_cells [OF f(8) [of w]] by simp_all
      have g2: "grown s s2" by (rule grown_trans [OF gr f(1)])
      have in2: "inside 0 (unat (gc_root_count s)) s s2" by (rule inside_step [OF inside_start [OF ok rc] g2])
      show "runs (bnd (gc_protect p) (\<lambda>_. bnd (cdr args) (\<lambda>args. list_loop k ev ew p p args))) s2 ?Q"
      proof (rule runs_bndI, rule runs_mono [OF runs_protect [OF in2 f(2)]], elim conjE)
        fix s3 assume s3: "inside (Suc 0) (unat (gc_root_count s)) s s3" "same_cells_roots s2 s3"
          "gc_roots s3 = (gc_roots s2)(unat (gc_root_count s) + 0 := p)"
        have col: "collecting (unat (gc_root_count s)) s ?V s3 p [p] [u]"
          by (rule collecting_start [OF mk ok1 cp shape_intact [OF iw(1) shw] _ from_later [OF fw iw(1)] _ iw(2) s3(1,2)])
            (use iw(1) extends_live [of s s1] gr s3(3) in \<open>simp_all add: intact_def grown_def\<close>)
        have "runs (list_loop k ev ew p (last [p]) ?r) s3 (\<lambda>w s'. yields ?V s w s' \<and> shape s' w (mk_list ([u] @ us')))"
          by (rule runs_list_loop [OF us(3) g st snd sh(2) col part(2)]) (use sh Cons part(4) k in auto)
        moreover have "heap_cdr s3 (cell_of args) = ?r"
          using intact_part(4) [OF inside_keeps [OF s3(1) ok _ snd(1)] cons_ptr [OF ca(1)]] st inside_fields [OF s3(1)] by simp
        ultimately show "runs (bnd (cdr args) (\<lambda>args. list_loop k ev ew p p args)) s3 ?Q"
          using ca(2) us(1) by (simp add: runs_bnd)
      qed
    qed
    then show "runs (bnd (get catch_throwing) (\<lambda>throwing. if throwing then ret NIL_VAL
       else bnd (hold [args, ew, w] (cons w NIL_VAL)) (\<lambda>result.
         bnd (gc_protect result) (\<lambda>_. bnd (cdr args) (\<lambda>args. list_loop k ev ew result result args))))) s1 ?Q"
      using g1 by (simp add: prepared_def runs_bnd)
  qed
  then show ?thesis using ca nil by (simp add: eval_list_def runs_bnd)
qed

end
