(* ===== verification/Tml_Prim_Correct.thy ===== *)
theory Tml_Prim_Correct
  imports Tml_Args
begin

text \<open>
  The primitives on numbers and lists against their semantics: applied to words that denote the
  arguments, \<open>apply_primitive\<close> returns a word that denotes \<open>prim_result\<close> of their values.
\<close>

section \<open>Primitives\<close>

lemma shape_is:
  "shape s w v \<Longrightarrow> IS_CONS w \<longleftrightarrow> (\<exists>a d. v = Cell a d)"
  "shape s w v \<Longrightarrow> IS_FIXNUM w \<longleftrightarrow> (\<exists>x. v = Atom x \<and> IS_FIXNUM x)"
  using tag_exclusive(1) [of w] tag_exclusive(3) [of w] by (cases v; auto simp: IS_PTR_def)+

lemma shape_boolean [simp]: "shape s w (boolean c) \<longleftrightarrow> w = (if c then T_VAL else NIL_VAL)"
  by (auto simp: boolean_def IS_PTR_def)

lemma shape_number [simp]: "shape s w (number_val n) \<longleftrightarrow> w = MAKE_FIXNUM n"
  by (auto simp: number_val_def IS_PTR_def)

lemma len_mk_list [simp]: "len (mk_list vs) = length vs"
  by (induction vs) simp_all

lemma nums_Cons:
  "nums (v # vs) = Some ns \<longleftrightarrow> (\<exists>x ms. v = Atom x \<and> IS_FIXNUM x \<and> nums vs = Some ms \<and> ns = FIXNUM_VAL x # ms)"
  by (cases v) auto

lemma nums_length: "nums vs = Some ns \<Longrightarrow> length ns = length vs"
  by (induction vs arbitrary: ns) (auto simp: nums_Cons)

lemma mk_list_cell:
  "shape s w (mk_list (v # vs)) \<Longrightarrow> \<not> IS_NIL w \<and> IS_CONS w \<and> cell_of w < HEAP_SIZE \<and>
    shape s (heap_car s (cell_of w)) v \<and> shape s (heap_cdr s (cell_of w)) (mk_list vs)"
  using tag_exclusive(1) [of w] by (auto simp: IS_NIL_def)

lemma arith_sum:
  "shape s w (mk_list vs) \<Longrightarrow> nums vs = Some ns \<Longrightarrow> length vs < k \<Longrightarrow>
    arith_loop k PRIM_ADD w r n s = Done (Some (r + sum_list ns, n + of_nat (length ns))) s"
proof (induction vs arbitrary: w ns k r n)
  case Nil
  then show ?case by (cases k) auto
next
  case (Cons v vs)
  then obtain m x ms where "k = Suc m" "v = Atom x" "IS_FIXNUM x" "nums vs = Some ms" "ns = FIXNUM_VAL x # ms" "length vs < m"
    by (cases k) (auto simp: nums_Cons)
  with Cons.IH [of "heap_cdr s (cell_of w)" ms m] mk_list_cell [OF Cons.prems(1)] show ?case
    by (simp add: bnd_step car_eq cdr_eq add.assoc add.left_commute)
qed

lemma arith_product:
  "shape s w (mk_list vs) \<Longrightarrow> nums vs = Some ns \<Longrightarrow> length vs < k \<Longrightarrow>
    arith_loop k PRIM_MUL w r n s = Done (Some (r * prod_list ns, n + of_nat (length ns))) s"
proof (induction vs arbitrary: w ns k r n)
  case Nil
  then show ?case by (cases k) auto
next
  case (Cons v vs)
  then obtain m x ms where "k = Suc m" "v = Atom x" "IS_FIXNUM x" "nums vs = Some ms" "ns = FIXNUM_VAL x # ms" "length vs < m"
    by (cases k) (auto simp: nums_Cons)
  with Cons.IH [of "heap_cdr s (cell_of w)" ms m] mk_list_cell [OF Cons.prems(1)] show ?case
    by (simp add: bnd_step car_eq cdr_eq mult.assoc add.assoc add.left_commute)
qed

lemma arith_minus:
  "shape s w (mk_list vs) \<Longrightarrow> nums vs = Some ns \<Longrightarrow> length vs < k \<Longrightarrow> 0 < n \<Longrightarrow> n + length vs < 16777216 \<Longrightarrow>
    arith_loop k PRIM_SUB w r (of_nat n) s = Done (Some (r - sum_list ns, of_nat (n + length ns))) s"
proof (induction vs arbitrary: w ns k r n)
  case Nil
  then show ?case by (cases k) auto
next
  case (Cons v vs)
  then obtain m x ms where k: "k = Suc m" "v = Atom x" "IS_FIXNUM x" "nums vs = Some ms" "ns = FIXNUM_VAL x # ms" "length vs < m"
    by (cases k) (auto simp: nums_Cons)
  have "unat (of_nat n :: i24) = n" using Cons.prems(5) by simp
  then have "(of_nat n :: i24) \<noteq> 0" using Cons.prems(4) by (metis neq0_conv unat_0)
  moreover have "arith_loop m PRIM_SUB (heap_cdr s (cell_of w)) (r - FIXNUM_VAL x) (of_nat (Suc n)) s =
    Done (Some (r - FIXNUM_VAL x - sum_list ms, of_nat (Suc n + length ms))) s"
    using Cons.prems k mk_list_cell [OF Cons.prems(1)] by (intro Cons.IH) simp_all
  ultimately show ?case
    using k mk_list_cell [OF Cons.prems(1)]
    by (simp add: bnd_step car_eq cdr_eq add.commute diff_diff_eq)
qed

lemma list_fuel: "shape s w (mk_list vs) \<Longrightarrow> length vs \<le> HEAP_SIZE \<and> length vs < walk_fuel"
  using shape_len [of s w "mk_list vs"] by (simp add: walk_fuel_def HEAP_SIZE_def)

lemma count_is_one: "n < 16777216 \<Longrightarrow> (of_nat n :: i24) = 1 \<longleftrightarrow> n = 1"
proof -
  assume "n < 16777216"
  then have "unat (of_nat n :: i24) = n" by simp
  then show ?thesis by (metis of_nat_1 unat_1)
qed

lemma prim_arith_value:
  assumes sh: "shape s w (mk_list vs)" and ns: "nums vs = Some ns"
  shows "prim_arith PRIM_ADD w s = Done (MAKE_FIXNUM (sum_list ns)) s"
    and "prim_arith PRIM_MUL w s = Done (MAKE_FIXNUM (prod_list ns)) s"
    and "prim_arith PRIM_SUB w s = Done (MAKE_FIXNUM (difference ns)) s"
proof -
  note fuel = list_fuel [OF sh]
  show "prim_arith PRIM_ADD w s = Done (MAKE_FIXNUM (sum_list ns)) s"
    "prim_arith PRIM_MUL w s = Done (MAKE_FIXNUM (prod_list ns)) s"
    using arith_sum [OF sh ns] arith_product [OF sh ns] fuel by (simp_all add: prim_arith_def bnd_step)
  obtain m where m: "walk_fuel = Suc m" "HEAP_SIZE < m" by (simp add: walk_fuel_def HEAP_SIZE_def)
  show "prim_arith PRIM_SUB w s = Done (MAKE_FIXNUM (difference ns)) s"
  proof (cases vs)
    case Nil
    with sh have "arith_loop walk_fuel PRIM_SUB w 0 0 s = Done (Some (0, 0)) s" unfolding m(1) by simp
    with Nil ns show ?thesis by (simp add: prim_arith_def bnd_step)
  next
    case (Cons v us)
    then obtain x ms where x: "v = Atom x" "IS_FIXNUM x" "nums us = Some ms" "ns = FIXNUM_VAL x # ms"
      using ns by (auto simp: nums_Cons)
    note c = mk_list_cell [OF sh [unfolded Cons]]
    have us: "length us < m" "1 + length us < 16777216"
      using fuel Cons m(2) by (simp_all add: HEAP_SIZE_def)
    have l: "length ms = length us" using nums_length [OF x(3)] .
    have "arith_loop m PRIM_SUB (heap_cdr s (cell_of w)) (FIXNUM_VAL x) (of_nat 1) s =
      Done (Some (FIXNUM_VAL x - sum_list ms, of_nat (1 + length ms))) s"
      using x c us by (intro arith_minus) simp_all
    then have "arith_loop walk_fuel PRIM_SUB w 0 0 s = Done (Some (FIXNUM_VAL x - sum_list ms, of_nat (1 + length ms))) s"
      unfolding m(1) using x c by (simp add: bnd_step car_eq cdr_eq)
    moreover have "(of_nat (1 + length ms) :: i24) = 1 \<longleftrightarrow> ms = []"
      using count_is_one [of "1 + length ms"] us(2) unfolding l [symmetric] by simp
    ultimately show ?thesis
      using x(4) by (cases ms) (simp_all add: prim_arith_def bnd_step)
  qed
qed

text \<open>The words of the first and of the second argument.\<close>

definition operand :: "lisp \<Rightarrow> i24 \<Rightarrow> i24" where
  "operand s args = (if IS_NIL args then NIL_VAL else heap_car s (cell_of args))"

definition rest_of :: "lisp \<Rightarrow> i24 \<Rightarrow> i24" where
  "rest_of s args = (if IS_NIL args then NIL_VAL else heap_cdr s (cell_of args))"

lemma operand_steps:
  assumes "shape s args (mk_list vs)"
  shows "bnd (if IS_NIL args then ret NIL_VAL else car args) f s = f (operand s args) s"
    and "bnd (if IS_NIL args then ret NIL_VAL else bnd (cdr args) (\<lambda>r. if IS_NIL r then ret NIL_VAL else car r)) f s =
      f (operand s (rest_of s args)) s"
proof -
  show "bnd (if IS_NIL args then ret NIL_VAL else car args) f s = f (operand s args) s"
  proof (cases vs)
    case Nil
    with assms show ?thesis by (simp add: operand_def)
  next
    case (Cons a us)
    with mk_list_cell [OF assms [unfolded Cons]] show ?thesis by (simp add: operand_def bnd_step car_eq)
  qed
  show "bnd (if IS_NIL args then ret NIL_VAL else bnd (cdr args) (\<lambda>r. if IS_NIL r then ret NIL_VAL else car r)) f s =
      f (operand s (rest_of s args)) s"
  proof (cases vs)
    case Nil
    with assms show ?thesis by (simp add: operand_def rest_of_def)
  next
    case (Cons a us)
    from mk_list_cell [OF assms [unfolded Cons]] have c: "\<not> IS_NIL args" "cell_of args < HEAP_SIZE"
      "shape s (heap_cdr s (cell_of args)) (mk_list us)" by simp_all
    show ?thesis
    proof (cases us)
      case Nil
      with c show ?thesis by (simp add: operand_def rest_of_def bnd_step cdr_eq)
    next
      case (Cons b vs)
      from mk_list_cell [OF c(3) [unfolded Cons]] have "\<not> IS_NIL (heap_cdr s (cell_of args))"
        "cell_of (heap_cdr s (cell_of args)) < HEAP_SIZE" by simp_all
      with c(1,2) show ?thesis
        by (simp add: operand_def rest_of_def bnd_step cdr_eq car_eq)
    qed
  qed
qed

lemma apply_prims:
  assumes "shape s args (mk_list vs)"
  shows "apply_primitive k ev ap PRIM_ADD args s = prim_arith PRIM_ADD args s"
    "apply_primitive k ev ap PRIM_SUB args s = prim_arith PRIM_SUB args s"
    "apply_primitive k ev ap PRIM_MUL args s = prim_arith PRIM_MUL args s"
    "apply_primitive k ev ap PRIM_DIV args s = prim_binary PRIM_DIV (operand s args) (operand s (rest_of s args)) s"
    "apply_primitive k ev ap PRIM_MOD args s = prim_binary PRIM_MOD (operand s args) (operand s (rest_of s args)) s"
    "apply_primitive k ev ap PRIM_LT args s = prim_binary PRIM_LT (operand s args) (operand s (rest_of s args)) s"
    "apply_primitive k ev ap PRIM_EQ_NUM args s = prim_binary PRIM_EQ_NUM (operand s args) (operand s (rest_of s args)) s"
    "apply_primitive k ev ap PRIM_CONS args s = hold [args, operand s args, operand s (rest_of s args)]
       (cons (operand s args) (operand s (rest_of s args))) s"
    "IS_CONS (operand s args) \<Longrightarrow> apply_primitive k ev ap PRIM_CAR args s = car (operand s args) s"
    "IS_CONS (operand s args) \<Longrightarrow> apply_primitive k ev ap PRIM_CDR args s = cdr (operand s args) s"
    "apply_primitive k ev ap PRIM_LIST args s = Done args s"
    "apply_primitive k ev ap PRIM_NULLP args s = truth (IS_NIL (operand s args)) s"
    "apply_primitive k ev ap PRIM_NOT args s = truth (IS_NIL (operand s args)) s"
    "apply_primitive k ev ap PRIM_PAIRP args s = truth (IS_CONS (operand s args)) s"
    "apply_primitive k ev ap PRIM_ATOMP args s = truth (\<not> IS_CONS (operand s args)) s"
    "apply_primitive k ev ap PRIM_NUMP args s = truth (IS_FIXNUM (operand s args)) s"
    "apply_primitive k ev ap PRIM_EQP args s = truth (operand s args = operand s (rest_of s args)) s"
  unfolding apply_primitive_def operand_steps [OF assms] by simp_all

definition arg_word :: "lisp \<Rightarrow> i24 \<Rightarrow> i24 \<Rightarrow> sval \<Rightarrow> bool" where
  "arg_word s args w v \<longleftrightarrow> shape s w v \<and> sound s w \<and> from_words {args} s s w"

lemma cell_word:
  assumes "arg_word s args w (mk_list (a # us))" and "heap_ok s"
  shows "arg_word s args (operand s w) a" and "arg_word s args (rest_of s w) (mk_list us)"
proof -
  have w: "shape s w (mk_list (a # us))" "sound s w" "from_words {args} s s w" using assms(1) unfolding arg_word_def by blast+
  note c = mk_list_cell [OF w(1)]
  have p: "IS_PTR w" and o: "operand s w = heap_car s (cell_of w)" "rest_of s w = heap_cdr s (cell_of w)"
    using c by (blast intro: cons_ptr, simp_all add: operand_def rest_of_def)
  note f = from_part [OF w(3) p] and n = sound_part [OF assms(2) w(2) p]
  from c f n show "arg_word s args (operand s w) a" "arg_word s args (rest_of s w) (mk_list us)"
    unfolding arg_word_def o by blast+
qed

lemma operands:
  assumes sh: "shape s args (mk_list (a # us))" and snd: "sound s args" and ok: "heap_ok s"
  shows "arg_word s args (operand s args) a"
    and "us = b # vs \<Longrightarrow> arg_word s args (operand s (rest_of s args)) b"
proof -
  have "from_words {args} s s args" using intact_refl [OF snd] by (rule from_intact [rotated]) simp
  with sh snd have w: "arg_word s args args (mk_list (a # us))" unfolding arg_word_def by blast
  show "arg_word s args (operand s args) a" by (rule cell_word(1) [OF w ok])
  show "arg_word s args (operand s (rest_of s args)) b" if "us = b # vs"
    by (rule cell_word(1) [OF cell_word(2) [OF w ok, unfolded that] ok])
qed

lemma arg_part:
  assumes "arg_word s args w (Cell x y)" and "heap_ok s"
  shows "arg_word s args (heap_car s (cell_of w)) x" and "arg_word s args (heap_cdr s (cell_of w)) y"
    and "IS_CONS w" and "cell_of w < HEAP_SIZE"
proof -
  have w: "shape s w (Cell x y)" "sound s w" "from_words {args} s s w" using assms(1) unfolding arg_word_def by blast+
  then show c: "IS_CONS w" "cell_of w < HEAP_SIZE" by simp_all
  note p = cons_ptr [OF c(1)]
  from w(1) have h: "shape s (heap_car s (cell_of w)) x" "shape s (heap_cdr s (cell_of w)) y" by simp_all
  note f = from_part [OF w(3) p] and n = sound_part [OF assms(2) w(2) p]
  from h f n show "arg_word s args (heap_car s (cell_of w)) x" "arg_word s args (heap_cdr s (cell_of w)) y"
    unfolding arg_word_def by blast+
qed

text \<open>What a primitive may return in the state it was called in.\<close>

lemma arg_yields: "arg_word s args w v \<Longrightarrow> heap_ok s \<Longrightarrow> yields {args} s w s \<and> shape s w v"
  by (simp add: arg_word_def yields_def grown_refl)

lemma atom_yields: "heap_ok s \<Longrightarrow> \<not> IS_PTR w \<Longrightarrow> yields V s w s"
  by (simp add: yields_def grown_refl from_atom sound_def)

lemma fixnum_atom [simp]: "\<not> IS_PTR (MAKE_FIXNUM n)" "\<not> IS_PTR T_VAL" "\<not> IS_PTR NIL_VAL"
  by (simp_all add: IS_PTR_def)

lemma prim_one_correct:
  assumes a: "arg_word s args (operand s args) a" and sh: "shape s args (mk_list [a])" and ok: "heap_ok s" and v: "prim_one pid a = Some v"
  shows "runs (apply_primitive k ev ap pid args) s (\<lambda>w s'. yields {args} s w s' \<and> shape s' w v)"
proof -
  note st = operand_steps [OF sh]
  have tags: "IS_CONS (operand s args) \<longleftrightarrow> (\<exists>x y. a = Cell x y)" "IS_FIXNUM (operand s args) \<longleftrightarrow> (\<exists>x. a = Atom x \<and> IS_FIXNUM x)"
    "IS_NIL (operand s args) \<longleftrightarrow> a = Atom NIL_VAL"
    using a shape_is shape_nil by (auto simp: arg_word_def)
  consider (take) x y where "a = Cell x y" "pid = PRIM_CAR \<and> v = x \<or> pid = PRIM_CDR \<and> v = y"
    | (test) c where "v = boolean c" "pid \<in> {PRIM_NULLP, PRIM_NOT} \<and> c = IS_NIL (operand s args) \<or> pid = PRIM_PAIRP \<and> c = IS_CONS (operand s args) \<or>
        pid = PRIM_ATOMP \<and> c = (\<not> IS_CONS (operand s args)) \<or> pid = PRIM_NUMP \<and> c = IS_FIXNUM (operand s args)"
    using v tags unfolding prim_one_def by (cases a) (auto split: if_splits)
  then show ?thesis
  proof cases
    case take
    note p = arg_part [OF a [unfolded take(1)] ok]
      from take(2) show ?thesis
    proof
      assume "pid = PRIM_CAR \<and> v = x"
      with arg_yields [OF p(1) ok] p(3,4) apply_prims(9) [OF sh p(3)] show ?thesis by (simp add: runs_def car_eq)
    next
      assume "pid = PRIM_CDR \<and> v = y"
      with arg_yields [OF p(2) ok] p(3,4) apply_prims(10) [OF sh p(3)] show ?thesis by (simp add: runs_def cdr_eq)
    qed
  next
    case test
    from test(2) have "apply_primitive k ev ap pid args s = Done (if c then T_VAL else NIL_VAL) s"
      by (elim disjE conjE insertE emptyE) (simp_all add: apply_prims [OF sh] truth_def)
    with test(1) atom_yields [OF ok, of _ "{args}"] show ?thesis by (auto simp: runs_def)
  qed
qed

lemma prim_two_correct:
  assumes a: "arg_word s args (operand s args) a" and b: "arg_word s args (operand s (rest_of s args)) b"
    and sh: "shape s args (mk_list [a, b])" and snd: "sound s args" and ok: "heap_ok s" and v: "prim_two pid a b = Some v"
  shows "runs (apply_primitive k ev ap pid args) s (\<lambda>w s'. yields {args} s w s' \<and> shape s' w v)"
proof -
  note st = operand_steps [OF sh]
  let ?a = "operand s args" and ?b = "operand s (rest_of s args)"
  show ?thesis
  proof (cases "pid = PRIM_CONS")
    case True
    have "runs (hold [args, ?a, ?b] (cons ?a ?b)) s (\<lambda>w s'. makes ([?a, ?b] @ [args, ?a, ?b]) ?a ?b s w s' \<and> IS_CONS w)"
      by (rule runs_hold_cons) (use a b snd ok in \<open>auto simp: arg_word_def\<close>)
    then have "runs (hold [args, ?a, ?b] (cons ?a ?b)) s (\<lambda>w s'. yields {args} s w s' \<and> shape s' w v)"
    proof (rule runs_mono, elim conjE)
      fix w s' assume m: "makes ([?a, ?b] @ [args, ?a, ?b]) ?a ?b s w s'" and c: "IS_CONS w"
      note f = makes_facts [OF m]
      have k: "intact s s' ?a" "intact s s' ?b" using f(8) by simp_all
      have "from_words {args} s s' w"
        using makes_from [OF m grown_refl [OF ok]] from_later [OF _ k(1)] from_later [OF _ k(2)] a b by (simp add: arg_word_def)
      moreover have "v = Cell a b" using v True by (simp add: prim_two_def)
      ultimately show "yields {args} s w s' \<and> shape s' w v"
        using f(1-6) c shape_intact [OF k(1)] shape_intact [OF k(2)] a b by (simp add: yields_def arg_word_def)
    qed
    then show ?thesis using True by (simp add: runs_def apply_prims [OF sh])
  next
    case False
    with v obtain x y where xy: "a = Atom x" "b = Atom y" by (auto simp: prim_two_def split: sval.splits)
    then have w: "?a = x" "?b = y" using a b by (simp_all add: arg_word_def)
    have e: "x = y \<longleftrightarrow> FIXNUM_VAL x = FIXNUM_VAL y" if "IS_FIXNUM x" "IS_FIXNUM y"
      using make_ptr(1) [OF that(1)] make_ptr(1) [OF that(2)] by metis
    consider "pid = PRIM_EQP" "v = boolean (x = y)"
      | (numbers) "IS_FIXNUM x" "IS_FIXNUM y" "pid = PRIM_LT \<and> v = boolean (sint (FIXNUM_VAL x) < sint (FIXNUM_VAL y)) \<or>
        pid = PRIM_EQ_NUM \<and> v = boolean (x = y) \<or>
        FIXNUM_VAL y \<noteq> 0 \<and> pid = PRIM_DIV \<and> v = number_val (of_int (sint (FIXNUM_VAL x) sdiv sint (FIXNUM_VAL y))) \<or>
        FIXNUM_VAL y \<noteq> 0 \<and> pid = PRIM_MOD \<and> v = number_val (of_int (sint (FIXNUM_VAL x) smod sint (FIXNUM_VAL y)))"
      using v False xy unfolding prim_two_def by (auto split: if_splits)
    then have "\<exists>u. apply_primitive k ev ap pid args s = Done u s \<and> \<not> IS_PTR u \<and> shape s u v"
    proof cases
      case 1
      then show ?thesis by (simp add: apply_prims [OF sh] w truth_def)
    next
      case numbers
      from numbers(3) show ?thesis
        by (elim disjE conjE) (simp_all add: apply_prims [OF sh] w truth_def prim_binary_def numbers(1,2) e)
    qed
    with atom_yields [OF ok, of _ "{args}"] show ?thesis by (auto simp: runs_def)
  qed
qed

lemma runs_apply_primitive:
  assumes v: "prim_result pid vs = Some v" and sh: "shape s args (mk_list vs)" and snd: "sound s args" and ok: "heap_ok s"
  shows "runs (apply_primitive k ev ap pid args) s (\<lambda>w s'. yields {args} s w s' \<and> shape s' w v)"
proof -
  note st = operand_steps [OF sh]
  consider (arith) ns where "nums vs = Some ns"
      "pid = PRIM_ADD \<and> v = number_val (sum_list ns) \<or> pid = PRIM_SUB \<and> v = number_val (difference ns) \<or> pid = PRIM_MUL \<and> v = number_val (prod_list ns)"
    | (list) "pid = PRIM_LIST" "v = mk_list vs"
    | (one) a where "vs = [a]" "prim_one pid a = Some v"
    | (two) a b where "vs = [a, b]" "prim_two pid a b = Some v"
    using v unfolding prim_result_def by (auto split: if_splits list.splits)
  then show ?thesis
  proof cases
    case arith
    from arith(2) have "\<exists>n. apply_primitive k ev ap pid args s = Done (MAKE_FIXNUM n) s \<and> v = number_val n"
      using prim_arith_value [OF sh arith(1)] by (elim disjE conjE) (simp_all only: apply_prims [OF sh], blast+)
    with atom_yields [OF ok, of _ "{args}"] show ?thesis by (auto simp: runs_def)
  next
    case list
    have "from_words {args} s s args" using intact_refl [OF snd] by (rule from_intact [rotated]) simp
    with list sh snd ok show ?thesis
      by (simp add: runs_def apply_prims [OF sh] yields_def grown_refl)
  next
    case one
    have l: "shape s args (mk_list (a # []))" "shape s args (mk_list [a])" using sh one(1) by simp_all
    show ?thesis by (rule prim_one_correct [OF operands(1) [OF l(1) snd ok] l(2) ok one(2)])
  next
    case two
    with prim_two_correct [OF operands(1,2)] sh snd ok show ?thesis by blast
  qed
qed

end
