(* ===== verification/Tml_Eval_Correct.thy ===== *)
theory Tml_Eval_Correct
  imports Tml_Prim_Correct
begin

text \<open>
  The evaluator refines the big-step semantics: on a program that has a value, \<open>eval\<close> returns a
  word that denotes this value, or halts because the memory is exhausted.
\<close>

section \<open>Special forms\<close>

text \<open>A form in the heap: a cell whose parts are known.\<close>

lemma form_facts:
  assumes sh: "shape s x (Cell h a)" and snd: "sound s x" and ok: "heap_ok s"
  shows "IS_CONS x" and "cell_of x < HEAP_SIZE" and "shape s (heap_car s (cell_of x)) h" and "shape s (heap_cdr s (cell_of x)) a"
    and "sound s (heap_car s (cell_of x))" and "sound s (heap_cdr s (cell_of x))"
    and "cells_of s (heap_car s (cell_of x)) \<subseteq> cells_of s x" and "cells_of s (heap_cdr s (cell_of x)) \<subseteq> cells_of s x"
proof -
  show c: "IS_CONS x" "cell_of x < HEAP_SIZE" "shape s (heap_car s (cell_of x)) h" "shape s (heap_cdr s (cell_of x)) a"
    using sh by simp_all
  note p = cons_ptr [OF c(1)]
  show "sound s (heap_car s (cell_of x))" "sound s (heap_cdr s (cell_of x))" by (rule sound_part [OF ok snd p])+
  show "cells_of s (heap_car s (cell_of x)) \<subseteq> cells_of s x" "cells_of s (heap_cdr s (cell_of x)) \<subseteq> cells_of s x"
    using cells_ptr [OF p, of s] by blast+
qed

text \<open>
  The parts of a form of which the state \<open>s'\<close>, grown from \<open>s\<close>, has kept all: they come from the
  form, and so does what is computed from them.
\<close>

definition part_of :: "lisp \<Rightarrow> i24 \<Rightarrow> lisp \<Rightarrow> i24 \<Rightarrow> sval \<Rightarrow> bool" where
  "part_of s x s' w v \<longleftrightarrow> shape s w v \<and> sound s w \<and> cells_of s w \<subseteq> cells_of s x \<and> intact s s' w"

lemma part_now: "shape s x v \<Longrightarrow> sound s x \<Longrightarrow> part_of s x s x v"
  by (simp add: part_of_def intact_refl)

lemma part_parts:
  assumes "part_of s x s' w (Cell h a)" and "heap_ok s" and "heap_ok s'"
  shows "part_of s x s' (heap_car s (cell_of w)) h" and "part_of s x s' (heap_cdr s (cell_of w)) a"
    and "car w s' = Done (heap_car s (cell_of w)) s'" and "cdr w s' = Done (heap_cdr s (cell_of w)) s'"
    and "runs (car w) s' Q \<longleftrightarrow> Q (heap_car s (cell_of w)) s'" and "runs (cdr w) s' Q \<longleftrightarrow> Q (heap_cdr s (cell_of w)) s'"
    and "\<not> IS_NIL w"
proof -
  have w: "shape s w (Cell h a)" "sound s w" "cells_of s w \<subseteq> cells_of s x" "intact s s' w" using assms(1) unfolding part_of_def by blast+
  note f = form_facts [OF w(1,2) assms(2)]
  note i = intact_part [OF w(4) cons_ptr [OF f(1)] assms(3)]
  show "part_of s x s' (heap_car s (cell_of w)) h" "part_of s x s' (heap_cdr s (cell_of w)) a"
    using f(3-8) i(1,2) w(3) unfolding part_of_def by blast+
  show c: "car w s' = Done (heap_car s (cell_of w)) s'" "cdr w s' = Done (heap_cdr s (cell_of w)) s'"
    using f(2) i(3,4) by (simp_all add: car_eq cdr_eq)
  show "runs (car w) s' Q \<longleftrightarrow> Q (heap_car s (cell_of w)) s'" "runs (cdr w) s' Q \<longleftrightarrow> Q (heap_cdr s (cell_of w)) s'"
    by (simp_all add: runs_def c)
  show "\<not> IS_NIL w" using shape_nil [OF w(1)] by simp
qed

lemma part_shape: "part_of s x s' w v \<Longrightarrow> shape s' w v" and part_sound: "part_of s x s' w v \<Longrightarrow> sound s' w"
  using shape_intact by (auto simp: part_of_def intact_def)

lemma part_from: "part_of s x s' w v \<Longrightarrow> from_words {x, ew} s s' w"
  using intact_cells [of s s' w] reach_in [of x "insert (global_env s) {x, ew}" s]
  unfolding part_of_def from_words_def by auto

lemma part_later:
  assumes "part_of s x s1 w v" and "intact s1 s2 w"
  shows "part_of s x s2 w v"
  using assms intact_trans unfolding part_of_def by blast

text \<open>The evaluation of a part of the form \<open>x\<close> as the last step, in the same environment.\<close>

lemma runs_part:
  assumes "computes sp G ev env e v" and "prepared sp G s" and g: "grown s s1" and "part_of s x s1 y e"
    and "intact s s1 ew" and "shape_env s ew env"
  shows "runs (ev y ew) s1 (\<lambda>w s'. yields {x, ew} s w s' \<and> shape s' w v)"
proof (rule runs_mono)
  have ok: "heap_ok s" using assms(2) by (simp add: prepared_def)
  have ew: "shape_env s1 ew env" "sound s1 ew" using assms(5,6) shape_env_intact by (auto simp: intact_def)
  show "runs (ev y ew) s1 (\<lambda>w s'. yields {y, ew} s1 w s' \<and> shape s' w v)"
    using assms(1) prepared_grown [OF assms(2) g] part_shape [OF assms(4)] part_sound [OF assms(4)] ew unfolding computes_def by blast
  have "\<forall>z\<in>{y, ew}. from_words {x, ew} s s1 z"
    using part_from [OF assms(4)] from_intact [of ew s "{x, ew}", OF _ assms(5)] by simp
  then show "yields {x, ew} s w s' \<and> shape s' w v" if "yields {y, ew} s1 w s' \<and> shape s' w v" for w s'
    using yields_trans [OF _ g ok] that by blast
qed

text \<open>What the evaluator does with a form, by its head.\<close>

lemma turn_special:
  assumes g: "prepared sp G s" and sh: "shape s x (Cell h a)" and snd: "sound s x"
  defines "hw \<equiv> heap_car s (cell_of x)" and "aw \<equiv> heap_cdr s (cell_of x)"
  shows "h = Atom (sp Quote) \<Longrightarrow> eval_turn k ev ap x ew s = car aw s"
    and "h = Atom (sp If) \<Longrightarrow> eval_turn k ev ap x ew s = eval_if ev [x, ew, hw, aw] aw ew s"
    and "h = Atom (sp Lambda) \<Longrightarrow> eval_turn k ev ap x ew s = eval_lambda [x, ew, hw, aw] aw ew s"
    and "h = Atom (sp Begin) \<Longrightarrow> eval_turn k ev ap x ew s =
      (if IS_NIL aw then Done NIL_VAL s else eval_begin k ev [x, ew, hw] aw ew s)"
    and "\<not> is_special sp h \<Longrightarrow> eval_turn k ev ap x ew s = eval_call k ev ap [x, ew, hw, aw] hw aw ew s"
proof -
  have ok: "heap_ok s" and sp: "special_sym s = sp" and inj: "inj sp" and sym: "\<And>f. IS_SYMBOL (sp f)"
    using g by (auto simp: prepared_def)
  note f = form_facts [OF sh snd ok]
  note t = shape_tags(2) [OF sh]
  have cr: "car x s = Done hw s" "cdr x s = Done aw s" using f(2) by (simp_all add: car_eq cdr_eq hw_def aw_def)
  have e: "eval_turn k ev ap x ew s = (let fr = [x, ew, hw, aw] in
        if hw = special_sym s Quote then car aw
        else if hw = special_sym s Quasiquote then bnd (car aw) (\<lambda>t. hold fr (qq_expand k ev t ew))
        else if hw = special_sym s If then eval_if ev fr aw ew
        else if hw = special_sym s Define then eval_define ev fr aw ew
        else if hw = special_sym s Set then eval_set k ev fr aw ew
        else if hw = special_sym s Lambda then eval_lambda fr aw ew
        else if hw = special_sym s Defmacro then eval_defmacro fr aw ew
        else if hw = special_sym s Catch then eval_catch ev fr aw ew
        else if hw = special_sym s Begin then (if IS_NIL aw then ret NIL_VAL else eval_begin k ev [x, ew, hw] aw ew)
        else eval_call k ev ap fr hw aw ew) s"
    using t cr by (simp add: eval_turn_def bnd_step)
  have d: "sp a = sp b \<longleftrightarrow> a = b" for a b using inj by (auto simp: inj_def)
  have hw: "hw = sp b" if "h = Atom (sp b)" for b using f(3) that by (simp add: hw_def)
  show "h = Atom (sp Quote) \<Longrightarrow> eval_turn k ev ap x ew s = car aw s"
    "h = Atom (sp If) \<Longrightarrow> eval_turn k ev ap x ew s = eval_if ev [x, ew, hw, aw] aw ew s"
    "h = Atom (sp Lambda) \<Longrightarrow> eval_turn k ev ap x ew s = eval_lambda [x, ew, hw, aw] aw ew s"
    "h = Atom (sp Begin) \<Longrightarrow> eval_turn k ev ap x ew s =
      (if IS_NIL aw then Done NIL_VAL s else eval_begin k ev [x, ew, hw] aw ew s)"
    unfolding e sp by (simp_all add: hw d Let_def)
  have "hw \<noteq> sp b" if "\<not> is_special sp h" "b \<in> set special_forms" for b
  proof
    assume "hw = sp b"
    with f(3) have "shape s (sp b) h" by (simp add: hw_def)
    moreover have "\<not> IS_PTR (sp b)" using tag_exclusive(2) [OF sym] by (simp add: IS_PTR_def)
    ultimately have "h = Atom (sp b)" by (cases h) (auto simp: IS_PTR_def)
    with that show False by (auto simp: is_special_def)
  qed
  then show "\<not> is_special sp h \<Longrightarrow> eval_turn k ev ap x ew s = eval_call k ev ap [x, ew, hw, aw] hw aw ew s"
    unfolding e sp by (simp add: special_forms_def Let_def)
qed

lemma computesI:
  "(\<And>s x ew. prepared sp G s \<Longrightarrow> sound s x \<Longrightarrow> sound s ew \<Longrightarrow> shape s x e \<Longrightarrow> shape_env s ew env \<Longrightarrow>
      runs (ev x ew) s (\<lambda>w s'. yields {x, ew} s w s' \<and> shape s' w v)) \<Longrightarrow> computes sp G ev env e v"
  unfolding computes_def by blast

lemma prepared_ok: "prepared sp G s \<Longrightarrow> heap_ok s"
  by (simp add: prepared_def)

lemma runs_via: "m s = m' s \<Longrightarrow> runs m' s Q \<Longrightarrow> runs m s Q"
  by (simp add: runs_def)

lemma runs_Done: "m s = Done a s' \<Longrightarrow> runs m s Q = Q a s'"
  by (simp add: runs_def)

lemma self_computes:
  "(\<And>s x. shape s x e \<Longrightarrow> IS_FIXNUM x \<or> IS_NIL x \<or> x = T_VAL \<or> IS_EXTENDED x) \<Longrightarrow> computes sp G (eval_turn k ev ap) env e e"
  using prepared_ok grown_refl
  by (intro computesI) (simp add: eval_turn_def yields_def from_intact intact_refl)

lemma quote_computes: "computes sp G (eval_turn k ev ap) env (Cell (Atom (sp Quote)) (Cell d r)) d"
proof (rule computesI)
  fix s x ew assume g: "prepared sp G s" and snd: "sound s x" "sound s ew"
    and sh: "shape s x (Cell (Atom (sp Quote)) (Cell d r))"
  note ok = prepared_ok [OF g]
  note p = part_parts(1,2) [OF part_now [OF sh snd(1)] ok ok]
  note q = part_parts [OF p(2) ok ok]
  have "eval_turn k ev ap x ew s = Done (heap_car s (cell_of (heap_cdr s (cell_of x)))) s"
    using turn_special(1) [OF g sh snd(1) refl] q(3) by simp
  then show "runs (eval_turn k ev ap x ew) s (\<lambda>w s'. yields {x, ew} s w s' \<and> shape s' w d)"
    using part_shape [OF q(1)] part_sound [OF q(1)] part_from [OF q(1)] grown_refl [OF ok] by (simp add: runs_Done yields_def)
qed

lemma throwing_off: "prepared sp G s \<Longrightarrow> \<not> catch_throwing s"
  by (simp add: prepared_def)

lemma if_computes:
  assumes c: "computes sp G ev env c u"
    and pick: "u \<noteq> Atom NIL_VAL \<and> branches = Cell t r \<and> computes sp G ev env t v \<or>
      u = Atom NIL_VAL \<and> branches = Cell t (Cell e r) \<and> computes sp G ev env e v \<or>
      u = Atom NIL_VAL \<and> branches = Cell t (Atom NIL_VAL) \<and> v = Atom NIL_VAL"
  shows "computes sp G (eval_turn k ev ap) env (Cell (Atom (sp If)) (Cell c branches)) v"
proof (rule computesI)
  fix s x ew assume g: "prepared sp G s" and snd: "sound s x" "sound s ew"
    and sh: "shape s x (Cell (Atom (sp If)) (Cell c branches))" and ew: "shape_env s ew env"
  note ok = prepared_ok [OF g]
  let ?ar = "heap_cdr s (cell_of x)" and ?Q = "\<lambda>w s'. yields {x, ew} s w s' \<and> shape s' w v"
  let ?fr = "[x, ew, heap_car s (cell_of x), ?ar]"
  note p = part_parts(1,2) [OF part_now [OF sh snd(1)] ok ok]
  note q = part_parts [OF p(2) ok ok]
  have "runs (hold ?fr (ev (heap_car s (cell_of ?ar)) ew)) s (\<lambda>cond_val s1. runs (bnd (get catch_throwing) (\<lambda>throwing. if throwing then ret NIL_VAL
     else if \<not> IS_NIL cond_val then bnd (cdr ?ar) (\<lambda>r. bnd (car r) (\<lambda>e. ev e ew))
     else bnd (cdr ?ar) (\<lambda>r. bnd (cdr r) (\<lambda>else_part. if IS_NIL else_part then ret NIL_VAL
       else bnd (car else_part) (\<lambda>e. ev e ew))))) s1 ?Q)"
  proof (rule runs_held_ev [OF c g _ snd(2) _ ew])
    show "sound s (heap_car s (cell_of ?ar))" "shape s (heap_car s (cell_of ?ar)) c"
      using part_sound [OF q(1)] part_shape [OF q(1)] by simp_all
    fix w s1 assume y: "yields {heap_car s (cell_of ?ar), ew} s w s1" and kp: "\<forall>z\<in>set ?fr. sound s z \<longrightarrow> intact s s1 z"
      and w: "shape s1 w u" and g1: "prepared sp G s1"
    note ok1 = prepared_ok [OF g1]
    have gr: "grown s s1" using y by (simp add: yields_def)
    have ar: "part_of s x s1 ?ar (Cell c branches)" "intact s s1 ew"
      using part_later [OF p(2)] kp part_sound [OF p(2)] snd by simp_all
    note b = part_parts [OF ar(1) ok ok1]
    from pick show "runs (bnd (get catch_throwing) (\<lambda>throwing. if throwing then ret NIL_VAL
     else if \<not> IS_NIL w then bnd (cdr ?ar) (\<lambda>r. bnd (car r) (\<lambda>e. ev e ew))
     else bnd (cdr ?ar) (\<lambda>r. bnd (cdr r) (\<lambda>else_part. if IS_NIL else_part then ret NIL_VAL
       else bnd (car else_part) (\<lambda>e. ev e ew))))) s1 ?Q"
    proof (elim disjE conjE)
      assume h: "u \<noteq> Atom NIL_VAL" "branches = Cell t r" "computes sp G ev env t v"
      note t = part_parts [OF b(2) [unfolded h(2)] ok ok1]
      show ?thesis
        using runs_part [OF h(3) g gr t(1) ar(2) ew] shape_nil [OF w] h(1) throwing_off [OF g1]
        by (simp add: runs_bnd b(6) t(5))
    next
      assume h: "u = Atom NIL_VAL" "branches = Cell t (Cell e r)" "computes sp G ev env e v"
      note t = part_parts [OF b(2) [unfolded h(2)] ok ok1]
      note e = part_parts [OF t(2) ok ok1]
      show ?thesis
        using runs_part [OF h(3) g gr e(1) ar(2) ew] shape_nil [OF w] h(1) throwing_off [OF g1] e(7)
        by (simp add: runs_bnd b(6) t(6) e(5))
    next
      assume h: "u = Atom NIL_VAL" "branches = Cell t (Atom NIL_VAL)" "v = Atom NIL_VAL"
      note t = part_parts [OF b(2) [unfolded h(2)] ok ok1]
      have "IS_NIL (heap_cdr s (cell_of (heap_cdr s (cell_of ?ar))))" using part_shape [OF t(2)] by simp
      then show ?thesis
        using shape_nil [OF w] h(1,3) throwing_off [OF g1] gr
        by (simp add: runs_bnd b(6) t(6) yields_def from_atom sound_def)
    qed
  qed
  note main = this
  show "runs (eval_turn k ev ap x ew) s ?Q"
    by (rule runs_via [where m' = "eval_if ev ?fr ?ar ew"], rule turn_special(2) [OF g sh snd(1) refl],
      unfold eval_if_def, rule runs_bndI, unfold q(5), rule runs_bndI, rule main)
qed

text \<open>Variables.\<close>

lemma alist_value:
  "alist_at s e ws \<Longrightarrow> heap_ok s \<Longrightarrow> sound s e \<Longrightarrow> (x, w) \<in> set ws \<Longrightarrow> sound s w \<and> cells_of s w \<subseteq> cells_of s e"
proof (induction ws arbitrary: e)
  case (Cons b ws)
  obtain y u where b: "b = (y, u)" by (cases b)
  with Cons.prems(1) have c: "IS_CONS e" "IS_CONS (heap_car s (cell_of e))" "heap_cdr s (cell_of (heap_car s (cell_of e))) = u"
    and r: "alist_at s (heap_cdr s (cell_of e)) ws" by auto
  note p = cons_ptr [OF c(1)] and q = cons_ptr [OF c(2)]
  note n = sound_part [OF Cons.prems(2,3) p] and k = cells_ptr [OF p, of s] and l = cells_ptr [OF q, of s]
  note m = sound_part [OF Cons.prems(2) n(1) q]
  show ?case
  proof (cases "w = u")
    case True
    with c(3) m k l show ?thesis by auto
  next
    case False
    with Cons.prems(4) b have "(x, w) \<in> set ws" by auto
    with Cons.IH [OF r Cons.prems(2) n(2)] k show ?thesis by blast
  qed
qed simp

lemma shape_env_find:
  assumes "shape_env s e bs" and "heap_ok s" and "sound s e"
  shows "map_of bs x = None \<Longrightarrow> find_binding walk_fuel x e s = Done None s"
    and "map_of bs x = Some v \<Longrightarrow> \<exists>b w. find_binding walk_fuel x e s = Done (Some b) s \<and> cdr b s = Done w s \<and>
      shape s w v \<and> sound s w \<and> cells_of s w \<subseteq> cells_of s e"
proof -
  from assms(1) obtain ws where a: "alist_at s e ws"
    and l: "list_all2 (\<lambda>(x, w) (y, v). x = y \<and> \<not> IS_PTR x \<and> shape s w v) ws bs" by (auto simp: shape_env_alist)
  note f = find_binding_spec [OF a walk_enough [OF a], of x]
  from l have none: "map_of bs x = None \<longleftrightarrow> map_of ws x = None"
    by (induction rule: list_all2_induct) auto
  from l have some: "map_of bs x = Some v \<Longrightarrow> \<exists>w. map_of ws x = Some w \<and> shape s w v"
    by (induction rule: list_all2_induct) (auto split: if_splits)
  show "map_of bs x = None \<Longrightarrow> find_binding walk_fuel x e s = Done None s" using f none by simp
  show "map_of bs x = Some v \<Longrightarrow> \<exists>b w. find_binding walk_fuel x e s = Done (Some b) s \<and> cdr b s = Done w s \<and>
      shape s w v \<and> sound s w \<and> cells_of s w \<subseteq> cells_of s e"
  proof -
    assume "map_of bs x = Some v"
    from some [OF this] obtain w where w: "map_of ws x = Some w" "shape s w v" by blast
    with f alist_value [OF a assms(2,3) map_of_SomeD [OF w(1)]] show ?thesis by blast
  qed
qed

lemma variable_computes:
  assumes x: "IS_SYMBOL y" "y \<noteq> NIL_VAL" "y \<noteq> T_VAL" and m: "map_of (env @ G) y = Some v"
  shows "computes sp G (eval_turn k ev ap) env (Atom y) v"
proof (rule computesI)
  fix s x ew assume g: "prepared sp G s" and snd: "sound s x" "sound s ew" and sh: "shape s x (Atom y)" and ew: "shape_env s ew env"
  note ok = prepared_ok [OF g]
  have gl: "shape_env s (global_env s) G" "sound s (global_env s)" using g global_sound [OF ok] by (simp_all add: prepared_def)
  have "\<exists>w e. env_lookup k y ew s = Done w s \<and> shape s w v \<and> sound s w \<and> cells_of s w \<subseteq> cells_of s e \<and> e \<in> {ew, global_env s}"
  proof (cases "map_of env y")
    case (Some u)
    with m have "u = v" by simp
    with shape_env_find(2) [OF ew ok snd(2) Some] obtain b w where "find_binding walk_fuel y ew s = Done (Some b) s"
      "cdr b s = Done w s" "shape s w v" "sound s w" "cells_of s w \<subseteq> cells_of s ew" by blast
    then show ?thesis by (intro exI [of _ w] exI [of _ ew]) (simp add: env_lookup_def bnd_step)
  next
    case None
    with m have "map_of G y = Some v" by (simp add: map_add_def)
    with shape_env_find(2) [OF gl(1) ok gl(2)] obtain b w where "find_binding walk_fuel y (global_env s) s = Done (Some b) s"
      "cdr b s = Done w s" "shape s w v" "sound s w" "cells_of s w \<subseteq> cells_of s (global_env s)" by blast
    then show ?thesis
      using shape_env_find(1) [OF ew ok snd(2) None]
      by (intro exI [of _ w] exI [of _ "global_env s"]) (simp add: env_lookup_def bnd_step)
  qed
  then obtain w e where w: "env_lookup k y ew s = Done w s" "shape s w v" "sound s w" "cells_of s w \<subseteq> cells_of s e" "e \<in> {ew, global_env s}"
    by blast
  have "cells_of s e \<subseteq> reach (heap_car s) (heap_cdr s) (insert (global_env s) {x, ew})"
    using w(5) by (intro reach_in) auto
  with w(4) have "from_words {x, ew} s s w" unfolding from_words_def by blast
  moreover have "eval_turn k ev ap x ew s = env_lookup k y ew s"
    using sh x tag_exclusive(2) [OF x(1)] by (simp add: eval_turn_def IS_NIL_def)
  ultimately show "runs (eval_turn k ev ap x ew) s (\<lambda>w s'. yields {x, ew} s w s' \<and> shape s' w v)"
    using w(1-3) grown_refl [OF ok] by (simp add: runs_def yields_def)
qed

text \<open>Sequences.\<close>

lemma runs_begin:
  assumes "list_all2 (computes sp G ev env) es us" and "es \<noteq> []" and "length es \<le> k" and "prepared sp G s" and "grown s s1"
    and "part_of s x s1 y (mk_list es)" and "intact s s1 ew" and "shape_env s ew env" and "ew \<in> set fr"
  shows "runs (eval_begin k ev fr y ew) s1 (\<lambda>w s'. yields {x, ew} s w s' \<and> shape s' w (last us))"
  using assms
proof (induction es us arbitrary: k s1 y rule: list_all2_induct)
  case (Cons e es u us)
  obtain m where k: "k = Suc m" "length es \<le> m" using Cons(5) by (cases k) auto
  let ?Q = "\<lambda>w s'. yields {x, ew} s w s' \<and> shape s' w (last (u # us))"
  have ok: "heap_ok s" and ok1: "heap_ok s1" using Cons(6,7) prepared_ok grown_ok by blast+
  note p = part_parts [OF Cons(8) [simplified] ok ok1]
  let ?c = "heap_car s (cell_of y)" and ?r = "heap_cdr s (cell_of y)"
  show ?case
  proof (cases es)
    case Nil
    with Cons(2) have "us = []" by simp
    moreover have "IS_NIL ?r" using part_shape [OF p(2)] Nil by simp
    ultimately show ?thesis
      using runs_part [OF Cons(1,6,7) p(1) Cons(9,10)] by (simp add: k(1) runs_bnd p(5,6))
  next
    case (Cons e' es')
    have nil: "\<not> IS_NIL ?r" using shape_nil [OF part_shape [OF p(2)]] Cons by simp
    have g1: "prepared sp G s1" by (rule prepared_grown [OF Cons.prems(3,4)])
    have ew: "sound s1 ew" "shape_env s1 ew env" using Cons.prems(6,7) shape_env_intact by (auto simp: intact_def)
    have "runs (hold (fr @ [y]) (ev ?c ew)) s1 (\<lambda>_ s2. runs (bnd (get catch_throwing) (\<lambda>throwing. if throwing then ret NIL_VAL
       else bnd (cdr y) (\<lambda>args. eval_begin m ev fr args ew))) s2 ?Q)"
    proof (rule runs_held_ev [OF Cons.hyps(1) g1 part_sound [OF p(1)] ew(1) part_shape [OF p(1)] ew(2)])
      fix w s2 assume yl: "yields {?c, ew} s1 w s2" and kp: "\<forall>z\<in>set (fr @ [y]). sound s1 z \<longrightarrow> intact s1 s2 z" and g2: "prepared sp G s2"
      have gr: "grown s s2" using yl grown_trans [OF Cons.prems(4)] by (simp add: yields_def)
      have i: "intact s s2 ew" "part_of s x s2 y (mk_list (e # es))"
        using kp ew(1) Cons.prems(8) intact_trans [OF Cons.prems(6)] part_later [OF Cons.prems(5)] part_sound [OF Cons.prems(5)] by simp_all
      note q = part_parts [OF i(2) [simplified] ok prepared_ok [OF g2]]
      have "runs (eval_begin m ev fr ?r ew) s2 (\<lambda>w s'. yields {x, ew} s w s' \<and> shape s' w (last us))"
        by (rule Cons.IH [OF _ k(2) Cons.prems(3) gr q(2) i(1) Cons.prems(7,8)]) (simp add: Cons)
      moreover have "us \<noteq> []" using Cons.hyps(2) Cons by auto
      ultimately show "runs (bnd (get catch_throwing) (\<lambda>throwing. if throwing then ret NIL_VAL
       else bnd (cdr y) (\<lambda>args. eval_begin m ev fr args ew))) s2 ?Q"
        using throwing_off [OF g2] by (simp add: runs_bnd q(6))
    qed
    then show ?thesis
      using nil by (simp only: k(1) eval_begin.simps) (simp only: runs_bnd p(5,6) if_False)
  qed
qed simp

lemma begin_computes:
  assumes "list_all2 (computes sp G ev env) es us" and "es \<noteq> []" and "length es \<le> k"
  shows "computes sp G (eval_turn k ev ap) env (Cell (Atom (sp Begin)) (mk_list es)) (last us)"
proof (rule computesI)
  fix s x ew assume g: "prepared sp G s" and snd: "sound s x" "sound s ew"
    and sh: "shape s x (Cell (Atom (sp Begin)) (mk_list es))" and ew: "shape_env s ew env"
  note ok = prepared_ok [OF g]
  let ?ar = "heap_cdr s (cell_of x)"
  note p = part_parts(1,2) [OF part_now [OF sh snd(1)] ok ok]
  have "\<not> IS_NIL ?ar" using shape_nil [OF part_shape [OF p(2)]] assms(2) by (cases es) auto
  then have "eval_turn k ev ap x ew s = eval_begin k ev [x, ew, heap_car s (cell_of x)] ?ar ew s"
    using turn_special(4) [OF g sh snd(1) refl] by simp
  moreover have "runs (eval_begin k ev [x, ew, heap_car s (cell_of x)] ?ar ew) s (\<lambda>w s'. yields {x, ew} s w s' \<and> shape s' w (last us))"
    by (rule runs_begin [OF assms g grown_refl [OF ok] p(2) intact_refl [OF snd(2)] ew]) simp
  ultimately show "runs (eval_turn k ev ap x ew) s (\<lambda>w s'. yields {x, ew} s w s' \<and> shape s' w (last us))"
    by (simp add: runs_def)
qed

lemma begin_none_computes: "computes sp G (eval_turn k ev ap) env (Cell (Atom (sp Begin)) (Atom NIL_VAL)) (Atom NIL_VAL)"
proof (rule computesI)
  fix s x ew assume g: "prepared sp G s" and snd: "sound s x" and sh: "shape s x (Cell (Atom (sp Begin)) (Atom NIL_VAL))"
  have "IS_NIL (heap_cdr s (cell_of x))" using sh by simp
  then have "eval_turn k ev ap x ew s = Done NIL_VAL s"
    using turn_special(4) [OF g sh snd refl] by simp
  then show "runs (eval_turn k ev ap x ew) s (\<lambda>w s'. yields {x, ew} s w s' \<and> shape s' w (Atom NIL_VAL))"
    using grown_refl [OF prepared_ok [OF g]] by (simp add: runs_def yields_def from_atom sound_def)
qed

text \<open>Closures.\<close>

lemma runs_body_form:
  assumes g: "prepared sp G s" and p: "part_of s x s y (Cell b r)" and fr: "\<forall>z\<in>set fr. sound s z"
  shows "runs (body_form fr y) s (\<lambda>w s'. yields {x, ew} s w s' \<and> shape s' w (body_of sp b r) \<and>
    (\<forall>z\<in>set fr. intact s s' z))"
proof -
  have ok: "heap_ok s" and sp: "special_sym s = sp" and sym: "\<not> IS_PTR (sp Begin)"
    using g tag_exclusive(2) [of "sp Begin"] by (simp_all add: prepared_def IS_PTR_def)
  note q = part_parts [OF p ok ok]
  have nil: "IS_NIL (heap_cdr s (cell_of y)) \<longleftrightarrow> r = Atom NIL_VAL" by (rule shape_nil [OF part_shape [OF q(2)]])
  show ?thesis
  proof (cases "r = Atom NIL_VAL")
    case True
    with nil q(1) ok fr show ?thesis
      using part_shape [OF q(1)] part_sound [OF q(1)] part_from [OF q(1)]
      by (simp add: body_form_def runs_bnd q(5,6) body_of_def yields_def grown_refl intact_refl)
  next
    case False
    have y: "sound s y" "shape s y (Cell b r)" "from_words {x, ew} s s y"
      using part_sound [OF p] part_shape [OF p] part_from [OF p] by simp_all
    have "runs (hold (fr @ [y]) (cons (sp Begin) y)) s (\<lambda>w s'. makes ([sp Begin, y] @ fr @ [y]) (sp Begin) y s w s' \<and> IS_CONS w)"
      by (rule runs_hold_cons) (use ok y fr sym in \<open>auto simp: sound_def\<close>)
    then have "runs (hold (fr @ [y]) (cons (sp Begin) y)) s (\<lambda>w s'. yields {x, ew} s w s' \<and> shape s' w (body_of sp b r) \<and>
      (\<forall>z\<in>set fr. intact s s' z))"
    proof (rule runs_mono, elim conjE, intro conjI)
      fix w s' assume m: "makes ([sp Begin, y] @ fr @ [y]) (sp Begin) y s w s'" and c: "IS_CONS w"
      note f = makes_facts [OF m]
      have k: "intact s s' y" using f(8) by simp
      show "yields {x, ew} s w s'"
        using makes_from [OF m grown_refl [OF ok] from_atom [OF sym] from_later [OF y(3) k]] f(1,2) by (simp add: yields_def)
      show "shape s' w (body_of sp b r)"
        using shape_intact [OF k y(2)] False c f(4-6) sym by (simp add: body_of_def del: shape.simps(2)) simp
      show "\<forall>z\<in>set fr. intact s s' z" using f(8) by simp
    qed
    with False nil sp show ?thesis by (simp add: body_form_def runs_bnd q(6))
  qed
qed

lemma lambda_computes: "computes sp G (eval_turn k ev ap) env (Cell (Atom (sp Lambda)) (Cell ps (Cell b r))) (Clo ps (body_of sp b r) env)"
proof (rule computesI)
  fix s x ew assume g: "prepared sp G s" and snd: "sound s x" "sound s ew"
    and sh: "shape s x (Cell (Atom (sp Lambda)) (Cell ps (Cell b r)))" and ew: "shape_env s ew env"
  note ok = prepared_ok [OF g]
  let ?hw = "heap_car s (cell_of x)" and ?ar = "heap_cdr s (cell_of x)"
  let ?ps = "heap_car s (cell_of ?ar)" and ?fs = "heap_cdr s (cell_of ?ar)"
  let ?fr = "[x, ew, ?hw, ?ar]" and ?Q = "\<lambda>w s'. yields {x, ew} s w s' \<and> shape s' w (Clo ps (body_of sp b r) env)"
  note p = part_parts(1,2) [OF part_now [OF sh snd(1)] ok ok]
  note q = part_parts [OF p(2) ok ok]
  have fr: "\<forall>z\<in>set (?fr @ [?ps]). sound s z"
    using snd part_sound [OF p(1)] part_sound [OF p(2)] part_sound [OF q(1)] by simp
  have "runs (body_form (?fr @ [?ps]) ?fs) s (\<lambda>body s1. runs (hold (?fr @ [?ps, ?fs, body]) (make_closure ?ps body ew)) s1 ?Q)"
  proof (rule runs_mono [OF runs_body_form [OF g q(2) fr, where ew = ew]], elim conjE)
    fix w s1 assume y: "yields {x, ew} s w s1" and w: "shape s1 w (body_of sp b r)" and k: "\<forall>z\<in>set (?fr @ [?ps]). intact s s1 z"
    have gr: "grown s s1" and ok1: "heap_ok s1" and sw: "sound s1 w" "from_words {x, ew} s s1 w" using y grown_ok by (auto simp: yields_def)
    have i: "intact s s1 ?ps" "intact s s1 ew" using k by simp_all
    have s1: "sound s1 ?ps" "shape s1 ?ps ps" "sound s1 ew" "shape_env s1 ew env"
      using i shape_intact [OF i(1) part_shape [OF q(1)]] shape_env_intact [OF i(2) ew] by (simp_all add: intact_def)
    let ?p = "s1\<lparr>c_stack := (?fr @ [?ps, ?fs, w]) @ c_stack s1\<rparr>"
    show "runs (hold (?fr @ [?ps, ?fs, w]) (make_closure ?ps w ew)) s1 ?Q"
    proof (rule runs_held [where P = "\<lambda>v s'. shape s' v (Clo ps (body_of sp b r) env)" and V = "{?ps, w, ew}"])
      show "heap_ok s1" by (rule ok1)
      have "runs (make_closure ?ps w ew) ?p (\<lambda>v s2. grown ?p s2 \<and> sound s2 v \<and> shape s2 v (Clo ps (body_of sp b r) env) \<and>
          from_words {?ps, w, ew} ?p s2 v)"
        by (rule runs_make_closure) (use ok1 s1 sw w shape_cells [of ?p s1] shape_env_cells [of ?p s1] in simp_all)
      then show "runs (make_closure ?ps w ew) ?p (\<lambda>v s2. yields {?ps, w, ew} ?p v s2 \<and> shape s2 v (Clo ps (body_of sp b r) env))"
        by (rule runs_mono) (simp add: yields_def del: shape.simps)
      show "shape (s2\<lparr>c_stack := c_stack s1\<rparr>) v (Clo ps (body_of sp b r) env)" if "shape s2 v (Clo ps (body_of sp b r) env)" for v s2
        using that shape_cells [of "s2\<lparr>c_stack := c_stack s1\<rparr>" s2 v "Clo ps (body_of sp b r) env"] by (simp del: shape.simps)
      fix v s2 assume v: "yields {?ps, w, ew} s1 v s2" and s2: "shape s2 v (Clo ps (body_of sp b r) env)"
      have "part_of s x s1 ?ps ps" using part_later [OF q(1) i(1)] .
      then have "\<forall>z\<in>{?ps, w, ew}. from_words {x, ew} s s1 z"
        using part_from sw(2) from_intact [OF _ i(2), of "{x, ew}"] by simp
      with yields_trans [OF v gr ok] s2 show "?Q v s2" by blast
    qed
  qed
  note main = this
  show "runs (eval_turn k ev ap x ew) s ?Q"
    by (rule runs_via [where m' = "eval_lambda ?fr ?ar ew"], rule turn_special(3) [OF g sh snd(1) refl],
      unfold eval_lambda_def, rule runs_bndI, unfold q(5), rule runs_bndI, unfold q(6), rule runs_bndI, rule main)
qed

section \<open>Calls\<close>

text \<open>What \<open>eval_call\<close> does once the function and the arguments are evaluated.\<close>

definition enter :: "nat \<Rightarrow> evaluator \<Rightarrow> evaluator \<Rightarrow> i24 list \<Rightarrow> i24 \<Rightarrow> i24 \<Rightarrow> i24 act" where
  "enter k ev ap fr fn evaled =
     (if IS_EXTENDED fn
      then bnd (ext_type fn) (\<lambda>fn_type.
        if fn_type = ETYPE_CLOSURE
        then bnd (closure_params fn) (\<lambda>ps. bnd (closure_body fn) (\<lambda>body. bnd (closure_env fn) (\<lambda>ce.
          bnd (hold (fr @ [fn, evaled, ps, body, ce]) (env_bind ps evaled ce)) (\<lambda>env. ev body env))))
        else if fn_type = ETYPE_PRIMITIVE
        then bnd (ext_data fn) (\<lambda>d.
          hold (fr @ [fn, evaled]) (apply_primitive k ev ap (FIXNUM_VAL d) evaled))
        else bnd (puts_str ''ERR:not-fn\<newline>'') (\<lambda>_. ret NIL_VAL))
      else bnd (puts_str ''ERR:not-fn\<newline>'') (\<lambda>_. ret NIL_VAL))"

definition callable_val :: "sval \<Rightarrow> bool" where
  "callable_val v \<longleftrightarrow> (case v of Clo ps b ce \<Rightarrow> True | Obj t d \<Rightarrow> True | _ \<Rightarrow> False)"

lemma callable_tag: "shape s w v \<Longrightarrow> callable_val v \<Longrightarrow>
    IS_EXTENDED w \<and> cell_of w < HEAP_SIZE \<and> heap_car s (cell_of w) \<noteq> ETYPE_MACRO"
  by (cases v) (auto simp: callable_val_def ETYPE_CLOSURE_def ETYPE_MACRO_def MAKE_FIXNUM_def TAG_FIXNUM_def)

lemma runs_call:
  assumes h: "computes sp G ev env h hv" and hv: "callable_val hv"
    and es: "list_all2 (computes sp G ev env) es us" "length es \<le> k" and g: "prepared sp G s"
    and snd: "sound s x" "sound s ew" and sh: "shape s x (Cell h (mk_list es))" and ew: "shape_env s ew env"
    and enter: "\<And>fn evaled s2. grown s s2 \<Longrightarrow> prepared sp G s2 \<Longrightarrow> shape s2 fn hv \<Longrightarrow> sound s2 fn \<Longrightarrow> from_words {x, ew} s s2 fn \<Longrightarrow>
      shape s2 evaled (mk_list us) \<Longrightarrow> sound s2 evaled \<Longrightarrow> from_words {x, ew} s s2 evaled \<Longrightarrow>
      runs (enter k ev ap [x, ew, heap_car s (cell_of x), heap_cdr s (cell_of x)] fn evaled) s2 Q"
  shows "runs (eval_call k ev ap [x, ew, heap_car s (cell_of x), heap_cdr s (cell_of x)] (heap_car s (cell_of x))
    (heap_cdr s (cell_of x)) ew) s Q"
proof -
  let ?hw = "heap_car s (cell_of x)" and ?ar = "heap_cdr s (cell_of x)"
  let ?fr = "[x, ew, ?hw, ?ar]"
  note ok = prepared_ok [OF g]
  note p = part_parts(1,2) [OF part_now [OF sh snd(1)] ok ok]
  show ?thesis
    unfolding eval_call_def enter_def [symmetric]
  proof (rule runs_bndI, rule runs_held_ev [OF h g part_sound [OF p(1)] snd(2) part_shape [OF p(1)] ew])
    fix fn s1 assume y: "yields {?hw, ew} s fn s1" and kp: "\<forall>z\<in>set ?fr. sound s z \<longrightarrow> intact s s1 z"
      and fn: "shape s1 fn hv" and g1: "prepared sp G s1"
    note ok1 = prepared_ok [OF g1] and tag = callable_tag [OF fn hv]
    have gr: "grown s s1" and sf: "sound s1 fn" using y by (simp_all add: yields_def)
    have i: "intact s s1 ew" "part_of s x s1 ?ar (mk_list es)"
      using kp snd part_sound [OF p(2)] part_later [OF p(2)] by simp_all
    have ew1: "sound s1 ew" "shape_env s1 ew env" using i(1) shape_env_intact [OF i(1) ew] by (simp_all add: intact_def)
    have "\<forall>z\<in>{?hw, ew}. from_words {x, ew} s s z"
      using part_from [OF p(1)] from_intact [OF _ intact_refl [OF snd(2)], of "{x, ew}"] by simp
    then have ff: "from_words {x, ew} s s1 fn" using yields_trans [OF y grown_refl [OF ok] ok] by (simp add: yields_def)
    let ?p = "s1\<lparr>c_stack := (?fr @ [fn]) @ c_stack s1\<rparr>"
    have "runs (hold (?fr @ [fn]) (eval_list k ev ?ar ew)) s1 (\<lambda>evaled s2. runs (bnd (get catch_throwing) (\<lambda>throwing.
        if throwing then ret NIL_VAL else enter k ev ap ?fr fn evaled)) s2 Q)"
    proof (rule runs_held [where P = "\<lambda>v s'. shape s' v (mk_list us)" and V = "{?ar, ew}"])
      show "heap_ok s1" by (rule ok1)
      show "runs (eval_list k ev ?ar ew) ?p (\<lambda>w s2. yields {?ar, ew} ?p w s2 \<and> shape s2 w (mk_list us))"
        by (rule runs_eval_list [OF es(1) _ _ _ _ _ _ _ es(2)])
          (use g1 part_shape [OF i(2)] part_sound [OF i(2)] ew1 shape_cells [of ?p s1] shape_env_cells [of ?p s1] in simp_all)
      show "shape (s2\<lparr>c_stack := c_stack s1\<rparr>) v (mk_list us)" if "shape s2 v (mk_list us)" for v s2
        using that shape_cells [of "s2\<lparr>c_stack := c_stack s1\<rparr>" s2 v "mk_list us"] by simp
      fix evaled s2 assume ye: "yields {?ar, ew} s1 evaled s2" and kp2: "\<forall>z\<in>set (?fr @ [fn]). sound s1 z \<longrightarrow> intact s1 s2 z"
        and she: "shape s2 evaled (mk_list us)"
      have gr2: "grown s1 s2" and se: "sound s2 evaled" using ye by (simp_all add: yields_def)
      have g2: "prepared sp G s2" by (rule prepared_grown [OF g1 gr2])
      have kf: "intact s1 s2 fn" using kp2 sf by simp
      have "\<forall>z\<in>{?ar, ew}. from_words {x, ew} s s1 z"
        using part_from [OF i(2)] from_intact [OF _ i(1), of "{x, ew}"] by simp
      then have "from_words {x, ew} s s2 evaled" using yields_trans [OF ye gr ok] by (simp add: yields_def)
      then have "runs (enter k ev ap ?fr fn evaled) s2 Q"
        using kf by (intro enter [OF grown_trans [OF gr gr2] g2 shape_intact [OF kf fn] _ from_later [OF ff kf] she se]) (simp_all add: intact_def)
      then show "runs (bnd (get catch_throwing) (\<lambda>throwing. if throwing then ret NIL_VAL else enter k ev ap ?fr fn evaled)) s2 Q"
        using throwing_off [OF g2] by simp
    qed
    note main = runs_bndI [OF this]
    show "runs (bnd (get catch_throwing) (\<lambda>throwing. if throwing then ret NIL_VAL
     else bnd (if IS_EXTENDED fn then bnd (ext_type fn) (\<lambda>t. ret (t = ETYPE_MACRO)) else ret False) (\<lambda>macro.
       if macro
       then bnd (closure_params fn) (\<lambda>ps. bnd (closure_env fn) (\<lambda>ce.
         bnd (hold (?fr @ [fn]) (env_bind ps ?ar ce)) (\<lambda>mac_env.
         bnd (closure_body fn) (\<lambda>body. bnd (hold (?fr @ [fn, mac_env]) (ev body mac_env)) (\<lambda>expanded.
         bnd (get catch_throwing) (\<lambda>throwing. if throwing then ret NIL_VAL
         else ev expanded ew))))))
       else bnd (hold (?fr @ [fn]) (eval_list k ev ?ar ew)) (\<lambda>evaled.
         bnd (get catch_throwing) (\<lambda>throwing. if throwing then ret NIL_VAL
         else enter k ev ap ?fr fn evaled))))) s1 Q"
      using throwing_off [OF g1] tag main by (simp add: runs_bnd [of "ext_type fn"] runs_bnd [of "bnd (ext_type fn) _"])
  qed
qed

lemma call_primitive_computes:
  assumes sp: "\<not> is_special sp h" and h: "computes sp G ev env h (Obj ETYPE_PRIMITIVE d)"
    and es: "list_all2 (computes sp G ev env) es us" "length es \<le> k" and v: "prim_result (FIXNUM_VAL d) us = Some v"
  shows "computes sp G (eval_turn k ev ap) env (Cell h (mk_list es)) v"
proof (rule computesI)
  fix s x ew assume g: "prepared sp G s" and snd: "sound s x" "sound s ew" and sh: "shape s x (Cell h (mk_list es))" and ew: "shape_env s ew env"
  let ?Q = "\<lambda>w s'. yields {x, ew} s w s' \<and> shape s' w v" and ?fr = "[x, ew, heap_car s (cell_of x), heap_cdr s (cell_of x)]"
  note ok = prepared_ok [OF g]
  have "runs (eval_call k ev ap ?fr (heap_car s (cell_of x)) (heap_cdr s (cell_of x)) ew) s ?Q"
  proof (rule runs_call [OF h _ es g snd sh ew])
    show "callable_val (Obj ETYPE_PRIMITIVE d)" by (simp add: callable_val_def)
    fix fn evaled s2 assume gr: "grown s s2" and g2: "prepared sp G s2" and fn: "shape s2 fn (Obj ETYPE_PRIMITIVE d)"
      and se: "shape s2 evaled (mk_list us)" "sound s2 evaled" and fe: "from_words {x, ew} s s2 evaled"
    have t: "IS_EXTENDED fn" "cell_of fn < HEAP_SIZE" "heap_car s2 (cell_of fn) = ETYPE_PRIMITIVE" "heap_cdr s2 (cell_of fn) = d"
      "ETYPE_PRIMITIVE \<noteq> ETYPE_CLOSURE" using fn by simp_all
    let ?p = "s2\<lparr>c_stack := (?fr @ [fn, evaled]) @ c_stack s2\<rparr>"
    have "runs (hold (?fr @ [fn, evaled]) (apply_primitive k ev ap (FIXNUM_VAL d) evaled)) s2 ?Q"
    proof (rule runs_held [where P = "\<lambda>w s'. shape s' w v" and V = "{evaled}"])
      show "heap_ok s2" by (rule prepared_ok [OF g2])
      show "runs (apply_primitive k ev ap (FIXNUM_VAL d) evaled) ?p (\<lambda>w s1. yields {evaled} ?p w s1 \<and> shape s1 w v)"
        by (rule runs_apply_primitive [OF v]) (use se prepared_ok [OF g2] shape_cells [of ?p s2] in simp_all)
      show "shape (s1\<lparr>c_stack := c_stack s2\<rparr>) w v" if "shape s1 w v" for w s1
        using that shape_cells [of "s1\<lparr>c_stack := c_stack s2\<rparr>" s1 w v] by simp
      show "?Q w s'" if "yields {evaled} s2 w s'" "shape s' w v" for w s'
        using yields_trans [OF that(1) gr ok] fe that(2) by simp
    qed
    then show "runs (enter k ev ap ?fr fn evaled) s2 ?Q"
      using t by (simp add: enter_def runs_bnd [of "ext_type fn"] runs_bnd [of "ext_data fn"])
  qed
  then show "runs (eval_turn k ev ap x ew) s ?Q"
    by (rule runs_via [rotated]) (rule turn_special(5) [OF g sh snd(1) sp])
qed

lemma call_closure_computes:
  assumes sp: "\<not> is_special sp h" and h: "computes sp G ev env h (Clo ps b ce)"
    and es: "list_all2 (computes sp G ev env) es us" "length es \<le> k" and bs: "binds ps us = Some bs"
    and b: "computes sp G ev (bs @ ce) b v"
  shows "computes sp G (eval_turn k ev ap) env (Cell h (mk_list es)) v"
proof (rule computesI)
  fix s x ew assume g: "prepared sp G s" and snd: "sound s x" "sound s ew" and sh: "shape s x (Cell h (mk_list es))" and ew: "shape_env s ew env"
  let ?Q = "\<lambda>w s'. yields {x, ew} s w s' \<and> shape s' w v" and ?fr = "[x, ew, heap_car s (cell_of x), heap_cdr s (cell_of x)]"
  note ok = prepared_ok [OF g]
  have "runs (eval_call k ev ap ?fr (heap_car s (cell_of x)) (heap_cdr s (cell_of x)) ew) s ?Q"
  proof (rule runs_call [OF h _ es g snd sh ew])
    show "callable_val (Clo ps b ce)" by (simp add: callable_val_def)
    fix fn evaled s2 assume gr: "grown s s2" and g2: "prepared sp G s2" and fn: "shape s2 fn (Clo ps b ce)" and sf: "sound s2 fn"
      and ff: "from_words {x, ew} s s2 fn"
      and se: "shape s2 evaled (mk_list us)" "sound s2 evaled" and fe: "from_words {x, ew} s s2 evaled"
    note ok2 = prepared_ok [OF g2]
    let ?d = "heap_cdr s2 (cell_of fn)" and ?i = "heap_cdr s2 (cell_of (heap_cdr s2 (cell_of fn)))"
    let ?ps = "heap_car s2 (cell_of ?d)" and ?b = "heap_car s2 (cell_of ?i)" and ?ce = "heap_cdr s2 (cell_of ?i)"
    have t: "IS_EXTENDED fn" "cell_of fn < HEAP_SIZE" "heap_car s2 (cell_of fn) = ETYPE_CLOSURE" "IS_CONS ?d" "cell_of ?d < HEAP_SIZE"
      "shape s2 ?ps ps" "IS_CONS ?i" "cell_of ?i < HEAP_SIZE" "shape s2 ?b b" "shape_env s2 ?ce ce" using fn by simp_all
    note q = ext_ptr [OF t(1)] cons_ptr [OF t(4)] cons_ptr [OF t(7)]
    note n1 = sound_part(2) [OF ok2 sf q(1)] and f1 = from_part [OF ff q(1), THEN conjunct2]
    note n2 = sound_part [OF ok2 n1 q(2)] and f2 = from_part [OF f1 q(2)]
    note n3 = sound_part [OF ok2 n2(2) q(3)] and f3 = from_part [OF f2 [THEN conjunct2] q(3)]
    let ?vs = "?fr @ [fn, evaled, ?ps, ?b, ?ce]"
    let ?p = "s2\<lparr>c_stack := ?vs @ c_stack s2\<rparr>"
    have "runs (hold ?vs (env_bind ?ps evaled ?ce)) s2 (\<lambda>e s3. runs (ev ?b e) s3 ?Q)"
    proof (rule runs_held [where P = "\<lambda>e s'. shape_env s' e (bs @ ce)" and V = "{evaled, ?ce}"])
      show "heap_ok s2" by (rule ok2)
      show "runs (env_bind ?ps evaled ?ce) ?p (\<lambda>e s1. yields {evaled, ?ce} ?p e s1 \<and> shape_env s1 e (bs @ ce))"
        by (rule runs_env_bind [OF bs])
          (use g2 ok2 t(6,10) se n2 n3 shape_cells [of ?p s2] shape_env_cells [of ?p s2] in \<open>simp_all add: prepared_def\<close>)
      show "shape_env (s1\<lparr>c_stack := c_stack s2\<rparr>) e (bs @ ce)" if "shape_env s1 e (bs @ ce)" for e s1
        using that shape_env_cells [of "s1\<lparr>c_stack := c_stack s2\<rparr>" s1 e "bs @ ce"] by simp
      fix e s3 assume y: "yields {evaled, ?ce} s2 e s3" and kp: "\<forall>z\<in>set ?vs. sound s2 z \<longrightarrow> intact s2 s3 z" and e: "shape_env s3 e (bs @ ce)"
      have gr3: "grown s2 s3" and sne: "sound s3 e" using y by (simp_all add: yields_def)
      have gs: "grown s s3" by (rule grown_trans [OF gr gr3])
      have kb: "intact s2 s3 ?b" using kp n3(1) by simp
      have "from_words {x, ew} s s3 e" using yields_trans [OF y gr ok] fe f3 by (simp add: yields_def)
      moreover have "from_words {x, ew} s s3 ?b" using f3 from_later kb by blast
      moreover have "runs (ev ?b e) s3 (\<lambda>w s'. yields {?b, e} s3 w s' \<and> shape s' w v)"
        using b prepared_grown [OF g2 gr3] kb shape_intact [OF kb t(9)] sne e unfolding computes_def by (simp add: intact_def)
      ultimately show "runs (ev ?b e) s3 ?Q"
        by (elim runs_mono) (use yields_trans [OF _ gs ok] in blast)
    qed
    note main = runs_bndI [OF this]
    have c: "closure_params fn s2 = Done ?ps s2" "closure_body fn s2 = Done ?b s2" "closure_env fn s2 = Done ?ce s2"
      "ext_type fn s2 = Done ETYPE_CLOSURE s2"
      using t(2,3,5,8) by (simp_all add: closure_params_def closure_body_def closure_env_def ext_type_def ext_data_def
          peek_cdr_def peek_car_def bnd_step car_eq cdr_eq cell_of_def)
    show "runs (enter k ev ap ?fr fn evaled) s2 ?Q"
      using t(1) main by (simp add: enter_def runs_def bnd_step(1) c)
  qed
  then show "runs (eval_turn k ev ap x ew) s ?Q"
    by (rule runs_via [rotated]) (rule turn_special(5) [OF g sh snd(1) sp])
qed

section \<open>The evaluator\<close>

lemma all_forms:
  assumes "\<forall>n\<ge>M. computes sp G (eval n) env e v" and "length es \<le> N" and "\<forall>n\<ge>N. list_all2 (computes sp G (eval n) env) es vs"
  shows "\<exists>N'. length (e # es) \<le> N' \<and> (\<forall>n\<ge>N'. list_all2 (computes sp G (eval n) env) (e # es) (v # vs))"
  using assms by (intro exI [of _ "max M (Suc N)"]) auto

lemma eval_later: "\<forall>n\<ge>N. computes sp G (eval_turn n (eval n) (apply_fn n)) env e v \<Longrightarrow> \<exists>N. \<forall>n\<ge>N. computes sp G (eval n) env e v"
proof (intro exI [of _ "Suc N"] allI impI)
  fix n assume "\<forall>n\<ge>N. computes sp G (eval_turn n (eval n) (apply_fn n)) env e v" "Suc N \<le> n"
  then show "computes sp G (eval n) env e v" by (cases n) auto
qed

lemma evaluates_computes:
  "evaluates sp G env e v \<Longrightarrow> \<exists>N. \<forall>n\<ge>N. computes sp G (eval n) env e v"
  "evaluates_all sp G env a vs \<Longrightarrow> \<exists>es N. a = mk_list es \<and> length es \<le> N \<and> (\<forall>n\<ge>N. list_all2 (computes sp G (eval n) env) es vs)"
  "evaluates_seq sp G env a v \<Longrightarrow> \<exists>es us N. a = mk_list es \<and> es \<noteq> [] \<and> v = last us \<and> length es \<le> N \<and>
    (\<forall>n\<ge>N. list_all2 (computes sp G (eval n) env) es us)"
proof (induction rule: evaluates_evaluates_all_evaluates_seq.inducts)
  case (literal x env)
  then have "computes sp G (eval_turn n (eval n) (apply_fn n)) env (Atom x) (Atom x)" for n
    by (intro self_computes) (auto simp: IS_NIL_def)
  then show ?case by (intro eval_later) blast
next
  case (object env t d)
  have "computes sp G (eval_turn n (eval n) (apply_fn n)) env (Obj t d) (Obj t d)" for n
    by (intro self_computes) simp
  then show ?case by (intro eval_later) blast
next
  case (closure env ps b ce)
  have "computes sp G (eval_turn n (eval n) (apply_fn n)) env (Clo ps b ce) (Clo ps b ce)" for n
    by (intro self_computes) simp
  then show ?case by (intro eval_later) blast
next
  case (variable x env v)
  then show ?case by (intro eval_later allI impI variable_computes)
next
  case (quote env d r)
  show ?case by (intro eval_later allI impI quote_computes)
next
  case (if_true env c u t v r)
  then obtain M N where "\<forall>n\<ge>M. computes sp G (eval n) env c u" "\<forall>n\<ge>N. computes sp G (eval n) env t v" by blast
  with if_true.hyps have "\<forall>n\<ge>max M N. computes sp G (eval_turn n (eval n) (apply_fn n)) env (Cell (Atom (sp If)) (Cell c (Cell t r))) v"
    by (intro allI impI if_computes [where u = u]) auto
  then show ?case by (rule eval_later)
next
  case (if_false env c e v t r)
  then obtain M N where "\<forall>n\<ge>M. computes sp G (eval n) env c (Atom NIL_VAL)" "\<forall>n\<ge>N. computes sp G (eval n) env e v" by blast
  then have "\<forall>n\<ge>max M N. computes sp G (eval_turn n (eval n) (apply_fn n)) env (Cell (Atom (sp If)) (Cell c (Cell t (Cell e r)))) v"
    by (intro allI impI if_computes [where u = "Atom NIL_VAL"]) auto
  then show ?case by (rule eval_later)
next
  case (if_none env c t)
  then obtain M where "\<forall>n\<ge>M. computes sp G (eval n) env c (Atom NIL_VAL)" by blast
  then have "\<forall>n\<ge>M. computes sp G (eval_turn n (eval n) (apply_fn n)) env (Cell (Atom (sp If)) (Cell c (Cell t (Atom NIL_VAL)))) (Atom NIL_VAL)"
    by (intro allI impI if_computes [where u = "Atom NIL_VAL"]) auto
  then show ?case by (rule eval_later)
next
  case (begin_none env)
  show ?case by (intro eval_later allI impI begin_none_computes)
next
  case (begin_some env e r v)
  then obtain es us N where a: "Cell e r = mk_list es" "es \<noteq> []" "v = last us" "length es \<le> N"
    "\<forall>n\<ge>N. list_all2 (computes sp G (eval n) env) es us" by blast
  then have "\<forall>n\<ge>N. computes sp G (eval_turn n (eval n) (apply_fn n)) env (Cell (Atom (sp Begin)) (Cell e r)) v"
    unfolding a(1,3) by (intro allI impI begin_computes) auto
  then show ?case by (rule eval_later)
next
  case (lambda env ps b r)
  show ?case by (intro eval_later allI impI lambda_computes)
next
  case (call_closure h env ps b ce args vs bs v)
  then obtain M es N L where a: "\<forall>n\<ge>M. computes sp G (eval n) env h (Clo ps b ce)" "args = mk_list es" "length es \<le> N"
    "\<forall>n\<ge>N. list_all2 (computes sp G (eval n) env) es vs" "\<forall>n\<ge>L. computes sp G (eval n) (bs @ ce) b v" by blast
  have "\<forall>n\<ge>max M (max N L). computes sp G (eval_turn n (eval n) (apply_fn n)) env (Cell h args) v"
    unfolding a(2) using a call_closure(1) call_closure.hyps by (intro allI impI call_closure_computes [of sp h G _ env ps b ce es vs _ bs]) auto
  then show ?case by (rule eval_later)
next
  case (call_primitive h env d args vs v)
  then obtain M es N where a: "\<forall>n\<ge>M. computes sp G (eval n) env h (Obj ETYPE_PRIMITIVE d)" "args = mk_list es" "length es \<le> N"
    "\<forall>n\<ge>N. list_all2 (computes sp G (eval n) env) es vs" by blast
  have "\<forall>n\<ge>max M N. computes sp G (eval_turn n (eval n) (apply_fn n)) env (Cell h args) v"
    unfolding a(2) using a call_primitive(1) call_primitive.hyps by (intro allI impI call_primitive_computes [of sp h G _ env d es vs]) auto
  then show ?case by (rule eval_later)
next
  case (all_none env)
  show ?case by (intro exI [of _ "[]"] exI [of _ 0]) simp
next
  case (all_some env e v r vs)
  then obtain M es N where "\<forall>n\<ge>M. computes sp G (eval n) env e v" "r = mk_list es" "length es \<le> N"
    "\<forall>n\<ge>N. list_all2 (computes sp G (eval n) env) es vs" by blast
  with all_forms [of M sp G env e v es N vs] show ?case by (metis mk_list_simps(2))
next
  case (seq_last env e v)
  then obtain M where "\<forall>n\<ge>M. computes sp G (eval n) env e v" by blast
  then show ?case
    by (intro exI [of _ "[e]"] exI [of _ "[v]"] exI [of _ "Suc M"]) auto
next
  case (seq_more env e u f r v)
  then obtain M es us N where a: "\<forall>n\<ge>M. computes sp G (eval n) env e u" "Cell f r = mk_list es" "es \<noteq> []" "v = last us" "length es \<le> N"
    "\<forall>n\<ge>N. list_all2 (computes sp G (eval n) env) es us" by blast
  with all_forms [of M sp G env e u es N us] obtain L where "length (e # es) \<le> L"
    "\<forall>n\<ge>L. list_all2 (computes sp G (eval n) env) (e # es) (u # us)" by blast
  moreover have "us \<noteq> []" using a(3,6) by auto
  ultimately show ?case
    using a by (intro exI [of _ "e # es"] exI [of _ "u # us"] exI [of _ L]) simp
qed

text \<open>C3: The evaluator computes what the language semantics says: for a form that has a value there is a
  depth of nested calls from which on, in every state whose words of special forms and global
  environment are the given ones, \<open>eval\<close> returns a word that denotes the value, with nothing printed
  and every live cell as before, whatever collections happen on the way; or it halts after a panic, for want of memory.\<close>

theorem eval_refines_semantics:
  assumes "evaluates sp G env e v"
  shows "\<exists>N. \<forall>n\<ge>N. \<forall>s x ew. prepared sp G s \<and> sound s x \<and> sound s ew \<and> shape s x e \<and> shape_env s ew env \<longrightarrow>
    (\<exists>w s'. eval n x ew s = Done w s' \<and> shape s' w v \<and> prepared sp G s' \<and> sound s' w \<and>
       same_cells s s' (live s) \<and> uart_out s' = uart_out s) \<or>
    (\<exists>s'. eval n x ew s = Halted s' \<and> panicked s')"
proof -
  from evaluates_computes(1) [OF assms] obtain N where N: "\<And>n. n \<ge> N \<Longrightarrow> computes sp G (eval n) env e v" by blast
  show ?thesis
  proof (intro exI [of _ N] allI impI, elim conjE)
    fix n s x ew assume "N \<le> n" and g: "prepared sp G s" and "sound s x" "sound s ew" "shape s x e" "shape_env s ew env"
    with N have "runs (eval n x ew) s (\<lambda>w s'. yields {x, ew} s w s' \<and> shape s' w v)" unfolding computes_def by blast
    then show "(\<exists>w s'. eval n x ew s = Done w s' \<and> shape s' w v \<and> prepared sp G s' \<and> sound s' w \<and>
       same_cells s s' (live s) \<and> uart_out s' = uart_out s) \<or> (\<exists>s'. eval n x ew s = Halted s' \<and> panicked s')"
      using prepared_grown [OF g] heap_only_fields [of s]
      by (auto simp: runs_def yields_def grown_def extends_def same_cells_def split: outcome.splits)
  qed
qed

text \<open>The program \<open>((lambda (n) (* n n)) 7)\<close> in a heap that holds it and an environment with \<open>*\<close>.\<close>

fun demo_words :: "special \<Rightarrow> i24" where
  "demo_words Quote = MAKE_SYMBOL 2" | "demo_words If = MAKE_SYMBOL 3" | "demo_words Define = MAKE_SYMBOL 4"
| "demo_words Lambda = MAKE_SYMBOL 5" | "demo_words Defmacro = MAKE_SYMBOL 6" | "demo_words Begin = MAKE_SYMBOL 7"
| "demo_words Quasiquote = MAKE_SYMBOL 8" | "demo_words Unquote = MAKE_SYMBOL 9"
| "demo_words Unquote_splicing = MAKE_SYMBOL 10" | "demo_words Set = MAKE_SYMBOL 11" | "demo_words Catch = MAKE_SYMBOL 12"
| "demo_words Asm = MAKE_SYMBOL 13"

abbreviation (input) star :: i24 where "star \<equiv> MAKE_SYMBOL 21"
abbreviation (input) nvar :: i24 where "nvar \<equiv> MAKE_SYMBOL 20"

definition square_heap :: lisp where
  "square_heap = zeroed\<lparr>special_sym := demo_words, global_env := MAKE_CONS 0, free_list := -1, heap_next := 12,
     heap_car := (\<lambda>_. NIL_VAL)(0 := MAKE_CONS 1, 1 := star, 2 := ETYPE_PRIMITIVE, 3 := MAKE_CONS 4,
       4 := demo_words Lambda, 5 := MAKE_CONS 6, 6 := nvar, 7 := MAKE_CONS 8, 8 := star, 9 := nvar, 10 := nvar,
       11 := MAKE_FIXNUM 7),
     heap_cdr := (\<lambda>_. NIL_VAL)(1 := MAKE_EXTENDED 2, 2 := MAKE_FIXNUM PRIM_MUL, 3 := MAKE_CONS 11, 4 := MAKE_CONS 5,
       5 := MAKE_CONS 7, 8 := MAKE_CONS 9, 9 := MAKE_CONS 10)\<rparr>"

definition square_globals :: senv where
  "square_globals = [(star, Obj ETYPE_PRIMITIVE (MAKE_FIXNUM PRIM_MUL))]"

definition square_program :: sval where
  "square_program = Cell (Cell (Atom (demo_words Lambda)) (Cell (Cell (Atom nvar) (Atom NIL_VAL))
     (Cell (Cell (Atom star) (Cell (Atom nvar) (Cell (Atom nvar) (Atom NIL_VAL)))) (Atom NIL_VAL))))
     (Cell (Atom (MAKE_FIXNUM 7)) (Atom NIL_VAL))"

lemma demo_cells:
  "cell_of (MAKE_CONS 0) = 0" "cell_of (MAKE_CONS 1) = 1" "cell_of (MAKE_EXTENDED 2) = 2" "cell_of (MAKE_CONS 3) = 3"
  "cell_of (MAKE_CONS 4) = 4" "cell_of (MAKE_CONS 5) = 5" "cell_of (MAKE_CONS 6) = 6" "cell_of (MAKE_CONS 7) = 7"
  "cell_of (MAKE_CONS 8) = 8" "cell_of (MAKE_CONS 9) = 9" "cell_of (MAKE_CONS 10) = 10" "cell_of (MAKE_CONS 11) = 11"
  using cell_of_make(1) [of 0] cell_of_make(1) [of 1] cell_of_make(3) [of 2] cell_of_make(1) [of 3] cell_of_make(1) [of 4]
    cell_of_make(1) [of 5] cell_of_make(1) [of 6] cell_of_make(1) [of 7] cell_of_make(1) [of 8] cell_of_make(1) [of 9]
    cell_of_make(1) [of 10] cell_of_make(1) [of 11] by simp_all

lemma square_symbols: "inj demo_words" "IS_SYMBOL (demo_words f)" "\<not> IS_PTR (demo_words f)" "\<not> IS_PTR (MAKE_SYMBOL k)"
proof -
  show "inj demo_words"
  proof (rule injI)
    fix f g assume "demo_words f = demo_words g"
    then show "f = g" by (cases f; cases g) (simp_all add: make_defs)
  qed
  show s: "IS_SYMBOL (demo_words f)" by (cases f) simp_all
  show "\<not> IS_PTR (demo_words f)" "\<not> IS_PTR (MAKE_SYMBOL k)"
    using tag_exclusive(2) [OF s] by (simp_all add: IS_PTR_def)
qed

lemma square_used: "used square_heap = {..<12}"
proof -
  have "free_ok square_heap []" by (simp add: free_ok_def square_heap_def zeroed_def)
  then show ?thesis by (simp add: used_free) (simp add: square_heap_def zeroed_def count_to_def)
qed

lemma square_ok: "heap_ok square_heap"
proof -
  have "free_ok square_heap []" by (simp add: free_ok_def square_heap_def zeroed_def)
  moreover have "sound square_heap (heap_car square_heap i) \<and> sound square_heap (heap_cdr square_heap i)" for i
    unfolding sound_def square_used
    by (simp add: square_heap_def demo_cells square_symbols ETYPE_PRIMITIVE_def)
  moreover have "sound square_heap (MAKE_CONS 0)" by (simp add: sound_def square_used demo_cells)
  ultimately show ?thesis
    unfolding heap_ok_def by (auto simp: square_heap_def zeroed_def counts_ok_def own_roots_def count_to_def HEAP_SIZE_def)
qed

lemma square_cells:
  "heap_car square_heap 0 = MAKE_CONS 1" "heap_cdr square_heap 0 = NIL_VAL" "heap_car square_heap 1 = star"
  "heap_cdr square_heap 1 = MAKE_EXTENDED 2" "heap_car square_heap 2 = ETYPE_PRIMITIVE" "heap_cdr square_heap 2 = MAKE_FIXNUM PRIM_MUL"
  "heap_car square_heap 3 = MAKE_CONS 4" "heap_cdr square_heap 3 = MAKE_CONS 11" "heap_car square_heap 4 = demo_words Lambda"
  "heap_cdr square_heap 4 = MAKE_CONS 5" "heap_car square_heap 5 = MAKE_CONS 6" "heap_cdr square_heap 5 = MAKE_CONS 7"
  "heap_car square_heap 6 = nvar" "heap_cdr square_heap 6 = NIL_VAL" "heap_car square_heap 7 = MAKE_CONS 8"
  "heap_cdr square_heap 7 = NIL_VAL" "heap_car square_heap 8 = star" "heap_cdr square_heap 8 = MAKE_CONS 9"
  "heap_car square_heap 9 = nvar" "heap_cdr square_heap 9 = MAKE_CONS 10" "heap_car square_heap 10 = nvar"
  "heap_cdr square_heap 10 = NIL_VAL" "heap_car square_heap 11 = MAKE_FIXNUM 7" "heap_cdr square_heap 11 = NIL_VAL"
  by (simp_all add: square_heap_def)

lemma etype_primitive: "\<not> IS_PTR ETYPE_PRIMITIVE" "ETYPE_PRIMITIVE \<noteq> ETYPE_CLOSURE" "ETYPE_PRIMITIVE \<noteq> ETYPE_MACRO"
  by (simp_all add: ETYPE_PRIMITIVE_def, simp_all add: ETYPE_CLOSURE_def ETYPE_MACRO_def make_defs)

lemma square_shapes:
  "shape square_heap (MAKE_CONS 3) square_program" "shape_env square_heap (MAKE_CONS 0) square_globals"
  unfolding square_program_def square_globals_def
  by (simp_all add: square_cells square_cells(3,4) [unfolded One_nat_def] demo_cells square_symbols etype_primitive HEAP_SIZE_def del: demo_words.simps)

lemma square_prepared: "prepared demo_words square_globals square_heap"
  using square_ok square_shapes(2) square_symbols
  by (simp add: prepared_def) (simp add: square_heap_def zeroed_def)

lemma square_value: "evaluates demo_words square_globals [] square_program (number_val 49)"
proof -
  let ?n = "Atom (MAKE_FIXNUM 7)" and ?bs = "[(NIL_VAL, Atom NIL_VAL), (nvar, Atom (MAKE_FIXNUM 7))]"
  let ?body = "Cell (Atom star) (Cell (Atom nvar) (Cell (Atom nvar) (Atom NIL_VAL)))"
  have d: "star \<noteq> NIL_VAL" "star \<noteq> T_VAL" "star \<noteq> nvar" "nvar \<noteq> NIL_VAL" "nvar \<noteq> T_VAL" "\<not> is_special demo_words (Atom star)"
    by (simp_all add: NIL_VAL_def T_VAL_def is_special_def special_forms_def make_defs)
  have n: "evaluates demo_words square_globals ?bs (Atom nvar) ?n"
    by (rule evaluates_evaluates_all_evaluates_seq.variable) (use d in simp_all)
  have "evaluates demo_words square_globals ?bs (Atom star) (Obj ETYPE_PRIMITIVE (MAKE_FIXNUM PRIM_MUL))"
    by (rule evaluates_evaluates_all_evaluates_seq.variable) (use d in \<open>simp_all add: square_globals_def\<close>)
  moreover have "prim_result (FIXNUM_VAL (MAKE_FIXNUM PRIM_MUL)) [?n, ?n] = Some (number_val 49)"
    using fixnum_round_trip [of 7] fixnum_round_trip [of 2] by (simp add: prim_result_def)
  ultimately have body: "evaluates demo_words square_globals (?bs @ []) ?body (number_val 49)"
    using d(6) n by (auto intro: evaluates_evaluates_all_evaluates_seq.intros)
  have f: "evaluates demo_words square_globals [] (Cell (Atom (demo_words Lambda)) (Cell (Cell (Atom nvar) (Atom NIL_VAL))
     (Cell ?body (Atom NIL_VAL)))) (Clo (Cell (Atom nvar) (Atom NIL_VAL)) ?body [])"
    using evaluates_evaluates_all_evaluates_seq.lambda [of demo_words square_globals "[]" "Cell (Atom nvar) (Atom NIL_VAL)" ?body "Atom NIL_VAL"]
    by (simp add: body_of_def del: demo_words.simps)
  have a: "evaluates_all demo_words square_globals [] (Cell ?n (Atom NIL_VAL)) [?n]"
    by (intro evaluates_evaluates_all_evaluates_seq.intros) simp
  show ?thesis
    unfolding square_program_def
    by (rule evaluates_evaluates_all_evaluates_seq.call_closure [OF _ f a _ body]) (auto simp: is_special_def)
qed

lemma eval_refines_semantics_witness:
  "\<exists>N. \<forall>n\<ge>N. (\<exists>s'. eval n (MAKE_CONS 3) NIL_VAL square_heap = Done (MAKE_FIXNUM 49) s' \<and> uart_out s' = []) \<or>
    (\<exists>s'. eval n (MAKE_CONS 3) NIL_VAL square_heap = Halted s' \<and> panicked s')"
proof -
  have "sound square_heap (MAKE_CONS 3)" "sound square_heap NIL_VAL" "uart_out square_heap = []"
    by (simp_all add: sound_def square_used demo_cells) (simp add: square_heap_def zeroed_def)
  moreover from eval_refines_semantics [OF square_value] obtain N where "\<forall>n\<ge>N. \<forall>s x ew.
      prepared demo_words square_globals s \<and> sound s x \<and> sound s ew \<and> shape s x square_program \<and> shape_env s ew [] \<longrightarrow>
      (\<exists>w s'. eval n x ew s = Done w s' \<and> shape s' w (number_val 49) \<and> prepared demo_words square_globals s' \<and> sound s' w \<and>
        same_cells s s' (live s) \<and> uart_out s' = uart_out s) \<or>
      (\<exists>s'. eval n x ew s = Halted s' \<and> panicked s')" by blast
  ultimately have "(\<exists>s'. eval n (MAKE_CONS 3) NIL_VAL square_heap = Done (MAKE_FIXNUM 49) s' \<and> uart_out s' = []) \<or>
    (\<exists>s'. eval n (MAKE_CONS 3) NIL_VAL square_heap = Halted s' \<and> panicked s')" if "N \<le> n" for n
    using square_prepared square_shapes(1) that by (metis shape_env.simps(1) shape_number)
  then show ?thesis by blast
qed

end
