(* ===== verification/Te2_Port.thy ===== *)
theory Te2_Port
  imports Te2_Host "HOL-Library.Sublist"
begin

text \<open>
  The system calls of \<open>te/te2/te2.c\<close>: the paced output to the serial line, the reader process, the
  terminal mode and the choice of the device.  The operating system is the lists of the answers it
  will give, to the clock, the modem status, \<open>poll\<close>, \<open>write\<close> and \<open>read\<close>; a call whose answers have
  run out does not return (\<open>Stuck\<close>), and an error the program reports ends it (\<open>Died\<close>).  \<open>trace\<close>
  records the CTS readings that let a byte through and the bytes the driver has taken.  \<open>write\<close>
  takes at most what it is given.
\<close>

section \<open>The operating system\<close>

datatype polled = Ready | Not_ready | Poll_interrupted | Poll_failed
datatype wrote = Wrote nat | W_interrupted | W_again | W_failed
datatype got = Got string | R_interrupted | R_again | R_failed

text \<open>\<open>poll\<close> of the terminal mode: whether the pipe and the keyboard have input.\<close>

datatype polled_both = Both bool bool | Both_interrupted | Both_failed

datatype pace = Cts_seen | Byte_out char

record os =
  clock :: "int list"
  modem :: "bool option list"
  polls :: "polled list"
  both_polls :: "polled_both list"
  wrs :: "wrote list"
  rds :: "got list"
  bootstrap_deadline :: int
  line_out :: string
  term_out :: string
  pipe_out :: string
  trace :: "pace list"

datatype 'a sys = Done 'a os | Died string os | Stuck os

type_synonym 'a call = "os \<Rightarrow> 'a sys"

definition sret :: "'a \<Rightarrow> 'a call" where "sret a s = Done a s"

definition sbnd :: "'a call \<Rightarrow> ('a \<Rightarrow> 'b call) \<Rightarrow> 'b call" where
  "sbnd m k s = (case m s of Done a s' \<Rightarrow> k a s' | Died e s' \<Rightarrow> Died e s' | Stuck s' \<Rightarrow> Stuck s')"

definition syserr :: "string \<Rightarrow> 'a call" where "syserr e s = Died e s"

text \<open>The next answers.\<close>

definition now_ms :: "int call" where
  "now_ms s = (case clock s of [] \<Rightarrow> Stuck s | t # ts \<Rightarrow> Done t (s\<lparr>clock := ts\<rparr>))"

definition poll :: "polled call" where
  "poll s = (case polls s of [] \<Rightarrow> Stuck s | p # ps \<Rightarrow> Done p (s\<lparr>polls := ps\<rparr>))"

definition poll_both :: "polled_both call" where
  "poll_both s = (case both_polls s of [] \<Rightarrow> Stuck s | p # ps \<Rightarrow> Done p (s\<lparr>both_polls := ps\<rparr>))"

definition modem_status :: "bool option call" where
  "modem_status s = (case modem s of [] \<Rightarrow> Stuck s | b # bs \<Rightarrow> Done b (s\<lparr>modem := bs\<rparr>))"

definition write_answer :: "wrote call" where
  "write_answer s = (case wrs s of [] \<Rightarrow> Stuck s | w # ws \<Rightarrow> Done w (s\<lparr>wrs := ws\<rparr>))"

definition read_answer :: "got call" where
  "read_answer s = (case rds s of [] \<Rightarrow> Stuck s | r # rs \<Rightarrow> Done r (s\<lparr>rds := rs\<rparr>))"

section \<open>Paced output\<close>

text \<open>The loops use up an answer in every turn: the number of answers is fuel enough.\<close>

definition set_deadline :: "int \<Rightarrow> int call" where
  "set_deadline timeout = sbnd now_ms (\<lambda>t s. let deadline = t + timeout in
     Done (if bootstrap_deadline s \<noteq> 0 \<and> deadline > bootstrap_deadline s then bootstrap_deadline s else deadline) s)"

fun cts_loop :: "nat \<Rightarrow> int \<Rightarrow> bool call" where
  "cts_loop 0 deadline = Stuck"
| "cts_loop (Suc k) deadline = sbnd now_ms (\<lambda>t. if t < deadline
     then sbnd modem_status (\<lambda>m. case m of None \<Rightarrow> syserr ''TIOCMGET''
       | Some b \<Rightarrow> if b then (\<lambda>s. Done True (s\<lparr>trace := trace s @ [Cts_seen]\<rparr>)) else cts_loop k deadline)
     else sret False)"

definition wait_for_cts :: "int \<Rightarrow> bool call" where
  "wait_for_cts timeout_ms = sbnd (set_deadline timeout_ms) (\<lambda>deadline s. cts_loop (Suc (length (clock s))) deadline s)"

fun byte_loop :: "nat \<Rightarrow> char \<Rightarrow> int \<Rightarrow> bool call" where
  "byte_loop 0 byte deadline = Stuck"
| "byte_loop (Suc k) byte deadline = sbnd now_ms (\<lambda>t. if t < deadline
     then sbnd now_ms (\<lambda>_. sbnd poll (\<lambda>p. case p of
         Poll_interrupted \<Rightarrow> byte_loop k byte deadline
       | Poll_failed \<Rightarrow> syserr ''poll bootstrap write''
       | Not_ready \<Rightarrow> sret False
       | Ready \<Rightarrow> sbnd write_answer (\<lambda>w. case w of
           Wrote n \<Rightarrow> if min n 1 = 1
             then (\<lambda>s. Done True (s\<lparr>line_out := line_out s @ [byte], trace := trace s @ [Byte_out byte]\<rparr>))
             else byte_loop k byte deadline
         | W_failed \<Rightarrow> syserr ''bootstrap write''
         | _ \<Rightarrow> byte_loop k byte deadline)))
     else sret False)"

definition write_serial_byte :: "char \<Rightarrow> int \<Rightarrow> bool call" where
  "write_serial_byte byte timeout_ms = sbnd (set_deadline timeout_ms) (\<lambda>deadline s.
     byte_loop (Suc (length (clock s))) byte deadline s)"

fun send_flow_text_os :: "string \<Rightarrow> int \<Rightarrow> bool call" where
  "send_flow_text_os [] timeout_ms = sret True"
| "send_flow_text_os (c # cs) timeout_ms = sbnd (wait_for_cts timeout_ms) (\<lambda>ok. if \<not> ok then sret False
     else sbnd (write_serial_byte c timeout_ms) (\<lambda>ok. if \<not> ok then sret False
     else send_flow_text_os cs timeout_ms))"

section \<open>Input and the terminal\<close>

fun drain_loop :: "nat \<Rightarrow> unit call" where
  "drain_loop 0 = Stuck"
| "drain_loop (Suc k) = sbnd poll (\<lambda>p. case p of Poll_interrupted \<Rightarrow> drain_loop k
     | Ready \<Rightarrow> sbnd read_answer (\<lambda>r. if r = R_failed then syserr ''drain bootstrap input'' else drain_loop k)
     | _ \<Rightarrow> sret ())"

definition drain_until_quiet :: "unit call" where
  "drain_until_quiet s = drain_loop (Suc (length (polls s))) s"

text \<open>\<open>write_all\<close> to the file that \<open>out\<close> appends to.\<close>

fun write_all_loop :: "nat \<Rightarrow> (string \<Rightarrow> os \<Rightarrow> os) \<Rightarrow> string \<Rightarrow> unit call" where
  "write_all_loop 0 out buffer = Stuck"
| "write_all_loop (Suc k) out buffer = (if buffer \<noteq> []
     then sbnd write_answer (\<lambda>w. case w of
         Wrote n \<Rightarrow> if min n (length buffer) > 0
           then (\<lambda>s. write_all_loop k out (drop n buffer) (out (take n buffer) s))
           else syserr ''serial write''
       | W_interrupted \<Rightarrow> write_all_loop k out buffer
       | W_again \<Rightarrow> sbnd poll (\<lambda>p. if p = Ready \<or> p = Poll_interrupted then write_all_loop k out buffer
           else syserr ''serial write timeout'')
       | W_failed \<Rightarrow> syserr ''serial write'')
     else sret ())"

definition write_all :: "(string \<Rightarrow> os \<Rightarrow> os) \<Rightarrow> string \<Rightarrow> unit call" where
  "write_all out buffer s = write_all_loop (Suc (length (wrs s))) out buffer s"

definition to_serial :: "string \<Rightarrow> os \<Rightarrow> os" where "to_serial t s = s\<lparr>line_out := line_out s @ t\<rparr>"
definition to_stdout :: "string \<Rightarrow> os \<Rightarrow> os" where "to_stdout t s = s\<lparr>term_out := term_out s @ t\<rparr>"
definition to_pipe :: "string \<Rightarrow> os \<Rightarrow> os" where "to_pipe t s = s\<lparr>pipe_out := pipe_out s @ t\<rparr>"

text \<open>The reader process: the loop that copies a block to the pipe, and a turn.\<close>

fun pipe_loop :: "nat \<Rightarrow> string \<Rightarrow> unit call" where
  "pipe_loop 0 rest = Stuck"
| "pipe_loop (Suc k) rest = (if rest \<noteq> []
     then sbnd write_answer (\<lambda>w. case w of
         Wrote n \<Rightarrow> if min n (length rest) > 0 then (\<lambda>s. pipe_loop k (drop n rest) (to_pipe (take n rest) s))
           else syserr ''''
       | W_interrupted \<Rightarrow> pipe_loop k rest
       | _ \<Rightarrow> syserr '''')
     else sret ())"

definition reader_turn :: "unit call" where
  "reader_turn = sbnd poll (\<lambda>p. case p of Poll_failed \<Rightarrow> syserr ''''
     | Ready \<Rightarrow> sbnd read_answer (\<lambda>r. case r of
         Got t \<Rightarrow> (\<lambda>s. pipe_loop (Suc (length (wrs s))) t s) | _ \<Rightarrow> sret ())
     | _ \<Rightarrow> sret ())"

fun reader :: "nat \<Rightarrow> unit call" where
  "reader 0 = sret ()"
| "reader (Suc n) = sbnd reader_turn (\<lambda>_. reader n)"

text \<open>A turn of the terminal mode.\<close>

definition copy_block :: "(string \<Rightarrow> os \<Rightarrow> os) \<Rightarrow> bool \<Rightarrow> unit call" where
  "copy_block out ready = (if ready then sbnd read_answer (\<lambda>r. case r of Got t \<Rightarrow> write_all out t | _ \<Rightarrow> sret ())
     else sret ())"

definition terminal_turn :: "unit call" where
  "terminal_turn = sbnd poll_both (\<lambda>p. case p of Both_interrupted \<Rightarrow> sret () | Both_failed \<Rightarrow> syserr ''terminal poll''
     | Both pipe keyboard \<Rightarrow> sbnd (copy_block to_stdout pipe) (\<lambda>_. copy_block to_serial keyboard))"

section \<open>The device\<close>

definition open_serial :: "(string \<Rightarrow> bool) \<Rightarrow> string option \<Rightarrow> string option" where
  "open_serial can_open requested = (case requested of
     Some d \<Rightarrow> if can_open d then Some d else None
   | None \<Rightarrow> find can_open [''/dev/ttyUSB0'', ''/dev/ttyUSB1''])"

section \<open>What is written\<close>

fun bytes_out :: "pace list \<Rightarrow> string" where
  "bytes_out [] = []"
| "bytes_out (Cts_seen # es) = bytes_out es"
| "bytes_out (Byte_out c # es) = c # bytes_out es"

lemma bytes_out_append [simp]: "bytes_out (a @ b) = bytes_out a @ bytes_out b"
  by (induction a rule: bytes_out.induct) simp_all

text \<open>The result of a call, or \<open>None\<close> if it did not return, and what it added to the trace.\<close>

definition does :: "('a option \<Rightarrow> pace list \<Rightarrow> bool) \<Rightarrow> 'a call \<Rightarrow> bool" where
  "does Q m \<longleftrightarrow> (\<forall>s. \<exists>new. case m s of
     Done a s' \<Rightarrow> trace s' = trace s @ new \<and> line_out s' = line_out s @ bytes_out new \<and> Q (Some a) new
   | Died e s' \<Rightarrow> trace s' = trace s @ new \<and> line_out s' = line_out s @ bytes_out new \<and> Q None new
   | Stuck s' \<Rightarrow> trace s' = trace s @ new \<and> line_out s' = line_out s @ bytes_out new \<and> Q None new)"

lemma does_sbnd:
  assumes "does P m" and "\<And>a. does (R a) (k a)"
    and "\<And>new. P None new \<Longrightarrow> Q None new" and "\<And>a new more r. P (Some a) new \<Longrightarrow> R a r more \<Longrightarrow> Q r (new @ more)"
  shows "does Q (sbnd m k)"
  unfolding does_def
proof
  fix s
  show "\<exists>new. case sbnd m k s of
     Done a s' \<Rightarrow> trace s' = trace s @ new \<and> line_out s' = line_out s @ bytes_out new \<and> Q (Some a) new
   | Died e s' \<Rightarrow> trace s' = trace s @ new \<and> line_out s' = line_out s @ bytes_out new \<and> Q None new
   | Stuck s' \<Rightarrow> trace s' = trace s @ new \<and> line_out s' = line_out s @ bytes_out new \<and> Q None new"
  proof (cases "m s")
    case (Done a s')
    from assms(1) Done obtain new where n: "trace s' = trace s @ new" "line_out s' = line_out s @ bytes_out new"
      "P (Some a) new" by (force simp: does_def dest!: spec [of _ s])
    from assms(2) [of a] obtain more where "case k a s' of
       Done b t \<Rightarrow> trace t = trace s' @ more \<and> line_out t = line_out s' @ bytes_out more \<and> R a (Some b) more
     | Died e t \<Rightarrow> trace t = trace s' @ more \<and> line_out t = line_out s' @ bytes_out more \<and> R a None more
     | Stuck t \<Rightarrow> trace t = trace s' @ more \<and> line_out t = line_out s' @ bytes_out more \<and> R a None more"
      unfolding does_def by blast
    with n assms(4) [OF n(3)] Done show ?thesis
      by (intro exI [of _ "new @ more"]) (auto simp: sbnd_def split: sys.splits)
  qed (use assms(1,3) in \<open>force simp: does_def sbnd_def dest!: spec [of _ s]\<close>)+
qed

text \<open>Calls that only ask.\<close>

abbreviation silent :: "'a call \<Rightarrow> bool" where
  "silent \<equiv> does (\<lambda>r new. new = [])"

lemma silent_calls: "silent now_ms" "silent poll" "silent modem_status" "silent write_answer" "silent (sret a)"
  "silent (syserr e)" "silent (set_deadline n)"
  by (auto simp: does_def now_ms_def poll_def modem_status_def write_answer_def sret_def syserr_def set_deadline_def
      sbnd_def Let_def split: list.splits)

definition cts_result :: "bool option \<Rightarrow> pace list \<Rightarrow> bool" where
  "cts_result r new \<longleftrightarrow> new = (if r = Some True then [Cts_seen] else [])"

definition byte_result :: "char \<Rightarrow> bool option \<Rightarrow> pace list \<Rightarrow> bool" where
  "byte_result c r new \<longleftrightarrow> new = (if r = Some True then [Byte_out c] else [])"

lemma no_result [simp]: "cts_result None []" "byte_result c None []"
  by (simp_all add: cts_result_def byte_result_def)

lemma does_silent: "silent m \<Longrightarrow> (\<And>a. does Q (k a)) \<Longrightarrow> Q None [] \<Longrightarrow> does Q (sbnd m k)"
  by (rule does_sbnd [of "\<lambda>r new. new = []" m "\<lambda>_. Q"]) auto

lemma does_cts_loop: "does cts_result (cts_loop k d)"
proof (induction k)
  case 0
  show ?case by (auto simp: does_def cts_result_def)
next
  case (Suc k)
  have "does cts_result (\<lambda>s. Done True (s\<lparr>trace := trace s @ [Cts_seen]\<rparr>))"
    by (auto simp: does_def cts_result_def)
  moreover have "does cts_result (sret False)" "does cts_result (syserr e)" for e
    by (auto simp: does_def cts_result_def sret_def syserr_def)
  ultimately show ?case
    using Suc by (auto intro!: does_silent silent_calls split: option.split)
qed

lemma does_byte_loop: "does (byte_result c) (byte_loop k c d)"
proof (induction k)
  case 0
  show ?case by (auto simp: does_def byte_result_def)
next
  case (Suc k)
  have "does (byte_result c) (\<lambda>s. Done True (s\<lparr>line_out := line_out s @ [c], trace := trace s @ [Byte_out c]\<rparr>))"
    by (auto simp: does_def byte_result_def)
  moreover have "does (byte_result c) (sret False)" "does (byte_result c) (syserr e)" for e
    by (auto simp: does_def byte_result_def sret_def syserr_def)
  ultimately show ?case
    using Suc by (auto intro!: does_silent silent_calls split: polled.split wrote.split)
qed

lemma does_state: "(\<And>n. does Q (m n)) \<Longrightarrow> does Q (\<lambda>s. m (f s) s)"
  unfolding does_def by blast

lemma does_wait_for_cts: "does cts_result (wait_for_cts n)"
  unfolding wait_for_cts_def
  by (rule does_silent [OF silent_calls(7)])
    (use does_state [of cts_result "\<lambda>n. cts_loop n _" "\<lambda>s. Suc (length (clock s))"] does_cts_loop in auto)

lemma does_write_serial_byte: "does (byte_result c) (write_serial_byte c n)"
  unfolding write_serial_byte_def
  by (rule does_silent [OF silent_calls(7)])
    (use does_state [of "byte_result c" "\<lambda>n. byte_loop n c _" "\<lambda>s. Suc (length (clock s))"] does_byte_loop in auto)

text \<open>Each byte after a reading of CTS of its own.\<close>

definition paced :: "string \<Rightarrow> pace list" where
  "paced sent = concat (map (\<lambda>c. [Cts_seen, Byte_out c]) sent)"

lemma bytes_paced [simp]: "bytes_out (paced sent) = sent"
  by (induction sent) (simp_all add: paced_def)

definition flow_result :: "string \<Rightarrow> bool option \<Rightarrow> pace list \<Rightarrow> bool" where
  "flow_result text r new \<longleftrightarrow> (\<exists>i\<le>length text. \<exists>more. new = paced (take i text) @ more \<and>
     (more = [] \<or> more = [Cts_seen] \<and> i < length text) \<and>
     (r = Some True \<longrightarrow> i = length text) \<and> (r = Some False \<longrightarrow> i < length text))"

lemma flow_result_steps:
  "r \<noteq> Some True \<Longrightarrow> flow_result (c # cs) r []" "r \<noteq> Some True \<Longrightarrow> flow_result (c # cs) r [Cts_seen]"
  "flow_result cs r new \<Longrightarrow> flow_result (c # cs) r (Cts_seen # Byte_out c # new)"
proof -
  show "r \<noteq> Some True \<Longrightarrow> flow_result (c # cs) r []" "r \<noteq> Some True \<Longrightarrow> flow_result (c # cs) r [Cts_seen]"
    by (auto simp: flow_result_def paced_def intro: exI [of _ 0])
  assume "flow_result cs r new"
  then obtain i more where "i \<le> length cs" "new = paced (take i cs) @ more" "more = [] \<or> more = [Cts_seen] \<and> i < length cs"
    "r = Some True \<longrightarrow> i = length cs" "r = Some False \<longrightarrow> i < length cs" by (auto simp: flow_result_def)
  then show "flow_result (c # cs) r (Cts_seen # Byte_out c # new)"
    unfolding flow_result_def by (intro exI [of _ "Suc i"] conjI exI [of _ more]) (auto simp: paced_def)
qed

lemma does_flow_text: "does (flow_result t) (send_flow_text_os t n)"
proof (induction t)
  case Nil
  show ?case by (simp add: does_def sret_def flow_result_def paced_def)
next
  case (Cons c cs)
  let ?no = "\<lambda>r new. r = Some False \<and> new = []"
  let ?after = "\<lambda>r new. flow_result (c # cs) r (Cts_seen # new)"
  have no: "does ?no (sret False)" by (simp add: does_def sret_def)
  have w: "does ?after (sbnd (write_serial_byte c n) (\<lambda>ok. if \<not> ok then sret False else send_flow_text_os cs n))"
  proof (rule does_sbnd [OF does_write_serial_byte])
    show "does (if ok then flow_result cs else ?no) (if \<not> ok then sret False else send_flow_text_os cs n)" for ok
      using Cons no by simp
  qed (auto simp: byte_result_def flow_result_steps split: if_splits)
  show ?case
    unfolding send_flow_text_os.simps
  proof (rule does_sbnd [OF does_wait_for_cts])
    show "does (if ok then ?after else ?no) (if \<not> ok then sret False else
        sbnd (write_serial_byte c n) (\<lambda>ok. if \<not> ok then sret False else send_flow_text_os cs n))" for ok
      using w no by simp
  qed (auto simp: cts_result_def flow_result_steps split: if_splits)
qed

text \<open>The answers that the model of \<open>Te2_Host\<close> is given: one for each character.\<close>

lemma host_flow:
  "i \<le> length t \<Longrightarrow> send_flow_text t (replicate i True @ (if i < length t then [False] else [])) = (i = length t, take i t, [])"
proof (induction t arbitrary: i)
  case (Cons c cs)
  then show ?case by (cases i) auto
qed simp

text \<open>C13: What is written to the serial line is paced: each byte follows a reading of CTS of its own, the bytes
  are the beginning of the text in order, all of it if the call succeeds, and one that fails has not
  sent it all.  Whatever the clock, \<open>poll\<close> and \<open>write\<close> answer, a call that returns behaves as the model
  the transfer is proved with, on some list of answers.\<close>

theorem flow_text_paced:
  "case send_flow_text_os t timeout_ms s of
     Done b s' \<Rightarrow> \<exists>answers sent. send_flow_text t answers = (b, sent, []) \<and> line_out s' = line_out s @ sent \<and>
       (trace s' = trace s @ paced sent \<or> trace s' = trace s @ paced sent @ [Cts_seen])
   | Died e s' \<Rightarrow> \<exists>sent. prefix sent t \<and> line_out s' = line_out s @ sent \<and>
       (trace s' = trace s @ paced sent \<or> trace s' = trace s @ paced sent @ [Cts_seen])
   | Stuck s' \<Rightarrow> \<exists>sent. prefix sent t \<and> line_out s' = line_out s @ sent \<and>
       (trace s' = trace s @ paced sent \<or> trace s' = trace s @ paced sent @ [Cts_seen])"
proof -
  have seen: "flow_result t r new \<Longrightarrow> \<exists>i\<le>length t. (new = paced (take i t) \<or> new = paced (take i t) @ [Cts_seen]) \<and>
      bytes_out new = take i t \<and> (r = Some True \<longrightarrow> i = length t) \<and> (r = Some False \<longrightarrow> i < length t)" for r new
    by (auto simp: flow_result_def)
  from does_flow_text [of t timeout_ms] obtain new where n: "case send_flow_text_os t timeout_ms s of
     Done a s' \<Rightarrow> trace s' = trace s @ new \<and> line_out s' = line_out s @ bytes_out new \<and> flow_result t (Some a) new
   | Died e s' \<Rightarrow> trace s' = trace s @ new \<and> line_out s' = line_out s @ bytes_out new \<and> flow_result t None new
   | Stuck s' \<Rightarrow> trace s' = trace s @ new \<and> line_out s' = line_out s @ bytes_out new \<and> flow_result t None new"
    unfolding does_def by blast
  show ?thesis
  proof (cases "send_flow_text_os t timeout_ms s")
    case (Done b s')
    with n seen [of "Some b" new] obtain i where i: "i \<le> length t" "new = paced (take i t) \<or> new = paced (take i t) @ [Cts_seen]"
      "bytes_out new = take i t" "b \<longleftrightarrow> i = length t" by (cases b) auto
    with n Done host_flow [OF i(1)] show ?thesis
      by (auto intro!: exI [of _ "replicate i True @ (if i < length t then [False] else [])"] exI [of _ "take i t"])
  next
    case (Died e s')
    with n seen [of None new] show ?thesis by (auto intro: take_is_prefix)
  next
    case (Stuck s')
    with n seen [of None new] show ?thesis by (auto intro: take_is_prefix)
  qed
qed

section \<open>Blocks\<close>

text \<open>
  A file that is written to: \<open>out\<close> appends to what \<open>view\<close> shows, and asking for answers leaves it
  alone.  The serial line, the terminal and the pipe of the reader are instances.
\<close>

locale sink =
  fixes out :: "string \<Rightarrow> os \<Rightarrow> os" and view :: "os \<Rightarrow> string"
  assumes view_out: "view (out t s) = view s @ t"
    and view_answers: "view (s\<lparr>wrs := ws\<rparr>) = view s" "view (s\<lparr>polls := ps\<rparr>) = view s"
    and out_rds: "rds (out t s) = rds s"
begin

definition copied :: "string \<Rightarrow> os \<Rightarrow> unit sys \<Rightarrow> bool" where
  "copied buffer s res \<longleftrightarrow> (case res of Done _ s' \<Rightarrow> view s' = view s @ buffer \<and> rds s' = rds s
     | Died e s' \<Rightarrow> \<exists>p. prefix p buffer \<and> view s' = view s @ p
     | Stuck s' \<Rightarrow> \<exists>p. prefix p buffer \<and> view s' = view s @ p)"

lemma copied_rest:
  assumes "copied (drop n buffer) (out (take n buffer) s) res"
  shows "copied buffer s res"
proof (cases res)
  case (Died e s')
  with assms obtain p where "prefix p (drop n buffer)" "view s' = view s @ take n buffer @ p"
    by (auto simp: copied_def view_out)
  then show ?thesis
    using Died same_prefix_prefix [of "take n buffer" p "drop n buffer"] by (auto simp: copied_def)
next
  case (Stuck s')
  with assms obtain p where "prefix p (drop n buffer)" "view s' = view s @ take n buffer @ p"
    by (auto simp: copied_def view_out)
  then show ?thesis
    using Stuck same_prefix_prefix [of "take n buffer" p "drop n buffer"] by (auto simp: copied_def)
qed (use assms in \<open>simp add: copied_def view_out out_rds\<close>)

lemma copied_asked:
  "copied buffer (s\<lparr>wrs := ws\<rparr>) res = copied buffer s res" "copied buffer (s\<lparr>polls := ps\<rparr>) res = copied buffer s res"
  by (cases res; simp add: copied_def view_answers)+

lemma copied_nothing: "copied buffer s (Died e s)" "copied buffer s (Stuck s)"
  by (auto simp: copied_def)

lemma write_all_loop_copies: "copied buffer s (write_all_loop k out buffer s)"
proof (induction k arbitrary: buffer s)
  case (Suc k)
  have n: "copied buffer (s\<lparr>wrs := ws\<rparr>) (write_all_loop k out (drop n buffer) (out (take n buffer) (s\<lparr>wrs := ws\<rparr>)))" for n ws
    by (rule copied_rest) (rule Suc)
  have d: "copied buffer s (Died e (s\<lparr>wrs := ws\<rparr>))" "copied buffer s (Stuck (s\<lparr>wrs := ws\<rparr>))"
      "copied buffer s (Died e (s\<lparr>wrs := ws, polls := ps\<rparr>))" for e ws ps
    by (auto simp: copied_def view_answers)
  show ?case
    using n Suc [of buffer "s\<lparr>wrs := _\<rparr>"] Suc [of buffer "s\<lparr>wrs := _, polls := _\<rparr>"] d
    by (auto simp: sbnd_def write_answer_def poll_def syserr_def copied_asked copied_nothing sret_def copied_def [of "[]"]
        split: list.split wrote.split)
qed (simp add: copied_nothing)

lemma write_all_loop_keeps:
  assumes "\<And>t s. g (out t s) = g s" and "\<And>ws s. g (s\<lparr>wrs := ws\<rparr>) = g s" and "\<And>ps s. g (s\<lparr>polls := ps\<rparr>) = g s"
    and "write_all_loop k out buffer s = Done u s'"
  shows "g s' = g s"
  using assms(4)
  by (induction k arbitrary: buffer s)
    (auto simp: sbnd_def write_answer_def poll_def syserr_def sret_def assms(1-3)
      split: list.splits wrote.splits if_splits)

lemma write_all_keeps:
  assumes "\<And>t s. g (out t s) = g s" and "\<And>ws s. g (s\<lparr>wrs := ws\<rparr>) = g s" and "\<And>ps s. g (s\<lparr>polls := ps\<rparr>) = g s"
    and "write_all out buffer s = Done u s'"
  shows "g s' = g s"
  using write_all_loop_keeps [OF assms(1-3) assms(4) [unfolded write_all_def]] .

lemma write_all_copies: "copied buffer s (write_all out buffer s)"
  unfolding write_all_def by (rule write_all_loop_copies)

end

interpretation serial: sink to_serial line_out by unfold_locales (simp_all add: to_serial_def)
interpretation stdout: sink to_stdout term_out by unfold_locales (simp_all add: to_stdout_def)
interpretation pipe: sink to_pipe pipe_out by unfold_locales (simp_all add: to_pipe_def)

lemma pipe_loop_copies: "pipe.copied rest s (pipe_loop k rest s)"
proof (induction k arbitrary: rest s)
  case (Suc k)
  have n: "pipe.copied rest (s\<lparr>wrs := ws\<rparr>) (pipe_loop k (drop n rest) (to_pipe (take n rest) (s\<lparr>wrs := ws\<rparr>)))" for n ws
    by (rule pipe.copied_rest) (rule Suc)
  have d: "pipe.copied rest s (Died e (s\<lparr>wrs := ws\<rparr>))" for e ws
    by (auto simp: pipe.copied_def)
  show ?case
    using n Suc [of rest "s\<lparr>wrs := _\<rparr>"] d
    by (auto simp: sbnd_def write_answer_def syserr_def pipe.copied_asked pipe.copied_nothing sret_def pipe.copied_def [of "[]"]
        split: list.split wrote.split)
qed (simp add: pipe.copied_nothing)

text \<open>What a list of answers to \<open>read\<close> delivers.\<close>

fun received :: "got list \<Rightarrow> string" where
  "received [] = []"
| "received (Got t # rs) = t @ received rs"
| "received (_ # rs) = received rs"

lemma received_append [simp]: "received (a @ b) = received a @ received b"
  by (induction a rule: received.induct) simp_all

text \<open>The reader forwards what it reads in order: all that was read, or a beginning of it if it stops.\<close>

definition forwards :: "os \<Rightarrow> unit sys \<Rightarrow> bool" where
  "forwards s res \<longleftrightarrow> (case res of
     Done _ s' \<Rightarrow> \<exists>used. rds s = used @ rds s' \<and> pipe_out s' = pipe_out s @ received used
   | Died e s' \<Rightarrow> \<exists>p. prefix p (received (rds s)) \<and> pipe_out s' = pipe_out s @ p
   | Stuck s' \<Rightarrow> \<exists>p. prefix p (received (rds s)) \<and> pipe_out s' = pipe_out s @ p)"

lemma reader_turn_forwards: "forwards s (reader_turn s)"
proof (cases "polls s")
  case Nil
  then show ?thesis by (simp add: reader_turn_def sbnd_def poll_def forwards_def)
next
  case (Cons p ps)
  show ?thesis
  proof (cases "p = Ready \<and> (\<exists>t rs. rds s = Got t # rs)")
    case True
    then obtain t rs where r: "p = Ready" "rds s = Got t # rs" by blast
    let ?s = "s\<lparr>polls := ps, rds := rs\<rparr>"
    have "reader_turn s = pipe_loop (Suc (length (wrs s))) t ?s"
      using Cons r by (simp add: reader_turn_def sbnd_def poll_def read_answer_def del: pipe_loop.simps)
    with pipe_loop_copies [of t ?s "Suc (length (wrs s))"] have c: "pipe.copied t ?s (reader_turn s)" by simp
    show ?thesis
    proof (cases "reader_turn s")
      case (Done u s')
      with c r(2) show ?thesis by (auto simp: forwards_def pipe.copied_def intro: exI [of _ "[Got t]"])
    qed (use c r(2) in \<open>auto simp: forwards_def pipe.copied_def intro: prefix_prefix\<close>)
  next
    case False
    then show ?thesis
      using Cons by (auto simp: reader_turn_def sbnd_def poll_def read_answer_def forwards_def sret_def syserr_def
          split: polled.split list.split got.split intro: exI [of _ "[_]"])
  qed
qed

lemma reader_forwards: "forwards s (reader n s)"
proof (induction n arbitrary: s)
  case (Suc n)
  show ?case
  proof (cases "reader_turn s")
    case (Done u t)
    with reader_turn_forwards [of s] obtain used where u: "rds s = used @ rds t" "pipe_out t = pipe_out s @ received used"
      by (auto simp: forwards_def)
    from Suc [of t] show ?thesis
      using u Done by (cases "reader n t") (auto simp: forwards_def sbnd_def)
  qed (use reader_turn_forwards [of s] in \<open>auto simp: forwards_def sbnd_def\<close>)
qed (simp add: forwards_def sret_def)

text \<open>A turn of the terminal mode copies both ways.\<close>

lemma terminal_copies:
  assumes "both_polls s = Both True True # ps" and "rds s = Got a # Got b # rs" and "terminal_turn s = Done u s'"
  shows "term_out s' = term_out s @ a \<and> line_out s' = line_out s @ b"
proof -
  let ?s = "s\<lparr>both_polls := ps, rds := Got b # rs\<rparr>"
  obtain t where t: "write_all to_stdout a ?s = Done () t"
    using assms by (cases "write_all to_stdout a ?s")
      (auto simp: terminal_turn_def copy_block_def sbnd_def poll_both_def read_answer_def)
  with stdout.write_all_copies [of a ?s] have 1: "term_out t = term_out s @ a" "rds t = Got b # rs"
    by (simp_all add: stdout.copied_def)
  have 2: "line_out t = line_out s"
    using stdout.write_all_keeps [of line_out, OF _ _ _ t] by (simp add: to_stdout_def)
  have w: "write_all to_serial b (t\<lparr>rds := rs\<rparr>) = Done u s'"
    using assms t 1(2) by (simp add: terminal_turn_def copy_block_def sbnd_def poll_both_def read_answer_def)
  with serial.write_all_copies [of b "t\<lparr>rds := rs\<rparr>"] have "line_out s' = line_out t @ b"
    by (simp add: serial.copied_def)
  moreover have "term_out s' = term_out t"
    using serial.write_all_keeps [of term_out, OF _ _ _ w] by (simp add: to_serial_def)
  ultimately show ?thesis using 1 2 by simp
qed

end
