(* ===== verification/Te_Terminal.thy ===== *)
theory Te_Terminal
  imports Prelude "HOL-Library.Sublist"
begin

text \<open>
  The terminal emulator \<open>te/te/te.c\<close>: the parent process sends what is typed, or the lines of a file,
  to the serial line byte by byte, each byte after the adapter has reported CTS; the child shows what
  arrives.  The operating system is the lists of the answers it will give: a read gives a character
  or nothing (end of file, an error), which leaves the 0 the variable was set to; the modem status and
  the writes are answered in turn.  When answers run out, the call blocks.  Not modelled: termios, the
  handler of ^C.
\<close>

section \<open>The world\<close>

datatype modem = Cts bool | No_status

text \<open>The result of \<open>write\<close> of one byte: 1; -1 with EINTR; -1 with another error; 0.\<close>

datatype written = One | Interrupted | Failed | Nothing

record te =
  keys :: "char option list"
  from_com :: "char option list"
  modems :: "modem list"
  writes :: "written list"
  filefp :: "string option"
  log_on :: bool
  com_out :: string
  tty_out :: string
  err_out :: string
  std_out :: string

datatype 'a io = Done 'a te | Exit string te | Blocked te

type_synonym 'a act = "te \<Rightarrow> 'a io"

definition ret :: "'a \<Rightarrow> 'a act" where "ret a s = Done a s"

definition bnd :: "'a act \<Rightarrow> ('a \<Rightarrow> 'b act) \<Rightarrow> 'b act" where
  "bnd m k s = (case m s of Done a s' \<Rightarrow> k a s' | Exit t s' \<Rightarrow> Exit t s' | Blocked s' \<Rightarrow> Blocked s')"

definition upd :: "(te \<Rightarrow> te) \<Rightarrow> unit act" where "upd f s = Done () (f s)"

section \<open>Reading and writing\<close>

fun cts_loop :: "modem list \<Rightarrow> unit act" where
  "cts_loop [] s = Blocked (s\<lparr>modems := []\<rparr>)"
| "cts_loop (No_status # ms) s = Exit ''Couldn't read serial modem status'' (s\<lparr>modems := ms\<rparr>)"
| "cts_loop (Cts b # ms) s = (if b then Done () (s\<lparr>modems := ms\<rparr>) else cts_loop ms s)"

definition wait_for_cts :: "unit act" where
  "wait_for_cts s = cts_loop (modems s) s"

definition NUL :: char where "NUL = CHR 0x00"

definition comget :: "char act" where
  "comget s = (case from_com s of [] \<Rightarrow> Blocked s
     | c # cs \<Rightarrow> Done (case c of Some c \<Rightarrow> c | None \<Rightarrow> NUL) (s\<lparr>from_com := cs\<rparr>))"

definition ttyget :: "char act" where
  "ttyget s = (case keys s of [] \<Rightarrow> Blocked s
     | c # cs \<Rightarrow> Done (case c of Some c \<Rightarrow> c | None \<Rightarrow> NUL) (s\<lparr>keys := cs\<rparr>))"

fun write_loop :: "char \<Rightarrow> written list \<Rightarrow> unit act" where
  "write_loop c [] s = Blocked (s\<lparr>writes := []\<rparr>)"
| "write_loop c (Interrupted # ws) s = write_loop c ws s"
| "write_loop c (One # ws) s = Done () (s\<lparr>writes := ws, com_out := com_out s @ [c]\<rparr>)"
| "write_loop c (w # ws) s = Exit ''Couldn't write serial byte'' (s\<lparr>writes := ws\<rparr>)"

definition comput :: "char \<Rightarrow> unit act" where
  "comput c = bnd wait_for_cts (\<lambda>_ s. write_loop c (writes s) s)"

definition ttyput :: "char \<Rightarrow> unit act" where
  "ttyput c = upd (\<lambda>s. s\<lparr>tty_out := tty_out s @ [c], err_out := (if log_on s then err_out s @ [c] else err_out s)\<rparr>)"

definition ttyputs :: "string \<Rightarrow> unit act" where
  "ttyputs t = upd (\<lambda>s. s\<lparr>tty_out := tty_out s @ t\<rparr>)"

section \<open>A file to send\<close>

text \<open>The name is read into 80 characters with the final NUL; \<open>fnam\<close> is what has been read.\<close>

definition key :: "char option \<Rightarrow> char" where
  "key k = (case k of Some c \<Rightarrow> c | None \<Rightarrow> NUL)"

fun name_loop :: "char option list \<Rightarrow> string \<Rightarrow> string act" where
  "name_loop [] fnam s = (if length fnam < 79 then Blocked (s\<lparr>keys := []\<rparr>) else Done fnam (s\<lparr>keys := []\<rparr>))"
| "name_loop (k # ks) fnam s = (if length fnam < 79
     then let ttyin = key k in
       if ttyin = CHR 0x0A then Done fnam (s\<lparr>keys := ks\<rparr>)
       else if ttyin = CHR 0x08
       then bnd (if fnam \<noteq> [] then bnd (ttyput (CHR 0x08)) (\<lambda>_. bnd (ttyput (CHR 0x20)) (\<lambda>_. ttyput (CHR 0x08)))
         else ret ()) (\<lambda>_. name_loop ks (butlast fnam)) s
       else bnd (ttyput ttyin) (\<lambda>_. name_loop ks (fnam @ [ttyin])) s
     else Done fnam (s\<lparr>keys := k # ks\<rparr>))"

text \<open>\<open>fopen\<close>: the contents of the files that can be opened; the name ends at its first NUL.\<close>

definition rfopen :: "(string \<Rightarrow> string option) \<Rightarrow> string option act" where
  "rfopen fopen = bnd (ttyputs ''file: '') (\<lambda>_. bnd (\<lambda>s. name_loop (keys s) [] s) (\<lambda>fnam.
     bnd (ttyput (CHR 0x0A)) (\<lambda>_. let fnam = takeWhile (\<lambda>c. c \<noteq> NUL) fnam in
     case fopen fnam of Some t \<Rightarrow> ret (Some t)
     | None \<Rightarrow> bnd (upd (\<lambda>s. s\<lparr>std_out := std_out s @ ''Couldn't open '' @ [CHR 0x27] @ fnam @ [CHR 0x27]
         @ '' for reading\<newline>''\<rparr>)) (\<lambda>_. ret None))))"

section \<open>The two processes\<close>

text \<open>A turn of the child, and of the parent.\<close>

definition child_turn :: "unit act" where
  "child_turn = bnd comget (\<lambda>comin.
     bnd (if comin = CHR 0x08 then bnd (ttyput (CHR 0x08)) (\<lambda>_. ttyput (CHR 0x20)) else ret ()) (\<lambda>_.
     ttyput comin))"

definition parent_turn :: "(string \<Rightarrow> string option) \<Rightarrow> unit act" where
  "parent_turn fopen s = (case filefp s of
     None \<Rightarrow> bnd ttyget (\<lambda>ttyin. if ttyin = CHR 0x12
       then bnd (rfopen fopen) (\<lambda>f. upd (\<lambda>s. s\<lparr>filefp := f\<rparr>))
       else comput ttyin) s
   | Some (c # cs) \<Rightarrow> bnd (upd (\<lambda>s. s\<lparr>filefp := Some cs\<rparr>)) (\<lambda>_. comput c) s
   | Some [] \<Rightarrow> Done () (s\<lparr>filefp := None\<rparr>))"

text \<open>The first \<open>n\<close> turns.\<close>

fun turns :: "nat \<Rightarrow> unit act \<Rightarrow> unit act" where
  "turns 0 m = ret ()"
| "turns (Suc n) m = bnd m (\<lambda>_. turns n m)"

section \<open>Options and devices\<close>

fun te_options :: "string list \<Rightarrow> bool \<Rightarrow> string option \<Rightarrow> (bool \<times> string option) option" where
  "te_options [] logging device = Some (logging, device)"
| "te_options (a # args) logging device = (if a = ''-l'' then te_options args True device
     else if device = None then te_options args logging (Some a) else None)"

definition open_com :: "(string \<Rightarrow> bool) \<Rightarrow> string option \<Rightarrow> string + string" where
  "open_com can_open device = (case device of
     Some d \<Rightarrow> if can_open d then Inr d else Inl (''Couldn't open serial device '' @ [CHR 0x27] @ d @ [CHR 0x27])
   | None \<Rightarrow> if can_open ''/dev/ttyUSB0'' then Inr ''/dev/ttyUSB0''
       else if can_open ''/dev/ttyUSB1'' then Inr ''/dev/ttyUSB1''
       else Inl ''Couldn't open /dev/ttyUSB0 or /dev/ttyUSB1'')"

text \<open>What \<open>main\<close> does before it forks: the log switch and the device, or the message it stops with.\<close>

definition te_main :: "string list \<Rightarrow> (string \<Rightarrow> bool) \<Rightarrow> string + bool \<times> string" where
  "te_main args can_open = (case te_options args False None of
     None \<Rightarrow> Inl ''usage: te [-l] [serial-device]\<newline>''
   | Some (logging, device) \<Rightarrow> (case open_com can_open device of Inl e \<Rightarrow> Inl e
     | Inr d \<Rightarrow> if can_open ''/dev/tty'' then Inr (logging, d) else Inl ''Couldn't open TTY\<newline>''))"

section \<open>What is sent\<close>

text \<open>The name that is typed, and the keys after it; \<open>None\<close> if the keys end before it does.\<close>

fun typed_name :: "char option list \<Rightarrow> string \<Rightarrow> (string \<times> char option list) option" where
  "typed_name [] fnam = (if length fnam < 79 then None else Some (fnam, []))"
| "typed_name (k # ks) fnam = (if length fnam < 79
     then if key k = CHR 0x0A then Some (fnam, ks)
       else if key k = CHR 0x08 then typed_name ks (butlast fnam) else typed_name ks (fnam @ [key k])
     else Some (fnam, k # ks))"

lemma typed_name_shorter: "typed_name ks fnam = Some (name, ks') \<Longrightarrow> length ks' \<le> length ks"
  by (induction ks fnam rule: typed_name.induct) (auto split: if_splits)

text \<open>
  The text for the serial line that a list of keys stands for: ^R, a name and a newline stand for the
  contents of the file.
\<close>

function meaning :: "(string \<Rightarrow> string option) \<Rightarrow> char option list \<Rightarrow> string" where
  "meaning fopen [] = []"
| "meaning fopen (k # ks) = (if key k = CHR 0x12
     then case typed_name ks [] of None \<Rightarrow> []
       | Some (name, ks') \<Rightarrow> (case fopen (takeWhile (\<lambda>c. c \<noteq> NUL) name) of Some t \<Rightarrow> t | None \<Rightarrow> [])
           @ meaning fopen ks'
     else key k # meaning fopen ks)"
  by pat_completeness auto

termination
  by (relation "measure (length \<circ> snd)") (auto dest: typed_name_shorter)

text \<open>What is still to be sent.\<close>

definition pending :: "(string \<Rightarrow> string option) \<Rightarrow> te \<Rightarrow> string" where
  "pending fopen s = (case filefp s of Some t \<Rightarrow> t | None \<Rightarrow> []) @ meaning fopen (keys s)"

lemma cts_loop_cases:
  "case cts_loop ms s of Done _ s' \<Rightarrow> \<exists>ms'. s' = s\<lparr>modems := ms'\<rparr> | Exit _ s' \<Rightarrow> \<exists>ms'. s' = s\<lparr>modems := ms'\<rparr>
   | Blocked s' \<Rightarrow> s' = s\<lparr>modems := []\<rparr>"
  by (induction ms s rule: cts_loop.induct) auto

lemma write_loop_cases:
  "case write_loop c ws s of Done _ s' \<Rightarrow> \<exists>ws'. s' = s\<lparr>writes := ws', com_out := com_out s @ [c]\<rparr>
   | Exit _ s' \<Rightarrow> \<exists>ws'. s' = s\<lparr>writes := ws'\<rparr> | Blocked s' \<Rightarrow> s' = s\<lparr>writes := []\<rparr>"
  by (induction c ws s rule: write_loop.induct) auto

lemma comput_cases:
  "case comput c s of Done _ s' \<Rightarrow> \<exists>ms ws. s' = s\<lparr>modems := ms, writes := ws, com_out := com_out s @ [c]\<rparr>
   | Exit _ s' \<Rightarrow> com_out s' = com_out s
   | Blocked s' \<Rightarrow> com_out s' = com_out s \<and> (modems s' = [] \<or> writes s' = [])"
proof (cases "wait_for_cts s")
  case (Done u s')
  with cts_loop_cases [of s "modems s"] obtain ms where "s' = s\<lparr>modems := ms\<rparr>" by (auto simp: wait_for_cts_def)
  with Done write_loop_cases [where c = c and s = s' and ws = "writes s'"] show ?thesis
    by (auto simp: comput_def bnd_def split: io.splits)
next
  case (Exit t s')
  with cts_loop_cases [of s "modems s"] show ?thesis by (auto simp: wait_for_cts_def comput_def bnd_def)
next
  case (Blocked s')
  with cts_loop_cases [of s "modems s"] show ?thesis by (auto simp: wait_for_cts_def comput_def bnd_def)
qed

text \<open>What typing a name leaves alone.\<close>

definition same_line :: "te \<Rightarrow> te \<Rightarrow> bool" where
  "same_line s s' \<longleftrightarrow> com_out s' = com_out s \<and> modems s' = modems s \<and> writes s' = writes s \<and> filefp s' = filefp s"

text \<open>The state after a text has been echoed.\<close>

definition shown :: "string \<Rightarrow> te \<Rightarrow> te" where
  "shown t s = s\<lparr>tty_out := tty_out s @ t, err_out := (if log_on s then err_out s @ t else err_out s)\<rparr>"

lemma shown_simps [simp]:
  "ttyput c s = Done () (shown [c] s)" "shown u (shown t s) = shown (t @ u) s"
  "same_line (shown t s) s' = same_line s s'" "same_line s (shown t s') = same_line s s'" "keys (shown t s) = keys s"
  by (simp_all add: ttyput_def upd_def shown_def same_line_def)

lemma name_loop_cases:
  "case typed_name ks fnam of None \<Rightarrow> \<exists>s'. name_loop ks fnam s = Blocked s' \<and> keys s' = [] \<and> same_line s s'
   | Some (name, ks') \<Rightarrow> \<exists>s'. name_loop ks fnam s = Done name s' \<and> keys s' = ks' \<and> same_line s s'"
proof (induction ks fnam arbitrary: s rule: typed_name.induct)
  case (2 k ks fnam)
  from 2(1) [of s] 2(1) [of "shown [CHR 0x08, CHR 0x20, CHR 0x08] s"] 2(2) [of "shown [key k] s"] show ?case
    by (auto simp: bnd_def ret_def Let_def split: option.splits) (simp add: same_line_def)+
qed (simp add: same_line_def)

lemma rfopen_cases:
  "case typed_name (keys s) [] of None \<Rightarrow> \<exists>s'. rfopen fopen s = Blocked s' \<and> keys s' = [] \<and> same_line s s'
   | Some (name, ks') \<Rightarrow> \<exists>s'. rfopen fopen s = Done (fopen (takeWhile (\<lambda>c. c \<noteq> NUL) name)) s' \<and> keys s' = ks' \<and>
       same_line s s'"
proof -
  let ?s = "s\<lparr>tty_out := tty_out s @ ''file: ''\<rparr>"
  have "same_line ?s s' = same_line s s'" "same_line s (s'\<lparr>std_out := t\<rparr>) = same_line s s'" for s' t
    by (simp_all add: same_line_def)
  with name_loop_cases [of "keys s" "[]" ?s] show ?thesis
    by (auto simp: rfopen_def ttyputs_def bnd_def upd_def ret_def Let_def split: option.splits)
qed

text \<open>One turn of the parent.\<close>

definition sent_so_far :: "string \<Rightarrow> (string \<Rightarrow> string option) \<Rightarrow> unit io \<Rightarrow> bool" where
  "sent_so_far text fopen out \<longleftrightarrow> (case out of
     Done _ s' \<Rightarrow> com_out s' @ pending fopen s' = text
   | Exit _ s' \<Rightarrow> prefix (com_out s') text
   | Blocked s' \<Rightarrow> prefix (com_out s') text \<and> (modems s' \<noteq> [] \<and> writes s' \<noteq> [] \<longrightarrow> com_out s' = text))"

lemma parent_turn_sends: "sent_so_far (com_out s @ pending fopen s) fopen (parent_turn fopen s)"
proof (cases "filefp s")
  case (Some t)
  show ?thesis
  proof (cases t)
    case Nil
    with Some show ?thesis by (simp add: parent_turn_def sent_so_far_def pending_def)
  next
    case (Cons c cs)
    with Some comput_cases [where c = c and s = "s\<lparr>filefp := Some cs\<rparr>"] show ?thesis
      by (auto simp: parent_turn_def sent_so_far_def pending_def bnd_def upd_def split: io.splits)
  qed
next
  case None
  show ?thesis
  proof (cases "keys s")
    case Nil
    with None show ?thesis by (simp add: parent_turn_def ttyget_def bnd_def sent_so_far_def pending_def)
  next
    case (Cons k ks)
    let ?s = "s\<lparr>keys := ks\<rparr>"
    have g: "ttyget s = Done (key k) ?s" using Cons by (simp add: ttyget_def key_def)
    show ?thesis
    proof (cases "key k = CHR 0x12")
      case True
      with None Cons g rfopen_cases [where s = ?s and fopen = fopen] show ?thesis
        by (auto simp: parent_turn_def sent_so_far_def pending_def bnd_def upd_def same_line_def split: option.splits)
    next
      case False
      with None Cons g comput_cases [where c = "key k" and s = ?s] show ?thesis
        by (auto simp: parent_turn_def sent_so_far_def pending_def bnd_def split: io.splits)
    qed
  qed
qed

lemma turns_send: "sent_so_far (com_out s @ pending fopen s) fopen (turns n (parent_turn fopen) s)"
proof (induction n arbitrary: s)
  case 0
  show ?case by (simp add: ret_def sent_so_far_def)
next
  case (Suc n)
  show ?case
  proof (cases "parent_turn fopen s")
    case (Done u s')
    with parent_turn_sends [of s fopen] have "com_out s' @ pending fopen s' = com_out s @ pending fopen s"
      by (simp add: sent_so_far_def)
    with Suc.IH [of s'] Done show ?thesis by (simp add: bnd_def)
  qed (use parent_turn_sends [of s fopen] in \<open>simp_all add: bnd_def sent_so_far_def\<close>)
qed

text \<open>Every turn uses up a key or a part of the open file.\<close>

definition rank :: "te \<Rightarrow> nat \<times> nat" where
  "rank s = (length (keys s), case filefp s of None \<Rightarrow> 0 | Some t \<Rightarrow> Suc (length t))"

lemma parent_turn_rank:
  assumes "parent_turn fopen s = Done u s'"
  shows "(rank s', rank s) \<in> less_than <*lex*> less_than"
proof (cases "filefp s")
  case (Some t)
  with assms comput_cases [where c = "hd t" and s = "s\<lparr>filefp := Some (tl t)\<rparr>"] show ?thesis
    by (cases t) (auto simp: parent_turn_def rank_def bnd_def upd_def)
next
  case None
  show ?thesis
  proof (cases "keys s")
    case Nil
    with None assms show ?thesis by (simp add: parent_turn_def ttyget_def bnd_def)
  next
    case (Cons k ks)
    let ?s = "s\<lparr>keys := ks\<rparr>"
    have g: "ttyget s = Done (key k) ?s" using Cons by (simp add: ttyget_def key_def)
    show ?thesis
    proof (cases "key k = CHR 0x12")
      case True
      with assms None Cons g rfopen_cases [where s = ?s and fopen = fopen] show ?thesis
        by (auto simp: parent_turn_def bnd_def upd_def rank_def split: option.splits dest!: typed_name_shorter)
    next
      case False
      with assms None Cons g comput_cases [where c = "key k" and s = ?s] show ?thesis
        by (auto simp: parent_turn_def bnd_def rank_def)
    qed
  qed
qed

lemma parent_waits: "\<exists>n. \<forall>u s'. turns n (parent_turn fopen) s \<noteq> Done u s'"
proof (induction s rule: wf_induct [OF wf_inv_image [OF wf_lex_prod [OF wf_less_than wf_less_than], of rank]])
  case (1 s)
  show ?case
  proof (cases "parent_turn fopen s")
    case (Done u s')
    with 1 parent_turn_rank [OF Done] obtain n where "\<forall>u t. turns n (parent_turn fopen) s' \<noteq> Done u t"
      by (auto simp: inv_image_def)
    with Done show ?thesis by (intro exI [of _ "Suc n"]) (simp add: bnd_def)
  qed (auto intro!: exI [of _ 1] simp: bnd_def)
qed

text \<open>C17: The parent sends on the serial line what the keys mean, in order and nothing else: a key is itself, and
  ^R with a typed name is the contents of that file.  After any number of turns, with whatever answers
  of the modem and of the writes, a prefix of that text has been sent; if the process waits for
  the next key and not for the line, all of it.  It does come to a wait or stops.\<close>

theorem terminal_sends_keys:
  assumes "filefp s = None" and "com_out s = []"
  shows "(\<forall>n. case turns n (parent_turn fopen) s of
      Done _ s' \<Rightarrow> prefix (com_out s') (meaning fopen (keys s))
    | Exit _ s' \<Rightarrow> prefix (com_out s') (meaning fopen (keys s))
    | Blocked s' \<Rightarrow> prefix (com_out s') (meaning fopen (keys s)) \<and>
        (modems s' \<noteq> [] \<and> writes s' \<noteq> [] \<longrightarrow> com_out s' = meaning fopen (keys s))) \<and>
    (\<exists>n. \<forall>u s'. turns n (parent_turn fopen) s \<noteq> Done u s')"
proof (intro conjI allI)
  fix n
  from turns_send [of s fopen n] assms
  show "case turns n (parent_turn fopen) s of
      Done _ s' \<Rightarrow> prefix (com_out s') (meaning fopen (keys s))
    | Exit _ s' \<Rightarrow> prefix (com_out s') (meaning fopen (keys s))
    | Blocked s' \<Rightarrow> prefix (com_out s') (meaning fopen (keys s)) \<and>
        (modems s' \<noteq> [] \<and> writes s' \<noteq> [] \<longrightarrow> com_out s' = meaning fopen (keys s))"
    by (auto simp: sent_so_far_def pending_def prefix_def split: io.splits intro!: exI dest: sym)
qed (rule parent_waits)

text \<open>The key a, and ^R with the name of a file that holds bc.\<close>

definition typing :: te where
  "typing = \<lparr>keys = [Some CHR ''a'', Some CHR 0x12, Some CHR ''f'', Some CHR 0x0A], from_com = [],
     modems = [Cts False, Cts True, Cts True, Cts True, Cts True], writes = [One, Interrupted, One, One, One],
     filefp = None, log_on = False, com_out = [], tty_out = [], err_out = [], std_out = []\<rparr>"

theorem terminal_sends_keys_witness:
  "\<exists>s'. turns 6 (parent_turn (\<lambda>name. if name = ''f'' then Some ''bc'' else None)) typing = Blocked s' \<and>
    com_out s' = ''abc''"
proof -
  let ?f = "\<lambda>name. if name = ''f'' then Some ''bc'' else None"
  have k: "filefp typing = None" "com_out typing = []" by (simp_all add: typing_def)
  have m: "meaning ?f (keys typing) = ''abc''" by (simp add: typing_def key_def NUL_def)
  have "\<exists>s'. turns 6 (parent_turn ?f) typing = Blocked s' \<and> modems s' \<noteq> [] \<and> writes s' \<noteq> []"
    by (simp add: numeral_eq_Suc typing_def parent_turn_def ttyget_def comput_def wait_for_cts_def rfopen_def
        ttyputs_def upd_def ret_def bnd_def key_def NUL_def shown_def Let_def)
  then obtain s' where t: "turns 6 (parent_turn ?f) typing = Blocked s'" "modems s' \<noteq> []" "writes s' \<noteq> []" by blast
  from terminal_sends_keys [OF k, where fopen = ?f] have
    "case turns 6 (parent_turn ?f) typing of Blocked s' \<Rightarrow> modems s' \<noteq> [] \<and> writes s' \<noteq> [] \<longrightarrow>
       com_out s' = meaning ?f (keys typing) | _ \<Rightarrow> True" by (auto split: io.splits)
  with t m show ?thesis by simp
qed

text \<open>A byte that arrives is shown; a backspace also rubs out the character before it.\<close>

lemma child_shows:
  assumes "from_com s = map Some cs"
  shows "\<exists>s'. turns (length cs) child_turn s = Done () s' \<and> from_com s' = [] \<and>
    tty_out s' = tty_out s @ concat (map (\<lambda>c. if c = CHR 0x08 then [CHR 0x08, CHR 0x20, CHR 0x08] else [c]) cs)"
  using assms
proof (induction cs arbitrary: s)
  case (Cons c cs)
  let ?t = "if c = CHR 0x08 then [CHR 0x08, CHR 0x20, CHR 0x08] else [c]"
  let ?s = "shown ?t (s\<lparr>from_com := map Some cs\<rparr>)"
  have "child_turn s = Done () ?s"
    using Cons.prems by (simp add: child_turn_def comget_def bnd_def ret_def)
  moreover have "from_com ?s = map Some cs" "tty_out ?s = tty_out s @ ?t" by (simp_all add: shown_def)
  ultimately show ?case using Cons.IH [of ?s] by (auto simp: bnd_def)
qed (simp add: ret_def)

end
