(* ===== verification/Memtest.thy ===== *)
theory Memtest
  imports Prelude
begin

text \<open>
  The memory test of the COR24 board (\<open>reference/memtest.c\<close>): walking ones on the data lines at the
  base address, walking ones on the address lines, and a pass over every byte with a pattern and its
  inverse.  What a store does to memory is a parameter (\<open>store\<close>), so that the tests also run on
  faulty memory; a load reads the byte that is there.  \<open>None\<close> is a loop that has found nothing.
\<close>

section \<open>The tests\<close>

definition BASE_ADDRESS :: i24 where "BASE_ADDRESS = 0x000000"
definition ADDRESS_MASK :: i24 where "ADDRESS_MASK = 0x0FFFFF"
definition NUM_BYTES :: i24 where "NUM_BYTES = (ADDRESS_MASK + 1) - BASE_ADDRESS"

text \<open>A loop that shifts its variable left ends after as many turns as there are bits left.\<close>

definition shifts_left :: "'a::len word \<Rightarrow> nat" where
  "shifts_left w = card {n. push_bit n w \<noteq> 0}"

lemma shifts_left_less:
  fixes w :: "'a::len word"
  assumes "w \<noteq> 0"
  shows "shifts_left (push_bit 1 w) < shifts_left w"
proof -
  let ?S = "{n. push_bit n w \<noteq> 0}"
  have "push_bit n w = 0" if "LENGTH('a) \<le> n" for n
    using that by (intro bit_word_eqI) (simp add: bit_simps)
  then have "?S \<subseteq> {..<LENGTH('a)}" by (auto simp: not_le [symmetric])
  then have f: "finite ?S" by (rule finite_subset) simp
  have "{n. push_bit n (push_bit 1 w) \<noteq> 0} = {n. Suc n \<in> ?S}" by (simp only: push_bit_push_bit mem_Collect_eq Suc_eq_plus1)
  moreover have "card {n. Suc n \<in> ?S} \<le> card (?S - {0})"
    by (rule card_inj_on_le [of Suc]) (use f in \<open>auto simp only: finite_Diff inj_Suc\<close>)
  moreover have "0 \<in> ?S" using assms by simp
  then have "card (?S - {0}) < card ?S" using f by (rule card_Diff1_less [rotated])
  ultimately show ?thesis by (simp only: shifts_left_def)
qed

lemma masked_less: "offset AND ADDRESS_MASK \<noteq> 0 \<Longrightarrow> shifts_left (push_bit 1 offset) < shifts_left offset"
  by (rule shifts_left_less) auto

function data_bus_loop :: "store \<Rightarrow> i24 \<Rightarrow> u8 \<Rightarrow> ram \<Rightarrow> u8 \<times> ram" where
  "data_bus_loop st address pattern m = (if pattern \<noteq> 0
     then let m = st m address pattern in
       if m address \<noteq> pattern then (pattern, m) else data_bus_loop st address (push_bit 1 pattern) m
     else (0, m))"
  by auto

termination
  by (relation "measure (\<lambda>(_, _, p, _). shifts_left p)") (simp_all only: in_measure case_prod_conv wf_measure shifts_left_less not_False_eq_True)

definition memTestDataBus :: "store \<Rightarrow> i24 \<Rightarrow> ram \<Rightarrow> u8 \<times> ram" where
  "memTestDataBus st address m = data_bus_loop st address 1 m"

definition pattern_AA :: u8 where "pattern_AA = 0xAA"
definition pattern_55 :: u8 where "pattern_55 = 0x55"

text \<open>The loops of the address test over the powers of two below the mask.\<close>

function fill_loop :: "store \<Rightarrow> i24 \<Rightarrow> i24 \<Rightarrow> ram \<Rightarrow> ram" where
  "fill_loop st base offset m = (if offset AND ADDRESS_MASK \<noteq> 0
     then fill_loop st base (push_bit 1 offset) (st m (base + offset) pattern_AA) else m)"
  by auto

termination
  by (relation "measure (\<lambda>(_, _, p, _). shifts_left p)") (simp_all only: in_measure case_prod_conv wf_measure masked_less not_False_eq_True)

function high_loop :: "i24 \<Rightarrow> i24 \<Rightarrow> ram \<Rightarrow> i24 option" where
  "high_loop base offset m = (if offset AND ADDRESS_MASK \<noteq> 0
     then if m (base + offset) \<noteq> pattern_AA then Some (base + offset)
       else high_loop base (push_bit 1 offset) m
     else None)"
  by auto

termination
  by (relation "measure (\<lambda>(_, p, _). shifts_left p)") (simp_all only: in_measure case_prod_conv wf_measure masked_less not_False_eq_True)

function short_loop :: "i24 \<Rightarrow> i24 \<Rightarrow> i24 \<Rightarrow> ram \<Rightarrow> i24 option" where
  "short_loop base testOffset offset m = (if offset AND ADDRESS_MASK \<noteq> 0
     then if m (base + offset) \<noteq> pattern_AA \<and> offset \<noteq> testOffset then Some (base + testOffset)
       else short_loop base testOffset (push_bit 1 offset) m
     else None)"
  by auto

termination
  by (relation "measure (\<lambda>(_, _, p, _). shifts_left p)") (simp_all only: in_measure case_prod_conv wf_measure masked_less not_False_eq_True)

function low_loop :: "store \<Rightarrow> i24 \<Rightarrow> i24 \<Rightarrow> ram \<Rightarrow> i24 option \<times> ram" where
  "low_loop st base testOffset m = (if testOffset AND ADDRESS_MASK \<noteq> 0
     then let m = st m (base + testOffset) pattern_55 in
       if m base \<noteq> pattern_AA then (Some (base + testOffset), m)
       else case short_loop base testOffset 1 m of Some r \<Rightarrow> (Some r, m)
         | None \<Rightarrow> low_loop st base (push_bit 1 testOffset) (st m (base + testOffset) pattern_AA)
     else (None, m))"
  by auto

termination
  by (relation "measure (\<lambda>(_, _, p, _). shifts_left p)") (simp_all only: in_measure case_prod_conv wf_measure masked_less not_False_eq_True)

text \<open>The result of a \<open>return\<close> in a loop, or 0 at the end.\<close>

definition result :: "i24 option \<Rightarrow> i24" where
  "result r = (case r of Some a \<Rightarrow> a | None \<Rightarrow> 0)"

text \<open>The size of the region is not looked at.\<close>

definition memTestAddressBus :: "store \<Rightarrow> i24 \<Rightarrow> i24 \<Rightarrow> ram \<Rightarrow> i24 \<times> ram" where
  "memTestAddressBus st base nBytes m =
     (let m = fill_loop st base 1 m; m = st m base pattern_55 in
      case high_loop base 1 m of Some r \<Rightarrow> (r, m)
      | None \<Rightarrow> (let (r, m) = low_loop st base 1 (st m base pattern_AA) in (result r, m)))"

text \<open>The three passes of the device test from an offset on.\<close>

function device_fill :: "store \<Rightarrow> i24 \<Rightarrow> i24 \<Rightarrow> u8 \<Rightarrow> i24 \<Rightarrow> ram \<Rightarrow> ram" where
  "device_fill st base nWords pattern offset m = (if offset < nWords
     then device_fill st base nWords (pattern + 1) (offset + 1) (st m (base + offset) pattern) else m)"
  by auto

function device_invert :: "store \<Rightarrow> i24 \<Rightarrow> i24 \<Rightarrow> u8 \<Rightarrow> i24 \<Rightarrow> ram \<Rightarrow> i24 option \<times> ram" where
  "device_invert st base nWords pattern offset m = (if offset < nWords
     then if m (base + offset) \<noteq> pattern then (Some (base + offset), m)
       else device_invert st base nWords (pattern + 1) (offset + 1) (st m (base + offset) (NOT pattern))
     else (None, m))"
  by auto

function device_check :: "i24 \<Rightarrow> i24 \<Rightarrow> u8 \<Rightarrow> i24 \<Rightarrow> ram \<Rightarrow> i24 option" where
  "device_check base nWords pattern offset m = (if offset < nWords
     then if m (base + offset) \<noteq> NOT pattern then Some (base + offset)
       else device_check base nWords (pattern + 1) (offset + 1) m
     else None)"
  by auto

lemma offset_Suc:
  fixes a b :: i24
  assumes "a < b"
  shows "unat (a + 1) = Suc (unat a)" "unat b - unat (a + 1) < unat b - unat a"
proof -
  have "unat a < unat b" using assms by (simp add: word_less_nat_alt)
  moreover from this show "unat (a + 1) = Suc (unat a)"
    using i24_less [of b] unat_add_small [of a 1] by (simp del: i24_less)
  ultimately show "unat b - unat (a + 1) < unat b - unat a" by simp
qed

termination device_fill
  by (relation "measure (\<lambda>(_, _, n, _, i, _). unat n - unat i)") (simp_all only: in_measure case_prod_conv wf_measure offset_Suc(2) not_not)

termination device_invert
  by (relation "measure (\<lambda>(_, _, n, _, i, _). unat n - unat i)") (simp_all only: in_measure case_prod_conv wf_measure offset_Suc(2) not_not)

termination device_check
  by (relation "measure (\<lambda>(_, n, _, i, _). unat n - unat i)") (simp_all only: in_measure case_prod_conv wf_measure offset_Suc(2) not_not)

declare data_bus_loop.simps [simp del] fill_loop.simps [simp del] high_loop.simps [simp del]
  short_loop.simps [simp del] low_loop.simps [simp del] device_fill.simps [simp del]
  device_invert.simps [simp del] device_check.simps [simp del]

definition memTestDevice :: "store \<Rightarrow> i24 \<Rightarrow> i24 \<Rightarrow> ram \<Rightarrow> i24 \<times> ram" where
  "memTestDevice st base nBytes m =
     (let nWords = nBytes div 1; m = device_fill st base nWords 1 0 m in
      case device_invert st base nWords 1 0 m of
        (Some r, m) \<Rightarrow> (r, m)
      | (None, m) \<Rightarrow> (result (device_check base nWords 1 0 m), m))"

text \<open>A turn of \<open>main\<close>: what it writes, and the memory after it.\<close>

definition memtest_turn :: "store \<Rightarrow> ram \<Rightarrow> string \<times> ram" where
  "memtest_turn st m = (let (d, m) = memTestDataBus st BASE_ADDRESS m in if d \<noteq> 0 then (''Fail '', m)
     else let (a, m) = memTestAddressBus st BASE_ADDRESS NUM_BYTES m in if a \<noteq> 0 then (''Fail '', m)
     else let (v, m) = memTestDevice st BASE_ADDRESS NUM_BYTES m in if v \<noteq> 0 then (''Fail '', m)
     else (''Pass '', m))"

text \<open>The first \<open>n\<close> turns.\<close>

fun memtest_main :: "nat \<Rightarrow> store \<Rightarrow> ram \<Rightarrow> string" where
  "memtest_main 0 st m = []"
| "memtest_main (Suc n) st m = (let (t, m) = memtest_turn st m in t @ memtest_main n st m)"

end
