(* ===== verification/Memtest_Correct.thy ===== *)
theory Memtest_Correct
  imports Memtest
begin

text \<open>
  What the memory test finds.  The address test passes exactly when the address lines tell the base
  address and its neighbours along single lines apart.  The device test is exact but for one byte:
  a fault in the byte at address 0 is reported as that address, which reads as a pass.
\<close>

section \<open>The address lines\<close>

text \<open>
  A memory whose address lines are faulty: the addresses that \<open>w\<close> takes to the same place share one
  byte.
\<close>

definition wired :: "(i24 \<Rightarrow> i24) \<Rightarrow> store" where
  "wired w m a b = (\<lambda>x. if w x = w a then b else m x)"

definition line_addresses :: "i24 set" where
  "line_addresses = insert 0 ((\<lambda>k. 2 ^ k) ` {..<20})"

lemma masked_power:
  assumes "k \<le> 20"
  shows "(2 :: i24) ^ k AND ADDRESS_MASK \<noteq> 0 \<longleftrightarrow> k < 20"
proof -
  have m: "ADDRESS_MASK = mask 20" by (simp add: ADDRESS_MASK_def mask_eq_exp_minus_1)
  have "k < 20 \<longleftrightarrow> bit ((2 :: i24) ^ k AND ADDRESS_MASK) k"
    using assms by (auto simp: m bit_simps)
  moreover have "(2 :: i24) ^ k AND ADDRESS_MASK = 0" if "\<not> k < 20"
    using that by (intro bit_word_eqI) (auto simp: m bit_simps)
  ultimately show ?thesis by (metis bit_0_eq bot_apply bot_bool_def)
qed

lemma masked_last [simp]: "(1048576 :: i24) AND ADDRESS_MASK = 0"
  by (simp add: ADDRESS_MASK_def)

lemma power_step: "push_bit 1 (2 ^ k) = (2 :: i24) ^ Suc k"
  by (simp add: push_bit_eq_mult)

lemma powers_distinct: "j < 20 \<Longrightarrow> k < 20 \<Longrightarrow> (2 :: i24) ^ j = 2 ^ k \<longleftrightarrow> j = k"
proof
  assume "j < 20" "(2 :: i24) ^ j = 2 ^ k"
  moreover from \<open>j < 20\<close> have "bit ((2 :: i24) ^ j) j" by (simp add: bit_simps)
  ultimately show "j = k" by (simp add: bit_simps)
qed simp

lemma power_nonzero: "k < 20 \<Longrightarrow> (2 :: i24) ^ k \<noteq> 0"
proof
  assume "k < 20" "(2 :: i24) ^ k = 0"
  moreover from \<open>k < 20\<close> have "bit ((2 :: i24) ^ k) k" by (simp add: bit_simps)
  ultimately show False by simp
qed

text \<open>The loops along the lines from \<open>k\<close> on.\<close>

lemmas line_steps = masked_power power_step mult.commute

lemma from_line: "(\<forall>j\<in>{k..<20}. P j) \<longleftrightarrow> P k \<and> (\<forall>j\<in>{Suc k..<20}. P j)" if "k < 20"
  using that by (metis atLeastLessThan_iff Suc_le_eq le_neq_implies_less less_or_eq_imp_le order_refl)

lemma fill_lines:
  assumes "k \<le> 20"
  shows "fill_loop (wired w) 0 (2 ^ k) m x = (if \<forall>j\<in>{k..<20}. w x \<noteq> w (2 ^ j) then m x else pattern_AA)"
  using assms
proof (induction k arbitrary: m rule: inc_induct)
  case base
  then show ?case by (subst fill_loop.simps) (simp add: line_steps)
next
  case (step k)
  have "wired w m (2 ^ k) pattern_AA x = (if w x = w (2 ^ k) then pattern_AA else m x)"
    by (simp add: wired_def)
  with step show ?case
    by (subst fill_loop.simps) (simp add: line_steps from_line)
qed

lemma high_lines:
  assumes "k \<le> 20"
  shows "high_loop 0 (2 ^ k) m = None \<longleftrightarrow> (\<forall>j\<in>{k..<20}. m (2 ^ j) = pattern_AA)"
    and "high_loop 0 (2 ^ k) m = Some r \<Longrightarrow> r \<noteq> 0"
  using assms
proof (induction k rule: inc_induct)
  case base
  { case 1 show ?case by (subst high_loop.simps) (simp add: line_steps) }
  { case 2 then show ?case by (subst (asm) high_loop.simps) (simp add: line_steps) }
next
  case (step k)
  { case 1 show ?case using step by (subst high_loop.simps) (simp add: line_steps from_line) }
  { case 2 then show ?case using step power_nonzero [of k]
      by (subst (asm) high_loop.simps) (auto simp: line_steps split: if_splits) }
qed

lemma short_lines:
  assumes "k \<le> 20"
  shows "short_loop 0 t (2 ^ k) m =
    (if \<forall>j\<in>{k..<20}. m (2 ^ j) = pattern_AA \<or> 2 ^ j = t then None else Some t)"
  using assms
proof (induction k rule: inc_induct)
  case base
  show ?case by (subst short_loop.simps) (simp add: line_steps)
next
  case (step k)
  then show ?case by (subst short_loop.simps) (simp add: line_steps from_line)
qed

text \<open>All lines hold the pattern.\<close>

definition all_AA :: "ram \<Rightarrow> bool" where
  "all_AA m \<longleftrightarrow> m 0 = pattern_AA \<and> (\<forall>j<20. m (2 ^ j) = pattern_AA)"

definition alone :: "(i24 \<Rightarrow> i24) \<Rightarrow> nat \<Rightarrow> bool" where
  "alone w i \<longleftrightarrow> w 0 \<noteq> w (2 ^ i) \<and> (\<forall>j<20. j \<noteq> i \<longrightarrow> w (2 ^ j) \<noteq> w (2 ^ i))"

lemma patterns_differ: "pattern_55 \<noteq> pattern_AA"
  by (simp add: pattern_55_def pattern_AA_def)

lemma low_lines:
  assumes "k \<le> 20" and "all_AA m"
  shows "case fst (low_loop (wired w) 0 (2 ^ k) m) of
      None \<Rightarrow> \<forall>i\<in>{k..<20}. alone w i | Some r \<Rightarrow> r \<noteq> 0 \<and> \<not> (\<forall>i\<in>{k..<20}. alone w i)"
  using assms
proof (induction k arbitrary: m rule: inc_induct)
  case base
  show ?case by (subst low_loop.simps) (simp add: line_steps)
next
  case (step k)
  let ?m = "wired w m (2 ^ k) pattern_55"
  have s: "short_loop 0 (2 ^ k) 1 ?m = (if \<forall>j<20. j \<noteq> k \<longrightarrow> w (2 ^ j) \<noteq> w (2 ^ k) then None else Some (2 ^ k))"
    using short_lines [of 0 "2 ^ k" ?m] step.prems step.hyps patterns_differ
    by (auto simp: wired_def all_AA_def powers_distinct)
  have z: "?m 0 \<noteq> pattern_AA \<longleftrightarrow> w 0 = w (2 ^ k)"
    using step.prems patterns_differ by (simp add: wired_def all_AA_def)
  have "all_AA (wired w ?m (2 ^ k) pattern_AA)"
    using step.prems by (simp add: wired_def all_AA_def)
  note IH = step.IH [OF this]
  show ?case
    using IH s z power_nonzero [OF step.hyps(2)] step.hyps
    by (subst low_loop.simps) (simp add: line_steps from_line alone_def Let_def split: option.splits if_splits)
qed

lemma lines_alone: "(\<forall>i\<in>{0..<20}. alone w i) \<longleftrightarrow> inj_on w line_addresses"
proof
  assume a: "\<forall>i\<in>{0..<20}. alone w i"
  show "inj_on w line_addresses"
  proof (rule inj_onI)
    fix x y assume "x \<in> line_addresses" "y \<in> line_addresses" "w x = w y"
    then show "x = y" using a by (auto simp: line_addresses_def alone_def) (metis atLeastLessThan_iff le0)+
  qed
next
  assume i: "inj_on w line_addresses"
  show "\<forall>i\<in>{0..<20}. alone w i"
    using i powers_distinct power_nonzero by (auto simp: alone_def line_addresses_def inj_on_def)
qed

lemma address_bus:
  "fst (memTestAddressBus (wired w) BASE_ADDRESS n m) = 0 \<longleftrightarrow> inj_on w line_addresses"
proof -
  let ?m = "wired w (fill_loop (wired w) 0 1 m) 0 pattern_55" let ?m' = "wired w ?m 0 pattern_AA"
  have f: "fill_loop (wired w) 0 1 m (2 ^ j) = pattern_AA" if "j < 20" for j
    using fill_lines [of 0 w m "2 ^ j"] that by auto
  then have h: "high_loop 0 1 ?m = None \<longleftrightarrow> (\<forall>j<20. w (2 ^ j) \<noteq> w 0)"
    using high_lines(1) [of 0 ?m] patterns_differ by (auto simp: wired_def)
  have a: "all_AA ?m'" if "high_loop 0 1 ?m = None"
    using high_lines(1) [of 0 ?m] that by (auto simp: all_AA_def wired_def f)
  show ?thesis
  proof (cases "high_loop 0 1 ?m")
    case None
    with low_lines [of 0 ?m' w] a show ?thesis
      by (auto simp: memTestAddressBus_def BASE_ADDRESS_def Let_def result_def lines_alone case_prod_beta
          split: option.splits)
  next
    case (Some r)
    with h obtain j where "j < 20" "\<not> alone w j" by (auto simp: alone_def)
    then have "\<not> inj_on w line_addresses" using lines_alone [of w] by auto
    moreover have "r \<noteq> 0" using high_lines(2) [of 0 ?m r] Some by simp
    ultimately show ?thesis using Some by (simp add: memTestAddressBus_def BASE_ADDRESS_def Let_def)
  qed
qed

text \<open>A line that is stuck, and two that are shorted.\<close>

lemma line_faults_found:
  "k < 20 \<Longrightarrow> \<not> inj_on (\<lambda>x. x AND NOT (2 ^ k)) line_addresses"
  "k < 20 \<Longrightarrow> \<not> inj_on (\<lambda>x. x OR 2 ^ k) line_addresses"
  "j < 20 \<Longrightarrow> k < 20 \<Longrightarrow> j \<noteq> k \<Longrightarrow>
     \<not> inj_on (\<lambda>x. if bit x j \<or> bit x k then x OR 2 ^ j OR 2 ^ k else x) line_addresses"
proof -
  have d: "(2 :: i24) ^ k \<in> line_addresses" "0 \<in> line_addresses" if "k < 20" for k
    using that by (auto simp: line_addresses_def)
  show "\<not> inj_on (\<lambda>x. x AND NOT (2 ^ k)) line_addresses" if "k < 20"
    using d [OF that] power_nonzero [OF that] by (auto dest!: inj_onD [of _ _ 0 "2 ^ k"])
  show "\<not> inj_on (\<lambda>x. x OR 2 ^ k) line_addresses" if "k < 20"
    using d [OF that] power_nonzero [OF that] by (auto dest!: inj_onD [of _ _ 0 "2 ^ k"])
  show "\<not> inj_on (\<lambda>x. if bit x j \<or> bit x k then x OR 2 ^ j OR 2 ^ k else x) line_addresses"
    if "j < 20" "k < 20" "j \<noteq> k"
    using d [OF that(1)] d [OF that(2)] powers_distinct [OF that(1,2)] that
    by (auto dest!: inj_onD [of _ _ "2 ^ j" "2 ^ k"] simp: bit_simps ac_simps)
qed

section \<open>The bytes\<close>

text \<open>A memory whose bytes are faulty: the byte at \<open>a\<close> holds \<open>f a b\<close> when \<open>b\<close> is stored.\<close>

definition cells :: "(i24 \<Rightarrow> u8 \<Rightarrow> u8) \<Rightarrow> store" where
  "cells f m a b = m(a := f a b)"

text \<open>The pattern at an offset: the offset plus one, modulo 256.\<close>

definition pattern_at :: "i24 \<Rightarrow> u8" where
  "pattern_at x = of_nat (unat x) + 1"

lemma pattern_0: "pattern_at 0 = 1"
  by (simp add: pattern_at_def)

lemma pattern_step: "i < n \<Longrightarrow> pattern_at i + 1 = pattern_at (i + 1)"
  by (simp add: pattern_at_def offset_Suc(1))

lemma next_offset:
  fixes i n :: i24
  assumes "i < n"
  shows "i + 1 \<le> x \<longleftrightarrow> i < x"
  using offset_Suc(1) [OF assms] by (simp add: word_le_nat_alt word_less_nat_alt Suc_le_eq)

lemma fill_cells:
  "device_fill (cells f) 0 n (pattern_at i) i m =
    (\<lambda>x. if i \<le> x \<and> x < n then f x (pattern_at x) else m x)"
proof (induction "unat n - unat i" arbitrary: i m rule: less_induct)
  case less
  show ?case
  proof (cases "i < n")
    case True
    have "(\<lambda>x. if i + 1 \<le> x \<and> x < n then f x (pattern_at x) else cells f m i (pattern_at i) x) =
        (\<lambda>x. if i \<le> x \<and> x < n then f x (pattern_at x) else m x)"
      using True by (auto simp: next_offset cells_def fun_eq_iff)
    with True less.hyps [of "i + 1" "cells f m i (pattern_at i)", OF offset_Suc(2) [OF True]] show ?thesis
      by (subst device_fill.simps) (simp add: pattern_step [OF True])
  next
    case False
    then show ?thesis by (subst device_fill.simps) (auto simp: fun_eq_iff)
  qed
qed

lemma invert_cells:
  assumes "\<forall>x. i \<le> x \<and> x < n \<longrightarrow> m x = f x (pattern_at x)"
  shows "case device_invert (cells f) 0 n (pattern_at i) i m of
      (None, m') \<Rightarrow> (\<forall>x. i \<le> x \<and> x < n \<longrightarrow> f x (pattern_at x) = pattern_at x) \<and>
        m' = (\<lambda>x. if i \<le> x \<and> x < n then f x (NOT (pattern_at x)) else m x)
    | (Some a, m') \<Rightarrow> i \<le> a \<and> a < n \<and> f a (pattern_at a) \<noteq> pattern_at a \<and>
        (\<forall>x. i \<le> x \<and> x < a \<longrightarrow> f x (pattern_at x) = pattern_at x)"
  using assms
proof (induction "unat n - unat i" arbitrary: i m rule: less_induct)
  case less
  show ?case
  proof (cases "i < n \<and> m i = pattern_at i")
    case True
    let ?m = "cells f m i (NOT (pattern_at i))"
    have "\<forall>x. i + 1 \<le> x \<and> x < n \<longrightarrow> ?m x = f x (pattern_at x)"
      using less.prems True by (auto simp: next_offset cells_def)
    moreover have "(\<lambda>x. if i + 1 \<le> x \<and> x < n then f x (NOT (pattern_at x)) else ?m x) =
        (\<lambda>x. if i \<le> x \<and> x < n then f x (NOT (pattern_at x)) else m x)"
      using True by (auto simp: next_offset cells_def fun_eq_iff)
    ultimately show ?thesis
      using less.hyps [of "i + 1" ?m] offset_Suc(2) [of i n] True less.prems
      by (subst device_invert.simps)
        (auto simp: pattern_step [of i n] next_offset split: option.splits prod.splits dest: le_neq_trans)
  next
    case False
    then show ?thesis using less.prems by (subst device_invert.simps) (auto simp: fun_eq_iff)
  qed
qed

lemma check_cells:
  assumes "\<forall>x. i \<le> x \<and> x < n \<longrightarrow> m x = f x (NOT (pattern_at x))"
  shows "case device_check 0 n (pattern_at i) i m of
      None \<Rightarrow> \<forall>x. i \<le> x \<and> x < n \<longrightarrow> f x (NOT (pattern_at x)) = NOT (pattern_at x)
    | Some a \<Rightarrow> i \<le> a \<and> a < n \<and> f a (NOT (pattern_at a)) \<noteq> NOT (pattern_at a) \<and>
        (\<forall>x. i \<le> x \<and> x < a \<longrightarrow> f x (NOT (pattern_at x)) = NOT (pattern_at x))"
  using assms
proof (induction "unat n - unat i" arbitrary: i rule: less_induct)
  case less
  show ?case
  proof (cases "i < n \<and> m i = NOT (pattern_at i)")
    case True
    have "\<forall>x. i + 1 \<le> x \<and> x < n \<longrightarrow> m x = f x (NOT (pattern_at x))"
      using less.prems True by (auto simp: next_offset)
    from less.hyps [OF offset_Suc(2) this] True less.prems show ?thesis
      by (subst device_check.simps) (auto simp: pattern_step [of i n] next_offset split: option.splits dest: le_neq_trans)
  next
    case False
    then show ?thesis using less.prems by (subst device_check.simps) auto
  qed
qed

lemma device_test:
  assumes "0 < n"
  shows "fst (memTestDevice (cells f) BASE_ADDRESS n m) = 0 \<longleftrightarrow>
    f 0 1 \<noteq> 1 \<or> (\<forall>x<n. f x (pattern_at x) = pattern_at x) \<and>
      (f 0 (NOT 1) \<noteq> NOT 1 \<or> (\<forall>x<n. f x (NOT (pattern_at x)) = NOT (pattern_at x)))"
proof -
  let ?m = "device_fill (cells f) 0 n (pattern_at 0) 0 m"
  have m: "\<forall>x. 0 \<le> x \<and> x < n \<longrightarrow> ?m x = f x (pattern_at x)" by (simp only: fill_cells) simp
  obtain r m' where r: "device_invert (cells f) 0 n (pattern_at 0) 0 ?m = (r, m')" by fastforce
  show ?thesis
  proof (cases r)
    case (Some a)
    with invert_cells [of 0 n ?m f, OF m] r have "a < n" "f a (pattern_at a) \<noteq> pattern_at a"
      "\<forall>x<a. f x (pattern_at x) = pattern_at x" by auto
    moreover from this have "a = 0 \<longleftrightarrow> f 0 1 \<noteq> 1"
      using pattern_0 word_gt_0 [of a] by metis
    ultimately show ?thesis
      using Some r by (auto simp: memTestDevice_def BASE_ADDRESS_def pattern_0)
  next
    case None
    with invert_cells [of 0 n ?m f, OF m] r have g: "\<forall>x<n. f x (pattern_at x) = pattern_at x"
      and c: "\<forall>x. 0 \<le> x \<and> x < n \<longrightarrow> m' x = f x (NOT (pattern_at x))" by auto
    show ?thesis
    proof (cases "device_check 0 n (pattern_at 0) 0 m'")
      case (Some a)
      with check_cells [of 0 n m' f, OF c] have "a < n" "f a (NOT (pattern_at a)) \<noteq> NOT (pattern_at a)"
        "\<forall>x<a. f x (NOT (pattern_at x)) = NOT (pattern_at x)" by auto
      moreover from this have "a = 0 \<longleftrightarrow> f 0 (NOT 1) \<noteq> NOT 1"
        using pattern_0 word_gt_0 [of a] by metis
      moreover have "f 0 1 = 1" using g assms pattern_0 by auto
      ultimately show ?thesis
        using Some None r g by (auto simp: memTestDevice_def BASE_ADDRESS_def result_def pattern_0)
    next
      case None': None
      with check_cells [of 0 n m' f, OF c] None r g show ?thesis
        by (simp add: memTestDevice_def BASE_ADDRESS_def result_def pattern_0)
    qed
  qed
qed

section \<open>A turn of the program\<close>

text \<open>The walking ones notice every stuck bit of the byte at the base address.\<close>

lemma data_bus_cells:
  "fst (data_bus_loop (cells f) a p m) = 0 \<longleftrightarrow> (\<forall>k. f a (push_bit k p) = push_bit k p \<or> push_bit k p = 0)"
proof (induction "cells f" a p m rule: data_bus_loop.induct)
  case (1 a p m)
  have all: "(\<forall>k. P k) \<longleftrightarrow> P 0 \<and> (\<forall>k. P (Suc k))" for P :: "nat \<Rightarrow> bool"
    using not0_implies_Suc by metis
  show ?case
  proof (cases "p \<noteq> 0 \<and> f a p = p")
    case True
    then show ?thesis
      using 1 by (subst all, subst data_bus_loop.simps) (simp add: cells_def)
  next
    case False
    then show ?thesis by (subst all, subst data_bus_loop.simps) (auto simp: cells_def)
  qed
qed

lemma ideal_cells: "ideal_store = cells (\<lambda>_ b. b)" and ideal_wired: "ideal_store = wired (\<lambda>x. x)"
  by (auto simp: fun_eq_iff ideal_store_def cells_def wired_def)

text \<open>On fault-free memory every turn of the program reports a pass, from whatever the memory holds.\<close>

lemma memtest_passes: "memtest_main n ideal_store m = concat (replicate n ''Pass '')"
proof -
  have "fst (memTestDataBus ideal_store BASE_ADDRESS m) = 0" for m
    by (simp add: memTestDataBus_def ideal_cells data_bus_cells)
  moreover have "fst (memTestAddressBus ideal_store BASE_ADDRESS NUM_BYTES m) = 0" for m
    by (simp add: ideal_wired address_bus)
  moreover have "fst (memTestDevice ideal_store BASE_ADDRESS NUM_BYTES m) = 0" for m
    using device_test [of NUM_BYTES "\<lambda>_ b. b" m]
    by (simp add: ideal_cells NUM_BYTES_def ADDRESS_MASK_def BASE_ADDRESS_def)
  ultimately have "fst (memtest_turn ideal_store m) = ''Pass ''" for m
    by (simp add: memtest_turn_def case_prod_beta)
  then show ?thesis by (induction n arbitrary: m) (simp_all add: case_prod_beta)
qed

section \<open>Properties\<close>

text \<open>C18: For a memory whose address lines are broken in whatever way, the test of the address bus passes
  exactly when the base address and the twenty addresses along single lines are all told apart; so
  it fails for every line that is stuck low or high.\<close>

theorem address_bus_exact:
  "(fst (memTestAddressBus (wired w) BASE_ADDRESS n m) = 0 \<longleftrightarrow> inj_on w line_addresses) \<and>
   (\<forall>k<20. fst (memTestAddressBus (wired (\<lambda>x. x AND NOT (2 ^ k))) BASE_ADDRESS n m) \<noteq> 0 \<and>
     fst (memTestAddressBus (wired (\<lambda>x. x OR 2 ^ k)) BASE_ADDRESS n m) \<noteq> 0)"
  using line_faults_found(1,2) by (simp add: address_bus)

text \<open>The fourth line stuck low.\<close>

theorem address_bus_exact_witness:
  "fst (memTestAddressBus (wired (\<lambda>x. x AND NOT (2 ^ 3))) BASE_ADDRESS NUM_BYTES (\<lambda>_. 0)) \<noteq> 0"
proof -
  have "(3 :: nat) < 20" by simp
  with address_bus_exact [of "\<lambda>x. x" NUM_BYTES "\<lambda>_. 0"] show ?thesis by blast
qed

text \<open>C19: For a memory whose bytes are broken in whatever way, the device test passes exactly when all bytes
  take both their patterns, or when it has stopped at address 0: the address of the first wrong byte
  is the result, and for byte 0 that is the value of a pass.  If byte 0 does not take its pattern,
  no other byte matters.\<close>

theorem device_test_exact:
  assumes "0 < n"
  shows "fst (memTestDevice (cells f) BASE_ADDRESS n m) = 0 \<longleftrightarrow>
    f 0 1 \<noteq> 1 \<or> (\<forall>x<n. f x (pattern_at x) = pattern_at x) \<and>
      (f 0 (NOT 1) \<noteq> NOT 1 \<or> (\<forall>x<n. f x (NOT (pattern_at x)) = NOT (pattern_at x)))"
  by (rule device_test [OF assms])

text \<open>Stuck bits in byte 0: the bytes above may be as bad as can be.\<close>

theorem device_test_exact_witness:
  "fst (memTestDevice (cells (\<lambda>x b. if x = 0 then 0 else NOT b)) BASE_ADDRESS NUM_BYTES (\<lambda>_. 0)) = 0"
  using device_test_exact [of NUM_BYTES "\<lambda>x b. if x = 0 then 0 else NOT b" "\<lambda>_. 0"]
  by (simp add: NUM_BYTES_def ADDRESS_MASK_def BASE_ADDRESS_def)

end
