(* ===== verification/Tinyc_Count.thy ===== *)
theory Tinyc_Count
  imports Prelude
begin

text \<open>
  The counter for the UART (\<open>reference/tinyc-count/count.c\<close>): the digits of the number are kept in a
  buffer of eight characters and counted up like an odometer.  The operations return the text they
  write.  The wait for the transmitter and the pause are not modelled.  A variable that counts down to
  \<open>-1\<close> is a natural number, one higher.
\<close>

section \<open>The program\<close>

text \<open>The \<open>r\<close> digits from index \<open>i\<close> on, and the end of the line.\<close>

fun digits_loop :: "string \<Rightarrow> nat \<Rightarrow> nat \<Rightarrow> string" where
  "digits_loop digits 0 i = []"
| "digits_loop digits (Suc r) i = digits ! i # digits_loop digits r (Suc i)"

definition print_digits :: "string \<Rightarrow> nat \<Rightarrow> string" where
  "print_digits digits len = digits_loop digits len 0 @ [CHR 13, CHR 10]"

text \<open>The trailing nines become zeros; the result is the index it stops at, plus one.\<close>

fun carry_loop :: "nat \<Rightarrow> string \<Rightarrow> nat \<times> string" where
  "carry_loop 0 digits = (0, digits)"
| "carry_loop (Suc i) digits = (if digits ! i = CHR ''9'' then carry_loop i (digits[i := CHR ''0''])
     else (Suc i, digits))"

fun shift_loop :: "nat \<Rightarrow> string \<Rightarrow> string" where
  "shift_loop 0 digits = digits"
| "shift_loop (Suc i) digits = shift_loop i (digits[Suc i := digits ! i])"

definition increment_digits :: "string \<Rightarrow> nat \<Rightarrow> nat \<times> string" where
  "increment_digits digits len = (let (i, digits) = carry_loop len digits in
     if i > 0 then (len, digits[i - 1 := char_of ((of_char (digits ! (i - 1)) :: nat) + 1)])
     else if len < 7 then (len + 1, (shift_loop len digits)[0 := CHR ''1''])
     else (1, digits))"

text \<open>The first \<open>n\<close> turns of the loop of \<open>main\<close>; the buffer is not initialised but for its first digit.\<close>

fun count_loop :: "nat \<Rightarrow> string \<Rightarrow> nat \<Rightarrow> string" where
  "count_loop 0 digits len = []"
| "count_loop (Suc n) digits len = print_digits digits len @
     (let (len, digits) = increment_digits digits len in count_loop n digits len)"

definition count_main :: "nat \<Rightarrow> string \<Rightarrow> string" where
  "count_main n digits = count_loop n (digits[0 := CHR ''0'']) 1"

section \<open>Numbers in decimal\<close>

definition digit :: "nat \<Rightarrow> char" where
  "digit d = char_of (48 + d)"

fun decimal :: "nat \<Rightarrow> string" where
  "decimal k = (if k < 10 then [digit k] else decimal (k div 10) @ [digit (k mod 10)])"

declare decimal.simps [simp del]

text \<open>The same with a fixed number of digits.\<close>

fun dec :: "nat \<Rightarrow> nat \<Rightarrow> string" where
  "dec 0 k = []"
| "dec (Suc i) k = dec i (k div 10) @ [digit (k mod 10)]"

lemma length_dec [simp]: "length (dec i k) = i"
  by (induction i arbitrary: k) auto

lemma dec_decimal: "k < 10 ^ Suc i \<Longrightarrow> i = 0 \<or> 10 ^ i \<le> k \<Longrightarrow> dec (Suc i) k = decimal k"
proof (induction i arbitrary: k)
  case (Suc i)
  then have k: "10 * 10 ^ i \<le> k" "k < 10 * 10 ^ Suc i" by simp_all
  then have "10 ^ i \<le> k div 10" "k div 10 < 10 ^ Suc i" by (auto simp: less_eq_div_iff_mult_less_eq div_less_iff_less_mult ac_simps)
  moreover have "\<not> k < 10" using k(1) one_le_power [of "10 :: nat" i] by linarith
  ultimately show ?case using Suc.IH [of "k div 10"] by (subst decimal.simps) simp
qed (simp add: decimal.simps)

lemma digit_simps: "digit 0 = CHR ''0''" "digit (Suc 0) = CHR ''1''" "digit 1 = CHR ''1''" "digit 9 = CHR ''9''"
  by (simp_all add: digit_def char_of_def bit_iff_odd)

lemma digit_value: "d < 10 \<Longrightarrow> of_char (digit d) = 48 + d"
  by (simp add: digit_def)

lemma digit_nine: "d < 10 \<Longrightarrow> digit d = CHR ''9'' \<longleftrightarrow> d = 9"
  using digit_value [of d] digit_simps(4) by auto

lemma digit_next: "d < 10 \<Longrightarrow> char_of (Suc (of_char (digit d))) = digit (Suc d)"
  by (simp add: digit_value) (simp add: digit_def)

lemma carry_frame: "length (snd (carry_loop i ds)) = length ds" "i \<le> n \<Longrightarrow> snd (carry_loop i ds) ! n = ds ! n"
    "fst (carry_loop i ds) \<le> i"
  by (induction i arbitrary: ds) (auto simp: le_Suc_eq)

lemma carry_spec:
  assumes "take i ds = dec i k" and "k < 10 ^ i" and "i \<le> length ds" and "carry_loop i ds = (j, ds')"
  shows "if Suc k = 10 ^ i then j = 0 \<and> take i ds' = dec i 0
    else j > 0 \<and> take i (ds'[j - 1 := char_of ((of_char (ds' ! (j - 1)) :: nat) + 1)]) = dec i (Suc k)"
  using assms
proof (induction i arbitrary: ds k)
  case (Suc i)
  have t: "take i ds = dec i (k div 10)" "ds ! i = digit (k mod 10)"
    using Suc.prems(1,3) by (simp_all add: take_Suc_conv_app_nth)
  show ?case
  proof (cases "k mod 10 = 9")
    case True
    then have e: "Suc k = 10 * Suc (k div 10)" by presburger
    then have n: "Suc k div 10 = Suc (k div 10)" "Suc k mod 10 = 0" using True by (simp_all add: mod_Suc div_Suc)
    have n': "Suc k = 10 ^ Suc i \<longleftrightarrow> Suc (k div 10) = 10 ^ i" unfolding e power_Suc nat_mult_eq_cancel_disj by simp
    let ?ds = "ds[i := CHR ''0'']"
    have c: "carry_loop i ?ds = (j, ds')" using Suc.prems(4) True t(2) by (simp add: digit_simps)
    have d: "length ds' = length ds" "ds' ! i = CHR ''0''" "j \<le> i"
      using carry_frame(1) [of i ?ds] carry_frame(2) [of i i ?ds] carry_frame(3) [of i ?ds] Suc.prems(3)
      by (simp_all add: c)
    have k: "k div 10 < 10 ^ i" using Suc.prems(2) by (simp add: div_less_iff_less_mult)
    show ?thesis
      using Suc.IH [OF _ k _ c] t(1) n n' d Suc.prems(3)
      by (auto simp: take_Suc_conv_app_nth digit_simps nth_list_update)
  next
    case False
    then have m: "k mod 10 < 9" "Suc k div 10 = k div 10" "Suc k mod 10 = Suc (k mod 10)"
      by (auto simp: div_Suc mod_Suc)
    then have "Suc k \<noteq> 10 ^ Suc i" by (metis dvd_mult2 dvd_refl mod_0_imp_dvd dvd_eq_mod_eq_0 nat.distinct(1) power_Suc)
    moreover have "j = Suc i" "ds' = ds" using Suc.prems(4) m(1) t(2) by (simp_all add: digit_nine)
    ultimately show ?thesis
      using m t Suc.prems(3) by (simp add: take_Suc_conv_app_nth digit_next)
  qed
qed simp


section \<open>The buffer shows a number\<close>

definition shows_number :: "string \<Rightarrow> nat \<Rightarrow> nat \<Rightarrow> bool" where
  "shows_number ds len k \<longleftrightarrow> length ds = 8 \<and> 1 \<le> len \<and> len \<le> 7 \<and> k < 10 ^ len \<and> (len = 1 \<or> 10 ^ (len - 1) \<le> k) \<and>
     take len ds = dec len k"

lemma print_shows:
  assumes "shows_number ds len k"
  shows "print_digits ds len = decimal k @ [CHR 13, CHR 10]"
proof -
  have "digits_loop ds r i = take r (drop i ds)" if "i + r \<le> length ds" for r i
    using that by (induction r arbitrary: i) (simp_all add: take_Suc_conv_app_nth Cons_nth_drop_Suc [symmetric])
  from this [of 0 len] have "digits_loop ds len 0 = take len ds" using assms by (simp add: shows_number_def)
  moreover have "dec len k = decimal k"
    using assms dec_decimal [of k "len - 1"] by (cases len) (auto simp: shows_number_def)
  ultimately show ?thesis
    using assms by (simp add: print_digits_def shows_number_def)
qed

lemma shift_loop_nth:
  assumes "i < length ds"
  shows "length (shift_loop i ds) = length ds"
    and "n < length ds \<Longrightarrow> shift_loop i ds ! n = (if 1 \<le> n \<and> n \<le> i then ds ! (n - 1) else ds ! n)"
  using assms by (induction i arbitrary: ds) (auto simp: nth_list_update le_Suc_eq)

lemma increment_shows:
  assumes "shows_number ds len k"
  shows "case increment_digits ds len of (len', ds') \<Rightarrow> shows_number ds' len' (Suc k mod 10000000)"
proof -
  from assms have s: "length ds = 8" "1 \<le> len" "len \<le> 7" "k < 10 ^ len" "take len ds = dec len k"
    "len = 1 \<or> 10 ^ (len - 1) \<le> k" by (simp_all add: shows_number_def)
  obtain j ds' where c: "carry_loop len ds = (j, ds')" by fastforce
  have l: "length ds' = 8" using carry_frame(1) [of len ds] c s(1) by simp
  have top: "(10 :: nat) ^ len \<le> 10000000" using power_increasing [OF s(3), of "10 :: nat"] by simp
  have spec: "if Suc k = 10 ^ len then j = 0 \<and> take len ds' = dec len 0
    else j > 0 \<and> take len (ds'[j - 1 := char_of ((of_char (ds' ! (j - 1)) :: nat) + 1)]) = dec len (Suc k)"
    using carry_spec [OF s(5,4) _ c] s(1,3) by simp
  show ?thesis
  proof (cases "Suc k = 10 ^ len")
    case False
    then have "Suc k < 10 ^ len" using s(4) by simp
    then show ?thesis using False spec s l top c by (auto simp: increment_digits_def shows_number_def)
  next
    case True
    then have z: "j = 0" "take len ds' = dec len 0" using spec by simp_all
    show ?thesis
    proof (cases "len < 7")
      case small: True
      have "take (Suc len) ((shift_loop len ds')[0 := CHR ''1'']) = CHR ''1'' # take len ds'"
      proof (rule nth_equalityI)
        fix n assume "n < length (take (Suc len) ((shift_loop len ds')[0 := CHR ''1'']))"
        then show "take (Suc len) ((shift_loop len ds')[0 := CHR ''1'']) ! n = (CHR ''1'' # take len ds') ! n"
          using small l shift_loop_nth [of len ds'] by (cases n) auto
      qed (use small l shift_loop_nth [of len ds'] in simp)
      moreover have "dec (Suc i) (10 ^ i) = CHR ''1'' # dec i 0" for i
        by (induction i) (simp_all add: digit_simps)
      from this [of len] have "dec (Suc len) (Suc k) = CHR ''1'' # dec len 0" by (simp only: True)
      moreover have "(10 :: nat) ^ len < 10000000" using power_strict_increasing [OF small, of "10 :: nat"] by simp
      moreover have "increment_digits ds len = (Suc len, (shift_loop len ds')[0 := CHR ''1''])"
        using z(1) small c by (simp add: increment_digits_def)
      moreover have "length (shift_loop len ds') = 8" using shift_loop_nth(1) [of len ds'] small l by simp
      ultimately have "shows_number ((shift_loop len ds')[0 := CHR ''1'']) (Suc len) (Suc k)"
        using True small z(2) s(2) unfolding shows_number_def by simp
      then show ?thesis using \<open>10 ^ len < 10000000\<close> True \<open>increment_digits ds len = _\<close> by simp
    next
      case False
      with s(3) have "len = 7" by simp
      moreover have "dec (Suc i) 0 = digit 0 # dec i 0" for i by (induction i) simp_all
      from this [of "len - 1"] have "dec len 0 = digit 0 # dec (len - 1) 0" using s(2) by simp
      with z(2) s(2) have "take 1 ds' = [digit 0]" by (cases ds'; cases len) auto
      ultimately show ?thesis using True z l c by (simp add: increment_digits_def shows_number_def)
    qed
  qed
qed

text \<open>C20: The counter writes the numbers 0, 1, 2 and so on in decimal, one to a line, up to 9,999,999 and then
  from 0 again, for ever and whatever the buffer holds at the start.\<close>

theorem counter_counts:
  assumes "length digits = 8"
  shows "count_main n digits = concat (map (\<lambda>k. decimal (k mod 10000000) @ [CHR 13, CHR 10]) [0..<n])"
proof -
  have loop: "count_loop n ds len = concat (map (\<lambda>k. decimal (k mod 10000000) @ [CHR 13, CHR 10]) [i..<i + n])"
    if "shows_number ds len (i mod 10000000)" for ds len i using that
  proof (induction n arbitrary: ds len i)
    case (Suc n)
    from increment_shows [OF Suc.prems] obtain len' ds' where
      i: "increment_digits ds len = (len', ds')" "shows_number ds' len' (Suc i mod 10000000)"
      by (auto simp: mod_Suc_eq split: prod.splits)
    have "[i..<i + Suc n] = i # [Suc i..<Suc i + n]" by (simp add: upt_conv_Cons)
    with Suc.IH [OF i(2)] i(1) print_shows [OF Suc.prems] show ?case by (simp del: upt_Suc)
  qed simp
  have "shows_number (digits[0 := CHR ''0'']) 1 (0 mod 10000000)"
    using assms by (cases digits) (auto simp: shows_number_def digit_simps)
  from loop [OF this] show ?thesis by (simp add: count_main_def)
qed

theorem counter_counts_witness: "count_main 3 ''xxxxxxxx'' = ''0'' @ [CHR 13, CHR 10] @ ''1'' @ [CHR 13, CHR 10] @ ''2'' @ [CHR 13, CHR 10]"
  using counter_counts [of "''xxxxxxxx''" 3]
  by (simp add: upt_rec decimal.simps digit_def char_of_def bit_iff_odd)

end
