(* ===== verification/Spec2Isabelle.thy ===== *)
theory Spec2Isabelle
  imports Prelude Te2_Loader Te2_Loader_Correct Te2_Host Te2_Host_Correct Te2_Link Te2_Transfer
    Te2_Bootstrap Loadngo Uart_Ring Tml_Prelude Tml_Compile_Props Tml_Snapshot_Correct Tml_Eval_Correct
    Te2_Port Te_Terminal Memtest_Correct Tinyc_Count
begin

text \<open>
  A verification development for the C programs of the repository: the two ends of the serial loader
  TE2, the monitor resident in the COR24 board, the Lisp suite that runs on it (runtime, evaluator,
  compiler, snapshots, monitor), the terminal, and three of the programs under \<open>reference/\<close>.  This
  text says what is modelled, how, what is proved, and what is left out.  Paths are relative to the
  root of the repository; \<open>lisp/\<close> abbreviates \<open>suites/combined-lisp/src/\<close>.

  \<^bold>\<open>The programs and how they interact.\<close>  A host runs \<open>te/te2/te2.c\<close>.  Through the monitor
  \<open>reference/loadngo.c\<close> in the board's ROM it loads the second-stage loader \<open>te/te2/te2-loader.c\<close>,
  checking the echo of every line; then it sends an image in numbered records with checksums,
  resending what is not acknowledged, compares the checksum of the whole stream and lets the
  loader jump.  \<open>te/te/te.c\<close> is the older terminal.  What is loaded may be the Lisp suite: a monitor
  (\<open>lisp/combined-suite.c\<close>) that starts one of two interpreters, each a read-evaluate-print loop over
  the line editor, reader, evaluator and printer, all on a heap with a mark-and-sweep collector that
  scans the C stack conservatively.  \<open>lisp/compile.h\<close> compiles Lisp to assembly text,
  \<open>lisp/snapshot.h\<close> saves and restores the interpreter.

  \<^bold>\<open>Machine types.\<close>  The COR24 compiler's \<open>int\<close> and its pointers are \<open>i24\<close> (\<open>24 word\<close>): arithmetic wraps,
  comparison is \<open>sint\<close>; its \<open>char\<close> is signed (\<open>schar\<close>).  On the host \<open>unsigned\<close> is 32 and \<open>unsigned
  long\<close> 64 bits wide.  Division of Lisp numbers truncates as in C.  \<open>Prelude\<close> has these types, the
  hexadecimal digits, and the facts on words that the other theories share.

  \<^bold>\<open>State, effects and errors.\<close>  Each program is a group of definitions over a record of its globals.
  \<^item> TE2 loader (\<open>Te2_Loader\<close>): \<open>loader_state\<close> holds the line buffer, the next sequence number, the
    running checksum, the memory and both sides of the UART; what a store does to memory is a
    parameter (\<open>store\<close>, with \<open>ideal_store\<close> for fault-free memory).  A jump is recorded, not run.
  \<^item> Host (\<open>Te2_Host\<close>, \<open>Te2_Bootstrap\<close>): retry loops over a \<open>transport\<close>, a pair of operations that
    send a text and wait for a line; \<open>host_error\<close> is the value of \<open>die\<close>.  \<open>Te2_Port\<close> has the system
    calls beneath: every call takes its answer from a list in the state, and is \<open>Stuck\<close> when
    there is none.  \<open>Te_Terminal\<close> models \<open>te.c\<close> in the same way.
  \<^item> Resident monitor (\<open>Loadngo\<close>): the buffer of the line, the position in it, memory and UART;
    \<open>None\<close> is a read past the buffer.
  \<^item> UART echo with interrupts (\<open>Uart_Ring\<close>): \<open>reference/uartcint.c\<close> as a step relation that
    interleaves the interrupt routine with every step of \<open>main\<close>.
  \<^item> Lisp (\<open>Tml\<close> and the theories \<open>Tml_...\<close>): the record \<open>lisp\<close> holds all globals of the runtime; arrays
    are functions on \<open>nat\<close>, guarded where the code indexes them.  An operation is a function from
    the state to an outcome: \<open>Done\<close> with a value, \<open>Halted\<close> (\<open>halt\<close>, after a PANIC), \<open>Waiting\<close> for
    input, \<open>Wild\<close> for an access outside the arrays and outside what C defines, where the code is
    silently wrong, and \<open>Starved\<close> for fuel that ran out.  \<open>bnd\<close> composes them.
  \<^item> The C stack of the Lisp: the collector scans it, so it is part of the state (\<open>c_stack\<close>).
    \<open>hold vs m\<close> runs \<open>m\<close> with the locals \<open>vs\<close> of its caller on it.  Words in buffers of
    \<open>repl\<close> are a parameter (\<open>words\<close>).
  \<^item> Memory test and counter (\<open>Memtest\<close>, \<open>Tinyc_Count\<close>): \<open>reference/memtest.c\<close> over memory with a
    \<open>store\<close>, \<open>reference/tinyc-count/count.c\<close> over its buffer.

  \<^bold>\<open>Theories and sources.\<close>
  \<^item> \<open>Te2_Loader\<close>: \<open>te/te2/te2-loader.c\<close>.  \<open>Te2_Host\<close>, \<open>Te2_Bootstrap\<close>, \<open>Te2_Port\<close>: \<open>te/te2/te2.c\<close>.
    \<open>Te_Terminal\<close>: \<open>te/te/te.c\<close>.  \<open>Te2_Link\<close>: the line between the two ends, with faults.
  \<^item> \<open>Loadngo\<close>, \<open>Uart_Ring\<close>, \<open>Memtest\<close>, \<open>Tinyc_Count\<close>: the files of \<open>reference/\<close> named above.
  \<^item> \<open>Tml\<close>: \<open>lisp/tml.h\<close>, \<open>heap.h\<close>, output of \<open>io.h\<close>.  \<open>Tml_Gc\<close>: \<open>gc.h\<close>, \<open>alloc_cell\<close>, \<open>cons\<close>.
    \<open>Tml_Symbol\<close>, \<open>Tml_String\<close>, \<open>Tml_Print\<close>, \<open>Tml_Read\<close>, \<open>Tml_Line\<close>: \<open>symbol.h\<close>, \<open>string.h\<close>,
    \<open>print.h\<close>, \<open>read.h\<close>, \<open>read_line\<close> of \<open>io.h\<close>.  \<open>Tml_Prims\<close>, \<open>Tml_Eval\<close>: \<open>eval.h\<close>.
    \<open>Tml_Suite\<close>: \<open>combined-suite.c\<close>.  \<open>Tml_Prelude\<close>: the four \<open>prelude-*.h\<close>.
    \<open>Tml_Compile\<close>: \<open>compile.h\<close>.  \<open>Tml_Snapshot\<close>: \<open>snapshot.h\<close>.
  Functions keep their names, but for a prefix where two programs share one; a loop of a function
  \<open>f\<close> is a definition of its own beside it.

  \<^bold>\<open>What is proved of TE2.\<close>
  \<^item> \<open>Te2_Loader_Correct\<close>: no input changes the loader's own memory; the memory, the checksum and the
    next sequence number are always those of one list of accepted records; a record sent again
    changes nothing; corruption within two adjacent bytes is noticed; no jump without the confirmed
    checksum.
  \<^item> \<open>Te2_Host_Correct\<close>, \<open>Te2_Link\<close>, \<open>Te2_Transfer\<close>: if the host reports success over a line that
    loses, changes and delays characters and replies, the loader's memory is the image of the file
    (given that damage is noticed, which the hypothesis \<open>faults_noticed\<close> states); on a line without
    faults every well-formed image is loaded and entered.  The locale \<open>host_link\<close> is the contract
    the retry loops need, \<open>perfect_link\<close> the one for progress; both are interpreted on the line.
  \<^item> \<open>Te2_Bootstrap\<close>: success means that every load line was echoed.  \<open>Te2_Port\<close>: sending over the
    operating system is paced by CTS and refines the model the transfer is proved with; the reader
    and the terminal mode copy in order (locale \<open>sink\<close>).

  \<^bold>\<open>What is proved of the Lisp.\<close>
  \<^item> \<open>Tml_Gc_Correct\<close>, \<open>Tml_Alloc\<close>: marking reaches exactly the reachable cells, sweeping frees exactly
    the others, allocation hands out an unreachable cell and keeps every live one.  The locale
    \<open>cell_allocator\<close> is the contract clients build on; it is interpreted on both allocators.
  \<^item> \<open>Tml_Symbol\<close>, \<open>Tml_String\<close>: tables as lists of names and texts.  \<open>Tml_Build\<close>, \<open>Tml_Read_Correct\<close>,
    \<open>Tml_Read_Print\<close>: the reader refines a parser on data without heap, returns, and reads back what
    the printer wrote.  \<open>Tml_Runtime\<close> states the results for the runtime.
  \<^item> \<open>Tml_Steady\<close>: for every program, evaluation restores the depths of all stacks and changes no
    symbol and no text (locale \<open>evaluators\<close>, interpreted on \<open>eval n\<close> and \<open>apply_fn n\<close> for all \<open>n\<close>).
    \<open>Tml_Env\<close>: lookup and binding against association lists.  \<open>Tml_Boot\<close>: what a reset leaves.
  \<^item> \<open>Tml_Lang\<close> is a big-step semantics of the language (\<open>evaluates\<close>) on values without heap
    (\<open>sval\<close> of \<open>Tml_Values\<close>, where closures carry their environment).  \<open>Tml_Build_Values\<close>,
    \<open>Tml_Args\<close>, \<open>Tml_Prim_Correct\<close> and \<open>Tml_Eval_Correct\<close> show that the evaluator refines it, with
    collections at any allocation: \<open>shape\<close> says which value a word denotes, \<open>runs\<close> that an
    operation returns or halts after a panic.  The result holds from some depth of nested
    calls on.  Macros, quasiquote, \<open>define\<close>, \<open>set!\<close>, \<open>catch\<close>, \<open>throw\<close>, \<open>dynamic-wind\<close>, strings, and
    what prints a message have no rule in the semantics.
  \<^item> \<open>Tml_Repl\<close>: a quoted datum through the whole loop, and the line editor against one that rescans.
    \<open>Tml_Prelude\<close>: every text of the preludes is read to its end.
  \<^item> \<open>Tml_Codegen\<close>, \<open>Tml_Codegen_Safe\<close>, \<open>Tml_Compile_Correct\<close>, \<open>Tml_Compile_Props\<close>: the compiler writes,
    byte for byte, the code of a generator that has neither heap nor collector, and that code is well
    typed as stack code: one definition per label, one stack height per place, returns at the height
    of the entry.
  \<^item> \<open>Tml_Snapshot_Correct\<close>: what is saved is restored (locale \<open>runtime_array\<close> with its extensions
    \<open>int_array\<close> and \<open>char_array\<close>, interpreted on the five arrays of the runtime).

  \<^bold>\<open>And of the rest.\<close>  \<open>Loadngo\<close>: load lines and a call line are obeyed, and no line makes the monitor
  read past its buffer.  \<open>Uart_Ring\<close>: under every interleaving no character is lost, doubled or
  reordered (locale \<open>bounded_queue\<close>).  \<open>Te_Terminal\<close>: exactly what the keys mean is sent.
  \<open>Memtest_Correct\<close>: which faults the memory test finds.  \<open>Tinyc_Count\<close>: what the counter writes.

  \<^bold>\<open>Where the code falls short.\<close>  Some properties record behaviour that a comment or a document
  contradicts: the range check of the loader that wraps around, the header counted twice after a
  failed read-back, the stack scan that sends the collector out of the heap, the reader that never
  consumes a stray parenthesis, the throw that runs enclosing after thunks, the unchecked table of
  globals of the compiler, the memory fault at address 0 that reads as a pass.

  \<^bold>\<open>Fuel and bounds.\<close>  Loops over a list, an input or a counter are recursion with a termination proof.
  Where the code may not end, there is fuel: \<open>walk_fuel\<close> (more than the cells of the heap) for walks
  along lists, after which a walk repeats itself; the fuel of the reader, enough when it is three
  times the length of the text plus two; \<open>print_fuel\<close> of the datum for the printer, since a cyclic
  list is printed for ever; a number of nested calls for \<open>eval\<close>, over which the properties quantify;
  for the compiler the size of the program, its number of expressions and \<open>CFMAX\<close> (\<open>compilable\<close>);
  turns of the loops of \<open>main\<close>.  \<open>Starved\<close> is never
  counted as success.

  \<^bold>\<open>Not modelled.\<close>
  \<^item> Waiting for the hardware (UART status, transmitter busy) and pauses: they change nothing modelled.
  \<^item> The depth of the C stack, and what a stray pointer reads: \<open>peek\<close> and \<open>poke\<close> of the Lisp, and
    accesses outside the arrays, are \<open>Wild\<close>.
  \<^item> Programs that are loaded or compiled are not run: the COR24 instruction set is not in C.
    That a compiled program computes what the evaluator does is therefore not stated.
  \<^item> \<open>configure_serial\<close>, \<open>restore\<close> and the signal handlers of \<open>te2.c\<close>, termios and the handler of
    \<open>te.c\<close>: calls of the operating system without data of their own.
  \<^item> \<open>reference/matrix.c\<close>, \<open>ldpi34.c\<close>, \<open>pidemo.c\<close>, \<open>tprintf.c\<close>, \<open>fib.c\<close>, \<open>sieve.c\<close>, \<open>hello.c\<close>,
    \<open>blinky.c\<close>: floating point and the formatted output of a library that is not in the repository,
    or nothing but a call.
\<close>

end
